(* ===== verification/Jos_Prelude.thy ===== *)
theory Jos_Prelude
  imports Main "HOL-Library.Word" "HOL-Library.Monad_Syntax"
begin

unbundle bit_operations_syntax

text \<open>
  Shared ground of the development: the machine types of \<open>inc/types.h\<close>, the address
  macros of \<open>inc/mmu.h\<close> and \<open>inc/memlayout.h\<close>, the error codes of \<open>inc/error.h\<close>,
  chains of links (the shape of every free list of the kernel), and the generic lemmas on
  words, options and finite counts that the components share. Facts that move a macro from
  words to natural numbers are collected in \<open>mmu_simps\<close>.
\<close>

section \<open>Types of inc/types.h\<close>

type_synonym u8 = "8 word"
type_synonym u16 = "16 word"
type_synonym u32 = "32 word"
type_synonym u64 = "64 word"

named_theorems mmu_simps \<open>address macros as arithmetic on natural numbers\<close>
named_theorems layout_defs \<open>constants of the memory layout\<close>

definition ROUNDDOWN :: "u32 \<Rightarrow> u32 \<Rightarrow> u32" where
  "ROUNDDOWN a n = a - a mod n"

definition ROUNDUP :: "u32 \<Rightarrow> u32 \<Rightarrow> u32" where
  "ROUNDUP a n = ROUNDDOWN (a + n - 1) n"

section \<open>Errors of inc/error.h\<close>

datatype error =
    E_UNSPECIFIED | E_BAD_ENV | E_INVAL | E_NO_MEM | E_NO_FREE_ENV | E_FAULT
  | E_IPC_NOT_RECV | E_EOF | E_NO_DISK | E_MAX_OPEN | E_NOT_FOUND | E_BAD_PATH
  | E_FILE_EXISTS | E_NOT_EXEC | E_NOT_SUPP

fun error_code :: "error \<Rightarrow> int" where
  "error_code E_UNSPECIFIED = 1"
| "error_code E_BAD_ENV = 2"
| "error_code E_INVAL = 3"
| "error_code E_NO_MEM = 4"
| "error_code E_NO_FREE_ENV = 5"
| "error_code E_FAULT = 6"
| "error_code E_IPC_NOT_RECV = 7"
| "error_code E_EOF = 8"
| "error_code E_NO_DISK = 9"
| "error_code E_MAX_OPEN = 10"
| "error_code E_NOT_FOUND = 11"
| "error_code E_BAD_PATH = 12"
| "error_code E_FILE_EXISTS = 13"
| "error_code E_NOT_EXEC = 14"
| "error_code E_NOT_SUPP = 15"

definition MAXERROR :: int where
  "MAXERROR = 16"

lemma error_code_inj: "error_code a = error_code b \<longleftrightarrow> a = b"
  by (cases a; cases b; simp)

section \<open>Paging macros of inc/mmu.h\<close>

definition PGSIZE :: u32 where [layout_defs]: "PGSIZE = 4096"
definition PTSIZE :: u32 where [layout_defs]: "PTSIZE = 4194304"

definition PGNUM :: "u32 \<Rightarrow> u32" where
  "PGNUM la = drop_bit 12 la"

definition PDX :: "u32 \<Rightarrow> u32" where
  "PDX la = drop_bit 22 la AND 0x3FF"

definition PTX :: "u32 \<Rightarrow> u32" where
  "PTX la = drop_bit 12 la AND 0x3FF"

definition PGOFF :: "u32 \<Rightarrow> u32" where
  "PGOFF la = la AND 0xFFF"

definition PGADDR :: "u32 \<Rightarrow> u32 \<Rightarrow> u32 \<Rightarrow> u32" where
  "PGADDR d t off = push_bit 22 d OR push_bit 12 t OR off"

definition PTE_ADDR :: "u32 \<Rightarrow> u32" where
  "PTE_ADDR pte = pte AND NOT 0xFFF"

definition PTE_P :: u32 where [layout_defs]: "PTE_P = 0x001"
definition PTE_W :: u32 where [layout_defs]: "PTE_W = 0x002"
definition PTE_U :: u32 where [layout_defs]: "PTE_U = 0x004"
definition PTE_PWT :: u32 where [layout_defs]: "PTE_PWT = 0x008"
definition PTE_PCD :: u32 where [layout_defs]: "PTE_PCD = 0x010"
definition PTE_D :: u32 where [layout_defs]: "PTE_D = 0x040"
definition PTE_PS :: u32 where [layout_defs]: "PTE_PS = 0x080"
definition PTE_AVAIL :: u32 where [layout_defs]: "PTE_AVAIL = 0xE00"

definition PTE_SYSCALL :: u32 where
  "PTE_SYSCALL = PTE_AVAIL OR PTE_P OR PTE_W OR PTE_U"

section \<open>Memory layout of inc/memlayout.h\<close>

definition KERNBASE :: u32 where [layout_defs]: "KERNBASE = 0xF0000000"
definition IOPHYSMEM :: u32 where [layout_defs]: "IOPHYSMEM = 0x0A0000"
definition EXTPHYSMEM :: u32 where [layout_defs]: "EXTPHYSMEM = 0x100000"
definition KSTACKTOP :: u32 where "KSTACKTOP = KERNBASE"
definition KSTKSIZE :: u32 where "KSTKSIZE = 8 * PGSIZE"
definition KSTKGAP :: u32 where "KSTKGAP = 8 * PGSIZE"
definition MMIOLIM :: u32 where "MMIOLIM = KSTACKTOP - PTSIZE"
definition MMIOBASE :: u32 where "MMIOBASE = MMIOLIM - PTSIZE"
definition ULIM :: u32 where "ULIM = MMIOBASE"
definition UVPT :: u32 where "UVPT = ULIM - PTSIZE"
definition UPAGES :: u32 where "UPAGES = UVPT - PTSIZE"
definition UENVS :: u32 where "UENVS = UPAGES - PTSIZE"
definition UTOP :: u32 where "UTOP = UENVS"
definition UXSTACKTOP :: u32 where "UXSTACKTOP = UTOP"
definition USTACKTOP :: u32 where "USTACKTOP = UTOP - 2 * PGSIZE"
definition MPENTRY_PADDR :: u32 where [layout_defs]: "MPENTRY_PADDR = 0x7000"

lemma layout_values [layout_defs]:
  "KSTACKTOP = 0xF0000000" "KSTKSIZE = 0x8000" "KSTKGAP = 0x8000" "MMIOLIM = 0xEFC00000"
  "MMIOBASE = 0xEF800000" "ULIM = 0xEF800000" "UVPT = 0xEF400000" "UPAGES = 0xEF000000"
  "UENVS = 0xEEC00000" "UTOP = 0xEEC00000" "UXSTACKTOP = 0xEEC00000" "USTACKTOP = 0xEEBFE000"
  "PTE_SYSCALL = 0xE07"
  by (simp_all add: KSTACKTOP_def KSTKSIZE_def KSTKGAP_def MMIOLIM_def MMIOBASE_def ULIM_def
      UVPT_def UPAGES_def UENVS_def UTOP_def UXSTACKTOP_def USTACKTOP_def PTE_SYSCALL_def
      KERNBASE_def PTSIZE_def PGSIZE_def PTE_AVAIL_def PTE_P_def PTE_W_def PTE_U_def)

section \<open>The macros as arithmetic\<close>

lemma unat_u32_less: "unat (w :: u32) < 4294967296"
  using unsigned_less [of w, where ?'a = nat] by simp

lemma unat_shift_right: "unat (drop_bit n w) = unat w div 2 ^ n" for w :: "'a :: len word"
  by (simp only: unat_drop_bit_eq) (simp add: drop_bit_eq_div)

lemma unat_low_bits: "unat (take_bit n w) = unat w mod 2 ^ n" for w :: "'a :: len word"
  by (simp only: unsigned_take_bit_eq) (simp add: take_bit_eq_mod)

lemma unat_PGNUM [mmu_simps]: "unat (PGNUM la) = unat la div 4096"
  by (simp only: PGNUM_def unat_shift_right) simp

lemma unat_and_3FF: "unat (w AND 0x3FF) = unat w mod 1024" for w :: u32
proof -
  have "w AND 0x3FF = take_bit 10 w"
    by (simp add: take_bit_eq_mask mask_eq_exp_minus_1)
  then show ?thesis by (simp add: unat_low_bits)
qed

lemma unat_PDX [mmu_simps]: "unat (PDX la) = unat la div 4194304"
proof -
  have "unat la div 4194304 < 1024" using unat_u32_less [of la] by simp
  then show ?thesis
    by (simp add: PDX_def unat_and_3FF unat_shift_right del: drop_bit_numeral_minus_bit1)
qed

lemma unat_PTX [mmu_simps]: "unat (PTX la) = unat la div 4096 mod 1024"
  by (simp add: PTX_def unat_and_3FF unat_shift_right)

lemma PGOFF_take_bit: "PGOFF la = take_bit 12 la"
  by (simp add: PGOFF_def take_bit_eq_mask mask_eq_exp_minus_1)

lemma unat_PGOFF [mmu_simps]: "unat (PGOFF la) = unat la mod 4096"
  by (simp add: PGOFF_take_bit unat_low_bits)

lemma PDX_less: "unat (PDX la) < 1024"
  using unat_u32_less [of la] by (simp add: mmu_simps)

lemma PTX_less: "unat (PTX la) < 1024"
  by (simp add: mmu_simps)

text \<open>A linear address is rebuilt from its three fields, as the comment of
  \<open>inc/mmu.h\<close> says.\<close>

lemma PGADDR_fields: "PGADDR (PDX la) (PTX la) (PGOFF la) = la"
proof (rule bit_word_eqI)
  fix n assume "n < LENGTH(32)"
  have m: "(0x3FF :: u32) = mask 10" by (simp add: mask_eq_exp_minus_1)
  consider "n < 12" | "12 \<le> n" "n < 22" | "22 \<le> n" by linarith
  then show "bit (PGADDR (PDX la) (PTX la) (PGOFF la)) n = bit la n"
    using \<open>n < LENGTH(32)\<close>
    by cases (auto simp: PGADDR_def PDX_def PTX_def PGOFF_take_bit m bit_simps)
qed

lemma PGNUM_or: "PGNUM (a OR b) = PGNUM a OR PGNUM b"
  by (simp add: PGNUM_def drop_bit_or)

lemma PGNUM_PTE_ADDR [simp]: "PGNUM (PTE_ADDR x) = PGNUM x"
proof (rule bit_word_eqI)
  fix n assume "n < LENGTH(32)"
  have m: "(0xFFF :: u32) = mask 12" by (simp add: mask_eq_exp_minus_1)
  show "bit (PGNUM (PTE_ADDR x)) n = bit (PGNUM x) n"
    unfolding PGNUM_def PTE_ADDR_def m by (auto simp: bit_simps dest: bit_imp_le_length)
qed

lemma PGNUM_small: "x < 4096 \<Longrightarrow> PGNUM x = 0"
  by (simp add: word_eq_iff_unsigned [where ?'a = nat] mmu_simps word_less_nat_alt)

text \<open>Page frame numbers are natural numbers below \<open>2 ^ 20\<close>; \<open>frame_addr\<close> is the
  address of a frame, \<open>(pp - pages) << PGSHIFT\<close> in the source.\<close>

definition frame_addr :: "nat \<Rightarrow> u32" where
  "frame_addr p = push_bit 12 (of_nat p)"

lemma unat_frame_addr [mmu_simps]: "p < 1048576 \<Longrightarrow> unat (frame_addr p) = p * 4096"
  by (simp add: frame_addr_def push_bit_eq_mult unat_word_ariths unat_of_nat)

lemma PGNUM_frame_addr [simp]: "p < 1048576 \<Longrightarrow> unat (PGNUM (frame_addr p)) = p"
  by (simp add: mmu_simps)

lemma bit_frame_addr: "bit (frame_addr p) n \<longleftrightarrow> 12 \<le> n \<and> n < 32 \<and> bit p (n - 12)"
  by (auto simp: frame_addr_def bit_simps)

lemma frame_addr_and_low: "x < 4096 \<Longrightarrow> (frame_addr p OR y) AND x = y AND x"
proof (rule bit_word_eqI)
  fix n assume x: "x < 4096" and "n < LENGTH(32)"
  have "bit x n \<Longrightarrow> n < 12"
  proof (rule ccontr)
    assume "bit x n" "\<not> n < 12"
    then have "bit (PGNUM x) (n - 12)"
      using \<open>n < LENGTH(32)\<close> by (simp add: PGNUM_def bit_simps)
    then show False using x by (simp add: PGNUM_small)
  qed
  then show "bit ((frame_addr p OR y) AND x) n = bit (y AND x) n"
    using \<open>n < LENGTH(32)\<close> by (auto simp: bit_simps bit_frame_addr)
qed

lemma PGNUM_frame_or [simp]:
  "p < 1048576 \<Longrightarrow> x < 4096 \<Longrightarrow> unat (PGNUM (frame_addr p OR x)) = p"
  by (simp add: PGNUM_or PGNUM_small)

lemma less_4096_iff: "x < 4096 \<longleftrightarrow> PGNUM x = 0"
proof -
  have "PGNUM x = 0 \<longleftrightarrow> unat x div 4096 = 0"
    by (simp only: unat_PGNUM [symmetric] unat_eq_0)
  then show ?thesis by (auto simp: word_less_nat_alt)
qed

lemma or_less_4096: "x < 4096 \<Longrightarrow> y < 4096 \<Longrightarrow> x OR y < 4096" for x y :: u32
  by (simp add: less_4096_iff PGNUM_or)

lemma or_PTE_P: "(x OR PTE_P) AND PTE_P = PTE_P"
  by (rule bit_word_eqI) (auto simp: bit_simps)

lemma pte_present: "(a OR b OR PTE_P) AND PTE_P \<noteq> 0"
  using or_PTE_P [of "a OR b"] by (simp add: or.assoc PTE_P_def)

lemma unat_ROUNDDOWN [mmu_simps]: "unat (ROUNDDOWN a PGSIZE) = unat a div 4096 * 4096"
proof -
  have "a mod PGSIZE \<le> a" by (simp add: word_le_nat_alt unat_mod PGSIZE_def)
  then have "unat (a - a mod PGSIZE) = unat a - unat a mod 4096"
    by (simp add: unat_sub unat_mod PGSIZE_def)
  then show ?thesis by (simp add: ROUNDDOWN_def minus_mod_eq_div_mult)
qed

lemma unat_ROUNDUP [mmu_simps]:
  assumes "unat a + 4095 < 4294967296"
  shows "unat (ROUNDUP a PGSIZE) = (unat a + 4095) div 4096 * 4096"
proof -
  have "unat (a + PGSIZE - 1) = unat a + 4095"
    using assms by (simp add: PGSIZE_def unat_word_ariths)
  then show ?thesis by (simp add: ROUNDUP_def unat_ROUNDDOWN)
qed

section \<open>Chains of links\<close>

text \<open>\<open>chain link p xs\<close>: following \<open>link\<close> from the pointer \<open>p\<close> visits exactly the
  cells \<open>xs\<close> and ends in \<open>NULL\<close>.\<close>

primrec chain :: "('a \<Rightarrow> 'a option) \<Rightarrow> 'a option \<Rightarrow> 'a list \<Rightarrow> bool" where
  "chain link p [] \<longleftrightarrow> p = None"
| "chain link p (x # xs) \<longleftrightarrow> p = Some x \<and> chain link (link x) xs"

lemma chain_None [simp]: "chain link None xs \<longleftrightarrow> xs = []"
  by (cases xs) auto

lemma chain_Some: "chain link (Some x) xs \<longleftrightarrow> (\<exists>ys. xs = x # ys \<and> chain link (link x) ys)"
  by (cases xs) auto

lemma chain_upd [simp]: "u \<notin> set xs \<Longrightarrow> chain (link(u := v)) p xs = chain link p xs"
  by (induction xs arbitrary: p) auto

lemma chain_cong: "(\<And>x. x \<in> set xs \<Longrightarrow> link x = link' x) \<Longrightarrow> chain link p xs = chain link' p xs"
  by (induction xs arbitrary: p) auto

lemma chain_unique: "chain link p xs \<Longrightarrow> chain link p ys \<Longrightarrow> xs = ys"
  by (induction xs arbitrary: p ys) (auto simp: chain_Some)

lemma chain_suffix: "chain link p (xs @ y # ys) \<Longrightarrow> chain link (Some y) (y # ys)"
  by (induction xs arbitrary: p) auto

lemma chain_distinct: "chain link p xs \<Longrightarrow> distinct xs"
proof (induction xs arbitrary: p)
  case Nil
  then show ?case by simp
next
  case (Cons x xs)
  then have c: "chain link (link x) xs" and d: "distinct xs" by auto
  have "x \<notin> set xs"
  proof
    assume "x \<in> set xs"
    then obtain as bs where "xs = as @ x # bs" by (meson split_list)
    with c have "chain link (link x) bs" by (metis chain.simps(2) chain_suffix)
    with c have "xs = bs" by (rule chain_unique)
    with \<open>xs = as @ x # bs\<close> show False by simp
  qed
  with d show ?case by simp
qed

section \<open>Counting the keys of a finite map\<close>

text \<open>How often a value occurs in a map; a reference count is such a number.\<close>

definition occurrences :: "('k \<rightharpoonup> 'v) \<Rightarrow> 'v \<Rightarrow> nat" where
  "occurrences m v = card {k. m k = Some v}"

lemma finite_occ: "finite (dom m) \<Longrightarrow> finite {k. m k = Some v}"
  by (rule finite_subset [of _ "dom m"]) auto

lemma occurrences_fresh: "finite (dom m) \<Longrightarrow> occurrences m v = 0 \<longleftrightarrow> v \<notin> ran m"
  by (auto simp: occurrences_def finite_occ ran_def card_eq_0_iff)

lemma occurrences_None:
  assumes "finite (dom m)"
  shows "occurrences (m(k := None)) v = occurrences m v - (if m k = Some v then 1 else 0)"
proof -
  have "{j. (m(k := None)) j = Some v} = {j. m j = Some v} - {k}" by auto
  then show ?thesis
    by (auto simp: occurrences_def finite_occ [OF assms] card_Diff_singleton_if)
qed

lemma occurrences_Some:
  assumes "finite (dom m)" and "m k = None"
  shows "occurrences (m(k \<mapsto> w)) v = occurrences m v + (if w = v then 1 else 0)"
proof -
  have "{j. (m(k \<mapsto> w)) j = Some v} = (if w = v then insert k {j. m j = Some v} else {j. m j = Some v})"
    using assms(2) by auto
  with assms show ?thesis by (simp add: occurrences_def finite_occ)
qed

lemma occurrences_pos: "finite (dom m) \<Longrightarrow> m k = Some v \<Longrightarrow> 0 < occurrences m v"
  by (auto simp: occurrences_def card_gt_0_iff finite_occ)

text \<open>Deleting a key loses its value exactly when it occurred once.\<close>

lemma ran_delete:
  assumes "finite (dom m)"
  shows "ran (m(k := None)) = {v \<in> ran m. \<not> (m k = Some v \<and> occurrences m v = 1)}"
proof -
  have fin: "finite (dom (m(k := None)))" using assms by simp
  have "v \<in> ran (m(k := None)) \<longleftrightarrow> v \<in> ran m \<and> \<not> (m k = Some v \<and> occurrences m v = 1)" for v
    using occurrences_fresh [OF assms, of v] occurrences_fresh [OF fin, of v]
      occurrences_None [OF assms, of k v] occurrences_pos [OF assms, of k v]
    by (cases "m k = Some v") auto
  then show ?thesis by blast
qed

lemma ran_upd: "ran (m(k \<mapsto> v)) = insert v (ran (m(k := None)))"
  by (auto simp: ran_def)

section \<open>Bytes of a word\<close>

definition put_byte :: "nat \<Rightarrow> u8 \<Rightarrow> u32 \<Rightarrow> u32" where
  "put_byte k b w = (w AND NOT (push_bit (8 * k) 0xFF)) OR push_bit (8 * k) (ucast b)"

definition get_byte :: "nat \<Rightarrow> u32 \<Rightarrow> u8" where
  "get_byte k w = ucast (drop_bit (8 * k) w)"

lemma bit_get_byte: "n < 8 \<Longrightarrow> bit (get_byte k w) n \<longleftrightarrow> bit w (8 * k + n)"
  by (auto simp: get_byte_def bit_simps)

lemma bit_put_byte:
  "n < 32 \<Longrightarrow> bit (put_byte k b w) n \<longleftrightarrow> (if 8 * k \<le> n \<and> n < 8 * k + 8 then bit b (n - 8 * k) else bit w n)"
proof -
  assume n: "n < 32"
  have m: "(0xFF :: u32) = mask 8" by (simp add: mask_eq_exp_minus_1)
  have "bit b (n - 8 * k) \<Longrightarrow> n < 8 * k + 8" using bit_imp_le_length [of b "n - 8 * k"] by simp
  then show ?thesis using n unfolding put_byte_def m by (auto simp: bit_simps)
qed

lemma get_put_byte:
  assumes "k < 4" and "j < 4"
  shows "get_byte j (put_byte k b w) = (if j = k then b else get_byte j w)"
proof (rule bit_word_eqI)
  fix n assume "n < LENGTH(8)"
  then have n: "n < 8" "8 * j + n < 32" using assms(2) by auto
  show "bit (get_byte j (put_byte k b w)) n = bit (if j = k then b else get_byte j w) n"
    using n by (auto simp: bit_get_byte bit_put_byte)
qed

end
