(* ===== verification/Kernel_State.thy ===== *)
theory Kernel_State
  imports Jos_Prelude
begin

text \<open>
  The structures of the kernel: \<open>struct PageInfo\<close> (\<open>inc/memlayout.h\<close>), \<open>struct PushRegs\<close>
  and \<open>struct Trapframe\<close> (\<open>inc/trap.h\<close>), \<open>struct Env\<close> (\<open>inc/env.h\<close>),
  \<open>struct CpuInfo\<close> (\<open>kern/cpu.h\<close>), the globals of \<open>kern/pmap.c\<close>, \<open>kern/env.c\<close>
  and \<open>kern/mpconfig.c\<close> as one record \<open>kern\<close>, and the conversions between physical and kernel
  virtual addresses of \<open>kern/pmap.h\<close>.

  A \<open>struct PageInfo *\<close> is the index of the element in \<open>pages\<close> and a \<open>struct Env *\<close>
  the index in \<open>envs\<close>, with \<open>None\<close> for \<open>NULL\<close>; the arrays are functions on indices.
  Physical memory is \<open>phys p i\<close>, the \<open>i\<close>-th aligned 32-bit word of page frame \<open>p\<close>. A
  \<open>pde_t *\<close> or \<open>pte_t *\<close> is a kernel virtual address, as in the source, and memory is read and
  written through it with \<open>kread\<close> and \<open>kwrite\<close>. An operation that may panic returns an
  \<open>option\<close>: \<open>None\<close> is the panic.
\<close>

record PageInfo =
  pp_link :: "nat option"
  pp_ref :: u16

record PushRegs =
  reg_edi :: u32
  reg_esi :: u32
  reg_ebp :: u32
  reg_oesp :: u32
  reg_ebx :: u32
  reg_edx :: u32
  reg_ecx :: u32
  reg_eax :: u32

record Trapframe =
  tf_regs :: PushRegs
  tf_es :: u16
  tf_padding1 :: u16
  tf_ds :: u16
  tf_padding2 :: u16
  tf_trapno :: u32
  tf_err :: u32
  tf_eip :: u32
  tf_cs :: u16
  tf_padding3 :: u16
  tf_eflags :: u32
  tf_esp :: u32
  tf_ss :: u16
  tf_padding4 :: u16

datatype EnvStatus = ENV_FREE | ENV_DYING | ENV_RUNNABLE | ENV_RUNNING | ENV_NOT_RUNNABLE

datatype EnvType = ENV_TYPE_USER | ENV_TYPE_FS

record Env =
  env_tf :: Trapframe
  env_link :: "nat option"
  env_id :: u32
  env_parent_id :: u32
  env_type :: EnvType
  env_status :: EnvStatus
  env_runs :: u32
  env_cpunum :: nat
  env_pgdir :: u32
  env_pgfault_upcall :: u32
  env_ipc_recving :: bool
  env_ipc_dstva :: u32
  env_ipc_value :: u32
  env_ipc_from :: u32
  env_ipc_perm :: u32

datatype CpuStatus = CPU_UNUSED | CPU_STARTED | CPU_HALTED

record CpuInfo =
  cpu_id :: u8
  cpu_status :: CpuStatus
  cpu_env :: "nat option"

text \<open>The input ring of \<open>kern/console.c\<close>, and the bytes written to the console so far.\<close>

record Console =
  cons_buf :: "nat \<Rightarrow> u8"
  cons_rpos :: nat
  cons_wpos :: nat
  cons_out :: "u8 list"

text \<open>The globals. \<open>kernel_lock\<close> is the CPU that holds the big kernel lock. \<open>link_end\<close> is the linker symbol \<open>end\<close>; \<open>nextfree\<close> and \<open>mmio_base\<close> are
  the static variables of \<open>boot_alloc\<close> and \<open>mmio_map_region\<close>; \<open>this_cpu\<close> is what
  \<open>cpunum()\<close> returns, \<open>cr3\<close> the page directory register of this CPU, and \<open>invlpg_log\<close> the
  addresses whose TLB entry this CPU has flushed, most recent first.\<close>

record kern =
  npages :: nat
  npages_basemem :: nat
  pages :: "nat \<Rightarrow> PageInfo"
  page_free_list :: "nat option"
  phys :: "nat \<Rightarrow> nat \<Rightarrow> u32"
  kern_pgdir :: u32
  link_end :: u32
  nextfree :: u32
  mmio_base :: u32
  user_mem_check_addr :: u32
  envs :: "nat \<Rightarrow> Env"
  env_free_list :: "nat option"
  cpus :: "nat \<Rightarrow> CpuInfo"
  this_cpu :: nat
  cr3 :: u32
  invlpg_log :: "u32 list"
  kernel_lock :: "nat option"
  cons :: Console

definition curenv :: "kern \<Rightarrow> nat option" where
  "curenv s = cpu_env (cpus s (this_cpu s))"

section \<open>Addresses of kern/pmap.h\<close>

definition PADDR :: "u32 \<Rightarrow> u32 option" where
  "PADDR kva = (if kva < KERNBASE then None else Some (kva - KERNBASE))"

definition KADDR :: "kern \<Rightarrow> u32 \<Rightarrow> u32 option" where
  "KADDR s pa = (if npages s \<le> unat (PGNUM pa) then None else Some (pa + KERNBASE))"

definition page2pa :: "nat \<Rightarrow> u32" where
  "page2pa pp = frame_addr pp"

definition pa2page :: "kern \<Rightarrow> u32 \<Rightarrow> nat option" where
  "pa2page s pa = (if npages s \<le> unat (PGNUM pa) then None else Some (unat (PGNUM pa)))"

definition page2kva :: "kern \<Rightarrow> nat \<Rightarrow> u32 option" where
  "page2kva s pp = KADDR s (page2pa pp)"

text \<open>The page frame and the word in it that a kernel virtual address denotes through the
  mapping of all physical memory at \<open>KERNBASE\<close>.\<close>

definition kva_frame :: "u32 \<Rightarrow> nat" where
  "kva_frame kva = unat (PGNUM (kva - KERNBASE))"

definition kva_index :: "u32 \<Rightarrow> nat" where
  "kva_index kva = unat (PGOFF kva) div 4"

definition kread :: "kern \<Rightarrow> u32 \<Rightarrow> u32" where
  "kread s kva = phys s (kva_frame kva) (kva_index kva)"

definition set_word :: "nat \<Rightarrow> nat \<Rightarrow> u32 \<Rightarrow> kern \<Rightarrow> kern" where
  "set_word p i v s = s\<lparr>phys := (phys s)(p := (phys s p)(i := v))\<rparr>"

definition kwrite :: "u32 \<Rightarrow> u32 \<Rightarrow> kern \<Rightarrow> kern" where
  "kwrite kva v s = set_word (kva_frame kva) (kva_index kva) v s"

text \<open>\<open>memset(kva, 0, PGSIZE)\<close> on a page.\<close>

definition clear_page :: "u32 \<Rightarrow> kern \<Rightarrow> kern" where
  "clear_page kva s = s\<lparr>phys := (phys s)(kva_frame kva := (\<lambda>_. 0))\<rparr>"

text \<open>Element \<open>i\<close> of a table of 32-bit words: \<open>&table[i]\<close>.\<close>

definition entry :: "u32 \<Rightarrow> u32 \<Rightarrow> u32" where
  "entry table i = table + 4 * i"

definition frame_kva :: "nat \<Rightarrow> u32" where
  "frame_kva p = frame_addr p + KERNBASE"

lemma unat_frame_kva: "p < 65536 \<Longrightarrow> unat (frame_kva p) = p * 4096 + 4026531840"
  by (simp add: frame_kva_def KERNBASE_def unat_word_ariths mmu_simps)

lemma kva_frame_frame_kva [simp]: "p < 65536 \<Longrightarrow> kva_frame (frame_kva p) = p"
  by (simp add: kva_frame_def frame_kva_def)

lemma unat_entry:
  assumes "p < 65536" and "unat i < 1024"
  shows "unat (entry (frame_kva p) i) = p * 4096 + 4026531840 + 4 * unat i"
proof -
  have "unat (4 * i) = 4 * unat i" using assms(2) by (simp add: unat_word_ariths)
  with assms show ?thesis by (simp add: entry_def unat_word_ariths unat_frame_kva)
qed

lemma kva_frame_entry [simp]:
  assumes "p < 65536" and "unat i < 1024"
  shows "kva_frame (entry (frame_kva p) i) = p"
proof -
  have "KERNBASE \<le> entry (frame_kva p) i"
    using assms by (simp add: word_le_nat_alt unat_entry KERNBASE_def)
  then have "unat (entry (frame_kva p) i - KERNBASE) = p * 4096 + 4 * unat i"
    using assms by (simp add: unat_sub unat_entry KERNBASE_def)
  then show ?thesis using assms(2) by (simp add: kva_frame_def mmu_simps)
qed

lemma kva_index_entry [simp]:
  assumes "p < 65536" and "unat i < 1024"
  shows "kva_index (entry (frame_kva p) i) = unat i"
proof -
  have "p * 4096 + 4026531840 + 4 * unat i = 4 * unat i + (p + 983040) * 4096" by simp
  then have "(p * 4096 + 4026531840 + 4 * unat i) mod 4096 = 4 * unat i"
    using assms(2) by (simp only: mod_mult_self1) simp
  with assms show ?thesis by (simp add: kva_index_def mmu_simps unat_entry)
qed

lemma kread_entry [simp]:
  "p < 65536 \<Longrightarrow> unat i < 1024 \<Longrightarrow> kread s (entry (frame_kva p) i) = phys s p (unat i)"
  by (simp add: kread_def)

lemma kwrite_entry [simp]:
  "p < 65536 \<Longrightarrow> unat i < 1024 \<Longrightarrow> kwrite (entry (frame_kva p) i) v s = set_word p (unat i) v s"
  by (simp add: kwrite_def)

lemma KADDR_frame [simp]:
  "p < 1048576 \<Longrightarrow> KADDR s (frame_addr p) = (if p < npages s then Some (frame_kva p) else None)"
  by (simp add: KADDR_def frame_kva_def)

lemma page2kva_frame [simp]:
  "p < 1048576 \<Longrightarrow> page2kva s p = (if p < npages s then Some (frame_kva p) else None)"
  by (simp add: page2kva_def page2pa_def)

lemma PADDR_frame_kva [simp]: "p < 65536 \<Longrightarrow> PADDR (frame_kva p) = Some (frame_addr p)"
proof -
  assume "p < 65536"
  then have "\<not> frame_kva p < KERNBASE"
    by (simp add: word_less_nat_alt unat_frame_kva KERNBASE_def)
  then show ?thesis by (simp add: PADDR_def) (simp add: frame_kva_def)
qed

text \<open>Setting one word.\<close>

lemma phys_set_word: "phys (set_word p i v s) q j = (if p = q \<and> i = j then v else phys s q j)"
  by (simp add: set_word_def)

lemma set_word_frame [simp]:
  "npages (set_word p i v s) = npages s" "pages (set_word p i v s) = pages s"
  "page_free_list (set_word p i v s) = page_free_list s" "envs (set_word p i v s) = envs s"
  "curenv (set_word p i v s) = curenv s" "kern_pgdir (set_word p i v s) = kern_pgdir s"
  "env_free_list (set_word p i v s) = env_free_list s" "cpus (set_word p i v s) = cpus s"
  "this_cpu (set_word p i v s) = this_cpu s"
  by (simp_all add: set_word_def curenv_def)

section \<open>Cleared structures and a small machine\<close>

text \<open>What \<open>memset(&..., 0, sizeof ...)\<close> leaves in a structure.\<close>

definition zero_regs :: PushRegs where
  "zero_regs = \<lparr>reg_edi = 0, reg_esi = 0, reg_ebp = 0, reg_oesp = 0, reg_ebx = 0, reg_edx = 0,
     reg_ecx = 0, reg_eax = 0\<rparr>"

definition zero_tf :: Trapframe where
  "zero_tf = \<lparr>tf_regs = zero_regs, tf_es = 0, tf_padding1 = 0, tf_ds = 0, tf_padding2 = 0,
     tf_trapno = 0, tf_err = 0, tf_eip = 0, tf_cs = 0, tf_padding3 = 0, tf_eflags = 0,
     tf_esp = 0, tf_ss = 0, tf_padding4 = 0\<rparr>"

definition zero_env :: Env where
  "zero_env = \<lparr>env_tf = zero_tf, env_link = None, env_id = 0, env_parent_id = 0,
     env_type = ENV_TYPE_USER, env_status = ENV_FREE, env_runs = 0, env_cpunum = 0,
     env_pgdir = 0, env_pgfault_upcall = 0, env_ipc_recving = False, env_ipc_dstva = 0,
     env_ipc_value = 0, env_ipc_from = 0, env_ipc_perm = 0\<rparr>"

text \<open>A machine of 16 pages on which theorems are instantiated: frames 1 and 2 hold the
  kernel's page directory and that of the running environment 0, frames 3, 4 and 5 are
  free, frame 6 is allocated and not mapped.\<close>

definition sample_kern :: kern where
  "sample_kern = \<lparr>npages = 16, npages_basemem = 16,
     pages = (\<lambda>i. \<lparr>pp_link = (if i = 3 then Some 4 else if i = 4 then Some 5 else None),
                   pp_ref = (if i < 3 then 1 else 0)\<rparr>),
     page_free_list = Some 3, phys = (\<lambda>_ _. 0), kern_pgdir = frame_kva 1,
     link_end = 0xF0100000, nextfree = 0xF0100000, mmio_base = MMIOBASE, user_mem_check_addr = 0,
     envs = (\<lambda>i. if i = 0 then zero_env\<lparr>env_id := 0x1000, env_status := ENV_RUNNING,
                                       env_pgdir := frame_kva 2\<rparr>
                else zero_env\<lparr>env_link := (if i < 1023 then Some (i + 1) else None)\<rparr>),
     env_free_list = Some 1,
     cpus = (\<lambda>i. \<lparr>cpu_id = of_nat i, cpu_status = CPU_STARTED, cpu_env = (if i = 0 then Some 0 else None)\<rparr>),
     this_cpu = 0, cr3 = frame_addr 2, invlpg_log = [], kernel_lock = Some 0,
     cons = \<lparr>cons_buf = (\<lambda>_. 0), cons_rpos = 0, cons_wpos = 0, cons_out = []\<rparr>\<rparr>"

end
