(* ===== verification/Phys_Alloc.thy ===== *)
theory Phys_Alloc
  imports Kernel_State
begin

text \<open>
  Physical pages (\<open>kern/pmap.c\<close>): memory detection, the boot-time bump allocator
  \<open>boot_alloc\<close>, the construction of the free list by \<open>page_init\<close>, and the page allocator
  \<open>page_alloc\<close>, \<open>page_free\<close>, \<open>page_decref\<close>, with the boot-time self test
  \<open>check_page_alloc\<close>. The free list is abstracted to the list of frames it links
  (\<open>free_list_inv\<close>); the contract of the allocator is the locale \<open>page_allocator\<close>.
\<close>

section \<open>Detecting memory\<close>

text \<open>\<open>cmos\<close> is \<open>mc146818_read\<close>: the byte at an address of the CMOS RAM.\<close>

definition nvram_read :: "(u32 \<Rightarrow> u32) \<Rightarrow> u32 \<Rightarrow> u32" where
  "nvram_read cmos r = cmos r OR push_bit 8 (cmos (r + 1))"

definition i386_detect_memory :: "(u32 \<Rightarrow> u32) \<Rightarrow> kern \<Rightarrow> kern" where
  "i386_detect_memory cmos s =
     (let basemem = nvram_read cmos 0x15;
          extmem = nvram_read cmos 0x17;
          ext16mem = nvram_read cmos 0x34 * 64;
          totalmem = (if ext16mem \<noteq> 0 then 16 * 1024 + ext16mem
                      else if extmem \<noteq> 0 then 1 * 1024 + extmem
                      else basemem)
      in s\<lparr>npages := unat (totalmem div (PGSIZE div 1024)),
           npages_basemem := unat (basemem div (PGSIZE div 1024))\<rparr>)"

section \<open>The boot allocator\<close>

definition boot_alloc :: "u32 \<Rightarrow> kern \<Rightarrow> (u32 \<times> kern) option" where
  "boot_alloc n s =
     (let nf = (if nextfree s = 0 then ROUNDUP (link_end s) PGSIZE else nextfree s);
          s1 = s\<lparr>nextfree := nf\<rparr>
      in if n = 0 then Some (nf, s1)
         else (let nf2 = ROUNDUP (nf + n) PGSIZE in
           do { pa \<leftarrow> PADDR nf2;
                if npages s \<le> unat (PGNUM pa) then None
                else Some (nf, s1\<lparr>nextfree := nf2\<rparr>) }))"

section \<open>Building the free list\<close>

text \<open>One iteration of the loop of \<open>page_init\<close>.\<close>

definition page_init_step :: "nat \<Rightarrow> kern \<Rightarrow> kern option" where
  "page_init_step i s =
     do { (boot_used, s1) \<leftarrow>
            (if unat (EXTPHYSMEM div PGSIZE) \<le> i
             then do { (nf, s1) \<leftarrow> boot_alloc 0 s; pa \<leftarrow> PADDR nf;
                       Some (i < unat (pa div PGSIZE), s1) }
             else Some (False, s));
          let page_in_use =
            (i = 0 \<or> (unat (IOPHYSMEM div PGSIZE) \<le> i \<and> i < unat (EXTPHYSMEM div PGSIZE))
             \<or> boot_used \<or> i = 7);
          Some (s1\<lparr>pages := (pages s1)(i := \<lparr>
                     pp_link = (if page_in_use then None else page_free_list s1),
                     pp_ref = (if page_in_use then 1 else 0)\<rparr>),
                   page_free_list := (if page_in_use then page_free_list s1 else Some i)\<rparr>) }"

primrec page_init_loop :: "nat list \<Rightarrow> kern \<Rightarrow> kern option" where
  "page_init_loop [] s = Some s"
| "page_init_loop (i # is) s = do { s1 \<leftarrow> page_init_step i s; page_init_loop is s1 }"

definition page_init :: "kern \<Rightarrow> kern option" where
  "page_init s = page_init_loop [0..<npages s] s"

section \<open>The page allocator\<close>

definition ALLOC_ZERO :: u32 where
  "ALLOC_ZERO = 1"

text \<open>The test of the flags is \<open>alloc_flags && ALLOC_ZERO\<close> in the source.\<close>

definition page_alloc :: "u32 \<Rightarrow> kern \<Rightarrow> (nat option \<times> kern) option" where
  "page_alloc alloc_flags s =
     (case page_free_list s of
        None \<Rightarrow> Some (None, s)
      | Some page \<Rightarrow>
          let s1 = s\<lparr>page_free_list := pp_link (pages s page),
                     pages := (pages s)(page := (pages s page)\<lparr>pp_link := None\<rparr>)\<rparr>
          in if alloc_flags \<noteq> 0 \<and> ALLOC_ZERO \<noteq> 0
             then do { kva \<leftarrow> page2kva s1 page; Some (Some page, clear_page kva s1) }
             else Some (Some page, s1))"

definition page_free :: "nat \<Rightarrow> kern \<Rightarrow> kern option" where
  "page_free pp s =
     (if pp_ref (pages s pp) \<noteq> 0 \<or> pp_link (pages s pp) \<noteq> None then None
      else Some (s\<lparr>pages := (pages s)(pp := (pages s pp)\<lparr>pp_link := page_free_list s\<rparr>),
                   page_free_list := Some pp\<rparr>))"

definition set_ref :: "nat \<Rightarrow> u16 \<Rightarrow> kern \<Rightarrow> kern" where
  "set_ref pp r s = s\<lparr>pages := (pages s)(pp := (pages s pp)\<lparr>pp_ref := r\<rparr>)\<rparr>"

definition page_decref :: "nat \<Rightarrow> kern \<Rightarrow> kern option" where
  "page_decref pp s =
     (let s1 = set_ref pp (pp_ref (pages s pp) - 1) s
      in if pp_ref (pages s1 pp) = 0 then page_free pp s1 else Some s1)"

section \<open>The self test of the allocator\<close>

definition kassert :: "bool \<Rightarrow> unit option" where
  "kassert b = (if b then Some () else None)"

text \<open>The loop that counts the free list, with fuel; \<open>None\<close> when the fuel does not
  suffice.\<close>

fun count_free :: "nat \<Rightarrow> (nat \<Rightarrow> PageInfo) \<Rightarrow> nat option \<Rightarrow> nat option" where
  "count_free fuel pgs None = Some 0"
| "count_free 0 pgs (Some p) = None"
| "count_free (Suc fuel) pgs (Some p) = map_option Suc (count_free fuel pgs (pp_link (pgs p)))"

text \<open>\<open>assert((pp = page_alloc(0)))\<close>.\<close>

definition must_alloc :: "u32 \<Rightarrow> kern \<Rightarrow> (nat \<times> kern) option" where
  "must_alloc flags s =
     do { (r, s1) \<leftarrow> page_alloc flags s;
          (case r of None \<Rightarrow> None | Some p \<Rightarrow> Some (p, s1)) }"

text \<open>\<open>assert(!page_alloc(0))\<close>.\<close>

definition must_be_empty :: "kern \<Rightarrow> kern option" where
  "must_be_empty s = do { (r, s1) \<leftarrow> page_alloc 0 s; kassert (r = None); Some s1 }"

text \<open>\<open>memset(page2kva(pp), 1, PGSIZE)\<close>: every byte becomes 1.\<close>

definition fill_page :: "u32 \<Rightarrow> u32 \<Rightarrow> kern \<Rightarrow> kern" where
  "fill_page kva w s = s\<lparr>phys := (phys s)(kva_frame kva := (\<lambda>_. w))\<rparr>"

definition check_page_alloc :: "kern \<Rightarrow> kern option" where
  "check_page_alloc s =
     do { nfree \<leftarrow> count_free (npages s) (pages s) (page_free_list s);
          (pp0, s) \<leftarrow> must_alloc 0 s;
          (pp1, s) \<leftarrow> must_alloc 0 s;
          (pp2, s) \<leftarrow> must_alloc 0 s;
          kassert (pp1 \<noteq> pp0);
          kassert (pp2 \<noteq> pp1 \<and> pp2 \<noteq> pp0);
          kassert (page2pa pp0 < of_nat (npages s) * PGSIZE);
          kassert (page2pa pp1 < of_nat (npages s) * PGSIZE);
          kassert (page2pa pp2 < of_nat (npages s) * PGSIZE);
          let fl = page_free_list s;
          let s = s\<lparr>page_free_list := None\<rparr>;
          s \<leftarrow> must_be_empty s;
          s \<leftarrow> page_free pp0 s;
          s \<leftarrow> page_free pp1 s;
          s \<leftarrow> page_free pp2 s;
          (pp0, s) \<leftarrow> must_alloc 0 s;
          (pp1, s) \<leftarrow> must_alloc 0 s;
          (pp2, s) \<leftarrow> must_alloc 0 s;
          kassert (pp1 \<noteq> pp0);
          kassert (pp2 \<noteq> pp1 \<and> pp2 \<noteq> pp0);
          s \<leftarrow> must_be_empty s;
          kva \<leftarrow> page2kva s pp0;
          let s = fill_page kva 0x01010101 s;
          s \<leftarrow> page_free pp0 s;
          (pp, s) \<leftarrow> must_alloc ALLOC_ZERO s;
          kassert (pp0 = pp);
          c \<leftarrow> page2kva s pp;
          kassert (list_all (\<lambda>i. kread s (entry c (of_nat i)) = 0) [0..<1024]);
          let s = s\<lparr>page_free_list := fl\<rparr>;
          s \<leftarrow> page_free pp0 s;
          s \<leftarrow> page_free pp1 s;
          s \<leftarrow> page_free pp2 s;
          nfree2 \<leftarrow> count_free (npages s) (pages s) (page_free_list s);
          kassert (nfree = nfree2);
          Some s }"

section \<open>The free list invariant\<close>

definition free_list_inv :: "kern \<Rightarrow> nat list \<Rightarrow> bool" where
  "free_list_inv s fl \<longleftrightarrow>
     npages s \<le> 65536 \<and>
     chain (\<lambda>i. pp_link (pages s i)) (page_free_list s) fl \<and>
     (\<forall>x\<in>set fl. x < npages s \<and> pp_ref (pages s x) = 0) \<and>
     (\<forall>x<npages s. x \<notin> set fl \<longrightarrow> pp_link (pages s x) = None)"

lemma free_list_invD:
  assumes "free_list_inv s fl"
  shows "npages s \<le> 65536" and "distinct fl"
    and "x \<in> set fl \<Longrightarrow> x < npages s" and "x \<in> set fl \<Longrightarrow> pp_ref (pages s x) = 0"
    and "x < npages s \<Longrightarrow> x \<notin> set fl \<Longrightarrow> pp_link (pages s x) = None"
  using assms by (auto simp: free_list_inv_def dest: chain_distinct)

text \<open>The state after the head of the free list has been taken off, cleared if \<open>z\<close>.\<close>

definition popped :: "bool \<Rightarrow> nat \<Rightarrow> kern \<Rightarrow> kern" where
  "popped z p s = s\<lparr>page_free_list := pp_link (pages s p),
     pages := (pages s)(p := (pages s p)\<lparr>pp_link := None\<rparr>),
     phys := (if z then (phys s)(p := (\<lambda>_. 0)) else phys s)\<rparr>"

lemma popped_frame [simp]:
  "npages (popped z p s) = npages s" "kern_pgdir (popped z p s) = kern_pgdir s"
  "envs (popped z p s) = envs s" "curenv (popped z p s) = curenv s"
  "env_free_list (popped z p s) = env_free_list s" "cpus (popped z p s) = cpus s"
  "this_cpu (popped z p s) = this_cpu s"
  "pp_ref (pages (popped z p s) q) = pp_ref (pages s q)"
  "phys (popped z p s) q = (if z \<and> p = q then (\<lambda>_. 0) else phys s q)"
  by (simp_all add: popped_def curenv_def)

lemma page_alloc_Nil: "free_list_inv s [] \<Longrightarrow> page_alloc f s = Some (None, s)"
  by (simp add: free_list_inv_def page_alloc_def)

lemma page_alloc_Cons:
  assumes "free_list_inv s (p # fl)"
  shows "page_alloc f s = Some (Some p, popped (f \<noteq> 0) p s)"
proof -
  have "page_free_list s = Some p" and "p < npages s" and "npages s \<le> 65536"
    using assms by (auto simp: free_list_inv_def)
  then show ?thesis
    by (simp add: page_alloc_def popped_def Let_def ALLOC_ZERO_def clear_page_def)
qed

lemma free_list_inv_popped:
  assumes "free_list_inv s (p # fl)"
  shows "free_list_inv (popped z p s) fl"
proof -
  from assms have c: "chain (\<lambda>i. pp_link (pages s i)) (pp_link (pages s p)) fl"
    and np: "p \<notin> set fl" using free_list_invD(2) [OF assms] by (auto simp: free_list_inv_def)
  from np have "chain (\<lambda>i. pp_link (pages (popped z p s) i)) (pp_link (pages s p)) fl
      = chain (\<lambda>i. pp_link (pages s i)) (pp_link (pages s p)) fl"
    by (intro chain_cong) (auto simp: popped_def)
  with assms c np show ?thesis
    by (auto simp: free_list_inv_def popped_def)
qed

lemma page_free_spec:
  assumes "free_list_inv s fl" and "p < npages s" and "p \<notin> set fl" and "pp_ref (pages s p) = 0"
  shows "\<exists>s'. page_free p s = Some s' \<and> free_list_inv s' (p # fl)
    \<and> s' = s\<lparr>pages := (pages s)(p := (pages s p)\<lparr>pp_link := page_free_list s\<rparr>),
             page_free_list := Some p\<rparr>"
proof -
  let ?s' = "s\<lparr>pages := (pages s)(p := (pages s p)\<lparr>pp_link := page_free_list s\<rparr>),
               page_free_list := Some p\<rparr>"
  have "pp_link (pages s p) = None" using assms by (simp add: free_list_invD)
  with assms(4) have "page_free p s = Some ?s'" by (simp add: page_free_def)
  moreover have "chain (\<lambda>i. pp_link (pages ?s' i)) (page_free_list s) fl
      = chain (\<lambda>i. pp_link (pages s i)) (page_free_list s) fl"
    using assms(3) by (intro chain_cong) auto
  then have "free_list_inv ?s' (p # fl)"
    using assms by (auto simp: free_list_inv_def)
  ultimately show ?thesis by blast
qed

lemma set_ref_frame [simp]:
  "npages (set_ref p r s) = npages s" "phys (set_ref p r s) = phys s"
  "page_free_list (set_ref p r s) = page_free_list s" "envs (set_ref p r s) = envs s"
  "curenv (set_ref p r s) = curenv s" "kern_pgdir (set_ref p r s) = kern_pgdir s"
  "env_free_list (set_ref p r s) = env_free_list s" "cpus (set_ref p r s) = cpus s"
  "this_cpu (set_ref p r s) = this_cpu s"
  "pp_link (pages (set_ref p r s) q) = pp_link (pages s q)"
  "pp_ref (pages (set_ref p r s) q) = (if p = q then r else pp_ref (pages s q))"
  by (simp_all add: set_ref_def curenv_def)

lemma free_list_inv_set_ref:
  "free_list_inv s fl \<Longrightarrow> p \<notin> set fl \<Longrightarrow> free_list_inv (set_ref p r s) fl"
  by (auto simp: free_list_inv_def)

lemma free_list_inv_set_word [simp]: "free_list_inv (set_word p i v s) fl = free_list_inv s fl"
  by (simp add: free_list_inv_def)

section \<open>The contract of the allocator\<close>

text \<open>What a client of a page allocator may rely on. \<open>inv s fl\<close> says that the free pages
  are \<open>fl\<close>, in the order in which they will be handed out; \<open>idle s p\<close> that page \<open>p\<close>
  carries no reference.\<close>

locale page_allocator =
  fixes alloc :: "'s \<Rightarrow> (nat option \<times> 's) option"
    and free :: "nat \<Rightarrow> 's \<Rightarrow> 's option"
    and inv :: "'s \<Rightarrow> nat list \<Rightarrow> bool"
    and idle :: "'s \<Rightarrow> nat \<Rightarrow> bool"
  assumes inv_distinct: "inv s fl \<Longrightarrow> distinct fl"
    and alloc_none: "inv s [] \<Longrightarrow> alloc s = Some (None, s)"
    and alloc_some: "inv s (p # fl) \<Longrightarrow>
          \<exists>s'. alloc s = Some (Some p, s') \<and> inv s' fl \<and> idle s' p \<and> (\<forall>q. idle s q \<longrightarrow> idle s' q)"
    and free_idle: "inv s fl \<Longrightarrow> idle s p \<Longrightarrow> p \<notin> set fl \<Longrightarrow>
          \<exists>s'. free p s = Some s' \<and> inv s' (p # fl) \<and> (\<forall>q. idle s q \<longrightarrow> q \<noteq> p \<longrightarrow> idle s' q)"
begin

primrec alloc_n :: "nat \<Rightarrow> 's \<Rightarrow> (nat list \<times> 's) option" where
  "alloc_n 0 s = Some ([], s)"
| "alloc_n (Suc n) s = do { (r, s1) \<leftarrow> alloc s;
     (case r of None \<Rightarrow> None | Some p \<Rightarrow> do { (ps, s2) \<leftarrow> alloc_n n s1; Some (p # ps, s2) }) }"

primrec free_n :: "nat list \<Rightarrow> 's \<Rightarrow> 's option" where
  "free_n [] s = Some s"
| "free_n (p # ps) s = do { s1 \<leftarrow> free p s; free_n ps s1 }"

lemma alloc_n_spec:
  "inv s fl \<Longrightarrow> n \<le> length fl \<Longrightarrow>
     \<exists>s'. alloc_n n s = Some (take n fl, s') \<and> inv s' (drop n fl)
       \<and> (\<forall>p\<in>set (take n fl). idle s' p) \<and> (\<forall>q. idle s q \<longrightarrow> idle s' q)"
proof (induction n arbitrary: s fl)
  case 0
  then show ?case by simp
next
  case (Suc n)
  from Suc.prems(2) obtain p ps where fl: "fl = p # ps" by (cases fl) auto
  with Suc.prems obtain s1 where s1: "alloc s = Some (Some p, s1)" "inv s1 ps" "idle s1 p"
    "\<forall>q. idle s q \<longrightarrow> idle s1 q" using alloc_some by blast
  from Suc.IH [OF s1(2)] Suc.prems fl obtain s2 where
    "alloc_n n s1 = Some (take n ps, s2)" "inv s2 (drop n ps)"
    "\<forall>q\<in>set (take n ps). idle s2 q" "\<forall>q. idle s1 q \<longrightarrow> idle s2 q" by auto
  with s1 fl show ?case by simp
qed

lemma free_n_spec:
  "inv s fl \<Longrightarrow> distinct ps \<Longrightarrow> set ps \<inter> set fl = {} \<Longrightarrow> \<forall>p\<in>set ps. idle s p \<Longrightarrow>
     \<exists>s'. free_n ps s = Some s' \<and> inv s' (rev ps @ fl)"
proof (induction ps arbitrary: s fl)
  case Nil
  then show ?case by simp
next
  case (Cons p ps)
  then obtain s1 where "free p s = Some s1" "inv s1 (p # fl)" "\<forall>q\<in>set ps. idle s1 q"
    using free_idle [of s fl p] by (metis IntI distinct.simps(2) empty_iff list.set_intros)
  moreover from this Cons.IH [of s1 "p # fl"] Cons.prems
  obtain s2 where "free_n ps s1 = Some s2" "inv s2 (rev ps @ p # fl)" by auto
  ultimately show ?case by simp
qed

text \<open>Allocating \<open>n\<close> pages and freeing them in the opposite order restores the free list.\<close>

lemma alloc_free_roundtrip:
  assumes "inv s fl" and "n \<le> length fl"
  shows "\<exists>s1 s2. alloc_n n s = Some (take n fl, s1) \<and> free_n (rev (take n fl)) s1 = Some s2
    \<and> inv s2 fl"
proof -
  obtain s1 where s1: "alloc_n n s = Some (take n fl, s1)" "inv s1 (drop n fl)"
    "\<forall>p\<in>set (take n fl). idle s1 p" using alloc_n_spec [OF assms] by blast
  have d: "distinct (take n fl @ drop n fl)" using inv_distinct [OF assms(1)] by simp
  then have "set (rev (take n fl)) \<inter> set (drop n fl) = {}"
    by (simp only: distinct_append set_rev)
  with d s1 obtain s2 where "free_n (rev (take n fl)) s1 = Some s2"
    "inv s2 (rev (rev (take n fl)) @ drop n fl)"
    using free_n_spec [OF s1(2), of "rev (take n fl)"] by auto
  with s1(1) show ?thesis by auto
qed

text \<open>An exhausted allocator answers \<open>NULL\<close> and keeps doing so.\<close>

lemma alloc_n_exhausts:
  assumes "inv s fl"
  shows "\<exists>s1. alloc_n (length fl) s = Some (fl, s1) \<and> alloc s1 = Some (None, s1)"
  using alloc_n_spec [OF assms, of "length fl"] alloc_none by auto

end

definition page_idle :: "kern \<Rightarrow> nat \<Rightarrow> bool" where
  "page_idle s p \<longleftrightarrow> p < npages s \<and> pp_ref (pages s p) = 0"

interpretation kpa: page_allocator "page_alloc f" page_free free_list_inv page_idle
proof (unfold_locales, goal_cases)
  case (1 s fl)
  then show ?case by (rule free_list_invD)
next
  case (2 s)
  then show ?case by (rule page_alloc_Nil)
next
  case (3 s p fl)
  then have "p < npages s" "pp_ref (pages s p) = 0" by (auto simp: free_list_inv_def)
  with 3 show ?case
    by (auto simp: page_alloc_Cons page_idle_def intro: free_list_inv_popped)
next
  case (4 s fl p)
  then show ?case
    using page_free_spec [of s fl p] by (auto simp: page_idle_def)
qed

section \<open>What page_init builds\<close>

text \<open>The first frame past the memory that \<open>boot_alloc\<close> has handed out, and the frames
  that \<open>page_init\<close> keeps off the free list.\<close>

definition boot_frame :: "kern \<Rightarrow> nat" where
  "boot_frame s = unat ((nextfree s - KERNBASE) div PGSIZE)"

definition used_at_boot :: "kern \<Rightarrow> nat \<Rightarrow> bool" where
  "used_at_boot s i \<longleftrightarrow> i = 0 \<or> i = 7 \<or> (160 \<le> i \<and> i < 256) \<or> (256 \<le> i \<and> i < boot_frame s)"

definition boot_free :: "kern \<Rightarrow> nat \<Rightarrow> nat list" where
  "boot_free s n = rev (filter (\<lambda>i. \<not> used_at_boot s i) [0..<n])"

lemma page_init_step_eq:
  assumes "nextfree s \<noteq> 0" and "KERNBASE \<le> nextfree s"
  shows "page_init_step i s = Some (s\<lparr>pages := (pages s)(i := \<lparr>
       pp_link = (if used_at_boot s i then None else page_free_list s),
       pp_ref = (if used_at_boot s i then 1 else 0)\<rparr>),
     page_free_list := (if used_at_boot s i then page_free_list s else Some i)\<rparr>)"
proof -
  have "\<not> nextfree s < KERNBASE" using assms(2) by simp
  then show ?thesis using assms(1)
    by (simp add: page_init_step_def boot_alloc_def PADDR_def used_at_boot_def boot_frame_def
        EXTPHYSMEM_def IOPHYSMEM_def PGSIZE_def Let_def)
qed

lemma page_init_loop_append:
  "page_init_loop (is @ js) s = do { s1 \<leftarrow> page_init_loop is s; page_init_loop js s1 }"
  by (induction "is" arbitrary: s) (auto split: Option.bind_splits)

text \<open>The loop invariant: after \<open>n\<close> iterations the list holds the free frames below
  \<open>n\<close>, and the descriptors below \<open>n\<close> are set.\<close>

lemma page_init_loop_spec:
  assumes "nextfree s \<noteq> 0" and "KERNBASE \<le> nextfree s" and "page_free_list s = None"
  shows "\<exists>s'. page_init_loop [0..<n] s = Some s' \<and> nextfree s' = nextfree s
     \<and> npages s' = npages s
     \<and> chain (\<lambda>i. pp_link (pages s' i)) (page_free_list s') (boot_free s n)
     \<and> (\<forall>i<n. pp_ref (pages s' i) = (if used_at_boot s i then 1 else 0))
     \<and> (\<forall>i<n. used_at_boot s i \<longrightarrow> pp_link (pages s' i) = None)"
proof (induction n)
  case 0
  with assms show ?case by (simp add: boot_free_def)
next
  case (Suc n)
  then obtain s' where s': "page_init_loop [0..<n] s = Some s'" "nextfree s' = nextfree s"
    "npages s' = npages s" "chain (\<lambda>i. pp_link (pages s' i)) (page_free_list s') (boot_free s n)"
    "\<forall>i<n. pp_ref (pages s' i) = (if used_at_boot s i then 1 else 0)"
    "\<forall>i<n. used_at_boot s i \<longrightarrow> pp_link (pages s' i) = None" by blast
  have same: "used_at_boot s' i = used_at_boot s i" for i
    using s'(2) by (simp add: used_at_boot_def boot_frame_def)
  have "n \<notin> set (boot_free s n)" by (simp add: boot_free_def)
  then have "chain (\<lambda>i. pp_link (((pages s')(n := \<lparr>pp_link = l, pp_ref = r\<rparr>)) i))
       (page_free_list s') (boot_free s n)" for l r
    using s'(4) by (subst chain_cong [of _ _ "\<lambda>i. pp_link (pages s' i)"]) auto
  with s' assms same show ?case
    by (auto simp: page_init_loop_append page_init_step_eq boot_free_def less_Suc_eq)
qed

lemma page_init_spec:
  assumes "nextfree s \<noteq> 0" and "KERNBASE \<le> nextfree s" and "page_free_list s = None"
    and "npages s \<le> 65536"
  shows "\<exists>s'. page_init s = Some s' \<and> npages s' = npages s
     \<and> free_list_inv s' (boot_free s (npages s))
     \<and> (\<forall>i<npages s. pp_ref (pages s' i) = (if used_at_boot s i then 1 else 0))"
proof -
  obtain s' where "page_init_loop [0..<npages s] s = Some s'" "npages s' = npages s"
    "chain (\<lambda>i. pp_link (pages s' i)) (page_free_list s') (boot_free s (npages s))"
    "\<forall>i<npages s. pp_ref (pages s' i) = (if used_at_boot s i then 1 else 0)"
    "\<forall>i<npages s. used_at_boot s i \<longrightarrow> pp_link (pages s' i) = None"
    using page_init_loop_spec [OF assms(1-3)] by blast
  with assms(4) show ?thesis
    by (auto simp: page_init_def free_list_inv_def boot_free_def)
qed

section \<open>The self test succeeds\<close>

lemma count_free_chain:
  "chain (\<lambda>i. pp_link (pgs i)) p fl \<Longrightarrow> length fl \<le> fuel \<Longrightarrow> count_free fuel pgs p = Some (length fl)"
proof (induction fl arbitrary: p fuel)
  case Nil
  then show ?case by simp
next
  case (Cons x fl)
  then show ?case by (cases fuel) auto
qed

lemma free_list_length: "free_list_inv s fl \<Longrightarrow> length fl \<le> npages s"
proof -
  assume i: "free_list_inv s fl"
  then have "set fl \<subseteq> {..<npages s}" by (auto dest: free_list_invD)
  then have "card (set fl) \<le> npages s" using card_mono [of "{..<npages s}"] by simp
  with free_list_invD(2) [OF i] show ?thesis by (simp add: distinct_card)
qed

lemma count_free_inv: "free_list_inv s fl \<Longrightarrow>
   count_free (npages s) (pages s) (page_free_list s) = Some (length fl)"
  by (rule count_free_chain) (auto simp: free_list_inv_def free_list_length)

text \<open>Symbolic execution of the allocator on a state whose list head is known.\<close>

lemma must_alloc_head:
  assumes "page_free_list s = Some p" and "p < npages s" and "npages s \<le> 65536"
  shows "must_alloc f s = Some (p, popped (f \<noteq> 0) p s)"
  using assms
  by (simp add: must_alloc_def page_alloc_def popped_def Let_def ALLOC_ZERO_def clear_page_def)

lemma must_be_empty_None: "page_free_list s = None \<Longrightarrow> must_be_empty s = Some s"
  by (simp add: must_be_empty_def page_alloc_def kassert_def)

lemma page_free_idle:
  "pp_ref (pages s p) = 0 \<Longrightarrow> pp_link (pages s p) = None \<Longrightarrow>
   page_free p s = Some (s\<lparr>pages := (pages s)(p := (pages s p)\<lparr>pp_link := page_free_list s\<rparr>),
                           page_free_list := Some p\<rparr>)"
  by (simp add: page_free_def)

lemma frame_below_npages:
  assumes "p < n" and "n \<le> 65536"
  shows "page2pa p < of_nat n * PGSIZE"
proof -
  have "unat (of_nat n * PGSIZE :: u32) = n * 4096"
    using assms(2) by (simp add: PGSIZE_def unat_word_ariths unat_of_nat)
  with assms show ?thesis by (simp add: page2pa_def word_less_nat_alt mmu_simps)
qed

lemma check_page_alloc_spec:
  assumes inv: "free_list_inv s (a # b # c # fl)"
  shows "check_page_alloc s = Some (s\<lparr>phys := (phys s)(c := (\<lambda>_. 0))\<rparr>)"
proof -
  have n: "npages s \<le> 65536" and d: "a \<noteq> b" "a \<noteq> c" "b \<noteq> c"
    and r: "pp_ref (pages s a) = 0" "pp_ref (pages s b) = 0" "pp_ref (pages s c) = 0"
    and l: "page_free_list s = Some a" "pp_link (pages s a) = Some b" "pp_link (pages s b) = Some c"
    and lt: "a < npages s" "b < npages s" "c < npages s"
    using inv free_list_invD(2) [OF inv] by (auto simp: free_list_inv_def)
  note lts = lt [THEN frame_below_npages, OF n] lt [THEN less_le_trans, OF n]
  have z: "list_all (\<lambda>i. kread t (entry (frame_kva c) (of_nat i)) = 0) [0..<1024]"
    if "phys t c = (\<lambda>_. 0)" for t
    using that lts by (auto simp: list_all_iff unat_of_nat)
  have same: "(pages s a)\<lparr>pp_link := Some b\<rparr> = pages s a"
    "(pages s b)\<lparr>pp_link := Some c\<rparr> = pages s b"
    using l by (metis PageInfo.surjective PageInfo.update_convs(1))+
  have cnt: "count_free (npages s) (pages s) (Some a) = Some (Suc (Suc (Suc (length fl))))"
    using count_free_inv [OF inv] l(1) by simp
  have "check_page_alloc s = Some (s\<lparr>phys := (phys s)(c := (\<lambda>_. 0)), page_free_list := Some a\<rparr>)"
    unfolding check_page_alloc_def
    using n d r l lt lts
    by (simp add: must_alloc_head must_be_empty_None page_free_idle popped_def kassert_def
        fill_page_def ALLOC_ZERO_def z same cnt)
  also have "s\<lparr>phys := (phys s)(c := (\<lambda>_. 0)), page_free_list := Some a\<rparr>
      = s\<lparr>phys := (phys s)(c := (\<lambda>_. 0))\<rparr>"
    using l(1) by (cases s) simp
  finally show ?thesis .
qed

section \<open>The boot allocator hands out disjoint, page-aligned memory\<close>

definition boot_start :: "kern \<Rightarrow> u32" where
  "boot_start s = (if nextfree s = 0 then ROUNDUP (link_end s) PGSIZE else nextfree s)"

lemma boot_alloc_zero: "boot_alloc 0 s = Some (boot_start s, s\<lparr>nextfree := boot_start s\<rparr>)"
  by (simp add: boot_alloc_def boot_start_def Let_def)

lemma boot_alloc_pos:
  assumes "n \<noteq> 0" and "KERNBASE \<le> boot_start s"
    and "unat (boot_start s) + unat n + 4095 < 4294967296"
  defines "nf \<equiv> ROUNDUP (boot_start s + n) PGSIZE"
  shows "boot_alloc n s =
      (if npages s \<le> unat (PGNUM (nf - KERNBASE)) then None
       else Some (boot_start s, s\<lparr>nextfree := nf\<rparr>))"
    and "unat nf mod 4096 = 0" and "unat (boot_start s) + unat n \<le> unat nf"
    and "unat nf < unat (boot_start s) + unat n + 4096"
proof -
  have e: "unat (boot_start s + n) = unat (boot_start s) + unat n"
    using assms(3) by (simp add: unat_word_ariths)
  have u: "unat nf = (unat (boot_start s) + unat n + 4095) div 4096 * 4096"
    using assms(3) e unfolding nf_def by (simp add: unat_ROUNDUP)
  show "unat nf mod 4096 = 0" unfolding u by simp
  show ge: "unat (boot_start s) + unat n \<le> unat nf"
    and "unat nf < unat (boot_start s) + unat n + 4096" unfolding u by linarith+
  have "\<not> nf < KERNBASE" using assms(2) ge by (simp add: word_le_nat_alt word_less_nat_alt)
  then show "boot_alloc n s = (if npages s \<le> unat (PGNUM (nf - KERNBASE)) then None
       else Some (boot_start s, s\<lparr>nextfree := nf\<rparr>))"
    using assms(1) by (simp add: boot_alloc_def nf_def boot_start_def [symmetric] PADDR_def Let_def)
qed

section \<open>Properties\<close>

text \<open>\<open>page_init\<close> never panics once \<open>boot_alloc\<close> has run; it builds a well-formed free list
  that holds exactly the frames not in use (frame 0, the I/O hole, the kernel and the memory
  given out at boot, and the entry code of the other CPUs), highest first; frames in use get
  reference count 1, free ones 0.\<close>

theorem page_init_builds:
  assumes "nextfree s \<noteq> 0" and "KERNBASE \<le> nextfree s" and "page_free_list s = None"
    and "npages s \<le> 65536"
  shows "\<exists>s'. page_init s = Some s' \<and> npages s' = npages s
     \<and> free_list_inv s' (boot_free s (npages s))
     \<and> (\<forall>i<npages s. pp_ref (pages s' i) = (if used_at_boot s i then 1 else 0))"
  using assms by (rule page_init_spec)

theorem page_init_builds_witness:
  "\<exists>s'. page_init (sample_kern\<lparr>page_free_list := None\<rparr>) = Some s' \<and> npages s' = 16
     \<and> free_list_inv s' (boot_free (sample_kern\<lparr>page_free_list := None\<rparr>) 16)
     \<and> (\<forall>i<16. pp_ref (pages s' i) = (if used_at_boot (sample_kern\<lparr>page_free_list := None\<rparr>) i then 1 else 0))"
  using page_init_builds [of "sample_kern\<lparr>page_free_list := None\<rparr>"]
  by (simp add: sample_kern_def KERNBASE_def)

text \<open>The boot-time self test \<open>check_page_alloc\<close> passes every assertion whenever at least
  three pages are free, and leaves the allocator as it was: only the contents of the third
  page are cleared.\<close>

theorem check_page_alloc_passes:
  assumes "free_list_inv s (a # b # c # fl)"
  shows "check_page_alloc s = Some (s\<lparr>phys := (phys s)(c := (\<lambda>_. 0))\<rparr>)"
  using assms by (rule check_page_alloc_spec)

lemma sample_free_list: "free_list_inv sample_kern [3, 4, 5]"
  by (simp add: free_list_inv_def sample_kern_def)

theorem check_page_alloc_passes_witness:
  "check_page_alloc sample_kern = Some (sample_kern\<lparr>phys := (phys sample_kern)(5 := (\<lambda>_. 0))\<rparr>)"
  by (rule check_page_alloc_passes [OF sample_free_list])

text \<open>Allocating any number of pages that are there and freeing them in the opposite order
  succeeds and restores the free list; the pages come in list order.\<close>

theorem page_alloc_free_roundtrip:
  assumes "free_list_inv s fl" and "n \<le> length fl"
  shows "\<exists>s1 s2. kpa.alloc_n flags n s = Some (take n fl, s1)
    \<and> kpa.free_n (rev (take n fl)) s1 = Some s2 \<and> free_list_inv s2 fl"
  using assms by (rule kpa.alloc_free_roundtrip)

theorem page_alloc_free_roundtrip_witness:
  "\<exists>s1 s2. kpa.alloc_n 0 2 sample_kern = Some ([3, 4], s1)
    \<and> kpa.free_n [4, 3] s1 = Some s2 \<and> free_list_inv s2 [3, 4, 5]"
  using page_alloc_free_roundtrip [OF sample_free_list, of 2 0] by (simp add: numeral_2_eq_2)

text \<open>\<open>boot_alloc(n)\<close> for \<open>n > 0\<close> returns the current end of the boot memory and moves it to
  the next page boundary at or above the end of the request, so that successive requests get
  disjoint memory; it panics exactly when that boundary lies beyond physical memory.\<close>

theorem boot_alloc_disjoint:
  assumes "n \<noteq> 0" and "KERNBASE \<le> boot_start s"
    and "unat (boot_start s) + unat n + 4095 < 4294967296"
  shows "(case boot_alloc n s of
      None \<Rightarrow> npages s \<le> unat (PGNUM (ROUNDUP (boot_start s + n) PGSIZE - KERNBASE))
    | Some (p, s') \<Rightarrow> p = boot_start s \<and> unat (nextfree s') mod 4096 = 0
        \<and> unat p + unat n \<le> unat (nextfree s') \<and> unat (nextfree s') < unat p + unat n + 4096
        \<and> s' = s\<lparr>nextfree := nextfree s'\<rparr>
        \<and> unat (PGNUM (nextfree s' - KERNBASE)) < npages s)"
  using boot_alloc_pos [OF assms] by (simp add: not_le)

lemma sample_boot_start: "boot_start (sample_kern\<lparr>npages := n\<rparr>) = 0xF0100000"
  by (simp add: boot_start_def sample_kern_def)

theorem boot_alloc_disjoint_witness:
  "(case boot_alloc 5000 (sample_kern\<lparr>npages := 1024\<rparr>) of
      None \<Rightarrow> npages (sample_kern\<lparr>npages := 1024\<rparr>)
                 \<le> unat (PGNUM (ROUNDUP (0xF0100000 + 5000) PGSIZE - KERNBASE))
    | Some (p, s') \<Rightarrow> p = 0xF0100000 \<and> unat (nextfree s') mod 4096 = 0
        \<and> unat p + unat (5000 :: u32) \<le> unat (nextfree s') \<and> unat (nextfree s') < unat p + unat (5000 :: u32) + 4096
        \<and> s' = (sample_kern\<lparr>npages := 1024\<rparr>)\<lparr>nextfree := nextfree s'\<rparr>
        \<and> unat (PGNUM (nextfree s' - KERNBASE)) < npages (sample_kern\<lparr>npages := 1024\<rparr>))"
  using boot_alloc_disjoint [of 5000 "sample_kern\<lparr>npages := 1024\<rparr>"]
  unfolding sample_boot_start by (simp add: KERNBASE_def)

end
