(* ===== verification/Page_Table.thy ===== *)
theory Page_Table
  imports Phys_Alloc
begin

text \<open>
  Two-level page tables (\<open>kern/pmap.c\<close>): \<open>pgdir_walk\<close>, \<open>boot_map_region\<close>,
  \<open>page_insert\<close>, \<open>page_lookup\<close>, \<open>page_remove\<close>, \<open>tlb_invalidate\<close>, \<open>mmio_map_region\<close>
  and \<open>check_va2pa\<close>. The user part of the address spaces is abstracted to
  a map from (page directory, directory index, table index) to page table entries
  (\<open>umap\<close>), and the operations are shown to be updates of that map that keep the
  reference counts exact (\<open>vm_inv\<close>).
\<close>

section \<open>Operations\<close>

definition pgdir_walk :: "u32 \<Rightarrow> u32 \<Rightarrow> bool \<Rightarrow> kern \<Rightarrow> (u32 option \<times> kern) option" where
  "pgdir_walk pgdir va create s =
     (let pde = kread s (entry pgdir (PDX va)) in
      if pde \<noteq> 0 then
        do { page_table \<leftarrow> KADDR s (PTE_ADDR pde);
             Some (Some (entry page_table (PTX va)), s) }
      else if create then
        do { (r, s1) \<leftarrow> page_alloc 1 s;
             (case r of
                None \<Rightarrow> Some (None, s1)
              | Some new_page \<Rightarrow>
                  let s2 = set_ref new_page (pp_ref (pages s1 new_page) + 1) s1;
                      new_pde = page2pa new_page;
                      s3 = kwrite (entry pgdir (PDX va))
                             (new_pde OR PTE_P OR PTE_W OR PTE_U) s2
                  in do { new_page_table \<leftarrow> KADDR s3 new_pde;
                          Some (Some (entry new_page_table (PTX va)), s3) }) }
      else Some (None, s))"

text \<open>The loop of \<open>boot_map_region\<close> from offset \<open>i\<close>. \<open>pse\<close> says whether the kernel is
  compiled with \<open>TP1_PSE\<close>. A \<open>NULL\<close> from \<open>pgdir_walk\<close> is dereferenced by the source,
  a fault in the kernel, hence a panic. \<open>None\<close> also stands for a loop that does not end
  (the offset can wrap around when \<open>size\<close> exceeds \<open>0xFFFFF000\<close>).\<close>

partial_function (option) boot_map_loop ::
  "bool \<Rightarrow> u32 \<Rightarrow> u32 \<Rightarrow> u32 \<Rightarrow> u32 \<Rightarrow> u32 \<Rightarrow> u32 \<Rightarrow> kern \<Rightarrow> kern option" where
  "boot_map_loop pse pgdir va sz pa perm i s =
     (if i < sz then
        if pse \<and> pa mod PTSIZE = 0 \<and> va mod PTSIZE = 0 \<and> PTSIZE \<le> sz - i then
          boot_map_loop pse pgdir va sz pa perm (i + PTSIZE)
            (kwrite (entry pgdir (PDX (va + i))) ((pa + i) OR perm OR PTE_P OR PTE_PS) s)
        else
          do { (r, s1) \<leftarrow> pgdir_walk pgdir (va + i) True s;
               pte \<leftarrow> r;
               boot_map_loop pse pgdir va sz pa perm (i + PGSIZE)
                 (kwrite pte ((pa + i) OR perm OR PTE_P) s1) }
      else Some s)"

definition boot_map_region ::
  "bool \<Rightarrow> u32 \<Rightarrow> u32 \<Rightarrow> u32 \<Rightarrow> u32 \<Rightarrow> u32 \<Rightarrow> kern \<Rightarrow> kern option" where
  "boot_map_region pse pgdir va sz pa perm s = boot_map_loop pse pgdir va sz pa perm 0 s"

definition page_lookup :: "u32 \<Rightarrow> u32 \<Rightarrow> kern \<Rightarrow> ((nat \<times> u32) option \<times> kern) option" where
  "page_lookup pgdir va s =
     do { (r, s1) \<leftarrow> pgdir_walk pgdir va False s;
          (case r of
             None \<Rightarrow> Some (None, s1)
           | Some pte \<Rightarrow>
               if kread s1 pte AND PTE_P = 0 then Some (None, s1)
               else do { pp \<leftarrow> pa2page s1 (PTE_ADDR (kread s1 pte)); Some (Some (pp, pte), s1) }) }"

definition invlpg :: "u32 \<Rightarrow> kern \<Rightarrow> kern" where
  "invlpg va s = s\<lparr>invlpg_log := va # invlpg_log s\<rparr>"

definition tlb_invalidate :: "u32 \<Rightarrow> u32 \<Rightarrow> kern \<Rightarrow> kern" where
  "tlb_invalidate pgdir va s =
     (case curenv s of
        None \<Rightarrow> invlpg va s
      | Some e \<Rightarrow> if env_pgdir (envs s e) = pgdir then invlpg va s else s)"

definition page_remove :: "u32 \<Rightarrow> u32 \<Rightarrow> kern \<Rightarrow> kern option" where
  "page_remove pgdir va s =
     do { (r, s1) \<leftarrow> page_lookup pgdir va s;
          (case r of
             None \<Rightarrow> Some s1
           | Some (pp, pte) \<Rightarrow>
               do { s2 \<leftarrow> page_decref pp s1;
                    let s3 = (if kread s2 pte AND PTE_P \<noteq> 0 then kwrite pte 0 s2 else s2);
                    Some (tlb_invalidate pgdir va s3) }) }"

text \<open>\<open>page_insert\<close> returns \<open>Inr ()\<close> for 0 and \<open>Inl E_NO_MEM\<close> for \<open>-E_NO_MEM\<close>.\<close>

definition page_insert :: "u32 \<Rightarrow> nat \<Rightarrow> u32 \<Rightarrow> u32 \<Rightarrow> kern \<Rightarrow> ((error + unit) \<times> kern) option" where
  "page_insert pgdir pp va perm s =
     do { (r, s1) \<leftarrow> pgdir_walk pgdir va True s;
          (case r of
             None \<Rightarrow> Some (Inl E_NO_MEM, s1)
           | Some pte \<Rightarrow>
               let s2 = set_ref pp (pp_ref (pages s1 pp) + 1) s1 in
               do { s3 \<leftarrow> (if kread s2 pte AND PTE_P \<noteq> 0 then page_remove pgdir va s2
                          else Some s2);
                    Some (Inr (), kwrite pte (page2pa pp OR perm OR PTE_P) s3) }) }"

definition mmio_map_region :: "bool \<Rightarrow> u32 \<Rightarrow> u32 \<Rightarrow> kern \<Rightarrow> (u32 \<times> kern) option" where
  "mmio_map_region pse pa sz s =
     (let sz = ROUNDUP sz PGSIZE; base = mmio_base s in
      if MMIOLIM < sz + base then None
      else do { s1 \<leftarrow> boot_map_region pse (kern_pgdir s) base sz pa
                        (PTE_PCD OR PTE_PWT OR PTE_W) s;
                Some (base, s1\<lparr>mmio_base := base + sz\<rparr>) })"

definition check_va2pa :: "u32 \<Rightarrow> u32 \<Rightarrow> kern \<Rightarrow> u32 option" where
  "check_va2pa pgdir va s =
     (let pde = kread s (entry pgdir (PDX va)) in
      if pde AND PTE_P = 0 then Some (NOT 0)
      else if pde AND PTE_PS \<noteq> 0 then Some (PGADDR (PDX pde) (PTX va) (PGOFF va))
      else do { p \<leftarrow> KADDR s (PTE_ADDR pde);
                let pte = kread s (entry p (PTX va));
                Some (if pte AND PTE_P = 0 then NOT 0 else PTE_ADDR pte) })"

section \<open>The address spaces as a map\<close>

text \<open>\<open>D\<close> is the set of frames that hold page directories; the user part of a directory is
  its first \<open>NPDU = PDX(UTOP)\<close> entries.\<close>

definition NPDU :: nat where
  "NPDU = unat (PDX UTOP)"

lemma NPDU_eq: "NPDU = 955"
  by (simp add: NPDU_def unat_PDX layout_defs)

definition slots :: "nat set \<Rightarrow> (nat \<times> nat) set" where
  "slots D = D \<times> {..<NPDU}"

definition pt_frame :: "(nat \<Rightarrow> nat \<Rightarrow> u32) \<Rightarrow> nat \<times> nat \<Rightarrow> nat" where
  "pt_frame m di = unat (PGNUM (m (fst di) (snd di)))"

definition live_slots :: "(nat \<Rightarrow> nat \<Rightarrow> u32) \<Rightarrow> nat set \<Rightarrow> (nat \<times> nat) set" where
  "live_slots m D = {di \<in> slots D. m (fst di) (snd di) \<noteq> 0}"

definition tables :: "(nat \<Rightarrow> nat \<Rightarrow> u32) \<Rightarrow> nat set \<Rightarrow> nat set" where
  "tables m D = pt_frame m ` live_slots m D"

text \<open>The page table entry of (directory, directory index, table index), if present.\<close>

definition umap :: "(nat \<Rightarrow> nat \<Rightarrow> u32) \<Rightarrow> nat set \<Rightarrow> nat \<times> nat \<times> nat \<rightharpoonup> u32" where
  "umap m D = (\<lambda>(d, i, j).
     if (d, i) \<in> live_slots m D \<and> j < 1024 \<and> m (pt_frame m (d, i)) j AND PTE_P \<noteq> 0
     then Some (m (pt_frame m (d, i)) j) else None)"

definition frames :: "(nat \<Rightarrow> nat \<Rightarrow> u32) \<Rightarrow> nat set \<Rightarrow> nat \<times> nat \<times> nat \<rightharpoonup> nat" where
  "frames m D k = map_option (\<lambda>pte. unat (PGNUM pte)) (umap m D k)"

text \<open>A directory entry that points to a page table: present, writable, accessible to users, not a
  4 MB page.\<close>

definition pde_ok :: "u32 \<Rightarrow> bool" where
  "pde_ok x \<longleftrightarrow> x AND 0x87 = 7"

lemma pde_ok_present: "pde_ok x \<Longrightarrow> x AND PTE_P \<noteq> 0"
proof
  assume "pde_ok x" and z: "x AND PTE_P = 0"
  then have "(x AND PTE_P) AND 0x87 = 7 AND PTE_P"
    unfolding pde_ok_def by (metis and.assoc and.commute)
  with z show False by (simp add: PTE_P_def)
qed

text \<open>Page tables are frames of their own: never free, never a directory, never shared by two
  directory entries.\<close>

definition tables_inv :: "(nat \<Rightarrow> nat \<Rightarrow> u32) \<Rightarrow> nat \<Rightarrow> nat set \<Rightarrow> nat set \<Rightarrow> bool" where
  "tables_inv m n F D \<longleftrightarrow>
     finite D \<and> D \<inter> F = {} \<and> (\<forall>d\<in>D. d < n) \<and>
     (\<forall>t\<in>tables m D. t < n \<and> t \<notin> F \<and> t \<notin> D) \<and>
     (\<forall>di\<in>live_slots m D. pde_ok (m (fst di) (snd di))) \<and>
     inj_on (pt_frame m) (live_slots m D)"

text \<open>The invariant of virtual memory: the free list is a list, page tables are well formed,
  a mapped frame is neither free nor a page table nor a directory, and reference counts
  are exact.\<close>

definition vm_inv :: "kern \<Rightarrow> nat list \<Rightarrow> nat set \<Rightarrow> bool" where
  "vm_inv s fl D \<longleftrightarrow>
     free_list_inv s fl \<and>
     tables_inv (phys s) (npages s) (set fl) D \<and>
     (\<forall>p\<in>D \<union> tables (phys s) D. pp_ref (pages s p) = 1) \<and>
     (\<forall>p\<in>ran (frames (phys s) D).
        p < npages s \<and> p \<notin> set fl \<and> p \<notin> D \<and> p \<notin> tables (phys s) D
        \<and> unat (pp_ref (pages s p)) = occurrences (frames (phys s) D) p)"

text \<open>The frames that the allocator and the page tables account for: free, a directory, a page
  table, or mapped. A frame that drops out of this set is leaked.\<close>

definition owned :: "kern \<Rightarrow> nat list \<Rightarrow> nat set \<Rightarrow> nat set" where
  "owned s fl D = set fl \<union> D \<union> tables (phys s) D \<union> ran (frames (phys s) D)"

section \<open>How memory writes act on the map\<close>

lemma in_slots [simp]: "(d, i) \<in> slots D \<longleftrightarrow> d \<in> D \<and> i < NPDU"
  by (simp add: slots_def)

lemma NPDU_less: "i < NPDU \<Longrightarrow> i < 1024"
  by (simp add: NPDU_eq)

lemma live_slots_iff: "(d, i) \<in> live_slots m D \<longleftrightarrow> d \<in> D \<and> i < NPDU \<and> m d i \<noteq> 0"
  by (simp add: live_slots_def)

lemma umap_apply:
  "umap m D (d, i, j) =
     (if (d, i) \<in> live_slots m D \<and> j < 1024 \<and> m (pt_frame m (d, i)) j AND PTE_P \<noteq> 0
      then Some (m (pt_frame m (d, i)) j) else None)"
  by (simp add: umap_def)

lemma frames_apply: "frames m D k = map_option (\<lambda>pte. unat (PGNUM pte)) (umap m D k)"
  by (simp add: frames_def)

lemma umap_ran: "umap m D k = Some pte \<Longrightarrow> unat (PGNUM pte) \<in> ran (frames m D)"
  by (rule ranI [of _ k]) (simp add: frames_apply)

lemma dom_frames: "dom (frames m D) = dom (umap m D)"
  by (auto simp: frames_def)

lemma finite_dom_frames: "finite D \<Longrightarrow> finite (dom (frames m D))"
proof -
  assume "finite D"
  moreover have "dom (umap m D) \<subseteq> D \<times> {..<NPDU} \<times> {..<1024}"
    by (auto simp: umap_def live_slots_iff split: if_splits)
  ultimately show ?thesis
    unfolding dom_frames by (meson finite_SigmaI finite_lessThan finite_subset)
qed

lemma tables_invD:
  assumes "tables_inv m n F D"
  shows "finite D" and "d \<in> D \<Longrightarrow> d < n" and "d \<in> D \<Longrightarrow> d \<notin> F"
    and "t \<in> tables m D \<Longrightarrow> t < n" and "t \<in> tables m D \<Longrightarrow> t \<notin> F"
    and "t \<in> tables m D \<Longrightarrow> t \<notin> D"
    and "(d, i) \<in> live_slots m D \<Longrightarrow> m d i AND PTE_P \<noteq> 0"
    and "inj_on (pt_frame m) (live_slots m D)"
    and "(d, i) \<in> live_slots m D \<Longrightarrow> pde_ok (m d i)"
proof -
  show p: "(d, i) \<in> live_slots m D \<Longrightarrow> pde_ok (m d i)" for d i
    using assms by (fastforce simp: tables_inv_def)
  show "(d, i) \<in> live_slots m D \<Longrightarrow> m d i AND PTE_P \<noteq> 0" for d i
    using pde_ok_present [OF p] .
qed (use assms in \<open>auto simp: tables_inv_def\<close>)

lemma pt_frame_in_tables: "di \<in> live_slots m D \<Longrightarrow> pt_frame m di \<in> tables m D"
  by (simp add: tables_def)

lemma tables_inv_free: "tables_inv m n F D \<Longrightarrow> q \<notin> D \<Longrightarrow> q \<notin> tables m D
   \<Longrightarrow> tables_inv m n (insert q F) D"
  by (auto simp: tables_inv_def)

lemma tables_inv_subset: "tables_inv m n F D \<Longrightarrow> F' \<subseteq> F \<Longrightarrow> tables_inv m n F' D"
  by (auto simp: tables_inv_def)

text \<open>A write outside the directories leaves the directory entries alone.\<close>

lemma live_slots_upd: "t \<notin> D \<Longrightarrow> live_slots (m(t := r)) D = live_slots m D"
  by (auto simp: live_slots_def slots_def)

lemma pt_frame_upd: "t \<notin> D \<Longrightarrow> di \<in> live_slots m D \<Longrightarrow> pt_frame (m(t := r)) di = pt_frame m di"
  by (auto simp: live_slots_def slots_def pt_frame_def)

lemma tables_upd: "t \<notin> D \<Longrightarrow> tables (m(t := r)) D = tables m D"
  by (simp add: tables_def live_slots_upd pt_frame_upd cong: image_cong_simp)

lemma tables_inv_upd:
  assumes "tables_inv m n F D" and "t \<notin> D"
  shows "tables_inv (m(t := r)) n F D"
proof -
  have e: "(m(t := r)) (fst di) (snd di) = m (fst di) (snd di)" if "di \<in> live_slots m D" for di
    using that assms(2) by (auto simp: live_slots_def slots_def)
  have "inj_on (pt_frame (m(t := r))) (live_slots m D)"
    using tables_invD(8) [OF assms(1)] assms(2)
    by (auto simp: inj_on_def pt_frame_upd)
  with assms e show ?thesis
    unfolding tables_inv_def live_slots_upd [OF assms(2)] tables_upd [OF assms(2)] by auto
qed

text \<open>Writing an entry of a page table is updating one point of the map.\<close>

lemma umap_set_entry:
  assumes inv: "tables_inv m n F D" and live: "(d, i) \<in> live_slots m D" and "j < 1024"
    and t: "t = pt_frame m (d, i)"
  shows "umap (m(t := (m t)(j := v))) D
       = (umap m D)((d, i, j) := (if v AND PTE_P \<noteq> 0 then Some v else None))"
proof
  fix k :: "nat \<times> nat \<times> nat"
  obtain d' i' j' where k: "k = (d', i', j')" by (cases k)
  have tD: "t \<notin> D" using inv live t by (auto dest: tables_invD(6) pt_frame_in_tables)
  have eq: "pt_frame m (d', i') = t \<longleftrightarrow> (d', i') = (d, i)" if "(d', i') \<in> live_slots m D"
    using tables_invD(8) [OF inv] live t that by (auto dest: inj_onD)
  show "umap (m(t := (m t)(j := v))) D k
      = ((umap m D)((d, i, j) := (if v AND PTE_P \<noteq> 0 then Some v else None))) k"
    using live \<open>j < 1024\<close> tD eq t
    by (auto simp: k umap_apply live_slots_upd pt_frame_upd)
qed

text \<open>Entering a cleared page table into an empty directory slot does not change the map.\<close>

lemma new_table:
  assumes inv: "tables_inv m n F D" and "t \<in> F" and "t < 1048576"
    and di: "d \<in> D" "i < NPDU" "m d i = 0"
    and m': "m' = m(t := (\<lambda>_. 0), d := (m d)(i := frame_addr t OR 7))"
  shows "live_slots m' D = insert (d, i) (live_slots m D)"
    and "pt_frame m' (d, i) = t"
    and "tables m' D = insert t (tables m D)"
    and "umap m' D = umap m D"
    and "t < n \<Longrightarrow> tables_inv m' n (F - {t}) D"
proof -
  have td: "t \<notin> D" "t \<noteq> d" using tables_invD(3) [OF inv] \<open>t \<in> F\<close> di by auto
  have tt: "t \<notin> tables m D" using tables_invD(5) [OF inv] \<open>t \<in> F\<close> by auto
  have P: "(frame_addr t OR 7) AND PTE_P = PTE_P"
    using frame_addr_and_low [of PTE_P t 7] by (simp add: PTE_P_def)
  then have nz: "frame_addr t OR 7 \<noteq> 0" by (auto simp: PTE_P_def)
  show ls: "live_slots m' D = insert (d, i) (live_slots m D)"
    using td di nz by (auto simp: live_slots_def slots_def m')
  show pt: "pt_frame m' (d, i) = t"
    using \<open>t < 1048576\<close> by (simp add: pt_frame_def m')
  have other: "pt_frame m' di = pt_frame m di \<and> m' (fst di) (snd di) = m (fst di) (snd di)"
    if "di \<in> live_slots m D" for di
    using that td di by (auto simp: live_slots_def slots_def pt_frame_def m')
  show ts: "tables m' D = insert t (tables m D)"
    using other by (simp add: tables_def ls pt cong: image_cong_simp)
  have ptne: "pt_frame m x \<noteq> t" "pt_frame m x \<noteq> d" if "x \<in> live_slots m D" for x
    using pt_frame_in_tables [OF that] tt tables_invD(6) [OF inv] di by auto
  show "umap m' D = umap m D"
  proof
    fix k :: "nat \<times> nat \<times> nat"
    obtain d' i' j' where k: "k = (d', i', j')" by (cases k)
    consider "(d', i') = (d, i)" | "(d', i') \<noteq> (d, i)" "(d', i') \<in> live_slots m D"
      | "(d', i') \<noteq> (d, i)" "(d', i') \<notin> live_slots m D" by blast
    then show "umap m' D k = umap m D k"
    proof cases
      case 1
      then show ?thesis using pt td di by (simp add: k umap_apply live_slots_iff m')
    next
      case 2
      then have "m' (pt_frame m (d', i')) = m (pt_frame m (d', i'))"
        using ptne by (simp add: m')
      with 2 other [of "(d', i')"] show ?thesis by (simp add: k umap_apply ls)
    next
      case 3
      then show ?thesis by (auto simp: k umap_apply ls)
    qed
  qed
  show "tables_inv m' n (F - {t}) D" if "t < n"
  proof -
    have "inj_on (pt_frame m') (live_slots m D)"
      using tables_invD(8) [OF inv] other by (metis inj_on_cong)
    moreover have "pt_frame m' ` live_slots m D = tables m D"
      using other by (simp add: tables_def cong: image_cong_simp)
    ultimately have "inj_on (pt_frame m') (live_slots m' D)"
      using tt by (auto simp: ls inj_on_insert pt)
    moreover have "pde_ok (m' d i)" using frame_addr_and_low [of "0x87" t 7] by (simp add: m' pde_ok_def)
    ultimately show ?thesis
      using inv that td other unfolding tables_inv_def ts ls by auto
  qed
qed

section \<open>Frames of the operations\<close>

text \<open>The page table operations only touch the page descriptors, the free list, memory and
  the TLB.\<close>

definition pm_frame :: "kern \<Rightarrow> kern \<Rightarrow> bool" where
  "pm_frame s s' \<longleftrightarrow>
     s'\<lparr>pages := pages s, page_free_list := page_free_list s, phys := phys s,
        invlpg_log := invlpg_log s\<rparr> = s"

lemma pm_frame_refl [simp, intro]: "pm_frame s s"
  by (simp add: pm_frame_def)

lemma pm_frame_trans [trans]: "pm_frame s t \<Longrightarrow> pm_frame t u \<Longrightarrow> pm_frame s u"
  unfolding pm_frame_def by (cases s; cases t; cases u) simp

lemma pm_frameD:
  assumes "pm_frame s s'"
  shows "npages s' = npages s" and "envs s' = envs s" and "cpus s' = cpus s"
    and "this_cpu s' = this_cpu s" and "env_free_list s' = env_free_list s"
    and "kern_pgdir s' = kern_pgdir s" and "curenv s' = curenv s" and "cr3 s' = cr3 s"
    and "kernel_lock s' = kernel_lock s"
  using assms unfolding pm_frame_def curenv_def by (cases s; cases s'; simp)+

lemma pm_frame_ops [simp, intro]:
  "pm_frame s (set_word p i v s)" "pm_frame s (set_ref p r s)" "pm_frame s (popped z p s)"
  "pm_frame s (invlpg va s)"
  by (simp_all add: pm_frame_def set_word_def set_ref_def popped_def invlpg_def)

lemma tlb_invalidate_simps [simp]:
  "phys (tlb_invalidate g va s) = phys s" "pages (tlb_invalidate g va s) = pages s"
  "page_free_list (tlb_invalidate g va s) = page_free_list s"
  "npages (tlb_invalidate g va s) = npages s"
  "free_list_inv (tlb_invalidate g va s) fl = free_list_inv s fl"
  by (simp_all add: tlb_invalidate_def invlpg_def free_list_inv_def split: option.split)

lemma pm_frame_tlb [simp, intro]: "pm_frame s (tlb_invalidate g va s)"
  by (simp add: tlb_invalidate_def split: option.split)

section \<open>Dropping a reference\<close>

lemma page_decref_spec:
  assumes inv: "free_list_inv s fl" and q: "q < npages s" "q \<notin> set fl" "pp_ref (pages s q) \<noteq> 0"
  obtains s' where "page_decref q s = Some s'" and "pm_frame s s'" and "phys s' = phys s"
    and "free_list_inv s' (if pp_ref (pages s q) = 1 then q # fl else fl)"
    and "\<And>x. pp_ref (pages s' x) = (if x = q then pp_ref (pages s q) - 1 else pp_ref (pages s x))"
proof -
  let ?s1 = "set_ref q (pp_ref (pages s q) - 1) s"
  have i1: "free_list_inv ?s1 fl" using inv q(2) by (rule free_list_inv_set_ref)
  show thesis
  proof (cases "pp_ref (pages s q) = 1")
    case True
    with q page_free_spec [OF i1, of q] obtain s' where s': "page_free q ?s1 = Some s'"
      "free_list_inv s' (q # fl)" "s' = ?s1\<lparr>pages := (pages ?s1)(q := (pages ?s1 q)\<lparr>pp_link :=
        page_free_list ?s1\<rparr>), page_free_list := Some q\<rparr>" by auto
    have "pm_frame s s'" unfolding s'(3) by (simp add: pm_frame_def set_ref_def)
    moreover have "pp_ref (pages s' x) = (if x = q then pp_ref (pages s q) - 1 else pp_ref (pages s x))" for x
      unfolding s'(3) by simp
    moreover have "phys s' = phys s" unfolding s'(3) by simp
    moreover have "page_decref q s = Some s'"
      using s'(1) True by (simp add: page_decref_def)
    ultimately show ?thesis
      using that [of s'] s'(2) True by simp
  next
    case False
    then have "pp_ref (pages s q) - 1 \<noteq> 0" by simp
    with False i1 show ?thesis
      using that [of ?s1] by (auto simp: page_decref_def)
  qed
qed

section \<open>pgdir_walk\<close>

lemma PTE_ADDR_frame: "PTE_ADDR x = frame_addr (unat (PGNUM x))"
proof (rule bit_word_eqI)
  fix n assume "n < LENGTH(32)"
  have m: "(0xFFF :: u32) = mask 12" by (simp add: mask_eq_exp_minus_1)
  show "bit (PTE_ADDR x) n = bit (frame_addr (unat (PGNUM x))) n"
    using \<open>n < LENGTH(32)\<close> unfolding PTE_ADDR_def m frame_addr_def PGNUM_def
    by (auto simp: bit_simps)
qed

lemma PDX_user: "va < UTOP \<Longrightarrow> unat (PDX va) < NPDU"
proof -
  assume "va < UTOP"
  then have "unat va < 4005560320" by (simp add: layout_defs word_less_nat_alt)
  then show ?thesis by (simp add: NPDU_eq unat_PDX)
qed

lemma vm_invD:
  assumes "vm_inv s fl D"
  shows "free_list_inv s fl" and "tables_inv (phys s) (npages s) (set fl) D"
    and "npages s \<le> 65536" and "finite D" and "d \<in> D \<Longrightarrow> d < 65536"
    and "p \<in> D \<union> tables (phys s) D \<Longrightarrow> pp_ref (pages s p) = 1"
proof -
  show f: "free_list_inv s fl" and t: "tables_inv (phys s) (npages s) (set fl) D"
    and "p \<in> D \<union> tables (phys s) D \<Longrightarrow> pp_ref (pages s p) = 1"
    using assms by (auto simp: vm_inv_def)
  show n: "npages s \<le> 65536" using f by (rule free_list_invD)
  show "finite D" using t by (rule tables_invD)
  show "d < 65536" if "d \<in> D" using tables_invD(2) [OF t that] n by simp
qed

lemma vm_inv_mapped:
  assumes "vm_inv s fl D" and "p \<in> ran (frames (phys s) D)"
  shows "p < npages s" and "p \<notin> set fl" and "p \<notin> D" and "p \<notin> tables (phys s) D"
    and "unat (pp_ref (pages s p)) = occurrences (frames (phys s) D) p"
  using assms by (auto simp: vm_inv_def)

lemma walk_live:
  assumes "vm_inv s fl D" and "(d, unat (PDX va)) \<in> live_slots (phys s) D"
    and "t = pt_frame (phys s) (d, unat (PDX va))"
  shows "pgdir_walk (frame_kva d) va c s = Some (Some (entry (frame_kva t) (PTX va)), s)"
proof -
  have d: "d < 65536" and nz: "phys s d (unat (PDX va)) \<noteq> 0"
    using assms vm_invD(5) by (auto simp: live_slots_iff)
  have "t < npages s" using assms vm_invD(2) by (metis pt_frame_in_tables tables_invD(4))
  with assms vm_invD(3) have t: "t < npages s" "t < 1048576" by fastforce+
  have "PTE_ADDR (phys s d (unat (PDX va))) = frame_addr t"
    by (simp add: PTE_ADDR_frame assms(3) pt_frame_def)
  with d nz t show ?thesis
    by (simp add: pgdir_walk_def PDX_less)
qed

lemma walk_absent:
  assumes "d < 65536" and "phys s d (unat (PDX va)) = 0"
  shows "pgdir_walk (frame_kva d) va False s = Some (None, s)"
  using assms by (simp add: pgdir_walk_def PDX_less)

text \<open>The state after a new page table \<open>t\<close> has been entered into slot \<open>(d, i)\<close>.\<close>

definition with_table :: "nat \<Rightarrow> nat \<Rightarrow> nat \<Rightarrow> kern \<Rightarrow> kern" where
  "with_table d i t s = set_word d i (frame_addr t OR 7) (set_ref t 1 (popped True t s))"

lemma walk_create:
  assumes inv: "free_list_inv s (t # fl)" and "d < 65536" and "phys s d (unat (PDX va)) = 0"
    and "d \<noteq> t"
  shows "pgdir_walk (frame_kva d) va True s
    = Some (Some (entry (frame_kva t) (PTX va)), with_table d (unat (PDX va)) t s)"
proof -
  have t: "t < npages s" "npages s \<le> 65536" "pp_ref (pages s t) = 0"
    using inv by (auto simp: free_list_inv_def)
  have "t < 1048576" using t by simp
  then show ?thesis
    using assms t
    by (simp add: pgdir_walk_def page_alloc_Cons [OF inv] with_table_def PDX_less Let_def
        page2pa_def PTE_P_def PTE_W_def PTE_U_def or.assoc)
qed

lemma with_table_phys:
  assumes "d \<noteq> t"
  shows "phys (with_table d i t s) = (phys s)(t := (\<lambda>_. 0), d := (phys s d)(i := frame_addr t OR 7))"
  using assms by (auto simp: with_table_def set_word_def fun_eq_iff)

lemma with_table_frame: "pm_frame s (with_table d i t s)"
  unfolding with_table_def by (meson pm_frame_ops pm_frame_trans)

lemma with_table_ref:
  "pp_ref (pages (with_table d i t s) x) = (if x = t then 1 else pp_ref (pages s x))"
  by (simp add: with_table_def)

lemma vm_inv_with_table:
  assumes vm: "vm_inv s (t # fl) D" and di: "d \<in> D" "i < NPDU" "phys s d i = 0"
  shows "vm_inv (with_table d i t s) fl D"
    and "(d, i) \<in> live_slots (phys (with_table d i t s)) D"
    and "pt_frame (phys (with_table d i t s)) (d, i) = t"
    and "umap (phys (with_table d i t s)) D = umap (phys s) D"
    and "tables (phys (with_table d i t s)) D = insert t (tables (phys s) D)"
proof -
  have tinv: "tables_inv (phys s) (npages s) (set (t # fl)) D" using vm by (rule vm_invD)
  have fl: "free_list_inv s (t # fl)" using vm by (rule vm_invD)
  then have t: "t < npages s" "t < 1048576" "t \<notin> set fl"
    using free_list_invD(1,2) [OF fl] free_list_invD(3) [OF fl, of t] by auto
  have "d \<noteq> t" using tables_invD(3) [OF tinv di(1)] by auto
  note ph = with_table_phys [OF this]
  note nt = new_table [OF tinv _ t(2) di, of "phys (with_table d i t s)"]
  show ls: "(d, i) \<in> live_slots (phys (with_table d i t s)) D"
    and "pt_frame (phys (with_table d i t s)) (d, i) = t"
    and um: "umap (phys (with_table d i t s)) D = umap (phys s) D"
    and tb: "tables (phys (with_table d i t s)) D = insert t (tables (phys s) D)"
    using nt ph by simp_all
  have ti: "tables_inv (phys (with_table d i t s)) (npages s) (set fl) D"
    using nt(5) ph t by simp
  have fr: "frames (phys (with_table d i t s)) D = frames (phys s) D"
    by (simp add: frames_def um fun_eq_iff)
  have ff: "free_list_inv (with_table d i t s) fl"
    unfolding with_table_def using free_list_inv_popped [OF fl] t(3)
    by (simp add: free_list_inv_set_ref)
  show "vm_inv (with_table d i t s) fl D"
    using vm ti ff fr tb pm_frameD(1) [OF with_table_frame]
    by (auto simp: vm_inv_def with_table_ref)
qed

section \<open>Reading a mapping\<close>

text \<open>The key of the map that a user address selects in directory \<open>d\<close>.\<close>

definition ukey :: "nat \<Rightarrow> u32 \<Rightarrow> nat \<times> nat \<times> nat" where
  "ukey d va = (d, unat (PDX va), unat (PTX va))"

text \<open>The frame of the page table that serves \<open>va\<close>, and where its entry lies.\<close>

definition utable :: "kern \<Rightarrow> nat \<Rightarrow> u32 \<Rightarrow> nat" where
  "utable s d va = pt_frame (phys s) (d, unat (PDX va))"

lemma slot_cases:
  assumes "vm_inv s fl D" and "d \<in> D" and "va < UTOP"
  obtains (live) "(d, unat (PDX va)) \<in> live_slots (phys s) D" "utable s d va < 65536"
      "utable s d va \<in> tables (phys s) D"
    | (absent) "phys s d (unat (PDX va)) = 0" "umap (phys s) D (ukey d va) = None"
proof (cases "phys s d (unat (PDX va)) = 0")
  case True
  then show thesis using absent by (simp add: ukey_def umap_apply live_slots_iff)
next
  case False
  then have l: "(d, unat (PDX va)) \<in> live_slots (phys s) D"
    using assms(2,3) by (simp add: live_slots_iff PDX_user)
  then have "utable s d va \<in> tables (phys s) D" by (simp add: utable_def pt_frame_in_tables)
  with l assms(1) show thesis
    using live tables_invD(4) [OF vm_invD(2)] vm_invD(3) by (metis less_le_trans)
qed

lemma umap_ukey:
  "(d, unat (PDX va)) \<in> live_slots (phys s) D \<Longrightarrow> umap (phys s) D (ukey d va) =
     (if phys s (utable s d va) (unat (PTX va)) AND PTE_P \<noteq> 0
      then Some (phys s (utable s d va) (unat (PTX va))) else None)"
  by (simp add: ukey_def umap_apply utable_def PTX_less)

text \<open>\<open>page_lookup\<close> reads the map: it returns the mapped frame and a pointer to its entry,
  and \<open>NULL\<close> where nothing is mapped. It never panics and changes nothing.\<close>

lemma page_lookup_spec:
  assumes vm: "vm_inv s fl D" and "d \<in> D" and "va < UTOP"
  shows "page_lookup (frame_kva d) va s =
    Some (map_option (\<lambda>pte. (unat (PGNUM pte), entry (frame_kva (utable s d va)) (PTX va)))
            (umap (phys s) D (ukey d va)), s)"
  using vm \<open>d \<in> D\<close> \<open>va < UTOP\<close>
proof (cases rule: slot_cases)
  case live
  let ?pte = "phys s (utable s d va) (unat (PTX va))"
  have "unat (PGNUM ?pte) < npages s" if "?pte AND PTE_P \<noteq> 0"
    using that umap_ukey [OF live(1)] by (intro vm_inv_mapped(1) [OF vm] umap_ran) auto
  with live show ?thesis
    by (cases "?pte AND PTE_P = 0")
      (simp_all add: page_lookup_def walk_live [OF vm live(1) utable_def] umap_ukey PTX_less
        pa2page_def)
next
  case absent
  then show ?thesis
    using vm_invD(5) [OF vm \<open>d \<in> D\<close>] by (simp add: page_lookup_def walk_absent)
qed

section \<open>Removing and inserting a mapping\<close>

text \<open>The entry of \<open>va\<close> overwritten: the shape of memory after both operations.\<close>

definition with_pte :: "nat \<Rightarrow> u32 \<Rightarrow> u32 \<Rightarrow> kern \<Rightarrow> nat \<Rightarrow> nat \<Rightarrow> u32" where
  "with_pte d va v s = (phys s)(utable s d va :=
     (phys s (utable s d va))(unat (PTX va) := v))"

lemma umap_with_pte:
  assumes "vm_inv s fl D" and "(d, unat (PDX va)) \<in> live_slots (phys s) D"
  shows "umap (with_pte d va v s) D =
    (umap (phys s) D)(ukey d va := (if v AND PTE_P \<noteq> 0 then Some v else None))"
  unfolding with_pte_def ukey_def
  by (rule umap_set_entry [OF vm_invD(2) [OF assms(1)] assms(2) PTX_less utable_def])

lemma frames_with_pte:
  assumes "vm_inv s fl D" and "(d, unat (PDX va)) \<in> live_slots (phys s) D"
  shows "frames (with_pte d va v s) D =
    (frames (phys s) D)(ukey d va := (if v AND PTE_P \<noteq> 0 then Some (unat (PGNUM v)) else None))"
  by (auto simp: frames_def umap_with_pte [OF assms] fun_eq_iff)

text \<open>The invariant after an entry is overwritten, from what happened to the counts and to
  the free list.\<close>

lemma vm_inv_with_pte:
  assumes vm: "vm_inv s fl D" and live: "(d, unat (PDX va)) \<in> live_slots (phys s) D"
    and s': "phys s' = with_pte d va v s" "npages s' = npages s" "free_list_inv s' fl'"
    and fl': "\<And>x. x \<in> set fl' \<Longrightarrow> x \<in> set fl \<or>
        (x \<notin> D \<and> x \<notin> tables (phys s) D \<and> x \<notin> ran (frames (phys s') D))"
    and ref: "\<And>x. x \<in> D \<union> tables (phys s) D \<Longrightarrow> pp_ref (pages s' x) = pp_ref (pages s x)"
      "\<And>x. x \<in> ran (frames (phys s') D) \<Longrightarrow>
         unat (pp_ref (pages s' x)) = occurrences (frames (phys s') D) x"
    and new: "v AND PTE_P \<noteq> 0 \<Longrightarrow> unat (PGNUM v) < npages s \<and> unat (PGNUM v) \<notin> set fl
        \<and> unat (PGNUM v) \<notin> D \<and> unat (PGNUM v) \<notin> tables (phys s) D"
  shows "vm_inv s' fl' D"
proof -
  note tinv = vm_invD(2) [OF vm]
  have "utable s d va \<in> tables (phys s) D" using live by (simp add: utable_def pt_frame_in_tables)
  then have tD: "utable s d va \<notin> D" using tables_invD(6) [OF tinv] by blast
  have tb: "tables (phys s') D = tables (phys s) D"
    unfolding s'(1) with_pte_def using tD by (rule tables_upd)
  have ti: "tables_inv (phys s') (npages s) (set fl) D"
    unfolding s'(1) with_pte_def using tinv tD by (rule tables_inv_upd)
  have ran: "x < npages s \<and> x \<notin> set fl \<and> x \<notin> D \<and> x \<notin> tables (phys s) D"
    if x: "x \<in> ran (frames (phys s') D)" for x
  proof -
    from x have "x \<in> ran (frames (phys s) D) \<or> (v AND PTE_P \<noteq> 0 \<and> x = unat (PGNUM v))"
      unfolding s'(1) frames_with_pte [OF vm live] by (auto simp: ran_def split: if_splits)
    with new vm_inv_mapped [OF vm, of x] show ?thesis by auto
  qed
  have "tables_inv (phys s') (npages s) (set fl') D"
    using ti fl' tb unfolding tables_inv_def by (metis (no_types, lifting) disjoint_iff)
  with s'(2,3) tb ran ref fl' vm_invD(6) [OF vm] show ?thesis
    unfolding vm_inv_def by (metis (no_types, lifting))
qed

lemma page_remove_absent:
  assumes "vm_inv s fl D" and "d \<in> D" and "va < UTOP" and "umap (phys s) D (ukey d va) = None"
  shows "page_remove (frame_kva d) va s = Some s"
  using assms by (simp add: page_remove_def page_lookup_spec)

text \<open>What removal does to the machine below the map.\<close>

lemma page_remove_mapped:
  assumes tinv: "tables_inv (phys s) (npages s) F D" and n: "npages s \<le> 65536"
    and fl: "free_list_inv s fl" and d: "d \<in> D" "va < UTOP"
    and pte: "umap (phys s) D (ukey d va) = Some pte"
    and q: "q = unat (PGNUM pte)" "q < npages s" "q \<notin> set fl" "pp_ref (pages s q) \<noteq> 0"
  obtains s' where "page_remove (frame_kva d) va s = Some s'" and "pm_frame s s'"
    and "phys s' = with_pte d va 0 s"
    and "free_list_inv s' (if pp_ref (pages s q) = 1 then q # fl else fl)"
    and "\<And>x. pp_ref (pages s' x) = (if x = q then pp_ref (pages s q) - 1 else pp_ref (pages s x))"
proof -
  let ?t = "utable s d va"
  have live: "(d, unat (PDX va)) \<in> live_slots (phys s) D"
    and ent: "phys s ?t (unat (PTX va)) = pte" "pte AND PTE_P \<noteq> 0"
    using pte by (auto simp: ukey_def umap_apply utable_def split: if_splits)
  have "?t < npages s"
    using live tinv by (auto simp: utable_def intro: tables_invD pt_frame_in_tables)
  with n have t: "?t < npages s" "?t < 65536" "?t < 1048576" by auto
  have d6: "d < 65536" using tables_invD(2) [OF tinv d(1)] n by simp
  have "phys s d (unat (PDX va)) \<noteq> 0" "PTE_ADDR (phys s d (unat (PDX va))) = frame_addr ?t"
    using live by (simp_all add: PTE_ADDR_frame utable_def pt_frame_def live_slots_iff)
  with d6 t have "pgdir_walk (frame_kva d) va False s = Some (Some (entry (frame_kva ?t) (PTX va)), s)"
    by (simp add: pgdir_walk_def PDX_less)
  with ent q t have lk: "page_lookup (frame_kva d) va s = Some (Some (q, entry (frame_kva ?t) (PTX va)), s)"
    by (simp add: page_lookup_def PTX_less pa2page_def)
  from fl q(2-4) obtain s2 where s2: "page_decref q s = Some s2" "pm_frame s s2" "phys s2 = phys s"
    "free_list_inv s2 (if pp_ref (pages s q) = 1 then q # fl else fl)"
    "\<And>x. pp_ref (pages s2 x) = (if x = q then pp_ref (pages s q) - 1 else pp_ref (pages s x))"
    by (rule page_decref_spec) blast
  let ?s' = "tlb_invalidate (frame_kva d) va (set_word ?t (unat (PTX va)) 0 s2)"
  show thesis
  proof (rule that [of ?s'])
    show "page_remove (frame_kva d) va s = Some ?s'"
      using lk s2(1,3) ent t by (simp add: page_remove_def PTX_less)
    show "pm_frame s ?s'" using s2(2) by (meson pm_frame_ops pm_frame_tlb pm_frame_trans)
    show "phys ?s' = with_pte d va 0 s"
      using s2(3) by (simp add: with_pte_def set_word_def)
  qed (use s2 in simp_all)
qed

lemma unat_dec: "r \<noteq> 0 \<Longrightarrow> unat (r - 1) = unat r - 1" for r :: u16
  by (simp add: unat_minus_one)

lemma unat_inc: "unat r < 65535 \<Longrightarrow> unat (r + 1) = unat r + 1" for r :: u16
  by (simp add: unat_word_ariths)

text \<open>\<open>page_remove\<close> deletes one point of the map. The frame loses one reference, and goes to
  the head of the free list exactly when it was the last one.\<close>

lemma page_remove_spec:
  assumes vm: "vm_inv s fl D" and d: "d \<in> D" "va < UTOP"
  shows "\<exists>s' fl'. page_remove (frame_kva d) va s = Some s' \<and> vm_inv s' fl' D \<and> pm_frame s s'
    \<and> umap (phys s') D = (umap (phys s) D)(ukey d va := None)
    \<and> fl' = (case frames (phys s) D (ukey d va) of None \<Rightarrow> fl
             | Some q \<Rightarrow> if occurrences (frames (phys s) D) q = 1 then q # fl else fl)
    \<and> (\<forall>p. p \<notin> tables (phys s) D \<longrightarrow> phys s' p = phys s p)
    \<and> tables (phys s') D = tables (phys s) D
    \<and> owned s' fl' D = owned s fl D"
proof (cases "umap (phys s) D (ukey d va)")
  case None
  then have "(umap (phys s) D)(ukey d va := None) = umap (phys s) D" by auto
  with None show ?thesis
    using page_remove_absent [OF vm d None] vm by (simp add: frames_apply)
next
  case (Some pte)
  let ?q = "unat (PGNUM pte)"
  let ?occ = "occurrences (frames (phys s) D)"
  have live: "(d, unat (PDX va)) \<in> live_slots (phys s) D"
    using Some by (auto simp: ukey_def umap_apply split: if_splits)
  have fq: "frames (phys s) D (ukey d va) = Some ?q" using Some by (simp add: frames_apply)
  have fin: "finite (dom (frames (phys s) D))" using vm_invD(4) [OF vm] by (rule finite_dom_frames)
  have qr: "?q \<in> ran (frames (phys s) D)" using Some by (rule umap_ran)
  note q = vm_inv_mapped [OF vm qr]
  have pos: "0 < ?occ ?q" using fin fq by (rule occurrences_pos)
  then have nz: "pp_ref (pages s ?q) \<noteq> 0" using q(5) by (metis less_irrefl unat_0)
  have one: "pp_ref (pages s ?q) = 1 \<longleftrightarrow> ?occ ?q = 1"
    using q(5) by (metis unat_1 word_unat_eq_iff)
  obtain s' where s': "page_remove (frame_kva d) va s = Some s'" "pm_frame s s'"
    "phys s' = with_pte d va 0 s"
    "free_list_inv s' (if pp_ref (pages s ?q) = 1 then ?q # fl else fl)"
    "\<And>x. pp_ref (pages s' x) = (if x = ?q then pp_ref (pages s ?q) - 1 else pp_ref (pages s x))"
    using page_remove_mapped [OF vm_invD(2) [OF vm] vm_invD(3) [OF vm] vm_invD(1) [OF vm] d Some
        refl q(1,2) nz] by metis
  let ?fl' = "if pp_ref (pages s ?q) = 1 then ?q # fl else fl"
  have fr: "frames (phys s') D = (frames (phys s) D)(ukey d va := None)"
    unfolding s'(3) frames_with_pte [OF vm live] by simp
  have occ: "occurrences (frames (phys s') D) x = ?occ x - (if x = ?q then 1 else 0)" for x
    unfolding fr using occurrences_None [OF fin, of "ukey d va" x] fq by auto
  have ran_sub: "ran (frames (phys s') D) \<subseteq> ran (frames (phys s) D)"
    unfolding fr by (auto simp: ran_def)
  have "vm_inv s' ?fl' D"
  proof (rule vm_inv_with_pte [OF vm live s'(3) pm_frameD(1) [OF s'(2)] s'(4)])
    fix x assume "x \<in> set ?fl'"
    then consider "x \<in> set fl" | "x = ?q" "?occ ?q = 1" using one by (auto split: if_splits)
    then show "x \<in> set fl \<or>
        (x \<notin> D \<and> x \<notin> tables (phys s) D \<and> x \<notin> ran (frames (phys s') D))"
    proof cases
      case 2
      then have "occurrences (frames (phys s') D) x = 0" by (simp add: occ)
      with 2 q finite_dom_frames [OF vm_invD(4) [OF vm]] show ?thesis
        by (auto simp: occurrences_fresh)
    qed simp
  next
    fix x assume "x \<in> D \<union> tables (phys s) D"
    with q show "pp_ref (pages s' x) = pp_ref (pages s x)" using s'(5) by auto
  next
    fix x assume "x \<in> ran (frames (phys s') D)"
    with ran_sub have "unat (pp_ref (pages s x)) = ?occ x" using vm_inv_mapped(5) [OF vm] by blast
    then show "unat (pp_ref (pages s' x)) = occurrences (frames (phys s') D) x"
      using s'(5) occ nz unat_dec by auto
  qed simp
  moreover have "umap (phys s') D = (umap (phys s) D)(ukey d va := None)"
    unfolding s'(3) umap_with_pte [OF vm live] by simp
  moreover have ut: "utable s d va \<in> tables (phys s) D"
    using live by (simp add: utable_def pt_frame_in_tables)
  moreover have tb: "tables (phys s') D = tables (phys s) D"
    unfolding s'(3) with_pte_def using ut tables_invD(6) [OF vm_invD(2) [OF vm]]
    by (intro tables_upd) blast
  moreover have "set ?fl' \<union> ran (frames (phys s') D) = set fl \<union> ran (frames (phys s) D)"
    unfolding fr ran_delete [OF fin] using fq one qr by auto
  then have "owned s' ?fl' D = owned s fl D" unfolding owned_def tb by blast
  ultimately show ?thesis
    using s' fq one
    by (intro exI [of _ s'] exI [of _ ?fl']) (auto simp: with_pte_def)
qed

text \<open>A frame that may be mapped: a data page, with an exact and not yet exhausted reference
  count (\<open>pp_ref\<close> has 16 bits).\<close>

definition insertable :: "kern \<Rightarrow> nat list \<Rightarrow> nat set \<Rightarrow> nat \<Rightarrow> bool" where
  "insertable s fl D p \<longleftrightarrow>
     p < npages s \<and> p \<notin> set fl \<and> p \<notin> D \<and> p \<notin> tables (phys s) D \<and>
     unat (pp_ref (pages s p)) = occurrences (frames (phys s) D) p \<and>
     unat (pp_ref (pages s p)) < 65535"

text \<open>The reference count of the new page is raised before the old mapping is dropped, so
  that mapping a page where it already is does not free it.\<close>

lemma replace_old:
  assumes vm: "vm_inv s fl D" and d: "d \<in> D" "va < UTOP"
    and live: "(d, unat (PDX va)) \<in> live_slots (phys s) D" and p: "insertable s fl D p"
  defines "s2 \<equiv> set_ref p (pp_ref (pages s p) + 1) s" and "old \<equiv> frames (phys s) D (ukey d va)"
  obtains s3 fl' v where
      "(if phys s (utable s d va) (unat (PTX va)) AND PTE_P \<noteq> 0 then page_remove (frame_kva d) va s2
        else Some s2) = Some s3"
    and "pm_frame s s3" and "phys s3 = with_pte d va v s" and "free_list_inv s3 fl'"
    and "\<And>x. x \<in> set fl' \<longleftrightarrow> x \<in> set fl \<or>
          (x \<noteq> p \<and> old = Some x \<and> occurrences (frames (phys s) D) x = 1)"
    and "\<And>x. unat (pp_ref (pages s3 x)) =
          unat (pp_ref (pages s x)) + (if x = p then 1 else 0) - (if old = Some x then 1 else 0)"
    and "\<And>x. x \<noteq> p \<Longrightarrow> old \<noteq> Some x \<Longrightarrow> pp_ref (pages s3 x) = pp_ref (pages s x)"
proof (cases "umap (phys s) D (ukey d va)")
  case None
  then have "phys s (utable s d va) (unat (PTX va)) AND PTE_P = 0" "old = None"
    using umap_ukey [OF live] by (auto simp: old_def frames_apply split: if_splits)
  moreover have "phys s2 = with_pte d va (phys s (utable s d va) (unat (PTX va))) s"
    by (simp add: s2_def with_pte_def)
  moreover have "free_list_inv s2 fl"
    using vm_invD(1) [OF vm] p by (simp add: s2_def insertable_def free_list_inv_set_ref)
  ultimately show thesis
    using that [of s2 _ fl] p by (auto simp: s2_def insertable_def unat_inc)
next
  case (Some pte)
  let ?q = "unat (PGNUM pte)" and ?occ = "occurrences (frames (phys s) D)"
  have p': "p \<notin> set fl" "unat (pp_ref (pages s p)) = ?occ p" "unat (pp_ref (pages s p)) < 65535"
    using p by (auto simp: insertable_def)
  have old: "old = Some ?q" using Some by (simp add: old_def frames_apply)
  have ent: "phys s (utable s d va) (unat (PTX va)) AND PTE_P \<noteq> 0"
    using Some umap_ukey [OF live] by (auto split: if_splits)
  have qr: "?q \<in> ran (frames (phys s) D)" using Some by (rule umap_ran)
  note q = vm_inv_mapped [OF vm qr]
  have pos: "0 < ?occ ?q"
    using finite_dom_frames [OF vm_invD(4) [OF vm]] old unfolding old_def by (rule occurrences_pos)
  have r2: "unat (pp_ref (pages s2 x)) = unat (pp_ref (pages s x)) + (if x = p then 1 else 0)" for x
    using p'(3) by (simp add: s2_def unat_inc)
  have nz: "pp_ref (pages s2 ?q) \<noteq> 0" using r2 [of ?q] q(5) pos by (metis add_is_0 less_irrefl unat_0)
  have fl2: "free_list_inv s2 fl"
    using vm_invD(1) [OF vm] p'(1) by (simp add: s2_def free_list_inv_set_ref)
  have "tables_inv (phys s2) (npages s2) (set fl) D" "npages s2 \<le> 65536"
    "umap (phys s2) D (ukey d va) = Some pte" "?q < npages s2"
    using vm_invD [OF vm] Some q(1) by (simp_all add: s2_def)
  from page_remove_mapped [OF this(1,2) fl2 d this(3) refl this(4) q(2) nz]
  obtain s3 where s3: "page_remove (frame_kva d) va s2 = Some s3" "pm_frame s2 s3"
    "phys s3 = with_pte d va 0 s2"
    "free_list_inv s3 (if pp_ref (pages s2 ?q) = 1 then ?q # fl else fl)"
    "\<And>x. pp_ref (pages s3 x) = (if x = ?q then pp_ref (pages s2 ?q) - 1 else pp_ref (pages s2 x))"
    by metis
  have "pp_ref (pages s2 ?q) = 1 \<longleftrightarrow> unat (pp_ref (pages s2 ?q)) = 1"
    by (metis unat_1 word_unat_eq_iff)
  then have one: "pp_ref (pages s2 ?q) = 1 \<longleftrightarrow> ?q \<noteq> p \<and> ?occ ?q = 1"
    using r2 [of ?q] q(5) pos by auto
  show thesis
  proof (rule that [OF _ _ _ s3(4)])
    show "(if phys s (utable s d va) (unat (PTX va)) AND PTE_P \<noteq> 0
      then page_remove (frame_kva d) va s2 else Some s2) = Some s3" using ent s3(1) by simp
    show "pm_frame s s3" using s3(2) by (metis pm_frame_ops(2) pm_frame_trans s2_def)
    show "phys s3 = with_pte d va 0 s" using s3(3) by (simp add: s2_def with_pte_def utable_def)
    show "x \<in> set (if pp_ref (pages s2 ?q) = 1 then ?q # fl else fl) \<longleftrightarrow>
        x \<in> set fl \<or> (x \<noteq> p \<and> old = Some x \<and> ?occ x = 1)" for x
      using one old by auto
    show "unat (pp_ref (pages s3 x)) =
        unat (pp_ref (pages s x)) + (if x = p then 1 else 0) - (if old = Some x then 1 else 0)" for x
      using s3(5) [of x] r2 [of x] nz old by (auto simp: unat_dec)
    show "pp_ref (pages s3 x) = pp_ref (pages s x)" if "x \<noteq> p" "old \<noteq> Some x" for x
      using s3(5) [of x] that old by (auto simp: s2_def)
  qed
qed

text \<open>\<open>page_insert\<close> once the page table exists.\<close>

lemma page_insert_live:
  assumes vm: "vm_inv s fl D" and d: "d \<in> D" "va < UTOP"
    and live: "(d, unat (PDX va)) \<in> live_slots (phys s) D"
    and walk: "pgdir_walk (frame_kva d) va True s0
       = Some (Some (entry (frame_kva (utable s d va)) (PTX va)), s)"
    and p: "insertable s fl D p" and perm: "perm < 4096"
  shows "\<exists>s' fl'. page_insert (frame_kva d) p va perm s0 = Some (Inr (), s')
    \<and> vm_inv s' fl' D \<and> pm_frame s s'
    \<and> umap (phys s') D = (umap (phys s) D)(ukey d va \<mapsto> frame_addr p OR perm OR PTE_P)
    \<and> set fl' \<subseteq> set fl \<union> ran (frames (phys s) D) - {p}
    \<and> (\<forall>x. x \<notin> tables (phys s) D \<longrightarrow> phys s' x = phys s x)
    \<and> tables (phys s') D = tables (phys s) D
    \<and> owned s' fl' D = insert p (owned s fl D)"
proof -
  let ?t = "utable s d va" and ?v = "frame_addr p OR perm OR PTE_P" and ?k = "ukey d va"
  let ?f = "frames (phys s) D"
  have t: "?t \<in> tables (phys s) D" using live by (simp add: utable_def pt_frame_in_tables)
  have tD: "?t \<notin> D" using tables_invD(6) [OF vm_invD(2) [OF vm] t] .
  have t6: "?t < 65536" using tables_invD(4) [OF vm_invD(2) [OF vm] t] vm_invD(3) [OF vm] by simp
  have p': "p < npages s" "p \<notin> set fl" "p \<notin> D" "p \<notin> tables (phys s) D"
    "unat (pp_ref (pages s p)) = occurrences ?f p"
    using p by (auto simp: insertable_def)
  have "perm OR PTE_P < 4096" using perm by (simp add: or_less_4096 PTE_P_def)
  then have v: "?v AND PTE_P \<noteq> 0" "unat (PGNUM ?v) = p"
    using p'(1) vm_invD(3) [OF vm] by (simp_all add: pte_present)
  have fin: "finite (dom ?f)" using finite_dom_frames [OF vm_invD(4) [OF vm]] .
  obtain s3 fl' w where s3: "(if phys s ?t (unat (PTX va)) AND PTE_P \<noteq> 0
        then page_remove (frame_kva d) va (set_ref p (pp_ref (pages s p) + 1) s)
        else Some (set_ref p (pp_ref (pages s p) + 1) s)) = Some s3"
    "pm_frame s s3" "phys s3 = with_pte d va w s" "free_list_inv s3 fl'"
    "\<And>x. x \<in> set fl' \<longleftrightarrow> x \<in> set fl \<or> (x \<noteq> p \<and> ?f ?k = Some x \<and> occurrences ?f x = 1)"
    "\<And>x. unat (pp_ref (pages s3 x)) =
       unat (pp_ref (pages s x)) + (if x = p then 1 else 0) - (if ?f ?k = Some x then 1 else 0)"
    "\<And>x. x \<noteq> p \<Longrightarrow> ?f ?k \<noteq> Some x \<Longrightarrow> pp_ref (pages s3 x) = pp_ref (pages s x)"
    by (rule replace_old [OF vm d live p]) (rule that)
  let ?s' = "set_word ?t (unat (PTX va)) ?v s3"
  have ins: "page_insert (frame_kva d) p va perm s0 = Some (Inr (), ?s')"
    using walk s3(1) t6 by (simp add: page_insert_def PTX_less page2pa_def Let_def)
  have ph: "phys ?s' = with_pte d va ?v s" using s3(3) by (simp add: with_pte_def set_word_def)
  have fr: "frames (phys ?s') D = (?f(?k := None))(?k \<mapsto> p)"
    unfolding ph frames_with_pte [OF vm live] using v by simp
  have occ: "occurrences (frames (phys ?s') D) x =
      occurrences ?f x - (if ?f ?k = Some x then 1 else 0) + (if p = x then 1 else 0)" for x
    unfolding fr using fin by (subst occurrences_Some) (auto simp: occurrences_None)
  have inv': "vm_inv ?s' fl' D"
  proof (rule vm_inv_with_pte [OF vm live ph])
    show "npages ?s' = npages s" using pm_frameD(1) [OF s3(2)] by simp
    show "free_list_inv ?s' fl'" using s3(4) by simp
    show "x \<in> set fl \<or> (x \<notin> D \<and> x \<notin> tables (phys s) D \<and> x \<notin> ran (frames (phys ?s') D))"
      if x: "x \<in> set fl'" for x
    proof (cases "x \<in> set fl")
      case False
      with s3(5) [of x] x have "x \<noteq> p" "?f ?k = Some x" "occurrences ?f x = 1" by auto
      then have "occurrences (frames (phys ?s') D) x = 0" by (simp add: occ)
      then have "x \<notin> ran (frames (phys ?s') D)"
        using finite_dom_frames [OF vm_invD(4) [OF vm]] by (simp add: occurrences_fresh)
      moreover have "x \<in> ran ?f" using \<open>?f ?k = Some x\<close> by (simp add: ranI)
      ultimately show ?thesis using vm_inv_mapped [OF vm] by blast
    qed simp
    show "pp_ref (pages ?s' x) = pp_ref (pages s x)" if "x \<in> D \<union> tables (phys s) D" for x
      using that p' s3(7) [of x] vm_inv_mapped(3,4) [OF vm, of x] by (auto intro: ranI)
    show "unat (pp_ref (pages ?s' x)) = occurrences (frames (phys ?s') D) x"
      if "x \<in> ran (frames (phys ?s') D)" for x
    proof -
      have "x = p \<or> x \<in> ran ?f" using that by (auto simp: fr ran_def split: if_splits)
      then have "unat (pp_ref (pages s x)) = occurrences ?f x"
        using p'(5) vm_inv_mapped(5) [OF vm] by blast
      moreover have "0 < occurrences ?f x" if "?f ?k = Some x" using fin that by (rule occurrences_pos)
      ultimately show ?thesis using s3(6) [of x] occ [of x] by auto
    qed
  qed (use v p' in auto)
  have "umap (phys ?s') D = (umap (phys s) D)(?k \<mapsto> ?v)"
    unfolding ph umap_with_pte [OF vm live] using v by simp
  moreover have "pm_frame s ?s'" using s3(2) by (meson pm_frame_ops(1) pm_frame_trans)
  moreover have "set fl' \<subseteq> set fl \<union> ran ?f - {p}" using s3(5) p' by (auto intro: ranI)
  moreover have "\<forall>x. x \<notin> tables (phys s) D \<longrightarrow> phys ?s' x = phys s x"
    using t unfolding ph by (auto simp: with_pte_def)
  moreover have tb: "tables (phys ?s') D = tables (phys s) D"
    unfolding ph with_pte_def using tD by (rule tables_upd)
  moreover have "set fl' \<union> ran (frames (phys ?s') D) = insert p (set fl \<union> ran ?f)"
    unfolding fr ran_upd fun_upd_upd ran_delete [OF fin] using s3(5) by (auto intro: ranI)
  then have "owned ?s' fl' D = insert p (owned s fl D)" unfolding owned_def tb by blast
  ultimately show ?thesis using ins inv' by blast
qed

text \<open>The whole of \<open>page_insert\<close>: it fails, without any effect, exactly when a page table is
  needed and no page is free; otherwise it updates one point of the map. \<open>fl1\<close> is the
  free list after the page table, if one was needed, has been taken from it.\<close>

lemma insertable_with_table:
  assumes vm: "vm_inv s (t # fl) D" and di: "d \<in> D" "i < NPDU" "phys s d i = 0"
    and p: "insertable s (t # fl) D p"
  shows "insertable (with_table d i t s) fl D p"
proof -
  have "frames (phys (with_table d i t s)) D = frames (phys s) D"
    using vm_inv_with_table(4) [OF vm di] by (simp add: frames_def fun_eq_iff)
  with p show ?thesis
    using vm_inv_with_table(5) [OF vm di] pm_frameD(1) [OF with_table_frame, of d i t s]
    by (auto simp: insertable_def with_table_ref)
qed

lemma page_insert_no_mem:
  assumes vm: "vm_inv s [] D" and "d \<in> D" and "phys s d (unat (PDX va)) = 0"
  shows "page_insert (frame_kva d) p va perm s = Some (Inl E_NO_MEM, s)"
  using assms page_alloc_Nil [OF vm_invD(1) [OF vm]] vm_invD(5) [OF vm]
  by (simp add: page_insert_def pgdir_walk_def PDX_less)

lemma page_insert_spec:
  assumes vm: "vm_inv s fl D" and d: "d \<in> D" "va < UTOP"
    and p: "insertable s fl D p" and perm: "perm < 4096"
    and room: "phys s d (unat (PDX va)) \<noteq> 0 \<or> fl \<noteq> []"
  shows "\<exists>s' fl'. page_insert (frame_kva d) p va perm s = Some (Inr (), s')
    \<and> vm_inv s' fl' D \<and> pm_frame s s'
    \<and> umap (phys s') D = (umap (phys s) D)(ukey d va \<mapsto> frame_addr p OR perm OR PTE_P)
    \<and> set fl' \<subseteq> set fl \<union> ran (frames (phys s) D) - {p}
    \<and> (\<forall>x. x \<noteq> d \<longrightarrow> x \<notin> tables (phys s) D \<longrightarrow> x \<notin> set fl \<longrightarrow> phys s' x = phys s x)
    \<and> tables (phys s') D \<subseteq> tables (phys s) D \<union> set fl
    \<and> owned s' fl' D = insert p (owned s fl D)"
  using vm d
proof (cases rule: slot_cases)
  case live
  then show ?thesis
    using page_insert_live [OF vm d live(1) walk_live [OF vm live(1) utable_def] p perm]
    by blast
next
  case absent
  with room obtain t fl1 where fl: "fl = t # fl1" by (cases fl) auto
  let ?i = "unat (PDX va)" and ?s1 = "with_table d (unat (PDX va)) t s"
  have di: "d \<in> D" "?i < NPDU" "phys s d ?i = 0" using d absent by (simp_all add: PDX_user)
  note vm' = vm [unfolded fl] and p' = p [unfolded fl]
  note w = vm_inv_with_table [OF vm' di]
  have dt: "d \<noteq> t" using tables_invD(3) [OF vm_invD(2) [OF vm'] d(1)] by auto
  have "utable ?s1 d va = t" using w(3) by (simp add: utable_def)
  then have walk: "pgdir_walk (frame_kva d) va True s
      = Some (Some (entry (frame_kva (utable ?s1 d va)) (PTX va)), ?s1)"
    using walk_create [OF vm_invD(1) [OF vm'] vm_invD(5) [OF vm d(1)] absent(1) dt] by simp
  obtain s' fl' where s': "page_insert (frame_kva d) p va perm s = Some (Inr (), s')"
    "vm_inv s' fl' D" "pm_frame ?s1 s'"
    "umap (phys s') D = (umap (phys ?s1) D)(ukey d va \<mapsto> frame_addr p OR perm OR PTE_P)"
    "set fl' \<subseteq> set fl1 \<union> ran (frames (phys ?s1) D) - {p}"
    "\<forall>x. x \<notin> tables (phys ?s1) D \<longrightarrow> phys s' x = phys ?s1 x"
    "tables (phys s') D = tables (phys ?s1) D" "owned s' fl' D = insert p (owned ?s1 fl1 D)"
    using page_insert_live [OF w(1) d w(2) walk insertable_with_table [OF vm' di p'] perm] by blast
  have fr: "frames (phys ?s1) D = frames (phys s) D" by (simp add: frames_def w(4) fun_eq_iff)
  have "phys ?s1 x = phys s x" if "x \<noteq> d" "x \<notin> set fl" for x
    using that fl by (auto simp: with_table_phys [OF dt])
  with s'(6) w(5) fl have "\<forall>x. x \<noteq> d \<longrightarrow> x \<notin> tables (phys s) D \<longrightarrow> x \<notin> set fl \<longrightarrow> phys s' x = phys s x"
    by simp
  moreover have "set fl' \<subseteq> set fl \<union> ran (frames (phys s) D) - {p}" using s'(5) fl by (auto simp: fr)
  moreover have "tables (phys s') D \<subseteq> tables (phys s) D \<union> set fl" using s'(7) w(5) fl by auto
  moreover have "owned ?s1 fl1 D = owned s fl D" unfolding owned_def fr w(5) fl by auto
  ultimately show ?thesis
    using s'(1,2,4,8) w(4) pm_frame_trans [OF with_table_frame s'(3)] by metis
qed

section \<open>Properties\<close>

text \<open>The machine of \<open>sample_kern\<close>: nothing is mapped.\<close>

lemma sample_map:
  "live_slots (phys sample_kern) D = {}" "tables (phys sample_kern) D = {}"
  "umap (phys sample_kern) D = Map.empty" "frames (phys sample_kern) D = Map.empty"
proof -
  show l: "live_slots (phys sample_kern) D = {}" by (simp add: live_slots_def sample_kern_def)
  show "tables (phys sample_kern) D = {}" by (simp add: tables_def l)
  show u: "umap (phys sample_kern) D = Map.empty" by (auto simp: umap_def l)
  show "frames (phys sample_kern) D = Map.empty" by (auto simp: frames_def u)
qed

lemma sample_vm: "vm_inv sample_kern [3, 4, 5] {1, 2}"
  unfolding vm_inv_def tables_inv_def sample_map
  using sample_free_list by (simp add: sample_kern_def)

lemma sample_insertable: "insertable sample_kern [3, 4, 5] {1, 2} 6"
  unfolding insertable_def sample_map
  by (simp add: sample_kern_def occurrences_def)

text \<open>C5. \<open>page_insert\<close> refines the update of one point of the address space map. It fails only
  when a page table is needed and no page is free; otherwise the page is mapped with the
  given permissions, the invariant with exact reference counts is kept, every frame stays
  accounted for, and no frame other than the directory, page tables and free pages is
  written.\<close>

theorem page_insert_refines:
  assumes "vm_inv s fl D" and "d \<in> D" and "va < UTOP" and "insertable s fl D p" and "perm < 4096"
  shows "if phys s d (unat (PDX va)) = 0 \<and> fl = []
    then page_insert (frame_kva d) p va perm s = Some (Inl E_NO_MEM, s)
    else \<exists>s' fl'. page_insert (frame_kva d) p va perm s = Some (Inr (), s') \<and> vm_inv s' fl' D
      \<and> umap (phys s') D = (umap (phys s) D)(ukey d va \<mapsto> frame_addr p OR perm OR PTE_P)
      \<and> owned s' fl' D = insert p (owned s fl D) \<and> pm_frame s s'
      \<and> (\<forall>x. x \<noteq> d \<longrightarrow> x \<notin> tables (phys s) D \<longrightarrow> x \<notin> set fl \<longrightarrow> phys s' x = phys s x)"
proof (cases "phys s d (unat (PDX va)) = 0 \<and> fl = []")
  case True
  then show ?thesis using page_insert_no_mem [of s D d va p perm] assms(1,2) by simp
next
  case False
  then have "phys s d (unat (PDX va)) \<noteq> 0 \<or> fl \<noteq> []" by blast
  from page_insert_spec [OF assms this] show ?thesis unfolding if_not_P [OF False] by blast
qed

theorem page_insert_refines_witness:
  "if phys sample_kern 2 (unat (PDX 0x800000)) = 0 \<and> [3, 4, 5 :: nat] = []
    then page_insert (frame_kva 2) 6 0x800000 7 sample_kern = Some (Inl E_NO_MEM, sample_kern)
    else \<exists>s' fl'. page_insert (frame_kva 2) 6 0x800000 7 sample_kern = Some (Inr (), s') \<and> vm_inv s' fl' {1, 2}
      \<and> umap (phys s') {1, 2} = (umap (phys sample_kern) {1, 2})(ukey 2 0x800000 \<mapsto> frame_addr 6 OR 7 OR PTE_P)
      \<and> owned s' fl' {1, 2} = insert 6 (owned sample_kern [3, 4, 5] {1, 2}) \<and> pm_frame sample_kern s'
      \<and> (\<forall>x. x \<noteq> 2 \<longrightarrow> x \<notin> tables (phys sample_kern) {1, 2} \<longrightarrow> x \<notin> set [3, 4, 5]
            \<longrightarrow> phys s' x = phys sample_kern x)"
  by (rule page_insert_refines [OF sample_vm _ _ sample_insertable]) (simp_all add: layout_values)

text \<open>C6. \<open>page_remove\<close> refines the deletion of one point of the map: it never fails, the
  invariant is kept, and the frame returns to the free list exactly when this was its last
  mapping.\<close>

theorem page_remove_refines:
  assumes "vm_inv s fl D" and "d \<in> D" and "va < UTOP"
  shows "\<exists>s' fl'. page_remove (frame_kva d) va s = Some s' \<and> vm_inv s' fl' D
    \<and> umap (phys s') D = (umap (phys s) D)(ukey d va := None)
    \<and> fl' = (case frames (phys s) D (ukey d va) of None \<Rightarrow> fl
             | Some q \<Rightarrow> if occurrences (frames (phys s) D) q = 1 then q # fl else fl)
    \<and> owned s' fl' D = owned s fl D
    \<and> (\<forall>p. p \<notin> tables (phys s) D \<longrightarrow> phys s' p = phys s p)"
  using page_remove_spec [OF assms] by blast

theorem page_remove_refines_witness:
  "\<exists>s' fl'. page_remove (frame_kva 2) 0x800000 sample_kern = Some s' \<and> vm_inv s' fl' {1, 2}
    \<and> umap (phys s') {1, 2} = (umap (phys sample_kern) {1, 2})(ukey 2 0x800000 := None)
    \<and> fl' = (case frames (phys sample_kern) {1, 2} (ukey 2 0x800000) of None \<Rightarrow> [3, 4, 5]
             | Some q \<Rightarrow> if occurrences (frames (phys sample_kern) {1, 2}) q = 1 then q # [3, 4, 5] else [3, 4, 5])
    \<and> owned s' fl' {1, 2} = owned sample_kern [3, 4, 5] {1, 2}
    \<and> (\<forall>p. p \<notin> tables (phys sample_kern) {1, 2} \<longrightarrow> phys s' p = phys sample_kern p)"
  by (rule page_remove_refines [OF sample_vm]) (simp_all add: layout_values)

text \<open>Round trip: after a successful \<open>page_insert\<close> at \<open>va\<close>, \<open>page_lookup\<close> at any user
  address \<open>vb\<close> of any directory finds the inserted page with the inserted entry when \<open>vb\<close>
  is in the same page of the same directory, and what it found before otherwise.\<close>

theorem page_insert_lookup:
  assumes "vm_inv s fl D" and "d \<in> D" and "va < UTOP" and "insertable s fl D p" and "perm < 4096"
    and "phys s d (unat (PDX va)) \<noteq> 0 \<or> fl \<noteq> []" and "e \<in> D" and "vb < UTOP"
  shows "\<exists>s' r. page_insert (frame_kva d) p va perm s = Some (Inr (), s')
    \<and> page_lookup (frame_kva e) vb s' = Some (r, s')
    \<and> map_option fst r = (if ukey e vb = ukey d va then Some p else frames (phys s) D (ukey e vb))
    \<and> (ukey e vb = ukey d va \<longrightarrow> (\<exists>pte. r = Some (p, pte) \<and> kread s' pte = frame_addr p OR perm OR PTE_P))"
proof -
  obtain s' fl' where s': "page_insert (frame_kva d) p va perm s = Some (Inr (), s')" "vm_inv s' fl' D"
    "umap (phys s') D = (umap (phys s) D)(ukey d va \<mapsto> frame_addr p OR perm OR PTE_P)"
    using page_insert_spec [OF assms(1-6)] by blast
  have p: "p < 1048576" using assms(1,4) vm_invD(3) [OF assms(1)] by (simp add: insertable_def)
  have pp: "perm OR PTE_P < 4096" using assms(5) by (simp add: or_less_4096 PTE_P_def)
  have live: "(e, unat (PDX vb)) \<in> live_slots (phys s') D" if "ukey e vb = ukey d va"
    using s'(3) that by (metis fun_upd_same option.distinct(1) ukey_def umap_apply)
  have "utable s' e vb < 65536" if "ukey e vb = ukey d va"
    using tables_invD(4) [OF vm_invD(2) [OF s'(2)] pt_frame_in_tables [OF live [OF that]]] vm_invD(3) [OF s'(2)]
    by (simp add: utable_def)
  moreover have "phys s' (utable s' e vb) (unat (PTX vb)) = frame_addr p OR perm OR PTE_P" if "ukey e vb = ukey d va"
    using umap_ukey [OF live [OF that]] s'(3) that by (auto split: if_splits)
  ultimately show ?thesis using s' p pp
    by (intro exI [of _ s']) (auto simp: page_lookup_spec [OF s'(2) assms(7,8)] frames_apply
        option.map_comp o_def PTX_less)
qed

theorem page_insert_lookup_witness:
  "\<exists>s' r. page_insert (frame_kva 2) 6 0x800000 7 sample_kern = Some (Inr (), s')
    \<and> page_lookup (frame_kva 2) 0x800000 s' = Some (r, s')
    \<and> map_option fst r = Some 6
    \<and> (\<exists>pte. r = Some (6, pte) \<and> kread s' pte = frame_addr 6 OR 7 OR PTE_P)"
  using page_insert_lookup [OF sample_vm _ _ sample_insertable, of 2 "0x800000" 7 2 "0x800000"]
  by (simp add: layout_values)

end
