(* ===== verification/User_Mem.thy ===== *)
theory User_Mem
  imports Page_Table
begin

text \<open>
  Checking the addresses that user programs pass to the kernel: \<open>user_mem_check\<close> of
  \<open>kern/pmap.c\<close>, shown to decide exactly whether every byte of the range is accessible, as
  long as the end of the range does not wrap around.
\<close>

section \<open>The check\<close>

text \<open>The loop of \<open>user_mem_check\<close>; the result is \<open>Some a\<close> at the first address that
  fails, which \<open>user_mem_check\<close> stores, and \<open>None\<close> when every page passes.\<close>

partial_function (option) user_mem_loop ::
  "kern \<Rightarrow> u32 \<Rightarrow> u32 \<Rightarrow> u32 \<Rightarrow> u32 \<Rightarrow> u32 \<Rightarrow> u32 option option" where
  "user_mem_loop s pgdir perm va va_start va_end =
     (if va_start < va_end then
        do { (r, s1) \<leftarrow> pgdir_walk pgdir va_start False s;
             if (case r of None \<Rightarrow> True | Some pte \<Rightarrow> kread s pte AND perm \<noteq> perm)
             then Some (Some (if va_start < va then va else va_start))
             else user_mem_loop s pgdir perm va (va_start + PGSIZE) va_end }
      else Some None)"

definition user_mem_check :: "nat \<Rightarrow> u32 \<Rightarrow> u32 \<Rightarrow> u32 \<Rightarrow> kern \<Rightarrow> ((error + unit) \<times> kern) option" where
  "user_mem_check e va len perm s =
     (if ULIM < va then Some (Inl E_FAULT, s\<lparr>user_mem_check_addr := va\<rparr>)
      else
        do { bad \<leftarrow> user_mem_loop s (env_pgdir (envs s e)) (perm OR PTE_P) va
                      (ROUNDDOWN va PGSIZE) (ROUNDUP (va + len) PGSIZE);
             (case bad of
                None \<Rightarrow> Some (Inr (), s)
              | Some a \<Rightarrow> Some (Inl E_FAULT, s\<lparr>user_mem_check_addr := a\<rparr>)) })"

section \<open>The loop visits the pages in order\<close>

text \<open>What one iteration tests.\<close>

definition page_allows :: "kern \<Rightarrow> u32 \<Rightarrow> u32 \<Rightarrow> u32 \<Rightarrow> bool" where
  "page_allows s pgdir perm a \<longleftrightarrow>
     (case pgdir_walk pgdir a False s of
        Some (Some pte, _) \<Rightarrow> kread s pte AND perm = perm
      | _ \<Rightarrow> False)"

text \<open>No directory entry for an address below \<open>n\<close> makes the walk panic.\<close>

definition walkable :: "kern \<Rightarrow> u32 \<Rightarrow> nat \<Rightarrow> bool" where
  "walkable s pgdir n \<longleftrightarrow> (\<forall>a. unat a < n \<longrightarrow> pgdir_walk pgdir a False s \<noteq> None)"

lemma PDX_PTX_page: "unat a div 4096 = unat b div 4096 \<Longrightarrow> PDX a = PDX b \<and> PTX a = PTX b"
proof -
  assume h: "unat a div 4096 = unat b div 4096"
  then have "unat a div 4096 div 1024 = unat b div 4096 div 1024" by simp
  then have "unat (PDX a) = unat (PDX b)" by (simp add: unat_PDX div_mult2_eq [symmetric])
  moreover have "unat (PTX a) = unat (PTX b)" using h by (simp add: unat_PTX)
  ultimately show ?thesis by (simp only: word_unat_eq_iff)
qed

lemma page_allows_page:
  "unat a div 4096 = unat b div 4096 \<Longrightarrow> page_allows s g perm a = page_allows s g perm b"
  using PDX_PTX_page [of a b] by (simp add: page_allows_def pgdir_walk_def Let_def cong: if_cong)

abbreviation page_addr :: "nat \<Rightarrow> u32" where
  "page_addr i \<equiv> of_nat (4096 * i)"

definition first_refused :: "kern \<Rightarrow> u32 \<Rightarrow> u32 \<Rightarrow> nat \<Rightarrow> nat \<Rightarrow> nat option" where
  "first_refused s g perm k m = find (\<lambda>i. \<not> page_allows s g perm (page_addr i)) [k..<m]"

lemma user_mem_loop_spec:
  assumes w: "walkable s g n" and b: "unat b \<le> n"
  shows "unat a = 4096 * k \<Longrightarrow> unat b = 4096 * m \<Longrightarrow>
    user_mem_loop s g perm va a b =
      Some (map_option (\<lambda>i. if page_addr i < va then va else page_addr i) (first_refused s g perm k m))"
proof (induction "m - k" arbitrary: a k)
  case 0
  then have "\<not> a < b" by (simp add: word_less_nat_alt)
  with 0 show ?case by (subst user_mem_loop.simps) (simp add: first_refused_def)
next
  case (Suc j)
  from Suc.hyps(2) have km: "k < m" by simp
  have ab: "a < b" using Suc.prems km by (simp add: word_less_nat_alt)
  have a: "a = page_addr k" unfolding Suc.prems(1) [symmetric] by (simp only: of_nat_unat ucast_id)
  have "4096 * Suc k \<le> unat b" using km Suc.prems(2) by simp
  then have "4096 * Suc k < 4294967296" using unat_u32_less [of b] by simp
  then have next': "unat (a + PGSIZE) = 4096 * Suc k"
    using Suc.prems(1) by (simp add: unat_word_ariths PGSIZE_def)
  have IH: "user_mem_loop s g perm va (a + PGSIZE) b = Some (map_option (\<lambda>i. if page_addr i < va then va else page_addr i)
      (first_refused s g perm (Suc k) m))"
    using Suc.hyps(2) by (intro Suc.hyps(1) next' Suc.prems(2)) simp
  obtain r s1 where r: "pgdir_walk g a False s = Some (r, s1)"
    using w b ab unfolding walkable_def word_less_nat_alt by (metis less_le_trans not_None_eq surj_pair)
  have fr: "first_refused s g perm k m =
      (if page_allows s g perm a then first_refused s g perm (Suc k) m else Some k)"
    using km by (simp add: first_refused_def upt_conv_Cons a)
  show ?case
    using ab r IH fr a
    by (subst user_mem_loop.simps) (auto simp: page_allows_def split: option.splits)
qed

lemma first_refused_None:
  "first_refused s g perm k m = None \<longleftrightarrow> (\<forall>i. k \<le> i \<longrightarrow> i < m \<longrightarrow> page_allows s g perm (page_addr i))"
  by (auto simp: first_refused_def find_None_iff)

lemma first_refused_Some:
  assumes "first_refused s g perm k m = Some i"
  shows "k \<le> i" "i < m" "\<not> page_allows s g perm (page_addr i)"
    and "k \<le> j \<Longrightarrow> j < i \<Longrightarrow> page_allows s g perm (page_addr j)"
proof -
  from assms obtain n where n: "n < m - k" "\<not> page_allows s g perm (page_addr (k + n))" "i = k + n"
    "\<forall>l<n. page_allows s g perm (page_addr (k + l))"
    by (auto simp: first_refused_def find_Some_iff)
  then show "k \<le> i" "i < m" "\<not> page_allows s g perm (page_addr i)" by auto
  show "page_allows s g perm (page_addr j)" if "k \<le> j" "j < i"
    using n(3,4) that by (metis add_diff_inverse_nat less_diff_conv2 linorder_not_less add.commute)
qed

text \<open>The pages of a range of addresses whose end does not wrap around.\<close>

lemma page_addr_page: "4096 * i < 4294967296 \<Longrightarrow> unat (page_addr i) = 4096 * i"
  by (simp only: unat_of_nat) simp

definition refused :: "kern \<Rightarrow> u32 \<Rightarrow> u32 \<Rightarrow> u32 \<Rightarrow> u32 \<Rightarrow> u32 \<Rightarrow> bool" where
  "refused s g perm va len a \<longleftrightarrow>
     unat va \<le> unat a \<and> unat a < unat va + unat len \<and> \<not> page_allows s g perm a"

lemma user_mem_loop_range:
  assumes w: "walkable s g n" and n: "(unat va + unat len + 4095) div 4096 * 4096 \<le> n"
    and len: "0 < unat len" and no_wrap: "unat va + unat len + 4095 < 4294967296"
  obtains (pass) "user_mem_loop s g perm va (ROUNDDOWN va PGSIZE) (ROUNDUP (va + len) PGSIZE) = Some None"
      "\<And>a. \<not> refused s g perm va len a"
    | (fail) f where "user_mem_loop s g perm va (ROUNDDOWN va PGSIZE) (ROUNDUP (va + len) PGSIZE) = Some (Some f)"
      "refused s g perm va len f"
      "\<And>a. refused s g perm va len a \<Longrightarrow> f \<le> a"
proof -
  let ?k = "unat va div 4096" and ?m = "(unat va + unat len + 4095) div 4096"
  let ?F = "first_refused s g perm ?k ?m"
  have e: "unat (va + len) = unat va + unat len" using no_wrap by (simp add: unat_word_ariths)
  have "unat (ROUNDDOWN va PGSIZE) = 4096 * ?k" by (simp add: unat_ROUNDDOWN)
  moreover have up: "unat (ROUNDUP (va + len) PGSIZE) = 4096 * ?m"
    using no_wrap e by (simp add: unat_ROUNDUP)
  moreover have le: "unat (ROUNDUP (va + len) PGSIZE) \<le> n" using up n by simp
  ultimately have loop: "user_mem_loop s g perm va (ROUNDDOWN va PGSIZE) (ROUNDUP (va + len) PGSIZE)
      = Some (map_option (\<lambda>i. if page_addr i < va then va else page_addr i) ?F)"
    by (intro user_mem_loop_spec [OF w le])
  have small: "unat (page_addr i) = 4096 * i" if "i < ?m" for i
    using that no_wrap by (intro page_addr_page) linarith
  have in_page: "?k \<le> unat a div 4096 \<and> unat a div 4096 < ?m"
    if "unat va \<le> unat a" "unat a < unat va + unat len" for a :: u32
    using that by (auto intro: div_le_mono)
  have page: "page_allows s g perm a = page_allows s g perm (page_addr (unat a div 4096))"
    if "unat a div 4096 < ?m" for a :: u32
    using small [OF that] by (intro page_allows_page) simp
  show thesis
  proof (cases ?F)
    case None
    then have "\<not> refused s g perm va len a" for a
      using page in_page unfolding refused_def first_refused_None by blast
    with loop None show thesis by (intro pass) auto
  next
    case (Some i)
    note i = first_refused_Some [OF Some]
    let ?f = "if page_addr i < va then va else page_addr i"
    have ui: "unat (page_addr i) = 4096 * i" using i(2) by (rule small)
    have f: "unat va \<le> unat ?f" "unat ?f < unat va + unat len" "unat ?f div 4096 = i"
      using i(1,2) ui len by (auto simp: word_less_nat_alt)
    have "refused s g perm va len ?f"
      unfolding refused_def using f i(2,3) page [of ?f] by simp
    moreover have "?f \<le> a" if "refused s g perm va len a" for a
    proof -
      have "\<not> unat a div 4096 < i"
        using that in_page [of a] page [of a] i(4) [of "unat a div 4096"] by (auto simp: refused_def)
      then show ?thesis
        using that ui by (auto simp: refused_def word_le_nat_alt)
    qed
    ultimately show thesis using loop Some by (intro fail [of ?f]) auto
  qed
qed

lemma user_mem_check_range:
  assumes "va \<le> ULIM" and "0 < unat len" and "unat va + unat len + 4095 < 4294967296"
    and "walkable s (env_pgdir (envs s e)) n" and "(unat va + unat len + 4095) div 4096 * 4096 \<le> n"
  obtains (pass) "user_mem_check e va len perm s = Some (Inr (), s)"
      and "\<And>a. \<not> refused s (env_pgdir (envs s e)) (perm OR PTE_P) va len a"
    | (refuse) f where "user_mem_check e va len perm s = Some (Inl E_FAULT, s\<lparr>user_mem_check_addr := f\<rparr>)"
      and "refused s (env_pgdir (envs s e)) (perm OR PTE_P) va len f"
      and "\<And>a. refused s (env_pgdir (envs s e)) (perm OR PTE_P) va len a \<Longrightarrow> f \<le> a"
proof -
  have v: "\<not> ULIM < va" using assms(1) by simp
  show thesis
  proof (cases rule: user_mem_loop_range [OF assms(4,5,2,3), of "perm OR PTE_P"])
    case 1
    with v show thesis by (intro pass) (auto simp: user_mem_check_def)
  next
    case (2 f)
    with v show thesis by (intro refuse) (auto simp: user_mem_check_def)
  qed
qed

lemma user_mem_check_wrap:
  assumes "va \<le> ULIM"
  shows "user_mem_check e va (- va) perm s = Some (Inr (), s)"
proof -
  have "\<not> ULIM < va" using assms by simp
  moreover have "ROUNDUP (va + - va) PGSIZE = 0"
    by (simp add: ROUNDUP_def ROUNDDOWN_def PGSIZE_def)
  then have "user_mem_loop s g p va (ROUNDDOWN va PGSIZE) (ROUNDUP (va + - va) PGSIZE) = Some None" for g p
    by (subst user_mem_loop.simps) simp
  ultimately show ?thesis by (simp add: user_mem_check_def)
qed

end
