(* ===== verification/Env.thy ===== *)
theory Env
  imports User_Mem
begin

text \<open>
  Environments (\<open>kern/env.c\<close>): looking an environment up by its id, the free list of
  environments, creating an address space, allocating an environment, loading a program
  image, and freeing an environment with all its memory. The operations that hand the
  processor to another environment are in theory \<open>Sched\<close>.
\<close>

section \<open>Constants\<close>

definition NENV :: nat where
  "NENV = 1024"

definition ENVX :: "u32 \<Rightarrow> nat" where
  "ENVX envid = unat (envid AND 0x3FF)"

definition GD_KT :: u16 where "GD_KT = 0x08"
definition GD_UT :: u16 where "GD_UT = 0x18"
definition GD_UD :: u16 where "GD_UD = 0x20"
definition FL_IF :: u32 where "FL_IF = 0x200"
definition FL_IOPL_MASK :: u32 where "FL_IOPL_MASK = 0x3000"
definition FL_IOPL_3 :: u32 where "FL_IOPL_3 = 0x3000"

definition set_env :: "nat \<Rightarrow> (Env \<Rightarrow> Env) \<Rightarrow> kern \<Rightarrow> kern" where
  "set_env e f s = s\<lparr>envs := (envs s)(e := f (envs s e))\<rparr>"

section \<open>Looking up and allocating environments\<close>

text \<open>The result is the error code or the environment pointer stored in \<open>*env_store\<close>
  (\<open>NULL\<close> for id 0 when no environment is running). Dereferencing a null \<open>curenv\<close> is a
  fault in the kernel.\<close>

definition envid2env :: "u32 \<Rightarrow> bool \<Rightarrow> kern \<Rightarrow> (error + nat option) option" where
  "envid2env envid checkperm s =
     (if envid = 0 then Some (Inr (curenv s))
      else let e = ENVX envid in
        if env_status (envs s e) = ENV_FREE \<or> env_id (envs s e) \<noteq> envid then Some (Inl E_BAD_ENV)
        else if checkperm \<and> Some e \<noteq> curenv s then
          do { c \<leftarrow> curenv s;
               if env_parent_id (envs s e) \<noteq> env_id (envs s c) then Some (Inl E_BAD_ENV)
               else Some (Inr (Some e)) }
        else Some (Inr (Some e)))"

primrec env_init_loop :: "nat list \<Rightarrow> kern \<Rightarrow> kern" where
  "env_init_loop [] s = s"
| "env_init_loop (i # is) s =
     env_init_loop is (set_env i (\<lambda>e. e\<lparr>env_link := Some (i + 1), env_id := 0\<rparr>) s)"

definition env_init :: "kern \<Rightarrow> kern" where
  "env_init s =
     (let s1 = env_init_loop [0..<NENV - 1] s;
          s2 = set_env (NENV - 1) (\<lambda>e. e\<lparr>env_id := 0\<rparr>) s1
      in s2\<lparr>env_free_list := Some 0\<rparr>)"

definition env_setup_vm :: "nat \<Rightarrow> kern \<Rightarrow> ((error + unit) \<times> kern) option" where
  "env_setup_vm e s =
     do { (r, s1) \<leftarrow> page_alloc ALLOC_ZERO s;
          (case r of
             None \<Rightarrow> Some (Inl E_NO_MEM, s1)
           | Some p \<Rightarrow>
               do { pgdir \<leftarrow> page2kva s1 p;
                    let s2 = set_env e (\<lambda>v. v\<lparr>env_pgdir := pgdir\<rparr>) s1;
                    let s3 = s2\<lparr>phys := (phys s2)(kva_frame pgdir := phys s2 (kva_frame (kern_pgdir s2)))\<rparr>;
                    let s4 = set_ref p (pp_ref (pages s3 p) + 1) s3;
                    pa \<leftarrow> PADDR pgdir;
                    Some (Inr (), kwrite (entry pgdir (PDX UVPT)) (pa OR PTE_P OR PTE_U) s4) }) }"

text \<open>The id of the next environment in slot \<open>e\<close>: \<open>int32_t\<close> arithmetic, with the
  wrap-around of two's complement.\<close>

definition next_env_id :: "nat \<Rightarrow> u32 \<Rightarrow> u32" where
  "next_env_id e old =
     (let generation = (old + push_bit 12 1) AND NOT (of_nat NENV - 1);
          generation = (if sint generation \<le> 0 then push_bit 12 1 else generation)
      in generation OR of_nat e)"

definition env_alloc :: "u32 \<Rightarrow> kern \<Rightarrow> ((error + nat) \<times> kern) option" where
  "env_alloc parent_id s =
     (case env_free_list s of
        None \<Rightarrow> Some (Inl E_NO_FREE_ENV, s)
      | Some e \<Rightarrow>
          do { (r, s1) \<leftarrow> env_setup_vm e s;
               (case r of
                  Inl err \<Rightarrow> Some (Inl err, s1)
                | Inr _ \<Rightarrow>
                    let s2 = set_env e (\<lambda>v. v\<lparr>env_id := next_env_id e (env_id v),
                               env_parent_id := parent_id, env_type := ENV_TYPE_USER,
                               env_status := ENV_RUNNABLE, env_runs := 0,
                               env_tf := zero_tf\<lparr>tf_ds := GD_UD OR 3, tf_es := GD_UD OR 3,
                                 tf_ss := GD_UD OR 3, tf_esp := USTACKTOP, tf_cs := GD_UT OR 3,
                                 tf_eflags := tf_eflags zero_tf OR FL_IF\<rparr>,
                               env_pgfault_upcall := 0, env_ipc_recving := False\<rparr>) s1
                    in Some (Inr e, s2\<lparr>env_free_list := env_link (envs s2 e)\<rparr>)) })"

section \<open>User memory through the page tables\<close>

text \<open>The translation the MMU makes for a write by the kernel (\<open>CR0_WP\<close> is set): both
  entries must be present and writable. \<open>None\<close> is a page fault in kernel mode.\<close>

definition mmu_write_addr :: "kern \<Rightarrow> u32 \<Rightarrow> u32 \<Rightarrow> (nat \<times> nat) option" where
  "mmu_write_addr s pgdir va =
     (let pde = kread s (entry pgdir (PDX va)) in
      if pde AND (PTE_P OR PTE_W) \<noteq> PTE_P OR PTE_W then None
      else if pde AND PTE_PS \<noteq> 0 then
        Some (unat (PGNUM (PGADDR (PDX pde) (PTX va) 0)), unat (PGOFF va))
      else let pte = phys s (unat (PGNUM pde)) (unat (PTX va)) in
        if pte AND (PTE_P OR PTE_W) \<noteq> PTE_P OR PTE_W then None
        else Some (unat (PGNUM pte), unat (PGOFF va)))"

definition store_byte :: "u32 \<Rightarrow> u32 \<Rightarrow> u8 \<Rightarrow> kern \<Rightarrow> kern option" where
  "store_byte pgdir va b s =
     do { (p, off) \<leftarrow> mmu_write_addr s pgdir va;
          Some (set_word p (off div 4) (put_byte (off mod 4) b (phys s p (off div 4))) s) }"

text \<open>\<open>memcpy\<close> and \<open>memset\<close> into the address space \<open>pgdir\<close>, byte by byte from \<open>va\<close>.\<close>

primrec store_bytes :: "u32 \<Rightarrow> u32 \<Rightarrow> (nat \<Rightarrow> u8) \<Rightarrow> nat \<Rightarrow> kern \<Rightarrow> kern option" where
  "store_bytes pgdir va src 0 s = Some s"
| "store_bytes pgdir va src (Suc n) s =
     do { s1 \<leftarrow> store_bytes pgdir va src n s; store_byte pgdir (va + of_nat n) (src n) s1 }"

section \<open>Loading a program\<close>

partial_function (option) region_alloc_loop :: "u32 \<Rightarrow> u32 \<Rightarrow> u32 \<Rightarrow> kern \<Rightarrow> kern option" where
  "region_alloc_loop pgdir comienzo final s =
     (if comienzo < final then
        do { (r, s1) \<leftarrow> page_alloc 0 s;
             p \<leftarrow> r;
             (res, s2) \<leftarrow> page_insert pgdir p comienzo (PTE_W OR PTE_U) s1;
             (case res of
                Inl _ \<Rightarrow> None
              | Inr _ \<Rightarrow> region_alloc_loop pgdir (comienzo + PGSIZE) final s2) }
      else Some s)"

definition region_alloc :: "nat \<Rightarrow> u32 \<Rightarrow> u32 \<Rightarrow> kern \<Rightarrow> kern option" where
  "region_alloc e va len s =
     region_alloc_loop (env_pgdir (envs s e)) (ROUNDDOWN va PGSIZE) (ROUNDUP (va + len) PGSIZE) s"

text \<open>A program image in kernel memory: its bytes by offset, and little-endian fields.\<close>

type_synonym image = "nat \<Rightarrow> u8"

definition le16 :: "image \<Rightarrow> nat \<Rightarrow> u32" where
  "le16 b i = ucast (b i) OR push_bit 8 (ucast (b (i + 1)))"

definition le32 :: "image \<Rightarrow> nat \<Rightarrow> u32" where
  "le32 b i = le16 b i OR push_bit 16 (le16 b (i + 2))"

definition ELF_MAGIC :: u32 where "ELF_MAGIC = 0x464C457F"
definition ELF_PROG_LOAD :: u32 where "ELF_PROG_LOAD = 1"

text \<open>One program header at offset \<open>ph\<close>: \<open>p_type\<close>, \<open>p_offset\<close>, \<open>p_va\<close>, \<open>p_filesz\<close>
  and \<open>p_memsz\<close> are at 0, 4, 8, 16 and 20.\<close>

definition load_segment :: "nat \<Rightarrow> image \<Rightarrow> nat \<Rightarrow> kern \<Rightarrow> kern option" where
  "load_segment e binary ph s =
     (if le32 binary ph = ELF_PROG_LOAD then
        let p_offset = unat (le32 binary (ph + 4)); p_va = le32 binary (ph + 8);
            p_filesz = le32 binary (ph + 16); p_memsz = le32 binary (ph + 20)
        in do { s1 \<leftarrow> region_alloc e p_va p_memsz s;
                s2 \<leftarrow> store_bytes (env_pgdir (envs s1 e)) p_va (\<lambda>i. binary (p_offset + i))
                        (unat p_filesz) s1;
                store_bytes (env_pgdir (envs s2 e)) (p_va + p_filesz) (\<lambda>_. 0)
                        (unat (p_memsz - p_filesz)) s2 }
      else Some s)"

primrec load_segments :: "nat \<Rightarrow> image \<Rightarrow> nat list \<Rightarrow> kern \<Rightarrow> kern option" where
  "load_segments e binary [] s = Some s"
| "load_segments e binary (ph # phs) s =
     do { s1 \<leftarrow> load_segment e binary ph s; load_segments e binary phs s1 }"

definition lcr3 :: "u32 \<Rightarrow> kern \<Rightarrow> kern" where
  "lcr3 pa s = s\<lparr>cr3 := pa\<rparr>"

definition load_icode :: "nat \<Rightarrow> image \<Rightarrow> kern \<Rightarrow> kern option" where
  "load_icode e binary s =
     (if le32 binary 0 \<noteq> ELF_MAGIC then None
      else do { pa \<leftarrow> PADDR (env_pgdir (envs s e));
                let s1 = lcr3 pa s;
                s2 \<leftarrow> load_segments e binary
                        (map (\<lambda>k. unat (le32 binary 28) + 32 * k) [0..<unat (le16 binary 44)]) s1;
                let s3 = set_env e (\<lambda>v. v\<lparr>env_tf := (env_tf v)\<lparr>tf_eip := le32 binary 24\<rparr>\<rparr>) s2;
                s4 \<leftarrow> region_alloc e (USTACKTOP - PGSIZE) PGSIZE s3;
                kpa \<leftarrow> PADDR (kern_pgdir s4);
                Some (lcr3 kpa s4) })"

definition env_create :: "image \<Rightarrow> EnvType \<Rightarrow> kern \<Rightarrow> kern option" where
  "env_create binary ty s =
     do { (r, s1) \<leftarrow> env_alloc 0 s;
          (case r of
             Inl _ \<Rightarrow> None
           | Inr e \<Rightarrow>
               do { s2 \<leftarrow> load_icode e binary s1;
                    let s3 = set_env e (\<lambda>v. v\<lparr>env_type := ty, env_parent_id := 0\<rparr>) s2;
                    Some (if ty = ENV_TYPE_FS
                          then set_env e (\<lambda>v. v\<lparr>env_tf := (env_tf v)\<lparr>tf_eflags :=
                                 tf_eflags (env_tf v) OR FL_IOPL_3\<rparr>\<rparr>) s3
                          else s3) }) }"

section \<open>Freeing an environment\<close>

text \<open>The inner loop of \<open>env_free\<close> over the entries of one page table.\<close>

primrec env_free_ptes :: "u32 \<Rightarrow> nat \<Rightarrow> u32 \<Rightarrow> nat list \<Rightarrow> kern \<Rightarrow> kern option" where
  "env_free_ptes pgdir pdeno pt [] s = Some s"
| "env_free_ptes pgdir pdeno pt (pteno # ptes) s =
     do { s1 \<leftarrow> (if kread s (entry pt (of_nat pteno)) AND PTE_P \<noteq> 0
                then page_remove pgdir (PGADDR (of_nat pdeno) (of_nat pteno) 0) s else Some s);
          env_free_ptes pgdir pdeno pt ptes s1 }"

text \<open>One iteration of the outer loop.\<close>

definition env_free_pde :: "u32 \<Rightarrow> nat \<Rightarrow> kern \<Rightarrow> kern option" where
  "env_free_pde pgdir pdeno s =
     (let pde = kread s (entry pgdir (of_nat pdeno)) in
      if pde AND PTE_P = 0 then Some s
      else let pa = PTE_ADDR pde in
        do { pt \<leftarrow> KADDR s pa;
             s1 \<leftarrow> env_free_ptes pgdir pdeno pt [0..<1024] s;
             let s2 = kwrite (entry pgdir (of_nat pdeno)) 0 s1;
             pp \<leftarrow> pa2page s2 pa;
             page_decref pp s2 })"

primrec env_free_pdes :: "u32 \<Rightarrow> nat list \<Rightarrow> kern \<Rightarrow> kern option" where
  "env_free_pdes pgdir [] s = Some s"
| "env_free_pdes pgdir (pdeno # pdes) s =
     do { s1 \<leftarrow> env_free_pde pgdir pdeno s; env_free_pdes pgdir pdes s1 }"

definition env_free :: "nat \<Rightarrow> kern \<Rightarrow> kern option" where
  "env_free e s =
     do { s1 \<leftarrow> (if Some e = curenv s
                then do { kpa \<leftarrow> PADDR (kern_pgdir s); Some (lcr3 kpa s) } else Some s);
          s2 \<leftarrow> env_free_pdes (env_pgdir (envs s1 e)) [0..<NPDU] s1;
          pa \<leftarrow> PADDR (env_pgdir (envs s2 e));
          let s3 = set_env e (\<lambda>v. v\<lparr>env_pgdir := 0\<rparr>) s2;
          pp \<leftarrow> pa2page s3 pa;
          s4 \<leftarrow> page_decref pp s3;
          let s5 = set_env e (\<lambda>v. v\<lparr>env_status := ENV_FREE, env_link := env_free_list s4\<rparr>) s4;
          Some (s5\<lparr>env_free_list := Some e\<rparr>) }"

end
