(* ===== verification/Env_Inv.thy ===== *)
theory Env_Inv
  imports Env
begin

text \<open>
  The invariant of the kernel across address spaces and environments, and what
  \<open>env_setup_vm\<close>, \<open>env_alloc\<close> and \<open>env_free\<close> do to it: a new environment starts with an
  empty user address space, and freeing an environment removes exactly its mappings and
  returns its page tables and its directory to the free list.
\<close>

section \<open>Page directories come and go\<close>

text \<open>A new directory with no user entries leaves the map alone.\<close>

lemma new_dir:
  assumes inv: "tables_inv m n F D" and p: "p \<in> F" "p < n"
    and r: "\<And>i. i < NPDU \<Longrightarrow> r i = 0"
  shows "live_slots (m(p := r)) (insert p D) = live_slots m D"
    and "tables (m(p := r)) (insert p D) = tables m D"
    and "umap (m(p := r)) (insert p D) = umap m D"
    and "tables_inv (m(p := r)) n (F - {p}) (insert p D)"
proof -
  have pD: "p \<notin> D" using tables_invD(3) [OF inv] p by blast
  have pt: "p \<notin> tables m D" using tables_invD(5) [OF inv] p by blast
  show ls: "live_slots (m(p := r)) (insert p D) = live_slots m D"
    using r pD by (auto simp: live_slots_def slots_def)
  have same: "pt_frame (m(p := r)) di = pt_frame m di
      \<and> (m(p := r)) (fst di) (snd di) = m (fst di) (snd di)" if "di \<in> live_slots m D" for di
    using that pD by (auto simp: live_slots_def slots_def pt_frame_def)
  show tb: "tables (m(p := r)) (insert p D) = tables m D"
    unfolding tables_def ls using same by (simp cong: image_cong_simp)
  have "umap (m(p := r)) (insert p D) (d, i, j) = umap m D (d, i, j)" for d i j
  proof (cases "(d, i) \<in> live_slots m D")
    case True
    then have "pt_frame m (d, i) \<noteq> p" using pt by (auto dest: pt_frame_in_tables)
    with True same [OF True] show ?thesis by (simp add: umap_apply ls)
  qed (simp add: umap_apply ls)
  then show "umap (m(p := r)) (insert p D) = umap m D" by auto
  have "inj_on (pt_frame (m(p := r))) (live_slots m D)"
    using tables_invD(8) [OF inv] same by (metis inj_on_cong)
  then show "tables_inv (m(p := r)) n (F - {p}) (insert p D)"
    using inv p pt same unfolding tables_inv_def tb ls by auto
qed

text \<open>Clearing a directory slot whose table maps nothing frees that table.\<close>

lemma drop_table:
  assumes inv: "tables_inv m n F D" and live: "(d, i) \<in> live_slots m D"
    and none: "\<And>j. umap m D (d, i, j) = None"
    and m': "m' = m(d := (m d)(i := 0))"
  shows "live_slots m' D = live_slots m D - {(d, i)}"
    and "tables m' D = tables m D - {pt_frame m (d, i)}"
    and "umap m' D = umap m D"
    and "tables_inv m' n (insert (pt_frame m (d, i)) F) D"
proof -
  let ?t = "pt_frame m (d, i)"
  have dD: "d \<in> D" using live by (simp add: live_slots_iff)
  show ls: "live_slots m' D = live_slots m D - {(d, i)}"
    using dD by (auto simp: live_slots_def slots_def m')
  have same: "pt_frame m' di = pt_frame m di \<and> m' (fst di) (snd di) = m (fst di) (snd di)"
    if "di \<in> live_slots m' D" for di
    using that unfolding ls by (cases di) (auto simp: pt_frame_def m')
  have "tables m' D = pt_frame m ` (live_slots m D - {(d, i)})"
    unfolding tables_def using same by (simp add: ls cong: image_cong_simp)
  then show tb: "tables m' D = tables m D - {?t}"
    using tables_invD(8) [OF inv] live by (auto simp: tables_def dest: inj_onD)
  have "umap m' D (d', i', j) = umap m D (d', i', j)" for d' i' j
  proof (cases "(d', i') \<in> live_slots m' D")
    case True
    then have "pt_frame m (d', i') \<in> tables m D" by (auto simp: ls pt_frame_in_tables)
    then have "pt_frame m (d', i') \<noteq> d" using tables_invD(6) [OF inv] dD by blast
    moreover have "m' x = m x" if "x \<noteq> d" for x using that by (simp add: m')
    moreover have "(d', i') \<in> live_slots m D" using True by (simp add: ls)
    ultimately show ?thesis using True same [OF True] by (simp add: umap_apply)
  next
    case False
    then show ?thesis using none by (cases "(d', i') = (d, i)") (auto simp: umap_apply ls)
  qed
  then show "umap m' D = umap m D" by auto
  have "inj_on (pt_frame m') (live_slots m' D)"
    using inj_on_subset [OF tables_invD(8) [OF inv], of "live_slots m' D"] same
    by (metis Diff_subset inj_on_cong ls)
  moreover have "?t \<in> tables m D" using live by (rule pt_frame_in_tables)
  ultimately show "tables_inv m' n (insert ?t F) D"
    using inv same unfolding tables_inv_def tb by (auto simp: ls)
qed

text \<open>A directory without live slots can be given up.\<close>

lemma drop_dir:
  assumes inv: "tables_inv m n F D" and d: "d \<in> D" and none: "\<And>i. (d, i) \<notin> live_slots m D"
  shows "live_slots m (D - {d}) = live_slots m D"
    and "tables m (D - {d}) = tables m D"
    and "umap m (D - {d}) = umap m D"
    and "tables_inv m n (insert d F) (D - {d})"
proof -
  show ls: "live_slots m (D - {d}) = live_slots m D"
    using none by (auto simp: live_slots_def slots_def)
  then show tb: "tables m (D - {d}) = tables m D" by (simp add: tables_def)
  show "umap m (D - {d}) = umap m D" by (simp add: umap_def ls)
  show "tables_inv m n (insert d F) (D - {d})"
    using inv d unfolding tables_inv_def tb ls by auto
qed

lemma frames_cong: "umap m D = umap m' D' \<Longrightarrow> frames m D = frames m' D'"
  by (simp add: frames_def fun_eq_iff)

section \<open>Emptying one page table\<close>

lemma PGADDR_parts:
  assumes "i < 1024" and "j < 1024"
  shows "unat (PGADDR (of_nat i) (of_nat j) 0) = i * 4194304 + j * 4096"
proof -
  let ?a = "push_bit 22 (of_nat i) :: u32" and ?b = "push_bit 12 (of_nat j) :: u32"
  have ub: "unat ?b = j * 4096" and ua: "unat ?a = i * 4194304"
    using assms by (simp_all add: push_bit_eq_mult unat_word_ariths unat_of_nat)
  have "?a AND ?b = 0"
  proof (rule bit_word_eqI)
    fix n assume n: "n < LENGTH(32)"
    have "take_bit 10 j = j" using assms(2) by (intro take_bit_nat_eq_self) simp
    then have "bit j (n - 12) \<longleftrightarrow> n - 12 < 10 \<and> bit j (n - 12)" by (metis bit_take_bit_iff)
    then have "\<not> bit j (n - 12)" if "22 \<le> n" using that by linarith
    then show "bit (?a AND ?b) n = bit (0 :: u32) n"
      by (auto simp: bit_simps)
  qed
  then have "?a OR ?b = ?a + ?b" by (simp add: disjunctive_add_eq_or)
  moreover have "unat (?a + ?b) = i * 4194304 + j * 4096"
    using assms ua ub by (simp add: unat_word_ariths)
  ultimately show ?thesis by (simp add: PGADDR_def)
qed

lemma ukey_PGADDR:
  assumes "i < NPDU" and "j < 1024"
  shows "PGADDR (of_nat i) (of_nat j) 0 < UTOP"
    and "ukey d (PGADDR (of_nat i) (of_nat j) 0) = (d, i, j)"
proof -
  have u: "unat (PGADDR (of_nat i) (of_nat j) 0) = i * 4194304 + j * 4096"
    using assms by (simp add: PGADDR_parts NPDU_less)
  show "PGADDR (of_nat i) (of_nat j) 0 < UTOP"
    using assms u by (simp add: word_less_nat_alt layout_values(10) NPDU_eq)
  have "(i * 4194304 + j * 4096) div 4194304 = i" using assms(2) by simp
  moreover have "(i * 4194304 + j * 4096) div 4096 mod 1024 = j"
    using assms(2) by (simp add: div_mult2_eq [symmetric])
  ultimately show "ukey d (PGADDR (of_nat i) (of_nat j) 0) = (d, i, j)"
    by (simp add: ukey_def unat_PDX unat_PTX u)
qed

lemma entry_table_word:
  "t < 65536 \<Longrightarrow> j < 1024 \<Longrightarrow> kread s (entry (frame_kva t) (of_nat j)) = phys s t j"
  by (simp add: unat_of_nat)

lemma restrict_delete: "(m(k := None)) |` (- A) = m |` (- insert k A)"
  by (auto simp: restrict_map_def)

lemma restrict_None: "m k = None \<Longrightarrow> m |` (- A) = m |` (- insert k A)"
  by (auto simp: restrict_map_def)

text \<open>The inner loop of \<open>env_free\<close> removes the mappings of one page table and nothing
  else.\<close>

lemma env_free_ptes_spec:
  assumes "set js \<subseteq> {..<1024}" and "i < NPDU" and "vm_inv s fl D" and "d \<in> D"
    and "(d, i) \<in> live_slots (phys s) D"
  shows "\<exists>s' fl'. env_free_ptes (frame_kva d) i (frame_kva (pt_frame (phys s) (d, i))) js s = Some s'
    \<and> vm_inv s' fl' D \<and> pm_frame s s'
    \<and> umap (phys s') D = umap (phys s) D |` (- ({d} \<times> {i} \<times> set js))
    \<and> (\<forall>p. p \<notin> tables (phys s) D \<longrightarrow> phys s' p = phys s p)
    \<and> tables (phys s') D = tables (phys s) D \<and> owned s' fl' D = owned s fl D"
  using assms
proof (induction js arbitrary: s fl)
  case Nil
  then show ?case by (auto simp: restrict_map_def)
next
  case (Cons j js)
  let ?t = "pt_frame (phys s) (d, i)" and ?va = "PGADDR (of_nat i) (of_nat j) 0"
  note vm = \<open>vm_inv s fl D\<close> and live = \<open>(d, i) \<in> live_slots (phys s) D\<close>
  have j: "j < 1024" using Cons.prems(1) by simp
  have t: "?t \<in> tables (phys s) D" using live by (rule pt_frame_in_tables)
  then have t6: "?t < 65536" using tables_invD(4) [OF vm_invD(2) [OF vm]] vm_invD(3) [OF vm] by fastforce
  note va = ukey_PGADDR [OF \<open>i < NPDU\<close> j]
  have "\<exists>s1 fl1. (if kread s (entry (frame_kva ?t) (of_nat j)) AND PTE_P \<noteq> 0
        then page_remove (frame_kva d) ?va s else Some s) = Some s1
      \<and> vm_inv s1 fl1 D \<and> pm_frame s s1
      \<and> umap (phys s1) D = (umap (phys s) D)((d, i, j) := None)
      \<and> (\<forall>p. p \<notin> tables (phys s) D \<longrightarrow> phys s1 p = phys s p)
      \<and> tables (phys s1) D = tables (phys s) D \<and> owned s1 fl1 D = owned s fl D"
  proof (cases "phys s ?t j AND PTE_P = 0")
    case True
    then have "umap (phys s) D (d, i, j) = None" by (simp add: umap_apply)
    then have "(umap (phys s) D)((d, i, j) := None) = umap (phys s) D" by (simp add: fun_upd_idem)
    with True vm j t6 show ?thesis by (auto simp: entry_table_word)
  next
    case False
    then show ?thesis
      using page_remove_spec [OF vm \<open>d \<in> D\<close> va(1), unfolded va(2)] j t6
      by (auto simp: entry_table_word)
  qed
  then obtain s1 fl1 where s1: "(if kread s (entry (frame_kva ?t) (of_nat j)) AND PTE_P \<noteq> 0
        then page_remove (frame_kva d) ?va s else Some s) = Some s1"
    "vm_inv s1 fl1 D" "pm_frame s s1" "umap (phys s1) D = (umap (phys s) D)((d, i, j) := None)"
    "\<forall>p. p \<notin> tables (phys s) D \<longrightarrow> phys s1 p = phys s p"
    "tables (phys s1) D = tables (phys s) D" "owned s1 fl1 D = owned s fl D" by blast
  have "d \<notin> tables (phys s) D" using tables_invD(6) [OF vm_invD(2) [OF vm]] \<open>d \<in> D\<close> by blast
  then have dir: "phys s1 d = phys s d" using s1(5) by blast
  then have live1: "(d, i) \<in> live_slots (phys s1) D" and pt: "pt_frame (phys s1) (d, i) = ?t"
    using live by (simp_all add: live_slots_iff pt_frame_def)
  from Cons.IH [OF _ \<open>i < NPDU\<close> s1(2) \<open>d \<in> D\<close> live1] Cons.prems(1) obtain s' fl' where
    s': "env_free_ptes (frame_kva d) i (frame_kva ?t) js s1 = Some s'" "vm_inv s' fl' D" "pm_frame s1 s'"
    "umap (phys s') D = umap (phys s1) D |` (- ({d} \<times> {i} \<times> set js))"
    "\<forall>p. p \<notin> tables (phys s1) D \<longrightarrow> phys s' p = phys s1 p"
    "tables (phys s') D = tables (phys s1) D" "owned s' fl' D = owned s1 fl1 D"
    by (auto simp: pt)
  have "umap (phys s') D = umap (phys s) D |` (- ({d} \<times> {i} \<times> set (j # js)))"
    unfolding s'(4) s1(4) restrict_delete by (rule arg_cong [where f = "restrict_map _"]) auto
  then show ?case
    using s1 s' pm_frame_trans [OF s1(3) s'(3)] by (intro exI [of _ s'] exI [of _ fl']) simp
qed

section \<open>Giving up page tables and the directory\<close>

lemma upt_below: "set [0..<n] \<subseteq> {..<n}"
  by auto

text \<open>The invariant after a page table that maps nothing is unhooked and released.\<close>

lemma release_table:
  assumes vm: "vm_inv s fl D" and live: "(d, i) \<in> live_slots (phys s) D"
    and none: "\<And>j. umap (phys s) D (d, i, j) = None" and t: "t = pt_frame (phys s) (d, i)"
  obtains s' where "page_decref t (set_word d i 0 s) = Some s'" and "pm_frame s s'"
    and "vm_inv s' (t # fl) D" and "umap (phys s') D = umap (phys s) D"
    and "live_slots (phys s') D = live_slots (phys s) D - {(d, i)}"
    and "\<And>p. p \<noteq> d \<Longrightarrow> phys s' p = phys s p" and "owned s' (t # fl) D = owned s fl D"
    and "tables (phys s') D \<subseteq> tables (phys s) D"
proof -
  let ?s0 = "set_word d i 0 s"
  have ph: "phys ?s0 = (phys s)(d := (phys s d)(i := 0))" by (simp add: set_word_def)
  note dt = drop_table [OF vm_invD(2) [OF vm] live none ph]
  have tt: "t \<in> tables (phys s) D" using live t by (simp add: pt_frame_in_tables)
  note ti = tables_invD [OF vm_invD(2) [OF vm]]
  have t1: "pp_ref (pages s t) = 1" using vm_invD(6) [OF vm] tt by blast
  have "free_list_inv ?s0 fl" "t < npages ?s0" "t \<notin> set fl" "pp_ref (pages ?s0 t) \<noteq> 0"
    using vm_invD(1) [OF vm] ti(4,5) [OF tt] t1 by simp_all
  then obtain s' where s': "page_decref t ?s0 = Some s'" "pm_frame ?s0 s'" "phys s' = phys ?s0"
    "free_list_inv s' (t # fl)"
    "\<And>x. pp_ref (pages s' x) = (if x = t then 0 else pp_ref (pages s x))"
    by (rule page_decref_spec) (simp add: t1)
  have um: "umap (phys s') D = umap (phys s) D" and tb: "tables (phys s') D = tables (phys s) D - {t}"
    and ls: "live_slots (phys s') D = live_slots (phys s) D - {(d, i)}"
    using dt(1-3) s'(3) t by simp_all
  have fr: "frames (phys s') D = frames (phys s) D" using um by (rule frames_cong)
  have "tables_inv (phys s') (npages s) (set (t # fl)) D"
    using tables_inv_subset [OF dt(4)] s'(3) t by simp
  moreover have "npages s' = npages s" using pm_frameD(1) [OF s'(2)] by simp
  ultimately have "vm_inv s' (t # fl) D"
    unfolding vm_inv_def fr tb
    using vm s'(4,5) tt ti(6) [OF tt] vm_inv_mapped [OF vm] vm_invD(6) [OF vm] by auto
  moreover have "owned s' (t # fl) D = owned s fl D"
    unfolding owned_def fr tb using tt by auto
  moreover have "pm_frame s s'" using s'(2) by (meson pm_frame_ops(1) pm_frame_trans)
  moreover have "phys s' p = phys s p" if "p \<noteq> d" for p using that s'(3) ph by simp
  ultimately show thesis using that [of s'] s'(1) um ls tb by blast
qed

lemma env_free_pde_spec:
  assumes vm: "vm_inv s fl D" and d: "d \<in> D" and i: "i < NPDU"
  shows "\<exists>s' fl'. env_free_pde (frame_kva d) i s = Some s' \<and> vm_inv s' fl' D \<and> pm_frame s s'
    \<and> umap (phys s') D = umap (phys s) D |` (- ({d} \<times> {i} \<times> UNIV))
    \<and> live_slots (phys s') D = live_slots (phys s) D - {(d, i)}
    \<and> (\<forall>p. p \<noteq> d \<longrightarrow> p \<notin> tables (phys s) D \<longrightarrow> phys s' p = phys s p)
    \<and> tables (phys s') D \<subseteq> tables (phys s) D \<and> owned s' fl' D = owned s fl D"
proof (cases "phys s d i = 0")
  case True
  then have nl: "(d, i) \<notin> live_slots (phys s) D" by (simp add: live_slots_iff)
  then have "umap (phys s) D |` (- ({d} \<times> {i} \<times> UNIV)) = umap (phys s) D"
    by (auto simp: restrict_map_def umap_apply fun_eq_iff)
  moreover have "env_free_pde (frame_kva d) i s = Some s"
    using True vm_invD(5) [OF vm d] NPDU_less [OF i] by (simp add: env_free_pde_def entry_table_word)
  ultimately show ?thesis using vm nl by auto
next
  case False
  let ?t = "pt_frame (phys s) (d, i)"
  have live: "(d, i) \<in> live_slots (phys s) D" using False d i by (simp add: live_slots_iff)
  have P: "phys s d i AND PTE_P \<noteq> 0" using tables_invD(7) [OF vm_invD(2) [OF vm] live] .
  have tt: "?t \<in> tables (phys s) D" using live by (rule pt_frame_in_tables)
  have t: "?t < npages s" using tables_invD(4) [OF vm_invD(2) [OF vm] tt] .
  then have t6: "?t < 65536" "?t < 1048576" using vm_invD(3) [OF vm] by auto
  have d6: "d < 65536" and i6: "i < 1024" using vm_invD(5) [OF vm d] NPDU_less [OF i] .
  have pde: "PTE_ADDR (phys s d i) = frame_addr ?t" by (simp add: PTE_ADDR_frame pt_frame_def)
  obtain s1 fl1 where s1: "env_free_ptes (frame_kva d) i (frame_kva ?t) [0..<1024] s = Some s1"
    "vm_inv s1 fl1 D" "pm_frame s s1"
    "umap (phys s1) D = umap (phys s) D |` (- ({d} \<times> {i} \<times> set [0..<1024]))"
    "\<forall>p. p \<notin> tables (phys s) D \<longrightarrow> phys s1 p = phys s p"
    "tables (phys s1) D = tables (phys s) D" "owned s1 fl1 D = owned s fl D"
    using env_free_ptes_spec [OF _ i vm d live, of "[0..<1024]"] by (simp only: upt_below) blast
  have "x \<notin> tables (phys s) D" if "x \<in> D" for x
    using tables_invD(6) [OF vm_invD(2) [OF vm]] that by blast
  then have dir: "phys s1 x = phys s x" if "x \<in> D" for x using s1(5) that by blast
  have ls1: "live_slots (phys s1) D = live_slots (phys s) D"
    using dir by (auto simp: live_slots_def slots_def)
  have pt1: "?t = pt_frame (phys s1) (d, i)" using dir d by (simp add: pt_frame_def)
  have um1: "umap (phys s1) D = umap (phys s) D |` (- ({d} \<times> {i} \<times> UNIV))"
    unfolding s1(4) by (auto simp: restrict_map_def umap_apply fun_eq_iff)
  then have "umap (phys s1) D (d, i, j) = None" for j by simp
  then obtain s' where s': "page_decref ?t (set_word d i 0 s1) = Some s'" "pm_frame s1 s'"
    "vm_inv s' (?t # fl1) D" "umap (phys s') D = umap (phys s1) D"
    "live_slots (phys s') D = live_slots (phys s1) D - {(d, i)}"
    "\<And>p. p \<noteq> d \<Longrightarrow> phys s' p = phys s1 p" "owned s' (?t # fl1) D = owned s1 fl1 D"
    "tables (phys s') D \<subseteq> tables (phys s1) D"
    using release_table [OF s1(2) live [folded ls1] _ pt1] by metis
  have "npages s1 = npages s" using s1(3) by (rule pm_frameD)
  then have "env_free_pde (frame_kva d) i s = Some s'"
    using P t t6 d6 i6 s1(1) s'(1)
    by (simp add: env_free_pde_def entry_table_word pde Let_def pa2page_def unat_of_nat)
  with s1 s' um1 ls1 show ?thesis
    using pm_frame_trans [OF s1(3) s'(2)] by (intro exI [of _ s'] exI [of _ "?t # fl1"]) auto
qed

lemma env_free_pdes_spec:
  assumes "set is \<subseteq> {..<NPDU}" and "vm_inv s fl D" and "d \<in> D"
  shows "\<exists>s' fl'. env_free_pdes (frame_kva d) is s = Some s' \<and> vm_inv s' fl' D \<and> pm_frame s s'
    \<and> umap (phys s') D = umap (phys s) D |` (- ({d} \<times> set is \<times> UNIV))
    \<and> live_slots (phys s') D = live_slots (phys s) D - {d} \<times> set is
    \<and> (\<forall>p. p \<noteq> d \<longrightarrow> p \<notin> tables (phys s) D \<longrightarrow> phys s' p = phys s p)
    \<and> tables (phys s') D \<subseteq> tables (phys s) D \<and> owned s' fl' D = owned s fl D"
  using assms
proof (induction "is" arbitrary: s fl)
  case Nil
  then show ?case by (auto simp: restrict_map_def)
next
  case (Cons i "is")
  have i: "i < NPDU" using Cons.prems(1) by simp
  obtain s1 fl1 where s1: "env_free_pde (frame_kva d) i s = Some s1" "vm_inv s1 fl1 D" "pm_frame s s1"
    "umap (phys s1) D = umap (phys s) D |` (- ({d} \<times> {i} \<times> UNIV))"
    "live_slots (phys s1) D = live_slots (phys s) D - {(d, i)}"
    "\<forall>p. p \<noteq> d \<longrightarrow> p \<notin> tables (phys s) D \<longrightarrow> phys s1 p = phys s p"
    "tables (phys s1) D \<subseteq> tables (phys s) D" "owned s1 fl1 D = owned s fl D"
    using env_free_pde_spec [OF Cons.prems(2,3) i] by blast
  from Cons.IH [OF _ s1(2) Cons.prems(3)] Cons.prems(1) obtain s' fl' where
    s': "env_free_pdes (frame_kva d) is s1 = Some s'" "vm_inv s' fl' D" "pm_frame s1 s'"
    "umap (phys s') D = umap (phys s1) D |` (- ({d} \<times> set is \<times> UNIV))"
    "live_slots (phys s') D = live_slots (phys s1) D - {d} \<times> set is"
    "\<forall>p. p \<noteq> d \<longrightarrow> p \<notin> tables (phys s1) D \<longrightarrow> phys s' p = phys s1 p"
    "tables (phys s') D \<subseteq> tables (phys s1) D" "owned s' fl' D = owned s1 fl1 D" by auto
  have "umap (phys s') D = umap (phys s) D |` (- ({d} \<times> set (i # is) \<times> UNIV))"
    unfolding s'(4) s1(4) restrict_restrict by (rule arg_cong [where f = "restrict_map _"]) auto
  moreover have "live_slots (phys s') D = live_slots (phys s) D - {d} \<times> set (i # is)"
    unfolding s'(5) s1(5) by auto
  moreover have "\<forall>p. p \<noteq> d \<longrightarrow> p \<notin> tables (phys s) D \<longrightarrow> phys s' p = phys s p"
    using s1(6,7) s'(6) by (metis subset_iff)
  ultimately show ?case
    using s1 s' pm_frame_trans [OF s1(3) s'(3)] by (intro exI [of _ s'] exI [of _ fl']) auto
qed

text \<open>The invariant after an empty directory is released.\<close>

lemma release_dir:
  assumes vm: "vm_inv s fl D" and d: "d \<in> D" and none: "\<And>i. (d, i) \<notin> live_slots (phys s) D"
  obtains s' where "page_decref d s = Some s'" and "pm_frame s s'" and "phys s' = phys s"
    and "vm_inv s' (d # fl) (D - {d})" and "umap (phys s) (D - {d}) = umap (phys s) D"
    and "owned s' (d # fl) (D - {d}) = owned s fl D"
proof -
  note dd = drop_dir [OF vm_invD(2) [OF vm] d none]
  note ti = tables_invD [OF vm_invD(2) [OF vm]]
  have d1: "pp_ref (pages s d) = 1" using vm_invD(6) [OF vm] d by blast
  have dt: "d \<notin> tables (phys s) D" using ti(6) d by blast
  have "d < npages s" "d \<notin> set fl" "pp_ref (pages s d) \<noteq> 0" using ti(2,3) d d1 by simp_all
  with vm_invD(1) [OF vm] obtain s' where s': "page_decref d s = Some s'" "pm_frame s s'"
    "phys s' = phys s" "free_list_inv s' (d # fl)"
    "\<And>x. pp_ref (pages s' x) = (if x = d then 0 else pp_ref (pages s x))"
    by (rule page_decref_spec) (simp add: d1)
  have fr: "frames (phys s) (D - {d}) = frames (phys s) D" using dd(3) by (rule frames_cong)
  have "npages s' = npages s" using s'(2) by (rule pm_frameD)
  moreover have "tables_inv (phys s) (npages s) (set (d # fl)) (D - {d})" using dd(4) by simp
  ultimately have "vm_inv s' (d # fl) (D - {d})"
    unfolding vm_inv_def s'(3) fr dd(2)
    using vm s'(4,5) d dt vm_inv_mapped [OF vm] vm_invD(6) [OF vm] by auto
  moreover have "owned s' (d # fl) (D - {d}) = owned s fl D"
    unfolding owned_def s'(3) fr dd(2) using d by auto
  ultimately show thesis using that [of s'] s'(1-3) dd(3) by blast
qed

section \<open>Freeing an environment\<close>

lemma set_env_frame [simp]:
  "phys (set_env e f s) = phys s" "pages (set_env e f s) = pages s" "npages (set_env e f s) = npages s"
  "page_free_list (set_env e f s) = page_free_list s" "cpus (set_env e f s) = cpus s"
  "this_cpu (set_env e f s) = this_cpu s" "curenv (set_env e f s) = curenv s"
  "kern_pgdir (set_env e f s) = kern_pgdir s" "env_free_list (set_env e f s) = env_free_list s"
  "envs (set_env e f s) = (envs s)(e := f (envs s e))" "cr3 (set_env e f s) = cr3 s"
  "kernel_lock (set_env e f s) = kernel_lock s"
  "vm_inv (set_env e f s) fl D = vm_inv s fl D" "owned (set_env e f s) fl D = owned s fl D"
  by (simp_all add: set_env_def curenv_def vm_inv_def free_list_inv_def owned_def)

lemma env_free_list_frame [simp]:
  "vm_inv (s\<lparr>env_free_list := x\<rparr>) fl D = vm_inv s fl D" "owned (s\<lparr>env_free_list := x\<rparr>) fl D = owned s fl D"
  "curenv (s\<lparr>env_free_list := x\<rparr>) = curenv s"
  by (simp_all add: curenv_def vm_inv_def free_list_inv_def owned_def)

lemma lcr3_frame [simp]:
  "phys (lcr3 a s) = phys s" "pages (lcr3 a s) = pages s" "npages (lcr3 a s) = npages s"
  "envs (lcr3 a s) = envs s" "cpus (lcr3 a s) = cpus s" "this_cpu (lcr3 a s) = this_cpu s"
  "curenv (lcr3 a s) = curenv s" "kern_pgdir (lcr3 a s) = kern_pgdir s"
  "env_free_list (lcr3 a s) = env_free_list s" "kernel_lock (lcr3 a s) = kernel_lock s"
  "vm_inv (lcr3 a s) fl D = vm_inv s fl D" "owned (lcr3 a s) fl D = owned s fl D"
  by (simp_all add: lcr3_def curenv_def vm_inv_def free_list_inv_def owned_def)

lemma env_free_spec:
  assumes vm: "vm_inv s fl D" and d: "d \<in> D" and dir: "env_pgdir (envs s e) = frame_kva d"
    and kd: "kern_pgdir s = frame_kva kd" "kd < 65536"
  shows "\<exists>s' fl'. env_free e s = Some s' \<and> vm_inv s' fl' (D - {d})
    \<and> umap (phys s') (D - {d}) = umap (phys s) D |` (- ({d} \<times> UNIV))
    \<and> owned s' fl' (D - {d}) = owned s fl D
    \<and> (\<forall>p. p \<noteq> d \<longrightarrow> p \<notin> tables (phys s) D \<longrightarrow> phys s' p = phys s p)
    \<and> envs s' = (envs s)(e := (envs s e)\<lparr>env_pgdir := 0, env_status := ENV_FREE,
                                           env_link := env_free_list s\<rparr>)
    \<and> env_free_list s' = Some e \<and> kern_pgdir s' = kern_pgdir s \<and> npages s' = npages s
    \<and> cpus s' = cpus s \<and> this_cpu s' = this_cpu s
    \<and> kernel_lock s' = kernel_lock s
    \<and> cr3 s' = (if Some e = curenv s then frame_addr kd else cr3 s)"
proof -
  let ?s1 = "if Some e = curenv s then lcr3 (frame_addr kd) s else s"
  have vm1: "vm_inv ?s1 fl D" using vm by simp
  obtain s2 fl2 where s2: "env_free_pdes (frame_kva d) [0..<NPDU] ?s1 = Some s2" "vm_inv s2 fl2 D"
    "pm_frame ?s1 s2" "umap (phys s2) D = umap (phys s) D |` (- ({d} \<times> set [0..<NPDU] \<times> UNIV))"
    "live_slots (phys s2) D = live_slots (phys s) D - {d} \<times> set [0..<NPDU]"
    "\<forall>p. p \<noteq> d \<longrightarrow> p \<notin> tables (phys s) D \<longrightarrow> phys s2 p = phys s p"
    "owned s2 fl2 D = owned s fl D"
    using env_free_pdes_spec [OF upt_below vm1 d] by (auto simp: if_distrib [of phys])
  note f2 = pm_frameD [OF s2(3)]
  have none: "(d, i) \<notin> live_slots (phys s2) D" for i
    unfolding s2(5) by (auto simp: live_slots_iff)
  let ?s3 = "set_env e (\<lambda>v. v\<lparr>env_pgdir := 0\<rparr>) s2"
  obtain s4 where s4: "page_decref d ?s3 = Some s4" "pm_frame ?s3 s4" "phys s4 = phys s2"
    "vm_inv s4 (d # fl2) (D - {d})" "umap (phys s2) (D - {d}) = umap (phys s2) D"
    "owned s4 (d # fl2) (D - {d}) = owned s2 fl2 D"
    using release_dir [of ?s3 fl2 D d] s2(2) d none by auto
  note f4 = pm_frameD [OF s4(2)]
  have um: "umap (phys s2) D = umap (phys s) D |` (- ({d} \<times> UNIV))"
    unfolding s2(4) by (auto simp: restrict_map_def umap_apply live_slots_iff fun_eq_iff)
  have d6: "d < 65536" and dn: "d < npages s2"
    using vm_invD(5) [OF vm d] tables_invD(2) [OF vm_invD(2) [OF s2(2)] d] .
  have e2: "envs s2 = envs s" "kern_pgdir s2 = kern_pgdir s" "env_free_list s2 = env_free_list s"
    "npages s2 = npages s" "cpus s2 = cpus s" "this_cpu s2 = this_cpu s"
    "kernel_lock s2 = kernel_lock s"
    "cr3 s2 = (if Some e = curenv s then frame_addr kd else cr3 s)"
    using f2 by (simp_all add: lcr3_def)
  let ?s5 = "(set_env e (\<lambda>v. v\<lparr>env_status := ENV_FREE, env_link := env_free_list s4\<rparr>) s4)
    \<lparr>env_free_list := Some e\<rparr>"
  have "env_free e s = Some ?s5"
    using s2(1) s4(1) e2 dir kd d6 dn
    by (cases "Some e = curenv s") (simp_all add: env_free_def pa2page_def)
  moreover have "envs ?s5 = (envs s)(e := (envs s e)\<lparr>env_pgdir := 0, env_status := ENV_FREE,
      env_link := env_free_list s\<rparr>)"
    using f4 e2 by simp
  ultimately show ?thesis
    using s2(6,7) s4(3-6) um f4 e2
    by (intro exI [of _ ?s5] exI [of _ "d # fl2"]) simp
qed

section \<open>Environment ids\<close>

lemma unat_clear_low10: "unat (w AND NOT 0x3FF) = unat w div 1024 * 1024" for w :: u32
proof -
  have m: "(0x3FF :: u32) = mask 10" by (simp add: mask_eq_exp_minus_1)
  have "w AND NOT 0x3FF = push_bit 10 (drop_bit 10 w)"
    unfolding m by (rule bit_word_eqI) (auto simp: bit_simps)
  then have "unat (w AND NOT 0x3FF) = unat (drop_bit 10 w) * 1024 mod 4294967296"
    by (simp add: push_bit_eq_mult unat_word_ariths)
  moreover have "unat (drop_bit 10 w) = unat w div 1024" by (simp add: unat_shift_right)
  moreover have "unat w div 1024 * 1024 < 4294967296" using unat_u32_less [of w] by linarith
  ultimately show ?thesis by simp
qed

lemma unat_or_slot:
  fixes g :: u32
  assumes "e < 1024" and g: "unat g mod 1024 = 0"
  shows "unat (g OR of_nat e) = unat g + e"
proof -
  have u: "unat (of_nat e :: u32) = e" using assms(1) by (simp add: unat_of_nat)
  have gm: "g AND 0x3FF = 0" using g unat_and_3FF [of g] by (simp add: unat_eq_0)
  have "(of_nat e :: u32) AND 0x3FF = of_nat e"
    using assms(1) u unat_and_3FF [of "of_nat e"] by (simp add: word_unat_eq_iff)
  then have "g AND of_nat e = (g AND 0x3FF) AND of_nat e" by (metis and.assoc and.commute)
  then have or: "g OR of_nat e = g + of_nat e" using gm by (simp add: disjunctive_add_eq_or)
  have "unat g = 1024 * (unat g div 1024)"
    using g div_mult_mod_eq [of "unat g" 1024] by linarith
  moreover from this have "unat g div 1024 < 4194304" using unat_u32_less [of g] by linarith
  ultimately have "unat g + e < 4294967296" using assms(1) by linarith
  then show ?thesis using u by (simp add: or unat_word_ariths)
qed

lemma sint_pos_iff: "0 < sint w \<longleftrightarrow> w \<noteq> 0 \<and> unat w < 2147483648" for w :: u32
proof -
  have shift: "(x + 2147483648) mod 4294967296 = (if x < 2147483648 then x + 2147483648 else x - 2147483648)"
    if "0 \<le> x" "x < 4294967296" for x :: int
  proof (cases "x < 2147483648")
    case False
    have "(x - 2147483648 + 4294967296) mod 4294967296 = x - 2147483648"
      using that False by (simp only: mod_add_self2) simp
    with False show ?thesis by (simp add: add.commute)
  qed (use that in simp)
  have u: "uint w = int (unat w)" by simp
  have "sint w = (if unat w < 2147483648 then int (unat w) else int (unat w) - 4294967296)"
    using shift [of "int (unat w)"] unat_u32_less [of w] unfolding sint_uint u
    by (simp add: signed_take_bit_eq_take_bit_shift take_bit_eq_mod del: of_nat_unat)
  moreover have "w \<noteq> 0 \<longleftrightarrow> 0 < unat w" by (simp add: unat_gt_0)
  moreover have "int (unat w) < 4294967296" using unat_u32_less [of w] by linarith
  ultimately show ?thesis by (simp del: of_nat_unat unat_gt_0 word_neq_0_conv)
qed

text \<open>The generation is rounded to a multiple of 1024 and reset to \<open>0x1000\<close> when it leaves
  the positive 32-bit numbers.\<close>

lemma unat_next_env_id:
  fixes old :: u32
  assumes "e < NENV"
  defines "g \<equiv> (unat old + 4096) mod 4294967296 div 1024 * 1024"
  shows "unat (next_env_id e old) = (if g = 0 \<or> 2147483648 \<le> g then 4096 else g) + e"
proof -
  let ?g = "(old + 0x1000) AND NOT 0x3FF"
  have ug: "unat ?g = g" unfolding g_def unat_clear_low10 by (simp add: unat_word_ariths)
  have pos: "sint ?g \<le> 0 \<longleftrightarrow> g = 0 \<or> 2147483648 \<le> g"
    using sint_pos_iff [of ?g] ug by (metis linorder_not_less unat_eq_0)
  have "next_env_id e old = (if g = 0 \<or> 2147483648 \<le> g then 0x1000 else ?g) OR of_nat e"
    using pos by (simp add: next_env_id_def NENV_def Let_def)
  moreover have "g mod 1024 = 0" by (simp add: g_def)
  ultimately show ?thesis
    using assms(1) ug by (simp add: unat_or_slot NENV_def)
qed

lemma next_env_id_props:
  assumes "e < NENV"
  shows "ENVX (next_env_id e old) = e" and "0 < sint (next_env_id e old)" and "next_env_id e old \<noteq> old"
proof -
  define x where "x = (unat old + 4096) mod 4294967296"
  define q where "q = x div 1024"
  have x: "x = unat old + 4096 \<and> unat old + 4096 < 4294967296
      \<or> x + 4294967296 = unat old + 4096 \<and> 4294967296 \<le> unat old + 4096"
  proof (cases "unat old + 4096 < 4294967296")
    case False
    then have "x = unat old + 4096 - 4294967296"
      using unat_u32_less [of old] unfolding x_def by (subst mod_if) simp
    with False show ?thesis by simp
  qed (simp add: x_def)
  have xq: "1024 * q \<le> x" "x < 1024 * q + 1024" by (simp_all add: q_def dividend_less_times_div)
  have u: "unat (next_env_id e old) = (if q = 0 \<or> 2097152 \<le> q then 4096 else 1024 * q) + e"
    using unat_next_env_id [OF assms, of old] unfolding x_def [symmetric] q_def [symmetric] by simp
  have e: "e < 1024" using assms by (simp add: NENV_def)
  have "unat (next_env_id e old) = e + 1024 * (if q = 0 \<or> 2097152 \<le> q then 4 else q)"
    unfolding u by simp
  then have "unat (next_env_id e old) mod 1024 = e" using e by (simp only: mod_mult_self2) simp
  then show "ENVX (next_env_id e old) = e" by (simp add: ENVX_def unat_and_3FF)
  have b: "unat (next_env_id e old) < 2147483648" "unat (next_env_id e old) \<noteq> 0"
    using e unfolding u by (simp_all split: if_splits)
  then show "0 < sint (next_env_id e old)" unfolding sint_pos_iff by (metis unat_0)
  have "unat (next_env_id e old) \<noteq> unat old"
    using x xq e unat_u32_less [of old] unfolding u by (cases "q = 0 \<or> 2097152 \<le> q") (simp_all, linarith+)
  then show "next_env_id e old \<noteq> old" by auto
qed

lemma next_env_id_generation:
  assumes "e < NENV" and "unat old mod 4096 < 1024"
  shows "unat (next_env_id e old) = 4096 * (if unat old div 4096 + 1 < 524288 then unat old div 4096 + 1 else 1) + e"
proof -
  define q where "q = unat old div 4096"
  have old: "unat old = 4096 * q + unat old mod 4096" by (simp add: q_def)
  have q: "q < 1048576" using unat_u32_less [of old] unfolding q_def by (simp add: less_mult_imp_div_less)
  have g: "(unat old + 4096) mod 4294967296 div 1024 * 1024 = (if q + 1 < 1048576 then 4096 * (q + 1) else 0)"
  proof (cases "q + 1 < 1048576")
    case True
    then have "(unat old + 4096) mod 4294967296 = 1024 * (4 * (q + 1)) + unat old mod 4096" using old assms(2) by simp
    then have "(unat old + 4096) mod 4294967296 div 1024 = 4 * (q + 1)" using assms(2) by simp
    then show ?thesis using True by simp
  next
    case False
    then have "unat old + 4096 = 4294967296 + unat old mod 4096" using old q by simp
    then have "(unat old + 4096) mod 4294967296 = unat old mod 4096" using assms(2) by (simp only: mod_add_self1 mod_less)
    then show ?thesis using False assms(2) by simp
  qed
  show ?thesis using unat_next_env_id [OF assms(1), of old] unfolding g q_def [symmetric] using q by auto
qed

section \<open>Creating an address space\<close>

lemma PDX_UVPT: "unat (PDX UVPT) = 957" "\<not> 957 < NPDU"
  by (simp_all add: unat_PDX layout_values NPDU_eq)

lemma env_setup_vm_no_mem:
  "vm_inv s [] D \<Longrightarrow> env_setup_vm e s = Some (Inl E_NO_MEM, s)"
  by (simp add: env_setup_vm_def page_alloc_Nil [OF vm_invD(1)])

text \<open>The new directory is a copy of the kernel's with itself at \<open>UVPT\<close>; it maps no user
  page.\<close>

lemma env_setup_vm_spec:
  assumes vm: "vm_inv s (p # fl) D" and kd: "kern_pgdir s = frame_kva kd" "kd \<in> D"
    and empty: "\<And>i. i < NPDU \<Longrightarrow> phys s kd i = 0"
  shows "\<exists>s'. env_setup_vm e s = Some (Inr (), s') \<and> vm_inv s' fl (insert p D)
    \<and> umap (phys s') (insert p D) = umap (phys s) D
    \<and> owned s' fl (insert p D) = owned s (p # fl) D
    \<and> phys s' = (phys s)(p := (phys s kd)(957 := frame_addr p OR PTE_P OR PTE_U))
    \<and> pm_frame (set_env e (\<lambda>v. v\<lparr>env_pgdir := frame_kva p\<rparr>) s) s'"
proof -
  note fl = vm_invD(1) [OF vm] and ti = vm_invD(2) [OF vm]
  have p: "p < npages s" "pp_ref (pages s p) = 0" "p \<notin> set fl"
    using free_list_invD(2-4) [OF fl] by auto
  then have p6: "p < 65536" "p < 1048576" using vm_invD(3) [OF vm] by auto
  have kd6: "kd < 65536" using vm_invD(5) [OF vm kd(2)] .
  have pk: "p \<noteq> kd" using tables_invD(3) [OF ti kd(2)] by auto
  let ?r = "(phys s kd)(957 := frame_addr p OR PTE_P OR PTE_U)"
  let ?s' = "set_word p 957 (frame_addr p OR PTE_P OR PTE_U) (set_ref p 1
    ((set_env e (\<lambda>v. v\<lparr>env_pgdir := frame_kva p\<rparr>) (popped True p s))\<lparr>phys := (phys s)(p := phys s kd)\<rparr>))"
  have run: "env_setup_vm e s = Some (Inr (), ?s')"
    using p p6 kd kd6 pk PDX_UVPT
    by (simp add: env_setup_vm_def ALLOC_ZERO_def page_alloc_Cons [OF fl] Let_def fun_upd_def cong: if_cong)
  have ph: "phys ?s' = (phys s)(p := ?r)" by (simp add: set_word_def)
  have r0: "?r i = 0" if "i < NPDU" for i using that empty PDX_UVPT(2) by auto
  note nd = new_dir [of "phys s" "npages s" "set (p # fl)" D p ?r, OF ti _ p(1) r0]
  have um: "umap (phys ?s') (insert p D) = umap (phys s) D" and
    tb: "tables (phys ?s') (insert p D) = tables (phys s) D" unfolding ph by (rule nd; simp)+
  have fr: "frames (phys ?s') (insert p D) = frames (phys s) D" using um by (rule frames_cong)
  have "tables_inv (phys ?s') (npages s) (set fl) (insert p D)"
    unfolding ph using nd(4) p(3) by simp
  moreover have "free_list_inv ?s' fl"
    using free_list_inv_popped [OF fl, of True] p(3)
    by (auto simp: free_list_inv_def)
  moreover have "npages ?s' = npages s" by simp
  moreover have "pp_ref (pages ?s' x) = (if x = p then 1 else pp_ref (pages s x))" for x by simp
  ultimately have "vm_inv ?s' fl (insert p D)"
    unfolding vm_inv_def fr tb using vm tables_invD(5) [OF ti, of p]
    by (auto simp: vm_inv_def)
  moreover have "owned ?s' fl (insert p D) = owned s (p # fl) D"
    unfolding owned_def fr tb by auto
  moreover have "pm_frame (set_env e (\<lambda>v. v\<lparr>env_pgdir := frame_kva p\<rparr>) s) ?s'"
    by (simp add: pm_frame_def set_word_def set_ref_def set_env_def popped_def)
  ultimately show ?thesis using run um ph by blast
qed

section \<open>The invariant of the environments\<close>

text \<open>The environments in use, the directory frame of each, and the set of all directories.\<close>

definition live :: "kern \<Rightarrow> nat set" where
  "live s = {e. e < NENV \<and> env_status (envs s e) \<noteq> ENV_FREE}"

definition env_dir :: "kern \<Rightarrow> nat \<Rightarrow> nat" where
  "env_dir s e = kva_frame (env_pgdir (envs s e))"

definition kdir :: "kern \<Rightarrow> nat" where
  "kdir s = kva_frame (kern_pgdir s)"

definition dirs :: "kern \<Rightarrow> nat set" where
  "dirs s = insert (kdir s) (env_dir s ` live s)"

text \<open>The user address space of an environment: its page table entries by directory and
  table index.\<close>

definition uspace :: "kern \<Rightarrow> nat \<Rightarrow> nat \<times> nat \<rightharpoonup> u32" where
  "uspace s e = (\<lambda>(i, j). umap (phys s) (dirs s) (env_dir s e, i, j))"

text \<open>Every live environment has a directory of its own and an id that names its slot; the
  kernel's directory maps no user page; the free environments are linked in \<open>el\<close>.\<close>

definition envs_inv :: "kern \<Rightarrow> nat list \<Rightarrow> bool" where
  "envs_inv s el \<longleftrightarrow>
     chain (\<lambda>e. env_link (envs s e)) (env_free_list s) el \<and>
     set el = {e. e < NENV \<and> env_status (envs s e) = ENV_FREE} \<and>
     inj_on (env_dir s) (live s) \<and>
     (\<forall>e\<in>live s. env_pgdir (envs s e) = frame_kva (env_dir s e) \<and> env_dir s e \<noteq> kdir s
        \<and> ENVX (env_id (envs s e)) = e \<and> env_id (envs s e) \<noteq> 0) \<and>
     kern_pgdir s = frame_kva (kdir s) \<and>
     (\<forall>i<NPDU. phys s (kdir s) i = 0)"

definition kinv :: "kern \<Rightarrow> nat list \<Rightarrow> nat list \<Rightarrow> bool" where
  "kinv s fl el \<longleftrightarrow> vm_inv s fl (dirs s) \<and> envs_inv s el"

lemma kinvD:
  assumes "kinv s fl el"
  shows "vm_inv s fl (dirs s)" and "envs_inv s el"
    and "chain (\<lambda>e. env_link (envs s e)) (env_free_list s) el"
    and "set el = {e. e < NENV \<and> env_status (envs s e) = ENV_FREE}"
    and "inj_on (env_dir s) (live s)"
    and "e \<in> live s \<Longrightarrow> env_pgdir (envs s e) = frame_kva (env_dir s e)"
    and "e \<in> live s \<Longrightarrow> env_dir s e \<noteq> kdir s"
    and "e \<in> live s \<Longrightarrow> ENVX (env_id (envs s e)) = e" and "e \<in> live s \<Longrightarrow> env_id (envs s e) \<noteq> 0"
    and "kern_pgdir s = frame_kva (kdir s)" and "i < NPDU \<Longrightarrow> phys s (kdir s) i = 0"
    and "e \<in> live s \<Longrightarrow> env_dir s e \<in> dirs s" and "kdir s \<in> dirs s" and "kdir s < 65536"
proof -
  show vm: "vm_inv s fl (dirs s)" and "envs_inv s el" using assms by (simp_all add: kinv_def)
  show kd: "kdir s \<in> dirs s" by (simp add: dirs_def)
  show "kdir s < 65536" using vm_invD(5) [OF vm kd] .
qed (use assms in \<open>auto simp: kinv_def envs_inv_def dirs_def\<close>)

text \<open>Operations that only move pages keep the environments.\<close>

lemma pm_frame_dirs:
  assumes "pm_frame s s'"
  shows "dirs s' = dirs s" and "live s' = live s" and "env_dir s' = env_dir s" and "kdir s' = kdir s"
  using pm_frameD(2,6) [OF assms] by (auto simp: dirs_def live_def env_dir_def kdir_def fun_eq_iff)

lemma envs_inv_frame:
  assumes "envs_inv s el" and "pm_frame s s'" and "\<And>i. i < NPDU \<Longrightarrow> phys s' (kdir s) i = 0"
  shows "envs_inv s' el"
  using assms(1,3) pm_frameD [OF assms(2)] unfolding envs_inv_def pm_frame_dirs [OF assms(2)] by simp

text \<open>In directories other than the changed one, and in particular in the kernel's, the
  entries stay empty where they were empty of mappings.\<close>

lemma kinv_page_op:
  assumes "kinv s fl el" and "pm_frame s s'" and "vm_inv s' fl' (dirs s)"
    and "\<And>i. i < NPDU \<Longrightarrow> phys s' (kdir s) i = phys s (kdir s) i"
  shows "kinv s' fl' el"
  unfolding kinv_def pm_frame_dirs [OF assms(2)]
  using assms(3,4) kinvD(11) [OF assms(1)] envs_inv_frame [OF kinvD(2) [OF assms(1)] assms(2)] by auto

section \<open>Allocating and freeing environments keeps the invariant\<close>

lemma env_alloc_full: "env_free_list s = None \<Longrightarrow> env_alloc par s = Some (Inl E_NO_FREE_ENV, s)"
  by (simp add: env_alloc_def)

lemma env_alloc_no_mem:
  assumes "kinv s [] (e # el)"
  shows "env_alloc par s = Some (Inl E_NO_MEM, s)"
  using kinvD(3) [OF assms] env_setup_vm_no_mem [OF kinvD(1) [OF assms]]
  by (simp add: env_alloc_def)

text \<open>The environment that \<open>env_alloc\<close> fills in at slot \<open>e\<close> with directory \<open>p\<close>.\<close>

definition fresh_env :: "nat \<Rightarrow> u32 \<Rightarrow> nat \<Rightarrow> Env \<Rightarrow> Env" where
  "fresh_env e par p v = v\<lparr>env_pgdir := frame_kva p, env_id := next_env_id e (env_id v),
     env_parent_id := par, env_type := ENV_TYPE_USER, env_status := ENV_RUNNABLE, env_runs := 0,
     env_tf := zero_tf\<lparr>tf_ds := 0x23, tf_es := 0x23, tf_ss := 0x23, tf_esp := USTACKTOP,
                         tf_cs := 0x1B, tf_eflags := 0x200\<rparr>,
     env_pgfault_upcall := 0, env_ipc_recving := False\<rparr>"

lemma fresh_env_simps [simp]:
  "env_pgdir (fresh_env e par p v) = frame_kva p" "env_status (fresh_env e par p v) = ENV_RUNNABLE"
  "env_id (fresh_env e par p v) = next_env_id e (env_id v)" "env_link (fresh_env e par p v) = env_link v"
  by (simp_all add: fresh_env_def)

lemma dirs_add:
  assumes "envs s' = (envs s)(e := v)" and "e \<notin> live s" and "e < NENV"
    and "env_status v \<noteq> ENV_FREE" and "env_pgdir v = frame_kva p" and "p < 65536"
    and "kern_pgdir s' = kern_pgdir s"
  shows "live s' = insert e (live s)" and "dirs s' = insert p (dirs s)" and "env_dir s' e = p"
    and "x \<noteq> e \<Longrightarrow> env_dir s' x = env_dir s x" and "kdir s' = kdir s"
proof -
  show l: "live s' = insert e (live s)" using assms(1,3,4) by (auto simp: live_def)
  show e: "env_dir s' e = p" and o: "x \<noteq> e \<Longrightarrow> env_dir s' x = env_dir s x" for x
    using assms by (simp_all add: env_dir_def)
  show k: "kdir s' = kdir s" using assms(7) by (simp add: kdir_def)
  have "env_dir s' x = env_dir s x" if "x \<in> live s" for x
    using o [of x] assms(2) that by metis
  then have "env_dir s' ` live s = env_dir s ` live s" by simp
  then show "dirs s' = insert p (dirs s)" by (auto simp: dirs_def l e k)
qed

lemma env_alloc_spec:
  assumes k: "kinv s (p # fl) (e # el)"
  shows "\<exists>s'. env_alloc par s = Some (Inr e, s') \<and> kinv s' fl el
    \<and> envs s' = (envs s)(e := fresh_env e par p (envs s e))
    \<and> uspace s' e = Map.empty \<and> live s' = insert e (live s) \<and> e \<notin> live s
    \<and> (\<forall>x\<in>live s. uspace s' x = uspace s x \<and> env_dir s' x = env_dir s x)
    \<and> owned s' fl (dirs s') = owned s (p # fl) (dirs s)
    \<and> phys s' = (phys s)(p := (phys s (kdir s))(957 := frame_addr p OR PTE_P OR PTE_U))
    \<and> cpus s' = cpus s \<and> this_cpu s' = this_cpu s \<and> npages s' = npages s
    \<and> kern_pgdir s' = kern_pgdir s \<and> kernel_lock s' = kernel_lock s
    \<and> umap (phys s') (dirs s') = umap (phys s) (dirs s)"
proof -
  note vm = kinvD(1) [OF k]
  have e: "e < NENV" "e \<notin> live s" "env_free_list s = Some e" "e \<notin> set el"
    using kinvD(3,4) [OF k] chain_distinct [OF kinvD(3) [OF k]] by (auto simp: live_def)
  obtain s1 where s1: "env_setup_vm e s = Some (Inr (), s1)" "vm_inv s1 fl (insert p (dirs s))"
    "umap (phys s1) (insert p (dirs s)) = umap (phys s) (dirs s)"
    "owned s1 fl (insert p (dirs s)) = owned s (p # fl) (dirs s)"
    "phys s1 = (phys s)(p := (phys s (kdir s))(957 := frame_addr p OR PTE_P OR PTE_U))"
    "pm_frame (set_env e (\<lambda>v. v\<lparr>env_pgdir := frame_kva p\<rparr>) s) s1"
    using env_setup_vm_spec [OF vm kinvD(10) [OF k] kinvD(13) [OF k] kinvD(11) [OF k]] by blast
  note f = pm_frameD [OF s1(6)]
  have tf: "zero_tf\<lparr>tf_ds := GD_UD OR 3, tf_es := GD_UD OR 3, tf_ss := GD_UD OR 3,
      tf_esp := USTACKTOP, tf_cs := GD_UT OR 3, tf_eflags := tf_eflags zero_tf OR FL_IF\<rparr>
    = zero_tf\<lparr>tf_ds := 0x23, tf_es := 0x23, tf_ss := 0x23, tf_esp := USTACKTOP,
              tf_cs := 0x1B, tf_eflags := 0x200\<rparr>"
    by (simp add: GD_UD_def GD_UT_def FL_IF_def zero_tf_def)
  let ?s' = "(set_env e (\<lambda>v. fresh_env e par p v) s1)\<lparr>env_free_list := env_link (envs s e)\<rparr>"
  have "set_env e (\<lambda>v. v\<lparr>env_id := next_env_id e (env_id v), env_parent_id := par,
      env_type := ENV_TYPE_USER, env_status := ENV_RUNNABLE, env_runs := 0,
      env_tf := zero_tf\<lparr>tf_ds := 0x23, tf_es := 0x23, tf_ss := 0x23, tf_esp := USTACKTOP,
              tf_cs := 0x1B, tf_eflags := 0x200\<rparr>, env_pgfault_upcall := 0,
      env_ipc_recving := False\<rparr>) s1 = set_env e (\<lambda>v. fresh_env e par p v) s1"
    using f(2) by (simp add: set_env_def fresh_env_def)
  then have run: "env_alloc par s = Some (Inr e, ?s')"
    using e(3) s1(1) f(2) by (simp add: env_alloc_def Let_def tf)
  have es: "envs ?s' = (envs s)(e := fresh_env e par p (envs s e))"
    using f(2) by (simp add: fresh_env_def)
  have p: "p \<notin> dirs s" "p < 65536" "p < npages s" "p \<notin> tables (phys s) (dirs s)"
    using tables_invD(3,5) [OF vm_invD(2) [OF vm]] free_list_invD(3) [OF vm_invD(1) [OF vm], of p]
      vm_invD(3) [OF vm] by auto
  have kp: "kern_pgdir ?s' = kern_pgdir s" using f(6) by simp
  note da = dirs_add [OF es e(2,1) _ _ p(2) kp, simplified]
  have pd: "env_dir s x \<noteq> p" if "x \<in> live s" for x using that p(1) by (auto simp: dirs_def)
  have ne: "x \<noteq> e" if "x \<in> live s" for x using that e(2) by blast
  have "chain (\<lambda>x. env_link (envs ?s' x)) (env_link (envs s e)) el"
    using kinvD(3) [OF k] e(4) unfolding es
    by (subst chain_cong [of _ _ "\<lambda>x. env_link (envs s x)"]) auto
  moreover have "set el = {x. x < NENV \<and> env_status (envs ?s' x) = ENV_FREE}"
    using kinvD(4) [OF k] e(4) unfolding es by auto
  moreover have "inj_on (env_dir ?s') (live ?s')"
    using kinvD(5) [OF k] pd ne da by (auto simp: inj_on_def)
  moreover have "p \<noteq> kdir s" using p(1) by (auto simp: dirs_def)
  then have "\<forall>i<NPDU. phys ?s' (kdir ?s') i = 0" using kinvD(11) [OF k] s1(5) da(5) by simp
  moreover have "next_env_id e old \<noteq> 0" for old using next_env_id_props(2) [OF e(1), of old] by auto
  ultimately have ei: "envs_inv ?s' el"
    unfolding envs_inv_def da(1) using kinvD(6-10) [OF k] da(3-5) ne e(1) \<open>p \<noteq> kdir s\<close>
    by (simp add: es kp next_env_id_props)
  have um: "umap (phys ?s') (dirs ?s') = umap (phys s) (dirs s)" using s1(3) da(2) by simp
  then have "uspace ?s' e = Map.empty" "uspace ?s' x = uspace s x" if "x \<in> live s" for x
    using p(1) da(3,4) ne that
    by (auto simp: uspace_def umap_apply live_slots_iff fun_eq_iff)
  moreover have "uspace ?s' e = Map.empty"
    unfolding uspace_def um da(3) using p(1) by (auto simp: umap_apply live_slots_iff)
  ultimately show ?thesis
    using run ei es s1 da(1,2,4) ne e(2) f by (intro exI [of _ ?s']) (simp add: kinv_def)
qed

lemma dirs_del:
  assumes "envs s' = (envs s)(e := v)" and "e \<in> live s" and "env_status v = ENV_FREE"
    and "inj_on (env_dir s) (live s)" and "env_dir s e \<noteq> kdir s" and "kern_pgdir s' = kern_pgdir s"
  shows "live s' = live s - {e}" and "dirs s' = dirs s - {env_dir s e}"
    and "x \<noteq> e \<Longrightarrow> env_dir s' x = env_dir s x" and "kdir s' = kdir s"
proof -
  show l: "live s' = live s - {e}" using assms(1,3) by (auto simp: live_def)
  show o: "x \<noteq> e \<Longrightarrow> env_dir s' x = env_dir s x" for x
    using assms(1) by (simp add: env_dir_def)
  show k: "kdir s' = kdir s" using assms(6) by (simp add: kdir_def)
  have "env_dir s' ` (live s - {e}) = env_dir s ` (live s - {e})" using o by simp
  also have "\<dots> = env_dir s ` live s - {env_dir s e}"
    using assms(2,4) by (auto dest: inj_onD)
  finally show "dirs s' = dirs s - {env_dir s e}" using assms(5) by (auto simp: dirs_def l k)
qed

lemma live_not_table:
  "kinv s fl el \<Longrightarrow> x \<in> dirs s \<Longrightarrow> x \<notin> tables (phys s) (dirs s)"
  using tables_invD(6) [OF vm_invD(2) [OF kinvD(1)]] by blast

lemma env_free_kinv:
  assumes k: "kinv s fl el" and e: "e \<in> live s"
  shows "\<exists>s' fl'. env_free e s = Some s' \<and> kinv s' fl' (e # el)
    \<and> live s' = live s - {e}
    \<and> (\<forall>x\<in>live s - {e}. uspace s' x = uspace s x \<and> env_dir s' x = env_dir s x)
    \<and> owned s' fl' (dirs s') = owned s fl (dirs s)
    \<and> (\<forall>p. p \<noteq> env_dir s e \<longrightarrow> p \<notin> tables (phys s) (dirs s) \<longrightarrow> phys s' p = phys s p)
    \<and> envs s' = (envs s)(e := (envs s e)\<lparr>env_pgdir := 0, env_status := ENV_FREE,
                                           env_link := env_free_list s\<rparr>)
    \<and> kern_pgdir s' = kern_pgdir s \<and> npages s' = npages s
    \<and> cpus s' = cpus s \<and> this_cpu s' = this_cpu s
    \<and> kernel_lock s' = kernel_lock s
    \<and> cr3 s' = (if Some e = curenv s then frame_addr (kdir s) else cr3 s)"
proof -
  let ?d = "env_dir s e"
  obtain s' fl' where s': "env_free e s = Some s'" "vm_inv s' fl' (dirs s - {?d})"
    "umap (phys s') (dirs s - {?d}) = umap (phys s) (dirs s) |` (- ({?d} \<times> UNIV))"
    "owned s' fl' (dirs s - {?d}) = owned s fl (dirs s)"
    "\<forall>p. p \<noteq> ?d \<longrightarrow> p \<notin> tables (phys s) (dirs s) \<longrightarrow> phys s' p = phys s p"
    "envs s' = (envs s)(e := (envs s e)\<lparr>env_pgdir := 0, env_status := ENV_FREE,
                                           env_link := env_free_list s\<rparr>)"
    "env_free_list s' = Some e" "kern_pgdir s' = kern_pgdir s" "npages s' = npages s"
    "cpus s' = cpus s" "this_cpu s' = this_cpu s" "kernel_lock s' = kernel_lock s"
    "cr3 s' = (if Some e = curenv s then frame_addr (kdir s) else cr3 s)"
    using env_free_spec [OF kinvD(1) [OF k] kinvD(12) [OF k e] kinvD(6) [OF k e] kinvD(10) [OF k]
        kinvD(14) [OF k]] by blast
  note dd = dirs_del [OF s'(6) e _ kinvD(5) [OF k] kinvD(7) [OF k e] s'(8), simplified]
  have el: "e \<notin> set el" and eN: "e < NENV" using kinvD(4) [OF k] e by (auto simp: live_def)
  have us: "uspace s' x = uspace s x" if "x \<in> live s - {e}" for x
  proof -
    have "env_dir s x \<noteq> ?d" using that e kinvD(5) [OF k] by (auto dest: inj_onD)
    then show ?thesis using that dd(2,3) s'(3) by (auto simp: uspace_def fun_eq_iff)
  qed
  have "phys s' (kdir s) = phys s (kdir s)"
    using s'(5) kinvD(7) [OF k e] live_not_table [OF k kinvD(13) [OF k]] by metis
  moreover have "chain (\<lambda>x. env_link (envs s' x)) (Some e) (e # el)"
    using kinvD(3) [OF k] el unfolding s'(6)
    by simp (subst chain_cong [of _ _ "\<lambda>x. env_link (envs s x)"]; auto)
  moreover have "set (e # el) = {x. x < NENV \<and> env_status (envs s' x) = ENV_FREE}"
    using kinvD(4) [OF k] eN unfolding s'(6) by auto
  moreover have "inj_on (env_dir s') (live s - {e})"
    using kinvD(5) [OF k] dd(3) by (auto simp: inj_on_def)
  ultimately have "envs_inv s' (e # el)"
    unfolding envs_inv_def dd(1,4) s'(7,8) using kinvD(6-11) [OF k] dd(3) s'(6) by auto
  then have "kinv s' fl' (e # el)" using s'(2) dd(2) by (simp add: kinv_def)
  then show ?thesis using s' dd us by (intro exI [of _ s'] exI [of _ fl']) simp
qed

section \<open>Looking an environment up\<close>

text \<open>\<open>envid2env\<close> finds exactly the live environment that has the id; with \<open>checkperm\<close>
  only the caller and its children.\<close>

lemma envid2env_found:
  assumes k: "kinv s fl el" and "envid \<noteq> 0" and c: "curenv s = Some c"
  shows "envid2env envid chk s = Some (Inr r) \<longleftrightarrow>
    (\<exists>e\<in>live s. r = Some e \<and> env_id (envs s e) = envid
       \<and> (chk \<longrightarrow> e = c \<or> env_parent_id (envs s e) = env_id (envs s c)))"
proof -
  have lt: "ENVX envid < NENV" by (simp add: ENVX_def NENV_def unat_and_3FF)
  show ?thesis
    using assms(2) kinvD(8) [OF k] lt c
    by (auto simp: envid2env_def Let_def live_def)
qed

lemma envid2env_total:
  "curenv s = Some c \<Longrightarrow> envid2env envid chk s \<noteq> None
     \<and> (\<forall>err. envid2env envid chk s = Some (Inl err) \<longrightarrow> err = E_BAD_ENV)"
  by (auto simp: envid2env_def Let_def)

section \<open>Properties\<close>

lemma chain_upt:
  assumes "a < b" and "\<And>i. a \<le> i \<Longrightarrow> i < b \<Longrightarrow> link i = (if Suc i < b then Some (Suc i) else None)"
  shows "chain link (Some a) [a..<b]"
  using assms
proof (induction "b - a" arbitrary: a)
  case (Suc n)
  show ?case
  proof (cases "Suc a < b")
    case True
    with Suc.hyps(2) have "chain link (Some (Suc a)) [Suc a..<b]"
      by (intro Suc.hyps(1) Suc.prems(2)) auto
    with True Suc.prems show ?thesis by (simp add: upt_conv_Cons)
  next
    case False
    with Suc.prems have "[a..<b] = [a]" by (simp add: upt_conv_Cons)
    with False Suc.prems show ?thesis by simp
  qed
qed simp

lemma sample_dirs:
  "live sample_kern = {0}" "env_dir sample_kern 0 = 2" "kdir sample_kern = 1" "dirs sample_kern = {1, 2}"
proof -
  show l: "live sample_kern = {0}"
    by (auto simp: live_def sample_kern_def NENV_def zero_env_def split: if_splits)
  show d: "env_dir sample_kern 0 = 2" and k: "kdir sample_kern = 1"
    by (simp_all add: env_dir_def kdir_def sample_kern_def)
  show "dirs sample_kern = {1, 2}" by (simp add: dirs_def l d k)
qed

lemma sample_kinv: "kinv sample_kern [3, 4, 5] [1..<1024]"
proof -
  have "chain (\<lambda>e. env_link (envs sample_kern e)) (Some 1) [1..<1024]"
    by (rule chain_upt) (auto simp: sample_kern_def zero_env_def)
  moreover have "set [1..<1024] = {e. e < NENV \<and> env_status (envs sample_kern e) = ENV_FREE}"
    by (auto simp: sample_kern_def NENV_def zero_env_def split: if_splits)
  ultimately have "envs_inv sample_kern [1..<1024]"
    unfolding envs_inv_def sample_dirs
    by (simp add: sample_dirs) (simp add: sample_kern_def ENVX_def)
  then show ?thesis using sample_vm by (simp add: kinv_def sample_dirs)
qed

text \<open>C8. \<open>env_alloc\<close> fails with \<open>-E_NO_FREE_ENV\<close> when every environment is in use and with
  \<open>-E_NO_MEM\<close> when no page is free, without changing anything; otherwise it takes the
  head of the free list, gives it an address space in which no user page is mapped, a new
  id, user segments and enabled interrupts, keeps the invariant and the other address
  spaces, and loses no page.\<close>

theorem env_alloc_fresh:
  assumes k: "kinv s fl el"
  shows "case el of
      [] \<Rightarrow> env_alloc par s = Some (Inl E_NO_FREE_ENV, s)
    | e # el' \<Rightarrow> (case fl of
        [] \<Rightarrow> env_alloc par s = Some (Inl E_NO_MEM, s)
      | p # fl' \<Rightarrow> \<exists>s'. env_alloc par s = Some (Inr e, s') \<and> kinv s' fl' el'
          \<and> live s' = insert e (live s) \<and> e \<notin> live s
          \<and> envs s' = (envs s)(e := fresh_env e par p (envs s e))
          \<and> uspace s' e = Map.empty \<and> (\<forall>x\<in>live s. uspace s' x = uspace s x)
          \<and> owned s' fl' (dirs s') = owned s fl (dirs s))"
proof (cases el)
  case Nil
  then show ?thesis using kinvD(3) [OF k] by (simp add: env_alloc_full)
next
  case el: (Cons e el')
  show ?thesis
  proof (cases fl)
    case Nil
    with k el show ?thesis by (simp add: env_alloc_no_mem)
  next
    case (Cons p fl')
    obtain s' where s': "env_alloc par s = Some (Inr e, s')" "kinv s' fl' el'" "live s' = insert e (live s)"
      "e \<notin> live s" "envs s' = (envs s)(e := fresh_env e par p (envs s e))" "uspace s' e = Map.empty"
      "\<forall>x\<in>live s. uspace s' x = uspace s x \<and> env_dir s' x = env_dir s x"
      "owned s' fl' (dirs s') = owned s (p # fl') (dirs s)"
      using env_alloc_spec [OF k [unfolded el Cons], of par] by blast
    have "\<forall>x\<in>live s. uspace s' x = uspace s x" using s'(7) by simp
    then show ?thesis
      unfolding el Cons list.case by (intro exI [of _ s'] conjI s'(1-6,8))
  qed
qed

theorem env_alloc_fresh_witness:
  "case [1..<1024] of
      [] \<Rightarrow> env_alloc 0x1000 sample_kern = Some (Inl E_NO_FREE_ENV, sample_kern)
    | e # el' \<Rightarrow> (case [3, 4, 5] of
        [] \<Rightarrow> env_alloc 0x1000 sample_kern = Some (Inl E_NO_MEM, sample_kern)
      | p # fl' \<Rightarrow> \<exists>s'. env_alloc 0x1000 sample_kern = Some (Inr e, s') \<and> kinv s' fl' el'
          \<and> live s' = insert e (live sample_kern) \<and> e \<notin> live sample_kern
          \<and> envs s' = (envs sample_kern)(e := fresh_env e 0x1000 p (envs sample_kern e))
          \<and> uspace s' e = Map.empty \<and> (\<forall>x\<in>live sample_kern. uspace s' x = uspace sample_kern x)
          \<and> owned s' fl' (dirs s') = owned sample_kern [3, 4, 5] (dirs sample_kern))"
  by (rule env_alloc_fresh [OF sample_kinv])

text \<open>C9. \<open>env_free\<close> never fails on a live environment: it removes the environment and its
  address space, puts the slot at the head of the free list, leaves every other address
  space and the contents of every page outside the page tables and the freed directory as
  they were, and returns every frame that is no longer mapped to the free list (no frame
  drops out of the accounts).\<close>

theorem env_free_exact:
  assumes "kinv s fl el" and "e \<in> live s"
  shows "\<exists>s' fl'. env_free e s = Some s' \<and> kinv s' fl' (e # el) \<and> live s' = live s - {e}
    \<and> (\<forall>x\<in>live s - {e}. uspace s' x = uspace s x)
    \<and> owned s' fl' (dirs s') = owned s fl (dirs s)
    \<and> (\<forall>p. p \<noteq> env_dir s e \<longrightarrow> p \<notin> tables (phys s) (dirs s) \<longrightarrow> phys s' p = phys s p)
    \<and> cr3 s' = (if Some e = curenv s then frame_addr (kdir s) else cr3 s)"
  using env_free_kinv [OF assms] by blast

theorem env_free_exact_witness:
  "\<exists>s' fl'. env_free 0 sample_kern = Some s' \<and> kinv s' fl' (0 # [1..<1024])
    \<and> live s' = live sample_kern - {0}
    \<and> (\<forall>x\<in>live sample_kern - {0}. uspace s' x = uspace sample_kern x)
    \<and> owned s' fl' (dirs s') = owned sample_kern [3, 4, 5] (dirs sample_kern)
    \<and> (\<forall>p. p \<noteq> env_dir sample_kern 0 \<longrightarrow> p \<notin> tables (phys sample_kern) (dirs sample_kern)
          \<longrightarrow> phys s' p = phys sample_kern p)
    \<and> cr3 s' = (if Some 0 = curenv sample_kern then frame_addr (kdir sample_kern) else cr3 sample_kern)"
  by (rule env_free_exact [OF sample_kinv]) (simp add: sample_dirs)

text \<open>C10. \<open>envid2env\<close> with a non-zero id returns an environment exactly when it is the live
  environment with that id and, if \<open>checkperm\<close> is set, it is the caller or a child of the
  caller; in every other case it returns \<open>-E_BAD_ENV\<close>. No two live environments share an
  id.\<close>

theorem envid2env_exact:
  assumes "kinv s fl el" and "envid \<noteq> 0" and "curenv s = Some c"
  shows "envid2env envid chk s =
      Some (if \<exists>e\<in>live s. env_id (envs s e) = envid
                \<and> (chk \<longrightarrow> e = c \<or> env_parent_id (envs s e) = env_id (envs s c))
            then Inr (Some (ENVX envid)) else Inl E_BAD_ENV)
    \<and> inj_on (\<lambda>e. env_id (envs s e)) (live s)"
proof -
  have inj: "inj_on (\<lambda>e. env_id (envs s e)) (live s)"
  proof (rule inj_onI)
    fix x y assume x: "x \<in> live s" and y: "y \<in> live s" and eq: "env_id (envs s x) = env_id (envs s y)"
    have "x = ENVX (env_id (envs s x))" by (rule kinvD(8) [OF assms(1) x, symmetric])
    also have "\<dots> = y" unfolding eq by (rule kinvD(8) [OF assms(1) y])
    finally show "x = y" .
  qed
  obtain r where r: "envid2env envid chk s = Some r" using envid2env_total [OF assms(3)] by fast
  show ?thesis
  proof (cases r)
    case (Inl err)
    then have "err = E_BAD_ENV" using envid2env_total [OF assms(3)] r by blast
    moreover have "\<not> (\<exists>e\<in>live s. env_id (envs s e) = envid
        \<and> (chk \<longrightarrow> e = c \<or> env_parent_id (envs s e) = env_id (envs s c)))"
      using envid2env_found [OF assms] r Inl by (metis Inl_Inr_False option.inject)
    ultimately show ?thesis using r Inl inj by simp
  next
    case (Inr q)
    then obtain e where "e \<in> live s" "q = Some e" "env_id (envs s e) = envid"
      "chk \<longrightarrow> e = c \<or> env_parent_id (envs s e) = env_id (envs s c)"
      using envid2env_found [OF assms] r by blast
    with r Inr inj kinvD(8) [OF assms(1)] show ?thesis by auto
  qed
qed

theorem envid2env_exact_witness:
  "envid2env 0x1000 True sample_kern =
      Some (if \<exists>e\<in>live sample_kern. env_id (envs sample_kern e) = 0x1000
                \<and> (True \<longrightarrow> e = 0 \<or> env_parent_id (envs sample_kern e) = env_id (envs sample_kern 0))
            then Inr (Some (ENVX 0x1000)) else Inl E_BAD_ENV)
    \<and> inj_on (\<lambda>e. env_id (envs sample_kern e)) (live sample_kern)"
  by (rule envid2env_exact [OF sample_kinv]) (simp_all add: sample_kern_def curenv_def)

text \<open>C11. The id that \<open>env_alloc\<close> computes for slot \<open>e\<close> is positive as an \<open>int32_t\<close>, names
  the slot in its low bits, and differs from the previous id of the slot. When the previous id is zero or
  one that was computed before, the generation is the next one, and after the last of the \<open>2 ^ 19 - 1\<close>
  generations it is the first one again.\<close>

theorem next_env_id_fresh:
  assumes "e < NENV"
  shows "ENVX (next_env_id e old) = e \<and> 0 < sint (next_env_id e old) \<and> next_env_id e old \<noteq> old
    \<and> (unat old mod 4096 < 1024 \<longrightarrow>
        unat (next_env_id e old) = 4096 * (if unat old div 4096 + 1 < 524288 then unat old div 4096 + 1 else 1) + e)"
  using next_env_id_props [OF assms] next_env_id_generation [OF assms] by blast

theorem next_env_id_fresh_witness:
  "ENVX (next_env_id 5 0x7FFFF005) = 5 \<and> 0 < sint (next_env_id 5 0x7FFFF005)
     \<and> next_env_id 5 0x7FFFF005 \<noteq> 0x7FFFF005 \<and> unat (next_env_id 5 0x7FFFF005) = 0x1005
     \<and> unat (next_env_id 5 0x7FFFE005) = 0x7FFFF005"
  using next_env_id_fresh [of 5 "0x7FFFF005"] next_env_id_fresh [of 5 "0x7FFFE005"] by (simp add: NENV_def)

end
