(* ===== verification/Boot_Map.thy ===== *)
theory Boot_Map
  imports Env_Inv
begin

text \<open>
  The kernel part of the address space that \<open>mem_init\<close> sets up (\<open>kern/pmap.c\<close>): \<open>boot_map_region\<close>
  with small and large pages, the mappings of \<open>mem_init\<close> and \<open>mem_init_mp\<close>, and the self test
  \<open>check_kern_pgdir\<close>.
\<close>

section \<open>The kernel part of a directory\<close>

text \<open>The entry that translates page \<open>j\<close> of slot \<open>i\<close>; a large page is read as the small pages it
  stands for.\<close>

definition kpage :: "(nat \<Rightarrow> nat \<Rightarrow> u32) \<Rightarrow> nat \<Rightarrow> nat \<Rightarrow> nat \<Rightarrow> u32 option" where
  "kpage m d i j =
     (let pde = m d i in
      if pde AND PTE_P = 0 then None
      else if pde AND PTE_PS \<noteq> 0 then Some (PGADDR (PDX pde) (of_nat j) 0 OR (pde AND 0xFFF AND NOT PTE_PS))
      else let pte = m (unat (PGNUM pde)) j in if pte AND PTE_P = 0 then None else Some pte)"

text \<open>The slots with a page table. Slot 957 is \<open>PDX(UVPT)\<close>, where the directory contains itself.\<close>

definition kslots :: "(nat \<Rightarrow> nat \<Rightarrow> u32) \<Rightarrow> nat \<Rightarrow> nat set" where
  "kslots m d = {i. i < 1024 \<and> i \<noteq> 957 \<and> m d i \<noteq> 0 \<and> m d i AND PTE_PS = 0}"

definition boot_inv :: "kern \<Rightarrow> nat list \<Rightarrow> nat \<Rightarrow> bool" where
  "boot_inv s fl d \<longleftrightarrow> free_list_inv s fl \<and> d < npages s \<and> d \<notin> set fl
     \<and> (\<forall>i\<in>kslots (phys s) d. phys s d i AND PTE_P \<noteq> 0 \<and> phys s d i AND PTE_W \<noteq> 0 \<and> pt_frame (phys s) (d, i) < npages s
          \<and> pt_frame (phys s) (d, i) \<notin> set fl \<and> pt_frame (phys s) (d, i) \<noteq> d)
     \<and> inj_on (\<lambda>i. pt_frame (phys s) (d, i)) (kslots (phys s) d)
     \<and> (\<forall>i<1024. phys s d i AND PTE_PS \<noteq> 0 \<longrightarrow> phys s d i AND PTE_P \<noteq> 0)"

lemma boot_invD:
  assumes "boot_inv s fl d"
  shows "free_list_inv s fl" and "d < npages s" and "d \<notin> set fl" and "d < 65536"
    and "i \<in> kslots (phys s) d \<Longrightarrow> phys s d i AND PTE_P \<noteq> 0"
    and "i \<in> kslots (phys s) d \<Longrightarrow> pt_frame (phys s) (d, i) < npages s"
    and "i \<in> kslots (phys s) d \<Longrightarrow> pt_frame (phys s) (d, i) \<notin> set fl"
    and "i \<in> kslots (phys s) d \<Longrightarrow> pt_frame (phys s) (d, i) \<noteq> d"
    and "inj_on (\<lambda>i. pt_frame (phys s) (d, i)) (kslots (phys s) d)"
    and "i < 1024 \<Longrightarrow> phys s d i AND PTE_PS \<noteq> 0 \<Longrightarrow> phys s d i AND PTE_P \<noteq> 0"
    and "i \<in> kslots (phys s) d \<Longrightarrow> phys s d i AND PTE_W \<noteq> 0"
  using assms free_list_invD(1) by (auto simp: boot_inv_def) (meson less_le_trans free_list_invD(1))

lemma kpage_table:
  assumes "boot_inv s fl d" and "i \<in> kslots (phys s) d"
  shows "kpage (phys s) d i j = (let pte = phys s (pt_frame (phys s) (d, i)) j in if pte AND PTE_P = 0 then None else Some pte)"
  using boot_invD(5) [OF assms] assms(2) by (simp add: kpage_def kslots_def pt_frame_def)

lemma kpage_zero: "m d i = 0 \<Longrightarrow> kpage m d i j = None"
  by (simp add: kpage_def)

section \<open>Mapping a page\<close>

text \<open>Storing an entry in a page table changes the translation of one page.\<close>

lemma kpage_set_pte:
  fixes j :: nat
  assumes inv: "boot_inv s fl d" and i: "i \<in> kslots (phys s) d" and v: "v AND PTE_P \<noteq> 0"
  defines "s' \<equiv> set_word (pt_frame (phys s) (d, i)) j v s"
  shows "boot_inv s' fl d" and "phys s' d = phys s d"
    and "a < 1024 \<Longrightarrow> a \<noteq> 957 \<Longrightarrow> kpage (phys s') d a b = (if a = i \<and> b = j then Some v else kpage (phys s) d a b)"
proof -
  let ?t = "pt_frame (phys s) (d, i)"
  note B = boot_invD [OF inv]
  have td: "?t \<noteq> d" by (rule B(8) [OF i])
  show ph: "phys s' d = phys s d" using td by (simp add: s'_def set_word_def)
  have same: "pt_frame (phys s') (d, x) = pt_frame (phys s) (d, x)" "kslots (phys s') d = kslots (phys s) d" for x
    by (simp_all add: pt_frame_def kslots_def ph)
  have "npages s' = npages s" "free_list_inv s' fl = free_list_inv s fl" by (simp_all add: s'_def set_word_def free_list_inv_def)
  then show inv': "boot_inv s' fl d" using inv unfolding boot_inv_def same ph by simp
  show "kpage (phys s') d a b = (if a = i \<and> b = j then Some v else kpage (phys s) d a b)" if a: "a < 1024" "a \<noteq> 957"
  proof (cases "a \<in> kslots (phys s) d")
    case True
    have "pt_frame (phys s) (d, a) = ?t \<longleftrightarrow> a = i" using inj_onD [OF B(9) _ True i] by auto
    then have "phys s' (pt_frame (phys s) (d, a)) b = (if a = i \<and> b = j then v else phys s (pt_frame (phys s) (d, a)) b)"
      by (auto simp: s'_def set_word_def)
    then show ?thesis
      using kpage_table [OF inv' True [folded same(2)], of b] kpage_table [OF inv True, of b] v unfolding same by (simp add: Let_def)
  next
    case False
    then have "phys s d a = 0 \<or> phys s d a AND PTE_PS \<noteq> 0" "a \<noteq> i" using a i by (auto simp: kslots_def)
    then show ?thesis unfolding kpage_def ph by (auto simp: Let_def)
  qed
qed

text \<open>A new, empty page table changes no translation.\<close>

lemma boot_new_table:
  assumes inv: "boot_inv s (t # fl) d" and i: "i < 1024" "i \<noteq> 957" "phys s d i = 0"
  defines "s' \<equiv> with_table d i t s"
  shows "boot_inv s' fl d" and "i \<in> kslots (phys s') d" and "pt_frame (phys s') (d, i) = t"
    and "phys s' d = (phys s d)(i := frame_addr t OR 7)"
    and "a < 1024 \<Longrightarrow> a \<noteq> 957 \<Longrightarrow> kpage (phys s') d a b = kpage (phys s) d a b"
proof -
  note B = boot_invD [OF inv]
  note fl = B(1)
  have t: "t < npages s" "t < 1048576" "t \<notin> set fl" "d \<noteq> t"
    using free_list_invD(1,2) [OF fl] free_list_invD(3) [OF fl, of t] B(3) by auto
  note ph = with_table_phys [OF t(4), of i s, folded s'_def]
  show d: "phys s' d = (phys s d)(i := frame_addr t OR 7)" using ph by simp
  have seven: "(frame_addr t OR 7) AND PTE_PS = 0" "(frame_addr t OR 7) AND PTE_P \<noteq> 0" "(frame_addr t OR 7) AND PTE_W \<noteq> 0"
    using frame_addr_and_low [of PTE_PS t 7] frame_addr_and_low [of PTE_P t 7] frame_addr_and_low [of PTE_W t 7]
    by (simp_all add: PTE_PS_def PTE_P_def PTE_W_def)
  show pf: "pt_frame (phys s') (d, i) = t" using t(2) by (simp add: pt_frame_def d)
  have pf': "pt_frame (phys s') (d, a) = pt_frame (phys s) (d, a)" if "a \<noteq> i" for a using that by (simp add: pt_frame_def d)
  have nz: "frame_addr t OR 7 \<noteq> 0" using seven(2) by auto
  have ks: "kslots (phys s') d = insert i (kslots (phys s) d)" using i seven nz by (auto simp: kslots_def d)
  show ii: "i \<in> kslots (phys s') d" using ks by simp
  have ni: "i \<notin> kslots (phys s) d" using i(3) by (simp add: kslots_def)
  have old: "pt_frame (phys s) (d, a) < npages s" "pt_frame (phys s) (d, a) \<notin> set (t # fl)" "pt_frame (phys s) (d, a) \<noteq> d"
    "phys s d a AND PTE_P \<noteq> 0" "a \<noteq> i" "phys s d a AND PTE_W \<noteq> 0" if "a \<in> kslots (phys s) d" for a
    using B(5-8,11) that ni by blast+
  have ff: "free_list_inv s' fl"
    unfolding s'_def with_table_def using free_list_inv_popped [OF fl] t(3) by (simp add: free_list_inv_set_ref)
  have "inj_on (\<lambda>i. pt_frame (phys s') (d, i)) (insert i (kslots (phys s) d))"
  proof -
    have "inj_on (\<lambda>i. pt_frame (phys s') (d, i)) (kslots (phys s) d)"
      using B(9) old(5) pf' by (simp add: inj_on_def)
    moreover have "t \<noteq> pt_frame (phys s') (d, a)" if "a \<in> kslots (phys s) d" for a using old(2,5) pf' that by fastforce
    ultimately show ?thesis using pf ni by auto
  qed
  moreover have "npages s' = npages s" using pm_frameD(1) [OF with_table_frame] by (simp add: s'_def)
  ultimately show "boot_inv s' fl d"
    unfolding boot_inv_def ks using B(2,3,10) ff old pf' pf t seven d by (auto simp: fun_upd_def)
  show "kpage (phys s') d a b = kpage (phys s) d a b" if a: "a < 1024" "a \<noteq> 957"
  proof (cases "a = i")
    case True
    then show ?thesis
      using i(3) seven pf ph t(4) by (simp add: kpage_zero) (simp add: kpage_def d pt_frame_def)
  next
    case False
    then have e: "phys s' d a = phys s d a" by (simp add: d)
    show ?thesis
    proof (cases "a \<in> kslots (phys s) d")
      case True
      have "phys s' (pt_frame (phys s) (d, a)) = phys s (pt_frame (phys s) (d, a))" using old(2,3) [OF True] ph by auto
      then show ?thesis using True unfolding kpage_def e by (simp add: pt_frame_def kslots_def Let_def)
    next
      case no: False
      then have "phys s d a = 0 \<or> phys s d a AND PTE_PS \<noteq> 0" using a by (auto simp: kslots_def)
      then show ?thesis unfolding kpage_def e by (auto simp: Let_def)
    qed
  qed
qed

text \<open>A large page.\<close>

lemma boot_large:
  assumes inv: "boot_inv s fl d" and i: "i < 1024" "i \<noteq> 957" and w: "w AND PTE_P \<noteq> 0" "w AND PTE_PS \<noteq> 0"
  defines "s' \<equiv> set_word d i w s"
  shows "boot_inv s' fl d" and "phys s' d = (phys s d)(i := w)"
    and "a < 1024 \<Longrightarrow> a \<noteq> 957 \<Longrightarrow> kpage (phys s') d a b =
      (if a = i then Some (PGADDR (PDX w) (of_nat b) 0 OR (w AND 0xFFF AND NOT PTE_PS)) else kpage (phys s) d a b)"
proof -
  note B = boot_invD [OF inv]
  show d: "phys s' d = (phys s d)(i := w)" by (simp add: s'_def set_word_def)
  have oth: "phys s' x = phys s x" if "x \<noteq> d" for x using that by (simp add: s'_def set_word_def)
  have pf: "pt_frame (phys s') (d, a) = pt_frame (phys s) (d, a)" if "a \<noteq> i" for a using that by (simp add: pt_frame_def d)
  have ks: "kslots (phys s') d = kslots (phys s) d - {i}" using w by (auto simp: kslots_def d)
  have "npages s' = npages s" "free_list_inv s' fl = free_list_inv s fl" by (simp_all add: s'_def set_word_def free_list_inv_def)
  moreover have "inj_on (\<lambda>i. pt_frame (phys s') (d, i)) (kslots (phys s) d - {i})"
    using B(9) pf by (simp add: inj_on_def)
  ultimately show "boot_inv s' fl d" unfolding boot_inv_def ks using B pf w d by auto
  show "kpage (phys s') d a b =
      (if a = i then Some (PGADDR (PDX w) (of_nat b) 0 OR (w AND 0xFFF AND NOT PTE_PS)) else kpage (phys s) d a b)" if a: "a < 1024" "a \<noteq> 957"
  proof (cases "a \<in> kslots (phys s) d - {i}")
    case True
    then have "pt_frame (phys s) (d, a) \<noteq> d" using B(8) by blast
    then show ?thesis using True oth unfolding kpage_def by (simp add: d pt_frame_def kslots_def Let_def)
  next
    case False
    then have "a = i \<or> phys s d a = 0 \<or> phys s d a AND PTE_PS \<noteq> 0" using a by (auto simp: kslots_def)
    then show ?thesis using w unfolding kpage_def by (auto simp: d Let_def)
  qed
qed

lemma boot_walk_table:
  assumes inv: "boot_inv s fl d" and i: "unat (PDX va) \<in> kslots (phys s) d"
  shows "pgdir_walk (frame_kva d) va c s = Some (Some (entry (frame_kva (pt_frame (phys s) (d, unat (PDX va)))) (PTX va)), s)"
    and "pt_frame (phys s) (d, unat (PDX va)) < 65536"
proof -
  let ?t = "pt_frame (phys s) (d, unat (PDX va))"
  note B = boot_invD [OF inv]
  have t: "?t < npages s" "?t < 65536" using B(6) [OF i] free_list_invD(1) [OF B(1)] by simp_all
  then show "?t < 65536" by simp
  have nz: "phys s d (unat (PDX va)) \<noteq> 0" using i by (simp add: kslots_def)
  show "pgdir_walk (frame_kva d) va c s = Some (Some (entry (frame_kva ?t) (PTX va)), s)"
    using nz t B(4) by (simp add: pgdir_walk_def PDX_less PTE_ADDR_frame pt_frame_def)
qed

text \<open>What a step of the mapping keeps: the invariant, the rest of the state, and the reference
  counts of the frames that were not free.\<close>

definition boot_step :: "nat \<Rightarrow> kern \<Rightarrow> nat list \<Rightarrow> kern \<Rightarrow> nat list \<Rightarrow> bool" where
  "boot_step d s fl s' fl' \<longleftrightarrow> boot_inv s' fl' d \<and> pm_frame s s' \<and> set fl' \<subseteq> set fl
     \<and> (\<forall>x. x \<notin> set fl \<longrightarrow> pp_ref (pages s' x) = pp_ref (pages s x))"

lemma boot_step_refl: "boot_inv s fl d \<Longrightarrow> boot_step d s fl s fl"
  by (simp add: boot_step_def)

lemma boot_step_trans: "boot_step d s fl s1 fl1 \<Longrightarrow> boot_step d s1 fl1 s2 fl2 \<Longrightarrow> boot_step d s fl s2 fl2"
  unfolding boot_step_def using pm_frame_trans by (metis subset_eq)

lemma boot_small:
  fixes va v :: u32
  assumes inv: "boot_inv s fl d" and i: "i = unat (PDX va)" "i \<noteq> 957" "phys s d i AND PTE_PS = 0"
    and room: "phys s d i \<noteq> 0 \<or> fl \<noteq> []" and v: "v AND PTE_P \<noteq> 0"
  obtains pte s1 s' where "pgdir_walk (frame_kva d) va True s = Some (Some pte, s1)" and "kwrite pte v s1 = s'"
    and "boot_step d s fl s' (if phys s d i = 0 then tl fl else fl)"
    and "phys s' d i \<noteq> 0" and "phys s' d i AND PTE_PS = 0" and "\<And>a. a \<noteq> i \<Longrightarrow> phys s' d a = phys s d a"
    and "\<And>a b. a < 1024 \<Longrightarrow> a \<noteq> 957 \<Longrightarrow>
      kpage (phys s') d a b = (if a = i \<and> b = unat (PTX va) then Some v else kpage (phys s) d a b)"
proof (cases "phys s d i = 0")
  case False
  have ik: "i \<in> kslots (phys s) d" using False i by (simp add: kslots_def PDX_less)
  note w = boot_walk_table [OF inv ik [unfolded i(1)], folded i(1)]
  let ?s' = "set_word (pt_frame (phys s) (d, i)) (unat (PTX va)) v s"
  note st = kpage_set_pte [OF inv ik v, where j = "unat (PTX va)"]
  have "boot_step d s fl ?s' fl" using st(1) by (auto simp: boot_step_def)
  then have step: "boot_step d s fl ?s' (if phys s d i = 0 then tl fl else fl)" using False by simp
  have e: "kwrite (entry (frame_kva (pt_frame (phys s) (d, i))) (PTX va)) v s = ?s'" using w(2) by (simp add: PTX_less)
  show ?thesis
    by (rule that [OF w(1) e step]) (use st(2,3) False i(3) in simp_all)
next
  case True
  then obtain t fl1 where fl: "fl = t # fl1" using room by (cases fl) auto
  note B = boot_invD [OF inv]
  have td: "d \<noteq> t" using B(3) fl by auto
  have t: "t < 65536" using free_list_invD(1,3) [OF B(1)] fl by fastforce
  let ?s1 = "with_table d i t s" let ?s' = "set_word t (unat (PTX va)) v ?s1"
  have walk: "pgdir_walk (frame_kva d) va True s = Some (Some (entry (frame_kva t) (PTX va)), ?s1)"
    using walk_create [OF B(1) [unfolded fl] B(4) _ td] True i(1) by simp
  have ii: "i < 1024" using i(1) by (simp add: PDX_less)
  note nt = boot_new_table [OF inv [unfolded fl] ii i(2) True]
  note st = kpage_set_pte [OF nt(1,2) v, where j = "unat (PTX va)", unfolded nt(3)]
  have e: "kwrite (entry (frame_kva t) (PTX va)) v ?s1 = ?s'" using t by (simp add: PTX_less)
  have "pm_frame s ?s'" using with_table_frame pm_frame_ops(1) pm_frame_trans by blast
  then have step: "boot_step d s fl ?s' (if phys s d i = 0 then tl fl else fl)"
    using st(1) True fl by (auto simp: boot_step_def with_table_ref)
  show ?thesis
  proof (rule that [OF walk e step])
    show "phys ?s' d i \<noteq> 0" "phys ?s' d i AND PTE_PS = 0" using nt(2) unfolding st(2) by (simp_all add: kslots_def)
    show "phys ?s' d a = phys s d a" if "a \<noteq> i" for a using that unfolding st(2) nt(4) by simp
    show "kpage (phys ?s') d a b = (if a = i \<and> b = unat (PTX va) then Some v else kpage (phys s) d a b)"
      if "a < 1024" "a \<noteq> 957" for a b using st(3) nt(5) that by simp
  qed
qed

section \<open>Page numbers\<close>

lemma frame_addr_add: "frame_addr (a + b) = frame_addr a + frame_addr b"
  by (simp add: frame_addr_def push_bit_add)

lemma frame_addr_1 [simp]: "frame_addr 1 = PGSIZE" "frame_addr 1024 = PTSIZE" "frame_addr 0 = 0"
  by (simp_all add: frame_addr_def PGSIZE_def PTSIZE_def)

lemma frame_addr_Suc: "frame_addr (Suc k) = frame_addr k + PGSIZE"
  using frame_addr_add [of k 1] frame_addr_1(1) by (simp only: Suc_eq_plus1)

lemma frame_addr_index:
  assumes "N < 1048576"
  shows "unat (PDX (frame_addr N)) = N div 1024" and "unat (PTX (frame_addr N)) = N mod 1024"
  using assms by (simp_all add: unat_PDX unat_PTX unat_frame_addr div_mult2_eq)

lemma frame_addr_less: "a < 1048576 \<Longrightarrow> b < 1048576 \<Longrightarrow> frame_addr a < frame_addr b \<longleftrightarrow> a < b"
  by (simp add: word_less_nat_alt unat_frame_addr)

lemma frame_addr_or_low:
  assumes "M mod 1024 = 0" and "b < 1024"
  shows "frame_addr (M + b) = frame_addr M OR frame_addr b"
proof -
  obtain c where "M = 1024 * c" using assms(1) by auto
  then have c: "M = push_bit 10 c" by (simp add: push_bit_eq_mult)
  have "take_bit 10 b = b" using assms(2) by (simp add: take_bit_nat_eq_self)
  then have bb: "bit b n \<Longrightarrow> n < 10" for n by (metis bit_take_bit_iff)
  have "M AND b = 0"
    by (rule bit_eqI) (use bb in \<open>fastforce simp: c bit_simps\<close>)
  then have "M + b = M OR b" by (rule disjunctive_add_eq_or)
  then show ?thesis by (simp add: frame_addr_def of_nat_or_eq push_bit_or)
qed

lemma bit_small:
  fixes x :: u32
  assumes "x < 4096" and "bit x n"
  shows "n < 12"
proof (rule ccontr)
  assume "\<not> n < 12"
  then have "bit (PGNUM x) (n - 12)" using assms(2) by (simp add: PGNUM_def bit_simps)
  then show False using assms(1) by (simp add: less_4096_iff)
qed

text \<open>A large page stands for 1024 small ones.\<close>

lemma large_entry:
  assumes M: "M mod 1024 = 0" and b: "b < 1024" and perm: "perm < 4096" "perm AND PTE_PS = 0"
  defines "w \<equiv> frame_addr M OR perm OR PTE_P OR PTE_PS"
  shows "PGADDR (PDX w) (of_nat b) 0 OR (w AND 0xFFF AND NOT PTE_PS) = frame_addr (M + b) OR perm OR PTE_P"
    and "w AND PTE_P \<noteq> 0" and "w AND PTE_PS \<noteq> 0"
proof -
  obtain c where "M = 1024 * c" using M by auto
  then have c: "M = push_bit 10 c" by (simp add: push_bit_eq_mult)
  have hi: "bit (frame_addr M) n \<Longrightarrow> 22 \<le> n" for n by (auto simp: bit_frame_addr c bit_simps)
  have pf: "bit perm n \<Longrightarrow> n < 12" "\<not> bit perm 7" for n
    using bit_small [OF perm(1)] perm(2) and_exp_eq_0_iff_not_bit [of perm 7] by (auto simp: PTE_PS_def)
  have "take_bit 10 b = b" using b by (simp add: take_bit_nat_eq_self)
  then have bb: "bit b n \<Longrightarrow> n < 10" for n by (metis bit_take_bit_iff)
  have P: "bit PTE_P n \<longleftrightarrow> n = 0" "bit PTE_PS n \<longleftrightarrow> n = 7" for n
    using bit_exp_iff [of 0 n, where 'a = u32] bit_exp_iff [of 7 n, where 'a = u32] by (auto simp: PTE_P_def PTE_PS_def)
  have mask: "bit (0xFFF :: u32) n \<longleftrightarrow> n < 12" for n
    using bit_mask_iff [of 12 n, where 'a = u32] by (auto simp: mask_eq_exp_minus_1)
  have ten: "bit (0x3FF :: u32) n \<longleftrightarrow> n < 10" for n
    using bit_mask_iff [of 10 n, where 'a = u32] by (auto simp: mask_eq_exp_minus_1)
  have pdx: "PDX w = drop_bit 22 w"
  proof (rule bit_word_eqI)
    fix n
    have "bit w (22 + n) \<Longrightarrow> n < 10" using bit_imp_le_length [of w "22 + n"] by simp
    then show "bit (PDX w) n = bit (drop_bit 22 w) n" by (auto simp only: PDX_def bit_and_iff bit_drop_bit_eq ten comp_def)
  qed
  have w: "bit w n \<longleftrightarrow> bit (frame_addr M) n \<or> bit perm n \<or> n = 0 \<or> n = 7" for n
    by (simp add: w_def bit_simps P)
  show "PGADDR (PDX w) (of_nat b) 0 OR (w AND 0xFFF AND NOT PTE_PS) = frame_addr (M + b) OR perm OR PTE_P"
  proof (rule bit_word_eqI)
    fix n assume n: "n < LENGTH(32)"
    have "bit (PGADDR (PDX w) (of_nat b) 0) n \<longleftrightarrow> bit (frame_addr M) n \<or> bit (frame_addr b) n"
      using n hi [of n] pf(1) [of n] hi [of "22 + (n - 22)"] pf(1) [of "22 + (n - 22)"]
      by (auto simp: PGADDR_def pdx bit_simps w frame_addr_def)
    moreover have "bit (w AND 0xFFF AND NOT PTE_PS) n \<longleftrightarrow> bit perm n \<or> n = 0"
      using n hi [of n] pf(1) [of n] pf(2) unfolding bit_and_iff bit_not_iff mask P w by auto
    ultimately show "bit (PGADDR (PDX w) (of_nat b) 0 OR (w AND 0xFFF AND NOT PTE_PS)) n = bit (frame_addr (M + b) OR perm OR PTE_P) n"
      unfolding frame_addr_or_low [OF M b] bit_or_iff P by blast
  qed
  show "w AND PTE_P \<noteq> 0" "w AND PTE_PS \<noteq> 0"
    using and_exp_eq_0_iff_not_bit [of w 0] and_exp_eq_0_iff_not_bit [of w 7] by (simp_all add: PTE_P_def PTE_PS_def w)
qed

section \<open>Mapping a region\<close>

definition region_slots :: "nat \<Rightarrow> nat \<Rightarrow> nat \<Rightarrow> nat set" where
  "region_slots A k n = (\<lambda>j. (A + j) div 1024) ` {k..<n}"

abbreviation kpn :: "kern \<Rightarrow> nat \<Rightarrow> nat \<Rightarrow> u32 option" where
  "kpn s d N \<equiv> kpage (phys s) d (N div 1024) (N mod 1024)"

text \<open>Page \<open>A + j\<close> is mapped to frame \<open>Q + j\<close> for \<open>k \<le> j < n\<close>; \<open>large\<close> says whether large pages are used.\<close>

definition region_mapped :: "bool \<Rightarrow> nat \<Rightarrow> nat \<Rightarrow> nat \<Rightarrow> nat \<Rightarrow> u32 \<Rightarrow> nat \<Rightarrow> kern \<Rightarrow> kern \<Rightarrow> bool" where
  "region_mapped large A k n Q perm d s s' \<longleftrightarrow>
     (\<forall>N<1048576. N div 1024 \<noteq> 957 \<longrightarrow> kpn s' d N =
        (if A + k \<le> N \<and> N < A + n then Some (frame_addr (Q + (N - A)) OR perm OR PTE_P) else kpn s d N))
     \<and> (\<forall>a. a \<notin> region_slots A k n \<longrightarrow> phys s' d a = phys s d a)
     \<and> (\<forall>a\<in>region_slots A k n. phys s' d a \<noteq> 0 \<and> (\<not> large \<longrightarrow> phys s' d a AND PTE_PS = 0)
          \<and> (large \<and> n mod 1024 = 0 \<longrightarrow> phys s' d a = frame_addr (Q + (a * 1024 - A)) OR perm OR PTE_P OR PTE_PS))"

lemma region_mappedD:
  assumes "region_mapped large A k n Q perm d s s'"
  shows "N < 1048576 \<Longrightarrow> N div 1024 \<noteq> 957 \<Longrightarrow> A + k \<le> N \<Longrightarrow> N < A + n \<Longrightarrow>
      kpn s' d N = Some (frame_addr (Q + (N - A)) OR perm OR PTE_P)"
    and "N < 1048576 \<Longrightarrow> N div 1024 \<noteq> 957 \<Longrightarrow> \<not> (A + k \<le> N \<and> N < A + n) \<Longrightarrow> kpn s' d N = kpn s d N"
    and "a \<notin> region_slots A k n \<Longrightarrow> phys s' d a = phys s d a"
    and "a \<in> region_slots A k n \<Longrightarrow> phys s' d a \<noteq> 0"
    and "a \<in> region_slots A k n \<Longrightarrow> \<not> large \<Longrightarrow> phys s' d a AND PTE_PS = 0"
    and "a \<in> region_slots A k n \<Longrightarrow> large \<Longrightarrow> n mod 1024 = 0 \<Longrightarrow>
      phys s' d a = frame_addr (Q + (a * 1024 - A)) OR perm OR PTE_P OR PTE_PS"
  using assms unfolding region_mapped_def by auto

definition new_tables :: "nat \<Rightarrow> nat \<Rightarrow> nat \<Rightarrow> nat \<Rightarrow> kern \<Rightarrow> nat set" where
  "new_tables d A k n s = {i \<in> region_slots A k n. phys s d i = 0}"

lemma finite_new_tables: "finite (new_tables d A k n s)"
  by (simp add: new_tables_def region_slots_def)

lemma frame_addr_aligned: "Q < 1048576 \<Longrightarrow> frame_addr Q mod PTSIZE = 0 \<longleftrightarrow> Q mod 1024 = 0"
proof -
  assume Q: "Q < 1048576"
  have "frame_addr Q mod PTSIZE = 0 \<longleftrightarrow> unat (frame_addr Q mod PTSIZE) = 0" by (simp only: unat_eq_0)
  also have "\<dots> \<longleftrightarrow> (Q * 4096) mod (1024 * 4096) = 0" using Q by (simp add: unat_mod unat_frame_addr PTSIZE_def)
  also have "\<dots> \<longleftrightarrow> Q mod 1024 = 0" unfolding mult_mod_left [symmetric] by simp
  finally show ?thesis .
qed

lemma region_slots_step: "k < n \<Longrightarrow> region_slots A k n = insert ((A + k) div 1024) (region_slots A (Suc k) n)"
proof -
  assume "k < n"
  then have "{k..<n} = insert k {Suc k..<n}" by auto
  then show ?thesis by (simp add: region_slots_def)
qed

text \<open>One iteration with a small page, given that the rest of the region gets mapped.\<close>

lemma region_step_small:
  assumes k: "k < n" and an: "A + n \<le> 1048576" and i: "i = (A + k) div 1024"
    and s1: "phys s1 d i \<noteq> 0" "phys s1 d i AND PTE_PS = 0" "\<And>a. a \<noteq> i \<Longrightarrow> phys s1 d a = phys s d a"
    and v: "v = frame_addr (Q + k) OR perm OR PTE_P"
    and pg: "\<And>a b. a < 1024 \<Longrightarrow> a \<noteq> 957 \<Longrightarrow>
      kpage (phys s1) d a b = (if a = i \<and> b = (A + k) mod 1024 then Some v else kpage (phys s) d a b)"
    and rest: "region_mapped False A (Suc k) n Q perm d s1 s'"
  shows "region_mapped False A k n Q perm d s s'"
proof -
  have one: "kpn s1 d N = (if N = A + k then Some v else kpn s d N)" if "N < 1048576" "N div 1024 \<noteq> 957" for N
  proof -
    have "N div 1024 = i \<and> N mod 1024 = (A + k) mod 1024 \<longleftrightarrow> N = A + k" unfolding i by (metis div_mult_mod_eq)
    then show ?thesis using pg [of "N div 1024" "N mod 1024"] that by (simp add: less_mult_imp_div_less)
  qed
  have "kpn s' d N = (if A + k \<le> N \<and> N < A + n then Some (frame_addr (Q + (N - A)) OR perm OR PTE_P) else kpn s d N)"
    if N: "N < 1048576" "N div 1024 \<noteq> 957" for N
    using rest one [OF N] N k v unfolding region_mapped_def by (cases "N = A + k") auto
  moreover have "phys s' d a = phys s d a" if "a \<notin> region_slots A k n" for a
    using rest s1(3) that i unfolding region_slots_step [OF k] region_mapped_def by auto
  moreover have "phys s' d a \<noteq> 0 \<and> phys s' d a AND PTE_PS = 0" if "a \<in> region_slots A k n" for a
    using rest s1(1,2) that i unfolding region_slots_step [OF k] region_mapped_def by (cases "a \<in> region_slots A (Suc k) n") auto
  ultimately show ?thesis unfolding region_mapped_def by blast
qed

lemma region_slots_large:
  assumes k: "k + 1024 \<le> n" and al: "(A + k) mod 1024 = 0"
  shows "region_slots A k n = insert ((A + k) div 1024) (region_slots A (k + 1024) n)"
    and "(A + k) div 1024 \<notin> region_slots A (k + 1024) n"
proof -
  have row: "(A + j) div 1024 = (A + k) div 1024" if "k \<le> j" "j < k + 1024" for j
  proof -
    have "A + j = (A + k) + (j - k)" using that(1) by simp
    also have "\<dots> div 1024 = (A + k) div 1024 + (j - k) div 1024" by (rule div_plus_div_distrib_dvd_left) (use al in auto)
    finally show ?thesis using that by simp
  qed
  have sp: "{k..<n} = {k..<k + 1024} \<union> {k + 1024..<n}" using k by auto
  have const: "f ` S = {c}" if "\<forall>j\<in>S. f j = c" "S \<noteq> {}" for f :: "nat \<Rightarrow> nat" and S c using that by force
  have "(\<lambda>j. (A + j) div 1024) ` {k..<k + 1024} = {(A + k) div 1024}"
  proof (rule const)
    show "\<forall>j\<in>{k..<k + 1024}. (A + j) div 1024 = (A + k) div 1024" using row by (meson atLeastLessThan_iff)
    show "{k..<k + 1024} \<noteq> {}" by (metis atLeastLessThan_empty_iff less_add_same_cancel1 zero_less_numeral)
  qed
  then show "region_slots A k n = insert ((A + k) div 1024) (region_slots A (k + 1024) n)"
    unfolding region_slots_def sp image_Un by simp
  have "(A + k) div 1024 + 1 \<le> (A + j) div 1024" if "k + 1024 \<le> j" for j
    using div_le_mono [of "A + k + 1024" "A + j" 1024] that by simp
  then show "(A + k) div 1024 \<notin> region_slots A (k + 1024) n" by (force simp: region_slots_def)
qed

lemma region_step_large:
  assumes k: "k + 1024 \<le> n" and an: "A + n \<le> 1048576" and al: "(A + k) mod 1024 = 0" "(Q + k) mod 1024 = 0"
    and i: "i = (A + k) div 1024" and perm: "perm < 4096" "perm AND PTE_PS = 0"
    and w: "w = frame_addr (Q + k) OR perm OR PTE_P OR PTE_PS" and d: "phys s1 d = (phys s d)(i := w)"
    and pg: "\<And>a b. a < 1024 \<Longrightarrow> a \<noteq> 957 \<Longrightarrow> kpage (phys s1) d a b =
      (if a = i then Some (PGADDR (PDX w) (of_nat b) 0 OR (w AND 0xFFF AND NOT PTE_PS)) else kpage (phys s) d a b)"
    and rest: "region_mapped True A (k + 1024) n Q perm d s1 s'"
  shows "region_mapped True A k n Q perm d s s'"
proof -
  note le = large_entry [OF al(2) _ perm, folded w]
  have row: "N div 1024 = i \<longleftrightarrow> A + k \<le> N \<and> N < A + k + 1024" for N
  proof -
    have "A + k = 1024 * i" using al(1) i by auto
    then show ?thesis by (auto simp: div_nat_eqI dividend_less_times_div)
  qed
  have val: "kpn s1 d N = (if N div 1024 = i then Some (frame_addr (Q + (N - A)) OR perm OR PTE_P) else kpn s d N)"
    if N: "N < 1048576" "N div 1024 \<noteq> 957" for N
  proof (cases "N div 1024 = i")
    case True
    then have m: "Q + k + N mod 1024 = Q + (N - A)" using row [of N] al(1) i minus_mod_eq_mult_div [of N 1024] by auto
    show ?thesis
      using pg [of "N div 1024" "N mod 1024"] N le(1) [of "N mod 1024"] True
      unfolding m [symmetric] by (simp add: less_mult_imp_div_less)
  next
    case False
    then show ?thesis using pg [of "N div 1024" "N mod 1024"] N by (simp add: less_mult_imp_div_less)
  qed
  note sl = region_slots_large [OF k al(1), folded i]
  have "kpn s' d N = (if A + k \<le> N \<and> N < A + n then Some (frame_addr (Q + (N - A)) OR perm OR PTE_P) else kpn s d N)"
    if N: "N < 1048576" "N div 1024 \<noteq> 957" for N
    using rest val [OF N] N k row [of N] unfolding region_mapped_def by auto
  moreover have "phys s' d a = phys s d a" if "a \<notin> region_slots A k n" for a
    using rest that d unfolding sl(1) region_mapped_def by auto
  moreover have "phys s' d a \<noteq> 0 \<and> (n mod 1024 = 0 \<longrightarrow> phys s' d a = frame_addr (Q + (a * 1024 - A)) OR perm OR PTE_P OR PTE_PS)"
    if "a \<in> region_slots A k n" for a
  proof (cases "a = i")
    case True
    have "w \<noteq> 0" using le(2) [of 0] by auto
    moreover have "i * 1024 - A = k" using al(1) i by auto
    moreover have "phys s' d i = w" using rest d sl(2) unfolding region_mapped_def by auto
    ultimately show ?thesis using w True by simp
  next
    case False
    then have "a \<in> region_slots A (k + 1024) n" using that unfolding sl(1) by blast
    then show ?thesis using region_mappedD(4,6) [OF rest] by simp
  qed
  ultimately show ?thesis unfolding region_mapped_def by (intro conjI allI impI ballI) simp_all
qed

text \<open>The loop from page \<open>k\<close> of the region on. Its slots must not hold large pages yet, and there must
  be a free page for every page table that is missing.\<close>

definition use_large :: "bool \<Rightarrow> nat \<Rightarrow> nat \<Rightarrow> nat \<Rightarrow> nat \<Rightarrow> bool" where
  "use_large pse A Q k n \<longleftrightarrow> pse \<and> Q mod 1024 = 0 \<and> A mod 1024 = 0 \<and> 1024 \<le> n - k"

lemma frame_addr_le: "a < 1048576 \<Longrightarrow> b < 1048576 \<Longrightarrow> frame_addr a \<le> frame_addr b \<longleftrightarrow> a \<le> b"
  by (simp add: word_le_nat_alt unat_frame_addr)

lemma loop_unfold:
  assumes k: "k < n" "A + n \<le> 1048576" "Q + n \<le> 1048576" "n < 1048576"
  shows "boot_map_loop pse pgdir (frame_addr A) (frame_addr n) (frame_addr Q) perm (frame_addr k) s =
    (if use_large pse A Q k n
     then boot_map_loop pse pgdir (frame_addr A) (frame_addr n) (frame_addr Q) perm (frame_addr (k + 1024))
            (kwrite (entry pgdir (PDX (frame_addr (A + k)))) (frame_addr (Q + k) OR perm OR PTE_P OR PTE_PS) s)
     else do { (r, s1) \<leftarrow> pgdir_walk pgdir (frame_addr (A + k)) True s;
               pte \<leftarrow> r;
               boot_map_loop pse pgdir (frame_addr A) (frame_addr n) (frame_addr Q) perm (frame_addr (Suc k))
                 (kwrite pte (frame_addr (Q + k) OR perm OR PTE_P) s1) })"
proof -
  have lt: "frame_addr k < frame_addr n" using k by (simp add: frame_addr_less)
  have "frame_addr n = frame_addr (n - k) + frame_addr k" using k(1) by (simp flip: frame_addr_add)
  then have "frame_addr n - frame_addr k = frame_addr (n - k)" by simp
  then have sz: "PTSIZE \<le> frame_addr n - frame_addr k \<longleftrightarrow> 1024 \<le> n - k"
    using frame_addr_le [of 1024 "n - k"] k(4) by simp
  have al: "frame_addr Q mod PTSIZE = 0 \<longleftrightarrow> Q mod 1024 = 0" "frame_addr A mod PTSIZE = 0 \<longleftrightarrow> A mod 1024 = 0"
    using k by (auto intro!: frame_addr_aligned)
  show ?thesis
    unfolding use_large_def
    by (subst boot_map_loop.simps) (simp add: lt sz al frame_addr_add frame_addr_Suc)
qed

lemma entry_present: "(x OR perm OR PTE_P) AND PTE_P \<noteq> 0"
  using and_exp_eq_0_iff_not_bit [of "x OR perm OR PTE_P" 0] by (simp add: PTE_P_def bit_simps)

lemma new_tables_less:
  assumes i: "i \<in> region_slots A k n" and sub: "region_slots A k' n \<subseteq> region_slots A k n"
    and s1: "phys s1 d i \<noteq> 0" "\<And>a. a \<noteq> i \<Longrightarrow> phys s1 d a = phys s d a"
  shows "card (new_tables d A k' n s1) + (if phys s d i = 0 then 1 else 0) \<le> card (new_tables d A k n s)"
proof -
  have "new_tables d A k' n s1 \<subseteq> new_tables d A k n s - {i}"
  proof
    fix a assume a: "a \<in> new_tables d A k' n s1"
    then have "a \<noteq> i" using s1(1) by (auto simp: new_tables_def)
    then show "a \<in> new_tables d A k n s - {i}" using a sub s1(2) by (auto simp: new_tables_def)
  qed
  then have "card (new_tables d A k' n s1) \<le> card (new_tables d A k n s - {i})"
    by (intro card_mono) (simp_all add: finite_new_tables)
  moreover have "i \<in> new_tables d A k n s" if "phys s d i = 0" using that i by (simp add: new_tables_def)
  ultimately show ?thesis
    using card_Suc_Diff1 [OF finite_new_tables, of i d A k n s] card_mono [OF finite_new_tables, of "new_tables d A k n s - {i}" d A k n s]
    by auto
qed

text \<open>What the loop promises from page \<open>k\<close> on.\<close>

definition loop_ok :: "bool \<Rightarrow> nat \<Rightarrow> nat \<Rightarrow> nat \<Rightarrow> u32 \<Rightarrow> nat \<Rightarrow> nat \<Rightarrow> kern \<Rightarrow> nat list \<Rightarrow> bool" where
  "loop_ok pse A n Q perm d k s fl \<longleftrightarrow>
     (\<exists>s' c. boot_map_loop pse (frame_kva d) (frame_addr A) (frame_addr n) (frame_addr Q) perm (frame_addr k) s = Some s'
        \<and> c \<le> card (new_tables d A k n s) \<and> boot_step d s fl s' (drop c fl)
        \<and> region_mapped (use_large pse A Q k n) A k n Q perm d s s')"

definition loop_pre :: "bool \<Rightarrow> nat \<Rightarrow> nat \<Rightarrow> nat \<Rightarrow> nat \<Rightarrow> nat \<Rightarrow> kern \<Rightarrow> nat list \<Rightarrow> bool" where
  "loop_pre pse A n Q d k s fl \<longleftrightarrow> boot_inv s fl d \<and> (\<forall>a\<in>region_slots A k n. a \<noteq> 957 \<and> phys s d a AND PTE_PS = 0)
     \<and> card (new_tables d A k n s) \<le> length fl \<and> (use_large pse A Q k n \<longrightarrow> k mod 1024 = 0)"

lemma loop_small:
  assumes pre: "loop_pre pse A n Q d k s fl" and k: "k < n" and an: "A + n \<le> 1048576" "Q + n \<le> 1048576" "n < 1048576"
    and nl: "\<not> use_large pse A Q k n"
    and IH: "\<And>s fl. loop_pre pse A n Q d (Suc k) s fl \<Longrightarrow> loop_ok pse A n Q perm d (Suc k) s fl"
  shows "loop_ok pse A n Q perm d k s fl"
proof -
  let ?i = "(A + k) div 1024" let ?v = "frame_addr (Q + k) OR perm OR PTE_P"
  have inv: "boot_inv s fl d" and sl: "\<And>a. a \<in> region_slots A k n \<Longrightarrow> a \<noteq> 957 \<and> phys s d a AND PTE_PS = 0"
    and room: "card (new_tables d A k n s) \<le> length fl" using pre by (auto simp: loop_pre_def)
  have N: "A + k < 1048576" using k an by simp
  note idx = frame_addr_index [OF N]
  have i: "?i \<in> region_slots A k n" using region_slots_step [OF k] by simp
  have room1: "phys s d ?i \<noteq> 0 \<or> fl \<noteq> []"
    using room i finite_new_tables [of d A k n s] card_gt_0_iff [of "new_tables d A k n s"] by (auto simp: new_tables_def)
  obtain pte s1 s2 where s2: "pgdir_walk (frame_kva d) (frame_addr (A + k)) True s = Some (Some pte, s1)" "kwrite pte ?v s1 = s2"
    "boot_step d s fl s2 (if phys s d ?i = 0 then tl fl else fl)"
    "phys s2 d ?i \<noteq> 0" "phys s2 d ?i AND PTE_PS = 0" "\<And>a. a \<noteq> ?i \<Longrightarrow> phys s2 d a = phys s d a"
    "\<And>a b. a < 1024 \<Longrightarrow> a \<noteq> 957 \<Longrightarrow>
       kpage (phys s2) d a b = (if a = ?i \<and> b = (A + k) mod 1024 then Some ?v else kpage (phys s) d a b)"
    by (rule boot_small [OF inv idx(1) [symmetric] _ _ room1 entry_present [of "frame_addr (Q + k)" perm], unfolded idx(2)])
      (use sl [OF i] in auto)
  let ?fl = "if phys s d ?i = 0 then tl fl else fl"
  have sub: "region_slots A (Suc k) n \<subseteq> region_slots A k n" using region_slots_step [OF k] by blast
  note nt = new_tables_less [OF i sub s2(4,6)]
  have nl': "\<not> use_large pse A Q (Suc k) n" using nl by (auto simp: use_large_def)
  have "a \<noteq> 957 \<and> phys s2 d a AND PTE_PS = 0" if "a \<in> region_slots A (Suc k) n" for a
    using sl [of a] that sub s2(5,6) by (cases "a = ?i") auto
  then have "loop_pre pse A n Q d (Suc k) s2 ?fl"
    unfolding loop_pre_def using s2(3) nt room nl' by (auto simp: boot_step_def)
  from IH [OF this] obtain s' c where s': "boot_map_loop pse (frame_kva d) (frame_addr A) (frame_addr n) (frame_addr Q) perm (frame_addr (Suc k)) s2 = Some s'"
    "c \<le> card (new_tables d A (Suc k) n s2)" "boot_step d s2 ?fl s' (drop c ?fl)"
    "region_mapped False A (Suc k) n Q perm d s2 s'" using nl' unfolding loop_ok_def by auto
  have "region_mapped False A k n Q perm d s s'"
    by (rule region_step_small [OF k an(1) refl s2(4-6) refl s2(7) s'(4)])
  then have "region_mapped (use_large pse A Q k n) A k n Q perm d s s'" using nl by simp
  moreover have "boot_step d s fl s' (drop (c + (if phys s d ?i = 0 then 1 else 0)) fl)"
    using boot_step_trans [OF s2(3) s'(3)] by (cases fl) (auto simp: drop_Suc)
  moreover have "c + (if phys s d ?i = 0 then 1 else 0) \<le> card (new_tables d A k n s)" using s'(2) nt by simp
  ultimately show ?thesis unfolding loop_ok_def using loop_unfold [OF k an] nl s2(1,2) s'(1) by auto
qed

lemma loop_large:
  assumes pre: "loop_pre pse A n Q d k s fl" and an: "A + n \<le> 1048576" "Q + n \<le> 1048576" "n < 1048576"
    and perm: "perm < 4096" "perm AND PTE_PS = 0" and lg: "use_large pse A Q k n"
    and IH: "\<And>s fl. loop_pre pse A n Q d (k + 1024) s fl \<Longrightarrow> loop_ok pse A n Q perm d (k + 1024) s fl"
  shows "loop_ok pse A n Q perm d k s fl"
proof -
  let ?i = "(A + k) div 1024" let ?w = "frame_addr (Q + k) OR perm OR PTE_P OR PTE_PS"
  have inv: "boot_inv s fl d" and sl: "\<And>a. a \<in> region_slots A k n \<Longrightarrow> a \<noteq> 957 \<and> phys s d a AND PTE_PS = 0"
    and room: "card (new_tables d A k n s) \<le> length fl" using pre by (auto simp: loop_pre_def)
  have al: "Q mod 1024 = 0" "A mod 1024 = 0" "k + 1024 \<le> n" "k mod 1024 = 0" and k: "k < n"
    using pre lg by (auto simp: use_large_def loop_pre_def)
  have ak: "(A + k) mod 1024 = 0" "(Q + k) mod 1024 = 0" using al(1,2,4) by (simp_all add: mod_add_eq [symmetric])
  have N: "A + k < 1048576" using k an by simp
  have i: "?i \<in> region_slots A k n" using region_slots_step [OF k] by simp
  have i': "?i < 1024" "?i \<noteq> 957" using N sl [OF i] by (simp_all add: less_mult_imp_div_less)
  have zero: "(0 :: nat) < 1024" by simp
  note le = large_entry [OF ak(2) zero perm]
  let ?s1 = "set_word d ?i ?w s"
  note bl = boot_large [OF inv i' le(2,3)] and rs = region_slots_large [OF al(3) ak(1)]
  have wr: "kwrite (entry (frame_kva d) (PDX (frame_addr (A + k)))) ?w s = ?s1"
    using boot_invD(4) [OF inv] frame_addr_index(1) [OF N] i'(1) by simp
  have step: "boot_step d s fl ?s1 fl" using bl(1) by (auto simp: boot_step_def)
  have "?w \<noteq> 0" using le(2) by auto
  then have d1: "phys ?s1 d ?i \<noteq> 0" "\<And>a. a \<noteq> ?i \<Longrightarrow> phys ?s1 d a = phys s d a" using bl(2) by auto
  have sub: "region_slots A (k + 1024) n \<subseteq> region_slots A k n" unfolding rs(1) by (rule subset_insertI)
  have nt: "card (new_tables d A (k + 1024) n ?s1) \<le> card (new_tables d A k n s)"
    using new_tables_less [OF i sub d1] by linarith
  have "a \<noteq> 957 \<and> phys ?s1 d a AND PTE_PS = 0" if "a \<in> region_slots A (k + 1024) n" for a
    using sl [of a] that sub rs(2) d1(2) [of a] by (metis subsetD)
  then have "loop_pre pse A n Q d (k + 1024) ?s1 fl"
    unfolding loop_pre_def using bl(1) nt room al(4) by auto
  from IH [OF this] obtain s' c where s': "boot_map_loop pse (frame_kva d) (frame_addr A) (frame_addr n) (frame_addr Q) perm (frame_addr (k + 1024)) ?s1 = Some s'"
    "c \<le> card (new_tables d A (k + 1024) n ?s1)" "boot_step d ?s1 fl s' (drop c fl)"
    "region_mapped (use_large pse A Q (k + 1024) n) A (k + 1024) n Q perm d ?s1 s'" unfolding loop_ok_def by blast
  have "use_large pse A Q (k + 1024) n \<or> n mod 1024 \<noteq> 0 \<or> region_slots A (k + 1024) n = {}"
  proof (cases "k + 1024 < n \<and> n mod 1024 = 0")
    case True
    then have "(n - (k + 1024)) mod 1024 = 0" "0 < n - (k + 1024)" using al(4) by (auto simp: mod_eq_0_iff_dvd)
    then have "1024 \<le> n - (k + 1024)" by (metis dvd_imp_le mod_eq_0_iff_dvd)
    then show ?thesis using lg by (simp add: use_large_def)
  qed (use al(3) in \<open>auto simp: region_slots_def\<close>)
  then have "region_mapped True A (k + 1024) n Q perm d ?s1 s'" using s'(4) by (auto simp: region_mapped_def)
  from region_step_large [OF al(3) an(1) ak refl perm refl bl(2,3) this]
  have "region_mapped (use_large pse A Q k n) A k n Q perm d s s'" using lg by simp
  moreover have "c \<le> card (new_tables d A k n s)" using s'(2) nt by simp
  ultimately show ?thesis
    unfolding loop_ok_def using loop_unfold [OF k an] lg wr s'(1) boot_step_trans [OF step s'(3)] by auto
qed

lemma boot_map_loop_ok:
  assumes an: "A + n \<le> 1048576" "Q + n \<le> 1048576" "n < 1048576" and perm: "perm < 4096" "perm AND PTE_PS = 0"
  shows "loop_pre pse A n Q d k s fl \<Longrightarrow> k \<le> n \<Longrightarrow> loop_ok pse A n Q perm d k s fl"
proof (induction "n - k" arbitrary: k s fl rule: less_induct)
  case less
  show ?case
  proof (cases "k = n")
    case True
    have "boot_map_loop pse (frame_kva d) (frame_addr A) (frame_addr n) (frame_addr Q) perm (frame_addr k) s = Some s"
      using True by (subst boot_map_loop.simps) simp
    then show ?thesis using boot_step_refl [of s fl d] True less.prems(1)
      unfolding loop_ok_def by (intro exI [of _ s] exI [of _ 0]) (auto simp: region_mapped_def region_slots_def loop_pre_def)
  next
    case False
    then have k: "k < n" using less.prems(2) by simp
    show ?thesis
    proof (cases "use_large pse A Q k n")
      case True
      then show ?thesis
        using k by (intro loop_large [OF less.prems(1) an perm True] less.hyps) (auto simp: use_large_def)
    next
      case False
      show ?thesis using k by (intro loop_small [OF less.prems(1) k an False] less.hyps) auto
    qed
  qed
qed

text \<open>\<open>boot_map_region\<close> maps exactly the pages of the region.\<close>

lemma boot_map_region_spec:
  assumes inv: "boot_inv s fl d" and an: "A + n \<le> 1048576" "Q + n \<le> 1048576" "n < 1048576"
    and perm: "perm < 4096" "perm AND PTE_PS = 0"
    and sl: "\<And>a. a \<in> region_slots A 0 n \<Longrightarrow> a \<noteq> 957 \<and> phys s d a AND PTE_PS = 0"
    and room: "card (new_tables d A 0 n s) \<le> length fl"
  shows "\<exists>s' c. boot_map_region pse (frame_kva d) (frame_addr A) (frame_addr n) (frame_addr Q) perm s = Some s'
    \<and> c \<le> card (new_tables d A 0 n s) \<and> boot_step d s fl s' (drop c fl)
    \<and> region_mapped (use_large pse A Q 0 n) A 0 n Q perm d s s'"
proof -
  have "loop_pre pse A n Q d 0 s fl" unfolding loop_pre_def using assms by simp
  from boot_map_loop_ok [OF an perm this] show ?thesis unfolding loop_ok_def boot_map_region_def by simp
qed

end
