(* ===== verification/Mem_Init.thy ===== *)
theory Mem_Init
  imports Boot_Map
begin

text \<open>
  \<open>mem_init\<close> and \<open>mem_init_mp\<close> of \<open>kern/pmap.c\<close>: the data structures that \<open>boot_alloc\<close> makes room for,
  the mappings of the kernel, and the self test \<open>check_kern_pgdir\<close>. The addresses of the stacks come
  from the linker and are parameters. The self tests that \<open>mem_init\<close> runs between its two parts
  are not part of the two definitions; one of them, \<open>check_page\<close>, leaves a page table for
  \<open>MMIOBASE\<close> behind.
\<close>

section \<open>Operations\<close>

definition sizeof_PageInfo :: u32 where "sizeof_PageInfo = 8"
definition sizeof_Env :: u32 where "sizeof_Env = 124"
definition NCPU :: nat where "NCPU = 8"

text \<open>Up to \<open>page_init\<close>; the result holds the addresses of \<open>pages\<close> and \<open>envs\<close>.\<close>

definition mem_init_alloc :: "(u32 \<Rightarrow> u32) \<Rightarrow> kern \<Rightarrow> ((u32 \<times> u32) \<times> kern) option" where
  "mem_init_alloc cmos s =
     do { let s = i386_detect_memory cmos s;
          (pgdir, s) \<leftarrow> boot_alloc PGSIZE s;
          let s = clear_page pgdir (s\<lparr>kern_pgdir := pgdir\<rparr>);
          pa \<leftarrow> PADDR pgdir;
          let s = kwrite (entry pgdir (PDX UVPT)) (pa OR PTE_U OR PTE_P) s;
          (pages_va, s) \<leftarrow> boot_alloc (of_nat (npages s) * sizeof_PageInfo) s;
          let s = s\<lparr>pages := (\<lambda>i. if i < npages s then \<lparr>pp_link = None, pp_ref = 0\<rparr> else pages s i)\<rparr>;
          (envs_va, s) \<leftarrow> boot_alloc (of_nat NENV * sizeof_Env) s;
          let s = s\<lparr>envs := (\<lambda>e. if e < NENV then zero_env else envs s e)\<rparr>;
          s \<leftarrow> page_init s;
          Some ((pages_va, envs_va), s) }"

primrec mem_init_mp :: "bool \<Rightarrow> (nat \<Rightarrow> u32) \<Rightarrow> nat list \<Rightarrow> kern \<Rightarrow> kern option" where
  "mem_init_mp pse percpu_kstacks [] s = Some s"
| "mem_init_mp pse percpu_kstacks (i # is) s =
     do { let kstacktop_i = KSTACKTOP - of_nat i * (KSTKSIZE + KSTKGAP);
          pa \<leftarrow> PADDR (percpu_kstacks i);
          s \<leftarrow> boot_map_region pse (kern_pgdir s) (kstacktop_i - KSTKSIZE) KSTKSIZE pa PTE_W s;
          mem_init_mp pse percpu_kstacks is s }"

text \<open>The mappings, from \<open>UPAGES\<close> on.\<close>

definition mem_init_map :: "bool \<Rightarrow> u32 \<Rightarrow> u32 \<Rightarrow> u32 \<Rightarrow> (nat \<Rightarrow> u32) \<Rightarrow> kern \<Rightarrow> kern option" where
  "mem_init_map pse pages_va envs_va bootstack percpu_kstacks s =
     do { let size_pages = ROUNDUP (of_nat (npages s) * sizeof_PageInfo) PGSIZE;
          pa \<leftarrow> PADDR pages_va;
          s \<leftarrow> boot_map_region pse (kern_pgdir s) UPAGES size_pages pa PTE_U s;
          let size_envs = ROUNDUP (of_nat NENV * sizeof_Env) PGSIZE;
          pa \<leftarrow> PADDR envs_va;
          s \<leftarrow> boot_map_region pse (kern_pgdir s) UENVS size_envs pa PTE_U s;
          pa \<leftarrow> PADDR bootstack;
          s \<leftarrow> boot_map_region pse (kern_pgdir s) (KSTACKTOP - KSTKSIZE) KSTKSIZE pa PTE_W s;
          s \<leftarrow> boot_map_region pse (kern_pgdir s) KERNBASE (0xFFFFFFFF - KERNBASE + 1) 0 PTE_W s;
          mem_init_mp pse percpu_kstacks [0..<NCPU] s }"

section \<open>Regions as page numbers\<close>

lemma region_addrs:
  "UPAGES = frame_addr 978944" "UENVS = frame_addr 977920" "KSTACKTOP - KSTKSIZE = frame_addr 983032"
  "KERNBASE = frame_addr 983040" "KSTKSIZE = frame_addr 8" "0xFFFFFFFF - KERNBASE + 1 = frame_addr 65536"
  by (simp_all add: layout_values layout_defs frame_addr_def)

lemma size_envs: "ROUNDUP (of_nat NENV * sizeof_Env) PGSIZE = frame_addr 31"
  by (simp add: ROUNDUP_def ROUNDDOWN_def NENV_def sizeof_Env_def PGSIZE_def frame_addr_def)

definition size_pages :: "nat \<Rightarrow> nat" where
  "size_pages n = (n * 8 + 4095) div 4096"

lemma size_pages_eq:
  assumes "n \<le> 65536"
  shows "ROUNDUP (of_nat n * sizeof_PageInfo) PGSIZE = frame_addr (size_pages n)" and "size_pages n \<le> 128"
proof -
  show l: "size_pages n \<le> 128" using div_le_mono [of "n * 8 + 4095" "65536 * 8 + 4095" 4096] assms by (simp add: size_pages_def)
  have u: "unat (of_nat n * sizeof_PageInfo :: u32) = n * 8"
    using assms by (simp add: sizeof_PageInfo_def unat_word_ariths unat_of_nat)
  have "unat (ROUNDUP (of_nat n * sizeof_PageInfo) PGSIZE) = size_pages n * 4096"
    using assms u by (simp add: unat_ROUNDUP size_pages_def)
  then show "ROUNDUP (of_nat n * sizeof_PageInfo) PGSIZE = frame_addr (size_pages n)"
    using l by (simp add: word_unat_eq_iff unat_frame_addr)
qed

lemma stack_addr:
  assumes "i < 8"
  shows "KSTACKTOP - of_nat i * (KSTKSIZE + KSTKGAP) - KSTKSIZE = frame_addr (983032 - 16 * i)"
proof -
  have "i \<in> {0, 1, 2, 3, 4, 5, 6, 7}" using assms by auto
  then show ?thesis by (auto simp: layout_values layout_defs frame_addr_def)
qed

lemma region_one_slot:
  assumes "A mod 1024 + n \<le> 1024"
  shows "region_slots A 0 n \<subseteq> {A div 1024}"
proof -
  have "(A + j) div 1024 = A div 1024" if "j < n" for j
  proof -
    have "A + j = A div 1024 * 1024 + (A mod 1024 + j)" by simp
    also have "\<dots> div 1024 = A div 1024" using assms that by (subst div_mult_self3) simp_all
    finally show ?thesis .
  qed
  then show ?thesis by (auto simp: region_slots_def)
qed

lemma region_slot_in: "0 < n \<Longrightarrow> A div 1024 \<in> region_slots A 0 n"
  unfolding region_slots_def by (intro image_eqI [of _ _ 0]) simp_all

text \<open>A region inside one slot.\<close>

lemma map_one_slot:
  assumes inv: "boot_inv s fl d" and n: "A mod 1024 + n \<le> 1024" "n < 1024" and an: "A + n \<le> 1048576" "Q + n \<le> 1048576"
    and perm: "perm < 4096" "perm AND PTE_PS = 0" and slot: "A div 1024 \<noteq> 957" "phys s d (A div 1024) AND PTE_PS = 0"
    and room: "phys s d (A div 1024) \<noteq> 0 \<or> fl \<noteq> []"
  obtains s' c where "boot_map_region pse (frame_kva d) (frame_addr A) (frame_addr n) (frame_addr Q) perm s = Some s'"
    and "boot_step d s fl s' (drop c fl)" and "c \<le> (if phys s d (A div 1024) = 0 then 1 else 0)"
    and "region_mapped False A 0 n Q perm d s s'"
proof -
  note one = region_one_slot [OF n(1)]
  have "new_tables d A 0 n s \<subseteq> (if phys s d (A div 1024) = 0 then {A div 1024} else {})"
    using one by (auto simp: new_tables_def)
  then have c: "card (new_tables d A 0 n s) \<le> (if phys s d (A div 1024) = 0 then 1 else 0)"
    by (cases "phys s d (A div 1024) = 0") (auto dest: card_mono [rotated])
  have "\<exists>s' c. boot_map_region pse (frame_kva d) (frame_addr A) (frame_addr n) (frame_addr Q) perm s = Some s'
    \<and> c \<le> card (new_tables d A 0 n s) \<and> boot_step d s fl s' (drop c fl)
    \<and> region_mapped (use_large pse A Q 0 n) A 0 n Q perm d s s'"
  proof (rule boot_map_region_spec [OF inv an _ perm])
    show "n < 1048576" using n by simp
    show "a \<noteq> 957 \<and> phys s d a AND PTE_PS = 0" if "a \<in> region_slots A 0 n" for a using one slot that by auto
    show "card (new_tables d A 0 n s) \<le> length fl" using c room by (cases fl) (auto split: if_splits)
  qed
  moreover have "\<not> use_large pse A Q 0 n" using n(2) by (simp add: use_large_def)
  ultimately obtain s' c' where "boot_map_region pse (frame_kva d) (frame_addr A) (frame_addr n) (frame_addr Q) perm s = Some s'"
    "c' \<le> card (new_tables d A 0 n s)" "boot_step d s fl s' (drop c' fl)" "region_mapped False A 0 n Q perm d s s'" by auto
  then show thesis using c by (intro that [of s' c']) auto
qed

text \<open>The stacks of the CPUs: page \<open>N\<close> with \<open>982912 \<le> N < 983040\<close> and \<open>N mod 16 \<ge> 8\<close> belongs to the stack of
  CPU \<open>(983039 - N) div 16\<close>.\<close>

definition stack_page :: "(nat \<Rightarrow> nat) \<Rightarrow> nat \<Rightarrow> u32" where
  "stack_page K N = frame_addr (K ((983039 - N) div 16) + (N mod 16 - 8)) OR PTE_W OR PTE_P"

definition in_stack :: "nat set \<Rightarrow> nat \<Rightarrow> bool" where
  "in_stack I N \<longleftrightarrow> 982912 \<le> N \<and> N < 983040 \<and> 8 \<le> N mod 16 \<and> (983039 - N) div 16 \<in> I"

lemma stack_region:
  assumes i: "i < 8"
  shows "983032 - 16 * i \<le> N \<and> N < 983032 - 16 * i + 8 \<longleftrightarrow> in_stack {i} N"
    and "in_stack {i} N \<Longrightarrow> N - (983032 - 16 * i) = N mod 16 - 8"
proof -
  define q r where "q = N div 16" and "r = N mod 16"
  have N: "N = 16 * q + r" "r < 16" by (simp_all add: q_def r_def)
  have idx: "(983039 - N) div 16 = 61439 - q" if "q \<le> 61439"
  proof -
    have "983039 - N = (15 - r) + (61439 - q) * 16" using that N by simp
    then show ?thesis unfolding div_mult_self1 using N(2) by simp
  qed
  have st: "in_stack {i} N \<longleftrightarrow> 982912 \<le> 16 * q + r \<and> q \<le> 61439 \<and> 8 \<le> r \<and> 61439 - q = i"
    using N idx unfolding in_stack_def r_def [symmetric] by auto
  show "983032 - 16 * i \<le> N \<and> N < 983032 - 16 * i + 8 \<longleftrightarrow> in_stack {i} N"
    unfolding st
  proof
    assume l: "983032 - 16 * i \<le> N \<and> N < 983032 - 16 * i + 8"
    then have "983032 \<le> 16 * (q + i) + r" "16 * (q + i) + r < 983040" using N(1) i by auto
    moreover from this have "q + i = 61439" using N(2) by presburger
    ultimately show "982912 \<le> 16 * q + r \<and> q \<le> 61439 \<and> 8 \<le> r \<and> 61439 - q = i" using i by auto
  qed (use N i in auto)
  show "N - (983032 - 16 * i) = N mod 16 - 8" if "in_stack {i} N"
  proof -
    have "q = 61439 - i" "8 \<le> r" using that i unfolding st by linarith+
    then show ?thesis using i N(1) unfolding r_def [symmetric] by simp
  qed
qed

lemma mem_init_mp_spec:
  assumes K: "\<And>i. i < 8 \<Longrightarrow> percpu_kstacks i = frame_kva (K i) \<and> K i + 8 \<le> 65536"
  shows "boot_inv s fl d \<Longrightarrow> kern_pgdir s = frame_kva d \<Longrightarrow> phys s d 959 \<noteq> 0 \<Longrightarrow> phys s d 959 AND PTE_PS = 0 \<Longrightarrow> set is \<subseteq> {..<8} \<Longrightarrow>
    \<exists>s'. mem_init_mp pse percpu_kstacks is s = Some s' \<and> boot_step d s fl s' fl \<and> (\<forall>a. a \<noteq> 959 \<longrightarrow> phys s' d a = phys s d a)
      \<and> phys s' d 959 \<noteq> 0 \<and> phys s' d 959 AND PTE_PS = 0
      \<and> (\<forall>N<1048576. N div 1024 \<noteq> 957 \<longrightarrow> kpn s' d N = (if in_stack (set is) N then Some (stack_page K N) else kpn s d N))"
proof (induction "is" arbitrary: s)
  case Nil
  then show ?case using boot_step_refl by (simp add: in_stack_def)
next
  case (Cons i "is")
  then have i: "i < 8" by simp
  let ?A = "983032 - 16 * i"
  have e: "?A = 1016 - 16 * i + 959 * 1024" using i by linarith
  have "?A mod 1024 = 1016 - 16 * i" unfolding e mod_mult_self1 using i by simp
  then have A: "?A mod 1024 + 8 \<le> 1024" by simp
  have A2: "?A div 1024 = 959" unfolding e by (subst div_mult_self1) (use i in simp_all)
  have perm: "PTE_W < 4096" "PTE_W AND PTE_PS = 0" by (simp_all add: PTE_W_def PTE_PS_def)
  have bd: "?A + 8 \<le> 1048576" "K i + 8 \<le> 1048576" using K [OF i] by simp_all
  obtain s1 c where s1: "boot_map_region pse (frame_kva d) (frame_addr ?A) (frame_addr 8) (frame_addr (K i)) PTE_W s = Some s1"
    "boot_step d s fl s1 (drop c fl)" "c \<le> (if phys s d (?A div 1024) = 0 then 1 else 0)" and rm: "region_mapped False ?A 0 8 (K i) PTE_W d s s1"
    by (rule map_one_slot [OF Cons.prems(1) A _ bd perm]) (use Cons.prems(3,4) in \<open>simp_all add: A2\<close>)
  have c: "c = 0" using s1(3) Cons.prems(3) unfolding A2 by simp
  note R = region_mappedD [OF rm]
  have sl: "region_slots ?A 0 8 \<subseteq> {959}" using region_one_slot [OF A] A2 by simp
  have one: "kpn s1 d N = (if in_stack {i} N then Some (stack_page K N) else kpn s d N)" if N: "N < 1048576" "N div 1024 \<noteq> 957" for N
  proof (cases "in_stack {i} N")
    case True
    then have "kpn s1 d N = Some (frame_addr (K i + (N - ?A)) OR PTE_W OR PTE_P)" using R(1) [OF N] stack_region(1) [OF i, of N] by simp
    moreover have "(983039 - N) div 16 = i" using True by (simp add: in_stack_def)
    ultimately show ?thesis using True stack_region(2) [OF i True] by (simp add: stack_page_def)
  next
    case False
    then show ?thesis using R(2) [OF N] stack_region(1) [OF i, of N] by simp
  qed
  have in8: "959 \<in> region_slots ?A 0 8" using region_slot_in [of 8 ?A] A2 by simp
  have d1: "phys s1 d 959 \<noteq> 0" "phys s1 d 959 AND PTE_PS = 0" using R(4,5) in8 by simp_all
  have d2: "phys s1 d a = phys s d a" if "a \<noteq> 959" for a using R(3) sl that by blast
  have b1: "boot_inv s1 fl d" "kern_pgdir s1 = frame_kva d"
    using s1(2) c Cons.prems(2) pm_frameD(6) by (auto simp: boot_step_def)
  obtain s' where s': "mem_init_mp pse percpu_kstacks is s1 = Some s'" "boot_step d s1 fl s' fl" "\<forall>a. a \<noteq> 959 \<longrightarrow> phys s' d a = phys s1 d a"
    "phys s' d 959 \<noteq> 0" "phys s' d 959 AND PTE_PS = 0"
    "\<forall>N<1048576. N div 1024 \<noteq> 957 \<longrightarrow> kpn s' d N = (if in_stack (set is) N then Some (stack_page K N) else kpn s1 d N)"
    using Cons.IH [OF b1 d1] Cons.prems(5) by auto
  have "kpn s' d N = (if in_stack (set (i # is)) N then Some (stack_page K N) else kpn s d N)" if "N < 1048576" "N div 1024 \<noteq> 957" for N
    using s'(6) one that by (auto simp: in_stack_def)
  moreover have "mem_init_mp pse percpu_kstacks (i # is) s = Some s'"
    using s1(1) s'(1) K [OF i] stack_addr [OF i] Cons.prems(2) by (simp add: region_addrs(5) Let_def)
  moreover have "boot_step d s fl s' fl" using boot_step_trans s1(2) c s'(2) by auto
  ultimately show ?case using s'(3-5) d2 by auto
qed

section \<open>The address space of the kernel\<close>

text \<open>What the memory map promises: the array \<open>pages\<close> (\<open>n\<close> pages from frame \<open>P\<close>) and the array \<open>envs\<close>
  (from frame \<open>E\<close>) read-only for the user, all physical memory from \<open>KERNBASE\<close> on, the stacks of
  the CPUs (from frame \<open>K i\<close>) with unmapped gaps between them, and nothing else.\<close>

definition kernel_space :: "nat \<Rightarrow> nat \<Rightarrow> nat \<Rightarrow> (nat \<Rightarrow> nat) \<Rightarrow> nat \<Rightarrow> u32 option" where
  "kernel_space n P E K N =
     (if 983040 \<le> N then Some (frame_addr (N - 983040) OR PTE_W OR PTE_P)
      else if in_stack {..<8} N then Some (stack_page K N)
      else if 978944 \<le> N \<and> N < 978944 + n then Some (frame_addr (P + (N - 978944)) OR PTE_U OR PTE_P)
      else if 977920 \<le> N \<and> N < 977951 then Some (frame_addr (E + (N - 977920)) OR PTE_U OR PTE_P)
      else None)"

text \<open>Where the mapping starts: an empty directory but for the slots of \<open>UVPT\<close> and \<open>MMIOBASE\<close>.\<close>

definition map_start :: "nat \<Rightarrow> nat list \<Rightarrow> kern \<Rightarrow> bool" where
  "map_start d fl s \<longleftrightarrow> boot_inv s fl d \<and> kern_pgdir s = frame_kva d \<and> 67 \<le> length fl
     \<and> (\<forall>i<1024. i \<noteq> 957 \<longrightarrow> i \<noteq> 958 \<longrightarrow> phys s d i = 0)"

lemma perms: "PTE_W < 4096" "PTE_W AND PTE_PS = 0" "PTE_U < 4096" "PTE_U AND PTE_PS = 0"
  by (simp_all add: PTE_W_def PTE_U_def PTE_PS_def)

lemma big_region_slots: "region_slots 983040 0 65536 = {960..<1024}"
proof -
  have "(983040 + j) div 1024 = 960 + j div 1024" for j :: nat by simp
  then have "region_slots 983040 0 65536 = (\<lambda>j. 960 + j div 1024) ` {0..<65536}" by (simp add: region_slots_def)
  also have "\<dots> = {960..<1024}"
  proof (intro equalityI subsetI)
    fix x :: nat assume "x \<in> (\<lambda>j. 960 + j div 1024) ` {0..<65536}"
    then obtain j where "x = 960 + j div 1024" "j < 65536" by (metis (no_types, lifting) imageE atLeastLessThan_iff)
    then show "x \<in> {960..<1024}" using div_less_iff_less_mult [of 1024 j 64] by simp
  next
    fix x :: nat assume x: "x \<in> {960..<1024}"
    then have "(x - 960) * 1024 \<in> {0..<65536}" "x = 960 + ((x - 960) * 1024) div 1024" by auto
    then show "x \<in> (\<lambda>j. 960 + j div 1024) ` {0..<65536}" by (rule image_eqI [rotated])
  qed
  finally show ?thesis .
qed

text \<open>All of physical memory.\<close>

lemma map_all:
  assumes inv: "boot_inv s fl d" and z: "\<And>i. 960 \<le> i \<Longrightarrow> i < 1024 \<Longrightarrow> phys s d i = 0" and room: "64 \<le> length fl"
  obtains s' c where "boot_map_region pse (frame_kva d) KERNBASE (0xFFFFFFFF - KERNBASE + 1) 0 PTE_W s = Some s'"
    and "boot_step d s fl s' (drop c fl)" and "region_mapped pse 983040 0 65536 0 PTE_W d s s'"
proof -
  have "card (new_tables d 983040 0 65536 s) \<le> card {960..<1024 :: nat}"
    unfolding new_tables_def big_region_slots by (intro card_mono) auto
  then have c: "card (new_tables d 983040 0 65536 s) \<le> length fl" using room by simp
  have lg: "use_large pse 983040 0 0 65536 = pse" by (simp add: use_large_def)
  have "\<exists>s' c. boot_map_region pse (frame_kva d) (frame_addr 983040) (frame_addr 65536) (frame_addr 0) PTE_W s = Some s'
    \<and> c \<le> card (new_tables d 983040 0 65536 s) \<and> boot_step d s fl s' (drop c fl)
    \<and> region_mapped (use_large pse 983040 0 0 65536) 983040 0 65536 0 PTE_W d s s'"
    by (rule boot_map_region_spec [OF inv _ _ _ perms(1,2) _ c]) (use z in \<open>auto simp: big_region_slots\<close>)
  then obtain s' c where s': "boot_map_region pse (frame_kva d) (frame_addr 983040) (frame_addr 65536) (frame_addr 0) PTE_W s = Some s'"
    "boot_step d s fl s' (drop c fl)" "region_mapped pse 983040 0 65536 0 PTE_W d s s'" unfolding lg by blast
  have "boot_map_region pse (frame_kva d) KERNBASE (0xFFFFFFFF - KERNBASE + 1) 0 PTE_W s = Some s'"
    using s'(1) unfolding region_addrs(6) unfolding region_addrs(4) by simp
  then show thesis using s'(2,3) by (rule that)
qed

lemma map_start_zero: "map_start d fl s \<Longrightarrow> N < 1048576 \<Longrightarrow> N div 1024 \<noteq> 957 \<Longrightarrow> N div 1024 \<noteq> 958 \<Longrightarrow> kpn s d N = None"
  by (intro kpage_zero) (simp add: map_start_def less_mult_imp_div_less)

lemma small_regions:
  "region_slots 978944 0 n \<subseteq> {956}" if "n \<le> 128"
  using region_one_slot [of 978944 n] that by simp

lemma small_regions2: "region_slots 977920 0 31 = {955}" "region_slots 983032 0 8 = {959}"
  using region_one_slot [of 977920 31] region_slot_in [of 31 977920] region_one_slot [of 983032 8] region_slot_in [of 8 983032] by auto

text \<open>The directory entries after the first three regions.\<close>

lemma first_regions:
  assumes st: "map_start d fl s" and P: "P + size_pages (npages s) \<le> 65536" and E: "E + 31 \<le> 65536" and B: "B + 8 \<le> 65536"
  obtains s1 s2 s3 c where
      "boot_map_region pse (frame_kva d) UPAGES (ROUNDUP (of_nat (npages s) * sizeof_PageInfo) PGSIZE) (frame_addr P) PTE_U s = Some s1"
    and "boot_map_region pse (frame_kva d) UENVS (ROUNDUP (of_nat NENV * sizeof_Env) PGSIZE) (frame_addr E) PTE_U s1 = Some s2"
    and "boot_map_region pse (frame_kva d) (KSTACKTOP - KSTKSIZE) KSTKSIZE (frame_addr B) PTE_W s2 = Some s3"
    and "boot_step d s fl s3 (drop c fl)" and "c \<le> 3" and "kern_pgdir s1 = kern_pgdir s" and "kern_pgdir s2 = kern_pgdir s"
    and "region_mapped False 978944 0 (size_pages (npages s)) P PTE_U d s s1" and "region_mapped False 977920 0 31 E PTE_U d s1 s2"
    and "region_mapped False 983032 0 8 B PTE_W d s2 s3"
proof -
  have inv: "boot_inv s fl d" and z: "\<And>i. i < 1024 \<Longrightarrow> i \<noteq> 957 \<Longrightarrow> i \<noteq> 958 \<Longrightarrow> phys s d i = 0" and len: "67 \<le> length fl"
    using st by (auto simp: map_start_def)
  have np: "npages s \<le> 65536" using free_list_invD(1) [OF boot_invD(1) [OF inv]] .
  note sp = size_pages_eq [OF np]
  have z1: "phys s d 956 = 0" "phys s d 955 = 0" "phys s d 959 = 0" using z by simp_all
  obtain s1 c1 where s1: "boot_map_region pse (frame_kva d) (frame_addr 978944) (frame_addr (size_pages (npages s))) (frame_addr P) PTE_U s = Some s1"
    "boot_step d s fl s1 (drop c1 fl)" "c1 \<le> 1" and r1: "region_mapped False 978944 0 (size_pages (npages s)) P PTE_U d s s1"
    by (rule map_one_slot [OF inv, where A = 978944 and n = "size_pages (npages s)" and Q = P and perm = PTE_U and pse = pse])
      (use sp(2) P perms z1 len in \<open>auto split: if_splits\<close>)
  have inv1: "boot_inv s1 (drop c1 fl) d" and f1: "pm_frame s s1" using s1(2) by (auto simp: boot_step_def)
  have "955 \<notin> region_slots 978944 0 (size_pages (npages s))" "959 \<notin> region_slots 978944 0 (size_pages (npages s))"
    using small_regions [OF sp(2)] by auto
  then have z2: "phys s1 d 955 = 0" "phys s1 d 959 = 0" using region_mappedD(3) [OF r1] z1 by simp_all
  obtain s2 c2 where s2: "boot_map_region pse (frame_kva d) (frame_addr 977920) (frame_addr 31) (frame_addr E) PTE_U s1 = Some s2"
    "boot_step d s1 (drop c1 fl) s2 (drop c2 (drop c1 fl))" "c2 \<le> 1" and r2: "region_mapped False 977920 0 31 E PTE_U d s1 s2"
    by (rule map_one_slot [OF inv1, where A = 977920 and n = 31 and Q = E and perm = PTE_U and pse = pse])
      (use E perms z2 len s1(3) in \<open>auto split: if_splits\<close>)
  have inv2: "boot_inv s2 (drop c2 (drop c1 fl)) d" and f2: "pm_frame s1 s2" using s2(2) by (auto simp: boot_step_def)
  have z3: "phys s2 d 959 = 0" using region_mappedD(3) [OF r2] small_regions2 z2 by simp
  obtain s3 c3 where s3: "boot_map_region pse (frame_kva d) (frame_addr 983032) (frame_addr 8) (frame_addr B) PTE_W s2 = Some s3"
    "boot_step d s2 (drop c2 (drop c1 fl)) s3 (drop c3 (drop c2 (drop c1 fl)))" "c3 \<le> 1" and r3: "region_mapped False 983032 0 8 B PTE_W d s2 s3"
    by (rule map_one_slot [OF inv2, where A = 983032 and n = 8 and Q = B and perm = PTE_W and pse = pse])
      (use B perms z3 len s1(3) s2(3) in \<open>auto split: if_splits\<close>)
  have "boot_step d s fl s3 (drop (c3 + (c2 + c1)) fl)"
    using boot_step_trans [OF s1(2) boot_step_trans [OF s2(2) s3(2)]] by (simp add: add.assoc)
  moreover have "boot_map_region pse (frame_kva d) (KSTACKTOP - KSTKSIZE) KSTKSIZE (frame_addr B) PTE_W s2 = Some s3"
    using s3(1) unfolding region_addrs(3) unfolding region_addrs(5) .
  ultimately show thesis
    using s1(1,3) s2(1,3) s3(3) r1 r2 r3 pm_frameD(6) [OF f1] pm_frameD(6) [OF f2] sp(1)
    by (intro that [of s1 s2 s3 "c3 + (c2 + c1)"]) (simp_all add: region_addrs(1,2) size_envs)
qed

text \<open>The directory that the mapping leaves behind.\<close>

definition kernel_dir :: "bool \<Rightarrow> nat \<Rightarrow> nat \<Rightarrow> kern \<Rightarrow> kern \<Rightarrow> bool" where
  "kernel_dir pse n d s s' \<longleftrightarrow> (\<forall>i. i < 955 \<or> i = 957 \<or> i = 958 \<longrightarrow> phys s' d i = phys s d i)
     \<and> (\<forall>i. i = 955 \<or> i = 959 \<or> i = 956 \<and> 0 < n \<longrightarrow> phys s' d i \<noteq> 0 \<and> phys s' d i AND PTE_PS = 0)
     \<and> (\<forall>i. 960 \<le> i \<and> i < 1024 \<longrightarrow> phys s' d i \<noteq> 0 \<and> (if pse then phys s' d i = frame_addr ((i - 960) * 1024) OR PTE_W OR PTE_P OR PTE_PS
          else phys s' d i AND PTE_PS = 0))"

lemma mem_init_map_spec:
  assumes st: "map_start d fl s" and P: "P + size_pages (npages s) \<le> 65536" and E: "E + 31 \<le> 65536" and B: "B + 8 \<le> 65536"
    and K: "\<And>i. i < 8 \<Longrightarrow> percpu_kstacks i = frame_kva (K i) \<and> K i + 8 \<le> 65536"
  shows "\<exists>s' c. mem_init_map pse (frame_kva P) (frame_kva E) (frame_kva B) percpu_kstacks s = Some s'
    \<and> boot_step d s fl s' (drop c fl) \<and> kernel_dir pse (size_pages (npages s)) d s s'
    \<and> (\<forall>N<1048576. N div 1024 \<noteq> 957 \<longrightarrow> N div 1024 \<noteq> 958 \<longrightarrow> kpn s' d N = kernel_space (size_pages (npages s)) P E K N)"
proof -
  let ?n = "size_pages (npages s)"
  obtain s1 s2 s3 c where
      s1: "boot_map_region pse (frame_kva d) UPAGES (ROUNDUP (of_nat (npages s) * sizeof_PageInfo) PGSIZE) (frame_addr P) PTE_U s = Some s1"
    and s2: "boot_map_region pse (frame_kva d) UENVS (ROUNDUP (of_nat NENV * sizeof_Env) PGSIZE) (frame_addr E) PTE_U s1 = Some s2"
    and s3: "boot_map_region pse (frame_kva d) (KSTACKTOP - KSTKSIZE) KSTKSIZE (frame_addr B) PTE_W s2 = Some s3"
    and st3: "boot_step d s fl s3 (drop c fl)" "c \<le> 3" and kp: "kern_pgdir s1 = kern_pgdir s" "kern_pgdir s2 = kern_pgdir s"
    and r1: "region_mapped False 978944 0 ?n P PTE_U d s s1" and r2: "region_mapped False 977920 0 31 E PTE_U d s1 s2"
    and r3: "region_mapped False 983032 0 8 B PTE_W d s2 s3" by (rule first_regions [OF st P E B])
  note R1 = region_mappedD [OF r1] and R2 = region_mappedD [OF r2] and R3 = region_mappedD [OF r3]
  have "boot_inv s fl d" using st by (simp add: map_start_def)
  then have np: "npages s \<le> 65536" using free_list_invD(1) [OF boot_invD(1)] by blast
  note sl1 = small_regions [OF size_pages_eq(2) [OF np]] and sl2 = small_regions2
  have k0: "kern_pgdir s = frame_kva d" using st by (simp add: map_start_def)
  have inv3: "boot_inv s3 (drop c fl) d" and kp3: "kern_pgdir s3 = kern_pgdir s"
    using st3(1) pm_frameD(6) by (auto simp: boot_step_def)
  have n1: "i \<notin> region_slots 978944 0 ?n" if "i \<noteq> 956" for i using sl1 that by blast
  have n2: "i \<notin> region_slots 977920 0 31" if "i \<noteq> 955" for i using that unfolding sl2 by simp
  have n3: "i \<notin> region_slots 983032 0 8" if "i \<noteq> 959" for i using that unfolding sl2 by simp
  have d3: "phys s3 d i = phys s d i" if "i \<noteq> 955" "i \<noteq> 956" "i \<noteq> 959" for i
    using R1(3) [OF n1 [OF that(2)]] R2(3) [OF n2 [OF that(1)]] R3(3) [OF n3 [OF that(3)]] by simp
  have z3: "phys s3 d i = 0" if "960 \<le> i" "i < 1024" for i
  proof -
    have "phys s d i = 0" using st that by (simp add: map_start_def)
    then show ?thesis using d3 [of i] that by simp
  qed
  have "67 \<le> length fl" using st by (simp add: map_start_def)
  then have len: "64 \<le> length (drop c fl)" using st3(2) by simp
  obtain s4 c4 where s4: "boot_map_region pse (frame_kva d) KERNBASE (0xFFFFFFFF - KERNBASE + 1) 0 PTE_W s3 = Some s4"
    and st4: "boot_step d s3 (drop c fl) s4 (drop c4 (drop c fl))" and r4: "region_mapped pse 983040 0 65536 0 PTE_W d s3 s4"
    by (rule map_all [OF inv3 z3 len]) simp_all
  note R4 = region_mappedD [OF r4, unfolded big_region_slots]
  have inv4: "boot_inv s4 (drop c4 (drop c fl)) d" and kp4: "kern_pgdir s4 = kern_pgdir s3"
    using st4 pm_frameD(6) by (auto simp: boot_step_def)
  have d4: "phys s4 d 959 = phys s3 d 959" using R4(3) [of 959] by simp
  have p4: "phys s4 d 959 \<noteq> 0" "phys s4 d 959 AND PTE_PS = 0" unfolding d4 using R3(4,5) sl2 by simp_all
  obtain s5 where s5: "mem_init_mp pse percpu_kstacks [0..<NCPU] s4 = Some s5"
    and st5: "boot_step d s4 (drop c4 (drop c fl)) s5 (drop c4 (drop c fl))" and d5: "\<forall>a. a \<noteq> 959 \<longrightarrow> phys s5 d a = phys s4 d a"
    and p5: "phys s5 d 959 \<noteq> 0" "phys s5 d 959 AND PTE_PS = 0"
    and k5: "\<forall>N<1048576. N div 1024 \<noteq> 957 \<longrightarrow> kpn s5 d N = (if in_stack (set [0..<NCPU]) N then Some (stack_page K N) else kpn s4 d N)"
  proof -
    have "set [0..<NCPU] \<subseteq> {..<8}" by (auto simp: NCPU_def)
    note sub = this
    have kd: "kern_pgdir s4 = frame_kva d" using k0 kp3 kp4 by simp
    show thesis using mem_init_mp_spec [of percpu_kstacks K, OF K inv4 kd p4 sub, of pse] that by blast
  qed
  have "0 < npages s" using st boot_invD(2) by (fastforce simp: map_start_def)
  then have P1: "P < 65536" using P by (simp add: size_pages_def div_greater_zero_iff)
  have run: "mem_init_map pse (frame_kva P) (frame_kva E) (frame_kva B) percpu_kstacks s = Some s5"
    using s1 s2 s3 s4 s5 k0 kp kp3 P1 E B by (simp add: mem_init_map_def Let_def)
  have step: "boot_step d s fl s5 (drop (c4 + c) fl)"
    using boot_step_trans [OF st3(1) boot_step_trans [OF st4 st5]] by simp
  have dir: "kernel_dir pse ?n d s s5"
  proof -
    have a: "phys s5 d i = phys s d i" if "i < 955 \<or> i = 957 \<or> i = 958" for i
      using that d3 [of i] R4(3) [of i] d5 by auto
    have b: "phys s5 d 955 = phys s2 d 955" using R3(3) [OF n3, of 955] R4(3) [of 955] d5 by auto
    have c: "phys s5 d 956 = phys s1 d 956" using R2(3) [OF n2, of 956] R3(3) [OF n3, of 956] R4(3) [of 956] d5 by auto
    have in1: "956 \<in> region_slots 978944 0 ?n" if "0 < ?n" using region_slot_in [OF that, of 978944] by simp
    have in2: "955 \<in> region_slots 977920 0 31" unfolding sl2 by simp
    have e: "phys s5 d i \<noteq> 0 \<and> phys s5 d i AND PTE_PS = 0" if "i = 955 \<or> i = 959 \<or> i = 956 \<and> 0 < ?n" for i
      using that b c p5 R1(4,5) [OF in1] R2(4,5) [OF in2] by auto
    have f: "phys s5 d i \<noteq> 0 \<and> (if pse then phys s5 d i = frame_addr ((i - 960) * 1024) OR PTE_W OR PTE_P OR PTE_PS else phys s5 d i AND PTE_PS = 0)"
      if i: "960 \<le> i \<and> i < 1024" for i
    proof -
      have m: "i \<in> {960..<1024}" using i by simp
      have "phys s5 d i = phys s4 d i" using d5 i by simp
      moreover have "i * 1024 - 983040 = (i - 960) * 1024" by (simp add: diff_mult_distrib)
      ultimately show ?thesis using R4(4) [OF m] R4(5) [OF m] R4(6) [OF m] by simp
    qed
    show ?thesis unfolding kernel_dir_def using a e f by blast
  qed
  have n128: "?n \<le> 128" by (rule size_pages_eq(2) [OF np])
  have space: "kpn s5 d N = kernel_space ?n P E K N" if N: "N < 1048576" "N div 1024 \<noteq> 957" "N div 1024 \<noteq> 958" for N
  proof -
    note Nb = N(1,2)
    have "set [0..<NCPU] = {..<8}" by (auto simp: NCPU_def)
    then have k: "kpn s5 d N = (if in_stack {..<8} N then Some (stack_page K N) else kpn s4 d N)" using k5 Nb by simp
    have stack: "in_stack {..<8} N" if "983032 \<le> N" "N < 983040"
      using stack_region(1) [of 0 N] that by (auto simp: in_stack_def)
    have stb: "982912 \<le> N \<and> N < 983040" if "in_stack {..<8} N" using that by (simp add: in_stack_def)
    have z: "kpn s d N = None" by (rule map_start_zero [OF st N])
    consider "983040 \<le> N" | "in_stack {..<8} N" "N < 983040" | "\<not> in_stack {..<8} N" "N < 983032"
      using stack by linarith
    then show ?thesis
    proof cases
      case 1
      then have "kpn s5 d N = kpn s4 d N" using k stb by auto
      then show ?thesis using R4(1) [OF Nb] 1 N(1) by (simp add: kernel_space_def)
    next
      case 2
      then show ?thesis using k by (simp add: kernel_space_def)
    next
      case 3
      then have "kpn s5 d N = kpn s4 d N" using k by simp
      also have "\<dots> = kpn s3 d N" using R4(2) [OF Nb] 3 by simp
      also have "\<dots> = kpn s2 d N" using R3(2) [OF Nb] 3 by simp
      finally have e: "kpn s5 d N = kpn s2 d N" .
      show ?thesis
      proof (cases "977920 \<le> N \<and> N < 977951")
        case True
        then show ?thesis using R2(1) [OF Nb] e 3 by (simp add: kernel_space_def)
      next
        case False
        then have "kpn s2 d N = kpn s1 d N" using R2(2) [OF Nb] by simp
        then show ?thesis using R1(1) [OF Nb] R1(2) [OF Nb] z e 3 False n128 by (auto simp: kernel_space_def)
      qed
    qed
  qed
  show ?thesis using run step dir space by blast
qed

end
