(* ===== verification/Boot_Check.thy ===== *)
theory Boot_Check
  imports Mem_Init
begin

text \<open>
  The self test \<open>check_kern_pgdir\<close> of \<open>kern/pmap.c\<close>, which \<open>mem_init\<close> runs on the page directory it has built.
\<close>

section \<open>Operations\<close>

text \<open>A loop of assertions.\<close>

primrec assert_each :: "('a \<Rightarrow> unit option) \<Rightarrow> 'a list \<Rightarrow> unit option" where
  "assert_each f [] = Some ()"
| "assert_each f (x # xs) = do { f x; assert_each f xs }"

text \<open>The values of \<open>i\<close> in \<open>for (i = 0; i < n; i += PGSIZE)\<close>.\<close>

definition page_steps :: "u32 \<Rightarrow> u32 list" where
  "page_steps n = map (\<lambda>k. of_nat k * PGSIZE) [0..<(unat n + 4095) div 4096]"

text \<open>\<open>assert(check_va2pa(pgdir, va) == pa)\<close>.\<close>

definition assert_va2pa :: "u32 \<Rightarrow> u32 \<Rightarrow> u32 \<Rightarrow> kern \<Rightarrow> unit option" where
  "assert_va2pa pgdir va pa s = do { p \<leftarrow> check_va2pa pgdir va s; kassert (p = pa) }"

text \<open>The body of the loops over the \<open>pages\<close> and \<open>envs\<close> arrays.\<close>

definition check_array :: "u32 \<Rightarrow> u32 \<Rightarrow> u32 \<Rightarrow> kern \<Rightarrow> u32 \<Rightarrow> unit option" where
  "check_array pgdir base arr s i =
     do { pa \<leftarrow> PADDR arr;
          assert_va2pa pgdir (base + i) (pa + i) s;
          (r, s) \<leftarrow> pgdir_walk pgdir (base + i) False s;
          pte \<leftarrow> r;
          kassert (PGOFF (kread s pte) = PTE_U OR PTE_P) }"

definition check_stack :: "u32 \<Rightarrow> (nat \<Rightarrow> u32) \<Rightarrow> kern \<Rightarrow> nat \<Rightarrow> unit option" where
  "check_stack pgdir percpu_kstacks s n =
     do { let base = KSTACKTOP - (KSTKSIZE + KSTKGAP) * (of_nat n + 1);
          assert_each (\<lambda>i. do { pa \<leftarrow> PADDR (percpu_kstacks n); assert_va2pa pgdir (base + KSTKGAP + i) (pa + i) s })
            (page_steps KSTKSIZE);
          assert_each (\<lambda>i. assert_va2pa pgdir (base + i) (NOT 0) s) (page_steps KSTKGAP) }"

definition check_pde :: "u32 \<Rightarrow> kern \<Rightarrow> u32 \<Rightarrow> unit option" where
  "check_pde pgdir s i =
     (let pde = kread s (entry pgdir i) in
      if i = PDX UVPT \<or> i = PDX (KSTACKTOP - 1) \<or> i = PDX UPAGES \<or> i = PDX UENVS \<or> i = PDX MMIOBASE
      then kassert (pde AND PTE_P \<noteq> 0)
      else if PDX KERNBASE \<le> i then do { kassert (pde AND PTE_P \<noteq> 0); kassert (pde AND PTE_W \<noteq> 0) }
      else kassert (pde = 0))"

definition check_pde_pse :: "u32 \<Rightarrow> kern \<Rightarrow> u32 \<Rightarrow> unit option" where
  "check_pde_pse pgdir s i =
     (let pde = kread s (entry pgdir i) in
      do { kassert (pde AND PTE_PS \<noteq> 0); kassert (PTE_ADDR pde = push_bit 22 (i - PDX KERNBASE)) })"

definition check_kern_pgdir :: "bool \<Rightarrow> u32 \<Rightarrow> u32 \<Rightarrow> (nat \<Rightarrow> u32) \<Rightarrow> kern \<Rightarrow> unit option" where
  "check_kern_pgdir pse pages_va envs_va percpu_kstacks s =
     do { let pgdir = kern_pgdir s;
          assert_each (check_array pgdir UPAGES pages_va s)
            (page_steps (ROUNDUP (of_nat (npages s) * sizeof_PageInfo) PGSIZE));
          assert_each (check_array pgdir UENVS envs_va s) (page_steps (ROUNDUP (of_nat NENV * sizeof_Env) PGSIZE));
          assert_each (\<lambda>i. assert_va2pa pgdir (KERNBASE + i) i s) (page_steps (of_nat (npages s) * PGSIZE));
          assert_each (check_stack pgdir percpu_kstacks s) [0..<NCPU];
          assert_each (check_pde pgdir s) (map of_nat [0..<1024]);
          (if pse then assert_each (check_pde_pse pgdir s) (map of_nat [unat (PDX KERNBASE)..<1024]) else Some ()) }"

section \<open>What the loops check\<close>

lemma assert_each_ok: "(\<And>x. x \<in> set xs \<Longrightarrow> f x = Some ()) \<Longrightarrow> assert_each f xs = Some ()"
  by (induction xs) simp_all

lemma page_steps_frames:
  assumes "k < 1048576" and "i \<in> set (page_steps (frame_addr k))"
  obtains j where "i = frame_addr j" and "j < k"
proof -
  have "unat (frame_addr k) = k * 4096" using assms(1) by (simp add: unat_frame_addr)
  then have "(unat (frame_addr k) + 4095) div 4096 = k" by simp
  then obtain j where "j < k" "i = of_nat j * PGSIZE" using assms(2) by (auto simp: page_steps_def)
  then show thesis using that by (simp add: frame_addr_def push_bit_eq_mult PGSIZE_def)
qed

lemma PTE_ADDR_entry: "F < 1048576 \<Longrightarrow> perm < 4096 \<Longrightarrow> PTE_ADDR (frame_addr F OR perm) = frame_addr F"
  by (simp add: PTE_ADDR_frame PGNUM_frame_or)

lemma PGOFF_entry: "perm < 4096 \<Longrightarrow> PGOFF (frame_addr F OR perm) = perm"
proof (rule bit_word_eqI)
  fix n assume "perm < 4096"
  then have "bit perm n \<Longrightarrow> n < 12" by (rule bit_small)
  then show "bit (PGOFF (frame_addr F OR perm)) n = bit perm n"
    by (auto simp: PGOFF_take_bit bit_take_bit_iff bit_or_iff bit_frame_addr)
qed

lemma large_addr: "PTE_ADDR (PGADDR a (of_nat b) 0 OR (w AND 0xFFF AND x)) = PGADDR a (of_nat b) 0"
proof (rule bit_word_eqI)
  fix n
  have mask: "bit (0xFFF :: u32) n \<longleftrightarrow> n < 12"
    using bit_mask_iff [of 12 n, where 'a = u32] by (auto simp: mask_eq_exp_minus_1)
  assume "n < LENGTH(32)"
  then show "bit (PTE_ADDR (PGADDR a (of_nat b) 0 OR (w AND 0xFFF AND x))) n = bit (PGADDR a (of_nat b) 0) n"
    unfolding PTE_ADDR_def bit_and_iff bit_not_iff bit_or_iff mask by (auto simp: PGADDR_def bit_simps)
qed

text \<open>\<open>check_va2pa\<close> reads the map of pages.\<close>

lemma check_va2pa_page:
  assumes inv: "boot_inv s fl d" and N: "N < 1048576" "N div 1024 \<noteq> 957"
  shows "check_va2pa (frame_kva d) (frame_addr N) s = Some (case kpn s d N of None \<Rightarrow> NOT 0 | Some v \<Rightarrow> PTE_ADDR v)"
proof -
  let ?i = "N div 1024" and ?j = "N mod 1024"
  have i: "?i < 1024" using N(1) by (simp add: less_mult_imp_div_less)
  have idx: "unat (PDX (frame_addr N)) = ?i" "unat (PTX (frame_addr N)) = ?j" by (rule frame_addr_index [OF N(1)])+
  have ptx: "PTX (frame_addr N) = of_nat ?j" using idx(2) by (simp add: word_unat_eq_iff unat_of_nat)
  have off: "PGOFF (frame_addr N) = 0" using PGOFF_entry [of 0 N] by simp
  have pde: "kread s (entry (frame_kva d) (PDX (frame_addr N))) = phys s d ?i"
    using boot_invD(4) [OF inv] idx i by simp
  show ?thesis
  proof (cases "phys s d ?i AND PTE_P = 0 \<or> phys s d ?i AND PTE_PS \<noteq> 0")
    case True
    then show ?thesis by (auto simp: check_va2pa_def pde kpage_def large_addr ptx off Let_def)
  next
    case False
    then have k: "?i \<in> kslots (phys s) d" using i N(2) by (auto simp: kslots_def)
    let ?t = "pt_frame (phys s) (d, ?i)"
    have t: "?t < npages s" "?t < 65536" using boot_invD(6) [OF inv k] free_list_invD(1) [OF boot_invD(1) [OF inv]] by simp_all
    have "PTE_ADDR (phys s d ?i) = frame_addr ?t" by (simp add: PTE_ADDR_frame pt_frame_def)
    then show ?thesis using False t idx N by (simp add: check_va2pa_def pde kpage_table [OF inv k] Let_def)
  qed
qed

lemma va2pa_mapped:
  assumes "boot_inv s fl d" and "N < 1048576" "N div 1024 \<noteq> 957" and "kpn s d N = Some (frame_addr F OR perm OR PTE_P)"
    and "F < 1048576" and "perm OR PTE_P < 4096"
  shows "assert_va2pa (frame_kva d) (frame_addr N) (frame_addr F) s = Some ()"
  using check_va2pa_page [OF assms(1-3)] assms(4) PTE_ADDR_entry [OF assms(5,6)]
  by (simp add: assert_va2pa_def kassert_def or.assoc)

lemma va2pa_absent:
  assumes "boot_inv s fl d" and "N < 1048576" "N div 1024 \<noteq> 957" and "kpn s d N = None"
  shows "assert_va2pa (frame_kva d) (frame_addr N) (NOT 0) s = Some ()"
  using check_va2pa_page [OF assms(1-3)] assms(4) by (simp add: assert_va2pa_def kassert_def)

section \<open>The test passes\<close>

text \<open>A directory of the kernel: the translation of every page outside the slots of \<open>UVPT\<close> and \<open>MMIOBASE\<close>.\<close>

definition in_space :: "kern \<Rightarrow> nat list \<Rightarrow> nat \<Rightarrow> nat \<Rightarrow> nat \<Rightarrow> nat \<Rightarrow> (nat \<Rightarrow> nat) \<Rightarrow> bool" where
  "in_space s fl d n P E K \<longleftrightarrow> boot_inv s fl d \<and> n \<le> 128 \<and>
     (\<forall>N<1048576. N div 1024 \<noteq> 957 \<longrightarrow> N div 1024 \<noteq> 958 \<longrightarrow> kpn s d N = kernel_space n P E K N)"

lemma in_spaceD:
  assumes "in_space s fl d n P E K"
  shows "boot_inv s fl d" and "n \<le> 128"
    and "N < 1048576 \<Longrightarrow> N div 1024 \<noteq> 957 \<Longrightarrow> N div 1024 \<noteq> 958 \<Longrightarrow> kpn s d N = kernel_space n P E K N"
  using assms by (auto simp: in_space_def)

lemma user_perm: "PTE_U OR PTE_P < 4096" "PTE_W OR PTE_P < 4096"
  by (simp_all add: PTE_U_def PTE_P_def PTE_W_def)

lemma check_array_ok:
  assumes inv: "boot_inv s fl d" and N: "A + j < 1048576" "(A + j) div 1024 \<noteq> 957" and slot: "(A + j) div 1024 \<in> kslots (phys s) d"
    and pg: "kpn s d (A + j) = Some (frame_addr (Q + j) OR PTE_U OR PTE_P)" and Q: "Q + j < 65536"
  shows "check_array (frame_kva d) (frame_addr A) (frame_kva Q) s (frame_addr j) = Some ()"
proof -
  let ?N = "A + j"
  have e: "frame_addr A + frame_addr j = frame_addr ?N" "frame_addr Q + frame_addr j = frame_addr (Q + j)"
    by (simp_all add: frame_addr_add)
  have "unat (PDX (frame_addr ?N)) \<in> kslots (phys s) d" using slot frame_addr_index [OF N(1)] by simp
  note w = boot_walk_table(1) [OF inv this, where c = False] boot_walk_table(2) [OF inv this]
  let ?t = "pt_frame (phys s) (d, ?N div 1024)"
  have "phys s ?t (?N mod 1024) = frame_addr (Q + j) OR (PTE_U OR PTE_P)"
    using pg unfolding kpage_table [OF inv slot] by (simp add: Let_def or.assoc split: if_splits)
  then have rd: "kread s (entry (frame_kva ?t) (PTX (frame_addr ?N))) = frame_addr (Q + j) OR (PTE_U OR PTE_P)"
    using w(2) frame_addr_index [OF N(1)] by simp
  have "PGOFF (frame_addr (Q + j) OR (PTE_U OR PTE_P)) = PTE_U OR PTE_P" by (rule PGOFF_entry [OF user_perm(1)])
  moreover have "assert_va2pa (frame_kva d) (frame_addr ?N) (frame_addr (Q + j)) s = Some ()"
    using va2pa_mapped [OF inv N pg _ user_perm(1)] Q by simp
  ultimately show ?thesis using w(1) Q frame_addr_index [OF N(1)] by (simp add: check_array_def e rd kassert_def)
qed

lemma check_arrays_ok:
  assumes sp: "in_space s fl d n P E K" and P: "P + n \<le> 65536" and E: "E + 31 \<le> 65536"
    and slots: "955 \<in> kslots (phys s) d" "956 \<in> kslots (phys s) d"
  shows "assert_each (check_array (frame_kva d) UPAGES (frame_kva P) s) (page_steps (frame_addr n)) = Some ()"
    and "assert_each (check_array (frame_kva d) UENVS (frame_kva E) s) (page_steps (frame_addr 31)) = Some ()"
proof -
  note S = in_spaceD [OF sp]
  show "assert_each (check_array (frame_kva d) UPAGES (frame_kva P) s) (page_steps (frame_addr n)) = Some ()"
  proof (rule assert_each_ok)
    fix i assume "i \<in> set (page_steps (frame_addr n))"
    moreover have "n < 1048576" using S(2) by simp
    ultimately obtain j where j: "i = frame_addr j" "j < n" using page_steps_frames by blast
    have sl: "(978944 + j) div 1024 = 956" using j(2) S(2) by simp
    have "\<not> in_stack {..<8} (978944 + j)" using j(2) S(2) by (simp add: in_stack_def)
    then have "kpn s d (978944 + j) = Some (frame_addr (P + j) OR PTE_U OR PTE_P)"
      using S(3) [of "978944 + j"] j(2) S(2) sl by (simp add: kernel_space_def)
    then show "check_array (frame_kva d) UPAGES (frame_kva P) s i = Some ()"
      unfolding j(1) region_addrs(1) by (rule check_array_ok [OF S(1), rotated 3]) (use j(2) S(2) P sl slots in simp_all)
  qed
  show "assert_each (check_array (frame_kva d) UENVS (frame_kva E) s) (page_steps (frame_addr 31)) = Some ()"
  proof (rule assert_each_ok)
    fix i assume "i \<in> set (page_steps (frame_addr 31))"
    then obtain j where j: "i = frame_addr j" "j < 31" using page_steps_frames [rotated] by force
    have sl: "(977920 + j) div 1024 = 955" using j(2) by simp
    have "\<not> in_stack {..<8} (977920 + j)" using j(2) by (simp add: in_stack_def)
    then have "kpn s d (977920 + j) = Some (frame_addr (E + j) OR PTE_U OR PTE_P)"
      using S(3) [of "977920 + j"] j(2) sl by (simp add: kernel_space_def)
    then show "check_array (frame_kva d) UENVS (frame_kva E) s i = Some ()"
      unfolding j(1) region_addrs(2) by (rule check_array_ok [OF S(1), rotated 3]) (use j(2) E sl slots in simp_all)
  qed
qed

lemma check_phys_ok:
  assumes sp: "in_space s fl d n P E K" and m: "m \<le> 65536"
  shows "assert_each (\<lambda>i. assert_va2pa (frame_kva d) (KERNBASE + i) i s) (page_steps (frame_addr m)) = Some ()"
proof (rule assert_each_ok)
  note S = in_spaceD [OF sp]
  fix i assume "i \<in> set (page_steps (frame_addr m))"
  moreover have "m < 1048576" using m by simp
  ultimately obtain j where j: "i = frame_addr j" "j < m" using page_steps_frames by blast
  have N: "983040 + j < 1048576" "(983040 + j) div 1024 \<noteq> 957" "(983040 + j) div 1024 \<noteq> 958"
    using j(2) m div_le_mono [of 983040 "983040 + j" 1024] by auto
  have "kpn s d (983040 + j) = Some (frame_addr j OR PTE_W OR PTE_P)"
    unfolding S(3) [OF N] by (simp add: kernel_space_def)
  then have "assert_va2pa (frame_kva d) (frame_addr (983040 + j)) (frame_addr j) s = Some ()"
    by (rule va2pa_mapped [OF S(1) N(1,2)]) (use user_perm(2) j(2) m in simp_all)
  then show "assert_va2pa (frame_kva d) (KERNBASE + i) i s = Some ()"
    unfolding j(1) region_addrs(4) frame_addr_add .
qed

lemma check_stack_ok:
  assumes sp: "in_space s fl d n P E K" and i: "i < 8" and K: "percpu_kstacks i = frame_kva (K i)" "K i + 8 \<le> 65536"
  shows "check_stack (frame_kva d) percpu_kstacks s i = Some ()"
proof -
  note S = in_spaceD [OF sp]
  let ?A = "983024 - 16 * i"
  have "i \<in> {0, 1, 2, 3, 4, 5, 6, 7}" using i by auto
  then have base: "KSTACKTOP - (KSTKSIZE + KSTKGAP) * (of_nat i + 1) = frame_addr ?A"
    by (auto simp: layout_values layout_defs frame_addr_def)
  have gap: "KSTKGAP = frame_addr 8" by (simp add: layout_values frame_addr_def)
  have "(?A + j) div 1024 = 959" if "j < 16" for j
  proof -
    have "?A + j = 959 * 1024 + (1008 - 16 * i + j)" using i by simp
    moreover have "1008 - 16 * i + j < 1024" using that i by linarith
    ultimately show ?thesis by (metis div_mult_self3 div_less add.right_neutral zero_neq_numeral)
  qed
  then have N: "?A + j < 1048576" "(?A + j) div 1024 \<noteq> 957" "(?A + j) div 1024 \<noteq> 958" if "j < 16" for j
    using that i by simp_all
  have A8: "983032 - 16 * i = ?A + 8" using i by simp
  have up: "kpn s d (?A + (8 + j)) = Some (frame_addr (K i + j) OR PTE_W OR PTE_P)" if "j < 8" for j
  proof -
    define M where "M = ?A + (8 + j)"
    have st: "in_stack {i} M" using stack_region(1) [OF i, of M] that unfolding A8 M_def by linarith
    then have st8: "in_stack {..<8} M" using i by (simp add: in_stack_def)
    have "(983039 - M) div 16 = i" "M < 983040" using st by (simp_all add: in_stack_def)
    moreover have "M mod 16 - 8 = j" using stack_region(2) [OF i st] unfolding A8 M_def by simp
    moreover have "kpn s d M = kernel_space n P E K M" unfolding M_def by (rule S(3) [OF N]) (use that in simp_all)
    ultimately show ?thesis using st8 unfolding M_def [symmetric] by (simp add: kernel_space_def stack_page_def)
  qed
  have down: "kpn s d (?A + j) = None" if "j < 8" for j
  proof -
    define M where "M = ?A + j"
    have "M = j + (61439 - i) * 16" using i by (simp add: M_def)
    then have "M mod 16 = j" using that by simp
    then have "\<not> in_stack {..<8} M" using that by (simp add: in_stack_def)
    moreover have "M < 983040" "979072 \<le> M" using that i by (simp_all add: M_def)
    moreover have "kpn s d M = kernel_space n P E K M" unfolding M_def by (rule S(3) [OF N]) (use that in simp_all)
    ultimately show ?thesis using S(2) unfolding M_def [symmetric] by (simp add: kernel_space_def)
  qed
  have "assert_each (\<lambda>x. do { pa \<leftarrow> PADDR (percpu_kstacks i); assert_va2pa (frame_kva d) (frame_addr ?A + KSTKGAP + x) (pa + x) s }) (page_steps KSTKSIZE) = Some ()"
    unfolding region_addrs(5)
  proof (rule assert_each_ok)
    fix x assume "x \<in> set (page_steps (frame_addr 8))"
    then obtain j where j: "x = frame_addr j" "j < 8" using page_steps_frames [rotated] by force
    have "assert_va2pa (frame_kva d) (frame_addr (?A + (8 + j))) (frame_addr (K i + j)) s = Some ()"
      by (rule va2pa_mapped [OF S(1) N(1,2) up]) (use user_perm(2) j(2) K in simp_all)
    then show "(do { pa \<leftarrow> PADDR (percpu_kstacks i); assert_va2pa (frame_kva d) (frame_addr ?A + KSTKGAP + x) (pa + x) s }) = Some ()"
      using K unfolding j(1) gap frame_addr_add by (simp add: add.assoc)
  qed
  moreover have "assert_each (\<lambda>x. assert_va2pa (frame_kva d) (frame_addr ?A + x) (NOT 0) s) (page_steps KSTKGAP) = Some ()"
    unfolding gap
  proof (rule assert_each_ok)
    fix x assume "x \<in> set (page_steps (frame_addr 8))"
    then obtain j where j: "x = frame_addr j" "j < 8" using page_steps_frames [rotated] by force
    have "assert_va2pa (frame_kva d) (frame_addr (?A + j)) (NOT 0) s = Some ()"
      by (rule va2pa_absent [OF S(1) N(1,2) down]) (use j(2) in simp_all)
    then show "assert_va2pa (frame_kva d) (frame_addr ?A + x) (NOT 0) s = Some ()" unfolding j(1) frame_addr_add .
  qed
  ultimately show ?thesis unfolding check_stack_def base Let_def by simp
qed

text \<open>The entries of the directory.\<close>

lemma slot_numbers:
  "PDX UVPT = 957" "PDX (KSTACKTOP - 1) = 959" "PDX UPAGES = 956" "PDX UENVS = 955" "PDX MMIOBASE = 958" "PDX KERNBASE = 960"
  by (simp_all add: word_unat_eq_iff unat_PDX layout_values layout_defs)

lemma large_pde:
  defines "w i \<equiv> frame_addr ((i - 960) * 1024) OR PTE_W OR PTE_P OR PTE_PS"
  shows "w i AND PTE_P \<noteq> 0" and "w i AND PTE_PS \<noteq> 0" and "w i AND PTE_W \<noteq> 0"
    and "960 \<le> i \<Longrightarrow> i < 1024 \<Longrightarrow> PTE_ADDR (w i) = push_bit 22 (of_nat i - 960)"
proof -
  show "w i AND PTE_P \<noteq> 0" "w i AND PTE_PS \<noteq> 0"
    using large_entry(2,3) [of "(i - 960) * 1024" 0 PTE_W] perms by (simp_all add: w_def)
  have "bit (w i) 1" by (simp add: w_def bit_or_iff PTE_W_def bit_2_iff)
  then show "w i AND PTE_W \<noteq> 0" using and_exp_eq_0_iff_not_bit [of "w i" 1] by (simp add: PTE_W_def)
  assume i: "960 \<le> i" "i < 1024"
  have "PTE_W OR (PTE_P OR PTE_PS) < 4096" by (simp add: PTE_W_def PTE_P_def PTE_PS_def)
  then have "PTE_ADDR (w i) = frame_addr ((i - 960) * 1024)"
    unfolding w_def or.assoc by (rule PTE_ADDR_entry [rotated]) (use i in simp)
  also have "\<dots> = push_bit 22 (of_nat (i - 960))"
    by (simp add: frame_addr_def push_bit_eq_mult mult.assoc)
  finally show "PTE_ADDR (w i) = push_bit 22 (of_nat i - 960)" using i by simp
qed

lemma kslots_present:
  assumes "boot_inv s fl d" and "i < 1024" and "i \<noteq> 957" and "phys s d i \<noteq> 0" and "phys s d i AND PTE_PS = 0"
  shows "i \<in> kslots (phys s) d" and "phys s d i AND PTE_P \<noteq> 0" and "phys s d i AND PTE_W \<noteq> 0"
proof -
  show "i \<in> kslots (phys s) d" using assms by (simp add: kslots_def)
  then show "phys s d i AND PTE_P \<noteq> 0" "phys s d i AND PTE_W \<noteq> 0" using boot_invD(5,11) [OF assms(1)] by blast+
qed

lemma kernel_dirD:
  assumes "kernel_dir pse n d s s'"
  shows "i < 955 \<or> i = 957 \<or> i = 958 \<Longrightarrow> phys s' d i = phys s d i"
    and "i = 955 \<or> i = 959 \<or> i = 956 \<and> 0 < n \<Longrightarrow> phys s' d i \<noteq> 0"
    and "i = 955 \<or> i = 959 \<or> i = 956 \<and> 0 < n \<Longrightarrow> phys s' d i AND PTE_PS = 0"
    and "960 \<le> i \<and> i < 1024 \<Longrightarrow> phys s' d i \<noteq> 0"
    and "960 \<le> i \<and> i < 1024 \<Longrightarrow> pse \<Longrightarrow> phys s' d i = frame_addr ((i - 960) * 1024) OR PTE_W OR PTE_P OR PTE_PS"
    and "960 \<le> i \<and> i < 1024 \<Longrightarrow> \<not> pse \<Longrightarrow> phys s' d i AND PTE_PS = 0"
  using assms unfolding kernel_dir_def by (blast, blast, blast, blast, presburger, presburger)

lemma check_pdes_ok:
  assumes inv: "boot_inv s' fl d" and kd: "kernel_dir pse n d s s'" and n: "0 < n" and z: "\<And>i. i < 955 \<Longrightarrow> phys s d i = 0"
    and uvpt: "phys s d 957 AND PTE_P \<noteq> 0" and mmio: "phys s d 958 AND PTE_P \<noteq> 0"
  shows "assert_each (check_pde (frame_kva d) s') (map of_nat [0..<1024]) = Some ()"
    and "pse \<Longrightarrow> assert_each (check_pde_pse (frame_kva d) s') (map of_nat [unat (PDX KERNBASE)..<1024]) = Some ()"
proof -
  have k1: "phys s' d i = phys s d i" if "i < 955 \<or> i = 957 \<or> i = 958" for i by (rule kernel_dirD(1) [OF kd that])
  have k2: "phys s' d i AND PTE_P \<noteq> 0" if "i = 955 \<or> i = 959 \<or> i = 956" for i
  proof -
    have i: "i = 955 \<or> i = 959 \<or> i = 956 \<and> 0 < n" using that n by blast
    show ?thesis by (rule kslots_present(2) [OF inv _ _ kernel_dirD(2,3) [OF kd i]]) (use that in auto)
  qed
  have k3: "phys s' d i = frame_addr ((i - 960) * 1024) OR PTE_W OR PTE_P OR PTE_PS" if "pse" "960 \<le> i" "i < 1024" for i
    using kernel_dirD(5) [OF kd] that by blast
  have k4: "phys s' d i AND PTE_P \<noteq> 0 \<and> phys s' d i AND PTE_W \<noteq> 0" if i: "960 \<le> i" "i < 1024" for i
  proof (cases pse)
    case True
    then show ?thesis using k3 [OF True i] large_pde(1,3) by simp
  next
    case False
    then have "phys s' d i \<noteq> 0" "phys s' d i AND PTE_PS = 0" using kernel_dirD(4,6) [OF kd] i by blast+
    then show ?thesis using kslots_present(2,3) [OF inv, of i] i by auto
  qed
  have rd: "kread s' (entry (frame_kva d) (of_nat i)) = phys s' d i" if "i < 1024" for i
    using that boot_invD(4) [OF inv] by (simp add: unat_of_nat)
  show "assert_each (check_pde (frame_kva d) s') (map of_nat [0..<1024]) = Some ()"
  proof (rule assert_each_ok)
    fix x :: u32 assume "x \<in> set (map of_nat [0..<1024])"
    then obtain i where x: "x = of_nat i" and i: "i < 1024" unfolding set_map set_upt by (metis atLeastLessThan_iff imageE)
    have num: "(of_nat i :: u32) = 957 \<longleftrightarrow> i = 957" "(of_nat i :: u32) = 959 \<longleftrightarrow> i = 959" "(of_nat i :: u32) = 956 \<longleftrightarrow> i = 956"
      "(of_nat i :: u32) = 955 \<longleftrightarrow> i = 955" "(of_nat i :: u32) = 958 \<longleftrightarrow> i = 958"
      using i by (simp_all add: word_unat_eq_iff unat_of_nat)
    have le: "(960 :: u32) \<le> of_nat i \<longleftrightarrow> 960 \<le> i" using i by (simp add: word_le_nat_alt unat_of_nat)
    consider "i < 955" | "i \<in> {955, 956, 957, 958, 959}" | "960 \<le> i" by fastforce
    then show "check_pde (frame_kva d) s' x = Some ()"
      unfolding check_pde_def x rd [OF i] slot_numbers le num
      using i k1 [of i] k2 [of i] k4 [of i] z [of i] uvpt mmio by cases (auto simp: kassert_def Let_def)
  qed
  show "assert_each (check_pde_pse (frame_kva d) s') (map of_nat [unat (PDX KERNBASE)..<1024]) = Some ()" if pse
  proof (rule assert_each_ok)
    fix x :: u32 assume "x \<in> set (map of_nat [unat (PDX KERNBASE)..<1024])"
    then obtain i where x: "x = of_nat i" and i: "960 \<le> i" "i < 1024" unfolding set_map set_upt slot_numbers by auto
    show "check_pde_pse (frame_kva d) s' x = Some ()"
      unfolding check_pde_pse_def x rd [OF i(2)] slot_numbers k3 [OF that i] Let_def
      using large_pde(2,4) i by (simp add: kassert_def)
  qed
qed

lemma check_kern_pgdir_ok:
  assumes st: "map_start d fl s" and uvpt: "phys s d 957 AND PTE_P \<noteq> 0" and mmio: "phys s d 958 AND PTE_P \<noteq> 0"
    and P: "P + size_pages (npages s) \<le> 65536" and E: "E + 31 \<le> 65536"
    and K: "\<And>i. i < 8 \<Longrightarrow> percpu_kstacks i = frame_kva (K i) \<and> K i + 8 \<le> 65536"
    and step: "boot_step d s fl s' fl'" and kd: "kernel_dir pse (size_pages (npages s)) d s s'"
    and space: "\<And>N. N < 1048576 \<Longrightarrow> N div 1024 \<noteq> 957 \<Longrightarrow> N div 1024 \<noteq> 958 \<Longrightarrow> kpn s' d N = kernel_space (size_pages (npages s)) P E K N"
  shows "check_kern_pgdir pse (frame_kva P) (frame_kva E) percpu_kstacks s' = Some ()"
proof -
  let ?n = "size_pages (npages s)"
  have inv: "boot_inv s' fl' d" and f: "pm_frame s s'" using step by (simp_all add: boot_step_def)
  have k: "kern_pgdir s' = frame_kva d" "npages s' = npages s" using pm_frameD(1,6) [OF f] st by (simp_all add: map_start_def)
  have bi: "boot_inv s fl d" using st by (simp add: map_start_def)
  have np: "npages s \<le> 65536" "0 < npages s" using free_list_invD(1) [OF boot_invD(1) [OF bi]] boot_invD(2) [OF bi] by simp_all
  note sp = size_pages_eq [OF np(1)]
  have n0: "0 < ?n" using np(2) by (simp add: size_pages_def div_greater_zero_iff)
  have isp: "in_space s' fl' d ?n P E K" using inv sp(2) space by (simp add: in_space_def)
  have sl: "i \<in> kslots (phys s') d" if "i = 955 \<or> i = 956" for i
  proof -
    have i: "i = 955 \<or> i = 959 \<or> i = 956 \<and> 0 < ?n" using that n0 by blast
    show ?thesis by (rule kslots_present(1) [OF inv _ _ kernel_dirD(2,3) [OF kd i]]) (use that in auto)
  qed
  have phys: "of_nat (npages s) * PGSIZE = frame_addr (npages s)" by (simp add: frame_addr_def push_bit_eq_mult PGSIZE_def)
  have stacks: "assert_each (check_stack (frame_kva d) percpu_kstacks s') [0..<NCPU] = Some ()"
    by (rule assert_each_ok) (use check_stack_ok [OF isp] K in \<open>simp add: NCPU_def\<close>)
  have z: "phys s d i = 0" if "i < 955" for i using st that by (simp add: map_start_def)
  note pdes = check_pdes_ok [OF inv kd n0 z uvpt mmio]
  show ?thesis
    unfolding check_kern_pgdir_def k sp(1) size_envs phys Let_def
    using check_arrays_ok [OF isp P E sl sl] check_phys_ok [OF isp np(1)] stacks pdes by simp
qed

section \<open>Properties\<close>

text \<open>C4. From an empty directory \<open>mem_init\<close> builds exactly the memory map of \<open>inc/memlayout.h\<close>, with small
  and with large pages: the arrays \<open>pages\<close> and \<open>envs\<close> readable by the user, all physical memory at
  \<open>KERNBASE\<close>, a stack for each CPU with an unmapped gap below it, and nothing else (\<open>kernel_space\<close>; the slots of
  \<open>UVPT\<close> and \<open>MMIOBASE\<close> are not part of it). Its self test \<open>check_kern_pgdir\<close> passes.\<close>

theorem mem_init_map_builds:
  assumes "map_start d fl s" and "phys s d 957 AND PTE_P \<noteq> 0" and "phys s d 958 AND PTE_P \<noteq> 0"
    and "P + size_pages (npages s) \<le> 65536" and "E + 31 \<le> 65536" and "B + 8 \<le> 65536"
    and K: "\<And>i. i < 8 \<Longrightarrow> percpu_kstacks i = frame_kva (K i) \<and> K i + 8 \<le> 65536"
  shows "\<exists>s'. mem_init_map pse (frame_kva P) (frame_kva E) (frame_kva B) percpu_kstacks s = Some s'
    \<and> (\<forall>N<1048576. N div 1024 \<noteq> 957 \<longrightarrow> N div 1024 \<noteq> 958 \<longrightarrow>
          kpage (phys s') d (N div 1024) (N mod 1024) = kernel_space (size_pages (npages s)) P E K N)
    \<and> check_kern_pgdir pse (frame_kva P) (frame_kva E) percpu_kstacks s' = Some ()"
proof -
  obtain s' c where s': "mem_init_map pse (frame_kva P) (frame_kva E) (frame_kva B) percpu_kstacks s = Some s'"
    and step: "boot_step d s fl s' (drop c fl)" and kd: "kernel_dir pse (size_pages (npages s)) d s s'"
    and sp: "\<forall>N<1048576. N div 1024 \<noteq> 957 \<longrightarrow> N div 1024 \<noteq> 958 \<longrightarrow> kpn s' d N = kernel_space (size_pages (npages s)) P E K N"
    using mem_init_map_spec [of d fl s P E B percpu_kstacks K pse, OF assms(1,4-6) K] by blast
  have "check_kern_pgdir pse (frame_kva P) (frame_kva E) percpu_kstacks s' = Some ()"
    by (rule check_kern_pgdir_ok [OF assms(1-5) K step kd]) (use sp in simp_all)
  then show ?thesis using s' sp by blast
qed

text \<open>A machine of 128 frames: frame 2 is the directory, frame 3 the page table for \<open>MMIOBASE\<close>, frames 10 to
  109 are free.\<close>

definition boot_kern :: kern where
  "boot_kern = sample_kern\<lparr>npages := 128, page_free_list := Some 10, kern_pgdir := frame_kva 2,
     pages := (\<lambda>i. \<lparr>pp_link = (if 10 \<le> i \<and> i < 109 then Some (i + 1) else None), pp_ref = (if 10 \<le> i \<and> i < 110 then 0 else 1)\<rparr>),
     phys := (\<lambda>_ _. 0)(2 := (\<lambda>_. 0)(957 := frame_addr 2 OR PTE_U OR PTE_P, 958 := frame_addr 3 OR PTE_W OR PTE_P))\<rparr>"

lemma boot_kern_simps:
  "npages boot_kern = 128" "page_free_list boot_kern = Some 10" "kern_pgdir boot_kern = frame_kva 2"
  "phys boot_kern 2 = (\<lambda>_. 0)(957 := frame_addr 2 OR PTE_U OR PTE_P, 958 := frame_addr 3 OR PTE_W OR PTE_P)"
  "pages boot_kern i = \<lparr>pp_link = (if 10 \<le> i \<and> i < 109 then Some (i + 1) else None), pp_ref = (if 10 \<le> i \<and> i < 110 then 0 else 1)\<rparr>"
  by (simp_all add: boot_kern_def)

definition boot_list :: "nat list" where
  "boot_list = [10..<110]"

lemma boot_list_simps: "set boot_list = {10..<110}" "length boot_list = 100"
  unfolding boot_list_def by (simp_all only: set_upt length_upt)

lemma boot_kern_free: "free_list_inv boot_kern boot_list"
proof -
  have "chain (\<lambda>i. pp_link (pages boot_kern i)) (Some 10) boot_list"
    unfolding boot_list_def by (rule chain_upt) (auto simp: boot_kern_simps)
  then show ?thesis by (auto simp: free_list_inv_def boot_kern_simps boot_list_simps)
qed

lemma boot_kern_start: "map_start 2 boot_list boot_kern"
proof -
  have w: "(957 :: nat) \<noteq> 958" by simp
  have v: "(frame_addr 3 OR PTE_W OR PTE_P) AND PTE_P \<noteq> 0" "(frame_addr 3 OR PTE_W OR PTE_P) AND PTE_W \<noteq> 0"
    "(frame_addr 2 OR PTE_U OR PTE_P) AND PTE_P \<noteq> 0" "unat (PGNUM (frame_addr 3 OR PTE_W OR PTE_P)) = 3"
    by (simp_all add: frame_addr_def PTE_W_def PTE_U_def PTE_P_def PGNUM_def)
  have ks: "kslots (phys boot_kern) 2 \<subseteq> {958}" by (auto simp: kslots_def boot_kern_simps)
  have pt: "pt_frame (phys boot_kern) (2, 958) = 3" using v(4) by (simp add: pt_frame_def boot_kern_simps)
  have "\<forall>i\<in>kslots (phys boot_kern) 2. phys boot_kern 2 i AND PTE_P \<noteq> 0 \<and> phys boot_kern 2 i AND PTE_W \<noteq> 0
    \<and> pt_frame (phys boot_kern) (2, i) < npages boot_kern
    \<and> pt_frame (phys boot_kern) (2, i) \<notin> set boot_list \<and> pt_frame (phys boot_kern) (2, i) \<noteq> 2"
    using ks pt v(1,2) by (auto simp: boot_kern_simps boot_list_simps)
  moreover have "inj_on (\<lambda>i. pt_frame (phys boot_kern) (2, i)) (kslots (phys boot_kern) 2)"
    using ks by (auto simp: inj_on_def)
  moreover have "\<forall>i<1024. phys boot_kern 2 i AND PTE_PS \<noteq> 0 \<longrightarrow> phys boot_kern 2 i AND PTE_P \<noteq> 0"
    using v by (auto simp: boot_kern_simps)
  ultimately have "boot_inv boot_kern boot_list 2"
    unfolding boot_inv_def using boot_kern_free by (simp add: boot_kern_simps boot_list_simps)
  then show ?thesis by (simp add: map_start_def boot_kern_simps boot_list_simps)
qed

theorem mem_init_map_builds_witness:
  "\<exists>s'. mem_init_map True (frame_kva 4) (frame_kva 5) (frame_kva 40) (\<lambda>i. frame_kva (40 + 8 * i)) boot_kern = Some s'
    \<and> (\<forall>N<1048576. N div 1024 \<noteq> 957 \<longrightarrow> N div 1024 \<noteq> 958 \<longrightarrow>
          kpage (phys s') 2 (N div 1024) (N mod 1024) = kernel_space (size_pages 128) 4 5 (\<lambda>i. 40 + 8 * i) N)
    \<and> check_kern_pgdir True (frame_kva 4) (frame_kva 5) (\<lambda>i. frame_kva (40 + 8 * i)) s' = Some ()"
proof -
  have v: "phys boot_kern 2 957 AND PTE_P \<noteq> 0" "phys boot_kern 2 958 AND PTE_P \<noteq> 0"
    by (simp_all add: boot_kern_simps frame_addr_def PTE_W_def PTE_U_def PTE_P_def)
  show ?thesis
    using mem_init_map_builds [OF boot_kern_start v, of 4 5 40 "\<lambda>i. frame_kva (40 + 8 * i)" "\<lambda>i. 40 + 8 * i" True]
    by (simp add: boot_kern_simps(1) size_pages_def)
qed

end
