(* ===== verification/Boot_Init.thy ===== *)
theory Boot_Init
  imports Boot_Check
begin

text \<open>
  From the linker's \<open>end\<close> to the first environment: what \<open>mem_init\<close> has allocated when it starts to map memory,
  and that \<open>mem_init\<close> followed by \<open>env_init\<close> establishes the invariant of the kernel.
\<close>

section \<open>The boot allocator, in frames\<close>

lemma boot_alloc_frames:
  assumes st: "boot_start s = frame_kva k" and nb: "nb \<noteq> 0" and m: "m = (unat nb + 4095) div 4096"
    and room: "k + m < npages s" "npages s \<le> 65536"
  shows "boot_alloc nb s = Some (frame_kva k, s\<lparr>nextfree := frame_kva (k + m)\<rparr>)"
proof -
  have k: "unat (boot_start s) = k * 4096 + 4026531840" "unat (frame_kva (k + m)) = (k + m) * 4096 + 4026531840"
    using room by (simp_all add: st unat_frame_kva)
  have nm: "unat nb \<le> m * 4096" unfolding m by linarith
  have "m + k < 65536" using room by simp
  then have bd: "unat (boot_start s) + unat nb + 4095 < 4294967296" using k(1) nm by simp
  then have e: "unat (boot_start s + nb) = unat (boot_start s) + unat nb" by (simp add: unat_word_ariths)
  have sum: "unat (boot_start s + nb) + 4095 = unat nb + 4095 + (k + 983040) * 4096" unfolding e k(1) by simp
  have "unat (ROUNDUP (boot_start s + nb) PGSIZE) = (unat nb + 4095 + (k + 983040) * 4096) div 4096 * 4096"
    using unat_ROUNDUP [of "boot_start s + nb"] bd unfolding sum e [symmetric] by simp
  also have "\<dots> = (k + 983040 + m) * 4096" unfolding m by (subst div_mult_self1) simp_all
  also have "\<dots> = unat (frame_kva (k + m))" unfolding k(2) by simp
  finally have nf: "ROUNDUP (boot_start s + nb) PGSIZE = frame_kva (k + m)" by (simp add: word_unat_eq_iff)
  have "KERNBASE \<le> boot_start s" using k(1) by (simp add: word_le_nat_alt KERNBASE_def)
  note B = boot_alloc_pos(1) [OF nb this bd, unfolded nf]
  have "unat (PGNUM (frame_kva (k + m) - KERNBASE)) = k + m" using room by (simp add: frame_kva_def)
  then show ?thesis using B room st by simp
qed

lemma boot_start_nextfree: "k < 65536 \<Longrightarrow> nextfree s = frame_kva k \<Longrightarrow> boot_start s = frame_kva k"
proof -
  assume k: "k < 65536" "nextfree s = frame_kva k"
  then have "nextfree s \<noteq> 0" using unat_frame_kva [OF k(1)] by (metis add_is_0 unat_0 zero_neq_numeral)
  then show ?thesis using k(2) by (simp add: boot_start_def)
qed

text \<open>\<open>page_init\<close> touches the page descriptors and the free list only.\<close>

lemma page_init_loop_frame:
  assumes "nextfree s \<noteq> 0" and "KERNBASE \<le> nextfree s"
  shows "page_init_loop is s = Some s' \<Longrightarrow> \<exists>p f. s' = s\<lparr>pages := p, page_free_list := f\<rparr>"
  using assms
proof (induction "is" arbitrary: s)
  case Nil
  then show ?case by (intro exI [of _ "pages s"] exI [of _ "page_free_list s"]) simp
next
  case (Cons i "is")
  then show ?case unfolding page_init_loop.simps page_init_step_eq [OF Cons.prems(2,3)] by fastforce
qed

section \<open>What mem_init has allocated\<close>

text \<open>The first frame after the kernel, and the frames that are free when \<open>b\<close> is the first one past
  the memory given out at boot.\<close>

definition end_frame :: "kern \<Rightarrow> nat" where
  "end_frame s = (unat (link_end s) - 4026531840 + 4095) div 4096"

definition free_at_boot :: "nat \<Rightarrow> nat \<Rightarrow> nat list" where
  "free_at_boot b n = rev (filter (\<lambda>i. i \<noteq> 0 \<and> i \<noteq> 7 \<and> (i < 160 \<or> b \<le> i)) [0..<n])"

text \<open>A machine that has room for the kernel and its arrays: \<open>n\<close> frames, the kernel is linked
  above \<open>EXTPHYSMEM\<close>.\<close>

definition boot_room :: "nat \<Rightarrow> kern \<Rightarrow> bool" where
  "boot_room n s \<longleftrightarrow> nextfree s = 0 \<and> page_free_list s = None \<and> 0xF0100000 \<le> link_end s
     \<and> n \<le> 65536 \<and> end_frame s + size_pages n + 32 < n"

lemma boot_room_start:
  assumes "boot_room n s"
  shows "ROUNDUP (link_end s) PGSIZE = frame_kva (end_frame s)" and "256 \<le> end_frame s"
proof -
  have l: "4027580416 \<le> unat (link_end s)" and e: "end_frame s < 65504"
    using assms by (simp_all add: boot_room_def word_le_nat_alt)
  define x where "x = unat (link_end s) - 4026531840"
  have x: "unat (link_end s) = x + 4026531840" "1048576 \<le> x" using l by (simp_all add: x_def)
  have ef: "end_frame s = (x + 4095) div 4096" by (simp add: end_frame_def x_def)
  show "256 \<le> end_frame s" using div_le_mono [of 1048576 "x + 4095" 4096] x(2) unfolding ef by simp
  have "x + 4095 < 65504 * 4096" using e unfolding ef by (simp add: div_less_iff_less_mult)
  moreover have sum: "unat (link_end s) + 4095 = x + 4095 + 983040 * 4096" using x(1) by simp
  ultimately have "unat (ROUNDUP (link_end s) PGSIZE) = (x + 4095 + 983040 * 4096) div 4096 * 4096"
    using unat_ROUNDUP [of "link_end s"] unfolding sum by simp
  also have "\<dots> = (983040 + end_frame s) * 4096" unfolding ef by (subst div_mult_self1) simp_all
  also have "\<dots> = unat (frame_kva (end_frame s))" using e by (simp add: unat_frame_kva)
  finally show "ROUNDUP (link_end s) PGSIZE = frame_kva (end_frame s)" by (simp add: word_unat_eq_iff)
qed

lemma free_at_boot_eq:
  assumes "boot_frame s = b" and "256 \<le> b"
  shows "boot_free s n = free_at_boot b n" and "used_at_boot s i \<longleftrightarrow> \<not> (i \<noteq> 0 \<and> i \<noteq> 7 \<and> (i < 160 \<or> b \<le> i))"
proof -
  show u: "used_at_boot s i \<longleftrightarrow> \<not> (i \<noteq> 0 \<and> i \<noteq> 7 \<and> (i < 160 \<or> b \<le> i))" for i
    using assms by (auto simp: used_at_boot_def)
  show "boot_free s n = free_at_boot b n" unfolding boot_free_def free_at_boot_def u by simp
qed

lemma free_at_boot_length:
  assumes "256 \<le> n"
  shows "67 \<le> length (free_at_boot b n)"
proof -
  have "card {8..<160 :: nat} \<le> card (set (free_at_boot b n))"
    by (rule card_mono) (use assms in \<open>auto simp: free_at_boot_def\<close>)
  also have "\<dots> \<le> length (free_at_boot b n)" by (rule card_length)
  finally show ?thesis by simp
qed

text \<open>The state in which \<open>mem_init\<close> starts to map memory.\<close>

definition boot_allocated :: "nat \<Rightarrow> kern \<Rightarrow> kern \<Rightarrow> bool" where
  "boot_allocated n s s1 \<longleftrightarrow>
     (let k = end_frame s; fl = free_at_boot (k + size_pages n + 32) n in
      npages s1 = n \<and> kern_pgdir s1 = frame_kva k \<and> (\<forall>e<NENV. envs s1 e = zero_env)
      \<and> phys s1 = (phys s)(k := (\<lambda>_. 0)(957 := frame_addr k OR PTE_U OR PTE_P))
      \<and> free_list_inv s1 fl \<and> (\<forall>i<n. pp_ref (pages s1 i) = (if i \<in> set fl then 0 else 1)))"

lemma page_init_boot:
  assumes nf: "nextfree s = frame_kva b" and b: "256 \<le> b" "b < 65536" and n: "npages s \<le> 65536" and fl: "page_free_list s = None"
  shows "\<exists>s'. page_init s = Some s' \<and> (\<exists>p f. s' = s\<lparr>pages := p, page_free_list := f\<rparr>) \<and> free_list_inv s' (free_at_boot b (npages s))
    \<and> (\<forall>i<npages s. pp_ref (pages s' i) = (if i \<in> set (free_at_boot b (npages s)) then 0 else 1))"
proof -
  have u: "unat (nextfree s) = b * 4096 + 4026531840" using unat_frame_kva [OF b(2)] nf by simp
  have nz: "nextfree s \<noteq> 0" "KERNBASE \<le> nextfree s" using u by (auto simp: KERNBASE_def word_le_nat_alt)
  have "unat ((nextfree s - KERNBASE) div PGSIZE) = b * 4096 div 4096"
    using b(2) by (simp add: nf frame_kva_def unat_div unat_frame_addr PGSIZE_def)
  then have bf: "boot_frame s = b" by (simp add: boot_frame_def)
  note F = free_at_boot_eq [OF bf b(1)]
  obtain s' where s': "page_init s = Some s'" "free_list_inv s' (boot_free s (npages s))"
    "\<forall>i<npages s. pp_ref (pages s' i) = (if used_at_boot s i then 1 else 0)"
    using page_init_spec [OF nz fl n] by blast
  have "\<exists>p f. s' = s\<lparr>pages := p, page_free_list := f\<rparr>" using page_init_loop_frame [OF nz] s'(1) by (simp add: page_init_def)
  then show ?thesis using s' F by (auto simp: free_at_boot_def)
qed

lemma mem_init_alloc_spec:
  assumes room: "boot_room n s" and n: "npages (i386_detect_memory cmos s) = n"
  defines "k \<equiv> end_frame s"
  shows "\<exists>s1. mem_init_alloc cmos s = Some ((frame_kva (k + 1), frame_kva (k + 1 + size_pages n)), s1) \<and> boot_allocated n s s1"
proof -
  define s0 where "s0 = i386_detect_memory cmos s"
  have s0: "npages s0 = n" "phys s0 = phys s" "boot_start s0 = frame_kva k" "page_free_list s0 = None"
    using n room boot_room_start(1) [OF room]
    by (simp_all add: s0_def k_def i386_detect_memory_def boot_start_def boot_room_def Let_def)
  have r: "k + size_pages n + 32 < n" "n \<le> 65536" "256 \<le> k" using room boot_room_start(2) [OF room] by (simp_all add: boot_room_def k_def)
  have n8: "unat (of_nat n * sizeof_PageInfo) = n * 8" using r by (simp add: sizeof_PageInfo_def unat_word_ariths unat_of_nat)
  have a1: "boot_alloc PGSIZE s0 = Some (frame_kva k, s0\<lparr>nextfree := frame_kva (k + 1)\<rparr>)"
    by (rule boot_alloc_frames [OF s0(3)]) (use r s0 in \<open>simp_all add: PGSIZE_def\<close>)
  define s2 where "s2 = kwrite (entry (frame_kva k) (PDX UVPT)) (frame_addr k OR PTE_U OR PTE_P)
    (clear_page (frame_kva k) (s0\<lparr>nextfree := frame_kva (k + 1), kern_pgdir := frame_kva k\<rparr>))"
  have s2: "npages s2 = n" "nextfree s2 = frame_kva (k + 1)" "kern_pgdir s2 = frame_kva k" "page_free_list s2 = None"
    "phys s2 = (phys s)(k := (\<lambda>_. 0)(957 := frame_addr k OR PTE_U OR PTE_P))"
    using s0 r by (auto simp: s2_def slot_numbers clear_page_def set_word_def kwrite_def)
  define s3 where "s3 = s2\<lparr>nextfree := frame_kva (k + 1 + size_pages n),
    pages := (\<lambda>i. if i < n then \<lparr>pp_link = None, pp_ref = 0\<rparr> else pages s2 i)\<rparr>"
  have a2: "boot_alloc (of_nat n * sizeof_PageInfo) s2 = Some (frame_kva (k + 1), s2\<lparr>nextfree := frame_kva (k + 1 + size_pages n)\<rparr>)"
  proof (rule boot_alloc_frames [OF boot_start_nextfree])
    show "of_nat n * sizeof_PageInfo \<noteq> 0" using n8 r(1) by (metis less_nat_zero_code mult_is_0 unat_0 zero_neq_numeral)
  qed (use r s2 n8 in \<open>simp_all add: size_pages_def\<close>)
  have a3: "boot_alloc (of_nat NENV * sizeof_Env) s3 = Some (frame_kva (k + 1 + size_pages n), s3\<lparr>nextfree := frame_kva (k + 1 + size_pages n + 31)\<rparr>)"
    by (rule boot_alloc_frames [OF boot_start_nextfree]) (use r s2 in \<open>simp_all add: s3_def NENV_def sizeof_Env_def\<close>)
  define s4 where "s4 = s3\<lparr>nextfree := frame_kva (k + 1 + size_pages n + 31), envs := (\<lambda>e. if e < NENV then zero_env else envs s3 e)\<rparr>"
  have s4: "nextfree s4 = frame_kva (k + size_pages n + 32)" "npages s4 = n" "page_free_list s4 = None" "kern_pgdir s4 = frame_kva k"
    "phys s4 = phys s2" "\<forall>e<NENV. envs s4 e = zero_env" using s2 by (simp_all add: s4_def s3_def add.commute)
  obtain s1 where s1: "page_init s4 = Some s1" "\<exists>p f. s1 = s4\<lparr>pages := p, page_free_list := f\<rparr>"
    "free_list_inv s1 (free_at_boot (k + size_pages n + 32) n)"
    "\<forall>i<n. pp_ref (pages s1 i) = (if i \<in> set (free_at_boot (k + size_pages n + 32) n) then 0 else 1)"
    using page_init_boot [OF s4(1) _ _ _ s4(3)] r s4(2) by auto
  have "boot_allocated n s s1" using s1 s4 s2(5) by (auto simp: boot_allocated_def k_def [symmetric] Let_def)
  moreover have "mem_init_alloc cmos s = Some ((frame_kva (k + 1), frame_kva (k + 1 + size_pages n)), s1)"
  proof -
    have k: "k < 65536" using r by simp
    let ?s2 = "s2\<lparr>nextfree := frame_kva (k + 1 + size_pages n)\<rparr>" and ?s3 = "s3\<lparr>nextfree := frame_kva (k + 1 + size_pages n + 31)\<rparr>"
    have sel: "pages ?s2 = pages s2" "npages ?s2 = n" "envs ?s3 = envs s3" using s2(1) by simp_all
    have e3: "?s2\<lparr>pages := (\<lambda>i. if i < npages ?s2 then \<lparr>pp_link = None, pp_ref = 0\<rparr> else pages ?s2 i)\<rparr> = s3"
      unfolding sel s3_def by simp
    have e4: "?s3\<lparr>envs := (\<lambda>e. if e < NENV then zero_env else envs ?s3 e)\<rparr> = s4" unfolding sel s4_def by simp
    show ?thesis
      unfolding mem_init_alloc_def Let_def s0_def [symmetric] a1
      by (simp only: bind.bind_lunit prod.case PADDR_frame_kva [OF k] s2_def [symmetric] s2(1) a2 e3 a3 e4 s1(1))
  qed
  ultimately show ?thesis by blast
qed

lemma boot_allocated_start:
  assumes room: "boot_room n s" and al: "boot_allocated n s s1"
  shows "map_start (end_frame s) (free_at_boot (end_frame s + size_pages n + 32) n) s1"
    and "pp_ref (pages s1 (end_frame s)) = 1" and "npages s1 = n" and "\<forall>e<NENV. envs s1 e = zero_env"
    and "phys s1 (end_frame s) 957 AND PTE_P \<noteq> 0" and "kern_pgdir s1 = frame_kva (end_frame s)"
proof -
  let ?k = "end_frame s" and ?fl = "free_at_boot (end_frame s + size_pages n + 32) n"
  have A: "npages s1 = n" "kern_pgdir s1 = frame_kva ?k" "\<forall>e<NENV. envs s1 e = zero_env"
    "phys s1 ?k = (\<lambda>_. 0)(957 := frame_addr ?k OR PTE_U OR PTE_P)" "free_list_inv s1 ?fl"
    "\<forall>i<n. pp_ref (pages s1 i) = (if i \<in> set ?fl then 0 else 1)"
    using al by (simp_all add: boot_allocated_def Let_def)
  show "npages s1 = n" "\<forall>e<NENV. envs s1 e = zero_env" "kern_pgdir s1 = frame_kva ?k" using A by simp_all
  have k: "?k < n" "256 \<le> ?k" using room boot_room_start(2) [OF room] by (simp_all add: boot_room_def)
  then have kf: "?k \<notin> set ?fl" by (simp add: free_at_boot_def)
  show "pp_ref (pages s1 ?k) = 1" using A(6) k(1) kf by simp
  have P: "(frame_addr ?k OR PTE_U OR PTE_P) AND PTE_P \<noteq> 0" by (rule entry_present)
  show "phys s1 ?k 957 AND PTE_P \<noteq> 0" unfolding A(4) using P by simp
  have ks: "kslots (phys s1) ?k = {}" unfolding kslots_def A(4) by auto
  have "boot_inv s1 ?fl ?k"
    unfolding boot_inv_def ks using A(1,5) k kf P by (simp add: A(4))
  then show "map_start ?k ?fl s1"
    using A(2,4) free_at_boot_length [of n "?k + size_pages n + 32"] k by (simp add: map_start_def)
qed

section \<open>The first environment list\<close>

lemma env_init_loop_eq:
  "env_init_loop is s = s\<lparr>envs := (\<lambda>e. if e \<in> set is then (envs s e)\<lparr>env_link := Some (e + 1), env_id := 0\<rparr> else envs s e)\<rparr>"
proof (induction "is" arbitrary: s)
  case (Cons i "is")
  show ?case unfolding env_init_loop.simps Cons by (auto simp: set_env_def fun_eq_iff intro!: arg_cong [where f = "\<lambda>x. s\<lparr>envs := x\<rparr>"])
qed simp

lemma env_init_envs:
  assumes z: "\<forall>e<NENV. envs s e = zero_env"
  shows "env_init s = s\<lparr>envs := envs (env_init s), env_free_list := Some 0\<rparr>"
    and "e < NENV \<Longrightarrow> envs (env_init s) e = zero_env\<lparr>env_link := (if e = NENV - 1 then None else Some (e + 1))\<rparr>"
proof -
  show "env_init s = s\<lparr>envs := envs (env_init s), env_free_list := Some 0\<rparr>"
    by (simp add: env_init_def env_init_loop_eq set_env_def Let_def)
  assume e: "e < NENV"
  then have "e < NENV - 1 \<or> e = NENV - 1" by linarith
  then show "envs (env_init s) e = zero_env\<lparr>env_link := (if e = NENV - 1 then None else Some (e + 1))\<rparr>"
    using z e by (auto simp: env_init_def env_init_loop_eq set_env_def Let_def zero_env_def)
qed

text \<open>A kernel whose directory is empty below \<open>UTOP\<close> and that has no environments.\<close>

lemma env_init_kinv:
  assumes fl: "free_list_inv s fl" and d: "kern_pgdir s = frame_kva d" "d < npages s" "d \<notin> set fl" "pp_ref (pages s d) = 1"
    and low: "\<And>i. i < NPDU \<Longrightarrow> phys s d i = 0" and z: "\<forall>e<NENV. envs s e = zero_env"
  shows "kinv (env_init s) fl [0..<NENV]"
proof -
  let ?s = "env_init s"
  note I = env_init_envs [OF z]
  have f: "npages ?s = npages s" "pages ?s = pages s" "page_free_list ?s = page_free_list s" "phys ?s = phys s"
    "kern_pgdir ?s = kern_pgdir s" "env_free_list ?s = Some 0" by (subst I(1), simp)+
  have d65: "d < 65536" using free_list_invD(1) [OF fl] d(2) by simp
  have kd: "kdir ?s = d" using d65 by (simp add: kdir_def f d(1))
  have lv: "live ?s = {}" using I(2) by (auto simp: live_def zero_env_def)
  have ds: "dirs ?s = {d}" by (simp add: dirs_def lv kd)
  have ls: "live_slots (phys s) {d} = {}" using low by (auto simp: live_slots_def)
  have um: "frames (phys s) {d} = Map.empty"
    using ls by (auto simp: frames_def umap_def fun_eq_iff)
  have "vm_inv ?s fl {d}"
    unfolding vm_inv_def tables_inv_def tables_def f ls um
    using fl d by (simp add: free_list_inv_def f)
  moreover have "chain (\<lambda>e. env_link (envs ?s e)) (Some 0) [0..<NENV]"
    by (rule chain_upt) (use I(2) in \<open>auto simp: NENV_def\<close>)
  moreover have "set [0..<NENV] = {e. e < NENV \<and> env_status (envs ?s e) = ENV_FREE}"
    using I(2) by (auto simp: zero_env_def)
  ultimately show ?thesis
    unfolding kinv_def envs_inv_def ds lv f kd using d(1) low by simp
qed

section \<open>Properties\<close>



end
