(* ===== verification/Sched.thy ===== *)
theory Sched
  imports Env_Inv
begin

text \<open>
  Handing the processor over: the big kernel lock (\<open>kern/spinlock.c\<close>), \<open>env_run\<close> and
  \<open>env_destroy\<close> (\<open>kern/env.c\<close>), the round-robin scheduler (\<open>kern/sched.c\<close>) and
  \<open>user_mem_assert\<close> (\<open>kern/pmap.c\<close>). Functions that do not return to their caller are
  modelled by the way control leaves the kernel.
\<close>

section \<open>How a kernel function ends\<close>

text \<open>A kernel function returns a value, enters user mode, halts the CPU, stays in the kernel
  monitor, spins on the kernel lock, or panics.\<close>

datatype 'a outcome =
    Return 'a kern
  | EnterUser kern
  | Halted kern
  | Monitor kern
  | Spinning kern
  | Panic

primrec obind :: "'a outcome \<Rightarrow> ('a \<Rightarrow> kern \<Rightarrow> 'b outcome) \<Rightarrow> 'b outcome" where
  "obind (Return x s) f = f x s"
| "obind (EnterUser s) f = EnterUser s"
| "obind (Halted s) f = Halted s"
| "obind (Monitor s) f = Monitor s"
| "obind (Spinning s) f = Spinning s"
| "obind Panic f = Panic"

definition of_state :: "kern option \<Rightarrow> unit outcome" where
  "of_state r = (case r of None \<Rightarrow> Panic | Some s \<Rightarrow> Return () s)"

definition of_result :: "('a \<times> kern) option \<Rightarrow> 'a outcome" where
  "of_result r = (case r of None \<Rightarrow> Panic | Some (x, s) \<Rightarrow> Return x s)"

section \<open>The kernel lock\<close>

definition spin_lock :: "kern \<Rightarrow> unit outcome" where
  "spin_lock s =
     (if kernel_lock s = Some (this_cpu s) then Panic
      else if kernel_lock s \<noteq> None then Spinning s
      else Return () (s\<lparr>kernel_lock := Some (this_cpu s)\<rparr>))"

definition spin_unlock :: "kern \<Rightarrow> unit outcome" where
  "spin_unlock s =
     (if kernel_lock s \<noteq> Some (this_cpu s) then Panic
      else Return () (s\<lparr>kernel_lock := None\<rparr>))"

section \<open>Running an environment\<close>

definition set_curenv :: "nat option \<Rightarrow> kern \<Rightarrow> kern" where
  "set_curenv e s = s\<lparr>cpus := (cpus s)(this_cpu s := (cpus s (this_cpu s))\<lparr>cpu_env := e\<rparr>)\<rparr>"

definition env_pop_tf :: "kern \<Rightarrow> unit outcome" where
  "env_pop_tf s =
     (case curenv s of
        None \<Rightarrow> Panic
      | Some c \<Rightarrow> EnterUser (set_env c (\<lambda>v. v\<lparr>env_cpunum := this_cpu s\<rparr>) s))"

definition env_run :: "nat \<Rightarrow> kern \<Rightarrow> unit outcome" where
  "env_run e s =
     (let s1 = (case curenv s of
                  None \<Rightarrow> s
                | Some c \<Rightarrow> if env_status (envs s c) = ENV_RUNNING
                            then set_env c (\<lambda>v. v\<lparr>env_status := ENV_RUNNABLE\<rparr>) s else s);
          s2 = set_curenv (Some e) s1;
          s3 = set_env e (\<lambda>v. v\<lparr>env_status := ENV_RUNNING, env_runs := env_runs v + 1\<rparr>) s2
      in case PADDR (env_pgdir (envs s3 e)) of
           None \<Rightarrow> Panic
         | Some pa \<Rightarrow> obind (spin_unlock (lcr3 pa s3)) (\<lambda>_ s4. env_pop_tf s4))"

section \<open>The scheduler\<close>

definition sched_halt :: "kern \<Rightarrow> unit outcome" where
  "sched_halt s =
     (if list_all (\<lambda>i. env_status (envs s i) \<notin> {ENV_RUNNABLE, ENV_RUNNING, ENV_DYING}) [0..<NENV]
      then Monitor s
      else case PADDR (kern_pgdir s) of
          None \<Rightarrow> Panic
        | Some pa \<Rightarrow>
            let s1 = lcr3 pa (set_curenv None s);
                s2 = s1\<lparr>cpus := (cpus s1)(this_cpu s1 := (cpus s1 (this_cpu s1))\<lparr>cpu_status := CPU_HALTED\<rparr>)\<rparr>
            in obind (spin_unlock s2) (\<lambda>_ s3. Halted s3))"

text \<open>The slots in the order in which the loop of \<open>sched_yield\<close> visits them.\<close>

definition sched_order :: "kern \<Rightarrow> nat list" where
  "sched_order s =
     (let cur_env_id = (case curenv s of None \<Rightarrow> 0 | Some c \<Rightarrow> ENVX (env_id (envs s c)))
      in map (\<lambda>i. (cur_env_id + i) mod NENV) [0..<NENV])"

definition sched_yield :: "kern \<Rightarrow> unit outcome" where
  "sched_yield s =
     (case find (\<lambda>e. env_status (envs s e) = ENV_RUNNABLE) (sched_order s) of
        Some e \<Rightarrow> env_run e s
      | None \<Rightarrow>
          (case curenv s of
             Some c \<Rightarrow> if env_status (envs s c) = ENV_RUNNING then env_run c s else sched_halt s
           | None \<Rightarrow> sched_halt s))"

section \<open>Destroying an environment\<close>

definition env_destroy :: "nat \<Rightarrow> kern \<Rightarrow> unit outcome" where
  "env_destroy e s =
     (if env_status (envs s e) = ENV_RUNNING \<and> curenv s \<noteq> Some e
      then Return () (set_env e (\<lambda>v. v\<lparr>env_status := ENV_DYING\<rparr>) s)
      else obind (of_state (env_free e s))
             (\<lambda>_ s1. if curenv s1 = Some e then sched_yield (set_curenv None s1) else Return () s1))"

definition user_mem_assert :: "nat \<Rightarrow> u32 \<Rightarrow> u32 \<Rightarrow> u32 \<Rightarrow> kern \<Rightarrow> unit outcome" where
  "user_mem_assert e va len perm s =
     obind (of_result (user_mem_check e va len (perm OR PTE_U) s))
       (\<lambda>r s1. case r of Inl _ \<Rightarrow> env_destroy e s1 | Inr _ \<Rightarrow> Return () s1)"

section \<open>Steps that keep every address space\<close>

text \<open>Two states with the same memory, page descriptors and directories, and the same
  environments in use: they differ in statuses, registers, CPUs, the lock or the console.\<close>

definition same_spaces :: "kern \<Rightarrow> kern \<Rightarrow> bool" where
  "same_spaces s s' \<longleftrightarrow>
     phys s' = phys s \<and> pages s' = pages s \<and> npages s' = npages s \<and>
     page_free_list s' = page_free_list s \<and> kern_pgdir s' = kern_pgdir s \<and>
     env_free_list s' = env_free_list s \<and>
     (\<forall>x. env_pgdir (envs s' x) = env_pgdir (envs s x) \<and> env_id (envs s' x) = env_id (envs s x)
        \<and> env_link (envs s' x) = env_link (envs s x)
        \<and> (env_status (envs s' x) = ENV_FREE \<longleftrightarrow> env_status (envs s x) = ENV_FREE))"

lemma same_spaces_refl [simp, intro]: "same_spaces s s"
  by (simp add: same_spaces_def)

lemma same_spaces_trans [trans]: "same_spaces s t \<Longrightarrow> same_spaces t u \<Longrightarrow> same_spaces s u"
  by (auto simp: same_spaces_def)

lemma same_spacesD:
  assumes "same_spaces s s'"
  shows "live s' = live s" and "env_dir s' = env_dir s" and "kdir s' = kdir s" and "dirs s' = dirs s"
    and "uspace s' = uspace s" and "owned s' fl D = owned s fl D" and "vm_inv s' fl D = vm_inv s fl D"
    and "kinv s' fl el = kinv s fl el" and "phys s' = phys s" and "npages s' = npages s"
proof -
  have eq: "phys s' = phys s" "pages s' = pages s" "npages s' = npages s"
    "page_free_list s' = page_free_list s" "kern_pgdir s' = kern_pgdir s" "env_free_list s' = env_free_list s"
    "\<And>x. env_pgdir (envs s' x) = env_pgdir (envs s x)" "\<And>x. env_id (envs s' x) = env_id (envs s x)"
    "\<And>x. env_link (envs s' x) = env_link (envs s x)"
    "\<And>x. env_status (envs s' x) = ENV_FREE \<longleftrightarrow> env_status (envs s x) = ENV_FREE"
    using assms by (simp_all add: same_spaces_def)
  show "phys s' = phys s" "npages s' = npages s" using eq by simp_all
  show l: "live s' = live s" and d: "env_dir s' = env_dir s" and k: "kdir s' = kdir s"
    using eq by (simp_all add: live_def env_dir_def kdir_def fun_eq_iff)
  show D: "dirs s' = dirs s" by (simp add: dirs_def l d k)
  show "uspace s' = uspace s" by (simp add: uspace_def D d eq fun_eq_iff)
  show "owned s' fl D = owned s fl D" by (simp add: owned_def eq)
  have v: "vm_inv s' fl D = vm_inv s fl D" for D by (simp add: vm_inv_def free_list_inv_def eq)
  then show "vm_inv s' fl D = vm_inv s fl D" .
  show "kinv s' fl el = kinv s fl el" unfolding kinv_def envs_inv_def v D l d k by (simp add: eq)
qed

lemma same_spaces_set_env:
  assumes "\<And>v. env_pgdir (f v) = env_pgdir v" and "\<And>v. env_id (f v) = env_id v"
    and "\<And>v. env_link (f v) = env_link v"
    and "env_status (f (envs s e)) = ENV_FREE \<longleftrightarrow> env_status (envs s e) = ENV_FREE"
  shows "same_spaces s (set_env e f s)"
  using assms by (simp add: same_spaces_def)

lemma same_spaces_ops [simp, intro]:
  "same_spaces s (set_curenv c s)" "same_spaces s (lcr3 a s)" "same_spaces s (s\<lparr>kernel_lock := l\<rparr>)"
  "same_spaces s (s\<lparr>cpus := cs\<rparr>)" "same_spaces s (s\<lparr>user_mem_check_addr := a\<rparr>)"
  "same_spaces s (s\<lparr>cons := k\<rparr>)"
  by (simp_all add: same_spaces_def set_curenv_def lcr3_def)

section \<open>What env_run and the scheduler do\<close>

text \<open>The current environment of this CPU is in use and this CPU holds the kernel lock: the
  situation in which every function below is called.\<close>

definition cpu_ok :: "kern \<Rightarrow> bool" where
  "cpu_ok s \<longleftrightarrow> (\<forall>e. curenv s = Some e \<longrightarrow> e \<in> live s) \<and> kernel_lock s = Some (this_cpu s)"

lemma curenv_set_curenv [simp]: "curenv (set_curenv e s) = e"
  by (simp add: curenv_def set_curenv_def)

lemma set_curenv_frame [simp]:
  "envs (set_curenv e s) = envs s" "this_cpu (set_curenv e s) = this_cpu s"
  "kernel_lock (set_curenv e s) = kernel_lock s" "phys (set_curenv e s) = phys s"
  "kern_pgdir (set_curenv e s) = kern_pgdir s" "cr3 (set_curenv e s) = cr3 s"
  by (simp_all add: set_curenv_def)

lemma more_frame [simp]:
  "cr3 (lcr3 a s) = a" "curenv (s\<lparr>kernel_lock := l\<rparr>) = curenv s"
  "curenv (s\<lparr>cons := k\<rparr>) = curenv s" "curenv (s\<lparr>user_mem_check_addr := a\<rparr>) = curenv s"
  by (simp_all add: set_env_def lcr3_def curenv_def)

text \<open>The status an environment has after this CPU switched to \<open>e\<close>.\<close>

definition status_after_run :: "kern \<Rightarrow> nat \<Rightarrow> nat \<Rightarrow> EnvStatus" where
  "status_after_run s e x =
     (if x = e then ENV_RUNNING
      else if curenv s = Some x \<and> env_status (envs s x) = ENV_RUNNING then ENV_RUNNABLE
      else env_status (envs s x))"

lemma env_run_spec:
  assumes k: "kinv s fl el" and e: "e \<in> live s" and c: "cpu_ok s"
  obtains s' where "env_run e s = EnterUser s'" and "same_spaces s s'" and "curenv s' = Some e"
    and "cr3 s' = frame_addr (env_dir s e)" and "kernel_lock s' = None" and "this_cpu s' = this_cpu s"
    and "\<And>x. env_status (envs s' x) = status_after_run s e x"
    and "\<And>x. env_tf (envs s' x) = env_tf (envs s x)"
    and "env_runs (envs s' e) = env_runs (envs s e) + 1"
proof -
  let ?s1 = "case curenv s of None \<Rightarrow> s | Some c \<Rightarrow> if env_status (envs s c) = ENV_RUNNING
      then set_env c (\<lambda>v. v\<lparr>env_status := ENV_RUNNABLE\<rparr>) s else s"
  let ?s3 = "set_env e (\<lambda>v. v\<lparr>env_status := ENV_RUNNING, env_runs := env_runs v + 1\<rparr>)
      (set_curenv (Some e) ?s1)"
  let ?s' = "set_env e (\<lambda>v. v\<lparr>env_cpunum := this_cpu s\<rparr>)
      ((lcr3 (frame_addr (env_dir s e)) ?s3)\<lparr>kernel_lock := None\<rparr>)"
  have nf: "env_status (envs s e) \<noteq> ENV_FREE" using e by (simp add: live_def)
  have s1: "same_spaces s ?s1"
    by (auto intro!: same_spaces_set_env split: option.split)
  have f1: "this_cpu ?s1 = this_cpu s" "kernel_lock ?s1 = kernel_lock s"
    "env_pgdir (envs ?s1 x) = env_pgdir (envs s x)" "env_status (envs ?s1 e) \<noteq> ENV_FREE"
    "env_runs (envs ?s1 x) = env_runs (envs s x)" "env_tf (envs ?s1 x) = env_tf (envs s x)" for x
    using nf by (auto split: option.split)
  have d6: "env_dir s e < 65536" using vm_invD(5) [OF kinvD(1) [OF k]] kinvD(12) [OF k e] .
  have pa: "PADDR (env_pgdir (envs ?s3 e)) = Some (frame_addr (env_dir s e))"
    using kinvD(6) [OF k e] d6 f1(3) by simp
  have "same_spaces ?s1 ?s'"
    using f1(4) by (simp add: same_spaces_def set_curenv_def lcr3_def set_env_def)
  then have ss: "same_spaces s ?s'" using s1 by (meson same_spaces_trans)
  have run: "env_run e s = EnterUser ?s'"
    unfolding env_run_def Let_def pa using c f1(1,2)
    by (simp add: spin_unlock_def cpu_ok_def env_pop_tf_def)
  show thesis
  proof (rule that [OF run ss])
    show "env_status (envs ?s' x) = status_after_run s e x" for x
      by (auto simp: status_after_run_def split: option.split)
  qed (use f1 in \<open>simp_all add: curenv_def set_curenv_def\<close>)
qed

lemma env_run_cpu_status:
  assumes "env_run e s = EnterUser s'"
  shows "cpu_status (cpus s' i) = cpu_status (cpus s i)" and "this_cpu s' = this_cpu s"
  using assms
  by (auto simp: env_run_def Let_def spin_unlock_def env_pop_tf_def set_curenv_def set_env_def lcr3_def
      split: option.splits if_splits)

text \<open>Slots in circular order: how far \<open>b\<close> lies after \<open>a\<close>.\<close>

definition ahead :: "nat \<Rightarrow> nat \<Rightarrow> nat" where
  "ahead a b = (b + NENV - a) mod NENV"

definition sched_start :: "kern \<Rightarrow> nat" where
  "sched_start s = (case curenv s of None \<Rightarrow> 0 | Some c \<Rightarrow> ENVX (env_id (envs s c)))"

lemma sched_start_less: "sched_start s < NENV"
  by (auto simp: sched_start_def NENV_def ENVX_def unat_and_3FF split: option.split)

lemma sched_order_nth: "i < NENV \<Longrightarrow> sched_order s ! i = (sched_start s + i) mod NENV"
  by (simp add: sched_order_def sched_start_def Let_def)

lemma sched_order_length [simp]: "length (sched_order s) = NENV"
  by (simp add: sched_order_def Let_def)

lemma ahead_mod: "a < NENV \<Longrightarrow> i < NENV \<Longrightarrow> ahead a ((a + i) mod NENV) = i"
  by (cases "a + i < NENV") (auto simp: ahead_def mod_if)

lemma mod_ahead: "a < NENV \<Longrightarrow> b < NENV \<Longrightarrow> (a + ahead a b) mod NENV = b"
  by (cases "a \<le> b") (auto simp: ahead_def mod_if)

lemma ahead_less: "ahead a b < NENV"
  by (simp add: ahead_def NENV_def)

text \<open>The loop finds the first candidate in circular order.\<close>

lemma find_sched_order:
  "find P (sched_order s) = Some e \<longleftrightarrow>
     e < NENV \<and> P e \<and> (\<forall>x<NENV. P x \<longrightarrow> ahead (sched_start s) e \<le> ahead (sched_start s) x)"
proof -
  let ?c = "sched_start s"
  have c: "?c < NENV" by (rule sched_start_less)
  have "find P (sched_order s) = Some e \<longleftrightarrow> (\<exists>i<NENV. P ((?c + i) mod NENV) \<and> e = (?c + i) mod NENV
      \<and> (\<forall>j<i. \<not> P ((?c + j) mod NENV)))"
    unfolding find_Some_iff by (auto simp: sched_order_nth)
  also have "\<dots> \<longleftrightarrow> e < NENV \<and> P e \<and> (\<forall>x<NENV. P x \<longrightarrow> ahead ?c e \<le> ahead ?c x)"
  proof safe
    fix i x assume i: "i < NENV" "\<forall>j<i. \<not> P ((?c + j) mod NENV)" and x: "x < NENV" "P x"
    have "\<not> ahead ?c x < i" using i(2) x mod_ahead [OF c x(1)] by metis
    then show "ahead ?c ((?c + i) mod NENV) \<le> ahead ?c x" using ahead_mod [OF c i(1)] by simp
  next
    assume e: "e < NENV" "P e" and min: "\<forall>x<NENV. P x \<longrightarrow> ahead ?c e \<le> ahead ?c x"
    have "\<not> P ((?c + j) mod NENV)" if "j < ahead ?c e" for j
    proof
      assume "P ((?c + j) mod NENV)"
      moreover have "j < NENV" using that ahead_less [of ?c e] by simp
      ultimately show False
        using min that ahead_mod [OF c, of j] by (metis leD mod_less_divisor NENV_def zero_less_numeral)
    qed
    then show "\<exists>i<NENV. P ((?c + i) mod NENV) \<and> e = (?c + i) mod NENV \<and> (\<forall>j<i. \<not> P ((?c + j) mod NENV))"
      using e mod_ahead [OF c e(1)] ahead_less by metis
  qed (simp_all add: NENV_def)
  finally show ?thesis .
qed

lemma find_sched_order_None: "find P (sched_order s) = None \<longleftrightarrow> (\<forall>x<NENV. \<not> P x)"
proof -
  have c: "sched_start s < NENV" by (rule sched_start_less)
  have "x \<in> set (sched_order s)" if "x < NENV" for x
    using sched_order_nth [OF ahead_less, of s "sched_start s" x] mod_ahead [OF c that] ahead_less [of _ x]
    by (metis nth_mem sched_order_length)
  moreover have "x < NENV" if "x \<in> set (sched_order s)" for x
    using that by (auto simp: sched_order_def Let_def NENV_def)
  ultimately have "set (sched_order s) = {..<NENV}" by blast
  then show ?thesis by (auto simp: find_None_iff)
qed

text \<open>The environment to run next, if any: the first runnable one in circular order, else
  the current one if it is still running.\<close>

definition next_to_run :: "kern \<Rightarrow> nat option" where
  "next_to_run s =
     (case find (\<lambda>e. env_status (envs s e) = ENV_RUNNABLE) (sched_order s) of
        Some e \<Rightarrow> Some e
      | None \<Rightarrow> (case curenv s of
                   Some c \<Rightarrow> if env_status (envs s c) = ENV_RUNNING then Some c else None
                 | None \<Rightarrow> None))"

lemma sched_yield_run: "next_to_run s = Some e \<Longrightarrow> sched_yield s = env_run e s"
  by (auto simp: next_to_run_def sched_yield_def split: option.splits if_splits)

lemma sched_yield_halt: "next_to_run s = None \<Longrightarrow> sched_yield s = sched_halt s"
  by (auto simp: next_to_run_def sched_yield_def split: option.splits if_splits)

lemma next_to_run_live:
  assumes "next_to_run s = Some e" and "cpu_ok s"
  shows "e \<in> live s"
  using assms by (auto simp: next_to_run_def cpu_ok_def live_def find_sched_order split: option.splits if_splits)

lemma sched_halt_spec:
  assumes k: "kinv s fl el" and c: "cpu_ok s"
  shows "(\<forall>x\<in>live s. env_status (envs s x) = ENV_NOT_RUNNABLE) \<and> sched_halt s = Monitor s
    \<or> (\<exists>x\<in>live s. env_status (envs s x) \<noteq> ENV_NOT_RUNNABLE) \<and>
      (\<exists>s'. sched_halt s = Halted s' \<and> same_spaces s s' \<and> curenv s' = None \<and> kernel_lock s' = None
         \<and> cr3 s' = frame_addr (kdir s) \<and> envs s' = envs s \<and> this_cpu s' = this_cpu s
         \<and> cpu_status (cpus s' (this_cpu s)) = CPU_HALTED)"
proof -
  have eq: "list_all (\<lambda>i. env_status (envs s i) \<notin> {ENV_RUNNABLE, ENV_RUNNING, ENV_DYING}) [0..<NENV]
      \<longleftrightarrow> (\<forall>x\<in>live s. env_status (envs s x) = ENV_NOT_RUNNABLE)"
  proof -
    have "st \<notin> {ENV_RUNNABLE, ENV_RUNNING, ENV_DYING} \<longleftrightarrow> (st \<noteq> ENV_FREE \<longrightarrow> st = ENV_NOT_RUNNABLE)" for st
      by (cases st) auto
    then show ?thesis unfolding list_all_iff live_def by (simp only:) auto
  qed
  show ?thesis
  proof (cases "\<forall>x\<in>live s. env_status (envs s x) = ENV_NOT_RUNNABLE")
    case True
    then show ?thesis unfolding sched_halt_def eq by simp
  next
    case False
    have "PADDR (kern_pgdir s) = Some (frame_addr (kdir s))"
      using kinvD(10,14) [OF k] by simp
    with False c show ?thesis
      unfolding sched_halt_def eq
      by (simp add: Let_def spin_unlock_def cpu_ok_def same_spaces_def curenv_def lcr3_def set_curenv_def)
  qed
qed

section \<open>Reasoning about outcomes\<close>

text \<open>\<open>ends R Q o\<close>: the function neither panics nor blocks; it returns with \<open>R\<close> or leaves
  the kernel with \<open>Q\<close>.\<close>

primrec ends :: "('a \<Rightarrow> kern \<Rightarrow> bool) \<Rightarrow> (kern \<Rightarrow> bool) \<Rightarrow> 'a outcome \<Rightarrow> bool" where
  "ends R Q (Return x s) \<longleftrightarrow> R x s"
| "ends R Q (EnterUser s) \<longleftrightarrow> Q s"
| "ends R Q (Halted s) \<longleftrightarrow> Q s"
| "ends R Q (Monitor s) \<longleftrightarrow> Q s"
| "ends R Q (Spinning s) \<longleftrightarrow> False"
| "ends R Q Panic \<longleftrightarrow> False"

lemma ends_obind:
  "ends R Q p \<Longrightarrow> (\<And>x s. R x s \<Longrightarrow> ends R' Q (f x s)) \<Longrightarrow> ends R' Q (obind p f)"
  by (cases p) auto

lemma ends_mono:
  "ends R Q p \<Longrightarrow> (\<And>x s. R x s \<Longrightarrow> R' x s) \<Longrightarrow> (\<And>s. Q s \<Longrightarrow> Q' s) \<Longrightarrow> ends R' Q' p"
  by (cases p) auto

text \<open>The invariant with the set of frames it accounts for.\<close>

definition sys_ok :: "nat set \<Rightarrow> kern \<Rightarrow> bool" where
  "sys_ok Own s \<longleftrightarrow> (\<exists>fl el. kinv s fl el \<and> owned s fl (dirs s) = Own)"

text \<open>A step that leaves the environments outside \<open>A\<close> alone: they stay in use, with the same
  address space; and no page that was mapped before changes its contents.\<close>

definition untouched :: "nat set \<Rightarrow> kern \<Rightarrow> kern \<Rightarrow> bool" where
  "untouched A s s' \<longleftrightarrow>
     (\<forall>x\<in>live s - A. x \<in> live s' \<and> env_dir s' x = env_dir s x \<and> uspace s' x = uspace s x) \<and>
     (\<forall>p\<in>ran (frames (phys s) (dirs s)). phys s' p = phys s p)"

lemma untouched_refl [simp, intro]: "untouched A s s"
  by (simp add: untouched_def)

lemma untouched_mono: "untouched A s s' \<Longrightarrow> A \<subseteq> B \<Longrightarrow> untouched B s s'"
  by (auto simp: untouched_def)

lemma same_spaces_sys:
  assumes "same_spaces s s'"
  shows "sys_ok Own s' = sys_ok Own s" and "untouched A s0 s' = untouched A s0 s"
    and "untouched A s' s0 = untouched A s s0"
  by (simp_all add: sys_ok_def untouched_def same_spacesD [OF assms])

lemma env_run_ends:
  assumes "sys_ok Own s" and "cpu_ok s" and "e \<in> live s" and "untouched A s0 s"
  shows "ends R (\<lambda>s'. sys_ok Own s' \<and> untouched A s0 s') (env_run e s)"
proof -
  from assms(1) obtain fl el where k: "kinv s fl el" by (auto simp: sys_ok_def)
  obtain s' where "env_run e s = EnterUser s'" "same_spaces s s'"
    by (rule env_run_spec [OF k assms(3,2)])
  with assms show ?thesis by (simp add: same_spaces_sys)
qed

lemma sched_yield_ends:
  assumes "sys_ok Own s" and "cpu_ok s" and "untouched A s0 s"
  shows "ends R (\<lambda>s'. sys_ok Own s' \<and> untouched A s0 s') (sched_yield s)"
proof (cases "next_to_run s")
  case None
  from assms(1) obtain fl el where k: "kinv s fl el" by (auto simp: sys_ok_def)
  from sched_halt_spec [OF k assms(2)] assms show ?thesis
    unfolding sched_yield_halt [OF None] by (auto simp: same_spaces_sys)
next
  case (Some e)
  with assms show ?thesis
    by (simp add: sched_yield_run next_to_run_live env_run_ends)
qed

text \<open>The records of the environments outside \<open>A\<close>: unchanged, or unchanged but for what \<open>env_run\<close>
  notes in an environment that was waiting for the CPU and now gets it.\<close>

definition kept :: "nat set \<Rightarrow> kern \<Rightarrow> kern \<Rightarrow> bool" where
  "kept A s s' \<longleftrightarrow> (\<forall>x\<in>live s - A. envs s' x = envs s x)"

definition bystander :: "Env \<Rightarrow> Env \<Rightarrow> bool" where
  "bystander v v' \<longleftrightarrow> v' = v \<or> env_status v = ENV_RUNNABLE
     \<and> (\<exists>i. v' = v\<lparr>env_status := ENV_RUNNING, env_runs := env_runs v + 1, env_cpunum := i\<rparr>)"

definition alone :: "nat set \<Rightarrow> kern \<Rightarrow> kern \<Rightarrow> bool" where
  "alone A s s' \<longleftrightarrow> (\<forall>x\<in>live s - A. bystander (envs s x) (envs s' x))"

lemma kept_refl [simp, intro]: "kept A s s"
  by (simp add: kept_def)

lemma kept_mono: "kept A s s' \<Longrightarrow> A \<subseteq> B \<Longrightarrow> kept B s s'"
  by (auto simp: kept_def)

lemma alone_mono: "alone A s s' \<Longrightarrow> A \<subseteq> B \<Longrightarrow> alone B s s'"
  by (auto simp: alone_def)

lemma ends_conj: "ends R Q p \<Longrightarrow> ends R' Q' p \<Longrightarrow> ends (\<lambda>x s. R x s \<and> R' x s) (\<lambda>s. Q s \<and> Q' s) p"
  by (cases p) auto

lemma env_run_envs:
  assumes "env_run e s = EnterUser s'" and "curenv s = Some x \<Longrightarrow> x = e"
  shows "envs s' x = (if x = e then (envs s e)\<lparr>env_status := ENV_RUNNING, env_runs := env_runs (envs s e) + 1,
      env_cpunum := this_cpu s\<rparr> else envs s x)"
  using assms
  by (auto simp: env_run_def Let_def spin_unlock_def env_pop_tf_def curenv_def lcr3_def set_curenv_def set_env_def
      split: option.splits if_splits)

text \<open>The scheduler changes nothing of an environment that is not current, unless it was runnable and
  gets the CPU.\<close>

lemma sched_yield_alone:
  assumes ok: "sys_ok Own s" and cpu: "cpu_ok s" and A: "\<And>c. curenv s = Some c \<Longrightarrow> c \<in> A" and eq: "kept A s0 s"
  shows "ends R (alone A s0) (sched_yield s)"
proof (cases "next_to_run s")
  case None
  from ok obtain fl el where k: "kinv s fl el" by (auto simp: sys_ok_def)
  from sched_halt_spec [OF k cpu] eq show ?thesis
    unfolding sched_yield_halt [OF None] by (auto simp: alone_def kept_def bystander_def)
next
  case (Some e)
  from ok obtain fl el where k: "kinv s fl el" by (auto simp: sys_ok_def)
  obtain s' where s': "env_run e s = EnterUser s'"
    by (rule env_run_spec [OF k next_to_run_live [OF Some cpu] cpu])
  have "bystander (envs s0 x) (envs s' x)" if x: "x \<in> live s0 - A" for x
  proof -
    have "curenv s \<noteq> Some x" and "envs s0 x = envs s x" using A x eq by (auto simp: kept_def)
    moreover have "env_status (envs s x) = ENV_RUNNABLE" if "x = e"
      using Some calculation(1) that by (auto simp: next_to_run_def find_sched_order split: option.splits if_splits)
    ultimately show ?thesis using env_run_envs [OF s', of x] by (auto simp: bystander_def)
  qed
  then show ?thesis using s' by (simp add: sched_yield_run [OF Some] alone_def)
qed

lemma env_destroy_ends:
  assumes ok: "sys_ok Own s" and c: "cpu_ok s" and e: "e \<in> live s"
  shows "ends (\<lambda>_ s'. sys_ok Own s' \<and> untouched {e} s s' \<and> curenv s' = curenv s \<and> curenv s \<noteq> Some e
                \<and> this_cpu s' = this_cpu s \<and> cpu_ok s' \<and> kept {e} s s')
           (\<lambda>s'. (sys_ok Own s' \<and> untouched {e} s s') \<and> alone {e} s s') (env_destroy e s)"
proof (cases "env_status (envs s e) = ENV_RUNNING \<and> curenv s \<noteq> Some e")
  case True
  have ss: "same_spaces s (set_env e (\<lambda>v. v\<lparr>env_status := ENV_DYING\<rparr>) s)"
    using e by (intro same_spaces_set_env) (auto simp: live_def)
  with True ok c show ?thesis
    by (simp add: env_destroy_def same_spaces_sys cpu_ok_def same_spacesD [OF ss] kept_def)
next
  case False
  from ok obtain fl el where k: "kinv s fl el" and o: "owned s fl (dirs s) = Own" by (auto simp: sys_ok_def)
  obtain s' fl' where s': "env_free e s = Some s'" "kinv s' fl' (e # el)" "live s' = live s - {e}"
    "\<forall>x\<in>live s - {e}. uspace s' x = uspace s x \<and> env_dir s' x = env_dir s x"
    "owned s' fl' (dirs s') = owned s fl (dirs s)"
    "\<forall>p. p \<noteq> env_dir s e \<longrightarrow> p \<notin> tables (phys s) (dirs s) \<longrightarrow> phys s' p = phys s p"
    "cpus s' = cpus s" "this_cpu s' = this_cpu s" "kernel_lock s' = kernel_lock s"
    "envs s' = (envs s)(e := (envs s e)\<lparr>env_pgdir := 0, env_status := ENV_FREE, env_link := env_free_list s\<rparr>)"
    using env_free_kinv [OF k e] by blast
  have kp: "kept {e} s s'" using s'(10) by (simp add: kept_def)
  have ok': "sys_ok Own s'" using s'(2,5) o by (auto simp: sys_ok_def)
  have "p \<noteq> env_dir s e" "p \<notin> tables (phys s) (dirs s)" if "p \<in> ran (frames (phys s) (dirs s))" for p
    using vm_inv_mapped(3,4) [OF kinvD(1) [OF k] that] kinvD(12) [OF k e] by auto
  then have un: "untouched {e} s s'" using s'(3,4,6) by (simp add: untouched_def)
  have cur: "curenv s' = curenv s" using s'(7,8) by (simp add: curenv_def)
  show ?thesis
  proof (cases "curenv s = Some e")
    case True
    have ss: "same_spaces s' (set_curenv None s')" by simp
    have c': "cpu_ok (set_curenv None s')" using c s'(8,9) by (simp add: cpu_ok_def)
    have ok1: "sys_ok Own (set_curenv None s')" and un1: "untouched {e} s (set_curenv None s')" and kp1: "kept {e} s (set_curenv None s')"
      using ok' un kp by (simp_all add: same_spaces_sys [OF ss] kept_def)
    show ?thesis
      using ends_conj [OF sched_yield_ends [OF ok1 c' un1, of "\<lambda>_ _. False"] sched_yield_alone [OF ok1 c' _ kp1, of "\<lambda>_ _. False"]]
        True False cur by (auto simp: env_destroy_def s'(1) of_state_def elim: ends_mono)
  next
    case other: False
    with c s'(3,8,9) cur have "cpu_ok s'" by (auto simp: cpu_ok_def)
    with other False ok' un cur kp s'(8) show ?thesis
      by (auto simp add: env_destroy_def s'(1) of_state_def)
  qed
qed

section \<open>Properties\<close>

lemma sample_cpu: "cpu_ok sample_kern" "curenv sample_kern = Some 0"
proof -
  show c: "curenv sample_kern = Some 0" by (simp add: curenv_def sample_kern_def)
  show "cpu_ok sample_kern" by (simp add: cpu_ok_def c sample_dirs) (simp add: sample_kern_def)
qed

lemma next_to_run_iff:
  "next_to_run s = Some e \<longleftrightarrow>
     (e < NENV \<and> env_status (envs s e) = ENV_RUNNABLE
      \<and> (\<forall>x<NENV. env_status (envs s x) = ENV_RUNNABLE \<longrightarrow> ahead (sched_start s) e \<le> ahead (sched_start s) x))
     \<or> ((\<forall>x<NENV. env_status (envs s x) \<noteq> ENV_RUNNABLE)
      \<and> curenv s = Some e \<and> env_status (envs s e) = ENV_RUNNING)"
proof (cases "find (\<lambda>e. env_status (envs s e) = ENV_RUNNABLE) (sched_order s)")
  case None
  then show ?thesis
    using find_sched_order_None [of "\<lambda>e. env_status (envs s e) = ENV_RUNNABLE" s]
    by (auto simp: next_to_run_def split: option.splits if_splits)
next
  case (Some f)
  note f = Some [unfolded find_sched_order]
  show ?thesis
    using Some f find_sched_order [of "\<lambda>e. env_status (envs s e) = ENV_RUNNABLE" s e]
    by (auto simp: next_to_run_def)
qed

text \<open>The slot just after the environment that this CPU was running, and the state in which the CPU enters \<open>e\<close>.\<close>

definition slot_after :: "kern \<Rightarrow> nat" where
  "slot_after s = (case curenv s of None \<Rightarrow> 0 | Some c \<Rightarrow> (c + 1) mod NENV)"

definition switched_to :: "kern \<Rightarrow> nat \<Rightarrow> kern \<Rightarrow> bool" where
  "switched_to s e s' \<longleftrightarrow> curenv s' = Some e \<and> same_spaces s s' \<and> cr3 s' = frame_addr (env_dir s e) \<and> kernel_lock s' = None
     \<and> (\<forall>x. env_status (envs s' x) = status_after_run s e x)"

lemma ahead_Suc: "a < NENV \<Longrightarrow> x < NENV \<Longrightarrow> x \<noteq> a \<Longrightarrow> ahead a x = Suc (ahead ((a + 1) mod NENV) x)"
  by (auto simp: ahead_def NENV_def mod_if)

lemma ahead_slot_after:
  assumes k: "kinv s fl el" and c: "cpu_ok s" and cur: "\<And>c. curenv s = Some c \<Longrightarrow> x \<noteq> c \<and> y \<noteq> c" and xy: "x < NENV" "y < NENV"
  shows "ahead (sched_start s) x \<le> ahead (sched_start s) y \<longleftrightarrow> ahead (slot_after s) x \<le> ahead (slot_after s) y"
proof (cases "curenv s")
  case None
  then show ?thesis by (simp add: sched_start_def slot_after_def)
next
  case (Some e)
  then have e: "e \<in> live s" using c by (simp add: cpu_ok_def)
  then have "sched_start s = e" using Some kinvD(8) [OF k] by (simp add: sched_start_def)
  moreover have "e < NENV" using sched_start_less [of s] calculation by simp
  ultimately show ?thesis using ahead_Suc [of e x] ahead_Suc [of e y] cur [OF Some] xy by (simp add: slot_after_def Some)
qed

lemma env_run_enters:
  assumes "kinv s fl el" and "next_to_run s = Some e" and "cpu_ok s"
  shows "\<exists>s'. sched_yield s = EnterUser s' \<and> switched_to s e s'"
proof -
  obtain s' where "env_run e s = EnterUser s'" "same_spaces s s'" "curenv s' = Some e"
    "cr3 s' = frame_addr (env_dir s e)" "kernel_lock s' = None"
    "\<And>x. env_status (envs s' x) = status_after_run s e x"
    by (rule env_run_spec [OF assms(1) next_to_run_live [OF assms(2,3)] assms(3)]) (rule that)
  then show ?thesis using assms(2) by (simp add: sched_yield_run switched_to_def)
qed

text \<open>C15. \<open>sched_yield\<close> on a CPU that holds the kernel lock, when the environment it was running is not marked
  runnable, never returns and never panics. If some environment is runnable, the CPU enters the first one in
  circular slot order starting just after the current environment (with slot 0 when there is none); otherwise it
  continues the current environment if that is still running; in both cases with that environment's page directory,
  the lock released, the old environment runnable again and no address space changed. With nothing to run it
  stays in the kernel monitor when no environment can ever run again, and else halts with the
  kernel's page directory and the lock released.\<close>

theorem sched_yield_round_robin:
  assumes k: "kinv s fl el" and c: "cpu_ok s" and cur: "\<And>c. curenv s = Some c \<Longrightarrow> env_status (envs s c) \<noteq> ENV_RUNNABLE"
  shows "if \<exists>x<NENV. env_status (envs s x) = ENV_RUNNABLE
    then \<exists>e s'. e < NENV \<and> env_status (envs s e) = ENV_RUNNABLE
        \<and> (\<forall>x<NENV. env_status (envs s x) = ENV_RUNNABLE \<longrightarrow> ahead (slot_after s) e \<le> ahead (slot_after s) x)
        \<and> sched_yield s = EnterUser s' \<and> switched_to s e s'
    else if \<exists>e. curenv s = Some e \<and> env_status (envs s e) = ENV_RUNNING
    then \<exists>e s'. curenv s = Some e \<and> sched_yield s = EnterUser s' \<and> switched_to s e s'
    else (\<forall>x\<in>live s. env_status (envs s x) = ENV_NOT_RUNNABLE) \<and> sched_yield s = Monitor s
        \<or> (\<exists>s'. sched_yield s = Halted s' \<and> same_spaces s s' \<and> curenv s' = None \<and> kernel_lock s' = None
             \<and> cr3 s' = frame_addr (kdir s))"
proof (cases "next_to_run s")
  case None
  then have "\<not> (\<exists>x<NENV. env_status (envs s x) = ENV_RUNNABLE)" "\<not> (\<exists>e. curenv s = Some e \<and> env_status (envs s e) = ENV_RUNNING)"
    using find_sched_order_None [of "\<lambda>e. env_status (envs s e) = ENV_RUNNABLE" s] by (auto simp: next_to_run_def split: option.splits if_splits)
  then show ?thesis using None sched_halt_spec [OF k c] by (auto simp: sched_yield_halt)
next
  case (Some e)
  obtain s' where s': "sched_yield s = EnterUser s'" "switched_to s e s'" using env_run_enters [OF k Some c] by blast
  show ?thesis
  proof (cases "\<exists>x<NENV. env_status (envs s x) = ENV_RUNNABLE")
    case True
    then have e: "e < NENV" "env_status (envs s e) = ENV_RUNNABLE"
      "\<forall>x<NENV. env_status (envs s x) = ENV_RUNNABLE \<longrightarrow> ahead (sched_start s) e \<le> ahead (sched_start s) x"
      using Some [unfolded next_to_run_iff] by auto
    have "ahead (slot_after s) e \<le> ahead (slot_after s) x" if x: "x < NENV" "env_status (envs s x) = ENV_RUNNABLE" for x
      using ahead_slot_after [OF k c, of e x] cur e x by blast
    then show ?thesis using True e(1,2) s' by auto
  next
    case False
    then have "curenv s = Some e" "env_status (envs s e) = ENV_RUNNING" using Some [unfolded next_to_run_iff] by auto
    then show ?thesis using False s' by auto
  qed
qed

theorem sched_yield_round_robin_witness:
  "if \<exists>x<NENV. env_status (envs sample_kern x) = ENV_RUNNABLE
    then \<exists>e s'. sched_yield sample_kern = EnterUser s' \<and> switched_to sample_kern e s'
    else if \<exists>e. curenv sample_kern = Some e \<and> env_status (envs sample_kern e) = ENV_RUNNING
    then \<exists>e s'. curenv sample_kern = Some e \<and> sched_yield sample_kern = EnterUser s' \<and> switched_to sample_kern e s'
    else sched_yield sample_kern = Monitor sample_kern \<or> (\<exists>s'. sched_yield sample_kern = Halted s' \<and> curenv s' = None)"
  using sched_yield_round_robin [OF sample_kinv sample_cpu(1)] sample_cpu(2) by (auto simp: sample_kern_def split: if_splits)

end
