(* ===== verification/Console.thy ===== *)
theory Console
  imports Kernel_State
begin

text \<open>
  Byte queues. The locale \<open>byte_queue\<close> is the contract of a bounded first-in first-out
  buffer; the console input ring of \<open>kern/console.c\<close> is an instance (and so is the pipe
  buffer, in theory \<open>Pipe\<close>).
\<close>

section \<open>The contract of a bounded byte queue\<close>

locale byte_queue =
  fixes put :: "u8 \<Rightarrow> 's \<Rightarrow> 's"
    and get :: "'s \<Rightarrow> u8 \<times> 's"
    and ok :: "'s \<Rightarrow> bool"
    and contents :: "'s \<Rightarrow> u8 list"
    and room :: nat
  assumes put_ok: "ok q \<Longrightarrow> length (contents q) < room \<Longrightarrow> ok (put b q)"
    and put_contents: "ok q \<Longrightarrow> length (contents q) < room \<Longrightarrow> contents (put b q) = contents q @ [b]"
    and get_ok: "ok q \<Longrightarrow> contents q \<noteq> [] \<Longrightarrow> ok (snd (get q))"
    and get_head: "ok q \<Longrightarrow> contents q \<noteq> [] \<Longrightarrow> fst (get q) = hd (contents q)"
    and get_contents: "ok q \<Longrightarrow> contents q \<noteq> [] \<Longrightarrow> contents (snd (get q)) = tl (contents q)"
begin

primrec put_all :: "u8 list \<Rightarrow> 's \<Rightarrow> 's" where
  "put_all [] q = q"
| "put_all (b # bs) q = put_all bs (put b q)"

primrec get_n :: "nat \<Rightarrow> 's \<Rightarrow> u8 list \<times> 's" where
  "get_n 0 q = ([], q)"
| "get_n (Suc n) q = (let (b, q1) = get q; (bs, q2) = get_n n q1 in (b # bs, q2))"

lemma put_all_spec:
  "ok q \<Longrightarrow> length (contents q) + length bs \<le> room \<Longrightarrow>
     ok (put_all bs q) \<and> contents (put_all bs q) = contents q @ bs"
  by (induction bs arbitrary: q) (auto simp: put_ok put_contents)

lemma get_n_spec:
  "ok q \<Longrightarrow> n \<le> length (contents q) \<Longrightarrow>
     fst (get_n n q) = take n (contents q) \<and> ok (snd (get_n n q))
     \<and> contents (snd (get_n n q)) = drop n (contents q)"
proof (induction n arbitrary: q)
  case (Suc n)
  then obtain b bs where c: "contents q = b # bs" by (cases "contents q") auto
  with Suc.prems have g: "ok (snd (get q))" "fst (get q) = b" "contents (snd (get q)) = bs"
    using get_ok get_head get_contents by auto
  from Suc.IH [OF g(1)] Suc.prems(2) c g show ?case
    by (simp add: split_beta)
qed simp

text \<open>What goes in comes out in the same order.\<close>

lemma fifo:
  assumes "ok q" and "contents q = []" and "length bs \<le> room"
  shows "fst (get_n (length bs) (put_all bs q)) = bs"
    and "contents (snd (get_n (length bs) (put_all bs q))) = []"
  using put_all_spec [OF assms(1), of bs] get_n_spec [of "put_all bs q" "length bs"] assms by auto

end

section \<open>The console input ring\<close>

definition CONSBUFSIZE :: nat where
  "CONSBUFSIZE = 512"

text \<open>Storing one character, and taking one out.\<close>

definition cons_put :: "u8 \<Rightarrow> Console \<Rightarrow> Console" where
  "cons_put b c =
     (let w = cons_wpos c + 1
      in c\<lparr>cons_buf := (cons_buf c)(cons_wpos c := b), cons_wpos := (if w = CONSBUFSIZE then 0 else w)\<rparr>)"

definition cons_take :: "Console \<Rightarrow> u8 \<times> Console" where
  "cons_take c =
     (let r = cons_rpos c + 1
      in (cons_buf c (cons_rpos c), c\<lparr>cons_rpos := (if r = CONSBUFSIZE then 0 else r)\<rparr>))"

text \<open>\<open>cons_intr\<close> on the values that the device routine returns before it returns \<open>-1\<close>.\<close>

primrec cons_intr :: "u32 list \<Rightarrow> Console \<Rightarrow> Console" where
  "cons_intr [] c = c"
| "cons_intr (x # xs) c = (if x = 0 then cons_intr xs c else cons_intr xs (cons_put (ucast x) c))"

text \<open>\<open>cons_getc\<close> polls the serial port and the keyboard first; a machine without a serial
  port delivers no serial input.\<close>

definition cons_getc :: "u32 list \<Rightarrow> u32 list \<Rightarrow> Console \<Rightarrow> u32 \<times> Console" where
  "cons_getc serial kbd c =
     (let c1 = cons_intr kbd (cons_intr serial c)
      in if cons_rpos c1 \<noteq> cons_wpos c1 then (let (b, c2) = cons_take c1 in (ucast b, c2)) else (0, c1))"

definition cons_putc :: "u8 \<Rightarrow> Console \<Rightarrow> Console" where
  "cons_putc b c = c\<lparr>cons_out := cons_out c @ [b]\<rparr>"

section \<open>The ring is a queue\<close>

definition ring_ok :: "Console \<Rightarrow> bool" where
  "ring_ok c \<longleftrightarrow> cons_rpos c < CONSBUFSIZE \<and> cons_wpos c < CONSBUFSIZE"

definition pending :: "Console \<Rightarrow> u8 list" where
  "pending c = map (\<lambda>i. cons_buf c ((cons_rpos c + i) mod CONSBUFSIZE))
     [0..<(cons_wpos c + CONSBUFSIZE - cons_rpos c) mod CONSBUFSIZE]"

lemma wrap_eq: "r < CONSBUFSIZE \<Longrightarrow> (if Suc r = CONSBUFSIZE then 0 else Suc r) = Suc r mod CONSBUFSIZE"
  by (simp add: CONSBUFSIZE_def)

lemma mod_once: "x < 2 * n \<Longrightarrow> x mod n = (if x < n then x else x - n)" for x n :: nat
  by (auto simp: le_mod_geq)

lemma ring_count_put:
  fixes n :: nat
  assumes "r < n" and "w < n" and "(w + n - r) mod n < n - 1"
  shows "((w + 1) mod n + n - r) mod n = Suc ((w + n - r) mod n)" and "(r + (w + n - r) mod n) mod n = w"
    and "i < (w + n - r) mod n \<Longrightarrow> (r + i) mod n \<noteq> w"
proof -
  have c: "(w + n - r) mod n = (if r \<le> w then w - r else w + n - r)"
    using assms(1,2) by (simp add: mod_once)
  have w1: "(w + 1) mod n = (if w + 1 = n then 0 else w + 1)" using assms(2) by simp
  show "((w + 1) mod n + n - r) mod n = Suc ((w + n - r) mod n)"
    using assms unfolding c w1 by (auto simp: mod_once split: if_splits)
  show "(r + (w + n - r) mod n) mod n = w" using assms(1,2) unfolding c by (simp add: mod_once)
  show "(r + i) mod n \<noteq> w" if "i < (w + n - r) mod n"
    using that assms(1,2) unfolding c by (auto simp: mod_once split: if_splits)
qed

lemma ring_count_get:
  fixes n :: nat
  assumes "r < n" and "w < n" and "(w + n - r) mod n = Suc k"
  shows "(w + n - (r + 1) mod n) mod n = k" and "((r + 1) mod n + i) mod n = (r + Suc i) mod n"
proof -
  have c: "(w + n - r) mod n = (if r \<le> w then w - r else w + n - r)"
    using assms(1,2) by (simp add: mod_once)
  have r1: "(r + 1) mod n = (if r + 1 = n then 0 else r + 1)" using assms(1) by simp
  show "(w + n - (r + 1) mod n) mod n = k"
    using assms unfolding c r1 by (auto simp: mod_once split: if_splits)
  show "((r + 1) mod n + i) mod n = (r + Suc i) mod n" by (simp add: mod_simps)
qed

lemma pending_put:
  assumes "ring_ok c" and "length (pending c) < CONSBUFSIZE - 1"
  shows "ring_ok (cons_put b c)" and "pending (cons_put b c) = pending c @ [b]"
proof -
  let ?r = "cons_rpos c" and ?w = "cons_wpos c" and ?n = CONSBUFSIZE
  have rw: "?r < ?n" "?w < ?n" using assms(1) by (simp_all add: ring_ok_def)
  show "ring_ok (cons_put b c)" using assms(1) by (auto simp: ring_ok_def cons_put_def Let_def)
  have lt: "(?w + ?n - ?r) mod ?n < ?n - 1" using assms(2) by (simp add: pending_def)
  note rc = ring_count_put [OF rw lt]
  have w: "cons_wpos (cons_put b c) = (?w + 1) mod ?n" "cons_rpos (cons_put b c) = ?r"
    "cons_buf (cons_put b c) = (cons_buf c)(?w := b)"
    using wrap_eq [OF rw(2)] by (simp_all add: cons_put_def Let_def del: mod_Suc)
  show "pending (cons_put b c) = pending c @ [b]"
    unfolding pending_def w rc(1) using rc(2,3) by auto
qed

lemma pending_take:
  assumes "ring_ok c" and "pending c \<noteq> []"
  shows "ring_ok (snd (cons_take c))" and "fst (cons_take c) = hd (pending c)"
    and "pending (snd (cons_take c)) = tl (pending c)"
proof -
  let ?r = "cons_rpos c" and ?w = "cons_wpos c" and ?n = CONSBUFSIZE
  have rw: "?r < ?n" "?w < ?n" using assms(1) by (simp_all add: ring_ok_def)
  obtain k where k: "(?w + ?n - ?r) mod ?n = Suc k"
    using assms(2) by (cases "(?w + ?n - ?r) mod ?n") (auto simp: pending_def)
  note rc = ring_count_get [OF rw k]
  show "ring_ok (snd (cons_take c))" using assms(1) by (auto simp: ring_ok_def cons_take_def Let_def)
  have p: "pending c = cons_buf c ?r # map (\<lambda>i. cons_buf c ((?r + Suc i) mod ?n)) [0..<k]"
    unfolding pending_def k using rw(1) by (simp add: map_upt_Suc del: upt_Suc)
  then show "fst (cons_take c) = hd (pending c)" by (simp add: cons_take_def Let_def)
  have t: "cons_rpos (snd (cons_take c)) = (?r + 1) mod ?n" "cons_wpos (snd (cons_take c)) = ?w"
    "cons_buf (snd (cons_take c)) = cons_buf c"
    using wrap_eq [OF rw(1)] by (simp_all add: cons_take_def Let_def)
  show "pending (snd (cons_take c)) = tl (pending c)"
    unfolding p pending_def [of "snd (cons_take c)"] t rc(1) using rc(2) by simp
qed

interpretation console: byte_queue cons_put cons_take ring_ok pending "CONSBUFSIZE - 1"
  by unfold_locales (simp_all add: pending_put pending_take)

text \<open>Interrupt input is the non-zero characters, in order.\<close>

lemma cons_intr_put_all:
  "cons_intr xs c = console.put_all (map ucast (filter (\<lambda>x. x \<noteq> 0) xs)) c"
  by (induction xs arbitrary: c) auto

lemma pending_empty: "ring_ok c \<Longrightarrow> pending c = [] \<longleftrightarrow> cons_rpos c = cons_wpos c"
  by (auto simp: pending_def ring_ok_def mod_if split: if_splits)

text \<open>\<open>cons_getc\<close> returns the oldest character, the polled input being the newest.\<close>

lemma cons_getc_spec:
  assumes ok: "ring_ok c"
    and inp: "new = map ucast (filter (\<lambda>x. x \<noteq> 0) (serial @ kbd))"
    and fits: "length (pending c) + length new < CONSBUFSIZE"
  shows "pending c @ new = [] \<Longrightarrow> fst (cons_getc serial kbd c) = 0"
    and "pending c @ new = b # q \<Longrightarrow> fst (cons_getc serial kbd c) = ucast b
       \<and> ring_ok (snd (cons_getc serial kbd c)) \<and> pending (snd (cons_getc serial kbd c)) = q"
proof -
  let ?c1 = "cons_intr kbd (cons_intr serial c)"
  have app: "console.put_all (xs @ ys) d = console.put_all ys (console.put_all xs d)" for xs ys d
    by (induction xs arbitrary: d) auto
  have c1: "?c1 = console.put_all new c" unfolding cons_intr_put_all inp by (simp add: app)
  have p: "ring_ok ?c1" "pending ?c1 = pending c @ new"
    unfolding c1 using console.put_all_spec [OF ok, of new] fits by auto
  show "fst (cons_getc serial kbd c) = 0" if "pending c @ new = []"
    using that pending_empty [OF p(1)] p(2) by (simp add: cons_getc_def Let_def)
  show "fst (cons_getc serial kbd c) = ucast b \<and> ring_ok (snd (cons_getc serial kbd c))
      \<and> pending (snd (cons_getc serial kbd c)) = q" if "pending c @ new = b # q"
    using that pending_empty [OF p(1)] pending_take [OF p(1)] p(2)
    by (simp add: cons_getc_def Let_def split_beta)
qed

section \<open>Properties\<close>

text \<open>C25. The console input ring is a first-in first-out queue: as long as fewer than
  \<open>CONSBUFSIZE\<close> characters are waiting, \<open>cons_getc\<close> returns the oldest character, counting the
  input it polls from the serial port and then the keyboard as the newest, keeps the rest in
  order, and returns 0 only if there is none.\<close>

theorem cons_getc_fifo:
  assumes "ring_ok c"
    and "length (pending c @ map ucast (filter (\<lambda>x. x \<noteq> 0) (serial @ kbd))) < CONSBUFSIZE"
  shows "case pending c @ map ucast (filter (\<lambda>x. x \<noteq> 0) (serial @ kbd)) of
      [] \<Rightarrow> fst (cons_getc serial kbd c) = 0
    | b # q \<Rightarrow> fst (cons_getc serial kbd c) = ucast b \<and> ring_ok (snd (cons_getc serial kbd c))
        \<and> pending (snd (cons_getc serial kbd c)) = q"
  using cons_getc_spec [OF assms(1) refl, of serial kbd] assms(2) by (auto split: list.split)

theorem cons_getc_fifo_witness:
  "case pending (cons_put 97 (cons sample_kern)) @ map ucast (filter (\<lambda>x. x \<noteq> 0) ([98, 0] @ [99 :: u32])) of
      [] \<Rightarrow> fst (cons_getc [98, 0] [99] (cons_put 97 (cons sample_kern))) = 0
    | b # q \<Rightarrow> fst (cons_getc [98, 0] [99] (cons_put 97 (cons sample_kern))) = ucast b
        \<and> ring_ok (snd (cons_getc [98, 0] [99] (cons_put 97 (cons sample_kern))))
        \<and> pending (snd (cons_getc [98, 0] [99] (cons_put 97 (cons sample_kern)))) = q"
  by (rule cons_getc_fifo)
    (simp_all add: ring_ok_def pending_def cons_put_def sample_kern_def CONSBUFSIZE_def)

end
