(* ===== verification/Syscall.thy ===== *)
theory Syscall
  imports Sched Console
begin

text \<open>
  The system calls (\<open>kern/syscall.c\<close>): every handler and the dispatcher. A handler yields an
  outcome (theory \<open>Sched\<close>) whose value is an error or the number returned to user space.
\<close>

section \<open>Access to user memory from the kernel\<close>

text \<open>The translation the MMU makes for a read by the kernel; \<open>None\<close> is a page fault in
  kernel mode.\<close>

definition mmu_read_addr :: "kern \<Rightarrow> u32 \<Rightarrow> u32 \<Rightarrow> (nat \<times> nat) option" where
  "mmu_read_addr s pgdir va =
     (let pde = kread s (entry pgdir (PDX va)) in
      if pde AND PTE_P = 0 then None
      else if pde AND PTE_PS \<noteq> 0 then
        Some (unat (PGNUM (PGADDR (PDX pde) (PTX va) 0)), unat (PGOFF va))
      else let pte = phys s (unat (PGNUM pde)) (unat (PTX va)) in
        if pte AND PTE_P = 0 then None
        else Some (unat (PGNUM pte), unat (PGOFF va)))"

definition load_byte :: "kern \<Rightarrow> u32 \<Rightarrow> u32 \<Rightarrow> u8 option" where
  "load_byte s pgdir va =
     do { (p, off) \<leftarrow> mmu_read_addr s pgdir va;
          Some (get_byte (off mod 4) (phys s p (off div 4))) }"

definition load_bytes :: "kern \<Rightarrow> u32 \<Rightarrow> u32 \<Rightarrow> nat \<Rightarrow> image option" where
  "load_bytes s pgdir va n =
     (if list_all (\<lambda>i. load_byte s pgdir (va + of_nat i) \<noteq> None) [0..<n]
      then Some (\<lambda>i. the (load_byte s pgdir (va + of_nat i))) else None)"

text \<open>The directory that the MMU of this CPU uses.\<close>

definition user_dir :: "kern \<Rightarrow> u32" where
  "user_dir s = cr3 s + KERNBASE"

text \<open>The bytes of a list of 32-bit words, and the layout of \<open>struct Trapframe\<close> in memory.\<close>

definition word_bytes :: "u32 list \<Rightarrow> image" where
  "word_bytes ws = (\<lambda>i. get_byte (i mod 4) (ws ! (i div 4)))"

definition tf_of_bytes :: "image \<Rightarrow> Trapframe" where
  "tf_of_bytes b = \<lparr>
     tf_regs = \<lparr>reg_edi = le32 b 0, reg_esi = le32 b 4, reg_ebp = le32 b 8, reg_oesp = le32 b 12,
                reg_ebx = le32 b 16, reg_edx = le32 b 20, reg_ecx = le32 b 24, reg_eax = le32 b 28\<rparr>,
     tf_es = ucast (le16 b 32), tf_padding1 = ucast (le16 b 34),
     tf_ds = ucast (le16 b 36), tf_padding2 = ucast (le16 b 38),
     tf_trapno = le32 b 40, tf_err = le32 b 44, tf_eip = le32 b 48,
     tf_cs = ucast (le16 b 52), tf_padding3 = ucast (le16 b 54), tf_eflags = le32 b 56,
     tf_esp = le32 b 60, tf_ss = ucast (le16 b 64), tf_padding4 = ucast (le16 b 66)\<rparr>"

definition store16 :: "u32 \<Rightarrow> u16 \<Rightarrow> kern \<Rightarrow> kern option" where
  "store16 va w s = store_bytes (user_dir s) va (word_bytes [ucast w]) 2 s"

definition store32 :: "u32 \<Rightarrow> u32 \<Rightarrow> kern \<Rightarrow> kern option" where
  "store32 va w s = store_bytes (user_dir s) va (word_bytes [w]) 4 s"

section \<open>Console\<close>

text \<open>The loop of \<open>%s\<close> in \<open>vprintfmt\<close> (\<open>lib/printfmt.c\<close>) for the format \<open>%.*s\<close>: a byte
  is read before the precision is tested.\<close>

partial_function (option) print_str :: "kern \<Rightarrow> u32 \<Rightarrow> int \<Rightarrow> u8 list \<Rightarrow> u8 list option" where
  "print_str s p precision out =
     do { ch \<leftarrow> load_byte s (user_dir s) p;
          if ch = 0 then Some out
          else if precision < 0 then print_str s (p + 1) precision (out @ [ch])
          else if 0 \<le> precision - 1 then print_str s (p + 1) (precision - 1) (out @ [ch])
          else Some out }"

text \<open>\<open>(null)\<close>\<close>

definition null_str :: "u8 list" where
  "null_str = [40, 110, 117, 108, 108, 41]"

definition print_user :: "kern \<Rightarrow> u32 \<Rightarrow> u32 \<Rightarrow> u8 list option" where
  "print_user s p len =
     (if p = 0 then Some (if sint len < 0 then null_str else take (nat (sint len)) null_str)
      else print_str s p (sint len) [])"

section \<open>The handlers\<close>

type_synonym sysret = "(error + u32) outcome"

abbreviation ret_err :: "error \<Rightarrow> kern \<Rightarrow> sysret" where
  "ret_err err s \<equiv> Return (Inl err) s"

abbreviation ret_ok :: "kern \<Rightarrow> sysret" where
  "ret_ok s \<equiv> Return (Inr 0) s"

text \<open>Running a handler that needs the current environment; a null \<open>curenv\<close> is dereferenced.\<close>

definition with_cur :: "kern \<Rightarrow> (nat \<Rightarrow> 'a outcome) \<Rightarrow> 'a outcome" where
  "with_cur s f = (case curenv s of None \<Rightarrow> Panic | Some c \<Rightarrow> f c)"

text \<open>\<open>envid2env\<close> followed by the use of the pointer, or by the error \<open>err\<close>.\<close>

definition with_env :: "u32 \<Rightarrow> bool \<Rightarrow> error \<Rightarrow> kern \<Rightarrow> (nat \<Rightarrow> sysret) \<Rightarrow> sysret" where
  "with_env envid checkperm err s f =
     (case envid2env envid checkperm s of
        None \<Rightarrow> Panic
      | Some (Inl _) \<Rightarrow> ret_err err s
      | Some (Inr None) \<Rightarrow> Panic
      | Some (Inr (Some e)) \<Rightarrow> f e)"

definition sys_cputs :: "u32 \<Rightarrow> u32 \<Rightarrow> kern \<Rightarrow> sysret" where
  "sys_cputs p len s =
     with_cur s (\<lambda>c. obind (user_mem_assert c p len PTE_U s)
       (\<lambda>_ s1. case print_user s1 p len of
                 None \<Rightarrow> Panic
               | Some out \<Rightarrow> ret_ok (s1\<lparr>cons := (cons s1)\<lparr>cons_out := cons_out (cons s1) @ out\<rparr>\<rparr>)))"

definition sys_cgetc :: "u32 list \<Rightarrow> u32 list \<Rightarrow> kern \<Rightarrow> sysret" where
  "sys_cgetc serial kbd s =
     (let (ch, k) = cons_getc serial kbd (cons s) in Return (Inr ch) (s\<lparr>cons := k\<rparr>))"

definition sys_getenvid :: "kern \<Rightarrow> sysret" where
  "sys_getenvid s = with_cur s (\<lambda>c. Return (Inr (env_id (envs s c))) s)"

definition sys_env_destroy :: "u32 \<Rightarrow> kern \<Rightarrow> sysret" where
  "sys_env_destroy envid s =
     with_env envid True E_BAD_ENV s (\<lambda>e. obind (env_destroy e s) (\<lambda>_ s1. ret_ok s1))"

definition sys_yield :: "kern \<Rightarrow> unit outcome" where
  "sys_yield s = sched_yield s"

definition sys_exofork :: "kern \<Rightarrow> sysret" where
  "sys_exofork s =
     with_cur s (\<lambda>c. obind (of_result (env_alloc (env_id (envs s c)) s))
       (\<lambda>r s1. case r of
          Inl err \<Rightarrow> ret_err err s1
        | Inr e \<Rightarrow>
            let tf = env_tf (envs s1 c);
                s2 = set_env e (\<lambda>v. v\<lparr>env_tf := tf\<lparr>tf_regs := (tf_regs tf)\<lparr>reg_eax := 0\<rparr>\<rparr>,
                                      env_status := ENV_NOT_RUNNABLE\<rparr>) s1
            in Return (Inr (env_id (envs s2 e))) s2))"

text \<open>The values of the statuses that may be set: \<open>ENV_RUNNABLE = 2\<close>,
  \<open>ENV_NOT_RUNNABLE = 4\<close>.\<close>

definition sys_env_set_status :: "u32 \<Rightarrow> u32 \<Rightarrow> kern \<Rightarrow> sysret" where
  "sys_env_set_status envid status s =
     with_env envid True E_BAD_ENV s (\<lambda>e.
       if status \<noteq> 2 \<and> status \<noteq> 4 then ret_err E_INVAL s
       else ret_ok (set_env e (\<lambda>v. v\<lparr>env_status :=
                    (if status = 2 then ENV_RUNNABLE else ENV_NOT_RUNNABLE)\<rparr>) s))"

definition set_user_frame :: "u32 \<Rightarrow> nat \<Rightarrow> kern \<Rightarrow> kern option" where
  "set_user_frame tf e s =
     do { s1 \<leftarrow> store16 (tf + 36) (GD_UD OR 3) s;
          s2 \<leftarrow> store16 (tf + 32) (GD_UD OR 3) s1;
          s3 \<leftarrow> store16 (tf + 64) (GD_UD OR 3) s2;
          s4 \<leftarrow> store16 (tf + 52) (GD_UT OR 3) s3;
          s5 \<leftarrow> store32 (tf + 56) FL_IF s4;
          s6 \<leftarrow> store32 (tf + 56) (FL_IF AND NOT FL_IOPL_MASK) s5;
          b \<leftarrow> load_bytes s6 (user_dir s6) tf 68;
          Some (set_env e (\<lambda>v. v\<lparr>env_tf := tf_of_bytes b\<rparr>) s6) }"

definition sys_env_set_trapframe :: "u32 \<Rightarrow> u32 \<Rightarrow> kern \<Rightarrow> sysret" where
  "sys_env_set_trapframe envid tf s =
     with_env envid True E_INVAL s (\<lambda>e.
       obind (user_mem_assert e tf 68 (PTE_W OR PTE_P) s)
         (\<lambda>_ s1. obind (of_state (set_user_frame tf e s1)) (\<lambda>_ s2. ret_ok s2)))"

definition sys_env_set_pgfault_upcall :: "u32 \<Rightarrow> u32 \<Rightarrow> kern \<Rightarrow> sysret" where
  "sys_env_set_pgfault_upcall envid func s =
     with_env envid True E_BAD_ENV s (\<lambda>e. ret_ok (set_env e (\<lambda>v. v\<lparr>env_pgfault_upcall := func\<rparr>) s))"

definition sys_page_alloc :: "u32 \<Rightarrow> u32 \<Rightarrow> u32 \<Rightarrow> kern \<Rightarrow> sysret" where
  "sys_page_alloc envid va perm s =
     with_env envid True E_BAD_ENV s (\<lambda>e.
       if UTOP \<le> va \<or> PGOFF va \<noteq> 0 then ret_err E_INVAL s
       else if perm AND NOT PTE_SYSCALL \<noteq> 0 then ret_err E_INVAL s
       else obind (of_result (page_alloc ALLOC_ZERO s))
         (\<lambda>pg s1. case pg of
            None \<Rightarrow> ret_err E_NO_MEM s1
          | Some p \<Rightarrow>
              obind (of_result (page_insert (env_pgdir (envs s1 e)) p va perm s1))
                (\<lambda>r s2. case r of
                   Inl _ \<Rightarrow> obind (of_state (page_free p s2)) (\<lambda>_ s3. ret_err E_NO_MEM s3)
                 | Inr _ \<Rightarrow> ret_ok s2)))"

definition sys_page_map :: "u32 \<Rightarrow> u32 \<Rightarrow> u32 \<Rightarrow> u32 \<Rightarrow> u32 \<Rightarrow> kern \<Rightarrow> sysret" where
  "sys_page_map srcenvid srcva dstenvid dstva perm s =
     with_env srcenvid True E_BAD_ENV s (\<lambda>src_e.
     with_env dstenvid True E_BAD_ENV s (\<lambda>dst_e.
       if (UTOP \<le> srcva \<or> PGOFF srcva \<noteq> 0) \<or> (UTOP \<le> dstva \<or> PGOFF dstva \<noteq> 0) then ret_err E_INVAL s
       else obind (of_result (page_lookup (env_pgdir (envs s src_e)) srcva s))
         (\<lambda>r s1. case r of
            None \<Rightarrow> ret_err E_INVAL s1
          | Some (pg, pte) \<Rightarrow>
              if perm AND NOT PTE_SYSCALL \<noteq> 0 then ret_err E_INVAL s1
              else if perm AND PTE_W \<noteq> 0 \<and> kread s1 pte AND PTE_W = 0 then ret_err E_INVAL s1
              else obind (of_result (page_insert (env_pgdir (envs s1 dst_e)) pg dstva perm s1))
                (\<lambda>q s2. case q of Inl _ \<Rightarrow> ret_err E_NO_MEM s2 | Inr _ \<Rightarrow> ret_ok s2))))"

definition sys_page_unmap :: "u32 \<Rightarrow> u32 \<Rightarrow> kern \<Rightarrow> sysret" where
  "sys_page_unmap envid va s =
     with_env envid True E_BAD_ENV s (\<lambda>e.
       if UTOP \<le> va \<or> PGOFF va \<noteq> 0 then ret_err E_INVAL s
       else obind (of_state (page_remove (env_pgdir (envs s e)) va s)) (\<lambda>_ s1. ret_ok s1))"

text \<open>The fields of the receiver that a successful send sets.\<close>

definition ipc_deliver :: "nat \<Rightarrow> nat \<Rightarrow> u32 \<Rightarrow> u32 \<Rightarrow> kern \<Rightarrow> sysret" where
  "ipc_deliver e c value perm s =
     ret_ok (set_env e (\<lambda>v. v\<lparr>env_ipc_perm := perm, env_ipc_recving := False,
             env_ipc_from := env_id (envs s c), env_ipc_value := value,
             env_status := ENV_RUNNABLE\<rparr>) s)"

definition sys_ipc_try_send :: "u32 \<Rightarrow> u32 \<Rightarrow> u32 \<Rightarrow> u32 \<Rightarrow> kern \<Rightarrow> sysret" where
  "sys_ipc_try_send envid value srcva perm s =
     with_env envid False E_BAD_ENV s (\<lambda>e.
       if \<not> env_ipc_recving (envs s e) then ret_err E_IPC_NOT_RECV s
       else with_cur s (\<lambda>c.
         if srcva < UTOP \<and> env_ipc_dstva (envs s e) < UTOP then
           if PGOFF srcva \<noteq> 0 then ret_err E_INVAL s
           else obind (of_result (page_lookup (env_pgdir (envs s c)) srcva s))
             (\<lambda>r s1. case r of
                None \<Rightarrow> ret_err E_INVAL s1
              | Some (pg, pte) \<Rightarrow>
                  if perm AND NOT PTE_SYSCALL \<noteq> 0 then ret_err E_INVAL s1
                  else if perm AND PTE_W \<noteq> 0 \<and> kread s1 pte AND PTE_W = 0 then ret_err E_INVAL s1
                  else obind (of_result (page_insert (env_pgdir (envs s1 e)) pg
                                           (env_ipc_dstva (envs s1 e)) perm s1))
                    (\<lambda>q s2. case q of
                       Inl _ \<Rightarrow> ret_err E_NO_MEM s2
                     | Inr _ \<Rightarrow> ipc_deliver e c value perm s2))
         else ipc_deliver e c value 0 s))"

definition sys_ipc_recv :: "u32 \<Rightarrow> kern \<Rightarrow> sysret" where
  "sys_ipc_recv dstva s =
     with_cur s (\<lambda>c.
       if dstva < UTOP \<and> PGOFF dstva \<noteq> 0 then ret_err E_INVAL s
       else let s1 = (if dstva < UTOP then set_env c (\<lambda>v. v\<lparr>env_ipc_dstva := dstva\<rparr>) s else s);
                s2 = set_env c (\<lambda>v. v\<lparr>env_ipc_recving := True, env_status := ENV_NOT_RUNNABLE,
                       env_tf := (env_tf v)\<lparr>tf_regs := (tf_regs (env_tf v))\<lparr>reg_eax := 0\<rparr>\<rparr>\<rparr>) s1
            in obind (sys_yield s2) (\<lambda>_ s3. ret_ok s3))"

text \<open>The dispatcher, on the numbers of \<open>inc/syscall.h\<close>. \<open>serial\<close> and \<open>kbd\<close> are the input
  that the devices hold.\<close>

definition dispatch :: "u32 list \<Rightarrow> u32 list \<Rightarrow> u32 \<Rightarrow> u32 \<Rightarrow> u32 \<Rightarrow> u32 \<Rightarrow> u32 \<Rightarrow> u32 \<Rightarrow> kern \<Rightarrow> sysret" where
  "dispatch serial kbd syscallno a1 a2 a3 a4 a5 s =
     (if syscallno = 0 then sys_cputs a1 a2 s
      else if syscallno = 1 then sys_cgetc serial kbd s
      else if syscallno = 2 then sys_getenvid s
      else if syscallno = 3 then sys_env_destroy a1 s
      else if syscallno = 4 then sys_page_alloc a1 a2 a3 s
      else if syscallno = 5 then sys_page_map a1 a2 a3 a4 a5 s
      else if syscallno = 6 then sys_page_unmap a1 a2 s
      else if syscallno = 7 then sys_exofork s
      else if syscallno = 8 then sys_env_set_status a1 a2 s
      else if syscallno = 9 then sys_env_set_trapframe a1 a2 s
      else if syscallno = 10 then sys_env_set_pgfault_upcall a1 a2 s
      else if syscallno = 11 then obind (sys_yield s) (\<lambda>_ s1. ret_ok s1)
      else if syscallno = 12 then sys_ipc_try_send a1 a2 a3 a4 s
      else if syscallno = 13 then sys_ipc_recv a1 s
      else ret_err E_INVAL s)"

definition ret_code :: "error + u32 \<Rightarrow> u32" where
  "ret_code r = (case r of Inl err \<Rightarrow> - of_int (error_code err) | Inr v \<Rightarrow> v)"

definition syscall :: "u32 list \<Rightarrow> u32 list \<Rightarrow> u32 \<Rightarrow> u32 \<Rightarrow> u32 \<Rightarrow> u32 \<Rightarrow> u32 \<Rightarrow> u32 \<Rightarrow> kern \<Rightarrow> u32 outcome" where
  "syscall serial kbd syscallno a1 a2 a3 a4 a5 s =
     obind (dispatch serial kbd syscallno a1 a2 a3 a4 a5 s) (\<lambda>r s1. Return (ret_code r) s1)"

end
