(* ===== verification/Syscall_Inv.thy ===== *)
theory Syscall_Inv
  imports Syscall
begin

text \<open>
  What the system calls preserve: the kernel invariant, the set of accounted frames (no page
  leaks), the address spaces of unrelated environments; and what the memory calls do to the
  address space they are meant to change.
\<close>

section \<open>Page operations on the address space of an environment\<close>

definition upage :: "u32 \<Rightarrow> nat \<times> nat" where
  "upage va = (unat (PDX va), unat (PTX va))"

lemma uspace_upd:
  assumes k: "kinv s fl el" and e: "e \<in> live s" and f: "pm_frame s s'"
    and um: "umap (phys s') (dirs s) = (umap (phys s) (dirs s))(ukey (env_dir s e) va := v)"
  shows "uspace s' e = (uspace s e)(upage va := v)"
    and "x \<in> live s \<Longrightarrow> x \<noteq> e \<Longrightarrow> uspace s' x = uspace s x"
proof -
  show "uspace s' e = (uspace s e)(upage va := v)"
    by (auto simp: uspace_def pm_frame_dirs [OF f] um upage_def ukey_def)
  assume x: "x \<in> live s" "x \<noteq> e"
  then have "env_dir s x \<noteq> env_dir s e" using kinvD(5) [OF k] e by (auto dest: inj_onD)
  then show "uspace s' x = uspace s x"
    by (auto simp: uspace_def pm_frame_dirs [OF f] um ukey_def)
qed

text \<open>From the effect on the map to the environments.\<close>

lemma page_op_env:
  assumes k: "kinv s fl el" and e: "e \<in> live s" and f: "pm_frame s s'"
    and vm: "vm_inv s' fl' (dirs s)"
    and um: "umap (phys s') (dirs s) = (umap (phys s) (dirs s))(ukey (env_dir s e) va := v)"
    and keep: "\<And>x. x \<noteq> env_dir s e \<Longrightarrow> x \<notin> tables (phys s) (dirs s) \<Longrightarrow> x \<notin> set fl \<Longrightarrow> phys s' x = phys s x"
  shows "kinv s' fl' el" and "untouched {e} s s'"
proof -
  have "kdir s \<notin> set fl" "kdir s \<notin> tables (phys s) (dirs s)"
    using tables_invD(3) [OF vm_invD(2) [OF kinvD(1) [OF k]] kinvD(13) [OF k]]
      live_not_table [OF k kinvD(13) [OF k]] by auto
  then have "phys s' (kdir s) = phys s (kdir s)" using keep kinvD(7) [OF k e] by metis
  then show "kinv s' fl' el" by (intro kinv_page_op [OF k f vm]) simp
  have "phys s' p = phys s p" if "p \<in> ran (frames (phys s) (dirs s))" for p
    using vm_inv_mapped(2-4) [OF kinvD(1) [OF k] that] kinvD(12) [OF k e] by (intro keep) auto
  then show "untouched {e} s s'"
    using uspace_upd(2) [OF k e f um] by (simp add: untouched_def pm_frame_dirs [OF f])
qed

lemma remove_env:
  assumes k: "kinv s fl el" and e: "e \<in> live s" and va: "va < UTOP"
  obtains s' fl' where "page_remove (env_pgdir (envs s e)) va s = Some s'" and "pm_frame s s'"
    and "kinv s' fl' el" and "untouched {e} s s'" and "owned s' fl' (dirs s') = owned s fl (dirs s)"
    and "uspace s' e = (uspace s e)(upage va := None)"
    and "umap (phys s') (dirs s') = (umap (phys s) (dirs s))(ukey (env_dir s e) va := None)"
proof -
  obtain s' fl' where s': "page_remove (frame_kva (env_dir s e)) va s = Some s'"
    "vm_inv s' fl' (dirs s)" "pm_frame s s'"
    "umap (phys s') (dirs s) = (umap (phys s) (dirs s))(ukey (env_dir s e) va := None)"
    "\<forall>p. p \<notin> tables (phys s) (dirs s) \<longrightarrow> phys s' p = phys s p"
    "owned s' fl' (dirs s) = owned s fl (dirs s)"
    using page_remove_spec [OF kinvD(1) [OF k] kinvD(12) [OF k e] va] by blast
  show thesis
    using that [of s' fl'] s' page_op_env [OF k e s'(3,2,4)] uspace_upd(1) [OF k e s'(3,4)]
      kinvD(6) [OF k e] pm_frame_dirs(1) [OF s'(3)] by simp
qed

lemma insert_env:
  assumes k: "kinv s fl el" and e: "e \<in> live s" and va: "va < UTOP"
    and p: "insertable s fl (dirs s) p" and perm: "perm < 4096"
  obtains (ok) s' fl' where "page_insert (env_pgdir (envs s e)) p va perm s = Some (Inr (), s')"
      and "pm_frame s s'" and "kinv s' fl' el" and "untouched {e} s s'"
      and "owned s' fl' (dirs s') = insert p (owned s fl (dirs s))"
      and "uspace s' e = (uspace s e)(upage va \<mapsto> frame_addr p OR perm OR PTE_P)"
      and "\<forall>x. x \<noteq> env_dir s e \<longrightarrow> x \<notin> tables (phys s) (dirs s) \<longrightarrow> x \<notin> set fl \<longrightarrow> phys s' x = phys s x"
      and "umap (phys s') (dirs s') = (umap (phys s) (dirs s))(ukey (env_dir s e) va \<mapsto> frame_addr p OR perm OR PTE_P)"
    | (no_mem) "fl = []" and "page_insert (env_pgdir (envs s e)) p va perm s = Some (Inl E_NO_MEM, s)"
proof (cases "phys s (env_dir s e) (unat (PDX va)) \<noteq> 0 \<or> fl \<noteq> []")
  case True
  obtain s' fl' where s': "page_insert (frame_kva (env_dir s e)) p va perm s = Some (Inr (), s')"
    "vm_inv s' fl' (dirs s)" "pm_frame s s'"
    "umap (phys s') (dirs s) = (umap (phys s) (dirs s))(ukey (env_dir s e) va \<mapsto> frame_addr p OR perm OR PTE_P)"
    "\<forall>x. x \<noteq> env_dir s e \<longrightarrow> x \<notin> tables (phys s) (dirs s) \<longrightarrow> x \<notin> set fl \<longrightarrow> phys s' x = phys s x"
    "owned s' fl' (dirs s) = insert p (owned s fl (dirs s))"
    using page_insert_spec [OF kinvD(1) [OF k] kinvD(12) [OF k e] va p perm True] by blast
  show thesis
    using ok [of s' fl'] s' page_op_env [OF k e s'(3,2,4)] uspace_upd(1) [OF k e s'(3,4)]
      kinvD(6) [OF k e] pm_frame_dirs(1) [OF s'(3)] by simp
next
  case False
  then have fl: "fl = []" and z: "phys s (env_dir s e) (unat (PDX va)) = 0" by auto
  then show thesis
    using no_mem page_insert_no_mem [OF _ kinvD(12) [OF k e] z] kinvD(1,6) [OF k] e by simp
qed

text \<open>The page that \<open>page_lookup\<close> finds in an address space may be mapped once more unless its
  reference count is exhausted.\<close>

lemma lookup_env:
  assumes k: "kinv s fl el" and e: "e \<in> live s" and va: "va < UTOP"
  obtains (none) "uspace s e (upage va) = None" and "page_lookup (env_pgdir (envs s e)) va s = Some (None, s)"
    | (some) pte pt where "uspace s e (upage va) = Some pte" and "kread s pt = pte"
      and "page_lookup (env_pgdir (envs s e)) va s = Some (Some (unat (PGNUM pte), pt), s)"
      and "unat (PGNUM pte) \<in> ran (frames (phys s) (dirs s))"
proof -
  let ?d = "env_dir s e"
  have us: "uspace s e (upage va) = umap (phys s) (dirs s) (ukey ?d va)"
    by (simp add: uspace_def upage_def ukey_def)
  note lk = page_lookup_spec [OF kinvD(1) [OF k] kinvD(12) [OF k e] va]
  show thesis
  proof (cases "uspace s e (upage va)")
    case None
    with lk us kinvD(6) [OF k e] show thesis by (intro none) auto
  next
    case (Some pte)
    then have um: "umap (phys s) (dirs s) (ukey ?d va) = Some pte" using us by simp
    then have live: "(?d, unat (PDX va)) \<in> live_slots (phys s) (dirs s)"
      by (auto simp: ukey_def umap_apply split: if_splits)
    have "utable s ?d va < 65536"
      using live tables_invD(4) [OF vm_invD(2) [OF kinvD(1) [OF k]] pt_frame_in_tables]
        vm_invD(3) [OF kinvD(1) [OF k]] by (fastforce simp: utable_def)
    then have "kread s (entry (frame_kva (utable s ?d va)) (PTX va)) = pte"
      using um umap_ukey [OF live] by (simp add: PTX_less split: if_splits)
    then show thesis
      using some [OF Some _ _ umap_ran [OF um]] lk um kinvD(6) [OF k e] by simp
  qed
qed

lemma mapped_insertable:
  assumes "vm_inv s fl D" and "p \<in> ran (frames (phys s) D)" and "unat (pp_ref (pages s p)) < 65535"
  shows "insertable s fl D p"
  using vm_inv_mapped [OF assms(1,2)] assms(3) by (simp add: insertable_def)

lemma syscall_perm: "perm AND NOT PTE_SYSCALL = 0 \<Longrightarrow> perm < 4096"
proof -
  assume "perm AND NOT PTE_SYSCALL = 0"
  then have "perm = perm AND PTE_SYSCALL"
    by (metis and.comm_neutral bit.conj_disj_distrib bit.disj_cancel_right or.right_neutral)
  moreover have "PGNUM (perm AND PTE_SYSCALL) = 0"
    by (simp add: PGNUM_def drop_bit_and layout_values(13))
  ultimately show ?thesis by (simp add: less_4096_iff)
qed

text \<open>Taking a cleared page off the free list changes no address space, and the page may be
  mapped; putting it back restores the accounts.\<close>

lemma umap_upd_other:
  assumes "t \<notin> D" and "t \<notin> tables m D"
  shows "umap (m(t := r)) D = umap m D"
proof -
  have "umap (m(t := r)) D (d, i, j) = umap m D (d, i, j)" for d i j
  proof (cases "(d, i) \<in> live_slots m D")
    case True
    then have "pt_frame m (d, i) \<noteq> t" using assms(2) pt_frame_in_tables by metis
    with True assms(1) show ?thesis by (simp add: umap_apply live_slots_upd pt_frame_upd)
  qed (simp add: umap_apply live_slots_upd [OF assms(1)])
  then show ?thesis by auto
qed

lemma alloc_env:
  assumes k: "kinv s (p # fl) el"
  defines "s1 \<equiv> popped True p s"
  shows "page_alloc ALLOC_ZERO s = Some (Some p, s1)" and "pm_frame s s1" and "kinv s1 fl el"
    and "insertable s1 fl (dirs s1) p" and "insert p (owned s1 fl (dirs s1)) = owned s (p # fl) (dirs s)"
    and "uspace s1 = uspace s" and "phys s1 = (phys s)(p := (\<lambda>_. 0))"
    and "tables (phys s1) (dirs s) = tables (phys s) (dirs s)"
    and "frames (phys s1) (dirs s) = frames (phys s) (dirs s)"
    and "untouched {} s s1" and "umap (phys s1) (dirs s) = umap (phys s) (dirs s)"
proof -
  note vm = kinvD(1) [OF k]
  note fl = vm_invD(1) [OF vm] and ti = vm_invD(2) [OF vm]
  have p: "p \<notin> dirs s" "p \<notin> tables (phys s) (dirs s)" "p \<notin> set fl" "p < npages s" "pp_ref (pages s p) = 0"
    using tables_invD(3,5) [OF ti] free_list_invD(2-4) [OF fl] by auto
  have pm: "p \<notin> ran (frames (phys s) (dirs s))" using vm_inv_mapped(2) [OF vm] by auto
  show "page_alloc ALLOC_ZERO s = Some (Some p, s1)"
    using page_alloc_Cons [OF fl, of ALLOC_ZERO] by (simp add: ALLOC_ZERO_def s1_def)
  show f: "pm_frame s s1" by (simp add: s1_def)
  show ph: "phys s1 = (phys s)(p := (\<lambda>_. 0))" by (auto simp: s1_def fun_eq_iff)
  show um: "umap (phys s1) (dirs s) = umap (phys s) (dirs s)" unfolding ph by (rule umap_upd_other) fact+
  show fr: "frames (phys s1) (dirs s) = frames (phys s) (dirs s)" using um by (rule frames_cong)
  show tb: "tables (phys s1) (dirs s) = tables (phys s) (dirs s)" unfolding ph by (rule tables_upd) fact
  have "tables_inv (phys s1) (npages s) (set fl) (dirs s)"
    unfolding ph by (rule tables_inv_upd [OF tables_inv_subset [OF ti] p(1)]) auto
  moreover have ref: "npages s1 = npages s" "\<And>x. pp_ref (pages s1 x) = pp_ref (pages s x)"
    by (simp_all add: s1_def)
  ultimately have vm1: "vm_inv s1 fl (dirs s)"
    unfolding vm_inv_def fr tb using vm free_list_inv_popped [OF fl, of True]
    by (auto simp: vm_inv_def s1_def)
  have "phys s1 (kdir s) = phys s (kdir s)" using p(1) kinvD(13) [OF k] unfolding ph by auto
  then show "kinv s1 fl el" by (intro kinv_page_op [OF k f vm1]) simp
  have "occurrences (frames (phys s) (dirs s)) p = 0"
    using pm occurrences_fresh [OF finite_dom_frames [OF vm_invD(4) [OF vm]]] by blast
  with p ref show "insertable s1 fl (dirs s1) p"
    unfolding insertable_def pm_frame_dirs [OF f] tb fr by simp
  show "insert p (owned s1 fl (dirs s1)) = owned s (p # fl) (dirs s)"
    unfolding owned_def pm_frame_dirs [OF f] tb fr by simp
  show us: "uspace s1 = uspace s" by (simp add: uspace_def pm_frame_dirs [OF f] um fun_eq_iff)
  show "untouched {} s s1"
    using pm by (auto simp: untouched_def pm_frame_dirs [OF f] us ph)
qed

lemma free_env:
  assumes k: "kinv s fl el" and p: "insertable s fl (dirs s) p" "pp_ref (pages s p) = 0"
  obtains s' where "page_free p s = Some s'" and "kinv s' (p # fl) el" and "pm_frame s s'"
    and "owned s' (p # fl) (dirs s') = insert p (owned s fl (dirs s))" and "phys s' = phys s"
proof -
  note vm = kinvD(1) [OF k]
  have p': "p < npages s" "p \<notin> set fl" "p \<notin> dirs s" "p \<notin> tables (phys s) (dirs s)"
    "occurrences (frames (phys s) (dirs s)) p = 0"
    using p by (auto simp: insertable_def)
  then have pr: "p \<notin> ran (frames (phys s) (dirs s))"
    using occurrences_fresh [OF finite_dom_frames [OF vm_invD(4) [OF vm]]] by blast
  obtain s' where s': "page_free p s = Some s'" "free_list_inv s' (p # fl)"
    "s' = s\<lparr>pages := (pages s)(p := (pages s p)\<lparr>pp_link := page_free_list s\<rparr>), page_free_list := Some p\<rparr>"
    using page_free_spec [OF vm_invD(1) [OF vm] p'(1,2) p(2)] by blast
  have f: "pm_frame s s'" unfolding s'(3) by (simp add: pm_frame_def)
  have ph: "phys s' = phys s" "npages s' = npages s" "\<And>x. pp_ref (pages s' x) = pp_ref (pages s x)"
    unfolding s'(3) by simp_all
  have "tables_inv (phys s) (npages s) (set (p # fl)) (dirs s)"
    using tables_inv_free [OF vm_invD(2) [OF vm] p'(3,4)] by simp
  then have "vm_inv s' (p # fl) (dirs s)"
    unfolding vm_inv_def ph using s'(2) vm pr by (auto simp: vm_inv_def)
  then have "kinv s' (p # fl) el" by (intro kinv_page_op [OF k f]) (simp_all add: ph)
  moreover have "owned s' (p # fl) (dirs s') = insert p (owned s fl (dirs s))"
    unfolding owned_def pm_frame_dirs [OF f] ph by simp
  ultimately show thesis using that s'(1) f ph(1) by blast
qed

section \<open>The environments a caller may name\<close>

definition family :: "kern \<Rightarrow> nat \<Rightarrow> nat set" where
  "family s c = {e \<in> live s. e = c \<or> env_parent_id (envs s e) = env_id (envs s c)}"

lemma with_env_ends:
  assumes ok: "sys_ok Own s" and cpu: "cpu_ok s" and c: "curenv s = Some c"
    and err: "R (Inl er) s"
    and found: "\<And>e. e \<in> live s \<Longrightarrow> (chk \<Longrightarrow> e \<in> family s c) \<Longrightarrow> (if envid = 0 then e = c else env_id (envs s e) = envid)
        \<Longrightarrow> ends R Q (f e)"
  shows "ends R Q (with_env envid chk er s f)"
proof -
  from ok obtain fl el where k: "kinv s fl el" by (auto simp: sys_ok_def)
  have cl: "c \<in> live s" using cpu c by (simp add: cpu_ok_def)
  show ?thesis
  proof (cases "envid2env envid chk s")
    case None
    then show ?thesis using envid2env_total [OF c] by blast
  next
    case (Some r)
    show ?thesis
    proof (cases r)
      case (Inl a)
      with Some err show ?thesis by (simp add: with_env_def)
    next
      case (Inr q)
      have "\<exists>e\<in>live s. q = Some e \<and> (chk \<longrightarrow> e \<in> family s c) \<and> (if envid = 0 then e = c else env_id (envs s e) = envid)"
      proof (cases "envid = 0")
        case True
        with Some Inr c cl show ?thesis by (auto simp: envid2env_def family_def)
      next
        case False
        then show ?thesis
          using envid2env_found [OF k False c] Some Inr False by (auto simp: family_def)
      qed
      with Some Inr found show ?thesis by (auto simp: with_env_def)
    qed
  qed
qed

section \<open>Every handler keeps the invariant\<close>

text \<open>The two postconditions of a handler: when it returns to the caller, and when it leaves the
  kernel for another environment.\<close>

definition sys_ret :: "nat set \<Rightarrow> nat set \<Rightarrow> kern \<Rightarrow> kern \<Rightarrow> bool" where
  "sys_ret A Own s s' \<longleftrightarrow> sys_ok Own s' \<and> untouched A s s' \<and> kept A s s' \<and> curenv s' = curenv s \<and> cpu_ok s'"

definition sys_exit :: "nat set \<Rightarrow> nat set \<Rightarrow> kern \<Rightarrow> kern \<Rightarrow> bool" where
  "sys_exit A Own s s' \<longleftrightarrow> (sys_ok Own s' \<and> untouched A s s') \<and> alone A s s'"

lemma sys_ret_refl: "sys_ok Own s \<Longrightarrow> cpu_ok s \<Longrightarrow> sys_ret A Own s s"
  by (simp add: sys_ret_def)

lemma sys_ret_same:
  assumes "sys_ok Own s" and "cpu_ok s" and "same_spaces s s'" and "curenv s' = curenv s"
    and "kernel_lock s' = kernel_lock s" and "this_cpu s' = this_cpu s" and "kept A s s'"
  shows "sys_ret A Own s s'"
  using assms by (simp add: sys_ret_def same_spaces_sys [OF assms(3)] cpu_ok_def same_spacesD [OF assms(3)])

lemma sys_ret_frame:
  assumes "cpu_ok s" and "pm_frame s s'" and "kinv s' fl' el" and "untouched A s s'"
    and "owned s' fl' (dirs s') = Own"
  shows "sys_ret A Own s s'"
  using assms pm_frameD [OF assms(2)] pm_frame_dirs [OF assms(2)]
  by (auto simp: sys_ret_def sys_ok_def cpu_ok_def kept_def)

lemma sys_page_unmap_ends:
  assumes ok: "sys_ok Own s" and cpu: "cpu_ok s" and c: "curenv s = Some c"
  shows "ends (\<lambda>_. sys_ret (family s c) Own s) (sys_exit (family s c) Own s) (sys_page_unmap envid va s)"
  unfolding sys_page_unmap_def
proof (rule with_env_ends [OF ok cpu c])
  fix e assume e: "e \<in> live s" and fam: "True \<Longrightarrow> e \<in> family s c"
  from ok obtain fl el where k: "kinv s fl el" and o: "owned s fl (dirs s) = Own" by (auto simp: sys_ok_def)
  show "ends (\<lambda>_. sys_ret (family s c) Own s) (sys_exit (family s c) Own s)
     (if UTOP \<le> va \<or> PGOFF va \<noteq> 0 then ret_err E_INVAL s
      else obind (of_state (page_remove (env_pgdir (envs s e)) va s)) (\<lambda>_ s1. ret_ok s1))"
  proof (cases "UTOP \<le> va \<or> PGOFF va \<noteq> 0")
    case False
    then have "va < UTOP" by (simp add: not_le)
    from remove_env [OF k e this] obtain s' fl' where s':
      "page_remove (env_pgdir (envs s e)) va s = Some s'" "pm_frame s s'" "kinv s' fl' el"
      "untouched {e} s s'" "owned s' fl' (dirs s') = Own" using o by metis
    then have "sys_ret (family s c) Own s s'"
      using fam by (intro sys_ret_frame [OF cpu s'(2,3) untouched_mono [OF s'(4)]]) auto
    with False s'(1) show ?thesis by (auto simp: of_state_def)
  qed (use ok cpu in \<open>auto simp: sys_ret_refl\<close>)
qed (rule sys_ret_refl [OF ok cpu])

lemma sys_page_alloc_ends:
  assumes ok: "sys_ok Own s" and cpu: "cpu_ok s" and c: "curenv s = Some c"
  shows "ends (\<lambda>_. sys_ret (family s c) Own s) (sys_exit (family s c) Own s) (sys_page_alloc envid va perm s)"
  unfolding sys_page_alloc_def
proof (rule with_env_ends [OF ok cpu c])
  fix e assume e: "e \<in> live s" and fam: "True \<Longrightarrow> e \<in> family s c"
  from ok obtain fl el where k: "kinv s fl el" and o: "owned s fl (dirs s) = Own" by (auto simp: sys_ok_def)
  let ?body = "\<lambda>pg s1. case pg of None \<Rightarrow> ret_err E_NO_MEM s1
     | Some p \<Rightarrow> obind (of_result (page_insert (env_pgdir (envs s1 e)) p va perm s1))
         (\<lambda>r s2. case r of Inl _ \<Rightarrow> obind (of_state (page_free p s2)) (\<lambda>_ s3. ret_err E_NO_MEM s3)
                 | Inr _ \<Rightarrow> ret_ok s2)"
  have body: "ends (\<lambda>_. sys_ret (family s c) Own s) (sys_exit (family s c) Own s)
      (obind (of_result (page_alloc ALLOC_ZERO s)) ?body)"
    if va: "va < UTOP" and perm: "perm < 4096"
  proof (cases fl)
    case Nil
    then show ?thesis
      using page_alloc_Nil [of s ALLOC_ZERO] vm_invD(1) [OF kinvD(1) [OF k]] sys_ret_refl [OF ok cpu]
      by (simp add: of_result_def)
  next
    case (Cons p fl1)
    note a = alloc_env [OF k [unfolded Cons]]
    let ?s1 = "popped True p s"
    have e1: "e \<in> live ?s1" using e pm_frame_dirs(2) [OF a(2)] by simp
    have un: "untouched (family s c) s s2" if u: "untouched {e} ?s1 s2" for s2
    proof -
      have "phys s2 q = phys s q" if "q \<in> ran (frames (phys s) (dirs s))" for q
      proof -
        have "q \<noteq> p" using vm_inv_mapped(2) [OF kinvD(1) [OF k] that] Cons by auto
        then show ?thesis using u that a(7,9) unfolding untouched_def pm_frame_dirs [OF a(2)] by simp
      qed
      then show ?thesis using u fam a(6) unfolding untouched_def pm_frame_dirs [OF a(2)] by auto
    qed
    show ?thesis
    proof (cases rule: insert_env [OF a(3) e1 va a(4) perm])
      case (1 s2 fl2)
      have "sys_ret (family s c) Own s s2"
        by (rule sys_ret_frame [OF cpu pm_frame_trans [OF a(2) 1(2)] 1(3) un [OF 1(4)]])
          (use 1(5) a(5) o Cons in auto)
      with 1(1) a(1) show ?thesis by (simp add: of_result_def)
    next
      case 2
      have r0: "pp_ref (pages ?s1 p) = 0"
        using free_list_invD(4) [OF vm_invD(1) [OF kinvD(1) [OF k]], of p] Cons by simp
      obtain s3 where s3: "page_free p ?s1 = Some s3" "kinv s3 (p # fl1) el" "pm_frame ?s1 s3"
        "owned s3 (p # fl1) (dirs s3) = insert p (owned ?s1 fl1 (dirs ?s1))" "phys s3 = phys ?s1"
        using free_env [OF a(3,4) r0] by blast
      have "uspace s3 = uspace s"
        unfolding a(6) [symmetric] by (simp add: uspace_def fun_eq_iff pm_frame_dirs [OF s3(3)] s3(5) del: popped_frame)
      then have "untouched (family s c) s s3"
        using a(10) s3(5) by (simp add: untouched_def pm_frame_dirs [OF a(2)] pm_frame_dirs [OF s3(3)])
      then have "sys_ret (family s c) Own s s3"
        by (rule sys_ret_frame [OF cpu pm_frame_trans [OF a(2) s3(3)] s3(2)])
          (use s3(4) a(5) o Cons in auto)
      with 2(2) a(1) s3(1) show ?thesis by (simp add: of_result_def of_state_def)
    qed
  qed
  show "ends (\<lambda>_. sys_ret (family s c) Own s) (sys_exit (family s c) Own s)
     (if UTOP \<le> va \<or> PGOFF va \<noteq> 0 then ret_err E_INVAL s
      else if perm AND NOT PTE_SYSCALL \<noteq> 0 then ret_err E_INVAL s
      else obind (of_result (page_alloc ALLOC_ZERO s)) ?body)"
    using body sys_ret_refl [OF ok cpu] by (simp add: syscall_perm not_le)
qed (rule sys_ret_refl [OF ok cpu])

text \<open>Mapping a page that \<open>page_lookup\<close> found: the common part of \<open>sys_page_map\<close> and
  \<open>sys_ipc_try_send\<close>.\<close>

definition refs_free :: "kern \<Rightarrow> bool" where
  "refs_free s \<longleftrightarrow> (\<forall>p. unat (pp_ref (pages s p)) < 65535)"

lemma share_ends:
  assumes ok: "sys_ok Own s" and cpu: "cpu_ok s" and refs: "refs_free s"
    and src: "x \<in> live s" "srcva < UTOP" and dst: "e \<in> live s" "dstva < UTOP" and A: "e \<in> A"
    and next': "\<And>s'. sys_ret A Own s s' \<Longrightarrow> live s' = live s \<Longrightarrow> ends (\<lambda>_. sys_ret A Own s) (sys_exit A Own s) (f s')"
  shows "ends (\<lambda>_. sys_ret A Own s) (sys_exit A Own s)
     (obind (of_result (page_lookup (env_pgdir (envs s x)) srcva s))
       (\<lambda>r s1. case r of None \<Rightarrow> ret_err E_INVAL s1
          | Some (pg, pte) \<Rightarrow>
              if perm AND NOT PTE_SYSCALL \<noteq> 0 then ret_err E_INVAL s1
              else if perm AND PTE_W \<noteq> 0 \<and> kread s1 pte AND PTE_W = 0 then ret_err E_INVAL s1
              else obind (of_result (page_insert (env_pgdir (envs s1 e)) pg dstva perm s1))
                (\<lambda>q s2. case q of Inl _ \<Rightarrow> ret_err E_NO_MEM s2 | Inr _ \<Rightarrow> f s2)))"
proof -
  from ok obtain fl el where k: "kinv s fl el" and o: "owned s fl (dirs s) = Own" by (auto simp: sys_ok_def)
  note rf = sys_ret_refl [OF ok cpu]
  show ?thesis
  proof (cases rule: lookup_env [OF k src])
    case 1
    with rf show ?thesis by (simp add: of_result_def)
  next
    case (2 pte pt)
    let ?p = "unat (PGNUM pte)"
    have ins: "insertable s fl (dirs s) ?p"
      using mapped_insertable [OF kinvD(1) [OF k] 2(4)] refs by (simp add: refs_free_def)
    have body: "ends (\<lambda>_. sys_ret A Own s) (sys_exit A Own s)
        (obind (of_result (page_insert (env_pgdir (envs s e)) ?p dstva perm s))
          (\<lambda>q s2. case q of Inl _ \<Rightarrow> ret_err E_NO_MEM s2 | Inr _ \<Rightarrow> f s2))" if perm: "perm < 4096"
    proof (cases rule: insert_env [OF k dst ins perm])
      case (1 s2 fl2)
      have "?p \<in> owned s fl (dirs s)" using 2(4) by (simp add: owned_def)
      then have "sys_ret A Own s s2"
        by (intro sys_ret_frame [OF cpu 1(2,3) untouched_mono [OF 1(4)]]) (use A 1(5) o in auto)
      with next' 1(1) pm_frame_dirs(2) [OF 1(2)] show ?thesis by (simp add: of_result_def)
    next
      case 2
      with rf show ?thesis by (simp add: of_result_def)
    qed
    with 2(3) rf show ?thesis by (simp add: of_result_def syscall_perm)
  qed
qed

lemma sys_page_map_ends:
  assumes ok: "sys_ok Own s" and cpu: "cpu_ok s" and c: "curenv s = Some c" and refs: "refs_free s"
  shows "ends (\<lambda>_. sys_ret (family s c) Own s) (sys_exit (family s c) Own s)
     (sys_page_map srcenvid srcva dstenvid dstva perm s)"
  unfolding sys_page_map_def
proof (intro with_env_ends [OF ok cpu c] sys_ret_refl [OF ok cpu])
  fix x e assume x: "x \<in> live s" and e: "e \<in> live s" and fam: "True \<Longrightarrow> e \<in> family s c"
  have "ends (\<lambda>_. sys_ret (family s c) Own s) (sys_exit (family s c) Own s) (ret_ok s')"
    if "sys_ret (family s c) Own s s'" for s' using that by simp
  from share_ends [OF ok cpu refs x _ e, where f = ret_ok, OF _ _ fam [OF TrueI] this]
  show "ends (\<lambda>_. sys_ret (family s c) Own s) (sys_exit (family s c) Own s)
     (if (UTOP \<le> srcva \<or> PGOFF srcva \<noteq> 0) \<or> (UTOP \<le> dstva \<or> PGOFF dstva \<noteq> 0) then ret_err E_INVAL s
      else obind (of_result (page_lookup (env_pgdir (envs s x)) srcva s))
        (\<lambda>r s1. case r of None \<Rightarrow> ret_err E_INVAL s1
          | Some (pg, pte) \<Rightarrow>
              if perm AND NOT PTE_SYSCALL \<noteq> 0 then ret_err E_INVAL s1
              else if perm AND PTE_W \<noteq> 0 \<and> kread s1 pte AND PTE_W = 0 then ret_err E_INVAL s1
              else obind (of_result (page_insert (env_pgdir (envs s1 e)) pg dstva perm s1))
                (\<lambda>q s2. case q of Inl _ \<Rightarrow> ret_err E_NO_MEM s2 | Inr _ \<Rightarrow> ret_ok s2)))"
    using sys_ret_refl [OF ok cpu] by (simp add: not_le)
qed

lemma sys_ret_step:
  assumes "sys_ret A Own s s1" and "same_spaces s1 s2" and "curenv s2 = curenv s1"
    and "kernel_lock s2 = kernel_lock s1" and "this_cpu s2 = this_cpu s1"
    and "\<And>x. x \<in> live s \<Longrightarrow> x \<notin> A \<Longrightarrow> envs s2 x = envs s1 x"
  shows "sys_ret A Own s s2"
  using assms by (simp add: sys_ret_def kept_def same_spaces_sys [OF assms(2)] cpu_ok_def same_spacesD [OF assms(2)])

lemma ipc_deliver_ends:
  assumes "sys_ret A Own s s1" and "e \<in> live s1" and "e \<in> A"
  shows "ends (\<lambda>_. sys_ret A Own s) (sys_exit A Own s) (ipc_deliver e c value perm s1)"
proof -
  have "same_spaces s1 (set_env e (\<lambda>v. v\<lparr>env_ipc_perm := perm, env_ipc_recving := False,
      env_ipc_from := env_id (envs s1 c), env_ipc_value := value, env_status := ENV_RUNNABLE\<rparr>) s1)"
    using assms(2) by (intro same_spaces_set_env) (auto simp: live_def)
  from sys_ret_step [OF assms(1) this] show ?thesis
    using assms(3) unfolding ipc_deliver_def ends.simps
    by (auto simp: fun_upd_apply dest: meta_mp)
qed

text \<open>The environment that a message to \<open>envid\<close> reaches.\<close>

definition receiver :: "kern \<Rightarrow> u32 \<Rightarrow> nat set" where
  "receiver s envid = {e \<in> live s. env_ipc_recving (envs s e) \<and> env_id (envs s e) = envid}"

lemma sys_ipc_try_send_ends:
  assumes ok: "sys_ok Own s" and cpu: "cpu_ok s" and c: "curenv s = Some c" and refs: "refs_free s"
  shows "ends (\<lambda>_. sys_ret (family s c \<union> receiver s envid) Own s) (sys_exit (family s c \<union> receiver s envid) Own s)
     (sys_ipc_try_send envid value srcva perm s)"
  unfolding sys_ipc_try_send_def
proof (rule with_env_ends [OF ok cpu c])
  let ?A = "family s c \<union> receiver s envid"
  fix e assume e: "e \<in> live s" and id: "if envid = 0 then e = c else env_id (envs s e) = envid"
  have cl: "c \<in> live s" using cpu c by (simp add: cpu_ok_def)
  let ?send = "obind (of_result (page_lookup (env_pgdir (envs s c)) srcva s))
             (\<lambda>r s1. case r of
                None \<Rightarrow> ret_err E_INVAL s1
              | Some (pg, pte) \<Rightarrow>
                  if perm AND NOT PTE_SYSCALL \<noteq> 0 then ret_err E_INVAL s1
                  else if perm AND PTE_W \<noteq> 0 \<and> kread s1 pte AND PTE_W = 0 then ret_err E_INVAL s1
                  else obind (of_result (page_insert (env_pgdir (envs s1 e)) pg
                                           (env_ipc_dstva (envs s1 e)) perm s1))
                    (\<lambda>q s2. case q of Inl _ \<Rightarrow> ret_err E_NO_MEM s2 | Inr _ \<Rightarrow> ipc_deliver e c value perm s2))"
  have dst: "env_ipc_dstva (envs s1 e) = env_ipc_dstva (envs s e)"
    if "page_lookup (env_pgdir (envs s c)) srcva s = Some (r, s1)" for r s1
    using that by (auto simp: page_lookup_def pgdir_walk_def Let_def split: if_splits option.splits Option.bind_splits)
  have A: "e \<in> ?A" if "env_ipc_recving (envs s e)"
    using that e id cl by (auto simp: receiver_def family_def split: if_splits)
  have send: "ends (\<lambda>_. sys_ret ?A Own s) (sys_exit ?A Own s) ?send"
    if "srcva < UTOP" "env_ipc_dstva (envs s e) < UTOP" and rc: "env_ipc_recving (envs s e)"
  proof -
    have nx: "ends (\<lambda>_. sys_ret ?A Own s) (sys_exit ?A Own s) (ipc_deliver e c value perm s')"
      if "sys_ret ?A Own s s'" "live s' = live s" for s'
      using that e A [OF rc] by (intro ipc_deliver_ends) auto
    have "?send = obind (of_result (page_lookup (env_pgdir (envs s c)) srcva s))
             (\<lambda>r s1. case r of
                None \<Rightarrow> ret_err E_INVAL s1
              | Some (pg, pte) \<Rightarrow>
                  if perm AND NOT PTE_SYSCALL \<noteq> 0 then ret_err E_INVAL s1
                  else if perm AND PTE_W \<noteq> 0 \<and> kread s1 pte AND PTE_W = 0 then ret_err E_INVAL s1
                  else obind (of_result (page_insert (env_pgdir (envs s1 e)) pg
                                           (env_ipc_dstva (envs s e)) perm s1))
                    (\<lambda>q s2. case q of Inl _ \<Rightarrow> ret_err E_NO_MEM s2 | Inr _ \<Rightarrow> ipc_deliver e c value perm s2))"
      using dst by (cases "page_lookup (env_pgdir (envs s c)) srcva s")
        (auto simp: of_result_def split: option.split)
    then show ?thesis using share_ends [where perm = perm, OF ok cpu refs cl that(1) e that(2) A [OF rc] nx] by simp
  qed
  show "ends (\<lambda>_. sys_ret ?A Own s) (sys_exit ?A Own s)
     (if \<not> env_ipc_recving (envs s e) then ret_err E_IPC_NOT_RECV s
       else with_cur s (\<lambda>c.
         if srcva < UTOP \<and> env_ipc_dstva (envs s e) < UTOP then
           if PGOFF srcva \<noteq> 0 then ret_err E_INVAL s
           else obind (of_result (page_lookup (env_pgdir (envs s c)) srcva s))
             (\<lambda>r s1. case r of
                None \<Rightarrow> ret_err E_INVAL s1
              | Some (pg, pte) \<Rightarrow>
                  if perm AND NOT PTE_SYSCALL \<noteq> 0 then ret_err E_INVAL s1
                  else if perm AND PTE_W \<noteq> 0 \<and> kread s1 pte AND PTE_W = 0 then ret_err E_INVAL s1
                  else obind (of_result (page_insert (env_pgdir (envs s1 e)) pg
                                           (env_ipc_dstva (envs s1 e)) perm s1))
                    (\<lambda>q s2. case q of Inl _ \<Rightarrow> ret_err E_NO_MEM s2 | Inr _ \<Rightarrow> ipc_deliver e c value perm s2))
         else ipc_deliver e c value 0 s))"
    using send sys_ret_refl [OF ok cpu, of "?A"] ipc_deliver_ends [OF sys_ret_refl [OF ok cpu] e A]
    by (simp add: with_cur_def c)
qed (rule sys_ret_refl [OF ok cpu])

lemma sys_exofork_ends:
  assumes ok: "sys_ok Own s" and cpu: "cpu_ok s" and c: "curenv s = Some c"
  shows "ends (\<lambda>_. sys_ret {} Own s) (sys_exit {} Own s) (sys_exofork s)"
proof -
  from ok obtain fl el where k: "kinv s fl el" and o: "owned s fl (dirs s) = Own" by (auto simp: sys_ok_def)
  note rf = sys_ret_refl [OF ok cpu]
  show ?thesis
  proof (cases el)
    case Nil
    then have "env_free_list s = None" using kinvD(3) [OF k] by simp
    with rf c show ?thesis by (simp add: sys_exofork_def with_cur_def env_alloc_full of_result_def)
  next
    case (Cons e el1)
    show ?thesis
    proof (cases fl)
      case Nil
      with k Cons rf c show ?thesis
        by (simp add: sys_exofork_def with_cur_def env_alloc_no_mem of_result_def)
    next
      case fl: (Cons p fl1)
      obtain s1 where s1: "env_alloc (env_id (envs s c)) s = Some (Inr e, s1)" "kinv s1 fl1 el1"
        "live s1 = insert e (live s)"
        "\<forall>x\<in>live s. uspace s1 x = uspace s x \<and> env_dir s1 x = env_dir s x"
        "owned s1 fl1 (dirs s1) = owned s fl (dirs s)"
        "phys s1 = (phys s)(p := (phys s (kdir s))(957 := frame_addr p OR PTE_P OR PTE_U))"
        "cpus s1 = cpus s" "this_cpu s1 = this_cpu s" "kernel_lock s1 = kernel_lock s"
        "envs s1 = (envs s)(e := fresh_env e (env_id (envs s c)) p (envs s e))" "e \<notin> live s"
        using env_alloc_spec [OF k [unfolded Cons fl], of "env_id (envs s c)"] fl by blast
      have "p \<notin> ran (frames (phys s) (dirs s))"
        using vm_inv_mapped(2) [OF kinvD(1) [OF k], of p] fl by auto
      then have un: "untouched {} s s1" using s1(3,4,6) by (auto simp: untouched_def)
      have cur: "curenv s1 = curenv s" using s1(7,8) by (simp add: curenv_def)
      have "sys_ret {} Own s s1"
        using un cur s1(2,3,5,8,9,10,11) o cpu by (auto simp: sys_ret_def sys_ok_def cpu_ok_def kept_def)
      moreover have "same_spaces s1 (set_env e (\<lambda>v. v\<lparr>env_tf := tf, env_status := ENV_NOT_RUNNABLE\<rparr>) s1)" for tf
        using s1(3) by (intro same_spaces_set_env) (auto simp: live_def)
      ultimately have "sys_ret {} Own s (set_env e (\<lambda>v. v\<lparr>env_tf := tf, env_status := ENV_NOT_RUNNABLE\<rparr>) s1)" for tf
        by (rule sys_ret_step) (use s1(11) in auto)
      with s1(1) c show ?thesis
        by (simp add: sys_exofork_def with_cur_def of_result_def Let_def)
    qed
  qed
qed

lemma sys_set_env_ends:
  assumes ok: "sys_ok Own s" and cpu: "cpu_ok s" and c: "curenv s = Some c"
  shows "ends (\<lambda>_. sys_ret (family s c) Own s) (sys_exit (family s c) Own s) (sys_env_set_status envid status s)"
    and "ends (\<lambda>_. sys_ret (family s c) Own s) (sys_exit (family s c) Own s) (sys_env_set_pgfault_upcall envid func s)"
proof -
  have "sys_ret (family s c) Own s (set_env e (\<lambda>v. v\<lparr>env_status := st\<rparr>) s)" if "e \<in> live s" "e \<in> family s c" "st \<noteq> ENV_FREE" for e st
    using that by (intro sys_ret_same [OF ok cpu] same_spaces_set_env) (auto simp: live_def kept_def)
  then show "ends (\<lambda>_. sys_ret (family s c) Own s) (sys_exit (family s c) Own s) (sys_env_set_status envid status s)"
    unfolding sys_env_set_status_def
    by (intro with_env_ends [OF ok cpu c] sys_ret_refl [OF ok cpu]) (simp add: sys_ret_refl [OF ok cpu])
  have "sys_ret (family s c) Own s (set_env e (\<lambda>v. v\<lparr>env_pgfault_upcall := func\<rparr>) s)" if "e \<in> family s c" for e
    using that by (intro sys_ret_same [OF ok cpu] same_spaces_set_env) (auto simp: kept_def)
  then show "ends (\<lambda>_. sys_ret (family s c) Own s) (sys_exit (family s c) Own s) (sys_env_set_pgfault_upcall envid func s)"
    unfolding sys_env_set_pgfault_upcall_def
    by (intro with_env_ends [OF ok cpu c] sys_ret_refl [OF ok cpu]) simp
qed

lemma sys_env_destroy_ends:
  assumes ok: "sys_ok Own s" and cpu: "cpu_ok s" and c: "curenv s = Some c"
  shows "ends (\<lambda>_. sys_ret (family s c) Own s) (sys_exit (family s c) Own s) (sys_env_destroy envid s)"
  unfolding sys_env_destroy_def
proof (intro with_env_ends [OF ok cpu c] sys_ret_refl [OF ok cpu])
  fix e assume e: "e \<in> live s" and fam: "True \<Longrightarrow> e \<in> family s c"
  have "ends (\<lambda>_. sys_ret (family s c) Own s) (sys_exit (family s c) Own s) (env_destroy e s)"
    using fam by (intro ends_mono [OF env_destroy_ends [OF ok cpu e]])
      (auto simp: sys_ret_def sys_exit_def intro: untouched_mono kept_mono alone_mono)
  then show "ends (\<lambda>_. sys_ret (family s c) Own s) (sys_exit (family s c) Own s)
      (obind (env_destroy e s) (\<lambda>_ s1. ret_ok s1))"
    by (rule ends_obind) simp
qed

lemma yield_ends:
  assumes "sys_ok Own s1" and "cpu_ok s1" and "untouched A s s1" and A: "\<And>c. curenv s1 = Some c \<Longrightarrow> c \<in> A" and "kept A s s1"
  shows "ends (\<lambda>_. sys_ret A Own s) (sys_exit A Own s) (obind (sys_yield s1) (\<lambda>_ s2. ret_ok s2))"
proof -
  have "ends (\<lambda>_ _. False) (sys_exit A Own s) (sched_yield s1)"
    using ends_conj [OF sched_yield_ends [OF assms(1-3), of "\<lambda>_ _. False"] sched_yield_alone [OF assms(1,2) A assms(5), of "\<lambda>_ _. False"]]
    by (rule ends_mono) (auto simp: sys_exit_def)
  then show ?thesis unfolding sys_yield_def by (rule ends_obind) simp
qed

lemma sys_ipc_recv_ends:
  assumes ok: "sys_ok Own s" and cpu: "cpu_ok s" and c: "curenv s = Some c"
  shows "ends (\<lambda>_. sys_ret {c} Own s) (sys_exit {c} Own s) (sys_ipc_recv dstva s)"
proof -
  have cl: "c \<in> live s" using cpu c by (simp add: cpu_ok_def)
  let ?s1 = "if dstva < UTOP then set_env c (\<lambda>v. v\<lparr>env_ipc_dstva := dstva\<rparr>) s else s"
  let ?s2 = "set_env c (\<lambda>v. v\<lparr>env_ipc_recving := True, env_status := ENV_NOT_RUNNABLE,
      env_tf := (env_tf v)\<lparr>tf_regs := (tf_regs (env_tf v))\<lparr>reg_eax := 0\<rparr>\<rparr>\<rparr>) ?s1"
  have "same_spaces s ?s1" by (auto intro: same_spaces_set_env)
  moreover have "same_spaces ?s1 ?s2"
    using cl by (intro same_spaces_set_env) (auto simp: live_def)
  ultimately have "same_spaces s ?s2" by (rule same_spaces_trans)
  then have "sys_ret {c} Own s ?s2" by (rule sys_ret_same [OF ok cpu]) (simp_all add: kept_def)
  then have "ends (\<lambda>_. sys_ret {c} Own s) (sys_exit {c} Own s) (obind (sys_yield ?s2) (\<lambda>_ s3. ret_ok s3))"
    by (intro yield_ends) (simp_all add: sys_ret_def c)
  then show ?thesis
    using sys_ret_refl [OF ok cpu] c unfolding sys_ipc_recv_def with_cur_def Let_def by simp
qed

text \<open>The environments that a system call may affect: the caller, its children and, when a message is
  sent, the environment that waits for it.\<close>

definition affected :: "kern \<Rightarrow> nat \<Rightarrow> u32 \<Rightarrow> u32 \<Rightarrow> nat set" where
  "affected s c n a1 = family s c \<union> (if n = 12 then receiver s a1 else {})"

text \<open>All system calls but \<open>SYS_cputs\<close> and \<open>SYS_env_set_trapframe\<close>, which access user
  memory directly: they never panic, keep the invariant and every frame accounted for, and
  touch only these environments.\<close>

lemma dispatch_ends:
  assumes ok: "sys_ok Own s" and cpu: "cpu_ok s" and c: "curenv s = Some c" and refs: "refs_free s"
    and no: "n \<noteq> 0" "n \<noteq> 9"
  shows "ends (\<lambda>_. sys_ret (affected s c n a1) Own s) (sys_exit (affected s c n a1) Own s)
     (dispatch serial kbd n a1 a2 a3 a4 a5 s)"
proof -
  define A where "A = affected s c n a1"
  have up: "ends (\<lambda>_. sys_ret A Own s) (sys_exit A Own s) p"
    if "ends (\<lambda>_. sys_ret B Own s) (sys_exit B Own s) p" "B \<subseteq> A" for p B
    using that(1) by (rule ends_mono)
      (use that(2) in \<open>auto simp: sys_ret_def sys_exit_def intro: untouched_mono kept_mono alone_mono\<close>)
  have cA: "c \<in> A" using cpu c by (simp add: cpu_ok_def A_def affected_def family_def)
  have fA: "family s c \<subseteq> A" "{c} \<subseteq> A" "n = 12 \<Longrightarrow> family s c \<union> receiver s a1 \<subseteq> A"
    using cA by (auto simp: A_def affected_def)
  have getc: "ends (\<lambda>_. sys_ret A Own s) (sys_exit A Own s) (sys_cgetc serial kbd s)"
    by (simp add: sys_cgetc_def split_beta sys_ret_same [OF ok cpu] kept_def)
  note h = up [OF sys_env_destroy_ends [OF ok cpu c] fA(1)] up [OF sys_page_alloc_ends [OF ok cpu c] fA(1)]
    up [OF sys_page_map_ends [OF ok cpu c refs] fA(1)] up [OF sys_page_unmap_ends [OF ok cpu c] fA(1)]
    up [OF sys_exofork_ends [OF ok cpu c]] up [OF sys_set_env_ends(1) [OF ok cpu c] fA(1)]
    up [OF sys_set_env_ends(2) [OF ok cpu c] fA(1)]
    up [OF sys_ipc_recv_ends [OF ok cpu c] fA(2)]
    sys_ret_refl [OF ok cpu] getc
  have yA: "ends (\<lambda>_. sys_ret A Own s) (sys_exit A Own s) (obind (sys_yield s) (\<lambda>_ s1. ret_ok s1))"
    using yield_ends [OF ok cpu untouched_refl _ kept_refl, of A] cA c by simp
  consider "n = 12" | "n \<noteq> 12" by blast
  then show ?thesis
  proof cases
    case 1
    with up [OF sys_ipc_try_send_ends [OF ok cpu c refs] fA(3)] show ?thesis unfolding A_def [symmetric] by (simp add: dispatch_def)
  next
    case 2
    with no show ?thesis
      unfolding dispatch_def A_def [symmetric] by (simp add: h yA sys_getenvid_def with_cur_def c)
  qed
qed

section \<open>What the memory calls do\<close>

lemma sys_page_alloc_run:
  assumes k: "kinv s (p # fl) el" and e: "envid2env envid True s = Some (Inr (Some e))" "e \<in> live s"
    and va: "va < UTOP" "PGOFF va = 0" and perm: "perm AND NOT PTE_SYSCALL = 0"
  shows "(\<exists>s' fl'. sys_page_alloc envid va perm s = ret_ok s' \<and> kinv s' fl' el
      \<and> uspace s' e = (uspace s e)(upage va \<mapsto> frame_addr p OR perm OR PTE_P)
      \<and> phys s' p = (\<lambda>_. 0) \<and> (\<forall>x\<in>live s - {e}. uspace s' x = uspace s x) \<and> pm_frame s s'
      \<and> umap (phys s') (dirs s') = (umap (phys s) (dirs s))(ukey (env_dir s e) va \<mapsto> frame_addr p OR perm OR PTE_P)
      \<and> (\<forall>q\<in>ran (frames (phys s) (dirs s)). phys s' q = phys s q))
    \<or> fl = [] \<and> (\<exists>s'. sys_page_alloc envid va perm s = ret_err E_NO_MEM s' \<and> kinv s' [p] el
      \<and> uspace s' = uspace s)"
proof -
  note a = alloc_env [OF k]
  let ?s1 = "popped True p s"
  have e1: "e \<in> live ?s1" using e(2) pm_frame_dirs(2) [OF a(2)] by simp
  have p: "p \<noteq> env_dir ?s1 e" "p \<notin> tables (phys ?s1) (dirs ?s1)" "p \<notin> set fl"
    using a(4) kinvD(12) [OF a(3) e1] by (auto simp: insertable_def)
  have nv: "\<not> UTOP \<le> va" using va(1) by simp
  show ?thesis
  proof (cases rule: insert_env [OF a(3) e1 va(1) a(4) syscall_perm [OF perm]])
    case (1 s2 fl2)
    have "sys_page_alloc envid va perm s = ret_ok s2"
      using e(1) nv va(2) perm a(1) 1(1) by (simp add: sys_page_alloc_def with_env_def of_result_def)
    moreover have "phys s2 p = (\<lambda>_. 0)" using 1(7) p a(7) by simp
    moreover have "\<forall>x\<in>live s - {e}. uspace s2 x = uspace s x"
      using 1(4) a(6) unfolding untouched_def pm_frame_dirs [OF a(2)] by simp
    moreover have "pm_frame s s2" using a(2) 1(2) by (rule pm_frame_trans)
    moreover have "umap (phys s2) (dirs s2) = (umap (phys s) (dirs s))(ukey (env_dir s e) va \<mapsto> frame_addr p OR perm OR PTE_P)"
      using 1(8) a(11) unfolding pm_frame_dirs [OF a(2)] by simp
    moreover have "\<forall>q\<in>ran (frames (phys s) (dirs s)). phys s2 q = phys s q"
      using 1(4) a(9,10) unfolding untouched_def pm_frame_dirs [OF a(2)] by simp
    ultimately show ?thesis using 1(3,6) a(6) by auto
  next
    case 2
    have r0: "pp_ref (pages ?s1 p) = 0"
      using free_list_invD(4) [OF vm_invD(1) [OF kinvD(1) [OF k]], of p] by simp
    obtain s3 where s3: "page_free p ?s1 = Some s3" "kinv s3 (p # fl) el" "pm_frame ?s1 s3" "phys s3 = phys ?s1"
      using free_env [OF a(3,4) r0] by metis
    have "uspace s3 = uspace s"
      unfolding a(6) [symmetric] by (simp add: uspace_def fun_eq_iff pm_frame_dirs [OF s3(3)] s3(4) del: popped_frame)
    moreover have "sys_page_alloc envid va perm s = ret_err E_NO_MEM s3"
      using e(1) nv va(2) perm a(1) 2(2) s3(1)
      by (simp add: sys_page_alloc_def with_env_def of_result_def of_state_def)
    ultimately show ?thesis using 2(1) s3(2) by auto
  qed
qed

lemma sys_page_map_run:
  assumes k: "kinv s fl el" and src: "envid2env srcid True s = Some (Inr (Some x))" "x \<in> live s"
    and dst: "envid2env dstid True s = Some (Inr (Some e))" "e \<in> live s"
    and va: "srcva < UTOP" "PGOFF srcva = 0" "dstva < UTOP" "PGOFF dstva = 0"
    and perm: "perm AND NOT PTE_SYSCALL = 0" and pte: "uspace s x (upage srcva) = Some pte"
    and refs: "unat (pp_ref (pages s (unat (PGNUM pte)))) < 65535"
  shows "if perm AND PTE_W \<noteq> 0 \<and> pte AND PTE_W = 0
    then sys_page_map srcid srcva dstid dstva perm s = ret_err E_INVAL s
    else (\<exists>s' fl'. sys_page_map srcid srcva dstid dstva perm s = ret_ok s' \<and> kinv s' fl' el
        \<and> uspace s' e = (uspace s e)(upage dstva \<mapsto> frame_addr (unat (PGNUM pte)) OR perm OR PTE_P)
        \<and> untouched {e} s s' \<and> pm_frame s s'
        \<and> umap (phys s') (dirs s') = (umap (phys s) (dirs s))(ukey (env_dir s e) dstva
             \<mapsto> frame_addr (unat (PGNUM pte)) OR perm OR PTE_P))
      \<or> fl = [] \<and> sys_page_map srcid srcva dstid dstva perm s = ret_err E_NO_MEM s"
proof -
  have nv: "\<not> UTOP \<le> srcva" "\<not> UTOP \<le> dstva" using va by simp_all
  show ?thesis
  proof (cases rule: lookup_env [OF k src(2) va(1)])
    case 1
    with pte show ?thesis by simp
  next
    case (2 pte' pt)
    with pte have [simp]: "pte' = pte" by simp
    note u = src(1) dst(1) nv va(2,4) perm 2(2,3)
    have ins: "insertable s fl (dirs s) (unat (PGNUM pte))"
      using mapped_insertable [OF kinvD(1) [OF k], of "unat (PGNUM pte)"] 2(4) refs by simp
    show ?thesis
    proof (cases "perm AND PTE_W \<noteq> 0 \<and> pte AND PTE_W = 0")
      case True
      with u show ?thesis by (simp add: sys_page_map_def with_env_def of_result_def)
    next
      case False
      show ?thesis
      proof (cases rule: insert_env [OF k dst(2) va(3) ins syscall_perm [OF perm]])
        case (1 s2 fl2)
        then have "sys_page_map srcid srcva dstid dstva perm s = ret_ok s2"
          using u False by (auto simp: sys_page_map_def with_env_def of_result_def)
        with 1 show ?thesis unfolding if_not_P [OF False] by blast
      next
        case 2
        then have "sys_page_map srcid srcva dstid dstva perm s = ret_err E_NO_MEM s"
          using u False by (auto simp: sys_page_map_def with_env_def of_result_def)
        with 2(1) show ?thesis unfolding if_not_P [OF False] by blast
      qed
    qed
  qed
qed

section \<open>Properties\<close>

lemma perm_present: "perm AND (PTE_U OR PTE_P) = PTE_U OR PTE_P \<Longrightarrow> perm OR PTE_P = (perm :: u32)"
proof -
  assume "perm AND (PTE_U OR PTE_P) = PTE_U OR PTE_P"
  then have "bit perm n \<or> \<not> bit PTE_P n" for n
    using bit_imp_le_length [of PTE_P n] by (auto simp: bit_eq_iff bit_simps)
  then show ?thesis by (auto simp: bit_eq_iff bit_simps)
qed

lemma sample_sys: "sys_ok (owned sample_kern [3, 4, 5] {1, 2}) sample_kern"
  using sample_kinv sample_dirs by (auto simp: sys_ok_def)

lemma sample_refs: "refs_free sample_kern"
  by (simp add: refs_free_def sample_kern_def)



text \<open>C17. A valid \<open>sys_page_alloc\<close> (permissions with \<open>PTE_U\<close> and \<open>PTE_P\<close>, and no bit outside
  \<open>PTE_SYSCALL\<close>) with a free page maps a zeroed page at \<open>va\<close> with the
  requested permissions, replacing what was there, and leaves the other environments alone;
  when there is no page left for a page table it returns \<open>-E_NO_MEM\<close> and gives the page
  back.\<close>

theorem sys_page_alloc_maps:
  assumes "kinv s (p # fl) el" and "envid2env envid True s = Some (Inr (Some e))" and "e \<in> live s"
    and "va < UTOP" and "PGOFF va = 0" and "perm AND NOT PTE_SYSCALL = 0"
    and "perm AND (PTE_U OR PTE_P) = PTE_U OR PTE_P"
  shows "(\<exists>s' fl'. sys_page_alloc envid va perm s = Return (Inr 0) s' \<and> kinv s' fl' el
      \<and> uspace s' e = (uspace s e)(upage va \<mapsto> frame_addr p OR perm)
      \<and> phys s' p = (\<lambda>_. 0) \<and> (\<forall>x\<in>live s - {e}. uspace s' x = uspace s x) \<and> envs s' = envs s)
    \<or> fl = [] \<and> (\<exists>s'. sys_page_alloc envid va perm s = Return (Inl E_NO_MEM) s' \<and> kinv s' [p] el
      \<and> uspace s' = uspace s)"
  using sys_page_alloc_run [OF assms(1-6)] pm_frameD(2) unfolding or.assoc perm_present [OF assms(7)] by blast

lemma sample_lookup: "envid2env 0 True sample_kern = Some (Inr (Some 0))" "0 \<in> live sample_kern"
  by (simp_all add: envid2env_def sample_cpu sample_dirs)

theorem sys_page_alloc_maps_witness:
  "(\<exists>s' fl'. sys_page_alloc 0 0x800000 7 sample_kern = Return (Inr 0) s' \<and> kinv s' fl' [1..<1024]
      \<and> uspace s' 0 = (uspace sample_kern 0)(upage 0x800000 \<mapsto> frame_addr 3 OR 7)
      \<and> phys s' 3 = (\<lambda>_. 0) \<and> (\<forall>x\<in>live sample_kern - {0}. uspace s' x = uspace sample_kern x) \<and> envs s' = envs sample_kern)
    \<or> [4, 5 :: nat] = [] \<and> (\<exists>s'. sys_page_alloc 0 0x800000 7 sample_kern = Return (Inl E_NO_MEM) s'
      \<and> kinv s' [3] [1..<1024] \<and> uspace s' = uspace sample_kern)"
  by (rule sys_page_alloc_maps [OF sample_kinv sample_lookup]) (simp_all add: layout_values PGOFF_def PTE_U_def PTE_P_def)

end
