(* ===== verification/User_Access.thy ===== *)
theory User_Access
  imports Syscall_Inv
begin

text \<open>
  Reading and writing user memory from the kernel: an address that \<open>user_mem_check\<close> has
  accepted can be accessed without a fault, and bytes that were stored are read back.
\<close>

section \<open>Writing a data page\<close>

lemma data_write:
  assumes k: "kinv s fl el" and p: "p \<in> ran (frames (phys s) (dirs s))"
  shows "kinv (set_word p i v s) fl el" and "uspace (set_word p i v s) = uspace s"
    and "owned (set_word p i v s) fl (dirs (set_word p i v s)) = owned s fl (dirs s)"
    and "frames (phys (set_word p i v s)) (dirs s) = frames (phys s) (dirs s)"
proof -
  let ?s' = "set_word p i v s"
  have ph: "phys ?s' = (phys s)(p := (phys s p)(i := v))" by (simp add: set_word_def)
  have p': "p \<notin> dirs s" "p \<notin> tables (phys s) (dirs s)"
    using vm_inv_mapped [OF kinvD(1) [OF k] p] by auto
  have um: "umap (phys ?s') (dirs s) = umap (phys s) (dirs s)" unfolding ph by (rule umap_upd_other) fact+
  have tb: "tables (phys ?s') (dirs s) = tables (phys s) (dirs s)" unfolding ph by (rule tables_upd) fact
  show fr: "frames (phys ?s') (dirs s) = frames (phys s) (dirs s)" using um by (rule frames_cong)
  have f: "pm_frame s ?s'" by simp
  note pd = pm_frame_dirs [OF f]
  have "tables_inv (phys ?s') (npages s) (set fl) (dirs s)"
    unfolding ph by (rule tables_inv_upd [OF vm_invD(2) [OF kinvD(1) [OF k]] p'(1)])
  then have "vm_inv ?s' fl (dirs s)"
    unfolding vm_inv_def fr tb using kinvD(1) [OF k] by (simp add: vm_inv_def)
  then show "kinv ?s' fl el"
    using p'(1) kinvD(13) [OF k] by (intro kinv_page_op [OF k f]) (auto simp: ph)
  show "uspace ?s' = uspace s" by (simp add: uspace_def pd um fun_eq_iff)
  show "owned ?s' fl (dirs ?s') = owned s fl (dirs s)" by (simp add: owned_def pd tb fr)
qed

section \<open>Translation of user addresses\<close>

lemma uspace_entry:
  assumes k: "kinv s fl el" and e: "e \<in> live s" and pte: "uspace s e (upage va) = Some pte"
  shows "pde_ok (phys s (env_dir s e) (unat (PDX va)))"
    and "phys s (unat (PGNUM (phys s (env_dir s e) (unat (PDX va))))) (unat (PTX va)) = pte"
    and "unat (PGNUM pte) \<in> ran (frames (phys s) (dirs s))" and "pte AND PTE_P \<noteq> 0"
proof -
  let ?d = "env_dir s e"
  have um: "umap (phys s) (dirs s) (ukey ?d va) = Some pte"
    using pte by (simp add: uspace_def upage_def ukey_def)
  then have live: "(?d, unat (PDX va)) \<in> live_slots (phys s) (dirs s)"
    and q: "phys s (pt_frame (phys s) (?d, unat (PDX va))) (unat (PTX va)) = pte" and "pte AND PTE_P \<noteq> 0"
    by (auto simp: ukey_def umap_apply split: if_splits)
  then show "pte AND PTE_P \<noteq> 0" by blast
  show "pde_ok (phys s ?d (unat (PDX va)))"
    by (rule tables_invD(9) [OF vm_invD(2) [OF kinvD(1) [OF k]] live])
  show "phys s (unat (PGNUM (phys s ?d (unat (PDX va))))) (unat (PTX va)) = pte"
    using q by (simp add: pt_frame_def)
  show "unat (PGNUM pte) \<in> ran (frames (phys s) (dirs s))" using um by (rule umap_ran)
qed

lemma pde_ok_bits:
  assumes "pde_ok x"
  shows "x AND (PTE_P OR PTE_W) = PTE_P OR PTE_W" and "x AND PTE_PS = 0" and "x AND PTE_P \<noteq> 0"
proof -
  have "(x AND 0x87) AND 3 = 3" "(x AND 0x87) AND 0x80 = 0" using assms by (simp_all add: pde_ok_def)
  then show "x AND (PTE_P OR PTE_W) = PTE_P OR PTE_W" and "x AND PTE_PS = 0"
    by (simp_all add: and.assoc PTE_P_def PTE_W_def PTE_PS_def)
qed (rule pde_ok_present [OF assms])

lemma dir_entry:
  assumes k: "kinv s fl el" and e: "e \<in> live s"
  shows "kread s (entry (env_pgdir (envs s e)) (PDX va)) = phys s (env_dir s e) (unat (PDX va))"
  using kinvD(6) [OF k e] vm_invD(5) [OF kinvD(1) [OF k] kinvD(12) [OF k e]] by (simp add: PDX_less)

lemma and_P_W:
  assumes "x AND PTE_P \<noteq> 0" and "x AND PTE_W \<noteq> 0"
  shows "x AND (PTE_P OR PTE_W) = PTE_P OR PTE_W"
proof -
  have b: "bit x 0" "bit x (Suc 0)"
    using assms and_exp_eq_0_iff_not_bit [of x 0] and_exp_eq_0_iff_not_bit [of x 1]
    by (simp_all add: PTE_P_def PTE_W_def)
  have m: "PTE_P OR PTE_W = mask 2" by (simp add: PTE_P_def PTE_W_def mask_eq_exp_minus_1)
  show ?thesis unfolding m by (rule bit_word_eqI) (use b in \<open>auto simp: bit_simps less_2_cases_iff\<close>)
qed

lemma mmu_write_user:
  assumes k: "kinv s fl el" and e: "e \<in> live s" and pte: "uspace s e (upage va) = Some pte"
    and w: "pte AND PTE_W \<noteq> 0"
  shows "mmu_write_addr s (env_pgdir (envs s e)) va = Some (unat (PGNUM pte), unat (PGOFF va))"
proof -
  note u = uspace_entry [OF k e pte]
  have "pte AND (PTE_P OR PTE_W) = PTE_P OR PTE_W"
    using u(4) w by (rule and_P_W)
  with u pde_ok_bits [OF u(1)] show ?thesis
    by (simp add: mmu_write_addr_def dir_entry [OF k e] Let_def)
qed

lemma mmu_read_user:
  assumes k: "kinv s fl el" and e: "e \<in> live s" and pte: "uspace s e (upage va) = Some pte"
  shows "mmu_read_addr s (env_pgdir (envs s e)) va = Some (unat (PGNUM pte), unat (PGOFF va))"
  using uspace_entry [OF k e pte] pde_ok_bits [OF uspace_entry(1) [OF k e pte]]
  by (simp add: mmu_read_addr_def dir_entry [OF k e] Let_def)

section \<open>Storing and reading back\<close>

definition writable :: "kern \<Rightarrow> nat \<Rightarrow> u32 \<Rightarrow> bool" where
  "writable s e a \<longleftrightarrow> (\<exists>pte. uspace s e (upage a) = Some pte \<and> pte AND PTE_W \<noteq> 0)"

lemma PGOFF_add: "unat (PGOFF (va + of_nat i)) = (unat va + i) mod 4096"
proof -
  have "unat (va + of_nat i) = (unat va + i) mod 4294967296"
    by (simp add: unat_word_ariths unat_of_nat mod_simps)
  moreover have "(4096 :: nat) dvd 4294967296" by simp
  ultimately show ?thesis by (simp add: unat_PGOFF mod_mod_cancel)
qed

lemma PGOFF_distinct:
  assumes "i < n" and "n < 4096"
  shows "unat (PGOFF (va + of_nat i)) \<noteq> unat (PGOFF (va + of_nat n))"
proof
  assume "unat (PGOFF (va + of_nat i)) = unat (PGOFF (va + of_nat n))"
  then have "(unat va + i) mod 4096 = (unat va + n) mod 4096" by (simp add: PGOFF_add)
  then have "(4096 :: nat) dvd (unat va + n) - (unat va + i)"
    using assms(1) by (metis mod_eq_dvd_iff_nat nat_add_left_cancel_le less_imp_le)
  with assms show False by (auto dest: dvd_imp_le)
qed

lemma store_byte_spec:
  assumes k: "kinv s fl el" and e: "e \<in> live s" and w: "writable s e va"
  obtains s' where "store_byte (env_pgdir (envs s e)) va b s = Some s'" and "kinv s' fl el"
    and "pm_frame s s'" and "uspace s' = uspace s" and "pages s' = pages s"
    and "owned s' fl (dirs s') = owned s fl (dirs s)"
    and "load_byte s' (env_pgdir (envs s e)) va = Some b"
    and "\<And>a c. unat (PGOFF a) \<noteq> unat (PGOFF va) \<Longrightarrow> load_byte s (env_pgdir (envs s e)) a = Some c
       \<Longrightarrow> uspace s e (upage a) \<noteq> None \<Longrightarrow> load_byte s' (env_pgdir (envs s e)) a = Some c"
proof -
  let ?g = "env_pgdir (envs s e)" and ?off = "unat (PGOFF va)"
  from w obtain pte where pte: "uspace s e (upage va) = Some pte" "pte AND PTE_W \<noteq> 0"
    by (auto simp: writable_def)
  let ?p = "unat (PGNUM pte)"
  let ?s' = "set_word ?p (?off div 4) (put_byte (?off mod 4) b (phys s ?p (?off div 4))) s"
  note d = data_write [OF k uspace_entry(3) [OF k e pte(1)], of "?off div 4"
      "put_byte (?off mod 4) b (phys s ?p (?off div 4))"]
  have e': "e \<in> live ?s'" "envs ?s' = envs s" using e pm_frame_dirs(2) [OF pm_frame_ops(1)] by simp_all
  have g: "env_pgdir (envs ?s' e) = ?g" by simp
  have rd: "load_byte ?s' ?g a = Some (get_byte (unat (PGOFF a) mod 4)
      (phys ?s' (unat (PGNUM q)) (unat (PGOFF a) div 4)))" if "uspace s e (upage a) = Some q" for a q
    using mmu_read_user [OF d(1) e'(1), of a q] that d(2) by (simp add: load_byte_def)
  show thesis
  proof (rule that [of ?s'])
    show "store_byte ?g va b s = Some ?s'" using mmu_write_user [OF k e pte] by (simp add: store_byte_def)
    show "load_byte ?s' ?g va = Some b" unfolding rd [OF pte(1)] by (simp add: phys_set_word get_put_byte)
    fix a c assume ne: "unat (PGOFF a) \<noteq> ?off" and old: "load_byte s ?g a = Some c"
      and "uspace s e (upage a) \<noteq> None"
    then obtain q where q: "uspace s e (upage a) = Some q" by auto
    have "c = get_byte (unat (PGOFF a) mod 4) (phys s (unat (PGNUM q)) (unat (PGOFF a) div 4))"
      using old mmu_read_user [OF k e q] by (simp add: load_byte_def)
    moreover have "unat (PGOFF a) mod 4 \<noteq> ?off mod 4" if "unat (PGOFF a) div 4 = ?off div 4"
      using ne that by (metis div_mult_mod_eq)
    ultimately show "load_byte ?s' ?g a = Some c"
      unfolding rd [OF q] by (auto simp: phys_set_word get_put_byte)
  qed (use d in simp_all)
qed

lemma store_bytes_spec:
  assumes k: "kinv s fl el" and e: "e \<in> live s"
    and w: "\<And>i. i < n \<Longrightarrow> writable s e (va + of_nat i)" and n: "n \<le> 4096"
  shows "\<exists>s'. store_bytes (env_pgdir (envs s e)) va src n s = Some s' \<and> kinv s' fl el
    \<and> pm_frame s s' \<and> uspace s' = uspace s \<and> pages s' = pages s
    \<and> owned s' fl (dirs s') = owned s fl (dirs s)
    \<and> (\<forall>i<n. load_byte s' (env_pgdir (envs s e)) (va + of_nat i) = Some (src i))"
  using w n
proof (induction n)
  case 0
  with k show ?case by simp
next
  case (Suc n)
  then obtain s1 where s1: "store_bytes (env_pgdir (envs s e)) va src n s = Some s1" "kinv s1 fl el"
    "pm_frame s s1" "uspace s1 = uspace s" "pages s1 = pages s" "owned s1 fl (dirs s1) = owned s fl (dirs s)"
    "\<forall>i<n. load_byte s1 (env_pgdir (envs s e)) (va + of_nat i) = Some (src i)"
    by auto
  have e1: "e \<in> live s1" "envs s1 = envs s"
    using e pm_frame_dirs(2) [OF s1(3)] pm_frameD(2) [OF s1(3)] by simp_all
  have "writable s1 e (va + of_nat n)" using Suc.prems(1) [of n] s1(4) by (simp add: writable_def)
  from store_byte_spec [OF s1(2) e1(1) this, of "src n"] obtain s2 where s2:
    "store_byte (env_pgdir (envs s e)) (va + of_nat n) (src n) s1 = Some s2" "kinv s2 fl el"
    "pm_frame s1 s2" "uspace s2 = uspace s1" "pages s2 = pages s1"
    "owned s2 fl (dirs s2) = owned s1 fl (dirs s1)"
    "load_byte s2 (env_pgdir (envs s e)) (va + of_nat n) = Some (src n)"
    "\<And>a c. unat (PGOFF a) \<noteq> unat (PGOFF (va + of_nat n)) \<Longrightarrow>
       load_byte s1 (env_pgdir (envs s e)) a = Some c \<Longrightarrow> uspace s1 e (upage a) \<noteq> None \<Longrightarrow>
       load_byte s2 (env_pgdir (envs s e)) a = Some c"
    unfolding e1(2) by metis
  have "load_byte s2 (env_pgdir (envs s e)) (va + of_nat i) = Some (src i)" if "i < n" for i
    using s1(4,7) that Suc.prems(2) Suc.prems(1) [of i] PGOFF_distinct [OF that, of va]
    by (intro s2(8)) (auto simp: writable_def)
  then show ?case
    using s1 s2 pm_frame_trans [OF s1(3) s2(3)] by (intro exI [of _ s2]) (auto simp: less_Suc_eq)
qed

section \<open>user_mem_check on the address space of an environment\<close>

lemma walkable_user:
  assumes k: "kinv s fl el" and e: "e \<in> live s"
  shows "walkable s (env_pgdir (envs s e)) (unat UTOP)"
  unfolding walkable_def
proof (intro allI impI)
  fix a :: u32 assume "unat a < unat UTOP"
  then have a: "a < UTOP" by (simp add: word_less_nat_alt)
  show "pgdir_walk (env_pgdir (envs s e)) a False s \<noteq> None"
    using kinvD(1) [OF k] kinvD(12) [OF k e] a
  proof (cases rule: slot_cases)
    case live
    then show ?thesis using walk_live [OF kinvD(1) [OF k] live(1) utable_def] kinvD(6) [OF k e] by simp
  next
    case absent
    then show ?thesis
      using walk_absent [OF vm_invD(5) [OF kinvD(1) [OF k] kinvD(12) [OF k e]]] kinvD(6) [OF k e] by simp
  qed
qed

text \<open>What the check accepts, in terms of the address space.\<close>

definition grants :: "kern \<Rightarrow> nat \<Rightarrow> u32 \<Rightarrow> u32 \<Rightarrow> bool" where
  "grants s e perm a \<longleftrightarrow> (\<exists>pte. uspace s e (upage a) = Some pte \<and> pte AND perm = perm)"

lemma page_allows_grants:
  assumes k: "kinv s fl el" and e: "e \<in> live s" and a: "a < UTOP"
  shows "page_allows s (env_pgdir (envs s e)) (perm OR PTE_P) a \<longleftrightarrow> grants s e (perm OR PTE_P) a"
  using kinvD(1) [OF k] kinvD(12) [OF k e] a
proof (cases rule: slot_cases)
  case live
  let ?pte = "phys s (utable s (env_dir s e) a) (unat (PTX a))"
  have "pgdir_walk (env_pgdir (envs s e)) a False s
      = Some (Some (entry (frame_kva (utable s (env_dir s e) a)) (PTX a)), s)"
    using walk_live [OF kinvD(1) [OF k] live(1) utable_def] kinvD(6) [OF k e] by simp
  then have "page_allows s (env_pgdir (envs s e)) (perm OR PTE_P) a \<longleftrightarrow> ?pte AND (perm OR PTE_P) = perm OR PTE_P"
    using live(2) by (simp add: page_allows_def PTX_less)
  moreover have "uspace s e (upage a) = (if ?pte AND PTE_P \<noteq> 0 then Some ?pte else None)"
    using umap_ukey [OF live(1)] by (simp add: uspace_def upage_def ukey_def)
  moreover have "?pte AND PTE_P \<noteq> 0" if h: "?pte AND (perm OR PTE_P) = perm OR PTE_P"
  proof -
    have "?pte AND PTE_P = (?pte AND (perm OR PTE_P)) AND PTE_P" by (simp add: and.assoc)
    then show ?thesis unfolding h using or_PTE_P [of perm] by (simp add: PTE_P_def)
  qed
  ultimately show ?thesis by (auto simp: grants_def)
next
  case absent
  then have "uspace s e (upage a) = None" by (simp add: uspace_def upage_def ukey_def)
  moreover have "pgdir_walk (env_pgdir (envs s e)) a False s = Some (None, s)"
    using walk_absent [OF vm_invD(5) [OF kinvD(1) [OF k] kinvD(12) [OF k e]] absent(1)] kinvD(6) [OF k e] by simp
  ultimately show ?thesis by (simp add: grants_def page_allows_def)
qed

definition in_range :: "u32 \<Rightarrow> u32 \<Rightarrow> u32 \<Rightarrow> bool" where
  "in_range va len a \<longleftrightarrow> unat va \<le> unat a \<and> unat a < unat va + unat len"

lemma unat_UTOP: "unat UTOP = 4005560320"
  by (simp add: layout_values)

lemma user_mem_check_env:
  assumes k: "kinv s fl el" and e: "e \<in> live s" and len: "0 < unat len"
    and top: "unat va + unat len \<le> unat UTOP"
  obtains (pass) "user_mem_check e va len perm s = Some (Inr (), s)"
      and "\<And>a. in_range va len a \<Longrightarrow> grants s e (perm OR PTE_P) a"
    | (refuse) f where "user_mem_check e va len perm s = Some (Inl E_FAULT, s\<lparr>user_mem_check_addr := f\<rparr>)"
      and "in_range va len f" and "\<not> grants s e (perm OR PTE_P) f"
      and "\<And>a. in_range va len a \<Longrightarrow> \<not> grants s e (perm OR PTE_P) a \<Longrightarrow> f \<le> a"
proof -
  have ref: "refused s (env_pgdir (envs s e)) (perm OR PTE_P) va len a
      \<longleftrightarrow> in_range va len a \<and> \<not> grants s e (perm OR PTE_P) a" for a
    using page_allows_grants [OF k e, of a perm] top
    by (auto simp: refused_def in_range_def word_less_nat_alt)
  have ulim: "va \<le> ULIM" using top by (simp add: word_le_nat_alt unat_UTOP layout_values(6))
  have nw: "unat va + unat len + 4095 < 4294967296" using top by (simp add: unat_UTOP)
  have "(unat va + unat len + 4095) div 4096 \<le> 977920" using top by (simp add: unat_UTOP)
  then have up: "(unat va + unat len + 4095) div 4096 * 4096 \<le> unat UTOP" by (simp add: unat_UTOP)
  show thesis
  proof (cases rule: user_mem_check_range [OF ulim len nw walkable_user [OF k e] up, of perm])
    case 1
    with ref show thesis by (intro pass) auto
  next
    case (2 f)
    with ref show thesis by (intro refuse) auto
  qed
qed

text \<open>A buffer that passed the check for writing can be stored to.\<close>

lemma grants_writable:
  assumes "grants s e perm a" and "perm AND PTE_W = PTE_W"
  shows "writable s e a"
proof -
  from assms(1) obtain pte where pte: "uspace s e (upage a) = Some pte" "pte AND perm = perm"
    by (auto simp: grants_def)
  have "pte AND PTE_W = (pte AND perm) AND PTE_W" using assms(2) by (simp add: and.assoc)
  also have "\<dots> = PTE_W" using pte(2) assms(2) by simp
  finally show ?thesis using pte(1) by (auto simp: writable_def PTE_W_def)
qed

lemma in_range_offset:
  assumes "unat va + n \<le> unat UTOP" and "i < n"
  shows "in_range va (of_nat n) (va + of_nat i)"
proof -
  have n: "n < 4294967296" "i < 4294967296" using assms by (simp_all add: unat_UTOP)
  then have "unat (of_nat n :: u32) = n" "unat (of_nat i :: u32) = i" by (simp_all add: unat_of_nat)
  moreover have "unat (va + of_nat i) = unat va + i"
    using assms n by (simp add: unat_word_ariths unat_of_nat unat_UTOP)
  ultimately show ?thesis using assms(2) by (simp add: in_range_def)
qed

lemma user_mem_assert_ends:
  assumes ok: "sys_ok Own s" and cpu: "cpu_ok s" and e: "e \<in> live s" and len: "0 < unat len"
    and top: "unat va + unat len \<le> unat UTOP"
  shows "ends (\<lambda>_ s1. sys_ok Own s1 \<and> cpu_ok s1 \<and> curenv s1 = curenv s \<and> untouched {e} s s1
       \<and> (s1 = s \<and> (\<forall>a. in_range va len a \<longrightarrow> grants s e (perm OR PTE_U OR PTE_P) a) \<or> curenv s \<noteq> Some e))
     (sys_exit {e} Own s) (user_mem_assert e va len perm s)"
proof -
  from ok obtain fl el where k: "kinv s fl el" and o: "owned s fl (dirs s) = Own" by (auto simp: sys_ok_def)
  show ?thesis
  proof (cases rule: user_mem_check_env [OF k e len top, of "perm OR PTE_U"])
    case 1
    with ok cpu show ?thesis by (simp add: user_mem_assert_def of_result_def or.assoc)
  next
    case (2 f)
    let ?s1 = "s\<lparr>user_mem_check_addr := f\<rparr>"
    have ss: "same_spaces s ?s1" by simp
    have ok1: "sys_ok Own ?s1" "cpu_ok ?s1" "e \<in> live ?s1"
      using ok cpu e by (simp_all add: same_spaces_sys [OF ss] cpu_ok_def same_spacesD [OF ss])
    have "ends (\<lambda>_ s1. sys_ok Own s1 \<and> cpu_ok s1 \<and> curenv s1 = curenv s \<and> untouched {e} s s1
       \<and> (s1 = s \<and> (\<forall>a. in_range va len a \<longrightarrow> grants s e (perm OR PTE_U OR PTE_P) a) \<or> curenv s \<noteq> Some e))
       (sys_exit {e} Own s) (env_destroy e ?s1)"
      by (rule ends_mono [OF env_destroy_ends [OF ok1]]) (auto simp: sys_exit_def same_spaces_sys [OF ss] alone_def same_spacesD [OF ss])
    with 2(1) show ?thesis by (simp add: user_mem_assert_def of_result_def)
  qed
qed

section \<open>A machine with one mapped page\<close>

text \<open>\<open>sample_kern\<close> with frame 6 mapped at \<open>0x800000\<close> in environment 0, through the page table
  in frame 3, and filled with the letter A.\<close>

definition sample_at :: "nat \<Rightarrow> nat \<Rightarrow> kern" where
  "sample_at i j = sample_kern\<lparr>
     phys := (\<lambda>p k. if p = 2 \<and> k = i then 0x3007 else if p = 3 \<and> k = j then 0x6007
                    else if p = 6 then 0x41414141 else 0),
     page_free_list := Some 4,
     pages := (\<lambda>p. \<lparr>pp_link = (if p = 4 then Some 5 else None),
                    pp_ref = (if p < 4 \<or> p = 6 then 1 else 0)\<rparr>)\<rparr>"

definition sample_mapped :: kern where
  "sample_mapped = sample_at 2 0"

lemma sample_at_map:
  assumes i: "i < NPDU" and j: "j < 1024"
  shows "live_slots (phys (sample_at i j)) {1, 2} = {(2, i)}" "pt_frame (phys (sample_at i j)) (2, i) = 3"
  "tables (phys (sample_at i j)) {1, 2} = {3}" "umap (phys (sample_at i j)) {1, 2} = [(2, i, j) \<mapsto> 0x6007]"
  "frames (phys (sample_at i j)) {1, 2} = [(2, i, j) \<mapsto> 6]"
proof -
  have ph: "phys (sample_at i j) = (\<lambda>p k. if p = 2 \<and> k = i then 0x3007 else if p = 3 \<and> k = j then 0x6007
      else if p = 6 then 0x41414141 else 0)" by (simp add: sample_at_def)
  show l: "live_slots (phys (sample_at i j)) {1, 2} = {(2, i)}"
    using i by (auto simp: live_slots_def slots_def ph split: if_splits)
  show p: "pt_frame (phys (sample_at i j)) (2, i) = 3"
    by (simp add: pt_frame_def ph unat_PGNUM)
  show "tables (phys (sample_at i j)) {1, 2} = {3}" unfolding tables_def l by (simp add: p)
  have "umap (phys (sample_at i j)) {1, 2} (d, k, m) = [(2, i, j) \<mapsto> 0x6007] (d, k, m)" for d k m
  proof (cases "(d, k) = (2, i)")
    case True
    then have "umap (phys (sample_at i j)) {1, 2} (d, k, m) =
        (if m < 1024 \<and> phys (sample_at i j) 3 m AND PTE_P \<noteq> 0 then Some (phys (sample_at i j) 3 m) else None)"
      unfolding umap_apply l by (simp add: p)
    with True j show ?thesis by (simp add: ph PTE_P_def)
  next
    case False
    then show ?thesis unfolding umap_apply l by auto
  qed
  then show u: "umap (phys (sample_at i j)) {1, 2} = [(2, i, j) \<mapsto> 0x6007]" by auto
  show "frames (phys (sample_at i j)) {1, 2} = [(2, i, j) \<mapsto> 6]"
    unfolding frames_def [abs_def] u by (auto simp: fun_eq_iff unat_PGNUM)
qed

lemma sample_at_kinv:
  assumes i: "i < NPDU" and j: "j < 1024"
  shows "kinv (sample_at i j) [4, 5] [1..<1024]"
proof -
  let ?s = "sample_at i j"
  have same: "envs ?s = envs sample_kern" "env_free_list ?s = env_free_list sample_kern"
    "kern_pgdir ?s = kern_pgdir sample_kern" "npages ?s = 16"
    by (simp_all add: sample_at_def sample_kern_def)
  then have d: "live ?s = {0}" "env_dir ?s = env_dir sample_kern" "kdir ?s = 1" "dirs ?s = {1, 2}"
    using sample_dirs by (simp_all add: live_def env_dir_def kdir_def dirs_def fun_eq_iff)
  have "envs_inv ?s [1..<1024]"
    using kinvD(2) [OF sample_kinv] unfolding envs_inv_def d sample_dirs same
    by (simp add: sample_at_def)
  moreover have "free_list_inv ?s [4, 5]"
    by (simp add: free_list_inv_def same) (simp add: sample_at_def)
  then have "vm_inv ?s [4, 5] {1, 2}"
    unfolding vm_inv_def tables_inv_def sample_at_map [OF i j]
    by (simp add: same occurrences_def) (simp add: sample_at_def pde_ok_def)
  ultimately show ?thesis by (simp add: kinv_def d)
qed

lemma sample_at_facts:
  assumes i: "i < NPDU" and j: "j < 1024"
  shows "live (sample_at i j) = {0}" "dirs (sample_at i j) = {1, 2}" "curenv (sample_at i j) = Some 0"
  "cpu_ok (sample_at i j)" "uspace (sample_at i j) 0 = [(i, j) \<mapsto> 0x6007]"
  "user_dir (sample_at i j) = env_pgdir (envs (sample_at i j) 0)"
proof -
  let ?s = "sample_at i j"
  have same: "envs ?s = envs sample_kern" "kern_pgdir ?s = kern_pgdir sample_kern"
    "cpus ?s = cpus sample_kern" "this_cpu ?s = 0" "kernel_lock ?s = Some 0"
    "cr3 ?s = frame_addr 2"
    by (simp_all add: sample_at_def sample_kern_def)
  show l: "live ?s = {0}" and d: "dirs ?s = {1, 2}"
    using sample_dirs same by (simp_all add: live_def env_dir_def kdir_def dirs_def)
  show c: "curenv ?s = Some 0" by (simp add: curenv_def same) (simp add: sample_kern_def)
  show "cpu_ok ?s" by (simp add: cpu_ok_def c l same)
  have "env_dir ?s 0 = 2" using sample_dirs(2) same by (simp add: env_dir_def)
  then show "uspace ?s 0 = [(i, j) \<mapsto> 0x6007]"
    unfolding uspace_def d sample_at_map [OF i j] by (auto simp: fun_eq_iff)
  show "user_dir ?s = env_pgdir (envs ?s 0)"
    by (simp add: user_dir_def same) (simp add: sample_kern_def frame_kva_def)
qed

lemma sample_slot: "2 < NPDU" "0 < (1024 :: nat)"
  by (simp_all add: NPDU_eq)

lemmas sample_mapped_kinv = sample_at_kinv [OF sample_slot, folded sample_mapped_def]

lemmas sample_mapped_facts = sample_at_facts [OF sample_slot, folded sample_mapped_def]

section \<open>Properties\<close>

text \<open>C12. For a range of user addresses below \<open>UTOP\<close>, \<open>user_mem_check\<close> returns 0, and changes
  nothing, exactly when every address of the range is mapped with the bits \<open>perm | PTE_P\<close>;
  otherwise it returns \<open>-E_FAULT\<close> and stores the lowest offending address.\<close>

theorem user_mem_check_exact:
  assumes "kinv s fl el" and "e \<in> live s" and "0 < unat len" and "unat va + unat len \<le> unat UTOP"
  shows "if \<forall>a. in_range va len a \<longrightarrow> grants s e (perm OR PTE_P) a
    then user_mem_check e va len perm s = Some (Inr (), s)
    else \<exists>f. user_mem_check e va len perm s = Some (Inl E_FAULT, s\<lparr>user_mem_check_addr := f\<rparr>)
      \<and> in_range va len f \<and> \<not> grants s e (perm OR PTE_P) f
      \<and> (\<forall>a. in_range va len a \<longrightarrow> \<not> grants s e (perm OR PTE_P) a \<longrightarrow> f \<le> a)"
proof (cases rule: user_mem_check_env [OF assms, of perm])
  case 1
  then show ?thesis by simp
next
  case (2 f)
  then have "\<not> (\<forall>a. in_range va len a \<longrightarrow> grants s e (perm OR PTE_P) a)" by blast
  then show ?thesis using 2 by (simp only: if_False) (intro exI [of _ f] conjI allI impI; simp)
qed

theorem user_mem_check_exact_witness:
  "if \<forall>a. in_range 0x800000 0x1001 a \<longrightarrow> grants sample_mapped 0 (PTE_U OR PTE_P) a
    then user_mem_check 0 0x800000 0x1001 PTE_U sample_mapped = Some (Inr (), sample_mapped)
    else \<exists>f. user_mem_check 0 0x800000 0x1001 PTE_U sample_mapped
          = Some (Inl E_FAULT, sample_mapped\<lparr>user_mem_check_addr := f\<rparr>)
      \<and> in_range 0x800000 0x1001 f \<and> \<not> grants sample_mapped 0 (PTE_U OR PTE_P) f
      \<and> (\<forall>a. in_range 0x800000 0x1001 a \<longrightarrow> \<not> grants sample_mapped 0 (PTE_U OR PTE_P) a \<longrightarrow> f \<le> a)"
  by (rule user_mem_check_exact [OF sample_mapped_kinv]) (simp_all add: sample_mapped_facts unat_UTOP)

text \<open>A range whose end wraps around to address 0 passes the check whatever the page
  tables hold: the loop of \<open>user_mem_check\<close> is never entered, so an environment can pass
  unmapped memory to the kernel.\<close>

theorem user_mem_check_wraps:
  assumes "va \<le> ULIM"
  shows "user_mem_check e va (- va) perm s = Some (Inr (), s)"
  using assms by (rule user_mem_check_wrap)

theorem user_mem_check_wraps_witness:
  "user_mem_check 0 0x900000 (- 0x900000) PTE_U sample_mapped = Some (Inr (), sample_mapped)"
  by (rule user_mem_check_wraps) (simp add: layout_values(6))

text \<open>What the kernel writes to user memory it reads back: a buffer of at most a page in
  which every byte is writable takes the bytes, without a fault and without changing any
  address space, even when two of its pages are mapped to the same frame.\<close>

theorem user_store_load:
  assumes "kinv s fl el" and "e \<in> live s" and "n \<le> 4096"
    and "\<forall>i<n. writable s e (va + of_nat i)"
  shows "\<exists>s'. store_bytes (env_pgdir (envs s e)) va src n s = Some s' \<and> kinv s' fl el
    \<and> uspace s' = uspace s \<and> envs s' = envs s
    \<and> (\<forall>i<n. load_byte s' (env_pgdir (envs s e)) (va + of_nat i) = Some (src i))"
proof -
  obtain s' where s': "store_bytes (env_pgdir (envs s e)) va src n s = Some s'" "kinv s' fl el"
    "pm_frame s s'" "uspace s' = uspace s"
    "\<forall>i<n. load_byte s' (env_pgdir (envs s e)) (va + of_nat i) = Some (src i)"
    using store_bytes_spec [OF assms(1,2) _ assms(3), of va src] assms(4) by blast
  with pm_frameD(2) [OF s'(3)] show ?thesis by blast
qed

lemma sample_mapped_writable: "i < 4096 \<Longrightarrow> writable sample_mapped 0 (0x800000 + of_nat i)"
proof -
  assume i: "i < 4096"
  then have "unat (0x800000 + of_nat i :: u32) = 0x800000 + i" by (simp add: unat_word_ariths unat_of_nat)
  moreover have "(0x800000 + i) div 4194304 = 2" "(0x800000 + i) div 4096 = 2048"
    by (rule div_nat_eqI; use i in simp)+
  ultimately have "upage (0x800000 + of_nat i) = (2, 0)" by (simp add: upage_def unat_PDX unat_PTX)
  then show ?thesis by (simp add: writable_def sample_mapped_facts PTE_W_def)
qed

theorem user_store_load_witness:
  "\<exists>s'. store_bytes (env_pgdir (envs sample_mapped 0)) 0x800000 (\<lambda>i. of_nat i) 52 sample_mapped = Some s'
    \<and> kinv s' [4, 5] [1..<1024] \<and> uspace s' = uspace sample_mapped \<and> envs s' = envs sample_mapped
    \<and> (\<forall>i<52. load_byte s' (env_pgdir (envs sample_mapped 0)) (0x800000 + of_nat i) = Some (of_nat i))"
  by (rule user_store_load [OF sample_mapped_kinv])
    (simp_all add: sample_mapped_facts(1) sample_mapped_writable)

end
