(* ===== verification/Trap.thy ===== *)
theory Trap
  imports User_Access
begin

text \<open>
  Traps (\<open>kern/trap.c\<close>): the per-CPU kernel stacks, the
  dispatcher, the page fault handler that hands faults to user space, and the common entry
  point \<open>trap\<close>. A trap is shown to end in user mode, in a halted CPU or in the monitor with
  the kernel invariant intact, and timer interrupts to give every runnable environment its
  turn.
\<close>

section \<open>Trap numbers\<close>

definition T_BRKPT :: u32 where "T_BRKPT = 3"
definition T_PGFLT :: u32 where "T_PGFLT = 14"
definition T_SYSCALL :: u32 where "T_SYSCALL = 48"
definition IRQ_OFFSET :: u32 where "IRQ_OFFSET = 32"
definition IRQ_TIMER :: u32 where "IRQ_TIMER = 0"
definition IRQ_KBD :: u32 where "IRQ_KBD = 1"
definition IRQ_SERIAL :: u32 where "IRQ_SERIAL = 4"
definition IRQ_SPURIOUS :: u32 where "IRQ_SPURIOUS = 7"

definition excnames :: "string list" where
  "excnames = [''Divide error'', ''Debug'', ''Non-Maskable Interrupt'', ''Breakpoint'', ''Overflow'',
     ''BOUND Range Exceeded'', ''Invalid Opcode'', ''Device Not Available'', ''Double Fault'',
     ''Coprocessor Segment Overrun'', ''Invalid TSS'', ''Segment Not Present'', ''Stack Fault'',
     ''General Protection'', ''Page Fault'', ''(unknown trap)'', ''x87 FPU Floating-Point Error'',
     ''Alignment Check'', ''Machine-Check'', ''SIMD Floating-Point Exception'']"

definition trapname :: "u32 \<Rightarrow> string" where
  "trapname trapno =
     (if unat trapno < length excnames then excnames ! unat trapno
      else if trapno = T_SYSCALL then ''System call''
      else if IRQ_OFFSET \<le> trapno \<and> trapno < IRQ_OFFSET + 16 then ''Hardware Interrupt''
      else ''(unknown trap)'')"

section \<open>Per-CPU state\<close>

text \<open>What \<open>trap_init_percpu\<close> sets for CPU \<open>cpu\<close>: the stack of the task state segment, the slot
  of its descriptor in the GDT, and the selector loaded into the task register.\<close>

record Percpu =
  ts_esp0 :: u32
  ts_ss0 :: u16
  gdt_index :: u16
  task_selector :: u16

definition GD_KD :: u16 where "GD_KD = 0x10"
definition GD_TSS0 :: u16 where "GD_TSS0 = 0x28"

definition trap_init_percpu :: "nat \<Rightarrow> Percpu" where
  "trap_init_percpu cpu =
     \<lparr>ts_esp0 = KSTACKTOP - of_nat cpu * (KSTKSIZE + KSTKGAP), ts_ss0 = GD_KD,
      gdt_index = drop_bit 3 GD_TSS0 + of_nat cpu, task_selector = GD_TSS0 + 8 * of_nat cpu\<rparr>"

section \<open>Page faults\<close>

definition utf_words :: "u32 \<Rightarrow> Trapframe \<Rightarrow> u32 list" where
  "utf_words fault_va tf =
     [fault_va, tf_err tf,
      reg_edi (tf_regs tf), reg_esi (tf_regs tf), reg_ebp (tf_regs tf), reg_oesp (tf_regs tf),
      reg_ebx (tf_regs tf), reg_edx (tf_regs tf), reg_ecx (tf_regs tf), reg_eax (tf_regs tf),
      tf_eip tf, tf_eflags tf, tf_esp tf]"

text \<open>Where the frame goes: below the trap-time stack pointer, leaving one word, when the fault
  happened on the exception stack, else at its top. \<open>sizeof(struct UTrapframe)\<close> is 52.\<close>

definition utf_addr :: "Trapframe \<Rightarrow> u32" where
  "utf_addr tf =
     (if UXSTACKTOP - PGSIZE \<le> tf_esp tf \<and> tf_esp tf < UXSTACKTOP then tf_esp tf - 52 - 4
      else UXSTACKTOP - 52)"

definition page_fault_handler :: "u32 \<Rightarrow> Trapframe \<Rightarrow> kern \<Rightarrow> unit outcome" where
  "page_fault_handler fault_va tf s =
     (if tf_cs tf AND 3 = 0 then Panic
      else with_cur s (\<lambda>c.
        if env_pgfault_upcall (envs s c) \<noteq> 0 then
          let u = utf_addr tf in
          obind (user_mem_assert c u 52 (PTE_P OR PTE_W) s) (\<lambda>_ s1.
          obind (of_state (store_bytes (user_dir s1) u (word_bytes (utf_words fault_va tf)) 52 s1)) (\<lambda>_ s2.
            env_run c (set_env c (\<lambda>v. v\<lparr>env_tf := (env_tf v)\<lparr>tf_eip := env_pgfault_upcall v, tf_esp := u\<rparr>\<rparr>) s2)))
        else env_destroy c s))"

section \<open>Dispatch\<close>

text \<open>The devices at the time of the trap: pending serial and keyboard input, and \<open>%cr2\<close>.\<close>

record Devices =
  dev_serial :: "u32 list"
  dev_kbd :: "u32 list"
  dev_cr2 :: u32

text \<open>\<open>loc\<close> is the environment whose \<open>env_tf\<close> the pointer \<open>tf\<close> denotes, or \<open>None\<close> for the
  frame on the kernel stack of a trap from kernel mode. The monitor never returns: each of
  its commands returns 0.\<close>

definition trap_dispatch :: "Devices \<Rightarrow> nat option \<Rightarrow> Trapframe \<Rightarrow> kern \<Rightarrow> unit outcome" where
  "trap_dispatch dev loc tf s =
     (if tf_trapno tf = T_BRKPT then Monitor s
      else if tf_trapno tf = T_PGFLT then page_fault_handler (dev_cr2 dev) tf s
      else if tf_trapno tf = T_SYSCALL then
        obind (syscall (dev_serial dev) (dev_kbd dev) (reg_eax (tf_regs tf)) (reg_edx (tf_regs tf))
                 (reg_ecx (tf_regs tf)) (reg_ebx (tf_regs tf)) (reg_edi (tf_regs tf)) (reg_esi (tf_regs tf)) s)
          (\<lambda>r s1. Return () (case loc of
             None \<Rightarrow> s1
           | Some c \<Rightarrow> set_env c (\<lambda>v. v\<lparr>env_tf := (env_tf v)\<lparr>tf_regs :=
                         (tf_regs (env_tf v))\<lparr>reg_eax := r\<rparr>\<rparr>\<rparr>) s1))
      else if tf_trapno tf = IRQ_OFFSET + IRQ_SPURIOUS then Return () s
      else if tf_trapno tf = IRQ_OFFSET + IRQ_TIMER then sched_yield s
      else if tf_trapno tf = IRQ_OFFSET + IRQ_KBD then
        Return () (s\<lparr>cons := cons_intr (dev_kbd dev) (cons s)\<rparr>)
      else if tf_trapno tf = IRQ_OFFSET + IRQ_SERIAL then
        Return () (s\<lparr>cons := cons_intr (dev_serial dev) (cons s)\<rparr>)
      else if tf_cs tf = GD_KT then Panic
      else with_cur s (\<lambda>c. env_destroy c s))"

section \<open>The entry point\<close>

text \<open>\<open>trap\<close> after the dispatcher returned.\<close>

definition trap_return :: "kern \<Rightarrow> unit outcome" where
  "trap_return s =
     (case curenv s of
        Some c \<Rightarrow> if env_status (envs s c) = ENV_RUNNING then env_run c s else sched_yield s
      | None \<Rightarrow> sched_yield s)"

text \<open>The lock is taken again by a CPU that was halted. Interrupts are off, as the gates are
  interrupt gates, and no CPU has called \<open>panic\<close>.\<close>

definition trap :: "Devices \<Rightarrow> Trapframe \<Rightarrow> kern \<Rightarrow> unit outcome" where
  "trap dev tf s =
     (let old = cpu_status (cpus s (this_cpu s));
          s0 = s\<lparr>cpus := (cpus s)(this_cpu s := (cpus s (this_cpu s))\<lparr>cpu_status := CPU_STARTED\<rparr>)\<rparr>
      in obind (if old = CPU_HALTED then spin_lock s0 else Return () s0) (\<lambda>_ s1.
           if tf_cs tf AND 3 = 3 then
             obind (spin_lock s1) (\<lambda>_ s2. with_cur s2 (\<lambda>c.
               if env_status (envs s2 c) = ENV_DYING then
                 obind (of_state (env_free c s2)) (\<lambda>_ s3. sched_yield (set_curenv None s3))
               else
                 let s3 = set_env c (\<lambda>v. v\<lparr>env_tf := tf\<rparr>) s2
                 in obind (trap_dispatch dev (Some c) tf s3) (\<lambda>_ s4. trap_return s4)))
           else obind (trap_dispatch dev None tf s1) (\<lambda>_ s2. trap_return s2)))"

section \<open>Page faults reach the handler of the environment\<close>

lemma unat_utf_addr: "unat (utf_addr tf) + 52 \<le> unat UTOP" "0 < unat (52 :: u32)"
proof -
  have x: "unat UXSTACKTOP = 4005560320" "unat (UXSTACKTOP - PGSIZE) = 4005556224"
    "unat (UXSTACKTOP - 52) = 4005560268" by (simp_all add: layout_values PGSIZE_def)
  have "unat (tf_esp tf - 52 - 4) = unat (tf_esp tf) - 56"
    if "UXSTACKTOP - PGSIZE \<le> tf_esp tf"
  proof -
    have "56 \<le> tf_esp tf" using that x(2) by (simp add: word_le_nat_alt)
    then show ?thesis by (simp add: diff_diff_eq unat_sub)
  qed
  then show "unat (utf_addr tf) + 52 \<le> unat UTOP"
    using x by (auto simp: utf_addr_def unat_UTOP word_le_nat_alt word_less_nat_alt)
qed simp

lemma utf_addr_eq:
  "(if 0xEEBFF000 \<le> tf_esp tf \<and> tf_esp tf < 0xEEC00000 then tf_esp tf - 56 else 0xEEBFFFCC) = utf_addr tf"
  by (simp add: utf_addr_def layout_values PGSIZE_def)

lemma utf_words_length: "length (utf_words va tf) = 13"
  by (simp add: utf_words_def)

lemma utf_addr_esp: "tf_esp tf = tf_esp tf' \<Longrightarrow> utf_addr tf = utf_addr tf'"
  by (simp add: utf_addr_def)

lemma perm_W: "(PTE_P OR PTE_W) OR PTE_U OR PTE_P = 7"
  by (simp add: PTE_P_def PTE_W_def PTE_U_def)

lemma load_byte_cong: "phys s' = phys s \<Longrightarrow> load_byte s' = load_byte s"
  by (intro ext) (simp add: load_byte_def mmu_read_addr_def kread_def Let_def)

text \<open>A 32-bit word in user memory.\<close>

definition load_word :: "kern \<Rightarrow> u32 \<Rightarrow> u32 \<Rightarrow> u32 option" where
  "load_word s pgdir va = map_option (\<lambda>b. le32 b 0) (load_bytes s pgdir va 4)"

lemma le32_bytes:
  assumes "\<And>k. k < 4 \<Longrightarrow> b (i + k) = get_byte k w" shows "le32 b i = w"
proof (rule bit_word_eqI)
  have b: "b i = get_byte 0 w" "b (i + 1) = get_byte 1 w" "b (i + 2) = get_byte 2 w" "b (i + 2 + 1) = get_byte 3 w"
    using assms [of 0] assms [of 1] assms [of 2] assms [of 3] by (simp_all add: numeral_3_eq_3)
  fix n assume "n < LENGTH(32)"
  then have "n < 8 \<or> 8 \<le> n \<and> n < 16 \<or> 16 \<le> n \<and> n < 24 \<or> 24 \<le> n \<and> n < 32" by auto
  then show "bit (le32 b i) n = bit w n"
    unfolding le32_def le16_def b by (elim disjE conjE) (auto simp: bit_simps get_byte_def)
qed

lemma word_bytes_word: "k < 4 \<Longrightarrow> word_bytes ws (4 * i + k) = get_byte k (ws ! i)"
  by (simp add: word_bytes_def)

lemma load_word_stored:
  assumes "\<And>k. k < 4 * length ws \<Longrightarrow> load_byte s d (u + of_nat k) = Some (word_bytes ws k)" and "i < length ws"
  shows "load_word s d (u + of_nat (4 * i)) = Some (ws ! i)"
proof -
  have "load_byte s d (u + of_nat (4 * i) + of_nat k) = Some (get_byte k (ws ! i))" if "k < 4" for k
    using assms(1) [of "4 * i + k"] that assms(2) by (simp add: word_bytes_word add.assoc)
  then show ?thesis by (auto simp: load_word_def load_bytes_def list_all_iff intro!: le32_bytes)
qed

text \<open>The handler once the exception stack has been checked.\<close>

lemma fault_frame:
  assumes k: "kinv s fl el" and cpu: "cpu_ok s" and c: "curenv s = Some c"
    and dir: "user_dir s = env_pgdir (envs s c)"
    and g: "\<And>a. in_range (utf_addr tf) 52 a \<Longrightarrow> grants s c 7 a"
  obtains s2 s' where
    "store_bytes (user_dir s) (utf_addr tf) (word_bytes (utf_words va tf)) 52 s = Some s2"
    and "env_run c (set_env c (\<lambda>v. v\<lparr>env_tf := (env_tf v)\<lparr>tf_eip := env_pgfault_upcall v,
           tf_esp := utf_addr tf\<rparr>\<rparr>) s2) = EnterUser s'"
    and "kinv s' fl el" and "owned s' fl (dirs s') = owned s fl (dirs s)" and "uspace s' = uspace s"
    and "curenv s' = Some c"
    and "env_tf (envs s' c) = (env_tf (envs s c))\<lparr>tf_eip := env_pgfault_upcall (envs s c), tf_esp := utf_addr tf\<rparr>"
    and "\<And>i. i < 52 \<Longrightarrow> load_byte s' (env_pgdir (envs s c)) (utf_addr tf + of_nat i)
           = Some (word_bytes (utf_words va tf) i)"
proof -
  let ?u = "utf_addr tf"
  have cl: "c \<in> live s" using cpu c by (simp add: cpu_ok_def)
  have "grants s c 7 (?u + of_nat i)" if "i < 52" for i
    using g in_range_offset [OF unat_utf_addr(1) that] by simp
  then have w: "writable s c (?u + of_nat i)" if "i < 52" for i
    using that by (intro grants_writable [of s c 7]) (simp_all add: PTE_W_def)
  obtain s2 where s2: "store_bytes (env_pgdir (envs s c)) ?u (word_bytes (utf_words va tf)) 52 s = Some s2"
    "kinv s2 fl el" "pm_frame s s2" "uspace s2 = uspace s" "owned s2 fl (dirs s2) = owned s fl (dirs s)"
    "\<forall>i<52. load_byte s2 (env_pgdir (envs s c)) (?u + of_nat i) = Some (word_bytes (utf_words va tf) i)"
    using store_bytes_spec [OF k cl, where n = 52 and va = ?u and src = "word_bytes (utf_words va tf)"] w by auto
  note f = pm_frameD [OF s2(3)] and d = pm_frame_dirs [OF s2(3)]
  let ?s3 = "set_env c (\<lambda>v. v\<lparr>env_tf := (env_tf v)\<lparr>tf_eip := env_pgfault_upcall v, tf_esp := ?u\<rparr>\<rparr>) s2"
  have ss: "same_spaces s2 ?s3" by (rule same_spaces_set_env) simp_all
  have k3: "kinv ?s3 fl el" using s2(2) same_spacesD(8) [OF ss] by simp
  have cpu3: "c \<in> live ?s3" "cpu_ok ?s3"
    using cl d(2) cpu f same_spacesD(1) [OF ss] by (simp_all add: cpu_ok_def)
  obtain s' where s': "env_run c ?s3 = EnterUser s'" "same_spaces ?s3 s'"
    "curenv s' = Some c" "\<And>x. env_tf (envs s' x) = env_tf (envs ?s3 x)"
    by (rule env_run_spec [OF k3 cpu3]) (rule that)
  note ss' = same_spaces_trans [OF ss s'(2)]
  show thesis
  proof (rule that [OF _ s'(1)])
    show "store_bytes (user_dir s) ?u (word_bytes (utf_words va tf)) 52 s = Some s2" using s2(1) dir by simp
    show "kinv s' fl el" using k3 same_spacesD(8) [OF s'(2)] by simp
    show "owned s' fl (dirs s') = owned s fl (dirs s)"
      using s2(5) same_spacesD(4,6) [OF ss'] by simp
    show "uspace s' = uspace s" using s2(4) same_spacesD(5) [OF ss'] by simp
    show "env_tf (envs s' c) = (env_tf (envs s c))\<lparr>tf_eip := env_pgfault_upcall (envs s c), tf_esp := ?u\<rparr>"
      using s'(4) [of c] f(2) by simp
    show "load_byte s' (env_pgdir (envs s c)) (?u + of_nat i) = Some (word_bytes (utf_words va tf) i)"
      if "i < 52" for i
      using s2(6) that load_byte_cong [OF same_spacesD(9) [OF ss']] by simp
  qed (rule s'(3))
qed

lemma page_fault_ends:
  assumes ok: "sys_ok Own s" and cpu: "cpu_ok s" and c: "curenv s = Some c"
    and dir: "user_dir s = env_pgdir (envs s c)" and cs: "tf_cs tf AND 3 \<noteq> 0"
  shows "ends (\<lambda>_ _. False) (sys_ok Own) (page_fault_handler va tf s)"
proof -
  from ok obtain fl el where k: "kinv s fl el" and o: "owned s fl (dirs s) = Own" by (auto simp: sys_ok_def)
  have cl: "c \<in> live s" using cpu c by (simp add: cpu_ok_def)
  have top: "unat (utf_addr tf) + unat (52 :: u32) \<le> unat UTOP" using unat_utf_addr(1) [of tf] by simp
  let ?run = "\<lambda>s1. obind (of_state (store_bytes (user_dir s1) (utf_addr tf) (word_bytes (utf_words va tf)) 52 s1))
     (\<lambda>_ s2. env_run c (set_env c (\<lambda>v. v\<lparr>env_tf := (env_tf v)\<lparr>tf_eip := env_pgfault_upcall v,
                          tf_esp := utf_addr tf\<rparr>\<rparr>) s2))"
  have run: "ends (\<lambda>_ _. False) (sys_ok Own) (?run s)" if g: "\<forall>a. in_range (utf_addr tf) 52 a \<longrightarrow> grants s c 7 a"
  proof -
    from g have g': "\<And>a. in_range (utf_addr tf) 52 a \<Longrightarrow> grants s c 7 a" by blast
    show ?thesis
      by (rule fault_frame [OF k cpu c dir g', of tf va]) (auto simp: of_state_def sys_ok_def o)
  qed
  have "ends (\<lambda>_ _. False) (sys_ok Own)
      (obind (user_mem_assert c (utf_addr tf) 52 (PTE_P OR PTE_W) s) (\<lambda>_ s1. ?run s1))"
  proof (rule ends_obind)
    show "ends (\<lambda>_ s1. s1 = s \<and> (\<forall>a. in_range (utf_addr tf) 52 a \<longrightarrow> grants s c 7 a)) (sys_ok Own)
        (user_mem_assert c (utf_addr tf) 52 (PTE_P OR PTE_W) s)"
      by (rule ends_mono [OF user_mem_assert_ends [OF ok cpu cl unat_utf_addr(2) top]])
        (auto simp: c sys_exit_def perm_W)
  qed (use run in auto)
  moreover have "ends (\<lambda>_ _. False) (sys_ok Own) (env_destroy c s)"
    using env_destroy_ends [OF ok cpu cl] by (rule ends_mono) (auto simp: c)
  ultimately show ?thesis
    using cs by (simp add: page_fault_handler_def with_cur_def c Let_def)
qed

section \<open>Every trap from user mode ends well\<close>

lemma trap_return_ends:
  assumes "sys_ok Own s" and "cpu_ok s"
  shows "ends (\<lambda>_ _. False) (sys_ok Own) (trap_return s)"
proof -
  have y: "ends (\<lambda>_ _. False) (sys_ok Own) (sched_yield s)"
    using sched_yield_ends [OF assms untouched_refl, of "\<lambda>_ _. False" "{}"] by (rule ends_mono) auto
  have "ends (\<lambda>_ _. False) (sys_ok Own) (env_run c s)" if "curenv s = Some c" for c
  proof -
    have cl: "c \<in> live s" using that assms(2) by (simp add: cpu_ok_def)
    show ?thesis
      by (rule ends_mono [OF env_run_ends [where A = "{}" and R = "\<lambda>_ _. False", OF assms cl untouched_refl]]) auto
  qed
  with y show ?thesis by (auto simp: trap_return_def split: option.split)
qed

text \<open>What the kernel relies on when it is entered from user mode on a CPU: the invariant, a
  current environment that is in use and whose directory is loaded, and a free lock.\<close>

definition user_mode :: "nat set \<Rightarrow> nat \<Rightarrow> kern \<Rightarrow> bool" where
  "user_mode Own c s \<longleftrightarrow> sys_ok Own s \<and> curenv s = Some c \<and> c \<in> live s \<and> kernel_lock s = None
     \<and> cpu_status (cpus s (this_cpu s)) \<noteq> CPU_HALTED \<and> user_dir s = env_pgdir (envs s c)"

text \<open>The state in which the dispatcher runs.\<close>

definition entered :: "Trapframe \<Rightarrow> nat \<Rightarrow> kern \<Rightarrow> kern" where
  "entered tf c s = set_env c (\<lambda>v. v\<lparr>env_tf := tf\<rparr>)
     (s\<lparr>cpus := (cpus s)(this_cpu s := (cpus s (this_cpu s))\<lparr>cpu_status := CPU_STARTED\<rparr>),
        kernel_lock := Some (this_cpu s)\<rparr>)"

lemma entered_spec:
  assumes "user_mode Own c s"
  shows "same_spaces s (entered tf c s)" and "sys_ok Own (entered tf c s)" and "cpu_ok (entered tf c s)"
    and "curenv (entered tf c s) = Some c" and "user_dir (entered tf c s) = env_pgdir (envs (entered tf c s) c)"
    and "this_cpu (entered tf c s) = this_cpu s" and "pages (entered tf c s) = pages s"
    and "env_status (envs (entered tf c s) x) = env_status (envs s x)"
proof -
  show ss: "same_spaces s (entered tf c s)" by (simp add: same_spaces_def entered_def set_env_def)
  show "sys_ok Own (entered tf c s)" using assms by (simp add: same_spaces_sys [OF ss] user_mode_def)
  show cur: "curenv (entered tf c s) = Some c" and "this_cpu (entered tf c s) = this_cpu s"
    and "pages (entered tf c s) = pages s"
    and "env_status (envs (entered tf c s) x) = env_status (envs s x)"
    using assms by (simp_all add: curenv_def entered_def user_mode_def)
  show "cpu_ok (entered tf c s)"
    using assms cur same_spacesD(1) [OF ss] by (simp add: cpu_ok_def user_mode_def) (simp add: entered_def)
  show "user_dir (entered tf c s) = env_pgdir (envs (entered tf c s) c)"
    using assms by (simp add: user_mode_def user_dir_def entered_def)
qed

lemma trap_user:
  assumes "user_mode Own c s" and "tf_cs tf AND 3 = 3" and "env_status (envs s c) \<noteq> ENV_DYING"
  shows "trap dev tf s = obind (trap_dispatch dev (Some c) tf (entered tf c s)) (\<lambda>_ s4. trap_return s4)"
  using assms
  by (simp add: trap_def Let_def user_mode_def spin_lock_def with_cur_def curenv_def entered_def)

lemma trap_dispatch_ends:
  assumes ok: "sys_ok Own s" and cpu: "cpu_ok s" and c: "curenv s = Some c"
    and dir: "user_dir s = env_pgdir (envs s c)" and refs: "refs_free s" and cs: "tf_cs tf AND 3 = 3"
    and sys: "tf_trapno tf = T_SYSCALL \<longrightarrow> reg_eax (tf_regs tf) \<noteq> 0 \<and> reg_eax (tf_regs tf) \<noteq> 9"
  shows "ends (\<lambda>_ s'. sys_ok Own s' \<and> cpu_ok s') (sys_ok Own) (trap_dispatch dev (Some c) tf s)"
proof -
  let ?R = "\<lambda>_ s'. sys_ok Own s' \<and> cpu_ok s'"
  have cl: "c \<in> live s" using cpu c by (simp add: cpu_ok_def)
  have kt: "tf_cs tf \<noteq> GD_KT" using cs by (auto simp: GD_KT_def)
  have cs': "tf_cs tf AND 3 \<noteq> 0" using cs by simp
  have pf: "ends ?R (sys_ok Own) (page_fault_handler (dev_cr2 dev) tf s)"
    by (rule ends_mono [OF page_fault_ends [OF ok cpu c dir cs']]) auto
  have sc: "ends ?R (sys_ok Own) (obind (syscall (dev_serial dev) (dev_kbd dev) n a1 a2 a3 a4 a5 s)
      (\<lambda>r s1. Return () (set_env c (\<lambda>v. v\<lparr>env_tf := f r v\<rparr>) s1)))" if "n \<noteq> 0" "n \<noteq> 9" for n a1 a2 a3 a4 a5 f
  proof (rule ends_obind)
    show "ends ?R (sys_ok Own) (syscall (dev_serial dev) (dev_kbd dev) n a1 a2 a3 a4 a5 s)"
      unfolding syscall_def
      by (rule ends_obind [OF ends_mono [OF dispatch_ends [OF ok cpu c refs that]]])
        (auto simp: sys_ret_def sys_exit_def)
    fix r s1 assume s1: "sys_ok Own s1 \<and> cpu_ok s1"
    have ss: "same_spaces s1 (set_env c (\<lambda>v. v\<lparr>env_tf := f r v\<rparr>) s1)" by (rule same_spaces_set_env) simp_all
    with s1 show "ends ?R (sys_ok Own) (Return () (set_env c (\<lambda>v. v\<lparr>env_tf := f r v\<rparr>) s1))"
      by (simp add: same_spaces_sys [OF ss] cpu_ok_def same_spacesD [OF ss])
  qed
  have io: "sys_ok Own (s\<lparr>cons := k\<rparr>) \<and> cpu_ok (s\<lparr>cons := k\<rparr>)" for k
  proof -
    have ss: "same_spaces s (s\<lparr>cons := k\<rparr>)" by simp
    show ?thesis using ok cpu by (simp add: same_spaces_sys [OF ss] cpu_ok_def same_spacesD [OF ss])
  qed
  have yl: "ends ?R (sys_ok Own) (sched_yield s)"
    by (rule ends_mono [OF sched_yield_ends [OF ok cpu untouched_refl, of "\<lambda>_ _. False" "{}"]]) auto
  have de: "ends ?R (sys_ok Own) (env_destroy c s)"
    by (rule ends_mono [OF env_destroy_ends [OF ok cpu cl]]) auto
  show ?thesis
    using pf sc io yl de sys kt ok cpu by (simp add: trap_dispatch_def with_cur_def c)
qed

lemma trap_ends:
  assumes um: "user_mode Own c s" and refs: "refs_free s" and cs: "tf_cs tf AND 3 = 3"
    and sys: "tf_trapno tf = T_SYSCALL \<longrightarrow> reg_eax (tf_regs tf) \<noteq> 0 \<and> reg_eax (tf_regs tf) \<noteq> 9"
  shows "ends (\<lambda>_ _. False) (sys_ok Own) (trap dev tf s)"
proof (cases "env_status (envs s c) = ENV_DYING")
  case False
  note en = entered_spec [OF um, of tf]
  have "refs_free (entered tf c s)" using refs en(7) by (simp add: refs_free_def)
  from trap_dispatch_ends [OF en(2-5) this cs sys]
  show ?thesis unfolding trap_user [OF um cs False] by (rule ends_obind) (auto simp: trap_return_ends)
next
  case True
  let ?s2 = "s\<lparr>cpus := (cpus s)(this_cpu s := (cpus s (this_cpu s))\<lparr>cpu_status := CPU_STARTED\<rparr>),
        kernel_lock := Some (this_cpu s)\<rparr>"
  have ss: "same_spaces s ?s2" by (simp add: same_spaces_def)
  from um obtain fl el where k: "kinv s fl el" and o: "owned s fl (dirs s) = Own"
    by (auto simp: user_mode_def sys_ok_def)
  have c2: "c \<in> live ?s2" using um same_spacesD(1) [OF ss] by (simp add: user_mode_def)
  have k2: "kinv ?s2 fl el" using k same_spacesD(8) [OF ss] by simp
  obtain s3 fl' where s3: "env_free c ?s2 = Some s3" "kinv s3 fl' (c # el)"
    "owned s3 fl' (dirs s3) = owned ?s2 fl (dirs ?s2)" "this_cpu s3 = this_cpu ?s2"
    "kernel_lock s3 = kernel_lock ?s2"
    using env_free_kinv [OF k2 c2] by blast
  have sc: "same_spaces s3 (set_curenv None s3)" by simp
  have "sys_ok Own s3" using s3(2,3) o same_spacesD(4,6) [OF ss] by (auto simp: sys_ok_def)
  then have "ends (\<lambda>_ _. False) (\<lambda>s'. sys_ok Own s' \<and> untouched {} s3 s') (sched_yield (set_curenv None s3))"
    using s3(4,5) by (intro sched_yield_ends) (simp_all add: same_spaces_sys [OF sc] cpu_ok_def)
  then have "ends (\<lambda>_ _. False) (sys_ok Own) (sched_yield (set_curenv None s3))" by (rule ends_mono) auto
  moreover have "trap dev tf s = obind (of_state (env_free c ?s2)) (\<lambda>_ s3. sched_yield (set_curenv None s3))"
    using um cs True
    by (simp add: trap_def Let_def user_mode_def spin_lock_def with_cur_def curenv_def)
  ultimately show ?thesis by (simp add: s3(1) of_state_def)
qed

section \<open>Timer interrupts give everyone a turn\<close>

definition timer_frame :: "Trapframe \<Rightarrow> bool" where
  "timer_frame tf \<longleftrightarrow> tf_trapno tf = IRQ_OFFSET + IRQ_TIMER \<and> tf_cs tf AND 3 = 3"

text \<open>The kernel state after \<open>n\<close> timer interrupts from user mode; \<open>None\<close> if one of them did not
  end in user mode.\<close>

primrec ticks :: "Devices \<Rightarrow> Trapframe \<Rightarrow> nat \<Rightarrow> kern \<Rightarrow> kern option" where
  "ticks dev tf 0 s = Some s"
| "ticks dev tf (Suc n) s = (case trap dev tf s of EnterUser s' \<Rightarrow> ticks dev tf n s' | _ \<Rightarrow> None)"

lemma ahead_eq: "a < NENV \<Longrightarrow> b < NENV \<Longrightarrow> ahead a b = (if a \<le> b then b - a else b + NENV - a)"
  by (simp add: ahead_def mod_once)

lemma ahead_closer:
  assumes "c < NENV" and "x < NENV" and "e < NENV" and "x \<noteq> c" and "ahead c x \<le> ahead c e"
  shows "ahead x e < ahead c e"
  using assms by (auto simp: ahead_eq split: if_splits)

lemma timer_step:
  assumes um: "user_mode Own c s" and run: "env_status (envs s c) = ENV_RUNNING"
    and e: "e < NENV" "env_status (envs s e) = ENV_RUNNABLE" and tf: "timer_frame tf"
  obtains s' x where "trap dev tf s = EnterUser s'" and "user_mode Own x s'"
    and "env_status (envs s' x) = ENV_RUNNING" and "x < NENV"
    and "x = e \<or> env_status (envs s' e) = ENV_RUNNABLE \<and> ahead x e < ahead c e"
proof -
  let ?s3 = "entered tf c s"
  note en = entered_spec [OF um, of tf]
  from en(2) obtain fl el where k: "kinv ?s3 fl el" and o: "owned ?s3 fl (dirs ?s3) = Own" by (auto simp: sys_ok_def)
  have cl: "c \<in> live ?s3" using en(3,4) by (simp add: cpu_ok_def)
  have c: "c < NENV" using cl by (simp add: live_def)
  have start: "sched_start ?s3 = c" using kinvD(8) [OF k cl] en(4) by (simp add: sched_start_def)
  have ex: "\<exists>x. next_to_run ?s3 = Some x"
    using find_sched_order_None [of "\<lambda>e. env_status (envs ?s3 e) = ENV_RUNNABLE" ?s3] e en(8)
    by (auto simp: next_to_run_def split: option.split)
  then obtain x where x: "next_to_run ?s3 = Some x" by blast
  then have xr: "x < NENV" "env_status (envs s x) = ENV_RUNNABLE" "ahead c x \<le> ahead c e"
    using e start unfolding next_to_run_iff en(8) by auto
  have xc: "x \<noteq> c" using xr(2) run by auto
  have xl: "x \<in> live ?s3" using next_to_run_live [OF x en(3)] .
  obtain s' where s': "env_run x ?s3 = EnterUser s'" "same_spaces ?s3 s'" "curenv s' = Some x"
    "cr3 s' = frame_addr (env_dir ?s3 x)" "kernel_lock s' = None" "this_cpu s' = this_cpu ?s3"
    "\<And>y. env_status (envs s' y) = status_after_run ?s3 x y"
    by (rule env_run_spec [OF k xl en(3)]) (rule that)
  have tr: "trap dev tf s = EnterUser s'"
    using tf run x s'(1) unfolding timer_frame_def
    by (subst trap_user [OF um]) (simp_all add: trap_dispatch_def T_BRKPT_def T_PGFLT_def T_SYSCALL_def
        IRQ_OFFSET_def IRQ_SPURIOUS_def IRQ_TIMER_def sched_yield_run)
  have "user_dir s' = env_pgdir (envs s' x)"
    using s'(2,4) kinvD(6) [OF k xl] by (simp add: user_dir_def same_spaces_def frame_kva_def)
  moreover have "cpu_status (cpus s' (this_cpu s')) \<noteq> CPU_HALTED"
  proof -
    have "cpu_status (cpus ?s3 (this_cpu ?s3)) = CPU_STARTED" by (simp add: entered_def)
    then show ?thesis using env_run_cpu_status [OF s'(1)] by simp
  qed
  ultimately have um': "user_mode Own x s'"
    using s'(2,3,5) en(2) xl by (simp add: user_mode_def same_spaces_sys same_spacesD)
  have st: "env_status (envs s' x) = ENV_RUNNING" using s'(7) [of x] by (simp add: status_after_run_def)
  have "x = e \<or> env_status (envs s' e) = ENV_RUNNABLE \<and> ahead x e < ahead c e"
    using ahead_closer [OF c xr(1) e(1) xc xr(3)] s'(7) [of e] e(2) en(8) by (auto simp: status_after_run_def)
  then show thesis using that tr um' st xr(1) by blast
qed

lemma timer_turn:
  assumes "user_mode Own c s" and "env_status (envs s c) = ENV_RUNNING" and "c < NENV"
    and "e < NENV" and "env_status (envs s e) = ENV_RUNNABLE" and "timer_frame tf"
  shows "\<exists>n s'. n \<le> ahead c e \<and> ticks dev tf n s = Some s' \<and> curenv s' = Some e
    \<and> env_status (envs s' e) = ENV_RUNNING"
  using assms(1-3,5)
proof (induction "ahead c e" arbitrary: c s rule: less_induct)
  case less
  have pos: "0 < ahead c e"
    using less.prems assms(4) by (cases "c = e") (auto simp: ahead_eq split: if_splits)
  from timer_step [OF less.prems(1,2) assms(4) less.prems(4) assms(6), of dev]
  obtain s1 x where s1: "trap dev tf s = EnterUser s1" "user_mode Own x s1"
    "env_status (envs s1 x) = ENV_RUNNING" "x < NENV"
    "x = e \<or> env_status (envs s1 e) = ENV_RUNNABLE \<and> ahead x e < ahead c e" by metis
  show ?case
  proof (cases "x = e")
    case True
    with s1 pos show ?thesis
      by (intro exI [of _ 1] exI [of _ s1]) (simp add: user_mode_def)
  next
    case False
    with s1 obtain n s' where "n \<le> ahead x e" "ticks dev tf n s1 = Some s'" "curenv s' = Some e"
      "env_status (envs s' e) = ENV_RUNNING" using less.hyps [OF _ s1(2,3,4)] by blast
    with False s1(1,5) show ?thesis
      by (intro exI [of _ "Suc n"] exI [of _ s']) simp
  qed
qed

section \<open>Printing user strings\<close>

lemma mmu_read_unmapped:
  assumes k: "kinv s fl el" and e: "e \<in> live s" and a: "a < UTOP" and none: "uspace s e (upage a) = None"
  shows "load_byte s (env_pgdir (envs s e)) a = None"
  using kinvD(1) [OF k] kinvD(12) [OF k e] a
proof (cases rule: slot_cases)
  case live
  let ?d = "env_dir s e"
  have "pde_ok (phys s ?d (unat (PDX a)))"
    by (rule tables_invD(9) [OF vm_invD(2) [OF kinvD(1) [OF k]] live(1)])
  moreover have "phys s (utable s ?d a) (unat (PTX a)) AND PTE_P = 0"
    using none umap_ukey [OF live(1)] by (auto simp: uspace_def upage_def ukey_def split: if_splits)
  ultimately show ?thesis
    using pde_ok_bits [of "phys s ?d (unat (PDX a))"]
    by (simp add: load_byte_def mmu_read_addr_def dir_entry [OF k e] Let_def utable_def pt_frame_def)
next
  case absent
  then show ?thesis by (simp add: load_byte_def mmu_read_addr_def dir_entry [OF k e] Let_def)
qed

lemma print_str_faults:
  assumes "\<And>i. i < n \<Longrightarrow> \<exists>b. load_byte s (user_dir s) (q + of_nat i) = Some b \<and> b \<noteq> 0"
    and "load_byte s (user_dir s) (q + of_nat n) = None"
  shows "print_str s q (int n) out = None"
  using assms
proof (induction n arbitrary: q out)
  case 0
  then show ?case by (subst print_str.simps) simp
next
  case (Suc n)
  obtain b where b: "load_byte s (user_dir s) q = Some b" "b \<noteq> 0" using Suc.prems(1) [of 0] by auto
  have "\<exists>b. load_byte s (user_dir s) ((q + 1) + of_nat i) = Some b \<and> b \<noteq> 0" if "i < n" for i
    using Suc.prems(1) [of "Suc i"] that by (simp add: add.assoc)
  moreover have "load_byte s (user_dir s) ((q + 1) + of_nat n) = None"
    using Suc.prems(2) by (simp add: add.assoc)
  ultimately have "print_str s (q + 1) (int n) (out @ [b]) = None" by (rule Suc.IH)
  with b show ?case by (subst print_str.simps) simp
qed

lemma sint_nat: "n < 2147483648 \<Longrightarrow> sint (of_nat n :: u32) = int n"
  by (simp add: signed_of_nat signed_take_bit_int_eq_self)

lemma cputs_panics:
  assumes k: "kinv s fl el" and c: "curenv s = Some c" "c \<in> live s"
    and dir: "user_dir s = env_pgdir (envs s c)" and p: "p \<noteq> 0" and n: "0 < n" "n < 2147483648"
    and top: "unat p + n < unat UTOP"
    and str: "\<And>i. i < n \<Longrightarrow> grants s c (PTE_U OR PTE_P) (p + of_nat i)
        \<and> load_byte s (user_dir s) (p + of_nat i) \<noteq> Some 0"
    and end': "uspace s c (upage (p + of_nat n)) = None"
  shows "sys_cputs p (of_nat n) s = Panic"
proof -
  have un: "unat (of_nat n :: u32) = n" using n(2) by (simp add: unat_of_nat)
  have perm: "(PTE_U OR PTE_U) OR PTE_P = PTE_U OR PTE_P" by (simp add: or.assoc)
  have all: "grants s c (PTE_U OR PTE_P) a" if "in_range p (of_nat n) a" for a
  proof -
    define i where "i = unat a - unat p"
    have i: "i < n" "unat p + i = unat a" using that un by (auto simp: in_range_def i_def)
    then have "p + of_nat i = a"
      using unat_u32_less [of a] n(2) by (simp add: word_unat_eq_iff unat_word_ariths unat_of_nat)
    with str [OF i(1)] show ?thesis by simp
  qed
  have um: "user_mem_assert c p (of_nat n) PTE_U s = Return () s"
  proof (cases rule: user_mem_check_env [OF k c(2), of "of_nat n" p "PTE_U OR PTE_U"])
    case 1
    show ?case using n un by simp
  next
    case 2
    show ?case using top un by simp
  next
    case 3
    then show ?thesis by (simp add: user_mem_assert_def of_result_def)
  next
    case (4 f)
    with all perm show ?thesis by auto
  qed
  have a: "p + of_nat n < UTOP"
    using top n(2) unat_u32_less [of p] by (simp add: word_less_nat_alt unat_word_ariths unat_of_nat unat_UTOP)
  have "\<exists>b. load_byte s (user_dir s) (p + of_nat i) = Some b \<and> b \<noteq> 0" if "i < n" for i
  proof -
    from str [OF that] obtain pte where "uspace s c (upage (p + of_nat i)) = Some pte" by (auto simp: grants_def)
    from mmu_read_user [OF k c(2) this] str [OF that] show ?thesis by (auto simp: load_byte_def dir)
  qed
  then have "print_str s p (int n) [] = None"
    using mmu_read_unmapped [OF k c(2) a end'] dir by (intro print_str_faults) simp_all
  then show ?thesis
    using um p n by (simp add: sys_cputs_def with_cur_def c(1) print_user_def sint_nat)
qed

section \<open>Sample states in user mode\<close>

lemma sample_refs_at: "refs_free (sample_at i j)"
  by (simp add: refs_free_def sample_at_def)

text \<open>An environment with one page, running on CPU 0.\<close>

definition sample_user :: "nat \<Rightarrow> nat \<Rightarrow> u32 \<Rightarrow> kern" where
  "sample_user i j upcall =
     set_env 0 (\<lambda>v. v\<lparr>env_pgfault_upcall := upcall\<rparr>) ((sample_at i j)\<lparr>kernel_lock := None\<rparr>)"

lemma sample_user_ok:
  assumes i: "i < NPDU" and j: "j < 1024"
  shows "user_mode (owned (sample_at i j) [4, 5] {1, 2}) 0 (sample_user i j f)"
    and "refs_free (sample_user i j f)" and "env_status (envs (sample_user i j f) 0) = ENV_RUNNING"
    and "uspace (sample_user i j f) 0 = [(i, j) \<mapsto> 0x6007]"
    and "env_pgfault_upcall (envs (sample_user i j f) 0) = f"
proof -
  note facts = sample_at_facts [OF i j]
  have ss: "same_spaces (sample_at i j) (sample_user i j f)"
    by (simp add: sample_user_def same_spaces_def set_env_def)
  have "sys_ok (owned (sample_at i j) [4, 5] {1, 2}) (sample_at i j)"
    using sample_at_kinv [OF i j] facts(2) by (auto simp: sys_ok_def)
  moreover have "curenv (sample_user i j f) = Some 0"
    "user_dir (sample_user i j f) = env_pgdir (envs (sample_user i j f) 0)"
    using facts(3,6) by (simp_all add: curenv_def user_dir_def sample_user_def)
  moreover have "kernel_lock (sample_user i j f) = None"
    "cpu_status (cpus (sample_user i j f) (this_cpu (sample_user i j f))) \<noteq> CPU_HALTED"
    by (simp_all add: sample_user_def sample_at_def sample_kern_def)
  ultimately show "user_mode (owned (sample_at i j) [4, 5] {1, 2}) 0 (sample_user i j f)"
    using same_spacesD(1) [OF ss] facts(1) same_spaces_sys [OF ss] by (simp add: user_mode_def)
  show "uspace (sample_user i j f) 0 = [(i, j) \<mapsto> 0x6007]"
    using same_spacesD(5) [OF ss] facts(5) by simp
  show "refs_free (sample_user i j f)" "env_status (envs (sample_user i j f) 0) = ENV_RUNNING"
    "env_pgfault_upcall (envs (sample_user i j f) 0) = f"
    using sample_refs_at [of i j]
    unfolding refs_free_def sample_user_def by (simp_all add: sample_at_def sample_kern_def)
qed

text \<open>A second environment, created by \<open>env_alloc\<close>.\<close>

definition sample_two :: kern where
  "sample_two = (snd (the (env_alloc 0 sample_kern)))\<lparr>cr3 := frame_addr 2, kernel_lock := None\<rparr>"

lemma sample_two_ok:
  "user_mode (owned sample_kern [3, 4, 5] {1, 2}) 0 sample_two"
  "env_status (envs sample_two 0) = ENV_RUNNING" "env_status (envs sample_two 1) = ENV_RUNNABLE"
proof -
  have "[1..<1024] = 1 # [Suc 1..<1024]" by (rule upt_conv_Cons) simp
  then have k: "kinv sample_kern [3, 4, 5] (1 # [Suc 1..<1024])" using sample_kinv by (simp only:)
  obtain s' where s': "env_alloc 0 sample_kern = Some (Inr 1, s')" "kinv s' [4, 5] [Suc 1..<1024]"
    "envs s' = (envs sample_kern)(1 := fresh_env 1 0 3 (envs sample_kern 1))"
    "live s' = insert 1 (live sample_kern)"
    "owned s' [4, 5] (dirs s') = owned sample_kern [3, 4, 5] (dirs sample_kern)"
    "cpus s' = cpus sample_kern" "this_cpu s' = this_cpu sample_kern"
    using env_alloc_spec [OF k, of 0] by blast
  have eq: "sample_two = s'\<lparr>cr3 := frame_addr 2, kernel_lock := None\<rparr>"
    by (simp add: sample_two_def s'(1))
  have ss: "same_spaces s' sample_two" by (simp add: eq same_spaces_def)
  have "sys_ok (owned sample_kern [3, 4, 5] {1, 2}) s'"
    using s'(2,5) sample_dirs by (auto simp: sys_ok_def)
  moreover have "curenv sample_two = Some 0" using s'(6,7) sample_cpu(2) by (simp add: curenv_def eq)
  moreover have "kernel_lock sample_two = None" "cpu_status (cpus sample_two (this_cpu sample_two)) \<noteq> CPU_HALTED"
    using s'(6,7) by (simp_all add: eq sample_kern_def)
  moreover have "user_dir sample_two = env_pgdir (envs sample_two 0)"
    using s'(3) by (simp add: eq user_dir_def sample_kern_def frame_kva_def)
  ultimately show "user_mode (owned sample_kern [3, 4, 5] {1, 2}) 0 sample_two"
    using same_spacesD(1) [OF ss] s'(4) sample_dirs same_spaces_sys [OF ss] by (simp add: user_mode_def)
  show "env_status (envs sample_two 0) = ENV_RUNNING" "env_status (envs sample_two 1) = ENV_RUNNABLE"
    using s'(3) by (simp_all add: eq) (simp add: sample_kern_def)
qed

section \<open>Properties\<close>

text \<open>C18. A valid \<open>sys_page_map\<close> (permissions with \<open>PTE_U\<close> and \<open>PTE_P\<close>, and no bit outside \<open>PTE_SYSCALL\<close>)
  of a mapped source page refuses to add write permission to a
  read-only mapping with \<open>-E_INVAL\<close>; otherwise it maps the same frame at the destination
  with the requested permissions and leaves every other environment and the contents of all
  mapped pages alone, or reports \<open>-E_NO_MEM\<close>, changing nothing, when no page is free.\<close>

theorem sys_page_map_shares:
  assumes "kinv s fl el" and "envid2env srcid True s = Some (Inr (Some x))" and "x \<in> live s"
    and "envid2env dstid True s = Some (Inr (Some e))" and "e \<in> live s"
    and "srcva < UTOP" and "PGOFF srcva = 0" and "dstva < UTOP" and "PGOFF dstva = 0"
    and "perm AND NOT PTE_SYSCALL = 0" and "uspace s x (upage srcva) = Some pte" and "refs_free s"
    and "perm AND (PTE_U OR PTE_P) = PTE_U OR PTE_P"
  shows "if perm AND PTE_W \<noteq> 0 \<and> pte AND PTE_W = 0
    then sys_page_map srcid srcva dstid dstva perm s = Return (Inl E_INVAL) s
    else (\<exists>s' fl'. sys_page_map srcid srcva dstid dstva perm s = Return (Inr 0) s' \<and> kinv s' fl' el
        \<and> uspace s' e = (uspace s e)(upage dstva \<mapsto> frame_addr (unat (PGNUM pte)) OR perm)
        \<and> untouched {e} s s' \<and> envs s' = envs s)
      \<or> fl = [] \<and> sys_page_map srcid srcva dstid dstva perm s = Return (Inl E_NO_MEM) s"
  using sys_page_map_run [OF assms(1-11)] assms(12) pm_frameD(2) unfolding or.assoc perm_present [OF assms(13)]
  by (auto simp: refs_free_def split: if_splits)

theorem sys_page_map_shares_witness:
  "if (7 :: u32) AND PTE_W \<noteq> 0 \<and> 0x6007 AND PTE_W = 0
    then sys_page_map 0 0x800000 0 0x801000 7 sample_mapped = Return (Inl E_INVAL) sample_mapped
    else (\<exists>s' fl'. sys_page_map 0 0x800000 0 0x801000 7 sample_mapped = Return (Inr 0) s'
        \<and> kinv s' fl' [1..<1024]
        \<and> uspace s' 0 = (uspace sample_mapped 0)(upage 0x801000 \<mapsto> frame_addr (unat (PGNUM 0x6007)) OR 7)
        \<and> untouched {0} sample_mapped s' \<and> envs s' = envs sample_mapped)
      \<or> [4, 5 :: nat] = [] \<and> sys_page_map 0 0x800000 0 0x801000 7 sample_mapped = Return (Inl E_NO_MEM) sample_mapped"
proof (rule sys_page_map_shares [OF sample_mapped_kinv])
  show "envid2env 0 True sample_mapped = Some (Inr (Some 0))"
    by (simp add: envid2env_def sample_mapped_facts)
  then show "envid2env 0 True sample_mapped = Some (Inr (Some 0))" .
  show "uspace sample_mapped 0 (upage 0x800000) = Some 0x6007"
    by (simp add: sample_mapped_facts upage_def PDX_def PTX_def drop_bit_eq_div take_bit_eq_mod)
  show "refs_free sample_mapped" unfolding sample_mapped_def by (rule sample_refs_at)
qed (simp_all add: sample_mapped_facts layout_values PGOFF_def PTE_SYSCALL_def PTE_AVAIL_def PTE_P_def PTE_W_def PTE_U_def)

text \<open>C19. \<open>sys_cputs\<close> reads one byte past the string it checked: when the \<open>n\<close> bytes at \<open>p\<close>
  are readable user memory without a zero byte and the page after them is not mapped, the
  system call makes the kernel panic.\<close>

theorem sys_cputs_overread:
  assumes "kinv s fl el" and "curenv s = Some c" and "c \<in> live s"
    and "user_dir s = env_pgdir (envs s c)" and "p \<noteq> 0" and "0 < n" and "n < 2147483648"
    and "unat p + n < unat UTOP"
    and "\<And>i. i < n \<Longrightarrow> grants s c (PTE_U OR PTE_P) (p + of_nat i)
        \<and> load_byte s (user_dir s) (p + of_nat i) \<noteq> Some 0"
    and "uspace s c (upage (p + of_nat n)) = None"
  shows "sys_cputs p (of_nat n) s = Panic"
  using assms by (rule cputs_panics)

lemma sample_mapped_page:
  assumes "i < 4096" shows "upage (0x800000 + of_nat i) = (2, 0)"
    and "grants sample_mapped 0 (PTE_U OR PTE_P) (0x800000 + of_nat i)"
    and "load_byte sample_mapped (user_dir sample_mapped) (0x800000 + of_nat i) \<noteq> Some 0"
proof -
  show u: "upage (0x800000 + of_nat i) = (2, 0)"
    using sample_mapped_writable [OF assms]
    by (auto simp: writable_def sample_mapped_facts split: if_splits)
  then show "grants sample_mapped 0 (PTE_U OR PTE_P) (0x800000 + of_nat i)"
    by (simp add: grants_def sample_mapped_facts PTE_U_def PTE_P_def)
  have us: "uspace sample_mapped 0 (upage (0x800000 + of_nat i)) = Some 0x6007" using u by (simp add: sample_mapped_facts)
  have ph: "phys sample_mapped 6 = (\<lambda>_. 0x41414141)" by (simp add: sample_mapped_def sample_at_def)
  have gb: "get_byte b 0x41414141 = 0x41" if "b < 4" for b
  proof -
    from that consider "b = 0" | "b = 1" | "b = 2" | "b = 3" by linarith
    then show ?thesis by cases (simp_all add: get_byte_def drop_bit_eq_div)
  qed
  show "load_byte sample_mapped (user_dir sample_mapped) (0x800000 + of_nat i) \<noteq> Some 0"
    using mmu_read_user [OF sample_mapped_kinv _ us] ph gb
    by (simp add: sample_mapped_facts load_byte_def unat_PGNUM)
qed

theorem sys_cputs_overread_witness: "sys_cputs 0x800000 (of_nat 4096) sample_mapped = Panic"
proof (rule sys_cputs_overread [OF sample_mapped_kinv])
  show "grants sample_mapped 0 (PTE_U OR PTE_P) (0x800000 + of_nat i)
      \<and> load_byte sample_mapped (user_dir sample_mapped) (0x800000 + of_nat i) \<noteq> Some 0" if "i < 4096" for i
    using sample_mapped_page [OF that] by simp
  have "upage (0x800000 + of_nat 4096) = (2, 1)"
    by (simp add: upage_def PDX_def PTX_def drop_bit_eq_div take_bit_eq_mod)
  then show "uspace sample_mapped 0 (upage (0x800000 + of_nat 4096)) = None" by (simp add: sample_mapped_facts)
qed (simp_all add: sample_mapped_facts unat_UTOP)

text \<open>C20. A trap taken in user mode, with any trap number, registers and device input,
  except for the system calls \<open>SYS_cputs\<close> and \<open>SYS_env_set_trapframe\<close>, on a CPU whose current
  environment is in use with its directory loaded, while the kernel lock is free and no
  reference count is exhausted, ends: the CPU is in user mode again, halted or in
  the kernel monitor, never in a panic and never with the lock taken twice, and the kernel
  invariant holds with the same set of accounted frames.\<close>

theorem trap_safe:
  assumes "user_mode Own c s" and "refs_free s" and "tf_cs tf AND 3 = 3"
    and "tf_trapno tf = T_SYSCALL \<longrightarrow> reg_eax (tf_regs tf) \<noteq> 0 \<and> reg_eax (tf_regs tf) \<noteq> 9"
  shows "ends (\<lambda>_ _. False) (sys_ok Own) (trap dev tf s)"
  using assms by (rule trap_ends)

theorem trap_safe_witness:
  "ends (\<lambda>_ _. False) (sys_ok (owned (sample_at 2 0) [4, 5] {1, 2}))
     (trap \<lparr>dev_serial = [], dev_kbd = [], dev_cr2 = 0\<rparr> (zero_tf\<lparr>tf_cs := 0x1B, tf_trapno := 13\<rparr>)
        (sample_user 2 0 0))"
  by (rule trap_safe [OF sample_user_ok(1,2) [OF sample_slot]]) (simp_all add: T_SYSCALL_def)

text \<open>C21. A page fault in user mode whose environment has a handler and a writable exception
  stack with room for the frame is delivered: the CPU returns to user mode in the same environment
  at the handler, with the stack pointer at a frame that starts 52 bytes below \<open>UXSTACKTOP\<close>, or,
  when the fault happened on the exception stack, 52 bytes and one scratch word below the
  trap-time stack pointer. The 13 words of the frame are the faulting address, the error code, the
  eight registers, \<open>eip\<close>, \<open>eflags\<close> and \<open>esp\<close> at the time of the fault, in this order. No
  address space has changed.\<close>

theorem page_fault_upcall:
  assumes um: "user_mode Own c s" and st: "env_status (envs s c) \<noteq> ENV_DYING"
    and cs: "tf_cs tf AND 3 = 3" and no: "tf_trapno tf = T_PGFLT"
    and up: "env_pgfault_upcall (envs s c) \<noteq> 0"
    and u: "u = (if 0xEEBFF000 \<le> tf_esp tf \<and> tf_esp tf < 0xEEC00000 then tf_esp tf - 56 else 0xEEBFFFCC)"
    and room: "0xEEBFF000 \<le> u"
    and g: "\<And>a. in_range u 52 a \<Longrightarrow> grants s c 7 a"
  shows "\<exists>s'. trap dev tf s = EnterUser s' \<and> sys_ok Own s' \<and> curenv s' = Some c \<and> uspace s' = uspace s
    \<and> env_tf (envs s' c) = tf\<lparr>tf_eip := env_pgfault_upcall (envs s c), tf_esp := u\<rparr>
    \<and> map (\<lambda>i. load_word s' (env_pgdir (envs s c)) (u + of_nat (4 * i))) [0..<13]
       = map Some [dev_cr2 dev, tf_err tf, reg_edi (tf_regs tf), reg_esi (tf_regs tf), reg_ebp (tf_regs tf),
           reg_oesp (tf_regs tf), reg_ebx (tf_regs tf), reg_edx (tf_regs tf), reg_ecx (tf_regs tf),
           reg_eax (tf_regs tf), tf_eip tf, tf_eflags tf, tf_esp tf]"
proof -
  let ?s = "entered tf c s" and ?w = "utf_words (dev_cr2 dev) tf"
  have ua: "u = utf_addr tf" unfolding u by (rule utf_addr_eq)
  note g = g [unfolded ua]
  note en = entered_spec [OF um, of tf]
  have env: "env_pgfault_upcall (envs ?s c) = env_pgfault_upcall (envs s c)" "env_tf (envs ?s c) = tf"
    "env_pgdir (envs ?s c) = env_pgdir (envs s c)" by (simp_all add: entered_def)
  from en(2) obtain fl el where k: "kinv ?s fl el" and o: "owned ?s fl (dirs ?s) = Own" by (auto simp: sys_ok_def)
  have cl: "c \<in> live ?s" using en(3,4) by (simp add: cpu_ok_def)
  have us: "uspace ?s = uspace s" by (rule same_spacesD(5) [OF en(1)])
  then have g': "grants ?s c 7 a" if "in_range (utf_addr tf) 52 a" for a
    using g [OF that] by (simp add: grants_def)
  have top: "unat (utf_addr tf) + unat (52 :: u32) \<le> unat UTOP" using unat_utf_addr(1) [of tf] by simp
  have um': "user_mem_assert c (utf_addr tf) 52 (PTE_P OR PTE_W) ?s = Return () ?s"
  proof (cases rule: user_mem_check_env [OF k cl unat_utf_addr(2) top, of "(PTE_P OR PTE_W) OR PTE_U"])
    case 1
    then show ?thesis by (simp add: user_mem_assert_def of_result_def)
  next
    case (2 f)
    then show ?thesis using g' by (simp add: or.assoc [symmetric] perm_W [unfolded or.assoc [symmetric]])
  qed
  obtain s2 s' where r:
    "store_bytes (user_dir ?s) (utf_addr tf) (word_bytes (utf_words (dev_cr2 dev) tf)) 52 ?s = Some s2"
    "env_run c (set_env c (\<lambda>v. v\<lparr>env_tf := (env_tf v)\<lparr>tf_eip := env_pgfault_upcall v,
           tf_esp := utf_addr tf\<rparr>\<rparr>) s2) = EnterUser s'"
    "kinv s' fl el" "owned s' fl (dirs s') = owned ?s fl (dirs ?s)" "uspace s' = uspace ?s" "curenv s' = Some c"
    "env_tf (envs s' c) = (env_tf (envs ?s c))\<lparr>tf_eip := env_pgfault_upcall (envs ?s c), tf_esp := utf_addr tf\<rparr>"
    "\<And>i. i < 52 \<Longrightarrow> load_byte s' (env_pgdir (envs ?s c)) (utf_addr tf + of_nat i)
       = Some (word_bytes (utf_words (dev_cr2 dev) tf) i)"
    by (rule fault_frame [where tf = tf and va = "dev_cr2 dev", OF k en(3-5)]) (erule g', rule that)
  have "page_fault_handler (dev_cr2 dev) tf ?s = EnterUser s'"
    using cs up r(1,2) um' by (simp add: page_fault_handler_def with_cur_def en(4) env(1) Let_def of_state_def)
  then have "trap dev tf s = EnterUser s'"
    using no by (simp add: trap_user [OF um cs st] trap_dispatch_def T_BRKPT_def T_PGFLT_def)
  moreover have "sys_ok Own s'" using r(3,4) o by (auto simp: sys_ok_def)
  moreover have "load_word s' (env_pgdir (envs s c)) (u + of_nat (4 * i)) = Some (?w ! i)" if "i < 13" for i
    using r(8) that env(3) by (intro load_word_stored) (simp_all add: ua utf_words_length)
  then have "map (\<lambda>i. load_word s' (env_pgdir (envs s c)) (u + of_nat (4 * i))) [0..<13] = map Some ?w"
    by (intro nth_equalityI) (simp_all add: utf_words_length)
  ultimately show ?thesis
    using r(5-7) us env unfolding utf_words_def by (intro exI [of _ s'] conjI) (simp_all add: ua)
qed

lemma xstack_slot: "954 < NPDU" "1023 < (1024 :: nat)"
  by (simp_all add: NPDU_eq)

lemma sample_xstack_grants:
  assumes "in_range (utf_addr zero_tf) 52 a" shows "grants (sample_user 954 1023 f) 0 7 a"
proof -
  have "unat (utf_addr zero_tf) = 4005560268"
    by (simp add: utf_addr_def zero_tf_def layout_values PGSIZE_def)
  with assms have a: "4005560268 \<le> unat a" "unat a < 4005560320" by (simp_all add: in_range_def)
  then have "unat a div 4194304 = 954" "unat a div 4096 = 977919"
    by (auto intro!: div_nat_eqI)
  then have "upage a = (954, 1023)" by (simp add: upage_def unat_PDX unat_PTX)
  then show ?thesis by (simp add: grants_def sample_user_ok(4) [OF xstack_slot])
qed

theorem page_fault_upcall_witness:
  "\<exists>s'. trap \<lparr>dev_serial = [], dev_kbd = [], dev_cr2 = 0x1234\<rparr> (zero_tf\<lparr>tf_cs := 0x1B, tf_trapno := 14, tf_eip := 0x800099\<rparr>)
        (sample_user 954 1023 0x800020) = EnterUser s' \<and> curenv s' = Some 0
    \<and> map (\<lambda>i. load_word s' (env_pgdir (envs (sample_user 954 1023 0x800020) 0)) (0xEEBFFFCC + of_nat (4 * i))) [0..<13]
       = map Some [0x1234, 0, 0, 0, 0, 0, 0, 0, 0, 0, 0x800099, 0, 0]"
proof -
  let ?tf = "zero_tf\<lparr>tf_cs := 0x1B, tf_trapno := 14, tf_eip := 0x800099\<rparr>"
  have esp: "utf_addr zero_tf = 0xEEBFFFCC" by (simp add: utf_addr_def zero_tf_def layout_values PGSIZE_def)
  have g: "grants (sample_user 954 1023 0x800020) 0 7 a" if "in_range 0xEEBFFFCC 52 a" for a
    using that unfolding esp [symmetric] by (rule sample_xstack_grants)
  show ?thesis
    using page_fault_upcall [OF sample_user_ok(1) [OF xstack_slot, of "0x800020"], where tf = ?tf and u = "0xEEBFFFCC"
        and dev = "\<lparr>dev_serial = [], dev_kbd = [], dev_cr2 = 0x1234\<rparr>"] g
    by (auto simp: sample_user_ok(3,5) [OF xstack_slot] T_PGFLT_def zero_tf_def zero_regs_def)
qed

text \<open>C22. No starvation: while the running environment is interrupted by the timer alone, every
  runnable environment \<open>e\<close> gets the CPU after at most as many timer interrupts as there are
  slots from the current environment to \<open>e\<close> (fewer than \<open>NENV\<close>).\<close>

theorem timer_no_starvation:
  assumes "user_mode Own c s" and "env_status (envs s c) = ENV_RUNNING" and "c < NENV"
    and "e < NENV" and "env_status (envs s e) = ENV_RUNNABLE" and "timer_frame tf"
  shows "\<exists>n s'. n \<le> ahead c e \<and> ticks dev tf n s = Some s' \<and> curenv s' = Some e
    \<and> env_status (envs s' e) = ENV_RUNNING"
  using assms by (rule timer_turn)

theorem timer_no_starvation_witness:
  "\<exists>n s'. n \<le> ahead 0 1
    \<and> ticks \<lparr>dev_serial = [], dev_kbd = [], dev_cr2 = 0\<rparr> (zero_tf\<lparr>tf_cs := 0x1B, tf_trapno := 32\<rparr>) n sample_two
        = Some s' \<and> curenv s' = Some 1 \<and> env_status (envs s' 1) = ENV_RUNNING"
  by (rule timer_no_starvation [OF sample_two_ok(1,2)])
    (simp_all add: sample_two_ok(3) [simplified] NENV_def timer_frame_def IRQ_OFFSET_def IRQ_TIMER_def)

text \<open>The kernel stacks of the CPUs that JOS supports (at most 8) are disjoint, each below
  the guard gap of the one above it and all within the kernel's stack area, and each CPU has
  a task selector that addresses its own descriptor.\<close>

theorem kernel_stacks_disjoint:
  assumes "i < j" and "j < 8"
  shows "unat (ts_esp0 (trap_init_percpu j)) + unat KSTKGAP \<le> unat (ts_esp0 (trap_init_percpu i)) - unat KSTKSIZE
    \<and> unat MMIOLIM + unat KSTKSIZE \<le> unat (ts_esp0 (trap_init_percpu j))
    \<and> task_selector (trap_init_percpu j) = gdt_index (trap_init_percpu j) * 8
    \<and> task_selector (trap_init_percpu i) \<noteq> task_selector (trap_init_percpu j)"
proof (intro conjI)
  have esp: "unat (ts_esp0 (trap_init_percpu k)) = 4026531840 - k * 65536" if "k < 8" for k
  proof -
    have "of_nat k * (KSTKSIZE + KSTKGAP) = (of_nat (k * 65536) :: u32)" by (simp add: KSTKSIZE_def KSTKGAP_def PGSIZE_def)
    moreover have "unat (of_nat (k * 65536) :: u32) = k * 65536" using that by (subst unat_of_nat) simp
    ultimately show ?thesis
      using that by (simp add: trap_init_percpu_def unat_sub word_le_nat_alt layout_values)
  qed
  have c: "unat KSTKGAP = 32768" "unat KSTKSIZE = 32768" "unat MMIOLIM = 4022337536"
    by (simp_all add: KSTKSIZE_def KSTKGAP_def PGSIZE_def layout_values)
  show "unat (ts_esp0 (trap_init_percpu j)) + unat KSTKGAP \<le> unat (ts_esp0 (trap_init_percpu i)) - unat KSTKSIZE"
    "unat MMIOLIM + unat KSTKSIZE \<le> unat (ts_esp0 (trap_init_percpu j))"
    using assms by (simp_all add: esp c)
  show "task_selector (trap_init_percpu j) = gdt_index (trap_init_percpu j) * 8"
  proof -
    have "drop_bit 3 GD_TSS0 = 5" by (simp add: GD_TSS0_def)
    then show ?thesis by (simp add: trap_init_percpu_def) (simp add: GD_TSS0_def algebra_simps)
  qed
  have "unat (task_selector (trap_init_percpu k)) = 40 + 8 * k" if "k < 8" for k
    using that by (simp add: trap_init_percpu_def GD_TSS0_def unat_word_ariths unat_of_nat)
  from this [of i] this [of j] assms
  show "task_selector (trap_init_percpu i) \<noteq> task_selector (trap_init_percpu j)" by auto
qed

theorem kernel_stacks_disjoint_witness:
  "unat (ts_esp0 (trap_init_percpu 3)) + unat KSTKGAP \<le> unat (ts_esp0 (trap_init_percpu 0)) - unat KSTKSIZE
    \<and> unat MMIOLIM + unat KSTKSIZE \<le> unat (ts_esp0 (trap_init_percpu 3))
    \<and> task_selector (trap_init_percpu 3) = gdt_index (trap_init_percpu 3) * 8
    \<and> task_selector (trap_init_percpu 0) \<noteq> task_selector (trap_init_percpu 3)"
  by (rule kernel_stacks_disjoint) simp_all

end
