(* ===== verification/Idt.thy ===== *)
theory Idt
  imports Trap
begin

text \<open>
  How a trap reaches \<open>trap\<close>: the gates that \<open>trap_init\<close> (\<open>kern/trap.c\<close>) packs into the
  interrupt descriptor table with \<open>SETGATE\<close> (\<open>inc/mmu.h\<close>), and the entry points of
  \<open>kern/trapentry.S\<close> that complete the trap frame on the kernel stack. The addresses that the
  linker gives to the entry points are a parameter.
\<close>

section \<open>Gates\<close>

record Gatedesc =
  gd_off_15_0 :: u16
  gd_sel :: u16
  gd_args :: "5 word"
  gd_rsv1 :: "3 word"
  gd_type :: "4 word"
  gd_s :: "1 word"
  gd_dpl :: "2 word"
  gd_p :: "1 word"
  gd_off_31_16 :: u16

definition STS_IG32 :: "4 word" where "STS_IG32 = 0xE"
definition STS_TG32 :: "4 word" where "STS_TG32 = 0xF"

definition SETGATE :: "bool \<Rightarrow> u16 \<Rightarrow> u32 \<Rightarrow> nat \<Rightarrow> Gatedesc" where
  "SETGATE istrap sel off dpl =
     \<lparr>gd_off_15_0 = ucast (off AND 0xFFFF), gd_sel = sel, gd_args = 0, gd_rsv1 = 0,
      gd_type = (if istrap then STS_TG32 else STS_IG32), gd_s = 0, gd_dpl = of_nat dpl, gd_p = 1,
      gd_off_31_16 = ucast (drop_bit 16 off)\<rparr>"

text \<open>The symbols of the entry points: \<open>trap_n\<close> and \<open>irq_n\<close>.\<close>

datatype symbol = Trap_sym nat | Irq_sym nat

definition trap_init :: "(symbol \<Rightarrow> u32) \<Rightarrow> (nat \<Rightarrow> Gatedesc) \<Rightarrow> nat \<Rightarrow> Gatedesc" where
  "trap_init addr idt =
     (let istrap = False; ring_0 = 0; ring_3 = 3;
          idt = idt(0 := SETGATE istrap GD_KT (addr (Trap_sym 0)) ring_0);
          idt = idt(1 := SETGATE istrap GD_KT (addr (Trap_sym 1)) ring_0);
          idt = idt(2 := SETGATE istrap GD_KT (addr (Trap_sym 2)) ring_0);
          idt = idt(3 := SETGATE istrap GD_KT (addr (Trap_sym 3)) ring_3);
          idt = idt(4 := SETGATE istrap GD_KT (addr (Trap_sym 4)) ring_0);
          idt = idt(5 := SETGATE istrap GD_KT (addr (Trap_sym 5)) ring_0);
          idt = idt(6 := SETGATE istrap GD_KT (addr (Trap_sym 6)) ring_0);
          idt = idt(7 := SETGATE istrap GD_KT (addr (Trap_sym 7)) ring_0);
          idt = idt(8 := SETGATE istrap GD_KT (addr (Trap_sym 8)) ring_0);
          idt = idt(10 := SETGATE istrap GD_KT (addr (Trap_sym 10)) ring_0);
          idt = idt(11 := SETGATE istrap GD_KT (addr (Trap_sym 11)) ring_0);
          idt = idt(12 := SETGATE istrap GD_KT (addr (Trap_sym 12)) ring_0);
          idt = idt(13 := SETGATE istrap GD_KT (addr (Trap_sym 13)) ring_0);
          idt = idt(14 := SETGATE istrap GD_KT (addr (Trap_sym 14)) ring_0);
          idt = idt(16 := SETGATE istrap GD_KT (addr (Trap_sym 16)) ring_0);
          idt = idt(17 := SETGATE istrap GD_KT (addr (Trap_sym 17)) ring_0);
          idt = idt(18 := SETGATE istrap GD_KT (addr (Trap_sym 18)) ring_0);
          idt = idt(19 := SETGATE istrap GD_KT (addr (Trap_sym 19)) ring_0);
          idt = idt(32 := SETGATE istrap GD_KT (addr (Irq_sym 0)) ring_0);
          idt = idt(48 := SETGATE istrap GD_KT (addr (Trap_sym 48)) ring_3);
          idt = idt(33 := SETGATE istrap GD_KT (addr (Irq_sym 1)) ring_0)
      in idt(36 := SETGATE istrap GD_KT (addr (Irq_sym 4)) ring_0))"

section \<open>Entry points\<close>

text \<open>Stacks are lists of words with the top first. \<open>TRAPHANDLER\<close> pushes the trap number and
  \<open>TRAPHANDLER_NOEC\<close> a zero before it.\<close>

definition TRAPHANDLER :: "u32 \<Rightarrow> u32 list \<Rightarrow> u32 list" where
  "TRAPHANDLER num st = num # st"

definition TRAPHANDLER_NOEC :: "u32 \<Rightarrow> u32 list \<Rightarrow> u32 list" where
  "TRAPHANDLER_NOEC num st = num # 0 # st"

definition trapentry :: "(symbol \<times> (u32 list \<Rightarrow> u32 list)) list" where
  "trapentry =
     [(Trap_sym 0, TRAPHANDLER_NOEC 0), (Trap_sym 1, TRAPHANDLER_NOEC 1), (Trap_sym 2, TRAPHANDLER_NOEC 2),
      (Trap_sym 3, TRAPHANDLER_NOEC 3), (Trap_sym 4, TRAPHANDLER_NOEC 4), (Trap_sym 5, TRAPHANDLER_NOEC 5),
      (Trap_sym 6, TRAPHANDLER_NOEC 6), (Trap_sym 7, TRAPHANDLER_NOEC 7),
      (Trap_sym 8, TRAPHANDLER 8), (Trap_sym 10, TRAPHANDLER 10), (Trap_sym 11, TRAPHANDLER 11),
      (Trap_sym 12, TRAPHANDLER 12), (Trap_sym 13, TRAPHANDLER 13), (Trap_sym 14, TRAPHANDLER 14),
      (Trap_sym 16, TRAPHANDLER_NOEC 16), (Trap_sym 17, TRAPHANDLER 17),
      (Trap_sym 18, TRAPHANDLER_NOEC 18), (Trap_sym 19, TRAPHANDLER_NOEC 19),
      (Irq_sym 0, TRAPHANDLER_NOEC (IRQ_OFFSET + IRQ_TIMER)), (Trap_sym 48, TRAPHANDLER_NOEC 48),
      (Irq_sym 1, TRAPHANDLER_NOEC (IRQ_OFFSET + IRQ_KBD)), (Irq_sym 4, TRAPHANDLER_NOEC (IRQ_OFFSET + IRQ_SERIAL))]"

text \<open>\<open>_alltraps\<close> up to the call of \<open>trap\<close>: the segment registers and \<open>pushal\<close>. \<open>oesp\<close> is the
  stack pointer that \<open>pushal\<close> stores.\<close>

definition alltraps :: "u32 \<Rightarrow> u32 \<Rightarrow> PushRegs \<Rightarrow> u32 list \<Rightarrow> u32 list" where
  "alltraps ds es r st =
     [reg_edi r, reg_esi r, reg_ebp r, reg_oesp r, reg_ebx r, reg_edx r, reg_ecx r, reg_eax r, es, ds] @ st"

text \<open>The processor's part: the address a gate leads to, the vectors for which it pushes an error
  code, and what it pushes when the trap comes from user mode.\<close>

definition gate_target :: "Gatedesc \<Rightarrow> u32" where
  "gate_target g = push_bit 16 (ucast (gd_off_31_16 g)) OR ucast (gd_off_15_0 g)"

definition error_code_vectors :: "nat set" where
  "error_code_vectors = {8, 10, 11, 12, 13, 14, 17}"

definition cpu_frame :: "nat \<Rightarrow> u32 \<Rightarrow> u32 \<Rightarrow> u32 \<Rightarrow> u32 \<Rightarrow> u32 \<Rightarrow> u32 \<Rightarrow> u32 list" where
  "cpu_frame v err eip cs eflags esp ss =
     (if v \<in> error_code_vectors then [err] else []) @ [eip, cs, eflags, esp, ss]"

text \<open>From a vector to the frame that \<open>trap\<close> reads: the processor follows the gate, the code at its
  target runs. \<open>None\<close>: the gate is not present or leads to no entry point.\<close>

definition enter :: "(symbol \<Rightarrow> u32) \<Rightarrow> (nat \<Rightarrow> Gatedesc) \<Rightarrow> nat \<Rightarrow> u32 list \<Rightarrow> u32 \<Rightarrow> u32 \<Rightarrow> PushRegs \<Rightarrow> Trapframe option" where
  "enter addr idt v st ds es r =
     (if gd_p (idt v) = 0 then None
      else map_option (\<lambda>(_, code). tf_of_bytes (word_bytes (alltraps ds es r (code st))))
             (find (\<lambda>(y, _). addr y = gate_target (idt v)) trapentry))"

section \<open>Following a gate\<close>

lemma gate_target_SETGATE: "gate_target (SETGATE istrap sel off dpl) = off"
proof (rule bit_word_eqI)
  have m: "(0xFFFF :: u32) = mask 16" by (simp add: mask_eq_exp_minus_1)
  fix n assume "n < LENGTH(32)"
  then show "bit (gate_target (SETGATE istrap sel off dpl)) n = bit off n"
    unfolding gate_target_def SETGATE_def m by (cases "n < 16") (auto simp: bit_simps)
qed

text \<open>The vectors with a gate, and the entry point of each.\<close>

definition gate_vectors :: "nat set" where
  "gate_vectors = {0, 1, 2, 3, 4, 5, 6, 7, 8, 10, 11, 12, 13, 14, 16, 17, 18, 19, 32, 33, 36, 48}"

definition gate_symbol :: "nat \<Rightarrow> symbol" where
  "gate_symbol v = (if 32 \<le> v \<and> v < 48 then Irq_sym (v - 32) else Trap_sym v)"

lemma trap_init_gate:
  "trap_init addr idt v =
     (if v \<in> gate_vectors then SETGATE False GD_KT (addr (gate_symbol v)) (if v = 3 \<or> v = 48 then 3 else 0) else idt v)"
proof (cases "v \<in> gate_vectors")
  case True
  then have "trap_init addr idt v = SETGATE False GD_KT (addr (gate_symbol v)) (if v = 3 \<or> v = 48 then 3 else 0)"
    unfolding gate_vectors_def by (elim insertE emptyE) (simp_all add: trap_init_def Let_def gate_symbol_def)
  with True show ?thesis by simp
next
  case False
  then show ?thesis by (simp add: trap_init_def Let_def gate_vectors_def)
qed

lemma trapentry_code:
  assumes "v \<in> gate_vectors"
  shows "(gate_symbol v, if v \<in> error_code_vectors then TRAPHANDLER (of_nat v) else TRAPHANDLER_NOEC (of_nat v)) \<in> set trapentry"
  using assms unfolding gate_vectors_def
  by (elim insertE emptyE) (simp_all add: gate_symbol_def error_code_vectors_def trapentry_def IRQ_OFFSET_def IRQ_TIMER_def IRQ_KBD_def IRQ_SERIAL_def)

lemma trapentry_distinct: "distinct (map fst trapentry)"
  by (simp add: trapentry_def)

lemma find_addr:
  assumes "distinct (map fst L)" and "inj_on addr (fst ` set L)" and "(y, code) \<in> set L"
  shows "find (\<lambda>(x, _). addr x = addr y) L = Some (y, code)"
  using assms
proof (induction L)
  case (Cons a L)
  show ?case
  proof (cases "a = (y, code)")
    case False
    then have m: "(y, code) \<in> set L" using Cons.prems(3) by simp
    then have y: "y \<in> fst ` set L" by force
    then have "addr (fst a) \<noteq> addr y" using Cons.prems(1,2) by auto
    then show ?thesis using Cons.IH Cons.prems(1,2) m by (simp add: split_beta)
  qed simp
qed simp

lemma le32_word: "le32 (word_bytes ws) (4 * i) = ws ! i"
  by (rule le32_bytes) (rule word_bytes_word)

lemma le16_word: "(ucast (le16 (word_bytes ws) (4 * i)) :: u16) = ucast (ws ! i)"
proof (rule bit_word_eqI)
  have b: "word_bytes ws (4 * i) = get_byte 0 (ws ! i)" "word_bytes ws (4 * i + 1) = get_byte 1 (ws ! i)"
    using word_bytes_word [of 0 ws i] word_bytes_word [of 1 ws i] by simp_all
  fix n assume "n < LENGTH(16)"
  then show "bit (ucast (le16 (word_bytes ws) (4 * i)) :: u16) n = bit (ucast (ws ! i) :: u16) n"
    unfolding le16_def b by (cases "n < 8") (auto simp: bit_simps get_byte_def)
qed

lemma tf_of_words:
  "tf_of_bytes (word_bytes [edi, esi, ebp, oesp, ebx, edx, ecx, eax, es, ds, num, err, eip, cs, eflags, esp, ss]) = tf
   \<Longrightarrow> tf_regs tf = \<lparr>reg_edi = edi, reg_esi = esi, reg_ebp = ebp, reg_oesp = oesp, reg_ebx = ebx, reg_edx = edx,
         reg_ecx = ecx, reg_eax = eax\<rparr> \<and> tf_es tf = ucast es \<and> tf_ds tf = ucast ds \<and> tf_trapno tf = num \<and> tf_err tf = err
     \<and> tf_eip tf = eip \<and> tf_cs tf = ucast cs \<and> tf_eflags tf = eflags \<and> tf_esp tf = esp \<and> tf_ss tf = ucast ss"
  (is "tf_of_bytes (word_bytes ?ws) = tf \<Longrightarrow> _")
proof -
  note w = le32_word [of ?ws 0] le32_word [of ?ws 1] le32_word [of ?ws 2] le32_word [of ?ws 3] le32_word [of ?ws 4]
    le32_word [of ?ws 5] le32_word [of ?ws 6] le32_word [of ?ws 7] le32_word [of ?ws 10] le32_word [of ?ws 11]
    le32_word [of ?ws 12] le32_word [of ?ws 14] le32_word [of ?ws 15]
    le16_word [of ?ws 8] le16_word [of ?ws 9] le16_word [of ?ws 13] le16_word [of ?ws 16]
  assume "tf_of_bytes (word_bytes ?ws) = tf"
  then show ?thesis using w by (auto simp: tf_of_bytes_def)
qed

section \<open>Property\<close>

text \<open>C23. After \<open>trap_init\<close> on an empty table, and with distinct addresses for the entry points of
  \<open>trapentry.S\<close>, exactly the 22 vectors of the processor exceptions, the timer, the keyboard, the serial
  line and the system call have a present gate. Each is an interrupt gate (interrupts off) into the kernel
  code segment, which user code may invoke only for the breakpoint and the system call, and it leads from
  user mode to \<open>trap\<close> with a frame that holds the vector as trap number, the error code that the processor
  pushed or zero where it pushes none, and the registers and segments of the interrupted program each in
  its own field.\<close>

theorem trap_entry_frame:
  assumes inj: "inj_on addr (fst ` set trapentry)" and z: "\<And>w. gd_p (idt0 w) = 0"
  shows "{v. gd_p (trap_init addr idt0 v) = 1} = {0..8} \<union> {10..14} \<union> {16..19} \<union> {32, 33, 36, 48}
    \<and> (\<forall>v. gd_p (trap_init addr idt0 v) = 1 \<longrightarrow>
         gd_type (trap_init addr idt0 v) = 0xE \<and> gd_sel (trap_init addr idt0 v) = GD_KT
       \<and> gd_dpl (trap_init addr idt0 v) = (if v = 3 \<or> v = 48 then 3 else 0)
       \<and> (\<exists>tf. enter addr (trap_init addr idt0) v (cpu_frame v err eip cs eflags esp ss) ds es r = Some tf
            \<and> tf_trapno tf = of_nat v \<and> tf_err tf = (if v \<in> {8, 10, 11, 12, 13, 14, 17} then err else 0)
            \<and> tf_regs tf = r \<and> tf_es tf = ucast es \<and> tf_ds tf = ucast ds \<and> tf_eip tf = eip
            \<and> tf_cs tf = ucast cs \<and> tf_eflags tf = eflags \<and> tf_esp tf = esp \<and> tf_ss tf = ucast ss))"
proof (intro conjI allI impI)
  have p: "gd_p (trap_init addr idt0 v) = 1 \<longleftrightarrow> v \<in> gate_vectors" for v
    using z by (simp add: trap_init_gate SETGATE_def)
  have "{0..8} = {0, 1, 2, 3, 4, 5, 6, 7, 8 :: nat}" "{10..14} = {10, 11, 12, 13, 14 :: nat}" "{16..19} = {16, 17, 18, 19 :: nat}"
    by auto
  then show "{v. gd_p (trap_init addr idt0 v) = 1} = {0..8} \<union> {10..14} \<union> {16..19} \<union> {32, 33, 36, 48}"
    unfolding p gate_vectors_def by auto
  fix v assume "gd_p (trap_init addr idt0 v) = 1"
  then have v: "v \<in> gate_vectors" by (simp add: p)
  then show "gd_type (trap_init addr idt0 v) = 0xE" "gd_sel (trap_init addr idt0 v) = GD_KT"
    "gd_dpl (trap_init addr idt0 v) = (if v = 3 \<or> v = 48 then 3 else 0)"
    by (simp_all add: trap_init_gate SETGATE_def STS_IG32_def)
  let ?code = "if v \<in> error_code_vectors then TRAPHANDLER (of_nat v) else TRAPHANDLER_NOEC (of_nat v)"
  let ?tf = "tf_of_bytes (word_bytes (alltraps ds es r (?code (cpu_frame v err eip cs eflags esp ss))))"
  have "enter addr (trap_init addr idt0) v (cpu_frame v err eip cs eflags esp ss) ds es r = Some ?tf"
    using find_addr [OF trapentry_distinct inj trapentry_code [OF v]] v
    by (simp add: enter_def trap_init_gate gate_target_SETGATE) (simp add: SETGATE_def)
  moreover have "?tf = tf_of_bytes (word_bytes [reg_edi r, reg_esi r, reg_ebp r, reg_oesp r, reg_ebx r, reg_edx r, reg_ecx r,
      reg_eax r, es, ds, of_nat v, if v \<in> error_code_vectors then err else 0, eip, cs, eflags, esp, ss])"
    by (simp add: alltraps_def cpu_frame_def TRAPHANDLER_def TRAPHANDLER_NOEC_def)
  note tf_of_words [OF this [symmetric]]
  ultimately show "\<exists>tf. enter addr (trap_init addr idt0) v (cpu_frame v err eip cs eflags esp ss) ds es r = Some tf
            \<and> tf_trapno tf = of_nat v \<and> tf_err tf = (if v \<in> {8, 10, 11, 12, 13, 14, 17} then err else 0)
            \<and> tf_regs tf = r \<and> tf_es tf = ucast es \<and> tf_ds tf = ucast ds \<and> tf_eip tf = eip
            \<and> tf_cs tf = ucast cs \<and> tf_eflags tf = eflags \<and> tf_esp tf = esp \<and> tf_ss tf = ucast ss"
    by (simp add: error_code_vectors_def)
qed

text \<open>The witness puts the entry points 16 bytes apart.\<close>

definition sample_addr :: "symbol \<Rightarrow> u32" where
  "sample_addr y = 0xF0104000 + 16 * (case y of Trap_sym n \<Rightarrow> of_nat n | Irq_sym n \<Rightarrow> of_nat (n + 32))"

definition zero_gate :: Gatedesc where
  "zero_gate = \<lparr>gd_off_15_0 = 0, gd_sel = 0, gd_args = 0, gd_rsv1 = 0, gd_type = 0, gd_s = 0, gd_dpl = 0, gd_p = 0, gd_off_31_16 = 0\<rparr>"

theorem trap_entry_frame_witness:
  "\<exists>tf. enter sample_addr (trap_init sample_addr (\<lambda>_. zero_gate)) 14 (cpu_frame 14 6 0x800020 0x1B 0x202 0xEEBFDFF0 0x23) 0x23 0x23 zero_regs
      = Some tf \<and> tf_trapno tf = 14 \<and> tf_err tf = 6 \<and> tf_eip tf = 0x800020 \<and> tf_esp tf = 0xEEBFDFF0"
proof -
  have "inj_on sample_addr (fst ` set trapentry)"
    by (simp add: trapentry_def sample_addr_def)
  moreover have "gd_p ((\<lambda>_. zero_gate) w) = 0" for w :: nat by (simp add: zero_gate_def)
  ultimately show ?thesis
    using trap_entry_frame [of sample_addr "\<lambda>_. zero_gate", where err = 6 and eip = "0x800020" and cs = "0x1B"
        and eflags = "0x202" and esp = "0xEEBFDFF0" and ss = "0x23" and ds = "0x23" and es = "0x23" and r = zero_regs]
    by (auto dest!: spec [of _ 14] simp: trap_init_gate gate_vectors_def SETGATE_def)
qed

end
