(* ===== verification/Strings.thy ===== *)
theory Strings
  imports Jos_Prelude
begin

text \<open>
  The string library (\<open>lib/string.c\<close>), which the kernel and the user programs share. Memory is a
  total map from 32-bit addresses to bytes (address translation and its faults are the matter of
  the kernel theories); a loop that may run forever, because no zero byte stops it, is a partial
  function. The theorems relate the functions to lists of bytes and to the copy of a block.
\<close>

section \<open>Strings in memory\<close>

type_synonym mem = "u32 \<Rightarrow> u8"

text \<open>The zero-terminated string at \<open>p\<close> is \<open>xs\<close>; and the bytes \<open>xs\<close> written at \<open>p\<close>.\<close>

primrec cstr :: "mem \<Rightarrow> u32 \<Rightarrow> u8 list \<Rightarrow> bool" where
  "cstr m p [] \<longleftrightarrow> m p = 0"
| "cstr m p (x # xs) \<longleftrightarrow> m p = x \<and> x \<noteq> 0 \<and> cstr m (p + 1) xs"

primrec mem_put :: "u32 \<Rightarrow> u8 list \<Rightarrow> mem \<Rightarrow> mem" where
  "mem_put p [] m = m"
| "mem_put p (b # bs) m = mem_put (p + 1) bs (m(p := b))"

definition span :: "u32 \<Rightarrow> nat \<Rightarrow> u32 set" where
  "span p n = (\<lambda>i. p + of_nat i) ` {..<n}"

section \<open>Length\<close>

partial_function (option) strlen_loop :: "mem \<Rightarrow> u32 \<Rightarrow> u32 \<Rightarrow> u32 option" where
  "strlen_loop m s n = (if m s \<noteq> 0 then strlen_loop m (s + 1) (n + 1) else Some n)"

definition strlen :: "mem \<Rightarrow> u32 \<Rightarrow> u32 option" where
  "strlen m s = strlen_loop m s 0"

text \<open>A loop that counts a \<open>size_t\<close> down recurses on its value.\<close>

primrec strnlen_loop :: "nat \<Rightarrow> mem \<Rightarrow> u32 \<Rightarrow> u32 \<Rightarrow> u32" where
  "strnlen_loop 0 m s n = n"
| "strnlen_loop (Suc sz) m s n = (if m s \<noteq> 0 then strnlen_loop sz m (s + 1) (n + 1) else n)"

definition strnlen :: "mem \<Rightarrow> u32 \<Rightarrow> u32 \<Rightarrow> u32" where
  "strnlen m s sz = strnlen_loop (unat sz) m s 0"

section \<open>Copying strings\<close>

text \<open>The functions return the new memory and the returned pointer.\<close>

partial_function (option) strcpy_loop :: "mem \<Rightarrow> u32 \<Rightarrow> u32 \<Rightarrow> mem option" where
  "strcpy_loop m dst src =
     (let b = m src; m1 = m(dst := b)
      in if b \<noteq> 0 then strcpy_loop m1 (dst + 1) (src + 1) else Some m1)"

definition strcpy :: "mem \<Rightarrow> u32 \<Rightarrow> u32 \<Rightarrow> (mem \<times> u32) option" where
  "strcpy m dst src = do { m1 \<leftarrow> strcpy_loop m dst src; Some (m1, dst) }"

definition strcat :: "mem \<Rightarrow> u32 \<Rightarrow> u32 \<Rightarrow> (mem \<times> u32) option" where
  "strcat m dst src =
     do { len \<leftarrow> strlen m dst;
          (m1, _) \<leftarrow> strcpy m (dst + len) src;
          Some (m1, dst) }"

text \<open>\<open>strncpy\<close> reads \<open>*src\<close> again after the write.\<close>

primrec strncpy_loop :: "nat \<Rightarrow> mem \<Rightarrow> u32 \<Rightarrow> u32 \<Rightarrow> mem" where
  "strncpy_loop 0 m dst src = m"
| "strncpy_loop (Suc sz) m dst src =
     (let m1 = m(dst := m src)
      in strncpy_loop sz m1 (dst + 1) (if m1 src \<noteq> 0 then src + 1 else src))"

definition strncpy :: "mem \<Rightarrow> u32 \<Rightarrow> u32 \<Rightarrow> u32 \<Rightarrow> mem \<times> u32" where
  "strncpy m dst src sz = (strncpy_loop (unat sz) m dst src, dst)"

text \<open>The loop of \<open>strlcpy\<close> after \<open>--size\<close>.\<close>

primrec strlcpy_loop :: "nat \<Rightarrow> mem \<Rightarrow> u32 \<Rightarrow> u32 \<Rightarrow> mem \<times> u32" where
  "strlcpy_loop 0 m dst src = (m, dst)"
| "strlcpy_loop (Suc sz) m dst src =
     (if m src \<noteq> 0 then strlcpy_loop sz (m(dst := m src)) (dst + 1) (src + 1) else (m, dst))"

definition strlcpy :: "mem \<Rightarrow> u32 \<Rightarrow> u32 \<Rightarrow> u32 \<Rightarrow> mem \<times> u32" where
  "strlcpy m dst src sz =
     (if sz > 0 then
        let (m1, d) = strlcpy_loop (unat sz - 1) m dst src in (m1(d := 0), d - dst)
      else (m, 0))"

section \<open>Comparing and searching\<close>

definition byte_diff :: "u8 \<Rightarrow> u8 \<Rightarrow> int" where
  "byte_diff a b = uint a - uint b"

partial_function (option) strcmp :: "mem \<Rightarrow> u32 \<Rightarrow> u32 \<Rightarrow> int option" where
  "strcmp m p q =
     (if m p \<noteq> 0 \<and> m p = m q then strcmp m (p + 1) (q + 1) else Some (byte_diff (m p) (m q)))"

primrec strncmp_loop :: "nat \<Rightarrow> mem \<Rightarrow> u32 \<Rightarrow> u32 \<Rightarrow> int" where
  "strncmp_loop 0 m p q = 0"
| "strncmp_loop (Suc n) m p q =
     (if m p \<noteq> 0 \<and> m p = m q then strncmp_loop n m (p + 1) (q + 1) else byte_diff (m p) (m q))"

definition strncmp :: "mem \<Rightarrow> u32 \<Rightarrow> u32 \<Rightarrow> u32 \<Rightarrow> int" where
  "strncmp m p q n = strncmp_loop (unat n) m p q"

partial_function (option) strchr :: "mem \<Rightarrow> u32 \<Rightarrow> u8 \<Rightarrow> u32 option" where
  "strchr m s c = (if m s = 0 then Some 0 else if m s = c then Some s else strchr m (s + 1) c)"

partial_function (option) strfind :: "mem \<Rightarrow> u32 \<Rightarrow> u8 \<Rightarrow> u32 option" where
  "strfind m s c = (if m s = 0 then Some s else if m s = c then Some s else strfind m (s + 1) c)"

primrec memcmp_loop :: "nat \<Rightarrow> mem \<Rightarrow> u32 \<Rightarrow> u32 \<Rightarrow> int" where
  "memcmp_loop 0 m s1 s2 = 0"
| "memcmp_loop (Suc n) m s1 s2 =
     (if m s1 \<noteq> m s2 then byte_diff (m s1) (m s2) else memcmp_loop n m (s1 + 1) (s2 + 1))"

definition memcmp :: "mem \<Rightarrow> u32 \<Rightarrow> u32 \<Rightarrow> u32 \<Rightarrow> int" where
  "memcmp m v1 v2 n = memcmp_loop (unat n) m v1 v2"

function memfind_loop :: "mem \<Rightarrow> u8 \<Rightarrow> u32 \<Rightarrow> u32 \<Rightarrow> u32" where
  "memfind_loop m c ends s =
     (if s < ends then if m s = c then s else memfind_loop m c ends (s + 1) else s)"
  by auto
termination
proof (relation "measure (\<lambda>(m, c, ends, s). unat ends - unat s)")
  fix m :: mem and c and ends s :: u32
  assume "s < ends"
  then have "unat (s + 1) = unat s + 1" "unat s < unat ends"
    using unat_u32_less [of ends] by (simp_all add: word_less_nat_alt unat_word_ariths)
  then show "((m, c, ends, s + 1), (m, c, ends, s)) \<in> measure (\<lambda>(m, c, ends, s). unat ends - unat s)"
    by simp
qed simp

definition memfind :: "mem \<Rightarrow> u32 \<Rightarrow> u32 \<Rightarrow> u32 \<Rightarrow> u32" where
  "memfind m s c n = memfind_loop m (ucast c) (s + n) s"

section \<open>Blocks\<close>

text \<open>The string instructions of the processor, with an element of \<open>k\<close> bytes (1 or 4) that is
  read as a whole before it is written: \<open>rep stos\<close>, and \<open>rep movs\<close> with the direction flag
  clear and set.\<close>

definition move_elem :: "nat \<Rightarrow> u32 \<Rightarrow> u32 \<Rightarrow> mem \<Rightarrow> mem" where
  "move_elem k dst src m = (\<lambda>a. if unat (a - dst) < k then m (src + (a - dst)) else m a)"

primrec rep_movs_up :: "nat \<Rightarrow> nat \<Rightarrow> u32 \<Rightarrow> u32 \<Rightarrow> mem \<Rightarrow> mem" where
  "rep_movs_up k 0 dst src m = m"
| "rep_movs_up k (Suc n) dst src m =
     rep_movs_up k n (dst + of_nat k) (src + of_nat k) (move_elem k dst src m)"

primrec rep_movs_down :: "nat \<Rightarrow> nat \<Rightarrow> u32 \<Rightarrow> u32 \<Rightarrow> mem \<Rightarrow> mem" where
  "rep_movs_down k 0 dst src m = m"
| "rep_movs_down k (Suc n) dst src m =
     rep_movs_down k n (dst - of_nat k) (src - of_nat k) (move_elem k dst src m)"

primrec rep_stos :: "nat \<Rightarrow> nat \<Rightarrow> u32 \<Rightarrow> u32 \<Rightarrow> mem \<Rightarrow> mem" where
  "rep_stos k 0 p c m = m"
| "rep_stos k (Suc n) p c m =
     rep_stos k n (p + of_nat k) c
       (\<lambda>a. if unat (a - p) < k then ucast (drop_bit (8 * unat (a - p)) c) else m a)"

definition memset :: "mem \<Rightarrow> u32 \<Rightarrow> u32 \<Rightarrow> u32 \<Rightarrow> mem \<times> u32" where
  "memset m v c n =
     (if n = 0 then (m, v)
      else if v mod 4 = 0 \<and> n mod 4 = 0 then
        let c = c AND 0xFF; c = push_bit 24 c OR push_bit 16 c OR push_bit 8 c OR c
        in (rep_stos 4 (unat (n div 4)) v c m, v)
      else (rep_stos 1 (unat n) v c m, v))"

definition memmove :: "mem \<Rightarrow> u32 \<Rightarrow> u32 \<Rightarrow> u32 \<Rightarrow> mem \<times> u32" where
  "memmove m dst src n =
     (if src < dst \<and> src + n > dst then
        let s = src + n; d = dst + n
        in if s mod 4 = 0 \<and> d mod 4 = 0 \<and> n mod 4 = 0
           then (rep_movs_down 4 (unat (n div 4)) (d - 4) (s - 4) m, dst)
           else (rep_movs_down 1 (unat n) (d - 1) (s - 1) m, dst)
      else if src mod 4 = 0 \<and> dst mod 4 = 0 \<and> n mod 4 = 0
           then (rep_movs_up 4 (unat (n div 4)) dst src m, dst)
           else (rep_movs_up 1 (unat n) dst src m, dst))"

definition memcpy :: "mem \<Rightarrow> u32 \<Rightarrow> u32 \<Rightarrow> u32 \<Rightarrow> mem \<times> u32" where
  "memcpy m dst src n = memmove m dst src n"

section \<open>Numbers\<close>

partial_function (option) skip_blanks :: "mem \<Rightarrow> u32 \<Rightarrow> u32 option" where
  "skip_blanks m s = (if m s = 32 \<or> m s = 9 then skip_blanks m (s + 1) else Some s)"

definition digit_value :: "u8 \<Rightarrow> u32 option" where
  "digit_value c =
     (if 48 \<le> c \<and> c \<le> 57 then Some (ucast (c - 48))
      else if 97 \<le> c \<and> c \<le> 122 then Some (ucast (c - 97) + 10)
      else if 65 \<le> c \<and> c \<le> 90 then Some (ucast (c - 65) + 10)
      else None)"

text \<open>The value is a \<open>long\<close> of 32 bits, which wraps around.\<close>

partial_function (option) strtol_digits :: "mem \<Rightarrow> u32 \<Rightarrow> u32 \<Rightarrow> u32 \<Rightarrow> (u32 \<times> u32) option" where
  "strtol_digits m base s val =
     (case digit_value (m s) of
        None \<Rightarrow> Some (s, val)
      | Some dig \<Rightarrow>
          if sint base \<le> sint dig then Some (s, val)
          else strtol_digits m base (s + 1) (val * base + dig))"

text \<open>The result is the end pointer and the value.\<close>

definition strtol :: "mem \<Rightarrow> u32 \<Rightarrow> u32 \<Rightarrow> (u32 \<times> u32) option" where
  "strtol m s base =
     do { s1 \<leftarrow> skip_blanks m s;
          let (s2, neg) = (if m s1 = 43 then (s1 + 1, False) else if m s1 = 45 then (s1 + 1, True) else (s1, False));
          let (s3, base1) =
            (if (base = 0 \<or> base = 16) \<and> m s2 = 48 \<and> m (s2 + 1) = 120 then (s2 + 2, 16)
             else if base = 0 \<and> m s2 = 48 then (s2 + 1, 8)
             else if base = 0 then (s2, 10) else (s2, base));
          (s4, val) \<leftarrow> strtol_digits m base1 s3 0;
          Some (s4, if neg then - val else val) }"

section \<open>Lemmas on strings\<close>

lemma span_Suc: "span p (Suc n) = insert p (span (p + 1) n)"
proof -
  have "{..<Suc n} = insert 0 (Suc ` {..<n})" by (auto simp: image_iff less_Suc_eq_0_disj)
  then show ?thesis unfolding span_def by (simp add: image_image add.assoc)
qed

lemma span_0 [simp]: "span p 0 = {}"
  by (simp add: span_def)

lemma span_mono: "k \<le> n \<Longrightarrow> span p k \<subseteq> span p n"
  by (auto simp: span_def)

lemma cstr_upd: "a \<notin> span p (Suc (length xs)) \<Longrightarrow> cstr (m(a := b)) p xs = cstr m p xs"
  by (induction xs arbitrary: p) (auto simp: span_Suc)

lemma mem_put_outside: "a \<notin> span p (length bs) \<Longrightarrow> mem_put p bs m a = m a"
  by (induction bs arbitrary: p m) (auto simp: span_Suc)

lemma mem_put_append: "mem_put p (xs @ ys) m = mem_put (p + of_nat (length xs)) ys (mem_put p xs m)"
  by (induction xs arbitrary: p m) (simp_all add: add.assoc)

lemma cstr_unique: "cstr m p xs \<Longrightarrow> cstr m p ys \<Longrightarrow> xs = ys"
  proof (induction xs arbitrary: p ys)
  case Nil
  then show ?case by (cases ys) simp_all
next
  case (Cons x xs)
  then show ?case by (cases ys) auto
qed

lemma strlen_loop_spec: "cstr m s xs \<Longrightarrow> strlen_loop m s n = Some (n + of_nat (length xs))"
proof (induction xs arbitrary: s n)
  case Nil
  then show ?case by (subst strlen_loop.simps) simp
next
  case (Cons x xs)
  then show ?case by (subst strlen_loop.simps) (simp add: add.assoc)
qed

lemma strnlen_spec: "cstr m s xs \<Longrightarrow> strnlen_loop k m s n = n + of_nat (min k (length xs))"
proof (induction xs arbitrary: s n k)
  case Nil
  then show ?case by (cases k) simp_all
next
  case (Cons x xs)
  then show ?case by (cases k) (simp_all add: add.assoc)
qed

lemma strcpy_loop_spec:
  assumes "cstr m src xs" and "span dst (Suc (length xs)) \<inter> span src (Suc (length xs)) = {}"
  shows "strcpy_loop m dst src = Some (mem_put dst (xs @ [0]) m)"
  using assms
proof (induction xs arbitrary: m dst src)
  case Nil
  then show ?case by (subst strcpy_loop.simps) simp
next
  case (Cons x xs)
  have "dst \<notin> span (src + 1) (Suc (length xs))"
    using Cons.prems(2) by (auto simp: span_Suc [of dst] span_Suc [of src])
  then have "cstr (m(dst := x)) (src + 1) xs" using Cons.prems(1) by (simp add: cstr_upd)
  moreover have "span (dst + 1) (Suc (length xs)) \<inter> span (src + 1) (Suc (length xs)) = {}"
    using Cons.prems(2) by (auto simp: span_Suc [of dst] span_Suc [of src])
  ultimately have "strcpy_loop (m(dst := x)) (dst + 1) (src + 1) = Some (mem_put (dst + 1) (xs @ [0]) (m(dst := x)))"
    by (rule Cons.IH)
  with Cons.prems(1) show ?case by (subst strcpy_loop.simps) (simp add: Let_def)
qed

lemma byte_diff_simps [simp]: "byte_diff a b < 0 \<longleftrightarrow> a < b" "byte_diff a b = 0 \<longleftrightarrow> a = b"
  by (simp_all add: byte_diff_def word_less_def word_uint_eq_iff)

lemma strcmp_spec:
  assumes "cstr m p xs" and "cstr m q ys"
  shows "\<exists>r. strcmp m p q = Some r \<and> (r = 0 \<longleftrightarrow> xs = ys) \<and> (r < 0 \<longleftrightarrow> ord_class.lexordp xs ys)"
  using assms
proof (induction xs arbitrary: p q ys)
  case Nil
  then show ?case
    by (subst strcmp.simps) (cases ys; auto simp: word_neq_0_conv)
next
  case (Cons x xs)
  show ?case
  proof (cases "\<exists>zs. ys = x # zs")
    case True
    with Cons show ?thesis by (subst strcmp.simps) auto
  next
    case False
    then have ne: "m p \<noteq> m q" using Cons.prems by (cases ys) auto
    have "m p < m q \<longleftrightarrow> ord_class.lexordp (x # xs) ys" "x # xs \<noteq> ys"
      using False ne Cons.prems by (cases ys; auto)+
    then show ?thesis using ne by (subst strcmp.simps) auto
  qed
qed

text \<open>\<open>strlcpy\<close>: what is written and where it stops.\<close>

lemma strlcpy_loop_spec:
  assumes "cstr m src xs" and "span dst k \<inter> span src (Suc (length xs)) = {}"
  shows "strlcpy_loop k m dst src = (mem_put dst (take k xs) m, dst + of_nat (min k (length xs)))"
  using assms
proof (induction xs arbitrary: k m dst src)
  case Nil
  then show ?case by (cases k) simp_all
next
  case (Cons x xs)
  show ?case
  proof (cases k)
    case (Suc j)
    have "dst \<notin> span (src + 1) (Suc (length xs))"
      using Cons.prems(2) Suc by (auto simp: span_Suc)
    then have "cstr (m(dst := x)) (src + 1) xs" using Cons.prems(1) by (simp add: cstr_upd)
    moreover have "span (dst + 1) j \<inter> span (src + 1) (Suc (length xs)) = {}"
      using Cons.prems(2) Suc by (auto simp: span_Suc [of dst] span_Suc [of src])
    ultimately have "strlcpy_loop j (m(dst := x)) (dst + 1) (src + 1)
        = (mem_put (dst + 1) (take j xs) (m(dst := x)), dst + 1 + of_nat (min j (length xs)))" by (rule Cons.IH)
    then show ?thesis using Cons.prems(1) Suc by (simp add: add.assoc)
  qed simp
qed

lemma strlcpy_loop_frame:
  "a \<notin> span dst k \<Longrightarrow> fst (strlcpy_loop k m dst src) a = m a"
  by (induction k arbitrary: m dst src) (auto simp: span_Suc)

lemma strlcpy_loop_end: "\<exists>j\<le>k. snd (strlcpy_loop k m dst src) = dst + of_nat j"
proof (induction k arbitrary: m dst src)
  case (Suc k)
  from Suc.IH [of "m(dst := m src)" "dst + 1" "src + 1"] obtain j where
    "j \<le> k" "snd (strlcpy_loop k (m(dst := m src)) (dst + 1) (src + 1)) = dst + 1 + of_nat j" by blast
  then show ?case by (cases "m src = 0") (auto intro: exI [of _ "Suc j"] exI [of _ 0])
qed simp

section \<open>Lemmas on blocks\<close>

lemma unat_offset:
  assumes "unat (d :: u32) + k \<le> 4294967296"
  shows "unat (a - d) < k \<longleftrightarrow> unat d \<le> unat a \<and> unat a < unat d + k"
    and "unat d \<le> unat a \<Longrightarrow> unat (a - d) = unat a - unat d"
  using assms unat_u32_less [of a] unat_u32_less [of d]
  by (auto simp: unat_sub_if_size word_size)

lemma unat_moved:
  assumes "unat (d :: u32) + k \<le> 4294967296" and "unat s + k \<le> 4294967296" and "unat (a - d) < k"
  shows "unat (s + (a - d)) = unat s + (unat a - unat d)"
proof -
  have "unat (a - d) = unat a - unat d" using unat_offset [OF assms(1), of a] assms(3) by simp
  then show ?thesis using assms by (simp add: unat_word_ariths)
qed

lemma move_elem_0 [simp]: "move_elem 0 d s m = m"
  by (simp add: move_elem_def)

lemma unat_plus_nat: "unat d + k < 4294967296 \<Longrightarrow> unat (d + of_nat k :: u32) = unat d + k"
  by (simp add: unat_word_ariths unat_of_nat)

text \<open>Copying upwards is right when the destination is not inside the source.\<close>

lemma move_elem_up:
  assumes d: "unat d + (k + l) \<le> 4294967296" and s: "unat s + (k + l) \<le> 4294967296"
    and no: "unat d \<le> unat s \<or> unat s + (k + l) \<le> unat d" and l: "0 < l"
  shows "move_elem l (d + of_nat k) (s + of_nat k) (move_elem k d s m) = move_elem (k + l) d s m"
proof
  fix a
  have uk: "unat (d + of_nat k) = unat d + k" "unat (s + of_nat k) = unat s + k"
    using d s l by (simp_all add: unat_plus_nat)
  have in1: "unat (a - (d + of_nat k)) < l \<longleftrightarrow> unat d + k \<le> unat a \<and> unat a < unat d + (k + l)"
    using unat_offset(1) [of "d + of_nat k" l a] d by (simp add: uk add.assoc)
  have in2: "unat (x - d) < k \<longleftrightarrow> unat d \<le> unat x \<and> unat x < unat d + k" for x
    using unat_offset(1) [of d k x] d by simp
  have in3: "unat (a - d) < k + l \<longleftrightarrow> unat d \<le> unat a \<and> unat a < unat d + (k + l)"
    using unat_offset(1) [OF d] .
  have src: "(s + of_nat k) + (a - (d + of_nat k)) = s + (a - d)" by (simp add: algebra_simps)
  show "move_elem l (d + of_nat k) (s + of_nat k) (move_elem k d s m) a = move_elem (k + l) d s m a"
  proof (cases "unat d + k \<le> unat a \<and> unat a < unat d + (k + l)")
    case True
    then have "unat (s + (a - d)) = unat s + (unat a - unat d)" using unat_moved [OF d s] in3 by simp
    then have "\<not> unat (s + (a - d) - d) < k" using True no unfolding in2 by auto
    with True in1 in3 show ?thesis unfolding move_elem_def src by simp
  next
    case False
    with in1 in2 [of a] in3 show ?thesis unfolding move_elem_def by auto
  qed
qed

text \<open>Copying downwards is right when the source starts below the destination.\<close>

lemma move_elem_down:
  assumes d: "unat d + (l + k) \<le> 4294967296" and s: "unat s + (l + k) \<le> 4294967296"
    and le: "unat s \<le> unat d" and k: "0 < k"
  shows "move_elem l d s (move_elem k (d + of_nat l) (s + of_nat l) m) = move_elem (l + k) d s m"
proof
  fix a
  have uk: "unat (d + of_nat l) = unat d + l" "unat (s + of_nat l) = unat s + l"
    using d s k by (simp_all add: unat_plus_nat)
  have in1: "unat (x - (d + of_nat l)) < k \<longleftrightarrow> unat d + l \<le> unat x \<and> unat x < unat d + (l + k)" for x
    using unat_offset(1) [of "d + of_nat l" k x] d by (simp add: uk add.assoc)
  have in2: "unat (a - d) < l \<longleftrightarrow> unat d \<le> unat a \<and> unat a < unat d + l"
    using unat_offset(1) [of d l a] d by simp
  have in3: "unat (a - d) < l + k \<longleftrightarrow> unat d \<le> unat a \<and> unat a < unat d + (l + k)"
    using unat_offset(1) [OF d] .
  have src: "(s + of_nat l) + (x - (d + of_nat l)) = s + (x - d)" for x by (simp add: algebra_simps)
  show "move_elem l d s (move_elem k (d + of_nat l) (s + of_nat l) m) a = move_elem (l + k) d s m a"
  proof (cases "unat (a - d) < l")
    case True
    then have "unat (s + (a - d)) = unat s + (unat a - unat d)" using unat_moved [OF d s] by simp
    then have "\<not> unat (s + (a - d) - (d + of_nat l)) < k" using True le unfolding in1 in2 by auto
    with True show ?thesis unfolding move_elem_def by simp
  next
    case False
    with in1 [of a] in2 in3 show ?thesis unfolding move_elem_def src by auto
  qed
qed

lemma rep_movs_up_spec:
  assumes "unat d + k * n \<le> 4294967296" and "unat s + k * n \<le> 4294967296"
    and "unat d \<le> unat s \<or> unat s + k * n \<le> unat d" and "0 < k"
  shows "rep_movs_up k n d s m = move_elem (k * n) d s m"
  using assms
proof (induction n arbitrary: d s m)
  case (Suc n)
  show ?case
  proof (cases "n = 0")
    case False
    then have kn: "0 < k * n" using Suc.prems(4) by simp
    have "unat d + k < 4294967296" "unat s + k < 4294967296"
      using Suc.prems(1,2) kn unfolding mult_Suc_right by linarith+
    then have u: "unat (d + of_nat k) = unat d + k" "unat (s + of_nat k) = unat s + k"
      by (simp_all add: unat_plus_nat)
    have "rep_movs_up k n (d + of_nat k) (s + of_nat k) (move_elem k d s m)
        = move_elem (k * n) (d + of_nat k) (s + of_nat k) (move_elem k d s m)"
      using Suc.prems unfolding u by (intro Suc.IH) (auto simp: u)
    also have "\<dots> = move_elem (k + k * n) d s m"
      using Suc.prems kn by (intro move_elem_up) auto
    finally show ?thesis by simp
  qed simp
qed simp

lemma rep_movs_down_spec:
  assumes "unat d + k * n \<le> 4294967296" and "unat s + k * n \<le> 4294967296" and "unat s \<le> unat d" and "0 < k"
  shows "rep_movs_down k n (d + of_nat (k * n) - of_nat k) (s + of_nat (k * n) - of_nat k) m = move_elem (k * n) d s m"
  using assms
proof (induction n arbitrary: m)
  case (Suc n)
  have e: "x + of_nat (k * Suc n) - of_nat k = x + of_nat (k * n)" for x :: u32 by simp
  have "rep_movs_down k n (d + of_nat (k * n) - of_nat k) (s + of_nat (k * n) - of_nat k)
      (move_elem k (d + of_nat (k * n)) (s + of_nat (k * n)) m)
    = move_elem (k * n) d s (move_elem k (d + of_nat (k * n)) (s + of_nat (k * n)) m)"
    using Suc.prems by (intro Suc.IH) auto
  also have "\<dots> = move_elem (k * n + k) d s m"
    using Suc.prems by (intro move_elem_down) auto
  finally show ?case unfolding e by (simp add: add.commute)
qed simp

lemma div4: "n mod 4 = 0 \<Longrightarrow> 4 * unat (n div 4) = unat n" for n :: u32
proof -
  assume "n mod 4 = 0"
  then have "unat (n mod 4) = 0" by simp
  then have "unat n mod 4 = 0" by (simp add: unat_mod)
  then show ?thesis by (simp add: unat_div mult_div_mod_eq) presburger
qed

lemma memmove_spec:
  assumes d: "unat dst + unat n \<le> 4294967296" and s: "unat src + unat n < 4294967296"
  shows "memmove m dst src n = (move_elem (unat n) dst src m, dst)"
proof -
  have sn: "unat (src + n) = unat src + unat n" using s by (simp add: unat_word_ariths)
  have n4: "4 * unat (n div 4) = unat n" "(of_nat (4 * unat (n div 4)) :: u32) = n" if "n mod 4 = 0"
    using div4 [OF that] by simp_all
  show ?thesis
  proof (cases "src < dst \<and> src + n > dst")
    case True
    then have le: "unat src \<le> unat dst" by (simp add: word_less_nat_alt)
    have "rep_movs_down 4 (unat (n div 4)) (dst + n - 4) (src + n - 4) m = move_elem (unat n) dst src m"
      if "n mod 4 = 0"
      using rep_movs_down_spec [of dst 4 "unat (n div 4)" src m] n4 [OF that] d s le by simp
    moreover have "rep_movs_down 1 (unat n) (dst + n - 1) (src + n - 1) m = move_elem (unat n) dst src m"
      using rep_movs_down_spec [of dst 1 "unat n" src m] d s le by simp
    ultimately show ?thesis using True by (simp add: memmove_def Let_def)
  next
    case False
    then have no: "unat dst \<le> unat src \<or> unat src + unat n \<le> unat dst"
      using sn by (auto simp: word_less_nat_alt)
    have "rep_movs_up 4 (unat (n div 4)) dst src m = move_elem (unat n) dst src m" if "n mod 4 = 0"
      using rep_movs_up_spec [of dst 4 "unat (n div 4)" src m] n4 [OF that] d s no by simp
    moreover have "rep_movs_up 1 (unat n) dst src m = move_elem (unat n) dst src m"
      using rep_movs_up_spec [of dst 1 "unat n" src m] d s no by simp
    ultimately show ?thesis unfolding memmove_def if_not_P [OF False] by simp
  qed
qed

lemma rep_stos_spec:
  assumes "k * n \<le> 4294967295" and "0 < k"
  shows "rep_stos k n p c m =
    (\<lambda>a. if unat (a - p) < k * n then ucast (drop_bit (8 * (unat (a - p) mod k)) c) else m a)"
  using assms
proof (induction n arbitrary: p m)
  case (Suc n)
  let ?m = "\<lambda>a. if unat (a - p) < k then ucast (drop_bit (8 * unat (a - p)) c) else m a"
  have "rep_stos k (Suc n) p c m a = (if unat (a - p) < k * Suc n
      then ucast (drop_bit (8 * (unat (a - p) mod k)) c) else m a)" for a
  proof -
    have IH: "rep_stos k (Suc n) p c m a = (if unat (a - (p + of_nat k)) < k * n
        then ucast (drop_bit (8 * (unat (a - (p + of_nat k)) mod k)) c) else ?m a)"
      using Suc.IH [of "p + of_nat k" ?m] Suc.prems by simp
    have k: "unat (of_nat k :: u32) = k" using Suc.prems(1) by (simp add: unat_of_nat)
    have off: "a - (p + of_nat k) = (a - p) - of_nat k" by (simp add: algebra_simps)
    show ?thesis
    proof (cases "unat (a - p) < k")
      case True
      then have "k * n \<le> unat (a - (p + of_nat k))"
        using Suc.prems k unfolding off by (simp add: unat_sub_if_size word_size)
      with True IH show ?thesis by simp
    next
      case False
      then have "unat (a - (p + of_nat k)) = unat (a - p) - k"
        using k unfolding off by (simp add: unat_sub_if_size word_size)
      moreover have "(unat (a - p) - k) mod k = unat (a - p) mod k"
        using False by (simp add: le_mod_geq)
      moreover have "unat (a - p) - k < k * n \<longleftrightarrow> unat (a - p) < k * Suc n" using False by auto
      ultimately show ?thesis using False IH by simp
    qed
  qed
  then show ?case by blast
qed simp

lemma repeated_byte:
  assumes "i < 4"
  shows "ucast (drop_bit (8 * i) (push_bit 24 (c AND 0xFF) OR push_bit 16 (c AND 0xFF)
           OR push_bit 8 (c AND 0xFF) OR (c AND 0xFF :: u32))) = (ucast c :: u8)"
proof (rule bit_word_eqI)
  fix n assume "n < LENGTH(8)"
  then have n: "n < 8" by simp
  have m: "(0xFF :: u32) = mask 8" by (simp add: mask_eq_exp_minus_1)
  from assms consider "i = 0" | "i = 1" | "i = 2" | "i = 3" by linarith
  then show "bit (ucast (drop_bit (8 * i) (push_bit 24 (c AND 0xFF) OR push_bit 16 (c AND 0xFF)
      OR push_bit 8 (c AND 0xFF) OR (c AND 0xFF))) :: u8) n = bit (ucast c :: u8) n"
    by cases (use n in \<open>auto simp: m bit_simps\<close>)
qed

lemma memset_spec:
  "memset m v c n = ((\<lambda>a. if unat (a - v) < unat n then ucast c else m a), v)"
proof -
  have n1: "unat n \<le> 4294967295" using unat_u32_less [of n] by simp
  have one: "rep_stos 1 (unat n) v c m = (\<lambda>a. if unat (a - v) < unat n then ucast c else m a)"
    using rep_stos_spec [of 1 "unat n" v c m] n1 by (simp add: fun_eq_iff)
  let ?w = "push_bit 24 (c AND 0xFF) OR push_bit 16 (c AND 0xFF) OR push_bit 8 (c AND 0xFF) OR (c AND 0xFF)"
  have four: "rep_stos 4 (unat (n div 4)) v ?w m = (\<lambda>a. if unat (a - v) < unat n then ucast c else m a)"
    if "n mod 4 = 0"
  proof -
    have "rep_stos 4 (unat (n div 4)) v ?w m =
        (\<lambda>a. if unat (a - v) < unat n then ucast (drop_bit (8 * (unat (a - v) mod 4)) ?w) else m a)"
      using rep_stos_spec [of 4 "unat (n div 4)" v ?w m] n1 div4 [OF that] by simp
    moreover have "ucast (drop_bit (8 * (unat (a - v) mod 4)) ?w) = (ucast c :: u8)" for a
      by (rule repeated_byte) simp
    ultimately show ?thesis by (simp only:)
  qed
  show ?thesis unfolding memset_def Let_def using one four by auto
qed

lemma span_disjoint:
  assumes "unat q + n \<le> unat p" and "unat p + k < 4294967296"
  shows "span p k \<inter> span q n = {}"
proof -
  have "unat (p + of_nat i) = unat p + i" if "i < k" for i using assms that by (intro unat_plus_nat) simp
  moreover have "unat (q + of_nat i) = unat q + i" if "i < n" for i using assms that by (intro unat_plus_nat) simp
  ultimately show ?thesis using assms by (fastforce simp: span_def)
qed

section \<open>Reading numbers\<close>

lemma strtol_digits_spec:
  assumes "cstr m s cs" and "\<forall>c\<in>set cs. \<exists>d. digit_value c = Some d \<and> sint d < sint base"
  shows "strtol_digits m base s v =
    Some (s + of_nat (length cs), foldl (\<lambda>v c. v * base + the (digit_value c)) v cs)"
  using assms
proof (induction cs arbitrary: s v)
  case Nil
  then show ?case by (subst strtol_digits.simps) (simp add: digit_value_def)
next
  case (Cons c cs)
  then obtain d where d: "digit_value c = Some d" "sint d < sint base" by auto
  with Cons show ?case by (subst strtol_digits.simps) (simp add: add.assoc)
qed

section \<open>Properties\<close>

text \<open>\<open>strcmp\<close> on two zero-terminated strings returns 0 exactly for equal strings and a
  negative number exactly when the first comes before the second in the lexicographic order
  of unsigned bytes.\<close>

theorem strcmp_lexicographic:
  assumes "cstr m p xs" and "cstr m q ys"
  shows "\<exists>r. strcmp m p q = Some r \<and> (r = 0 \<longleftrightarrow> xs = ys) \<and> (r < 0 \<longleftrightarrow> ord_class.lexordp xs ys)"
  using assms by (rule strcmp_spec)

theorem strcmp_lexicographic_witness:
  "\<exists>r. strcmp (mem_put 100 [97, 98, 0, 97, 200, 0] (\<lambda>_. 7)) 100 103 = Some r
    \<and> (r = 0 \<longleftrightarrow> [97, 98 :: u8] = [97, 200]) \<and> (r < 0 \<longleftrightarrow> ord_class.lexordp [97, 98 :: u8] [97, 200])"
  by (rule strcmp_lexicographic) simp_all

text \<open>\<open>strlcpy\<close> never writes outside the \<open>size\<close> bytes at \<open>dst\<close>, whatever \<open>src\<close> points to;
  if the string at \<open>src\<close> does not overlap the destination, the destination becomes the longest
  prefix of it that fits, zero-terminated, and the length of that prefix is returned.\<close>

theorem strlcpy_bounded:
  "(\<forall>a. a \<notin> span dst (unat sz) \<longrightarrow> fst (strlcpy m dst src sz) a = m a)
   \<and> (\<forall>xs. sz > 0 \<and> cstr m src xs \<and> span dst (unat sz) \<inter> span src (Suc (length xs)) = {} \<longrightarrow>
        strlcpy m dst src sz = (mem_put dst (take (unat sz - 1) xs @ [0]) m,
                                  of_nat (min (unat sz - 1) (length xs))))"
proof (intro conjI allI impI)
  fix a assume a: "a \<notin> span dst (unat sz)"
  show "fst (strlcpy m dst src sz) a = m a"
  proof (cases "sz > 0")
    case True
    then obtain k where k: "unat sz = Suc k" by (cases "unat sz") (auto simp: word_less_nat_alt)
    obtain j where "j \<le> k" "snd (strlcpy_loop k m dst src) = dst + of_nat j"
      using strlcpy_loop_end [of k m dst src] by blast
    then have "snd (strlcpy_loop k m dst src) \<in> span dst (Suc k)" by (auto simp: span_def)
    moreover have "a \<notin> span dst k" using a k by (auto simp: span_def)
    ultimately show ?thesis
      using True a k strlcpy_loop_frame [of a dst k m src] by (auto simp: strlcpy_def split_beta)
  qed (simp add: strlcpy_def)
next
  fix xs assume h: "sz > 0 \<and> cstr m src xs \<and> span dst (unat sz) \<inter> span src (Suc (length xs)) = {}"
  then obtain k where k: "unat sz = Suc k" by (cases "unat sz") (auto simp: word_less_nat_alt)
  have "span dst k \<inter> span src (Suc (length xs)) = {}" using h k span_mono [of k "Suc k" dst] by auto
  from strlcpy_loop_spec [OF _ this] h k
  have "strlcpy_loop k m dst src = (mem_put dst (take k xs) m, dst + of_nat (min k (length xs)))" by blast
  with h k show "strlcpy m dst src sz = (mem_put dst (take (unat sz - 1) xs @ [0]) m,
      of_nat (min (unat sz - 1) (length xs)))"
    by (simp add: strlcpy_def mem_put_append min.commute)
qed

theorem strlcpy_bounded_witness:
  "strlcpy (mem_put 100 [97, 98, 99, 0] (\<lambda>_. 7)) 200 100 3
     = (mem_put 200 (take (unat (3 :: u32) - 1) [97, 98, 99] @ [0]) (mem_put 100 [97, 98, 99, 0] (\<lambda>_. 7)),
        of_nat (min (unat (3 :: u32) - 1) (length [97, 98, 99 :: u8])))"
proof -
  let ?m = "mem_put 100 [97, 98, 99, 0] (\<lambda>_. 7)"
  have "span 200 (unat (3 :: u32)) \<inter> span 100 (Suc (length [97, 98, 99 :: u8])) = {}"
    by (rule span_disjoint) simp_all
  moreover have "cstr ?m 100 [97, 98, 99]" "(0 :: u32) < 3" by simp_all
  ultimately show ?thesis by (intro strlcpy_bounded [THEN conjunct2, rule_format] conjI)
qed

text \<open>C28. \<open>memmove\<close> copies the block as it was before the call, in both of its directions and
  both of its element sizes, also when source and destination overlap, as long as neither block
  wraps around the end of the address space.\<close>

theorem memmove_exact:
  assumes "unat dst + unat n \<le> 4294967296" and "unat src + unat n < 4294967296"
  shows "memmove m dst src n = (move_elem (unat n) dst src m, dst)"
  using assms by (rule memmove_spec)

theorem memmove_exact_witness:
  "memmove (\<lambda>a. ucast a) 104 100 8 = (move_elem (unat (8 :: u32)) 104 100 (\<lambda>a. ucast a), 104)"
  by (rule memmove_exact) simp_all

end
