(* ===== verification/Mp_Config.thy ===== *)
theory Mp_Config
  imports Mem_Init Strings
begin

text \<open>
  The multiprocessor configuration table (\<open>kern/mpconfig.c\<close>). The memory is indexed by kernel virtual addresses, so that
  the pointers are those of the code; a panic of \<open>KADDR\<close> is \<open>None\<close>.
\<close>

section \<open>Operations\<close>

text \<open>Fields of the packed structures, by their address.\<close>

definition field16 :: "mem \<Rightarrow> u32 \<Rightarrow> u32" where "field16 m a = le16 (\<lambda>i. m (a + of_nat i)) 0"
definition field32 :: "mem \<Rightarrow> u32 \<Rightarrow> u32" where "field32 m a = le32 (\<lambda>i. m (a + of_nat i)) 0"

definition MPPROC_BOOT :: u8 where "MPPROC_BOOT = 0x02"
definition MPPROC :: u8 where "MPPROC = 0x00"
definition MPBUS :: u8 where "MPBUS = 0x01"
definition MPIOAPIC :: u8 where "MPIOAPIC = 0x02"
definition MPIOINTR :: u8 where "MPIOINTR = 0x03"
definition MPLINTR :: u8 where "MPLINTR = 0x04"

record Mp_State =
  mp_cpus :: "nat \<Rightarrow> CpuInfo"
  bootcpu :: nat
  ismp :: bool
  ncpu :: nat
  mp_lapicaddr :: u32
  mp_out :: "(u32 \<times> u8) list"

definition mp_sum :: "mem \<Rightarrow> u32 \<Rightarrow> nat \<Rightarrow> u8" where
  "mp_sum m addr len = ucast (fold (\<lambda>i acc. acc + ucast (m (addr + of_nat i))) [0..<len] (0 :: u32))"

definition signature_is :: "mem \<Rightarrow> u32 \<Rightarrow> u8 list \<Rightarrow> bool" where
  "signature_is m p bs \<longleftrightarrow> map (\<lambda>i. m (p + of_nat i)) [0..<4] = bs"

definition mp_valid :: "mem \<Rightarrow> u32 \<Rightarrow> bool" where
  "mp_valid m mp \<longleftrightarrow> signature_is m mp [95, 77, 80, 95] \<and> mp_sum m mp 16 = 0"

partial_function (option) mp_loop :: "mem \<Rightarrow> u32 \<Rightarrow> u32 \<Rightarrow> u32 option option" where
  "mp_loop m mp lim = (if mp < lim then if mp_valid m mp then Some (Some mp) else mp_loop m (mp + 16) lim else Some None)"

definition mpsearch1 :: "kern \<Rightarrow> mem \<Rightarrow> u32 \<Rightarrow> u32 \<Rightarrow> u32 option option" where
  "mpsearch1 s m a len = do { mp \<leftarrow> KADDR s a; lim \<leftarrow> KADDR s (a + len); mp_loop m mp lim }"

definition mpsearch :: "kern \<Rightarrow> mem \<Rightarrow> u32 option option" where
  "mpsearch s m =
     do { bda \<leftarrow> KADDR s (push_bit 4 0x40);
          let p = field16 m (bda + 0x0E);
          r \<leftarrow> (if p \<noteq> 0 then mpsearch1 s m (push_bit 4 p) 1024
               else mpsearch1 s m (field16 m (bda + 0x13) * 1024 - 1024) 1024);
          case r of Some mp \<Rightarrow> Some (Some mp) | None \<Rightarrow> mpsearch1 s m 0xF0000 0x10000 }"

text \<open>The result is the pointer to the table with that to the floating structure, or null.\<close>

definition mpconfig :: "kern \<Rightarrow> mem \<Rightarrow> (u32 \<times> u32) option option" where
  "mpconfig s m =
     do { r \<leftarrow> mpsearch s m;
          case r of
            None \<Rightarrow> Some None
          | Some mp \<Rightarrow>
              if field32 m (mp + 4) = 0 \<or> m (mp + 11) \<noteq> 0 then Some None
              else do { conf \<leftarrow> KADDR s (field32 m (mp + 4));
                        if \<not> signature_is m conf [80, 67, 77, 80] then Some None
                        else if mp_sum m conf (unat (field16 m (conf + 4))) \<noteq> 0 then Some None
                        else if m (conf + 6) \<noteq> 1 \<and> m (conf + 6) \<noteq> 4 then Some None
                        else if mp_sum m (conf + field16 m (conf + 4)) (unat (field16 m (conf + 40))) + m (conf + 42) \<noteq> 0 then Some None
                        else Some (Some (conf, mp)) } }"

text \<open>The loop over the entries.\<close>

definition mp_add_proc :: "u8 \<Rightarrow> Mp_State \<Rightarrow> Mp_State" where
  "mp_add_proc flags st =
     (let st = (if flags AND MPPROC_BOOT \<noteq> 0 then st\<lparr>bootcpu := ncpu st\<rparr> else st)
      in if ncpu st < NCPU
         then st\<lparr>mp_cpus := (mp_cpus st)(ncpu st := (mp_cpus st (ncpu st))\<lparr>cpu_id := of_nat (ncpu st)\<rparr>), ncpu := ncpu st + 1\<rparr>
         else st)"

primrec mp_entries :: "mem \<Rightarrow> nat \<Rightarrow> u32 \<Rightarrow> Mp_State \<Rightarrow> Mp_State" where
  "mp_entries m 0 p st = st"
| "mp_entries m (Suc n) p st =
     (if m p = MPPROC then mp_entries m n (p + 20) (mp_add_proc (m (p + 3)) st)
      else if m p \<in> {MPBUS, MPIOAPIC, MPIOINTR, MPLINTR} then mp_entries m n (p + 8) st
      else st\<lparr>ismp := False\<rparr>)"

text \<open>\<open>imcr\<close> is what the port \<open>0x23\<close> delivers.\<close>

definition mp_init :: "kern \<Rightarrow> mem \<Rightarrow> u8 \<Rightarrow> Mp_State \<Rightarrow> Mp_State option" where
  "mp_init s m imcr st =
     do { let st = st\<lparr>bootcpu := 0\<rparr>;
          r \<leftarrow> mpconfig s m;
          case r of
            None \<Rightarrow> Some st
          | Some (conf, mp) \<Rightarrow>
              let st = st\<lparr>ismp := True, mp_lapicaddr := field32 m (conf + 36)\<rparr>;
                  st = mp_entries m (unat (field16 m (conf + 34))) (conf + 44) st;
                  st = st\<lparr>mp_cpus := (mp_cpus st)(bootcpu st := (mp_cpus st (bootcpu st))\<lparr>cpu_status := CPU_STARTED\<rparr>)\<rparr>
              in if \<not> ismp st then Some (st\<lparr>ncpu := 1, mp_lapicaddr := 0\<rparr>)
                 else if m (mp + 12) \<noteq> 0 then Some (st\<lparr>mp_out := mp_out st @ [(0x22, 0x70), (0x23, imcr OR 1)]\<rparr>)
                 else Some st }"

section \<open>The search\<close>

text \<open>The loop ends; it returns the first structure with the signature and the checksum.\<close>

lemma mp_loop_find:
  assumes "unat p + 16 * n < 4294967296"
  shows "mp_loop m p (p + of_nat (16 * n)) = Some (find (mp_valid m) (map (\<lambda>i. p + of_nat (16 * i)) [0..<n]))"
  using assms
proof (induction n arbitrary: p)
  case 0
  then show ?case by (subst mp_loop.simps) simp
next
  case (Suc n)
  have e: "p + of_nat (16 * Suc n) = p + 16 + of_nat (16 * n)" by (simp add: algebra_simps)
  have u: "unat (p + of_nat (16 * Suc n)) = unat p + 16 * Suc n" "unat (p + 16) = unat p + 16"
    using Suc.prems unat_plus_nat [of p "16 * Suc n"] unat_plus_nat [of p 16] by simp_all
  have l: "p < p + of_nat (16 * Suc n)" unfolding word_less_nat_alt u by simp
  have f: "map (\<lambda>i. p + of_nat (16 * i)) [0..<Suc n] = p # map (\<lambda>i. p + 16 + of_nat (16 * i)) [0..<n]"
    unfolding upt_conv_Cons [OF zero_less_Suc] map_Suc_upt [symmetric] by (simp add: algebra_simps)
  have "mp_loop m (p + 16) (p + 16 + of_nat (16 * n)) = Some (find (mp_valid m) (map (\<lambda>i. p + 16 + of_nat (16 * i)) [0..<n]))"
    by (rule Suc.IH) (use Suc.prems u(2) in simp)
  then show ?case unfolding f using l by (subst mp_loop.simps) (simp add: e del: of_nat_mult of_nat_Suc mult_Suc_right)
qed

lemma mpsearch1_exact:
  assumes "KADDR s a \<noteq> None" and "KADDR s (a + of_nat (16 * n)) \<noteq> None" and "unat (a + KERNBASE) + 16 * n < 4294967296"
  shows "mpsearch1 s m a (of_nat (16 * n)) = Some (find (mp_valid m) (map (\<lambda>i. a + KERNBASE + of_nat (16 * i)) [0..<n]))"
  using assms mp_loop_find [OF assms(3), of m] by (simp add: mpsearch1_def KADDR_def ac_simps split: if_splits del: of_nat_mult)

section \<open>The processors\<close>

datatype Mp_Entry = Proc u8 | Mp_Other

primrec entries_at :: "mem \<Rightarrow> u32 \<Rightarrow> Mp_Entry list \<Rightarrow> bool" where
  "entries_at m p [] \<longleftrightarrow> True"
| "entries_at m p (e # es) \<longleftrightarrow>
     (case e of Proc flags \<Rightarrow> m p = MPPROC \<and> m (p + 3) = flags \<and> entries_at m (p + 20) es
      | Mp_Other \<Rightarrow> m p \<in> {MPBUS, MPIOAPIC, MPIOINTR, MPLINTR} \<and> entries_at m (p + 8) es)"

definition procs :: "Mp_Entry list \<Rightarrow> u8 list" where
  "procs es = List.map_filter (\<lambda>e. case e of Proc flags \<Rightarrow> Some flags | Mp_Other \<Rightarrow> None) es"

lemma procs_simps [simp]: "procs [] = []" "procs (Proc f # es) = f # procs es" "procs (Mp_Other # es) = procs es"
  by (simp_all add: procs_def List.map_filter_simps)

lemma mp_entries_fold: "entries_at m p es \<Longrightarrow> mp_entries m (length es) p st = fold mp_add_proc (procs es) st"
proof (induction es arbitrary: p st)
  case (Cons e es)
  have "0 \<notin> {MPBUS, MPIOAPIC, MPIOINTR, MPLINTR}" by (simp add: MPBUS_def MPIOAPIC_def MPIOINTR_def MPLINTR_def)
  then show ?case using Cons by (cases e) (auto simp: MPPROC_def)
qed simp

text \<open>The number of the last processor with the boot flag, as the loop counts them.\<close>

primrec boot_index :: "nat \<Rightarrow> nat \<Rightarrow> u8 list \<Rightarrow> nat" where
  "boot_index k b [] = b"
| "boot_index k b (f # fs) = boot_index (min NCPU (Suc k)) (if f AND MPPROC_BOOT \<noteq> 0 then k else b) fs"

lemma mp_add_procs:
  assumes "ncpu st \<le> NCPU" and "\<forall>i<ncpu st. cpu_id (mp_cpus st i) = of_nat i"
  shows "ncpu (fold mp_add_proc fs st) = min NCPU (ncpu st + length fs)
    \<and> (\<forall>i<ncpu (fold mp_add_proc fs st). cpu_id (mp_cpus (fold mp_add_proc fs st) i) = of_nat i)
    \<and> bootcpu (fold mp_add_proc fs st) = boot_index (ncpu st) (bootcpu st) fs \<and> ismp (fold mp_add_proc fs st) = ismp st"
  using assms
proof (induction fs arbitrary: st)
  case (Cons f fs)
  let ?s = "mp_add_proc f st"
  have s: "ncpu ?s = min NCPU (Suc (ncpu st))" "ncpu ?s \<le> NCPU" "\<forall>i<ncpu ?s. cpu_id (mp_cpus ?s i) = of_nat i"
    "bootcpu ?s = (if f AND MPPROC_BOOT \<noteq> 0 then ncpu st else bootcpu st)" "ismp ?s = ismp st"
    using Cons.prems by (auto simp: mp_add_proc_def Let_def less_Suc_eq)
  show ?case using Cons.IH [OF s(2,3)] s(1,4,5) Cons.prems(1) by simp
qed auto

lemma boot_index_less:
  "k + length fs \<le> NCPU \<Longrightarrow> b < k \<or> (\<exists>f\<in>set fs. f AND MPPROC_BOOT \<noteq> 0) \<Longrightarrow> boot_index k b fs < k + length fs"
proof (induction fs arbitrary: k b)
  case (Cons f fs)
  have "min NCPU (Suc k) = Suc k" using Cons.prems(1) by simp
  moreover have "boot_index (Suc k) (if f AND MPPROC_BOOT \<noteq> 0 then k else b) fs < Suc k + length fs"
    by (rule Cons.IH) (use Cons.prems in auto)
  ultimately show ?case by simp
qed simp

text \<open>With a table of at most eight processors one of which has the boot flag, \<open>mp_init\<close> finds all of them, numbers them and
  starts with one of them.\<close>

theorem mp_init_finds:
  assumes "mpconfig s m = Some (Some (conf, mp))" and "entries_at m (conf + 44) es" and "unat (field16 m (conf + 34)) = length es"
    and "ncpu st = 0" and "length (procs es) \<le> NCPU" and "\<exists>f\<in>set (procs es). f AND MPPROC_BOOT \<noteq> 0"
  shows "\<exists>st'. mp_init s m imcr st = Some st' \<and> ismp st' \<and> ncpu st' = length (procs es) \<and> bootcpu st' < ncpu st'
    \<and> cpu_status (mp_cpus st' (bootcpu st')) = CPU_STARTED \<and> (\<forall>i<ncpu st'. cpu_id (mp_cpus st' i) = of_nat i)
    \<and> mp_lapicaddr st' = field32 m (conf + 36)"
proof -
  let ?i = "st\<lparr>bootcpu := 0, ismp := True, mp_lapicaddr := field32 m (conf + 36)\<rparr>"
  let ?f = "fold mp_add_proc (procs es) ?i"
  have e: "mp_entries m (length es) (conf + 44) ?i = ?f" using assms(2) by (rule mp_entries_fold)
  have f: "ncpu ?f = length (procs es)" "\<forall>i<ncpu ?f. cpu_id (mp_cpus ?f i) = of_nat i" "bootcpu ?f = boot_index 0 0 (procs es)" "ismp ?f"
    using mp_add_procs [of ?i "procs es"] assms(4,5) by simp_all
  have "boot_index 0 0 (procs es) < 0 + length (procs es)" by (rule boot_index_less) (use assms(5,6) in auto)
  then have b: "bootcpu ?f < ncpu ?f" using f by simp
  have l: "mp_lapicaddr (fold mp_add_proc fs st) = mp_lapicaddr st" for fs st
    by (induction fs arbitrary: st) (simp_all add: mp_add_proc_def Let_def)
  show ?thesis using assms(1,3) e f b l [of "procs es" ?i] by (auto simp: mp_init_def Let_def)
qed

text \<open>A boot processor that is the ninth of the table gets the index behind the array.\<close>

lemma bootcpu_behind_array: "boot_index 0 0 (replicate 8 0 @ [MPPROC_BOOT]) = NCPU"
  by (simp add: numeral_eq_Suc NCPU_def MPPROC_BOOT_def)

end
