(* ===== verification/Disk_Io.thy ===== *)
theory Disk_Io
  imports Env Strings
begin

text \<open>
  The drivers of the disk: \<open>fs/ide.c\<close> of the file server and the boot loader \<open>boot/main.c\<close>. The hardware is a parameter:
  the status register as the sequence of its values, and two drives that follow the ATA registers, which is all
  the theorems assume of them. A loop that waits for ever, a failed assertion and a panic are \<open>None\<close>.
\<close>

section \<open>The drives\<close>

record Ide =
  ide_status :: "nat \<Rightarrow> u8"
  ide_polls :: nat
  ide_regs :: "u32 \<Rightarrow> u8"
  ide_disks :: "bool \<Rightarrow> u32 \<Rightarrow> u8 list"
  ide_next :: u32
  diskno :: u32

text \<open>A write to the command register starts a transfer at the sector that the registers give.\<close>

definition ide_outb :: "u32 \<Rightarrow> u8 \<Rightarrow> Ide \<Rightarrow> Ide" where
  "ide_outb port v d = d\<lparr>ide_regs := (ide_regs d)(port := v), ide_next := (if port = 0x1F7 then 0 else ide_next d)\<rparr>"

definition ide_lba :: "Ide \<Rightarrow> u32" where
  "ide_lba d = ucast (ide_regs d 0x1F3) OR push_bit 8 (ucast (ide_regs d 0x1F4)) OR push_bit 16 (ucast (ide_regs d 0x1F5))
     OR push_bit 24 (ucast (ide_regs d 0x1F6 AND 0x0F))"

definition ide_dev :: "Ide \<Rightarrow> bool" where
  "ide_dev d = bit (ide_regs d 0x1F6) 4"

text \<open>\<open>insl\<close> and \<open>outsl\<close> on the data port: one sector.\<close>

definition insl :: "Ide \<Rightarrow> u8 list \<times> Ide" where
  "insl d = (ide_disks d (ide_dev d) (ide_lba d + ide_next d), d\<lparr>ide_next := ide_next d + 1\<rparr>)"

definition outsl :: "u8 list \<Rightarrow> Ide \<Rightarrow> Ide" where
  "outsl bs d = d\<lparr>ide_disks := (ide_disks d)(ide_dev d := (ide_disks d (ide_dev d))(ide_lba d + ide_next d := bs)), ide_next := ide_next d + 1\<rparr>"

section \<open>The driver of the file server\<close>

definition SECTSIZE :: u32 where "SECTSIZE = 512"
definition IDE_BSY :: u8 where "IDE_BSY = 0x80"
definition IDE_DRDY :: u8 where "IDE_DRDY = 0x40"
definition IDE_DF :: u8 where "IDE_DF = 0x20"
definition IDE_ERR :: u8 where "IDE_ERR = 0x01"

definition ide_inb_status :: "Ide \<Rightarrow> u8 \<times> Ide" where
  "ide_inb_status d = (ide_status d (ide_polls d), d\<lparr>ide_polls := ide_polls d + 1\<rparr>)"

partial_function (option) ide_wait_ready :: "bool \<Rightarrow> Ide \<Rightarrow> (int \<times> Ide) option" where
  "ide_wait_ready check_error d =
     (let (r, d) = ide_inb_status d in
      if r AND (IDE_BSY OR IDE_DRDY) \<noteq> IDE_DRDY then ide_wait_ready check_error d
      else if check_error \<and> r AND (IDE_DF OR IDE_ERR) \<noteq> 0 then Some (- 1, d) else Some (0, d))"

text \<open>The loop of \<open>ide_probe_disk1\<close>, with the rounds that are left.\<close>

primrec probe_loop :: "nat \<Rightarrow> Ide \<Rightarrow> bool \<times> Ide" where
  "probe_loop 0 d = (False, d)"
| "probe_loop (Suc n) d =
     (let (r, d) = ide_inb_status d in if r AND (IDE_BSY OR IDE_DF OR IDE_ERR) \<noteq> 0 then probe_loop n d else (True, d))"

definition ide_probe_disk1 :: "Ide \<Rightarrow> (bool \<times> Ide) option" where
  "ide_probe_disk1 d =
     do { (_, d) \<leftarrow> ide_wait_ready False d;
          let d = ide_outb 0x1F6 (0xE0 OR push_bit 4 1) d;
          let (present, d) = probe_loop 1000 d;
          Some (present, ide_outb 0x1F6 (0xE0 OR push_bit 4 0) d) }"

definition ide_set_disk :: "int \<Rightarrow> Ide \<Rightarrow> Ide option" where
  "ide_set_disk dn d = (if dn \<noteq> 0 \<and> dn \<noteq> 1 then None else Some (d\<lparr>diskno := word_of_int dn\<rparr>))"

text \<open>The registers that both \<open>ide_read\<close> and \<open>ide_write\<close> set, and the command.\<close>

definition ide_command :: "u32 \<Rightarrow> u32 \<Rightarrow> u8 \<Rightarrow> Ide \<Rightarrow> Ide" where
  "ide_command secno nsecs cmd d =
     (let d = ide_outb 0x1F2 (ucast nsecs) d;
          d = ide_outb 0x1F3 (ucast (secno AND 0xFF)) d;
          d = ide_outb 0x1F4 (ucast (drop_bit 8 secno AND 0xFF)) d;
          d = ide_outb 0x1F5 (ucast (drop_bit 16 secno AND 0xFF)) d;
          d = ide_outb 0x1F6 (ucast (0xE0 OR push_bit 4 (diskno d AND 1) OR (drop_bit 24 secno AND 0x0F))) d
      in ide_outb 0x1F7 cmd d)"

primrec ide_read_loop :: "nat \<Rightarrow> u32 \<Rightarrow> mem \<Rightarrow> Ide \<Rightarrow> (int \<times> mem \<times> Ide) option" where
  "ide_read_loop 0 dst m d = Some (0, m, d)"
| "ide_read_loop (Suc n) dst m d =
     do { (r, d) \<leftarrow> ide_wait_ready True d;
          if r < 0 then Some (r, m, d)
          else let (bs, d) = insl d in ide_read_loop n (dst + SECTSIZE) (mem_put dst bs m) d }"

definition ide_read :: "u32 \<Rightarrow> u32 \<Rightarrow> u32 \<Rightarrow> mem \<Rightarrow> Ide \<Rightarrow> (int \<times> mem \<times> Ide) option" where
  "ide_read secno dst nsecs m d =
     (if \<not> nsecs \<le> 256 then None
      else do { (_, d) \<leftarrow> ide_wait_ready False d;
                ide_read_loop (unat nsecs) dst m (ide_command secno nsecs 0x20 d) })"

definition sector_at :: "mem \<Rightarrow> u32 \<Rightarrow> u8 list" where
  "sector_at m src = map (\<lambda>i. m (src + of_nat i)) [0..<512]"

primrec ide_write_loop :: "nat \<Rightarrow> u32 \<Rightarrow> mem \<Rightarrow> Ide \<Rightarrow> (int \<times> Ide) option" where
  "ide_write_loop 0 src m d = Some (0, d)"
| "ide_write_loop (Suc n) src m d =
     do { (r, d) \<leftarrow> ide_wait_ready True d;
          if r < 0 then Some (r, d) else ide_write_loop n (src + SECTSIZE) m (outsl (sector_at m src) d) }"

definition ide_write :: "u32 \<Rightarrow> u32 \<Rightarrow> u32 \<Rightarrow> mem \<Rightarrow> Ide \<Rightarrow> (int \<times> Ide) option" where
  "ide_write secno src nsecs m d =
     (if \<not> nsecs \<le> 256 then None
      else do { (_, d) \<leftarrow> ide_wait_ready False d;
                ide_write_loop (unat nsecs) src m (ide_command secno nsecs 0x30 d) })"

section \<open>The boot loader\<close>

definition ELFHDR :: u32 where "ELFHDR = 0x10000"

definition waitdisk :: "Ide \<Rightarrow> Ide option" where
  "waitdisk d = map_option snd (ide_wait_ready False d)"

definition readsect :: "u32 \<Rightarrow> u32 \<Rightarrow> mem \<Rightarrow> Ide \<Rightarrow> (mem \<times> Ide) option" where
  "readsect dst offset m d =
     do { d \<leftarrow> waitdisk d;
          let d = ide_outb 0x1F2 1 d;
          let d = ide_outb 0x1F3 (ucast offset) d;
          let d = ide_outb 0x1F4 (ucast (drop_bit 8 offset)) d;
          let d = ide_outb 0x1F5 (ucast (drop_bit 16 offset)) d;
          let d = ide_outb 0x1F6 (ucast (drop_bit 24 offset OR 0xE0)) d;
          let d = ide_outb 0x1F7 0x20 d;
          d \<leftarrow> waitdisk d;
          let (bs, d) = insl d;
          Some (mem_put dst bs m, d) }"

partial_function (option) readseg_loop :: "u32 \<Rightarrow> u32 \<Rightarrow> u32 \<Rightarrow> mem \<Rightarrow> Ide \<Rightarrow> (mem \<times> Ide) option" where
  "readseg_loop pa end_pa offset m d =
     (if pa < end_pa
      then do { (m, d) \<leftarrow> readsect pa offset m d; readseg_loop (pa + SECTSIZE) end_pa (offset + 1) m d }
      else Some (m, d))"

definition readseg :: "u32 \<Rightarrow> u32 \<Rightarrow> u32 \<Rightarrow> mem \<Rightarrow> Ide \<Rightarrow> (mem \<times> Ide) option" where
  "readseg pa count offset m d =
     (let end_pa = pa + count; pa = pa AND NOT (SECTSIZE - 1); offset = offset div SECTSIZE + 1
      in readseg_loop pa end_pa offset m d)"

text \<open>The loop over the program headers, which lie in the memory that the segments are loaded into.\<close>

primrec load_headers :: "nat \<Rightarrow> u32 \<Rightarrow> mem \<Rightarrow> Ide \<Rightarrow> (mem \<times> Ide) option" where
  "load_headers 0 ph m d = Some (m, d)"
| "load_headers (Suc n) ph m d =
     (let h = (\<lambda>i. m (ph + of_nat i))
      in do { (m, d) \<leftarrow> readseg (le32 h 12) (le32 h 20) (le32 h 4) m d; load_headers n (ph + 32) m d })"

text \<open>The entry point that is called; without a kernel on the disk the loader stops.\<close>

definition bootmain :: "mem \<Rightarrow> Ide \<Rightarrow> (u32 option \<times> mem \<times> Ide) option" where
  "bootmain m d =
     do { (m, d) \<leftarrow> readseg ELFHDR (SECTSIZE * 8) 0 m d;
          let elf = (\<lambda>i. m (ELFHDR + of_nat i));
          if le32 elf 0 \<noteq> ELF_MAGIC then Some (None, m, d)
          else do { (m, d) \<leftarrow> load_headers (unat (le16 elf 44)) (ELFHDR + le32 elf 28) m d;
                    Some (Some (le32 (\<lambda>i. m (ELFHDR + of_nat i)) 24), m, d) } }"

section \<open>Waiting and commands\<close>

definition drive_ready :: "Ide \<Rightarrow> bool" where
  "drive_ready d \<longleftrightarrow> (\<forall>n. \<exists>k\<ge>n. ide_status d k AND (IDE_BSY OR IDE_DRDY) = IDE_DRDY)"

definition no_errors :: "Ide \<Rightarrow> bool" where
  "no_errors d \<longleftrightarrow> (\<forall>n. ide_status d n AND (IDE_DF OR IDE_ERR) = 0)"

lemma ide_wait_ends:
  assumes "drive_ready d"
  shows "\<exists>r n. ide_wait_ready e d = Some (r, d\<lparr>ide_polls := n\<rparr>) \<and> (\<not> e \<or> no_errors d \<longrightarrow> r = 0)"
proof -
  obtain k where "ide_polls d \<le> k" "ide_status d k AND (IDE_BSY OR IDE_DRDY) = IDE_DRDY" using assms by (auto simp: drive_ready_def)
  then show ?thesis
  proof (induction "k - ide_polls d" arbitrary: d rule: less_induct)
    case less
    show ?case
    proof (cases "ide_status d (ide_polls d) AND (IDE_BSY OR IDE_DRDY) = IDE_DRDY")
      case True
      then show ?thesis by (subst ide_wait_ready.simps) (auto simp: ide_inb_status_def no_errors_def)
    next
      case False
      let ?d = "d\<lparr>ide_polls := ide_polls d + 1\<rparr>"
      have "ide_polls d < k" using less.prems False by (cases "k = ide_polls d") auto
      then have "\<exists>r n. ide_wait_ready e ?d = Some (r, ?d\<lparr>ide_polls := n\<rparr>) \<and> (\<not> e \<or> no_errors ?d \<longrightarrow> r = 0)"
        by (intro less.hyps) (use less.prems in auto)
      then show ?thesis using False by (subst ide_wait_ready.simps) (auto simp: ide_inb_status_def no_errors_def)
    qed
  qed
qed

text \<open>The registers give the drive the sector number back, which has 28 bits.\<close>

lemma high_bits_zero: "28 \<le> j \<Longrightarrow> s < 0x10000000 \<Longrightarrow> \<not> bit (s :: u32) j"
proof -
  assume s: "28 \<le> j" "s < 0x10000000"
  then have "take_bit 28 s = s" by (simp add: word_unat_eq_iff unsigned_take_bit_eq take_bit_nat_eq_self word_less_nat_alt)
  then show ?thesis using s(1) by (metis bit_take_bit_iff not_le)
qed

lemma register_masks: "(0xFF :: u32) = mask 8" "(0x0F :: u32) = mask 4" "(0x0F :: u8) = mask 4" "(0xE0 :: u32) = push_bit 5 (mask 3)"
  by (simp_all add: mask_eq_exp_minus_1 push_bit_eq_mult)

lemma low_nibble:
  fixes s :: u32
  shows "(ucast (0xE0 OR push_bit 4 x OR (drop_bit 24 s AND 0x0F)) :: u8) AND 0x0F = ucast (take_bit 4 (drop_bit 24 s))"
    and "(ucast (drop_bit 24 s OR 0xE0) :: u8) AND 0x0F = ucast (take_bit 4 (drop_bit 24 s))"
  unfolding register_masks by (auto intro!: bit_word_eqI simp: bit_simps)

lemma join_bytes:
  fixes s :: u32
  assumes "s < 0x10000000"
  shows "ucast (ucast s :: u8) OR push_bit 8 (ucast (ucast (drop_bit 8 s) :: u8)) OR push_bit 16 (ucast (ucast (drop_bit 16 s) :: u8))
      OR push_bit 24 (ucast (ucast (take_bit 4 (drop_bit 24 s)) :: u8)) = s" (is "?r = s")
proof (rule bit_word_eqI)
  fix n :: nat
  consider "n < 8" | "8 \<le> n" "n < 16" | "16 \<le> n" "n < 24" | "24 \<le> n" "n < 28" | "28 \<le> n" by linarith
  then show "bit ?r n = bit s n" using high_bits_zero [OF _ assms, of n] by cases (auto simp: bit_simps)
qed

lemma lba_of_bytes:
  fixes s :: u32
  assumes "s < 0x10000000"
  shows "ucast (ucast (s AND 0xFF) :: u8) OR push_bit 8 (ucast (ucast (drop_bit 8 s AND 0xFF) :: u8))
      OR push_bit 16 (ucast (ucast (drop_bit 16 s AND 0xFF) :: u8))
      OR push_bit 24 (ucast ((ucast (0xE0 OR push_bit 4 x OR (drop_bit 24 s AND 0x0F)) :: u8) AND 0x0F)) = s"
    and "ucast (ucast s :: u8) OR push_bit 8 (ucast (ucast (drop_bit 8 s) :: u8)) OR push_bit 16 (ucast (ucast (drop_bit 16 s) :: u8))
      OR push_bit 24 (ucast ((ucast (drop_bit 24 s OR 0xE0) :: u8) AND 0x0F)) = s"
proof -
  have "(ucast (w AND 0xFF) :: u8) = ucast w" for w :: u32 unfolding register_masks by (auto intro!: bit_word_eqI simp: bit_simps)
  then show "ucast (ucast (s AND 0xFF) :: u8) OR push_bit 8 (ucast (ucast (drop_bit 8 s AND 0xFF) :: u8))
      OR push_bit 16 (ucast (ucast (drop_bit 16 s AND 0xFF) :: u8))
      OR push_bit 24 (ucast ((ucast (0xE0 OR push_bit 4 x OR (drop_bit 24 s AND 0x0F)) :: u8) AND 0x0F)) = s"
    unfolding low_nibble by (simp only: join_bytes [OF assms])
  show "ucast (ucast s :: u8) OR push_bit 8 (ucast (ucast (drop_bit 8 s) :: u8)) OR push_bit 16 (ucast (ucast (drop_bit 16 s) :: u8))
      OR push_bit 24 (ucast ((ucast (drop_bit 24 s OR 0xE0) :: u8) AND 0x0F)) = s"
    unfolding low_nibble by (rule join_bytes [OF assms])
qed

lemma dev_of_byte:
  fixes s :: u32
  shows "bit (ucast (0xE0 OR push_bit 4 (x AND 1) OR (drop_bit 24 s AND 0x0F)) :: u8) 4 \<longleftrightarrow> bit (x :: u32) 0"
    and "s < 0x10000000 \<Longrightarrow> \<not> bit (ucast (drop_bit 24 s OR 0xE0) :: u8) 4"
  unfolding register_masks using high_bits_zero [of 28 s] by (auto simp: bit_simps)

text \<open>Two states of the hardware with the same disks and the same future of the status register.\<close>

definition drive_same :: "Ide \<Rightarrow> Ide \<Rightarrow> bool" where
  "drive_same d d' \<longleftrightarrow> ide_disks d' = ide_disks d \<and> ide_status d' = ide_status d \<and> diskno d' = diskno d"

lemma drive_same_trans: "drive_same d e \<Longrightarrow> drive_same e f \<Longrightarrow> drive_same d f"
  by (simp add: drive_same_def)

lemma drive_same_ready: "drive_same d e \<Longrightarrow> drive_ready d \<Longrightarrow> drive_ready e" "drive_same d e \<Longrightarrow> no_errors d \<Longrightarrow> no_errors e"
  by (simp_all add: drive_same_def drive_ready_def no_errors_def)

lemma ide_command_decodes:
  assumes "secno < 0x10000000"
  shows "ide_lba (ide_command secno n cmd d) = secno" and "ide_dev (ide_command secno n cmd d) = bit (diskno d) 0"
    and "ide_next (ide_command secno n cmd d) = 0" and "drive_same d (ide_command secno n cmd d)"
  using lba_of_bytes(1) [OF assms, of "diskno d AND 1"] dev_of_byte(1) [of "diskno d" secno]
  by (simp_all add: ide_command_def ide_outb_def ide_lba_def ide_dev_def Let_def drive_same_def)

section \<open>Transfers\<close>

text \<open>The bytes of \<open>n\<close> sectors of a drive from the sector \<open>k\<close> on.\<close>

definition disk_bytes :: "Ide \<Rightarrow> bool \<Rightarrow> u32 \<Rightarrow> nat \<Rightarrow> u8 list" where
  "disk_bytes d dev k n = concat (map (\<lambda>i. ide_disks d dev (k + of_nat i)) [0..<n])"

definition sectors_ok :: "Ide \<Rightarrow> bool" where
  "sectors_ok d \<longleftrightarrow> (\<forall>dev k. length (ide_disks d dev k) = 512)"

lemma disk_bytes_Suc: "disk_bytes d dev k (Suc n) = ide_disks d dev k @ disk_bytes d dev (k + 1) n"
  unfolding disk_bytes_def upt_conv_Cons [OF zero_less_Suc] map_Suc_upt [symmetric] by (simp add: o_def ac_simps)

lemma disk_bytes_same: "drive_same d e \<Longrightarrow> disk_bytes e dev k n = disk_bytes d dev k n"
  by (simp add: disk_bytes_def drive_same_def)

lemma ide_read_loop_exact:
  assumes "drive_ready d" and "no_errors d" and "sectors_ok d"
  shows "\<exists>d'. ide_read_loop n dst m d = Some (0, mem_put dst (disk_bytes d (ide_dev d) (ide_lba d + ide_next d) n) m, d') \<and> drive_same d d'"
  using assms
proof (induction n arbitrary: dst m d)
  case 0
  then show ?case by (simp add: disk_bytes_def drive_same_def)
next
  case (Suc n)
  obtain p where w: "ide_wait_ready True d = Some (0, d\<lparr>ide_polls := p\<rparr>)" using ide_wait_ends [OF Suc.prems(1), of True] Suc.prems(2) by auto
  define e where "e = d\<lparr>ide_polls := p, ide_next := ide_next d + 1\<rparr>"
  have e: "drive_same d e" "ide_dev e = ide_dev d" "ide_lba e = ide_lba d" "ide_next e = ide_next d + 1"
    by (simp_all add: e_def drive_same_def ide_dev_def ide_lba_def)
  have i: "insl (d\<lparr>ide_polls := p\<rparr>) = (ide_disks d (ide_dev d) (ide_lba d + ide_next d), e)"
    by (simp add: insl_def e_def ide_dev_def ide_lba_def)
  let ?bs = "ide_disks d (ide_dev d) (ide_lba d + ide_next d)"
  have "sectors_ok e" using Suc.prems(3) e(1) by (simp add: sectors_ok_def drive_same_def)
  then obtain d' where d': "ide_read_loop n (dst + SECTSIZE) (mem_put dst ?bs m) e =
      Some (0, mem_put (dst + SECTSIZE) (disk_bytes e (ide_dev e) (ide_lba e + ide_next e) n) (mem_put dst ?bs m), d')" "drive_same e d'"
    using Suc.IH [of e "dst + SECTSIZE" "mem_put dst ?bs m"] drive_same_ready [OF e(1)] Suc.prems by blast
  have "length ?bs = 512" using Suc.prems(3) by (simp add: sectors_ok_def)
  then have "mem_put dst (disk_bytes d (ide_dev d) (ide_lba d + ide_next d) (Suc n)) m =
      mem_put (dst + SECTSIZE) (disk_bytes e (ide_dev e) (ide_lba e + ide_next e) n) (mem_put dst ?bs m)"
    unfolding disk_bytes_Suc mem_put_append disk_bytes_same [OF e(1)] e(2-4) by (simp add: SECTSIZE_def add.assoc)
  then show ?case using w i d' drive_same_trans [OF e(1) d'(2)] by simp
qed

text \<open>\<open>ide_read\<close> returns when the drive becomes ready in the end, and stores the sectors of the chosen disk.\<close>

theorem ide_read_exact:
  assumes "drive_ready d" and "no_errors d" and "sectors_ok d" and "secno < 0x10000000" and "nsecs \<le> 256"
  shows "\<exists>d'. ide_read secno dst nsecs m d = Some (0, mem_put dst (disk_bytes d (bit (diskno d) 0) secno (unat nsecs)) m, d') \<and> drive_same d d'"
proof -
  obtain p r where w: "ide_wait_ready False d = Some (r, d\<lparr>ide_polls := p\<rparr>)" using ide_wait_ends [OF assms(1), of False] by auto
  let ?d = "d\<lparr>ide_polls := p\<rparr>" and ?e = "ide_command secno nsecs 0x20 (d\<lparr>ide_polls := p\<rparr>)"
  have e: "drive_same d ?e" using ide_command_decodes(4) [OF assms(4), of ?d nsecs "0x20"] by (simp add: drive_same_def)
  have "sectors_ok ?e" using assms(3) e by (simp add: sectors_ok_def drive_same_def)
  then obtain d' where "ide_read_loop (unat nsecs) dst m ?e = Some (0, mem_put dst (disk_bytes ?e (ide_dev ?e) (ide_lba ?e + ide_next ?e) (unat nsecs)) m, d')"
    "drive_same ?e d'" using ide_read_loop_exact [of ?e "unat nsecs" dst m] drive_same_ready [OF e] assms by blast
  then show ?thesis using w assms(5) drive_same_trans [OF e] ide_command_decodes(1-3) [OF assms(4), of nsecs "0x20" ?d]
    by (simp add: ide_read_def disk_bytes_same [OF e])
qed

text \<open>A write stores the sectors of the memory, and nothing else changes on either disk.\<close>

definition disk_write :: "bool \<Rightarrow> u32 \<Rightarrow> mem \<Rightarrow> u32 \<Rightarrow> nat \<Rightarrow> (bool \<Rightarrow> u32 \<Rightarrow> u8 list) \<Rightarrow> bool \<Rightarrow> u32 \<Rightarrow> u8 list" where
  "disk_write dev k m src n disks = fold (\<lambda>i ds. ds(dev := (ds dev)(k + of_nat i := sector_at m (src + 512 * of_nat i)))) [0..<n] disks"

lemma disk_write_Suc:
  "disk_write dev k m src (Suc n) disks = disk_write dev (k + 1) m (src + 512) n (disks(dev := (disks dev)(k := sector_at m src)))"
  unfolding disk_write_def upt_conv_Cons [OF zero_less_Suc] map_Suc_upt [symmetric] by (simp add: fold_map o_def algebra_simps)

lemma ide_write_loop_exact:
  assumes "drive_ready d" and "no_errors d"
  shows "\<exists>d'. ide_write_loop n src m d = Some (0, d') \<and> ide_disks d' = disk_write (ide_dev d) (ide_lba d + ide_next d) m src n (ide_disks d)
    \<and> ide_status d' = ide_status d \<and> diskno d' = diskno d"
  using assms
proof (induction n arbitrary: src d)
  case 0
  then show ?case by (simp add: disk_write_def)
next
  case (Suc n)
  obtain p where w: "ide_wait_ready True d = Some (0, d\<lparr>ide_polls := p\<rparr>)" using ide_wait_ends [OF Suc.prems(1), of True] Suc.prems(2) by auto
  define e where "e = outsl (sector_at m src) (d\<lparr>ide_polls := p\<rparr>)"
  have e: "ide_status e = ide_status d" "diskno e = diskno d" "ide_dev e = ide_dev d" "ide_lba e + ide_next e = ide_lba d + ide_next d + 1"
    "ide_disks e = (ide_disks d)(ide_dev d := (ide_disks d (ide_dev d))(ide_lba d + ide_next d := sector_at m src))"
    by (simp_all add: e_def outsl_def ide_dev_def ide_lba_def add.assoc)
  have "drive_ready e" "no_errors e" using Suc.prems e(1) by (simp_all add: drive_ready_def no_errors_def)
  then obtain d' where "ide_write_loop n (src + SECTSIZE) m e = Some (0, d')" "ide_status d' = ide_status e" "diskno d' = diskno e"
    "ide_disks d' = disk_write (ide_dev e) (ide_lba e + ide_next e) m (src + SECTSIZE) n (ide_disks e)" using Suc.IH by blast
  then show ?case using w e unfolding disk_write_Suc by (simp add: e_def [symmetric] SECTSIZE_def)
qed

lemma disk_write_at:
  assumes "n \<le> 4294967296"
  shows "i < n \<Longrightarrow> disk_write dev k m src n disks dev (k + of_nat i) = sector_at m (src + 512 * of_nat i)"
    and "(\<And>i. i < n \<Longrightarrow> dev' = dev \<Longrightarrow> x \<noteq> k + of_nat i) \<Longrightarrow> disk_write dev k m src n disks dev' x = disks dev' x"
  using assms
proof (induction n)
  case (Suc n)
  have s: "disk_write dev k m src (Suc n) disks = (let ds = disk_write dev k m src n disks
      in ds(dev := (ds dev)(k + of_nat n := sector_at m (src + 512 * of_nat n))))" by (simp add: disk_write_def Let_def)
  {
    case 1
    have "(of_nat i :: u32) = of_nat n \<Longrightarrow> i = n" using 1 of_nat_inverse [of i "of_nat n :: u32"] by (simp add: unat_of_nat)
    then show ?case using 1 Suc.IH(1) unfolding s by (auto simp: Let_def less_Suc_eq)
  next
    case 2
    then show ?case using Suc.IH(2) unfolding s by (auto simp: Let_def)
  }
qed (simp_all add: disk_write_def)

lemma sectors_of_mem: "concat (map (\<lambda>i. sector_at m (src + 512 * of_nat i)) [0..<n]) = map (\<lambda>i. m (src + of_nat i)) [0..<512 * n]"
proof (induction n)
  case (Suc n)
  have "512 * Suc n = 512 * n + 512" by simp
  then have u: "[0..<512 * Suc n] = [0..<512 * n] @ [512 * n..<512 * n + 512]" using upt_add_eq_append [of 0 "512 * n" 512] by (simp only: zero_le simp_thms)
  have "map (\<lambda>i. m (src + of_nat i)) [512 * n..<512 * n + 512] = map (\<lambda>i. m (src + of_nat (i + 512 * n))) [0..<512]"
    using arg_cong [OF map_add_upt [of "512 * n" 512], of "map (\<lambda>i. m (src + of_nat i))"] by (simp add: o_def add.commute del: upt_rec_numeral)
  also have "\<dots> = sector_at m (src + 512 * of_nat n)" unfolding sector_at_def by (rule map_cong) (simp_all add: ac_simps)
  finally show ?case using Suc.IH u by (simp del: mult_Suc_right upt_rec_numeral)
qed simp

text \<open>What \<open>ide_write\<close> writes \<open>ide_read\<close> reads back; the other sectors of the two disks keep their contents.\<close>

theorem ide_write_read:
  assumes "drive_ready d" and "no_errors d" and "sectors_ok d" and "secno < 0x10000000" and "nsecs \<le> 256"
  shows "\<exists>d' d''. ide_write secno src nsecs m d = Some (0, d')
    \<and> ide_read secno dst nsecs m2 d' = Some (0, mem_put dst (map (\<lambda>i. m (src + of_nat i)) [0..<512 * unat nsecs]) m2, d'')
    \<and> (\<forall>dev x. (dev = bit (diskno d) 0 \<longrightarrow> (\<forall>i<unat nsecs. x \<noteq> secno + of_nat i)) \<longrightarrow> ide_disks d' dev x = ide_disks d dev x)"
proof -
  obtain p r where w: "ide_wait_ready False d = Some (r, d\<lparr>ide_polls := p\<rparr>)" using ide_wait_ends [OF assms(1), of False] by auto
  let ?d = "d\<lparr>ide_polls := p\<rparr>" and ?e = "ide_command secno nsecs 0x30 (d\<lparr>ide_polls := p\<rparr>)" and ?n = "unat nsecs" and ?dev = "bit (diskno d) 0"
  have e: "drive_same d ?e" using ide_command_decodes(4) [OF assms(4), of ?d nsecs "0x30"] by (simp add: drive_same_def)
  then obtain d' where d': "ide_write_loop ?n src m ?e = Some (0, d')" "ide_disks d' = disk_write (ide_dev ?e) (ide_lba ?e + ide_next ?e) m src ?n (ide_disks ?e)"
    "ide_status d' = ide_status ?e" "diskno d' = diskno ?e" using ide_write_loop_exact [of ?e ?n src m] drive_same_ready [OF e] assms(1,2) by blast
  have disks: "ide_disks d' = disk_write ?dev secno m src ?n (ide_disks d)"
    unfolding d'(2) ide_command_decodes(1-3) [OF assms(4)] using e by (simp add: drive_same_def)
  have n: "?n \<le> 4294967296" using assms(5) by (simp add: word_le_nat_alt)
  have ok: "sectors_ok d'" unfolding sectors_ok_def
  proof (intro allI)
    fix dev x
    show "length (ide_disks d' dev x) = 512"
    proof (cases "dev = ?dev \<and> (\<exists>i<?n. x = secno + of_nat i)")
      case True
      then show ?thesis unfolding disks using disk_write_at(1) [OF n] by (auto simp: sector_at_def)
    next
      case False
      then have "ide_disks d' dev x = ide_disks d dev x" unfolding disks by (intro disk_write_at(2) [OF n]) auto
      then show ?thesis using assms(3) by (simp add: sectors_ok_def)
    qed
  qed
  have st: "ide_status d' = ide_status d" "diskno d' = diskno d" using d'(3,4) e by (simp_all add: drive_same_def)
  have "drive_ready d'" "no_errors d'" using assms(1,2) st(1) by (simp_all add: drive_ready_def no_errors_def)
  then obtain d'' where "ide_read secno dst nsecs m2 d' = Some (0, mem_put dst (disk_bytes d' (bit (diskno d') 0) secno ?n) m2, d'')"
    using ide_read_exact [OF _ _ ok assms(4,5)] by blast
  moreover have "disk_bytes d' (bit (diskno d') 0) secno ?n = map (\<lambda>i. m (src + of_nat i)) [0..<512 * ?n]"
    unfolding st disk_bytes_def disks sectors_of_mem [symmetric] by (intro arg_cong [where f = concat] map_cong refl) (simp add: disk_write_at(1) [OF n])
  moreover have "ide_write secno src nsecs m d = Some (0, d')" using w d'(1) assms(5) by (simp add: ide_write_def)
  moreover have "ide_disks d' dev x = ide_disks d dev x" if "dev = ?dev \<longrightarrow> (\<forall>i<?n. x \<noteq> secno + of_nat i)" for dev x
    unfolding disks by (rule disk_write_at(2) [OF n]) (use that in blast)
  ultimately show ?thesis by auto
qed

section \<open>Loading the kernel\<close>

lemma readsect_exact:
  assumes "drive_ready d" and "offset < 0x10000000"
  shows "\<exists>d'. readsect dst offset m d = Some (mem_put dst (ide_disks d False offset) m, d') \<and> drive_same d d'"
proof -
  define out where "out e = ide_outb 0x1F7 0x20 (ide_outb 0x1F6 (ucast (drop_bit 24 offset OR 0xE0)) (ide_outb 0x1F5 (ucast (drop_bit 16 offset))
    (ide_outb 0x1F4 (ucast (drop_bit 8 offset)) (ide_outb 0x1F3 (ucast offset) (ide_outb 0x1F2 1 e)))))" for e
  have o: "drive_same e (out e)" "ide_lba (out e) = offset" "\<not> ide_dev (out e)" "ide_next (out e) = 0" for e
    using lba_of_bytes(2) [OF assms(2)] dev_of_byte(2) [OF assms(2)]
    by (simp_all add: out_def ide_outb_def ide_lba_def ide_dev_def drive_same_def)
  obtain p r where 1: "ide_wait_ready False d = Some (r, d\<lparr>ide_polls := p\<rparr>)" using ide_wait_ends [OF assms(1), of False] by auto
  let ?e = "out (d\<lparr>ide_polls := p\<rparr>)"
  have e: "drive_same d ?e" using o(1) [of "d\<lparr>ide_polls := p\<rparr>"] by (simp add: drive_same_def)
  obtain q r' where 2: "ide_wait_ready False ?e = Some (r', ?e\<lparr>ide_polls := q\<rparr>)"
    using ide_wait_ends [OF drive_same_ready(1) [OF e assms(1)], of False] by auto
  have "insl (?e\<lparr>ide_polls := q\<rparr>) = (ide_disks d False offset, ?e\<lparr>ide_polls := q, ide_next := 1\<rparr>)"
    using o(2-4) [of "d\<lparr>ide_polls := p\<rparr>"] e by (simp add: insl_def ide_dev_def ide_lba_def drive_same_def)
  then have "readsect dst offset m d = Some (mem_put dst (ide_disks d False offset) m, ?e\<lparr>ide_polls := q, ide_next := 1\<rparr>)"
    using 1 2 by (simp add: readsect_def waitdisk_def out_def)
  then show ?thesis using e by (auto simp: drive_same_def)
qed

lemma readseg_loop_exact:
  assumes "drive_ready d" and "sectors_ok d" and "unat pa + 512 * n < 4294967296" and "unat offset + n \<le> 268435456"
    and "unat lim \<le> unat pa + 512 * n" and "unat pa + 512 * n < unat lim + 512"
  shows "\<exists>d'. readseg_loop pa lim offset m d = Some (mem_put pa (disk_bytes d False offset n) m, d') \<and> drive_same d d'"
  using assms
proof (induction n arbitrary: pa offset m d)
  case 0
  then show ?case by (subst readseg_loop.simps) (simp add: word_less_nat_alt disk_bytes_def drive_same_def)
next
  case (Suc n)
  have o: "offset < 0x10000000" "unat (offset + 1) = unat offset + 1" using Suc.prems(4) unat_plus_nat [of offset 1] by (simp_all add: word_less_nat_alt)
  have u: "unat (pa + SECTSIZE) = unat pa + 512" using unat_plus_nat [of pa 512] Suc.prems(3) by (simp add: SECTSIZE_def)
  obtain e where e: "readsect pa offset m d = Some (mem_put pa (ide_disks d False offset) m, e)" "drive_same d e"
    using readsect_exact [OF Suc.prems(1) o(1)] by blast
  have "sectors_ok e" using Suc.prems(2) e(2) by (simp add: sectors_ok_def drive_same_def)
  then obtain d' where d': "readseg_loop (pa + SECTSIZE) lim (offset + 1) (mem_put pa (ide_disks d False offset) m) e =
      Some (mem_put (pa + SECTSIZE) (disk_bytes e False (offset + 1) n) (mem_put pa (ide_disks d False offset) m), d')" "drive_same e d'"
    using Suc.IH [of e "pa + SECTSIZE" "offset + 1"] drive_same_ready(1) [OF e(2) Suc.prems(1)] Suc.prems(3-6) unfolding u o(2) by auto
  have "length (ide_disks d False offset) = 512" using Suc.prems(2) by (simp add: sectors_ok_def)
  then have "mem_put pa (disk_bytes d False offset (Suc n)) m =
      mem_put (pa + SECTSIZE) (disk_bytes e False (offset + 1) n) (mem_put pa (ide_disks d False offset) m)"
    unfolding disk_bytes_Suc mem_put_append disk_bytes_same [OF e(2)] by (simp add: SECTSIZE_def)
  moreover have "pa < lim" using Suc.prems(6) by (simp add: word_less_nat_alt)
  ultimately show ?case using e d' drive_same_trans [OF e(2)] by (subst readseg_loop.simps) auto
qed

lemma mem_put_nth: "i < length bs \<Longrightarrow> length bs \<le> 4294967296 \<Longrightarrow> mem_put p bs m (p + of_nat i) = bs ! i"
proof (induction bs arbitrary: p m i)
  case (Cons b bs)
  have "p \<notin> span (p + 1) (length bs)"
  proof
    assume "p \<in> span (p + 1) (length bs)"
    then obtain j where j: "j < length bs" "p = p + 1 + of_nat j" by (auto simp: span_def)
    then have "(of_nat (Suc j) :: u32) = 0" by (metis add.assoc add_cancel_right_right of_nat_Suc)
    then have "unat (of_nat (Suc j) :: u32) = 0" by simp
    then show False using j(1) Cons.prems(2) by (simp add: unat_of_nat del: of_nat_Suc)
  qed
  then have "mem_put (p + 1) bs (m(p := b)) p = b" using mem_put_outside by simp
  then show ?case using Cons.IH [of "i - 1" "p + 1" "m(p := b)"] Cons.prems by (cases i) (simp_all add: add.assoc fun_upd_def)
qed simp

lemma disk_bytes_nth:
  assumes "sectors_ok d"
  shows "length (disk_bytes d dev k n) = 512 * n"
    and "i < 512 * n \<Longrightarrow> disk_bytes d dev k n ! i = ide_disks d dev (k + of_nat (i div 512)) ! (i mod 512)"
proof -
  show "length (disk_bytes d dev k n) = 512 * n" using assms by (induction n arbitrary: k) (simp_all add: disk_bytes_Suc sectors_ok_def, simp add: disk_bytes_def)
  show "i < 512 * n \<Longrightarrow> disk_bytes d dev k n ! i = ide_disks d dev (k + of_nat (i div 512)) ! (i mod 512)"
  proof (induction n arbitrary: k i)
    case (Suc n)
    have l: "length (ide_disks d dev k) = 512" using assms by (simp add: sectors_ok_def)
    show ?case
    proof (cases "i < 512")
      case False
      then have "i div 512 = Suc ((i - 512) div 512)" "i mod 512 = (i - 512) mod 512" by (simp_all add: le_div_geq le_mod_geq)
      then show ?thesis using Suc False l by (simp add: disk_bytes_Suc nth_append add.assoc)
    qed (simp add: disk_bytes_Suc nth_append l)
  qed simp
qed

lemma sector_start: "unat (pa AND NOT (SECTSIZE - 1)) = unat pa - unat pa mod 512"
proof -
  have m: "SECTSIZE - 1 = mask 9" by (simp add: SECTSIZE_def mask_eq_exp_minus_1)
  have "(pa AND NOT (mask 9)) AND take_bit 9 pa = 0" "(pa AND NOT (mask 9)) OR take_bit 9 pa = pa" by (auto intro!: bit_word_eqI simp: bit_simps)
  then have "(pa AND NOT (mask 9)) + take_bit 9 pa = pa" by (simp add: disjunctive_add_eq_or)
  then have "pa AND NOT (mask 9) = pa - take_bit 9 pa" by (simp add: eq_diff_eq)
  moreover have "unat (take_bit 9 pa) = unat pa mod 512" by (simp add: take_bit_eq_mod unat_mod)
  moreover from this have "take_bit 9 pa \<le> pa" by (simp add: word_le_nat_alt)
  ultimately show ?thesis unfolding m by (simp add: unat_sub)
qed

text \<open>The byte \<open>j\<close> of the kernel, which starts at the second sector of the first disk.\<close>

definition kernel_byte :: "Ide \<Rightarrow> nat \<Rightarrow> u8" where
  "kernel_byte d j = ide_disks d False (of_nat (j div 512) + 1) ! (j mod 512)"

text \<open>\<open>readseg\<close> returns when the disk becomes ready in the end; a segment whose address and offset agree within a sector is
  loaded byte by byte, and what it writes besides is less than a sector on both sides.\<close>

theorem readseg_loads:
  assumes "drive_ready d" and "sectors_ok d" and "unat pa mod 512 = unat offset mod 512" and "unat pa + unat count + 512 < 4294967296"
  shows "\<exists>m' d'. readseg pa count offset m d = Some (m', d') \<and> drive_same d d'
    \<and> (\<forall>k<unat count. m' (pa + of_nat k) = kernel_byte d (unat offset + k))
    \<and> (\<forall>a. unat a + 512 \<le> unat pa \<or> unat pa + unat count + 512 \<le> unat a \<longrightarrow> m' a = m a)"
proof -
  define p0 where "p0 = pa AND NOT (SECTSIZE - 1)"
  define x where "x = unat pa mod 512"
  define n where "n = (x + unat count + 511) div 512"
  define k0 where "k0 = offset div SECTSIZE + 1"
  have x: "x < 512" "x \<le> unat pa" by (simp_all add: x_def)
  have p0: "unat p0 + x = unat pa" unfolding p0_def sector_start x_def by (simp add: minus_mod_eq_mult_div)
  have lim: "unat (pa + count) = unat pa + unat count" using assms(4) unat_plus_nat [of pa "unat count"] by simp
  have nb: "x + unat count \<le> 512 * n" "512 * n < x + unat count + 512" unfolding n_def by linarith+
  have off: "unat (offset div SECTSIZE) = unat offset div 512" by (simp add: SECTSIZE_def unat_div)
  have "unat offset < 4294967296" by (rule order_less_le_trans [OF unsigned_less]) simp
  then have o1: "unat offset div 512 < 8388608" by (simp add: less_mult_imp_div_less)
  have k0: "unat k0 = unat offset div 512 + 1" unfolding k0_def using unat_plus_nat [of "offset div SECTSIZE" 1] off o1 by simp
  have n1: "n \<le> 8388608" using nb assms(4) x by linarith
  obtain d' where d': "readseg_loop p0 (pa + count) k0 m d = Some (mem_put p0 (disk_bytes d False k0 n) m, d')" "drive_same d d'"
    using readseg_loop_exact [OF assms(1,2), of p0 n k0 "pa + count" m] nb p0 k0 o1 n1 assms(4) unfolding lim by auto
  let ?m = "mem_put p0 (disk_bytes d False k0 n) m"
  have len: "length (disk_bytes d False k0 n) = 512 * n" by (rule disk_bytes_nth(1) [OF assms(2)])
  have "?m (pa + of_nat k) = kernel_byte d (unat offset + k)" if k: "k < unat count" for k
  proof -
    have i: "x + k < 512 * n" using k nb(1) by linarith
    have "pa = p0 + of_nat x" using p0 by (metis of_nat_add of_nat_unat ucast_id)
    then have "?m (pa + of_nat k) = ?m (p0 + of_nat (x + k))" by (simp add: add.assoc)
    also have "\<dots> = disk_bytes d False k0 n ! (x + k)" by (rule mem_put_nth) (use i n1 len in simp_all)
    also have "\<dots> = ide_disks d False (k0 + of_nat ((x + k) div 512)) ! ((x + k) mod 512)" by (rule disk_bytes_nth(2) [OF assms(2) i])
    also have "(x + k) mod 512 = (unat offset + k) mod 512" unfolding x_def assms(3) by (simp add: mod_add_left_eq)
    also have "k0 + of_nat ((x + k) div 512) = of_nat ((unat offset + k) div 512) + 1"
    proof -
      have "unat offset + k = 512 * (unat offset div 512) + (x + k)" unfolding x_def assms(3) by simp
      then have "(unat offset + k) div 512 = unat offset div 512 + (x + k) div 512" by simp
      moreover have "offset div SECTSIZE = of_nat (unat offset div 512)" using off by (metis of_nat_unat ucast_id)
      ultimately show ?thesis by (simp add: k0_def)
    qed
    finally show ?thesis by (simp add: kernel_byte_def)
  qed
  moreover have "?m a = m a" if "unat a + 512 \<le> unat pa \<or> unat pa + unat count + 512 \<le> unat a" for a
  proof (rule mem_put_outside)
    show "a \<notin> span p0 (length (disk_bytes d False k0 n))"
    proof
      assume "a \<in> span p0 (length (disk_bytes d False k0 n))"
      then obtain i where i: "i < 512 * n" "a = p0 + of_nat i" by (auto simp: span_def len)
      then have "unat a = unat p0 + i" using unat_plus_nat [of p0 i] nb p0 assms(4) by simp
      then show False using that i(1) p0 x nb by linarith
    qed
  qed
  ultimately show ?thesis using d' by (simp add: readseg_def p0_def k0_def Let_def)
qed

end
