(* ===== verification/Devices.thy ===== *)
theory Devices
  imports Console
begin

text \<open>
  The devices of the console (\<open>kern/console.c\<close>) and the mask of the interrupt controller
  (\<open>kern/picirq.c\<close>): serial port, parallel port, display and keyboard. The hardware is the function \<open>io_in\<close>,
  which gives the value of the \<open>n\<close>-th read of a port; it is arbitrary in every theorem. Writes to ports are logged.
\<close>

section \<open>Ports\<close>

record Devs =
  io_in :: "u32 \<Rightarrow> nat \<Rightarrow> u8"
  io_count :: "u32 \<Rightarrow> nat"
  io_out :: "(u32 \<times> u8) list"
  serial_exists :: bool
  addr_6845 :: u32
  crt_base :: u32
  crt_buf :: "nat \<Rightarrow> u16"
  crt_pos :: u16
  kbd_shift :: u32
  irq_mask_8259A :: u16
  didinit :: bool

definition inb :: "u32 \<Rightarrow> Devs \<Rightarrow> u8 \<times> Devs" where
  "inb port d = (io_in d port (io_count d port), d\<lparr>io_count := (io_count d)(port := Suc (io_count d port))\<rparr>)"

definition outb :: "u32 \<Rightarrow> u8 \<Rightarrow> Devs \<Rightarrow> Devs" where
  "outb port data d = d\<lparr>io_out := io_out d @ [(port, data)]\<rparr>"

definition delay :: "Devs \<Rightarrow> Devs" where
  "delay d = (let (_, d) = inb 0x84 d; (_, d) = inb 0x84 d; (_, d) = inb 0x84 d; (_, d) = inb 0x84 d in d)"

section \<open>The serial port and the parallel port\<close>

definition COM1 :: u32 where "COM1 = 0x3F8"
definition COM_RX :: u32 where "COM_RX = 0"
definition COM_TX :: u32 where "COM_TX = 0"
definition COM_DLL :: u32 where "COM_DLL = 0"
definition COM_DLM :: u32 where "COM_DLM = 1"
definition COM_IER :: u32 where "COM_IER = 1"
definition COM_IER_RDI :: u8 where "COM_IER_RDI = 1"
definition COM_IIR :: u32 where "COM_IIR = 2"
definition COM_FCR :: u32 where "COM_FCR = 2"
definition COM_LCR :: u32 where "COM_LCR = 3"
definition COM_LCR_DLAB :: u8 where "COM_LCR_DLAB = 0x80"
definition COM_LCR_WLEN8 :: u8 where "COM_LCR_WLEN8 = 3"
definition COM_MCR :: u32 where "COM_MCR = 4"
definition COM_LSR :: u32 where "COM_LSR = 5"
definition COM_LSR_DATA :: u8 where "COM_LSR_DATA = 1"
definition COM_LSR_TXRDY :: u8 where "COM_LSR_TXRDY = 0x20"

text \<open>\<open>None\<close> is the result \<open>-1\<close>.\<close>

definition serial_proc_data :: "Devs \<Rightarrow> u32 option \<times> Devs" where
  "serial_proc_data d =
     (let (st, d) = inb (COM1 + COM_LSR) d
      in if st AND COM_LSR_DATA = 0 then (None, d)
         else let (c, d) = inb (COM1 + COM_RX) d in (Some (ucast c), d))"

text \<open>The waiting loops: the register \<open>port\<close> is read until a bit of \<open>ready\<close> is set, at most \<open>n\<close> delays.\<close>

primrec wait_ready :: "u32 \<Rightarrow> u8 \<Rightarrow> nat \<Rightarrow> Devs \<Rightarrow> Devs" where
  "wait_ready port ready 0 d = snd (inb port d)"
| "wait_ready port ready (Suc n) d =
     (let (st, d) = inb port d in if st AND ready \<noteq> 0 then d else wait_ready port ready n (delay d))"

definition serial_putc :: "u32 \<Rightarrow> Devs \<Rightarrow> Devs" where
  "serial_putc c d = outb (COM1 + COM_TX) (ucast c) (wait_ready (COM1 + COM_LSR) COM_LSR_TXRDY 12800 d)"

definition lpt_putc :: "u32 \<Rightarrow> Devs \<Rightarrow> Devs" where
  "lpt_putc c d =
     (let d = wait_ready (0x378 + 1) 0x80 12800 d;
          d = outb (0x378 + 0) (ucast c) d;
          d = outb (0x378 + 2) (0x08 OR 0x04 OR 0x01) d
      in outb (0x378 + 2) 0x08 d)"

section \<open>The display\<close>

definition CRT_COLS :: nat where "CRT_COLS = 80"
definition CRT_ROWS :: nat where "CRT_ROWS = 25"
definition CRT_SIZE :: nat where "CRT_SIZE = CRT_ROWS * CRT_COLS"
definition MONO_BASE :: u32 where "MONO_BASE = 0x3B4"
definition MONO_BUF :: u32 where "MONO_BUF = 0xB0000"
definition CGA_BASE :: u32 where "CGA_BASE = 0x3D4"
definition CGA_BUF :: u32 where "CGA_BUF = 0xB8000"

text \<open>\<open>cga\<close> and \<open>monobuf\<close> are the display memories at the two addresses; \<open>present\<close> says whether the first one holds
  what is written to it.\<close>

definition cga_init :: "bool \<Rightarrow> (nat \<Rightarrow> u16) \<Rightarrow> (nat \<Rightarrow> u16) \<Rightarrow> Devs \<Rightarrow> Devs" where
  "cga_init present cga monobuf d =
     (let d = (if present then d\<lparr>crt_base := KERNBASE + CGA_BUF, addr_6845 := CGA_BASE, crt_buf := cga\<rparr>
               else d\<lparr>crt_base := KERNBASE + MONO_BUF, addr_6845 := MONO_BASE, crt_buf := monobuf\<rparr>);
          d = outb (addr_6845 d) 14 d;
          (hi, d) = inb (addr_6845 d + 1) d;
          d = outb (addr_6845 d) 15 d;
          (lo, d) = inb (addr_6845 d + 1) d
      in d\<lparr>crt_pos := ucast (push_bit 8 (ucast hi :: u32) OR ucast lo)\<rparr>)"

text \<open>The \<open>switch\<close> of \<open>cga_putc\<close>; \<open>space\<close> is the call \<open>cons_putc(' ')\<close>.\<close>

definition cga_switch :: "(Devs \<Rightarrow> Devs) \<Rightarrow> u32 \<Rightarrow> Devs \<Rightarrow> Devs" where
  "cga_switch space c d =
     (let ch = c AND 0xFF; cols = of_nat CRT_COLS in
      if ch = 8 then
        (if crt_pos d > 0
         then let p = crt_pos d - 1
              in d\<lparr>crt_pos := p, crt_buf := (crt_buf d)(unat p := ucast ((c AND NOT 0xFF) OR 32))\<rparr>
         else d)
      else if ch = 10 then let p = crt_pos d + cols in d\<lparr>crt_pos := p - p mod cols\<rparr>
      else if ch = 13 then d\<lparr>crt_pos := crt_pos d - crt_pos d mod cols\<rparr>
      else if ch = 9 then space (space (space (space (space d))))
      else d\<lparr>crt_buf := (crt_buf d)(unat (crt_pos d) := ucast c), crt_pos := crt_pos d + 1\<rparr>)"

definition cga_scroll :: "Devs \<Rightarrow> Devs" where
  "cga_scroll d =
     (if CRT_SIZE \<le> unat (crt_pos d)
      then d\<lparr>crt_buf := (\<lambda>i. if i < CRT_SIZE - CRT_COLS then crt_buf d (i + CRT_COLS)
                            else if i < CRT_SIZE then 0x0700 OR 32 else crt_buf d i),
             crt_pos := crt_pos d - of_nat CRT_COLS\<rparr>
      else d)"

definition cga_cursor :: "Devs \<Rightarrow> Devs" where
  "cga_cursor d =
     (let d = outb (addr_6845 d) 14 d;
          d = outb (addr_6845 d + 1) (ucast (drop_bit 8 (crt_pos d))) d;
          d = outb (addr_6845 d) 15 d
      in outb (addr_6845 d + 1) (ucast (crt_pos d)) d)"

definition cga_putc_with :: "(Devs \<Rightarrow> Devs) \<Rightarrow> u32 \<Rightarrow> Devs \<Rightarrow> Devs" where
  "cga_putc_with space c d =
     (let c = (if c AND NOT 0xFF = 0 then c OR 0x0700 else c)
      in cga_cursor (cga_scroll (cga_switch space c d)))"

text \<open>\<open>cons_putc(' ')\<close> does not come back to the case of a tab, so its own \<open>space\<close> is not used.\<close>

definition putc_space :: "Devs \<Rightarrow> Devs" where
  "putc_space d = cga_putc_with id 32 (lpt_putc 32 (serial_putc 32 d))"

definition cga_putc :: "u32 \<Rightarrow> Devs \<Rightarrow> Devs" where
  "cga_putc c d = cga_putc_with putc_space c d"

text \<open>\<open>cons_putc\<close> on the devices (theory \<open>Console\<close> has it as a log of bytes).\<close>

definition putc_devices :: "u32 \<Rightarrow> Devs \<Rightarrow> Devs" where
  "putc_devices c d = cga_putc c (lpt_putc c (serial_putc c d))"

lemma putc_space_eq: "putc_space = putc_devices 32"
  by (simp add: fun_eq_iff putc_space_def putc_devices_def cga_putc_def cga_putc_with_def cga_switch_def Let_def)

section \<open>The interrupt mask\<close>

text \<open>The output of \<open>cprintf\<close>, character by character.\<close>

definition cputs :: "string \<Rightarrow> Devs \<Rightarrow> Devs" where
  "cputs s = fold (\<lambda>ch. putc_devices (of_char ch)) s"

definition small_decimal :: "nat \<Rightarrow> string" where
  "small_decimal i = (if i < 10 then [char_of (48 + i)] else [char_of (48 + i div 10), char_of (48 + i mod 10)])"

definition IO_PIC1 :: u32 where "IO_PIC1 = 0x20"
definition IO_PIC2 :: u32 where "IO_PIC2 = 0xA0"

definition irq_setmask_8259A :: "u16 \<Rightarrow> Devs \<Rightarrow> Devs" where
  "irq_setmask_8259A m d =
     (let d = d\<lparr>irq_mask_8259A := m\<rparr>
      in if \<not> didinit d then d
         else let d = outb (IO_PIC1 + 1) (ucast m) d;
                  d = outb (IO_PIC2 + 1) (ucast (drop_bit 8 m)) d;
                  d = cputs ''enabled interrupts:'' d;
                  d = fold (\<lambda>i d. if NOT m AND push_bit i 1 \<noteq> 0 then cputs ('' '' @ small_decimal i) d else d) [0..<16] d
              in putc_devices 10 d)"

definition IRQ_SLAVE :: nat where "IRQ_SLAVE = 2"

definition pic_init :: "Devs \<Rightarrow> Devs" where
  "pic_init d =
     (let d = d\<lparr>didinit := True\<rparr>;
          d = outb (IO_PIC1 + 1) 0xFF d;
          d = outb (IO_PIC2 + 1) 0xFF d;
          d = outb IO_PIC1 0x11 d;
          d = outb (IO_PIC1 + 1) 32 d;
          d = outb (IO_PIC1 + 1) (push_bit IRQ_SLAVE 1) d;
          d = outb (IO_PIC1 + 1) 0x3 d;
          d = outb IO_PIC2 0x11 d;
          d = outb (IO_PIC2 + 1) (32 + 8) d;
          d = outb (IO_PIC2 + 1) (of_nat IRQ_SLAVE) d;
          d = outb (IO_PIC2 + 1) 0x01 d;
          d = outb IO_PIC1 0x68 d;
          d = outb IO_PIC1 0x0a d;
          d = outb IO_PIC2 0x68 d;
          d = outb IO_PIC2 0x0a d
      in if irq_mask_8259A d \<noteq> 0xFFFF then irq_setmask_8259A (irq_mask_8259A d) d else d)"

definition serial_init :: "Devs \<Rightarrow> Devs" where
  "serial_init d =
     (let d = outb (COM1 + COM_FCR) 0 d;
          d = outb (COM1 + COM_LCR) COM_LCR_DLAB d;
          d = outb (COM1 + COM_DLL) (115200 div 9600) d;
          d = outb (COM1 + COM_DLM) 0 d;
          d = outb (COM1 + COM_LCR) (COM_LCR_WLEN8 AND NOT COM_LCR_DLAB) d;
          d = outb (COM1 + COM_MCR) 0 d;
          d = outb (COM1 + COM_IER) COM_IER_RDI d;
          (st, d) = inb (COM1 + COM_LSR) d;
          d = d\<lparr>serial_exists := (st \<noteq> 0xFF)\<rparr>;
          (_, d) = inb (COM1 + COM_IIR) d;
          (_, d) = inb (COM1 + COM_RX) d
      in if serial_exists d then irq_setmask_8259A (irq_mask_8259A d AND NOT (push_bit 4 1)) d else d)"

section \<open>The keyboard\<close>

definition SHIFT :: u32 where "SHIFT = 1"
definition CTL :: u32 where "CTL = 2"
definition ALT :: u32 where "ALT = 4"
definition CAPSLOCK :: u32 where "CAPSLOCK = 8"
definition NUMLOCK :: u32 where "NUMLOCK = 16"
definition SCROLLLOCK :: u32 where "SCROLLLOCK = 32"
definition E0ESC :: u32 where "E0ESC = 64"

definition KEY_HOME :: u8 where "KEY_HOME = 0xE0"
definition KEY_END :: u8 where "KEY_END = 0xE1"
definition KEY_UP :: u8 where "KEY_UP = 0xE2"
definition KEY_DN :: u8 where "KEY_DN = 0xE3"
definition KEY_LF :: u8 where "KEY_LF = 0xE4"
definition KEY_RT :: u8 where "KEY_RT = 0xE5"
definition KEY_PGUP :: u8 where "KEY_PGUP = 0xE6"
definition KEY_PGDN :: u8 where "KEY_PGDN = 0xE7"
definition KEY_INS :: u8 where "KEY_INS = 0xE8"
definition KEY_DEL :: u8 where "KEY_DEL = 0xE9"

definition KBSTATP :: u32 where "KBSTATP = 0x64"
definition KBS_DIB :: u8 where "KBS_DIB = 0x01"
definition KBS_TERR :: u8 where "KBS_TERR = 0x20"
definition KBDATAP :: u32 where "KBDATAP = 0x60"

definition shiftcode :: "u8 \<Rightarrow> u32" where
  "shiftcode k =
     (if k = 0x1D then CTL else if k = 0x2A then SHIFT else if k = 0x36 then SHIFT else if k = 0x38 then ALT
      else if k = 0x9D then CTL else if k = 0xB8 then ALT else 0)"

definition togglecode :: "u8 \<Rightarrow> u32" where
  "togglecode k = (if k = 0x3A then CAPSLOCK else if k = 0x45 then NUMLOCK else if k = 0x46 then SCROLLLOCK else 0)"

text \<open>The tables: an initial segment, and the entries that are given by index.\<close>

definition codes :: "string \<Rightarrow> u8 list" where
  "codes = map of_char"

definition keypad :: "u8 list" where
  "keypad = replicate 13 0 @ codes ''789-456+1230.''"

definition normal_keys :: "u8 list" where
  "normal_keys = [0, 0x1B] @ codes ''1234567890-='' @ [8, 9] @ codes ''qwertyuiop[]'' @ [10, 0] @ codes ''asdfghjkl;''
     @ [39, 96, 0, 92] @ codes ''zxcvbnm,./'' @ [0, 42, 0, 32] @ keypad"

definition shift_keys :: "u8 list" where
  "shift_keys = [0, 27] @ codes ''!@#$%^&*()_+'' @ [8, 9] @ codes ''QWERTYUIOP{}'' @ [10, 0] @ codes ''ASDFGHJKL:''
     @ [34, 126, 0, 124] @ codes ''ZXCVBNM<>?'' @ [0, 42, 0, 32] @ keypad"

definition ctl_keys :: "u8 list" where
  "ctl_keys = replicate 16 0 @ map (\<lambda>c. c - 64) (codes ''QWERTYUIOP'') @ [0, 0, 13, 0] @ map (\<lambda>c. c - 64) (codes ''ASDFGHJKL'')
     @ [0, 0, 0, 0, 92 - 64] @ map (\<lambda>c. c - 64) (codes ''ZXCVBNM'') @ [0, 0, 47 - 64]"

definition cursor_keys :: "u8 \<Rightarrow> u8" where
  "cursor_keys k =
     (if k = 0xC8 then KEY_UP else if k = 0xC9 then KEY_PGUP else if k = 0xCB then KEY_LF else if k = 0xCD then KEY_RT
      else if k = 0xCF then KEY_END else if k = 0xD0 then KEY_DN else if k = 0xD1 then KEY_PGDN
      else if k = 0xD2 then KEY_INS else if k = 0xD3 then KEY_DEL else 0)"

definition entry_of :: "u8 list \<Rightarrow> u8 \<Rightarrow> u8" where
  "entry_of ks k = (if unat k < length ks then ks ! unat k else 0)"

definition normalmap :: "u8 \<Rightarrow> u8" where
  "normalmap k = (if k = 0xC7 then KEY_HOME else if k = 0x9C then 10 else if k = 0xB5 then 47
     else if unat k < length normal_keys then entry_of normal_keys k else cursor_keys k)"

definition shiftmap :: "u8 \<Rightarrow> u8" where
  "shiftmap k = (if k = 0xC7 then KEY_HOME else if k = 0x9C then 10 else if k = 0xB5 then 47
     else if unat k < length shift_keys then entry_of shift_keys k else cursor_keys k)"

definition ctlmap :: "u8 \<Rightarrow> u8" where
  "ctlmap k = (if k = 0x97 then KEY_HOME else if k = 0xB5 then 47 - 64
     else if unat k < length ctl_keys then entry_of ctl_keys k else cursor_keys k)"

definition charcode :: "u32 \<Rightarrow> u8 \<Rightarrow> u8" where
  "charcode m = (if m = 0 then normalmap else if m = 1 then shiftmap else ctlmap)"

definition swap_case :: "u32 \<Rightarrow> u32" where
  "swap_case c = (if 97 \<le> c \<and> c \<le> 122 then c + (65 - 97) else if 65 \<le> c \<and> c \<le> 90 then c + (97 - 65) else c)"

text \<open>A key is pressed: the rest of \<open>kbd_proc_data\<close>.\<close>

definition kbd_key :: "u8 \<Rightarrow> Devs \<Rightarrow> u32 option \<times> Devs" where
  "kbd_key data d =
     (let shift = (kbd_shift d OR shiftcode data) XOR togglecode data;
          d = d\<lparr>kbd_shift := shift\<rparr>;
          c = ucast (charcode (shift AND (CTL OR SHIFT)) data);
          c = (if shift AND CAPSLOCK \<noteq> 0 then swap_case c else c);
          d = (if NOT shift AND (CTL OR ALT) = 0 \<and> c = ucast KEY_DEL
               then outb 0x92 0x3 (putc_devices 10 (cputs ''Rebooting!'' d)) else d)
      in (Some c, d))"

definition kbd_proc_data :: "Devs \<Rightarrow> u32 option \<times> Devs" where
  "kbd_proc_data d =
     (let (st, d) = inb KBSTATP d in
      if st AND KBS_DIB = 0 then (None, d)
      else if st AND KBS_TERR \<noteq> 0 then (None, d)
      else
        let (data, d) = inb KBDATAP d in
        if data = 0xE0 then (Some 0, d\<lparr>kbd_shift := kbd_shift d OR E0ESC\<rparr>)
        else if data AND 0x80 \<noteq> 0 then
          let data = (if kbd_shift d AND E0ESC \<noteq> 0 then data else data AND 0x7F)
          in (Some 0, d\<lparr>kbd_shift := kbd_shift d AND NOT (shiftcode data OR E0ESC)\<rparr>)
        else if kbd_shift d AND E0ESC \<noteq> 0 then kbd_key (data OR 0x80) (d\<lparr>kbd_shift := kbd_shift d AND NOT E0ESC\<rparr>)
        else kbd_key data d)"

section \<open>Input\<close>

text \<open>\<open>cons_intr\<close> with the device routine \<open>proc\<close>; a device that always has data keeps it busy for ever.\<close>

partial_function (option) cons_intr_loop :: "(Devs \<Rightarrow> u32 option \<times> Devs) \<Rightarrow> Devs \<Rightarrow> Console \<Rightarrow> (Devs \<times> Console) option" where
  "cons_intr_loop proc d c =
     (case proc d of
        (None, d1) \<Rightarrow> Some (d1, c)
      | (Some x, d1) \<Rightarrow> cons_intr_loop proc d1 (if x = 0 then c else cons_put (ucast x) c))"

definition serial_intr :: "Devs \<Rightarrow> Console \<Rightarrow> (Devs \<times> Console) option" where
  "serial_intr d c = (if serial_exists d then cons_intr_loop serial_proc_data d c else Some (d, c))"

definition kbd_intr :: "Devs \<Rightarrow> Console \<Rightarrow> (Devs \<times> Console) option" where
  "kbd_intr d c = cons_intr_loop kbd_proc_data d c"

definition kbd_init :: "Devs \<Rightarrow> Console \<Rightarrow> (Devs \<times> Console) option" where
  "kbd_init d c = do { (d, c) \<leftarrow> kbd_intr d c; Some (irq_setmask_8259A (irq_mask_8259A d AND NOT (push_bit 1 1)) d, c) }"

definition getc_devices :: "Devs \<Rightarrow> Console \<Rightarrow> (u32 \<times> Devs \<times> Console) option" where
  "getc_devices d c =
     do { (d, c) \<leftarrow> serial_intr d c;
          (d, c) \<leftarrow> kbd_intr d c;
          Some (if cons_rpos c \<noteq> cons_wpos c then (let (b, c) = cons_take c in (ucast b, d, c)) else (0, d, c)) }"

definition cons_init :: "bool \<Rightarrow> (nat \<Rightarrow> u16) \<Rightarrow> (nat \<Rightarrow> u16) \<Rightarrow> Devs \<Rightarrow> Console \<Rightarrow> (Devs \<times> Console) option" where
  "cons_init present cga monobuf d c =
     do { (d, c) \<leftarrow> kbd_init (cga_init present cga monobuf d) c; let d = serial_init d;
          Some (if serial_exists d then d else putc_devices 10 (cputs ''Serial port does not exist!'' d), c) }"

text \<open>\<open>getchar\<close> polls until there is a character.\<close>

partial_function (option) getchar :: "Devs \<Rightarrow> Console \<Rightarrow> (u32 \<times> Devs \<times> Console) option" where
  "getchar d c = do { (r, d, c) \<leftarrow> getc_devices d c; if r = 0 then getchar d c else Some (r, d, c) }"

section \<open>The display shows the end of a roll of paper\<close>

text \<open>The specification of the display: a roll of paper without end, on which characters are typed, and of
  which the screen shows \<open>CRT_ROWS\<close> rows from row \<open>top_row\<close> on. Scrolling moves the window and nothing else.\<close>

record Paper =
  cells :: "nat \<Rightarrow> u16"
  cursor :: nat
  top_row :: nat

definition BLANK :: u16 where "BLANK = 0x0720"

definition roll :: "Paper \<Rightarrow> Paper" where
  "roll p = (if top_row p * 80 + 2000 \<le> cursor p then p\<lparr>top_row := top_row p + 1\<rparr> else p)"

definition type_char :: "u16 \<Rightarrow> Paper \<Rightarrow> Paper" where
  "type_char v p = roll (p\<lparr>cells := (cells p)(cursor p := v), cursor := cursor p + 1\<rparr>)"

definition with_attribute :: "u32 \<Rightarrow> u32" where
  "with_attribute c = (if c AND NOT 0xFF = 0 then c OR 0x0700 else c)"

definition paper_put :: "u32 \<Rightarrow> Paper \<Rightarrow> Paper" where
  "paper_put c p =
     (let a = with_attribute c; ch = a AND 0xFF in
      if ch = 8 then
        (if top_row p * 80 < cursor p
         then p\<lparr>cells := (cells p)(cursor p - 1 := ucast ((a AND NOT 0xFF) OR 32)), cursor := cursor p - 1\<rparr> else p)
      else if ch = 10 then roll (p\<lparr>cursor := (cursor p div 80 + 1) * 80\<rparr>)
      else if ch = 13 then p\<lparr>cursor := cursor p div 80 * 80\<rparr>
      else if ch = 9 then (type_char BLANK ^^ 5) p
      else type_char (ucast a) p)"

text \<open>The part of the paper below the window is blank.\<close>

definition paper_ok :: "Paper \<Rightarrow> bool" where
  "paper_ok p \<longleftrightarrow> top_row p * 80 \<le> cursor p \<and> cursor p < top_row p * 80 + 2000 \<and> (\<forall>i\<ge>top_row p * 80 + 2000. cells p i = BLANK)"

definition shows_paper :: "Devs \<Rightarrow> Paper \<Rightarrow> bool" where
  "shows_paper d p \<longleftrightarrow> (\<forall>i<2000. crt_buf d i = cells p (top_row p * 80 + i)) \<and> top_row p * 80 + unat (crt_pos d) = cursor p"

lemma crt_sizes: "CRT_COLS = 80" "CRT_SIZE = 2000" "CRT_SIZE - CRT_COLS = 1920"
  by (simp_all add: CRT_COLS_def CRT_SIZE_def CRT_ROWS_def)

lemma io_frame [simp]:
  "crt_buf (snd (inb p d)) = crt_buf d" "crt_pos (snd (inb p d)) = crt_pos d"
  "crt_buf (outb p v d) = crt_buf d" "crt_pos (outb p v d) = crt_pos d"
  by (simp_all add: inb_def outb_def)

lemma delay_frame [simp]: "crt_buf (delay d) = crt_buf d" "crt_pos (delay d) = crt_pos d"
  by (simp_all add: delay_def split_beta Let_def)

lemma wait_frame [simp]: "crt_buf (wait_ready p r n d) = crt_buf d" "crt_pos (wait_ready p r n d) = crt_pos d"
  by (induction n arbitrary: d) (simp_all add: split_beta Let_def)

lemma ports_frame [simp]:
  "crt_buf (serial_putc c d) = crt_buf d" "crt_pos (serial_putc c d) = crt_pos d"
  "crt_buf (lpt_putc c d) = crt_buf d" "crt_pos (lpt_putc c d) = crt_pos d"
  "crt_buf (cga_cursor d) = crt_buf d" "crt_pos (cga_cursor d) = crt_pos d"
  by (simp_all add: serial_putc_def lpt_putc_def cga_cursor_def Let_def)

lemma shows_paper_cong: "crt_buf d' = crt_buf d \<Longrightarrow> crt_pos d' = crt_pos d \<Longrightarrow> shows_paper d' p = shows_paper d p"
  by (simp add: shows_paper_def)

text \<open>A paper whose cursor may be one row past the window.\<close>

definition paper_wide :: "Paper \<Rightarrow> bool" where
  "paper_wide p \<longleftrightarrow> top_row p * 80 \<le> cursor p \<and> cursor p < top_row p * 80 + 2080
     \<and> (\<forall>i\<ge>top_row p * 80 + 2000. cells p i = BLANK)"

lemma scroll_rolls:
  assumes w: "paper_wide p" and s: "shows_paper d p"
  shows "paper_ok (roll p)" and "shows_paper (cga_scroll d) (roll p)"
proof -
  show ok: "paper_ok (roll p)" using w by (auto simp: paper_ok_def roll_def paper_wide_def)
  have pos: "unat (crt_pos d) = cursor p - top_row p * 80" "top_row p * 80 \<le> cursor p" "cursor p < top_row p * 80 + 2080"
    using s w by (auto simp: shows_paper_def paper_wide_def)
  show "shows_paper (cga_scroll d) (roll p)"
  proof (cases "top_row p * 80 + 2000 \<le> cursor p")
    case False
    then have "\<not> 2000 \<le> unat (crt_pos d)" using pos by simp
    then show ?thesis using s False by (simp add: cga_scroll_def roll_def crt_sizes)
  next
    case True
    have u: "unat (crt_pos d - 80) = unat (crt_pos d) - 80"
      using True pos unat_sub [of 80 "crt_pos d"] by (simp add: word_le_nat_alt)
    have "(0x0700 :: u16) OR 32 = BLANK" by (simp add: BLANK_def)
    then have c: "crt_buf (cga_scroll d) i = cells p (top_row p * 80 + 80 + i)" if "i < 2000" for i
      using True pos s w that by (auto simp: cga_scroll_def crt_sizes shows_paper_def paper_wide_def ac_simps)
    show ?thesis
      using True pos u c by (auto simp: shows_paper_def roll_def cga_scroll_def crt_sizes algebra_simps)
  qed
qed

lemma pos_div:
  assumes "shows_paper d p" "paper_ok p"
  shows "top_row p * 80 + unat (crt_pos d - crt_pos d mod 80) = cursor p div 80 * 80"
    and "top_row p * 80 + unat (crt_pos d + 80 - (crt_pos d + 80) mod 80) = (cursor p div 80 + 1) * 80"
proof -
  define x where "x = unat (crt_pos d)"
  have x: "cursor p = top_row p * 80 + x" "x < 2000" using assms by (auto simp: shows_paper_def paper_ok_def x_def)
  have r: "unat (y - y mod 80) = unat y div 80 * 80" for y :: u16
  proof -
    have "y mod 80 \<le> y" by (simp add: word_le_nat_alt unat_mod)
    then have "unat (y - y mod 80) = unat y - unat y mod 80" by (simp add: unat_sub unat_mod)
    then show ?thesis by (simp add: minus_mod_eq_div_mult)
  qed
  have u: "unat (crt_pos d + 80) = x + 80" using x(2) by (simp add: unat_word_ariths x_def)
  show "top_row p * 80 + unat (crt_pos d - crt_pos d mod 80) = cursor p div 80 * 80" unfolding r x x_def [symmetric] by simp
  show "top_row p * 80 + unat (crt_pos d + 80 - (crt_pos d + 80) mod 80) = (cursor p div 80 + 1) * 80"
  proof -
    have "(x + 80) div 80 = x div 80 + 1" by (rule div_add_self2) simp
    then show ?thesis unfolding r u x by simp
  qed
qed

lemma typed_char:
  fixes v :: u16
  assumes s: "shows_paper d p" and ok: "paper_ok p"
  defines "d' \<equiv> d\<lparr>crt_buf := (crt_buf d)(unat (crt_pos d) := v), crt_pos := crt_pos d + 1\<rparr>"
  shows "paper_ok (type_char v p)" and "shows_paper (cga_scroll d') (type_char v p)"
proof -
  let ?p = "p\<lparr>cells := (cells p)(cursor p := v), cursor := cursor p + 1\<rparr>"
  have pos: "top_row p * 80 + unat (crt_pos d) = cursor p" "unat (crt_pos d) < 2000" using s ok by (auto simp: shows_paper_def paper_ok_def)
  have u: "unat (crt_pos d + 1) = unat (crt_pos d) + 1" using pos(2) by (simp add: unat_word_ariths)
  have w: "paper_wide ?p" using ok by (auto simp: paper_ok_def paper_wide_def)
  have s': "shows_paper d' ?p" using s pos u by (auto simp: shows_paper_def d'_def)
  show "paper_ok (type_char v p)" "shows_paper (cga_scroll d') (type_char v p)"
    using scroll_rolls [OF w s'] by (simp_all add: type_char_def)
qed

lemma roll_ok [simp]: "paper_ok p \<Longrightarrow> roll p = p"
  by (simp add: roll_def paper_ok_def)

text \<open>The screen after the \<open>switch\<close> of a character that is not a tab.\<close>

lemma switch_shows:
  assumes s: "shows_paper d p" and ok: "paper_ok p" and c: "with_attribute c AND 0xFF \<noteq> 9"
  shows "paper_ok (paper_put c p)" and "shows_paper (cga_scroll (cga_switch sp (with_attribute c) d)) (paper_put c p)"
proof -
  define a where "a = with_attribute c"
  have pos: "top_row p * 80 + unat (crt_pos d) = cursor p" "unat (crt_pos d) < 2000" "top_row p * 80 \<le> cursor p"
    using s ok by (auto simp: shows_paper_def paper_ok_def)
  have stay: "paper_ok q \<and> shows_paper (cga_scroll d') q" if "paper_ok q" "shows_paper d' q" for q d'
    using scroll_rolls(2) [of q d'] that by (auto simp: paper_wide_def paper_ok_def roll_def)
  have "paper_ok (paper_put c p) \<and> shows_paper (cga_scroll (cga_switch sp a d)) (paper_put c p)"
  proof -
    consider "a AND 0xFF = 8" | "a AND 0xFF = 10" | "a AND 0xFF = 13" | "a AND 0xFF \<notin> {8, 9, 10, 13}"
      using c by (auto simp: a_def)
    then show ?thesis
    proof cases
      case 1
      show ?thesis
      proof (cases "crt_pos d = 0")
        case True
        then have "\<not> top_row p * 80 < cursor p" using pos(1) by simp
        then show ?thesis using stay [OF ok s] 1 True by (simp add: paper_put_def cga_switch_def a_def)
      next
        case False
        have nz: "0 < unat (crt_pos d)" using False by (simp add: unat_gt_0)
        have u: "unat (crt_pos d - 1) = unat (crt_pos d) - 1" using nz by (intro unat_minus_one) (simp add: False)
        let ?q = "paper_put c p"
        have q: "?q = p\<lparr>cells := (cells p)(cursor p - 1 := ucast ((a AND NOT 0xFF) OR 32)), cursor := cursor p - 1\<rparr>"
          using 1 nz pos(1) by (simp add: paper_put_def a_def)
        have "paper_ok ?q" using ok nz pos unfolding q by (auto simp: paper_ok_def)
        moreover have "shows_paper (cga_switch sp a d) ?q"
          using 1 s nz pos u unfolding q by (auto simp: shows_paper_def cga_switch_def word_greater_zero_iff False)
        ultimately show ?thesis by (rule stay)
      qed
    next
      case 2
      let ?q = "p\<lparr>cursor := (cursor p div 80 + 1) * 80\<rparr>"
      have "paper_wide ?q" using ok by (auto simp: paper_ok_def paper_wide_def)
      moreover have "shows_paper (cga_switch sp a d) ?q"
        using 2 s pos_div(2) [OF s ok] by (auto simp: shows_paper_def cga_switch_def crt_sizes Let_def)
      ultimately show ?thesis using scroll_rolls [of ?q] 2 by (simp add: paper_put_def a_def)
    next
      case 3
      let ?q = "p\<lparr>cursor := cursor p div 80 * 80\<rparr>"
      have "paper_ok ?q" using ok by (auto simp: paper_ok_def)
      moreover have "shows_paper (cga_switch sp a d) ?q"
        using 3 s pos_div(1) [OF s ok] by (auto simp: shows_paper_def cga_switch_def crt_sizes Let_def)
      ultimately show ?thesis using stay [of ?q] 3 by (simp add: paper_put_def a_def)
    next
      case 4
      then show ?thesis using typed_char [OF s ok, of "ucast a"] by (simp add: paper_put_def cga_switch_def a_def [symmetric])
    qed
  qed
  then show "paper_ok (paper_put c p)" "shows_paper (cga_scroll (cga_switch sp (with_attribute c) d)) (paper_put c p)"
    by (simp_all add: a_def)
qed

text \<open>A character on the devices; the cells outside of the screen stay as they are.\<close>

definition off_screen :: "Devs \<Rightarrow> Devs \<Rightarrow> bool" where
  "off_screen d d' \<longleftrightarrow> (\<forall>i\<ge>2000. crt_buf d' i = crt_buf d i)"

definition shown :: "Devs \<Rightarrow> Devs \<Rightarrow> Paper \<Rightarrow> bool" where
  "shown d d' p \<longleftrightarrow> paper_ok p \<and> shows_paper d' p \<and> off_screen d d'"

lemma pos_bound: "shows_paper d p \<Longrightarrow> paper_ok p \<Longrightarrow> unat (crt_pos d) < 2000"
  by (auto simp: shows_paper_def paper_ok_def)

lemma plain_off_screen:
  assumes "unat (crt_pos d) < 2000" and "c AND 0xFF \<noteq> 9"
  shows "off_screen d (cga_scroll (cga_switch sp c d))"
proof -
  have "unat (crt_pos d - 1) < 2000" if "crt_pos d \<noteq> 0"
    using assms(1) unat_minus_one [OF that] by simp
  then show ?thesis
    using assms by (auto simp: off_screen_def cga_scroll_def cga_switch_def crt_sizes Let_def word_greater_zero_iff)
qed

lemma cga_putc_with_eq: "cga_putc_with sp c d = cga_cursor (cga_scroll (cga_switch sp (with_attribute c) d))"
  by (simp add: cga_putc_with_def with_attribute_def)

lemma plain_shown:
  assumes s: "shows_paper d p" and ok: "paper_ok p" and c: "with_attribute c AND 0xFF \<noteq> 9"
  shows "shown d (cga_putc_with sp c (lpt_putc c' (serial_putc c' d))) (paper_put c p)"
proof -
  let ?d = "lpt_putc c' (serial_putc c' d)"
  have s': "shows_paper ?d p" using s by (simp add: shows_paper_def)
  note S = switch_shows(1) [OF s' ok c] switch_shows(2) [OF s' ok c, of sp]
  have "off_screen ?d (cga_scroll (cga_switch sp (with_attribute c) ?d))"
    by (rule plain_off_screen [OF pos_bound [OF s' ok] c])
  then show ?thesis
    using S by (simp add: shown_def cga_putc_with_eq shows_paper_def off_screen_def)
qed

lemma space_attribute: "with_attribute 32 = 0x0720"
  by (simp add: with_attribute_def)

lemma space_shown:
  assumes "shown d0 d p"
  shows "shown d0 (putc_space d) (type_char BLANK p)"
proof -
  have "paper_put 32 p = type_char BLANK p"
    by (simp add: paper_put_def space_attribute BLANK_def Let_def)
  then show ?thesis
    using plain_shown [of d p 32 id 32] assms by (auto simp: shown_def putc_space_def space_attribute off_screen_def)
qed

lemma putc_shown:
  assumes s: "shows_paper d p" and ok: "paper_ok p"
  shows "shown d (putc_devices c d) (paper_put c p)"
proof (cases "with_attribute c AND 0xFF = 9")
  case False
  then show ?thesis using plain_shown [OF s ok] by (simp add: putc_devices_def cga_putc_def)
next
  case True
  let ?d = "lpt_putc c (serial_putc c d)"
  have "shown d ?d p" using s ok by (simp add: shown_def shows_paper_def off_screen_def)
  then have t: "shown d (putc_space (putc_space (putc_space (putc_space (putc_space ?d))))) ((type_char BLANK ^^ 5) p)"
    by (simp add: space_shown eval_nat_numeral)
  let ?e = "putc_space (putc_space (putc_space (putc_space (putc_space ?d))))"
  have "unat (crt_pos ?e) < 2000" using t pos_bound [of ?e "(type_char BLANK ^^ 5) p"] by (simp add: shown_def)
  then have "cga_scroll ?e = ?e" by (simp add: cga_scroll_def crt_sizes)
  then have "putc_devices c d = cga_cursor ?e"
    using True by (simp add: putc_devices_def cga_putc_def cga_putc_with_eq cga_switch_def)
  moreover have "paper_put c p = (type_char BLANK ^^ 5) p" using True by (simp add: paper_put_def)
  ultimately show ?thesis using t by (simp add: shown_def shows_paper_def off_screen_def)
qed

lemma putc_all_shown:
  assumes "shown d0 d p"
  shows "shown d0 (fold putc_devices cs d) (fold paper_put cs p)"
  using assms
proof (induction cs arbitrary: d p)
  case (Cons c cs)
  have "shown d (putc_devices c d) (paper_put c p)"
    by (rule putc_shown) (use Cons.prems in \<open>simp_all add: shown_def\<close>)
  then have "shown d0 (putc_devices c d) (paper_put c p)" using Cons.prems by (simp add: shown_def off_screen_def)
  then show ?case using Cons.IH by simp
qed simp

section \<open>The modifier keys\<close>

lemma kbd_frame [simp]:
  "kbd_shift (snd (inb p d)) = kbd_shift d" "io_in (snd (inb p d)) = io_in d" "kbd_shift (outb p v d) = kbd_shift d"
  "io_in (outb p v d) = io_in d" "io_count (outb p v d) = io_count d"
  "io_count (snd (inb p d)) q = (if p = q then Suc (io_count d q) else io_count d q)"
  "fst (inb p d) = io_in d p (io_count d p)"
  by (simp_all add: inb_def outb_def)

text \<open>Output leaves the keyboard alone.\<close>

definition same_kbd :: "Devs \<Rightarrow> Devs \<Rightarrow> bool" where
  "same_kbd d d' \<longleftrightarrow> kbd_shift d' = kbd_shift d \<and> io_in d' = io_in d
     \<and> io_count d' KBSTATP = io_count d KBSTATP \<and> io_count d' KBDATAP = io_count d KBDATAP"

lemma same_kbd_trans: "same_kbd a b \<Longrightarrow> same_kbd b c \<Longrightarrow> same_kbd a c"
  by (simp add: same_kbd_def)

lemma same_kbd_delay: "same_kbd d (delay d)"
  by (simp add: same_kbd_def delay_def split_beta Let_def KBSTATP_def KBDATAP_def)

lemma same_kbd_wait: "port \<noteq> KBSTATP \<Longrightarrow> port \<noteq> KBDATAP \<Longrightarrow> same_kbd d (wait_ready port r n d)"
proof (induction n arbitrary: d)
  case (Suc n)
  have "same_kbd d (snd (inb port d))" using Suc.prems by (simp add: same_kbd_def)
  moreover have "same_kbd (snd (inb port d)) (wait_ready port r n (delay (snd (inb port d))))"
    using same_kbd_trans [OF same_kbd_delay Suc.IH [OF Suc.prems]] .
  ultimately show ?case using same_kbd_trans by (auto simp: split_beta Let_def)
qed (simp add: same_kbd_def)

lemma same_kbd_putc: "same_kbd d (putc_devices c d)"
proof -
  have out: "same_kbd d (outb p v d')" if "same_kbd d d'" for p v d d' using that by (simp add: same_kbd_def)
  have ser: "same_kbd d (serial_putc c d)" for c d
    unfolding serial_putc_def by (intro out same_kbd_wait) (simp_all add: COM1_def COM_LSR_def KBSTATP_def KBDATAP_def)
  have lpt: "same_kbd d (lpt_putc c d)" for c d
    unfolding lpt_putc_def Let_def by (intro out same_kbd_wait) (simp_all add: KBSTATP_def KBDATAP_def)
  have scr: "same_kbd d (cga_cursor (cga_scroll d'))" if "same_kbd d d'" for d d'
    using that by (simp add: same_kbd_def cga_cursor_def cga_scroll_def Let_def)
  have sw: "same_kbd d (cga_switch sp c d)" if sp: "\<And>d. same_kbd d (sp d)" for sp c d
  proof -
    have "same_kbd d (sp (sp (sp (sp (sp d)))))" using sp same_kbd_trans by meson
    then show ?thesis by (auto simp: same_kbd_def cga_switch_def Let_def)
  qed
  have cga: "same_kbd d (cga_putc_with sp c d)" if "\<And>d. same_kbd d (sp d)" for sp c d
    unfolding cga_putc_with_eq by (intro scr sw that)
  have "same_kbd d (putc_space d)" for d
    unfolding putc_space_def by (rule same_kbd_trans [OF same_kbd_trans [OF ser lpt] cga]) (simp add: same_kbd_def)
  then show ?thesis
    unfolding putc_devices_def cga_putc_def by (rule same_kbd_trans [OF same_kbd_trans [OF ser lpt] cga])
qed

lemma same_kbd_cputs: "same_kbd d (cputs s d)"
proof -
  have "same_kbd d (fold (\<lambda>ch. putc_devices (of_char ch)) s d)"
  proof (induction s arbitrary: d)
    case (Cons a s)
    show ?case using same_kbd_trans [OF same_kbd_putc Cons.IH, of d "of_char a"] by simp
  qed (simp add: same_kbd_def)
  then show ?thesis by (simp add: cputs_def)
qed

text \<open>What a byte from the keyboard does to the modifiers.\<close>

definition shift_step :: "u8 \<Rightarrow> u32 \<Rightarrow> u32" where
  "shift_step b s =
     (if b = 0xE0 then s OR E0ESC
      else if b AND 0x80 \<noteq> 0 then s AND NOT (shiftcode (if s AND E0ESC \<noteq> 0 then b else b AND 0x7F) OR E0ESC)
      else if s AND E0ESC \<noteq> 0 then (s AND NOT E0ESC OR shiftcode (b OR 0x80)) XOR togglecode (b OR 0x80)
      else (s OR shiftcode b) XOR togglecode b)"

lemma kbd_key_kbd:
  "kbd_shift (snd (kbd_key b d)) = (kbd_shift d OR shiftcode b) XOR togglecode b" "io_in (snd (kbd_key b d)) = io_in d"
  "io_count (snd (kbd_key b d)) KBSTATP = io_count d KBSTATP" "io_count (snd (kbd_key b d)) KBDATAP = io_count d KBDATAP"
proof -
  have "same_kbd e (putc_devices x (cputs s e))" for x s e by (rule same_kbd_trans [OF same_kbd_cputs same_kbd_putc])
  then have re: "kbd_shift (putc_devices x (cputs s e)) = kbd_shift e" "io_in (putc_devices x (cputs s e)) = io_in e"
    "io_count (putc_devices x (cputs s e)) KBSTATP = io_count e KBSTATP"
    "io_count (putc_devices x (cputs s e)) KBDATAP = io_count e KBDATAP" for x s e
    by (simp_all add: same_kbd_def)
  show "kbd_shift (snd (kbd_key b d)) = (kbd_shift d OR shiftcode b) XOR togglecode b" "io_in (snd (kbd_key b d)) = io_in d"
    "io_count (snd (kbd_key b d)) KBSTATP = io_count d KBSTATP" "io_count (snd (kbd_key b d)) KBDATAP = io_count d KBDATAP"
    by (simp_all add: kbd_key_def Let_def re)
qed

lemma kbd_ready:
  assumes "io_in d KBSTATP (io_count d KBSTATP) AND KBS_DIB \<noteq> 0" and "io_in d KBSTATP (io_count d KBSTATP) AND KBS_TERR = 0"
  defines "d' \<equiv> snd (kbd_proc_data d)"
  shows "kbd_shift d' = shift_step (io_in d KBDATAP (io_count d KBDATAP)) (kbd_shift d)"
    and "io_in d' = io_in d" and "io_count d' KBSTATP = Suc (io_count d KBSTATP)" and "io_count d' KBDATAP = Suc (io_count d KBDATAP)"
proof -
  have ports: "KBSTATP \<noteq> KBDATAP" by (simp add: KBSTATP_def KBDATAP_def)
  note simps = d'_def kbd_proc_data_def split_beta Let_def kbd_key_kbd
  show "kbd_shift d' = shift_step (io_in d KBDATAP (io_count d KBDATAP)) (kbd_shift d)"
    "io_in d' = io_in d" "io_count d' KBSTATP = Suc (io_count d KBSTATP)" "io_count d' KBDATAP = Suc (io_count d KBDATAP)"
    using assms ports by (simp_all add: simps shift_step_def)
qed

text \<open>Key strokes: a key is pressed or released; some keys send the prefix \<open>0xE0\<close>.\<close>

datatype Key_Event = Key (prefixed: bool) (code: u8) (pressed: bool)

fun scan :: "Key_Event \<Rightarrow> u8 list" where
  "scan (Key x k pr) = (if x then [0xE0] else []) @ [if pr then k else k OR 0x80]"

text \<open>The code \<open>0x60\<close> is not used by keyboards: its release would be the prefix.\<close>

definition key_ok :: "Key_Event \<Rightarrow> bool" where
  "key_ok e \<longleftrightarrow> code e < 0x80 \<and> code e \<noteq> 0x60"

definition key_byte :: "Key_Event \<Rightarrow> u8" where
  "key_byte e = (if prefixed e then code e OR 0x80 else code e)"

text \<open>Whether the last stroke of one of the keys \<open>ks\<close> was a press, and whether key \<open>k\<close> has been pressed an odd
  number of times, given the answers \<open>h\<close> before the events.\<close>

definition last_press :: "u8 set \<Rightarrow> Key_Event list \<Rightarrow> bool \<Rightarrow> bool" where
  "last_press ks es h = fold (\<lambda>e h. if key_byte e \<in> ks then pressed e else h) es h"

definition toggled :: "u8 \<Rightarrow> Key_Event list \<Rightarrow> bool \<Rightarrow> bool" where
  "toggled k es h = fold (\<lambda>e h. if key_byte e = k \<and> pressed e then \<not> h else h) es h"

lemma code_bits:
  fixes k :: u8
  assumes "k < 0x80"
  shows "k AND 0x80 = 0" and "(k OR 0x80) AND 0x80 \<noteq> 0" and "(k OR 0x80) AND 0x7F = k" and "k \<noteq> 0x60 \<Longrightarrow> k OR 0x80 \<noteq> 0xE0" and "k \<noteq> 0xE0"
proof -
  have "take_bit 7 k = k" using assms by (simp add: word_unat_eq_iff unat_low_bits word_less_nat_alt)
  then have b: "bit k n \<Longrightarrow> n < 7" for n by (metis bit_take_bit_iff)
  have e: "bit (0x80 :: u8) n \<longleftrightarrow> n = 7" for n using bit_exp_iff [of 7 n, where 'a = u8] by auto
  have m: "bit (0x7F :: u8) n \<longleftrightarrow> n < 7" for n
    using bit_mask_iff [of 7 n, where 'a = u8] by (auto simp: mask_eq_exp_minus_1)
  have e7: "x AND 0x80 = 0 \<longleftrightarrow> \<not> bit x 7" for x :: u8 using and_exp_eq_0_iff_not_bit [of x 7] by simp
  show "k AND 0x80 = 0" using b [of 7] e7 by auto
  show "(k OR 0x80) AND 0x80 \<noteq> 0" unfolding e7 bit_or_iff e by simp
  show low7: "(k OR 0x80) AND 0x7F = k"
    by (rule bit_word_eqI) (use b in \<open>auto simp only: bit_and_iff bit_or_iff e m\<close>)
  show "k OR 0x80 \<noteq> 0xE0" if "k \<noteq> 0x60"
  proof
    assume "k OR 0x80 = 0xE0"
    then have "k = 0xE0 AND 0x7F" using low7 by simp
    then show False using that by simp
  qed
  show "k \<noteq> 0xE0" using assms by auto
qed

lemma E0ESC_bit: "s AND E0ESC = 0 \<longleftrightarrow> \<not> bit s 6" "bit E0ESC n \<longleftrightarrow> n = 6"
  using and_exp_eq_0_iff_not_bit [of s 6] bit_exp_iff [of 6 n, where 'a = u32] by (auto simp: E0ESC_def)

lemma event_step:
  assumes ok: "key_ok e" and s: "\<not> bit s 6"
  shows "fold shift_step (scan e) s =
    (if pressed e then (s OR shiftcode (key_byte e)) XOR togglecode (key_byte e) else s AND NOT (shiftcode (key_byte e)))"
proof -
  obtain x k pr where e: "e = Key x k pr" by (cases e)
  have k: "k < 0x80" "k \<noteq> 0x60" using ok by (simp_all add: key_ok_def e)
  note B = code_bits [OF k(1)] and B4 = code_bits(4) [OF k]
  have s0: "s AND E0ESC = 0" "E0ESC \<noteq> 0" using s by (simp_all add: E0ESC_bit) (simp add: E0ESC_def)
  have c: "(s OR E0ESC) AND NOT E0ESC = s" "s AND NOT z AND NOT E0ESC = s AND NOT z" "(s OR E0ESC) AND NOT z AND NOT E0ESC = s AND NOT z" for z
    by (rule bit_word_eqI; use s in \<open>auto simp: bit_and_iff bit_or_iff bit_not_iff E0ESC_bit(2)\<close>)+
  show ?thesis
    by (cases x; cases pr) (simp_all add: e shift_step_def key_byte_def B B4 s0 c)
qed

lemma shiftcode_bits:
  "bit (shiftcode b) 0 \<longleftrightarrow> b \<in> {0x2A, 0x36}" "bit (shiftcode b) 1 \<longleftrightarrow> b \<in> {0x1D, 0x9D}"
  "bit (shiftcode b) 2 \<longleftrightarrow> b \<in> {0x38, 0xB8}" "\<not> bit (shiftcode b) 3" "\<not> bit (shiftcode b) 6"
  "\<not> bit (togglecode b) 0" "\<not> bit (togglecode b) 1" "\<not> bit (togglecode b) 2" "bit (togglecode b) 3 \<longleftrightarrow> b = 0x3A"
  "\<not> bit (togglecode b) 6" "\<not> bit (shiftcode b) 4" "\<not> bit (shiftcode b) 5"
  "bit (togglecode b) 4 \<longleftrightarrow> b = 0x45" "bit (togglecode b) 5 \<longleftrightarrow> b = 0x46"
  by (auto simp: shiftcode_def togglecode_def SHIFT_def CTL_def ALT_def CAPSLOCK_def NUMLOCK_def SCROLLLOCK_def)

lemma possible_bits:
  "possible_bit TYPE(u32) 0" "possible_bit TYPE(u32) 1" "possible_bit TYPE(u32) 2" "possible_bit TYPE(u32) 3" "possible_bit TYPE(u32) 6"
  "possible_bit TYPE(u32) 4" "possible_bit TYPE(u32) 5"
  by simp_all

lemma modifiers_after:
  assumes "\<forall>e\<in>set es. key_ok e" and "\<not> bit s 6"
  defines "s' \<equiv> fold shift_step (concat (map scan es)) s"
  shows "\<not> bit s' 6 \<and> (bit s' 0 \<longleftrightarrow> last_press {0x2A, 0x36} es (bit s 0)) \<and> (bit s' 1 \<longleftrightarrow> last_press {0x1D, 0x9D} es (bit s 1))
    \<and> (bit s' 2 \<longleftrightarrow> last_press {0x38, 0xB8} es (bit s 2)) \<and> (bit s' 3 \<longleftrightarrow> toggled 0x3A es (bit s 3))
    \<and> (bit s' 4 \<longleftrightarrow> toggled 0x45 es (bit s 4)) \<and> (bit s' 5 \<longleftrightarrow> toggled 0x46 es (bit s 5))"
  using assms(1,2) unfolding s'_def
proof (induction es arbitrary: s)
  case (Cons e es)
  define s1 where "s1 = fold shift_step (scan e) s"
  have s1: "s1 = (if pressed e then (s OR shiftcode (key_byte e)) XOR togglecode (key_byte e) else s AND NOT (shiftcode (key_byte e)))"
    using event_step Cons.prems by (simp add: s1_def)
  have b: "\<not> bit s1 6" "bit s1 0 = (if key_byte e \<in> {0x2A, 0x36} then pressed e else bit s 0)"
    "bit s1 1 = (if key_byte e \<in> {0x1D, 0x9D} then pressed e else bit s 1)" "bit s1 2 = (if key_byte e \<in> {0x38, 0xB8} then pressed e else bit s 2)"
    "bit s1 3 = (if key_byte e = 0x3A \<and> pressed e then \<not> bit s 3 else bit s 3)"
    "bit s1 4 = (if key_byte e = 0x45 \<and> pressed e then \<not> bit s 4 else bit s 4)"
    "bit s1 5 = (if key_byte e = 0x46 \<and> pressed e then \<not> bit s 5 else bit s 5)"
    unfolding s1 using Cons.prems(2)
    by (auto simp only: bit_xor_iff bit_or_iff bit_and_iff bit_not_iff shiftcode_bits possible_bits split: if_splits)
  have "\<forall>e\<in>set es. key_ok e" using Cons.prems(1) by simp
  from Cons.IH [OF this b(1)] show ?case
    unfolding last_press_def toggled_def concat.simps list.map fold_append o_apply s1_def [symmetric] fold.simps b by simp
qed (simp_all add: last_press_def toggled_def)

lemma kbd_run:
  assumes "\<And>i. i < length bs \<Longrightarrow> io_in d KBSTATP (io_count d KBSTATP + i) AND (KBS_DIB OR KBS_TERR) = KBS_DIB"
    and "\<And>i. i < length bs \<Longrightarrow> io_in d KBDATAP (io_count d KBDATAP + i) = bs ! i"
  shows "kbd_shift (((\<lambda>d. snd (kbd_proc_data d)) ^^ length bs) d) = fold shift_step bs (kbd_shift d)"
  using assms
proof (induction bs arbitrary: d)
  case (Cons b bs)
  have split: "x AND KBS_DIB \<noteq> 0 \<and> x AND KBS_TERR = 0" if "x AND (KBS_DIB OR KBS_TERR) = KBS_DIB" for x :: u8
  proof -
    have i: "bit (x AND (KBS_DIB OR KBS_TERR)) n = bit KBS_DIB n" for n using that by simp
    have "bit x 0" "\<not> bit x 5" using i [of 0] i [of 5] by (simp_all add: bit_and_iff bit_or_iff KBS_DIB_def KBS_TERR_def)
    then show ?thesis
      using and_exp_eq_0_iff_not_bit [of x 0] and_exp_eq_0_iff_not_bit [of x 5] by (simp add: KBS_DIB_def KBS_TERR_def)
  qed
  have r: "io_in d KBSTATP (io_count d KBSTATP) AND KBS_DIB \<noteq> 0" "io_in d KBSTATP (io_count d KBSTATP) AND KBS_TERR = 0"
    using split [OF Cons.prems(1) [of 0]] by simp_all
  let ?d = "snd (kbd_proc_data d)"
  note R = kbd_ready [OF r]
  have b: "io_in d KBDATAP (io_count d KBDATAP) = b" using Cons.prems(2) [of 0] by simp
  have "kbd_shift (((\<lambda>d. snd (kbd_proc_data d)) ^^ length bs) ?d) = fold shift_step bs (kbd_shift ?d)"
  proof (rule Cons.IH)
    fix i assume i: "i < length bs"
    show "io_in ?d KBSTATP (io_count ?d KBSTATP + i) AND (KBS_DIB OR KBS_TERR) = KBS_DIB"
      using Cons.prems(1) [of "Suc i"] i by (simp add: R(2,3))
    show "io_in ?d KBDATAP (io_count ?d KBDATAP + i) = bs ! i" using Cons.prems(2) [of "Suc i"] i by (simp add: R(2,4))
  qed
  then show ?case using R(1) b by (simp add: funpow_Suc_right del: funpow.simps)
qed simp

section \<open>Input into the ring\<close>

text \<open>\<open>proc\<close> delivers the values \<open>xs\<close> and then has no more.\<close>

inductive delivers :: "(Devs \<Rightarrow> u32 option \<times> Devs) \<Rightarrow> Devs \<Rightarrow> u32 list \<Rightarrow> Devs \<Rightarrow> bool" for proc where
  idle: "proc d = (None, d') \<Longrightarrow> delivers proc d [] d'"
| datum: "proc d = (Some x, d1) \<Longrightarrow> delivers proc d1 xs d' \<Longrightarrow> delivers proc d (x # xs) d'"

lemma cons_intr_loop_delivers: "delivers proc d xs d' \<Longrightarrow> cons_intr_loop proc d c = Some (d', cons_intr xs c)"
  by (induction arbitrary: c rule: delivers.induct) (subst cons_intr_loop.simps, simp)+

lemma getc_devices_ring:
  assumes "serial_exists d" and "delivers serial_proc_data d xs d1" and "delivers kbd_proc_data d1 ys d2"
  shows "getc_devices d c = Some (case cons_getc xs ys c of (r, c') \<Rightarrow> (r, d2, c'))"
  using assms by (simp add: getc_devices_def serial_intr_def kbd_intr_def cons_intr_loop_delivers cons_getc_def split_beta Let_def)

section \<open>Well-formed devices\<close>

text \<open>The cursor is on the screen, and only the seven bits of the modifiers are in use.\<close>

definition dev_ok :: "Devs \<Rightarrow> bool" where
  "dev_ok d \<longleftrightarrow> crt_pos d < of_nat CRT_SIZE \<and> kbd_shift d < 128"

lemma dev_ok_pos: "crt_pos d < of_nat CRT_SIZE \<longleftrightarrow> unat (crt_pos d) < 2000"
  by (simp add: crt_sizes word_less_nat_alt)

lemma dev_ok_putc:
  assumes "dev_ok d"
  shows "dev_ok (putc_devices c d)"
proof -
  let ?p = "\<lparr>cells = (\<lambda>i. if i < 2000 then crt_buf d i else BLANK), cursor = unat (crt_pos d), top_row = 0\<rparr>"
  have "paper_ok ?p" "shows_paper d ?p" using assms by (auto simp: paper_ok_def shows_paper_def dev_ok_def dev_ok_pos)
  then have "shown d (putc_devices c d) (paper_put c ?p)" using putc_shown by blast
  then have "unat (crt_pos (putc_devices c d)) < 2000" using pos_bound by (auto simp: shown_def)
  moreover have "kbd_shift (putc_devices c d) = kbd_shift d" using same_kbd_putc by (simp add: same_kbd_def)
  ultimately show ?thesis using assms by (simp add: dev_ok_def dev_ok_pos)
qed

lemma dev_ok_cputs: "dev_ok d \<Longrightarrow> dev_ok (cputs s d)"
proof -
  have "dev_ok d \<Longrightarrow> dev_ok (fold (\<lambda>ch. putc_devices (of_char ch)) s d)" by (induction s arbitrary: d) (simp_all add: dev_ok_putc)
  then show "dev_ok d \<Longrightarrow> dev_ok (cputs s d)" by (simp add: cputs_def)
qed

lemma less_128_bits: "x < 128 \<longleftrightarrow> (\<forall>n\<ge>7. \<not> bit x n)" for x :: u32
proof -
  have "x < 128 \<longleftrightarrow> drop_bit 7 x = 0" by (simp add: word_unat_eq_iff unat_shift_right word_less_nat_alt div_eq_0_iff)
  also have "\<dots> \<longleftrightarrow> (\<forall>n. \<not> bit x (7 + n))" by (auto simp: bit_eq_iff bit_simps) (use bit_imp_le_length [of x] in fastforce)
  also have "\<dots> \<longleftrightarrow> (\<forall>n\<ge>7. \<not> bit x n)" by (metis le_add1 le_Suc_ex)
  finally show ?thesis .
qed

lemma codes_128: "shiftcode b < 128" "togglecode b < 128" "E0ESC < 128"
  by (simp_all add: shiftcode_def togglecode_def SHIFT_def CTL_def ALT_def CAPSLOCK_def NUMLOCK_def SCROLLLOCK_def E0ESC_def)

lemma modifiers_128:
  "x < 128 \<Longrightarrow> y < 128 \<Longrightarrow> x OR y < 128" "x < 128 \<Longrightarrow> y < 128 \<Longrightarrow> x XOR y < 128" "x < 128 \<Longrightarrow> x AND z < 128" for x y z :: u32
  unfolding less_128_bits by (auto simp: bit_or_iff bit_xor_iff bit_and_iff)

lemma dev_ok_cong: "crt_pos d' = crt_pos d \<Longrightarrow> kbd_shift d' < 128 \<Longrightarrow> dev_ok d \<Longrightarrow> dev_ok d'"
  by (simp add: dev_ok_def)

lemma swap_case_byte: "c < 256 \<Longrightarrow> swap_case c < 256"
proof -
  assume c: "c < 256"
  have a: "c + (65 - 97) = c - 32" by simp
  have "c - 32 \<le> c" if "97 \<le> c" using that by (simp add: word_le_nat_alt unat_sub)
  moreover have "unat (c + 32) = unat c + 32" if "c \<le> 90" using that by (simp add: word_le_nat_alt unat_word_ariths)
  ultimately show ?thesis using c unfolding swap_case_def a by (auto simp: word_less_nat_alt word_le_nat_alt)
qed

lemma kbd_key_typed:
  assumes ok: "dev_ok d"
  shows "dev_ok (snd (kbd_key b d))" and "fst (kbd_key b d) = Some x \<Longrightarrow> x < 256"
proof -
  have s: "(kbd_shift d OR shiftcode b) XOR togglecode b < 128"
    using ok by (intro modifiers_128 codes_128) (simp add: dev_ok_def)
  then have d1: "dev_ok (d\<lparr>kbd_shift := (kbd_shift d OR shiftcode b) XOR togglecode b\<rparr>)" using ok by (simp add: dev_ok_def)
  have "dev_ok (outb p v (putc_devices y (cputs w f)))" if "dev_ok f" for p v y w f
    using dev_ok_putc [OF dev_ok_cputs [OF that]] by (simp add: dev_ok_def)
  then show "dev_ok (snd (kbd_key b d))" using d1 by (simp add: kbd_key_def Let_def)
  have u: "(ucast (z :: u8) :: u32) < 256" for z
  proof -
    have "unat z < 256" using unsigned_less [of z, where ?'a = nat] by simp
    then show ?thesis by (simp add: word_less_nat_alt unsigned_ucast_eq take_bit_nat_eq_self)
  qed
  show "fst (kbd_key b d) = Some x \<Longrightarrow> x < 256"
    by (auto simp: kbd_key_def Let_def u swap_case_byte split: if_splits)
qed

lemma kbd_typed:
  assumes ok: "dev_ok d"
  shows "dev_ok (snd (kbd_proc_data d))" and "fst (kbd_proc_data d) = Some x \<Longrightarrow> x < 256"
proof -
  have s: "kbd_shift d < 128" using ok by (simp add: dev_ok_def)
  let ?e = "snd (inb KBDATAP (snd (inb KBSTATP d)))"
  have e: "dev_ok (snd (inb KBSTATP d))" "dev_ok ?e" using ok by (simp_all add: dev_ok_def)
  have upd: "dev_ok (?e\<lparr>kbd_shift := z\<rparr>)" if "z < 128" for z using e(2) that by (simp add: dev_ok_def)
  have m: "kbd_shift d OR E0ESC < 128" "kbd_shift d AND z < 128" "kbd_shift d AND z AND y < 128" for z y
    using modifiers_128 codes_128 s by blast+
  have ports: "KBSTATP \<noteq> KBDATAP" by (simp add: KBSTATP_def KBDATAP_def)
  show "dev_ok (snd (kbd_proc_data d))"
    using e(1) kbd_key_typed(1) [OF e(2)] kbd_key_typed(1) [OF upd [OF m(2)]] upd [OF m(1)] upd [OF m(3)] ports
    by (simp add: kbd_proc_data_def split_beta Let_def)
  show "fst (kbd_proc_data d) = Some x \<Longrightarrow> x < 256"
    using kbd_key_typed(2) [OF e(2)] kbd_key_typed(2) [OF upd [OF m(2)]] ports
    by (auto simp: kbd_proc_data_def split_beta Let_def split: if_splits)
qed

section \<open>Properties\<close>

text \<open>Devices that are always ready; the keyboard sends the bytes \<open>bs\<close>.\<close>

definition sample_dev :: "u8 list \<Rightarrow> Devs" where
  "sample_dev bs = \<lparr>io_in = (\<lambda>port n. if port = KBDATAP then (if n < length bs then bs ! n else 0)
       else if port = KBSTATP then KBS_DIB else 0xA0),
     io_count = (\<lambda>_. 0), io_out = [], serial_exists = True, addr_6845 = CGA_BASE, crt_base = KERNBASE + CGA_BUF,
     crt_buf = (\<lambda>_. BLANK), crt_pos = 0, kbd_shift = 0, irq_mask_8259A = 0xFFFB, didinit = False\<rparr>"

text \<open>C2. The display implements a roll of paper: whatever characters are written, control characters and tabs
  included, and whatever the ports answer, the screen shows the 25 rows of the paper from its top row on, the cursor is
  where it is on the paper, and no cell outside of the screen is written.\<close>

theorem console_shows_paper:
  assumes "paper_ok p" and "shows_paper d p"
  shows "paper_ok (fold paper_put cs p) \<and> shows_paper (fold putc_devices cs d) (fold paper_put cs p)
    \<and> (\<forall>i\<ge>CRT_SIZE. crt_buf (fold putc_devices cs d) i = crt_buf d i)"
proof -
  have "shown d d p" using assms by (simp add: shown_def off_screen_def)
  then have "shown d (fold putc_devices cs d) (fold paper_put cs p)" by (rule putc_all_shown)
  then show ?thesis by (simp add: shown_def off_screen_def crt_sizes)
qed

theorem console_shows_paper_witness:
  "paper_ok (fold paper_put [72, 105, 9, 10] \<lparr>cells = (\<lambda>_. BLANK), cursor = 0, top_row = 0\<rparr>)
    \<and> shows_paper (fold putc_devices [72, 105, 9, 10] (sample_dev [])) (fold paper_put [72, 105, 9, 10] \<lparr>cells = (\<lambda>_. BLANK), cursor = 0, top_row = 0\<rparr>)
    \<and> crt_buf (fold putc_devices [72, 105, 9, 10] (sample_dev [])) 2000 = BLANK"
proof -
  have "paper_ok \<lparr>cells = (\<lambda>_. BLANK), cursor = 0, top_row = 0\<rparr>" "shows_paper (sample_dev []) \<lparr>cells = (\<lambda>_. BLANK), cursor = 0, top_row = 0\<rparr>"
    by (simp_all add: paper_ok_def shows_paper_def sample_dev_def)
  from console_shows_paper [OF this, of "[72, 105, 9, 10]"] show ?thesis by (simp add: crt_sizes) (simp add: sample_dev_def)
qed

text \<open>C13. The state of the devices is well formed whatever the ports deliver: the cursor stays on the screen, the
  modifiers stay within their seven bits, which makes every access to \<open>charcode\<close> one within its bounds, and the
  keyboard and the serial port deliver bytes.\<close>

theorem devices_typed:
  assumes "dev_ok d"
  shows "dev_ok (putc_devices c d) \<and> dev_ok (snd (kbd_proc_data d)) \<and> dev_ok (snd (serial_proc_data d))
    \<and> (case fst (kbd_proc_data d) of None \<Rightarrow> True | Some x \<Rightarrow> x < 256)
    \<and> (case fst (serial_proc_data d) of None \<Rightarrow> True | Some x \<Rightarrow> x < 256)"
proof -
  have "(ucast (z :: u8) :: u32) < 256" for z
  proof -
    have "unat z < 256" using unsigned_less [of z, where ?'a = nat] by simp
    then show ?thesis by (simp add: word_less_nat_alt unsigned_ucast_eq take_bit_nat_eq_self)
  qed
  then have "dev_ok (snd (serial_proc_data d)) \<and> (case fst (serial_proc_data d) of None \<Rightarrow> True | Some x \<Rightarrow> x < 256)"
    using assms by (simp add: serial_proc_data_def split_beta Let_def dev_ok_def)
  then show ?thesis using dev_ok_putc [OF assms] kbd_typed [OF assms] by (simp split: option.splits)
qed

theorem devices_typed_witness:
  "dev_ok (putc_devices 8 (sample_dev [0x1E])) \<and> dev_ok (snd (kbd_proc_data (sample_dev [0x1E])))
    \<and> dev_ok (snd (serial_proc_data (sample_dev [0x1E])))
    \<and> (case fst (kbd_proc_data (sample_dev [0x1E])) of None \<Rightarrow> True | Some x \<Rightarrow> x < 256)
    \<and> (case fst (serial_proc_data (sample_dev [0x1E])) of None \<Rightarrow> True | Some x \<Rightarrow> x < 256)"
  by (rule devices_typed) (simp add: dev_ok_def sample_dev_def crt_sizes)

text \<open>C36. The keyboard driver tracks the modifier keys exactly: after the bytes of any sequence of key strokes, with
  and without the prefix \<open>0xE0\<close>, that reaches the driver without transmission errors, the bits for Shift, Control and
  Alt say whether the last stroke of either key of the pair was a press, the bits for Caps Lock, Num Lock and Scroll Lock
  have changed with every press of their key, and no prefix is pending.\<close>

theorem kbd_modifiers_exact:
  assumes "\<forall>e\<in>set es. key_ok e" and "\<not> bit (kbd_shift d) 6"
    and "\<And>i. i < length (concat (map scan es)) \<Longrightarrow> io_in d KBSTATP (io_count d KBSTATP + i) AND (KBS_DIB OR KBS_TERR) = KBS_DIB"
    and "\<And>i. i < length (concat (map scan es)) \<Longrightarrow> io_in d KBDATAP (io_count d KBDATAP + i) = concat (map scan es) ! i"
  defines "s' \<equiv> kbd_shift (((\<lambda>d. snd (kbd_proc_data d)) ^^ length (concat (map scan es))) d)"
  shows "\<not> bit s' 6 \<and> (bit s' 0 \<longleftrightarrow> last_press {0x2A, 0x36} es (bit (kbd_shift d) 0))
    \<and> (bit s' 1 \<longleftrightarrow> last_press {0x1D, 0x9D} es (bit (kbd_shift d) 1))
    \<and> (bit s' 2 \<longleftrightarrow> last_press {0x38, 0xB8} es (bit (kbd_shift d) 2))
    \<and> (bit s' 3 \<longleftrightarrow> toggled 0x3A es (bit (kbd_shift d) 3))
    \<and> (bit s' 4 \<longleftrightarrow> toggled 0x45 es (bit (kbd_shift d) 4))
    \<and> (bit s' 5 \<longleftrightarrow> toggled 0x46 es (bit (kbd_shift d) 5))"
proof -
  have "s' = fold shift_step (concat (map scan es)) (kbd_shift d)" unfolding s'_def by (rule kbd_run) (fact assms)+
  then show ?thesis using modifiers_after [OF assms(1,2)] by simp
qed

theorem kbd_modifiers_exact_witness:
  "let es = [Key False 0x2A True, Key True 0x1D True, Key False 0x45 True, Key False 0x2A False];
       d = sample_dev (concat (map scan es));
       s' = kbd_shift (((\<lambda>d. snd (kbd_proc_data d)) ^^ 5) d)
   in \<not> bit s' 0 \<and> bit s' 1 \<and> \<not> bit s' 2 \<and> bit s' 4 \<and> \<not> bit s' 5 \<and> \<not> bit s' 6"
proof -
  let ?es = "[Key False 0x2A True, Key True 0x1D True, Key False 0x45 True, Key False 0x2A False]"
  let ?d = "sample_dev (concat (map scan ?es))"
  have ok: "\<forall>e\<in>set ?es. key_ok e" by (simp add: key_ok_def)
  have len: "length (concat (map scan ?es)) = 5" by simp
  have st: "io_in ?d KBSTATP (io_count ?d KBSTATP + i) AND (KBS_DIB OR KBS_TERR) = KBS_DIB" for i
    by (simp add: sample_dev_def KBSTATP_def KBDATAP_def KBS_DIB_def KBS_TERR_def)
  have dt: "io_in ?d KBDATAP (io_count ?d KBDATAP + i) = concat (map scan ?es) ! i" if "i < length (concat (map scan ?es))" for i
    using that by (simp add: sample_dev_def)
  have s: "kbd_shift ?d = 0" by (simp add: sample_dev_def)
  show ?thesis
    using kbd_modifiers_exact [OF ok _ st dt] unfolding len s
    by (simp add: Let_def last_press_def toggled_def key_byte_def)
qed

text \<open>With Control held the Home key is lost: \<open>ctlmap\<close> has it at index \<open>0x97\<close>, where no key is.\<close>

lemma ctl_home_lost: "ctlmap 0xC7 = 0" "normalmap 0xC7 = KEY_HOME" "shiftmap 0xC7 = KEY_HOME"
  by (simp_all add: ctlmap_def normalmap_def shiftmap_def ctl_keys_def codes_def cursor_keys_def)

end
