(* ===== verification/Cmd_Line.thy ===== *)
theory Cmd_Line
  imports Strings
begin

text \<open>
  The two loops with which the shell (\<open>user/sh.c\<close>) and the kernel monitor (\<open>kern/monitor.c\<close>) cut a line of
  text into words in place: blanks are overwritten with zero bytes, and a word is a pointer to its first byte.
\<close>

section \<open>The loops\<close>

text \<open>\<open>while (strchr(WHITESPACE, *s)) *s++ = 0;\<close> where \<open>strchr\<close> does not find the zero byte (theory \<open>Strings\<close>), so that the test
  for it in the monitor changes nothing.\<close>

partial_function (option) gobble :: "u8 set \<Rightarrow> mem \<Rightarrow> u32 \<Rightarrow> (mem \<times> u32) option" where
  "gobble blanks m s = (if m s \<noteq> 0 \<and> m s \<in> blanks then gobble blanks (m(s := 0)) (s + 1) else Some (m, s))"

text \<open>\<open>while (*s && !strchr(STOP, *s)) s++;\<close>\<close>

partial_function (option) word_end :: "u8 set \<Rightarrow> mem \<Rightarrow> u32 \<Rightarrow> u32 option" where
  "word_end stop m s = (if m s \<noteq> 0 \<and> m s \<notin> stop then word_end stop m (s + 1) else Some s)"

section \<open>The loops on strings\<close>

lemma cstr_append:
  "cstr m p (xs @ ys) \<longleftrightarrow> (\<forall>i<length xs. m (p + of_nat i) = xs ! i \<and> xs ! i \<noteq> 0) \<and> cstr m (p + of_nat (length xs)) ys"
proof (induction xs arbitrary: p)
  case (Cons x xs)
  have "(\<forall>i<length (x # xs). m (p + of_nat i) = (x # xs) ! i \<and> (x # xs) ! i \<noteq> 0)
    \<longleftrightarrow> m p = x \<and> x \<noteq> 0 \<and> (\<forall>i<length xs. m (p + 1 + of_nat i) = xs ! i \<and> xs ! i \<noteq> 0)"
    by (auto simp: less_Suc_eq_0_disj add.assoc nth_Cons split: nat.splits)
  then show ?case using Cons [of "p + 1"] by (auto simp: add.assoc)
qed simp

lemma cstr_cong: "(\<And>a. a \<in> span p (Suc (length xs)) \<Longrightarrow> m' a = m a) \<Longrightarrow> cstr m' p xs = cstr m p xs"
proof (induction xs arbitrary: p)
  case (Cons x xs)
  then have "cstr m' (p + 1) xs = cstr m (p + 1) xs" "m' p = m p" by (simp_all add: span_Suc [of p])
  then show ?case by simp
qed (simp add: span_Suc)

lemma cstr_nonzero: "cstr m p xs \<Longrightarrow> x \<in> set xs \<Longrightarrow> x \<noteq> 0"
  by (induction xs arbitrary: p) auto

text \<open>Bytes of a string at different places have different addresses when the string does not wrap around.\<close>

lemma span_step:
  assumes "unat p + n < 4294967296"
  shows "p \<notin> span (p + 1) n"
proof
  assume "p \<in> span (p + 1) n"
  then obtain i where i: "i < n" "p = p + 1 + of_nat i" by (auto simp: span_def)
  then have "(of_nat (Suc i) :: u32) = 0" by (simp add: algebra_simps)
  then have "unat (of_nat (Suc i) :: u32) = 0" by simp
  then show False using i(1) assms by (simp add: unat_of_nat del: of_nat_Suc)
qed

lemma gobble_spec:
  fixes blanks :: "u8 set"
  assumes "cstr m s xs" and "unat s + length xs < 4294967296" and k: "k = length (takeWhile (\<lambda>x. x \<in> blanks) xs)"
  shows "\<exists>m'. gobble blanks m s = Some (m', s + of_nat k) \<and> cstr m' (s + of_nat k) (drop k xs)
    \<and> (\<forall>a. a \<notin> span s k \<longrightarrow> m' a = m a) \<and> (\<forall>a\<in>span s k. m' a = 0)"
  using assms(1,2) unfolding k
proof (induction xs arbitrary: m s)
  case Nil
  then show ?case by (subst gobble.simps) simp
next
  case (Cons x xs)
  show ?case
  proof (cases "x \<in> blanks")
    case False
    have "gobble blanks m s = Some (m, s)" using False Cons.prems(1) by (subst gobble.simps) simp
    then show ?thesis using Cons.prems False by auto
  next
    case True
    let ?k = "length (takeWhile (\<lambda>x. x \<in> blanks) xs)"
    have out: "s \<notin> span (s + 1) (Suc (length xs))"
    proof -
      have "unat s + Suc (length xs) < 4294967296" using Cons.prems(2) by simp
      then show ?thesis by (rule span_step)
    qed
    have u: "unat (s + 1) = unat s + 1" using Cons.prems(2) by (simp add: unat_word_ariths)
    have "cstr (m(s := 0)) (s + 1) xs" using Cons.prems(1) cstr_upd [OF out] by simp
    moreover have "unat (s + 1) + length xs < 4294967296" using Cons.prems(2) u by simp
    ultimately obtain m' where m': "gobble blanks (m(s := 0)) (s + 1) = Some (m', s + 1 + of_nat ?k)"
      "cstr m' (s + 1 + of_nat ?k) (drop ?k xs)" "\<forall>a. a \<notin> span (s + 1) ?k \<longrightarrow> m' a = (m(s := 0)) a" "\<forall>a\<in>span (s + 1) ?k. m' a = 0"
      using Cons.IH [of "m(s := 0)" "s + 1"] by blast
    have "gobble blanks m s = Some (m', s + 1 + of_nat ?k)"
      using m'(1) True Cons.prems(1) by (subst gobble.simps) simp
    moreover have "s \<notin> span (s + 1) ?k"
      using out span_mono [of ?k "Suc (length xs)" "s + 1"] length_takeWhile_le [of _ xs] by (meson le_SucI subsetD)
    ultimately show ?thesis using m' True by (auto simp: span_Suc add.assoc)
  qed
qed

lemma word_end_spec:
  assumes "cstr m s xs"
  shows "word_end stop m s = Some (s + of_nat (length (takeWhile (\<lambda>x. x \<notin> stop) xs)))"
  using assms
proof (induction xs arbitrary: s)
  case Nil
  then show ?case by (subst word_end.simps) simp
next
  case (Cons x xs)
  then show ?case by (subst word_end.simps) (auto simp: add.assoc)
qed

lemma word_bytes:
  assumes "cstr m p (w @ ys)" and "\<And>i. i < length w \<Longrightarrow> m' (p + of_nat i) = m (p + of_nat i)" and "m' (p + of_nat (length w)) = 0"
  shows "cstr m' p w"
  using assms cstr_append [of m p w ys] cstr_append [of m' p w "[]"] by simp

lemma cstr_mem_put: "(\<And>x. x \<in> set xs \<Longrightarrow> x \<noteq> 0) \<Longrightarrow> unat p + length xs < 4294967295 \<Longrightarrow> cstr (mem_put p (xs @ [0]) m) p xs"
proof (induction xs arbitrary: p m)
  case (Cons x xs)
  have u: "unat (p + 1) = unat p + 1" using Cons.prems(2) by (simp add: unat_word_ariths)
  have "unat p + Suc (length xs) < 4294967296" using Cons.prems(2) by simp
  then have "p \<notin> span (p + 1) (length (xs @ [0]))" using span_step by simp
  then have "mem_put (p + 1) (xs @ [0]) (m(p := x)) p = x" using mem_put_outside by simp
  moreover have "cstr (mem_put (p + 1) (xs @ [0]) (m(p := x))) (p + 1) xs" using Cons u by simp
  ultimately show ?case using Cons.prems(1) by simp
qed simp

lemma in_span_iff:
  assumes "unat s + n < 4294967296"
  shows "a \<in> span s n \<longleftrightarrow> unat s \<le> unat a \<and> unat a < unat s + n"
proof
  assume "a \<in> span s n"
  then obtain i where "i < n" "a = s + of_nat i" by (auto simp: span_def)
  then show "unat s \<le> unat a \<and> unat a < unat s + n" using assms unat_plus_nat [of s i] by simp
next
  assume a: "unat s \<le> unat a \<and> unat a < unat s + n"
  then have "a = s + of_nat (unat a - unat s)" using assms unat_plus_nat [of s "unat a - unat s"] by (simp add: word_unat_eq_iff)
  then show "a \<in> span s n" using a unfolding span_def by (intro image_eqI [of _ _ "unat a - unat s"]) (auto simp: lessThan_def)
qed

text \<open>The words of a line.\<close>

function words_of :: "u8 set \<Rightarrow> u8 list \<Rightarrow> u8 list list" where
  "words_of B [] = []"
| "words_of B (x # xs) =
     (if x \<in> B then words_of B xs
      else (x # takeWhile (\<lambda>y. y \<notin> B) xs) # words_of B (dropWhile (\<lambda>y. y \<notin> B) xs))"
  by pat_completeness auto
termination
  by (relation "measure (\<lambda>(B, xs). length xs)") (auto intro: le_imp_less_Suc length_dropWhile_le)

lemma words_of_blanks: "words_of B xs = words_of B (dropWhile (\<lambda>x. x \<in> B) xs)"
  by (induction xs) auto

text \<open>The first word of a line that does not start with a blank, and what is behind it.\<close>

lemma first_word:
  assumes c: "cstr m p (y # ys)" and y: "y \<notin> B" and b: "unat p + length (y # ys) < 4294967295"
  defines "w \<equiv> y # takeWhile (\<lambda>x. x \<notin> B) ys" and "r \<equiv> dropWhile (\<lambda>x. x \<notin> B) ys"
  shows "word_end B m p = Some (p + of_nat (length w))" and "cstr m (p + of_nat (length w)) r"
    and "r = [] \<or> hd r \<in> B" and "length w + length r = length (y # ys)"
    and "\<lbrakk>\<And>a. a \<notin> span (p + of_nat (length w)) (length r) \<Longrightarrow> m' a = m a; m' (p + of_nat (length w)) = 0\<rbrakk> \<Longrightarrow> cstr m' p w"
proof -
  have s: "y # ys = w @ r" by (simp add: w_def r_def)
  have tw: "takeWhile (\<lambda>x. x \<notin> B) (y # ys) = w" using y by (simp add: w_def)
  show "word_end B m p = Some (p + of_nat (length w))" using word_end_spec [OF c, of B] unfolding tw .
  show "cstr m (p + of_nat (length w)) r" using c unfolding s cstr_append by blast
  show "r = [] \<or> hd r \<in> B" using hd_dropWhile [of "\<lambda>x. x \<notin> B" ys] by (auto simp: r_def)
  show len: "length w + length r = length (y # ys)" unfolding s by simp
  show "cstr m' p w" if "\<And>a. a \<notin> span (p + of_nat (length w)) (length r) \<Longrightarrow> m' a = m a" "m' (p + of_nat (length w)) = 0"
  proof (rule word_bytes [of m p w r])
    show "cstr m p (w @ r)" using c unfolding s .
    show "m' (p + of_nat (length w)) = 0" by (rule that(2))
    fix i assume i: "i < length w"
    have u: "unat (p + of_nat i) = unat p + i" "unat (p + of_nat (length w)) = unat p + length w"
      using b len i by (intro unat_plus_nat; simp)+
    have "p + of_nat i \<notin> span (p + of_nat (length w)) (length r)"
      using in_span_iff [of "p + of_nat (length w)" "length r"] u i b len by simp
    then show "m' (p + of_nat i) = m (p + of_nat i)" by (rule that(1))
  qed
qed

end
