(* ===== verification/Monitor.thy ===== *)
theory Monitor
  imports Cmd_Line
begin

text \<open>
  The command line of the kernel monitor (\<open>kern/monitor.c\<close>): parsing, the table of commands and the walk
  along the stack frames of \<open>mon_backtrace\<close>.
\<close>

section \<open>Operations\<close>

definition WHITESPACE :: "u8 set" where
  "WHITESPACE = {9, 13, 10, 32}"

definition MAXARGS :: nat where "MAXARGS = 16"

text \<open>The parsing loop of \<open>runcmd\<close>; the second result is \<open>argv\<close>, or \<open>None\<close> when there are too many arguments.\<close>

partial_function (option) parse_args :: "mem \<Rightarrow> u32 \<Rightarrow> u32 list \<Rightarrow> (mem \<times> u32 list option) option" where
  "parse_args m buf argv =
     do { (m, buf) \<leftarrow> gobble WHITESPACE m buf;
          if m buf = 0 then Some (m, Some argv)
          else if length argv = MAXARGS - 1 then Some (m, None)
          else do { e \<leftarrow> word_end WHITESPACE m buf; parse_args m e (argv @ [buf]) } }"

datatype Command = mon_help | mon_kerninfo | mon_backtrace

definition commands :: "(string \<times> string \<times> Command) list" where
  "commands = [(''help'', ''Display this list of commands'', mon_help),
     (''kerninfo'', ''Display information about the kernel'', mon_kerninfo),
     (''backtrace'', ''Shows the backtrace of all stack frames'', mon_backtrace)]"

text \<open>What \<open>runcmd\<close> does with the line: nothing, the message about too many arguments, a command with its arguments,
  or the message about an unknown command. The names of the commands are strings at the addresses \<open>names\<close>.\<close>

datatype Action = Nothing | Too_Many | Invoke Command "u32 list" | Unknown u32

primrec lookup_command :: "(string \<Rightarrow> u32) \<Rightarrow> mem \<Rightarrow> u32 list \<Rightarrow> (string \<times> string \<times> Command) list \<Rightarrow> Action option" where
  "lookup_command names m argv [] = Some (Unknown (hd argv))"
| "lookup_command names m argv (c # cs) =
     do { r \<leftarrow> strcmp m (hd argv) (names (fst c));
          if r = 0 then Some (Invoke (snd (snd c)) argv) else lookup_command names m argv cs }"

definition runcmd :: "(string \<Rightarrow> u32) \<Rightarrow> mem \<Rightarrow> u32 \<Rightarrow> (mem \<times> Action) option" where
  "runcmd names m buf =
     do { (m, r) \<leftarrow> parse_args m buf [];
          (case r of
             None \<Rightarrow> Some (m, Too_Many)
           | Some argv \<Rightarrow>
               if argv = [] then Some (m, Nothing)
               else do { a \<leftarrow> lookup_command names m argv commands; Some (m, a) }) }"

text \<open>\<open>mon_backtrace\<close>: the frames it prints, with \<open>word\<close> the words of memory.\<close>

record Frame =
  fr_ebp :: u32
  fr_eip :: u32
  fr_args :: "u32 list"

partial_function (option) backtrace :: "(u32 \<Rightarrow> u32) \<Rightarrow> u32 \<Rightarrow> Frame list option" where
  "backtrace word ebp =
     (if ebp = 0 then Some []
      else do { fs \<leftarrow> backtrace word (word ebp);
                Some (\<lparr>fr_ebp = ebp, fr_eip = word (ebp + 4), fr_args = map (\<lambda>i. word (ebp + 8 + of_nat i * 4)) [0..<5]\<rparr> # fs) })"

section \<open>Parsing\<close>

lemma parse_args_spec:
  assumes "cstr m s xs" and "unat s + length xs < 4294967295" and "length argv \<le> MAXARGS - 1"
  shows "\<exists>m' r. parse_args m s argv = Some (m', r) \<and> (\<forall>a. a \<notin> span s (length xs) \<longrightarrow> m' a = m a)
    \<and> (xs = [] \<or> hd xs \<in> WHITESPACE \<longrightarrow> m' s = 0)
    \<and> (case r of None \<Rightarrow> MAXARGS - 1 < length argv + length (words_of WHITESPACE xs)
       | Some ps \<Rightarrow> length ps \<le> MAXARGS - 1 \<and> (\<exists>qs. ps = argv @ qs \<and> list_all2 (cstr m') qs (words_of WHITESPACE xs)))"
  using assms
proof (induction "length xs" arbitrary: m s xs argv rule: less_induct)
  case less
  let ?W = WHITESPACE
  let ?k = "length (takeWhile (\<lambda>x. x \<in> ?W) xs)"
  have lx: "?k \<le> length xs" by (rule length_takeWhile_le)
  obtain m1 where g: "gobble ?W m s = Some (m1, s + of_nat ?k)" and c1: "cstr m1 (s + of_nat ?k) (drop ?k xs)"
    and f1: "\<forall>a. a \<notin> span s ?k \<longrightarrow> m1 a = m a" and z1: "\<forall>a\<in>span s ?k. m1 a = 0"
    using gobble_spec [OF less.prems(1) _ refl, of ?W] less.prems(2) by auto
  have ys: "drop ?k xs = dropWhile (\<lambda>x. x \<in> ?W) xs" by (simp add: dropWhile_eq_drop)
  have w: "words_of ?W xs = words_of ?W (drop ?k xs)" unfolding ys by (rule words_of_blanks)
  have u: "unat (s + of_nat ?k) = unat s + ?k" using less.prems(2) lx by (intro unat_plus_nat) simp
  have sub: "span s ?k \<subseteq> span s (length xs)" by (rule span_mono [OF lx])
  show ?case
  proof (cases "drop ?k xs")
    case Nil
    then have r: "parse_args m s argv = Some (m1, Some argv)" using g c1 by (subst parse_args.simps) simp
    have m0: "m1 s = 0"
    proof (cases "?k = 0")
      case True
      then show ?thesis using c1 Nil by simp
    next
      case False
      then have "s \<in> span s ?k" unfolding span_def by (intro image_eqI [of _ _ 0]) simp_all
      then show ?thesis using z1 by blast
    qed
    show ?thesis using r f1 sub m0 w Nil less.prems(3) by (intro exI [of _ m1] exI [of _ "Some argv"]) auto
  next
    case (Cons y ys)
    let ?p = "s + of_nat ?k" and ?w = "y # takeWhile (\<lambda>x. x \<notin> ?W) ys" and ?r = "dropWhile (\<lambda>x. x \<notin> ?W) ys"
    let ?e = "?p + of_nat (length ?w)"
    have y: "y \<notin> ?W" using Cons ys hd_dropWhile [of "\<lambda>x. x \<in> ?W" xs] by (metis list.distinct(1) list.sel(1))
    have len: "?k + length (y # ys) = length xs" using lx unfolding Cons [symmetric] by simp
    have b: "unat ?p + length (y # ys) < 4294967295" using u len less.prems(2) by simp
    note F = first_word [OF c1 [unfolded Cons] y b]
    have wo: "words_of ?W xs = ?w # words_of ?W ?r" using w Cons y by simp
    have ms: "m1 s = 0" if "xs = [] \<or> hd xs \<in> ?W"
    proof -
      have "xs \<noteq> []" using Cons by auto
      then have "0 < ?k" using that by (cases xs) auto
      then have "s \<in> span s ?k" unfolding span_def by (intro image_eqI [of _ _ 0]) simp_all
      then show ?thesis using z1 by blast
    qed
    have p0: "m1 ?p \<noteq> 0" using c1 Cons by simp
    show ?thesis
    proof (cases "length argv = MAXARGS - 1")
      case True
      then have "parse_args m s argv = Some (m1, None)" using g p0 by (subst parse_args.simps) simp
      then show ?thesis using True ms f1 sub wo by (intro exI [of _ m1] exI [of _ None]) auto
    next
      case False
      have eq: "parse_args m s argv = parse_args m1 ?e (argv @ [?p])"
        using g p0 False F(1) by (subst parse_args.simps) simp
      have ue: "unat ?e = unat ?p + length ?w" using b F(4) by (intro unat_plus_nat) simp
      have "length ?r < length xs" using F(4) len by simp
      moreover have "unat ?e + length ?r < 4294967295" using ue b F(4) by simp
      moreover have "length (argv @ [?p]) \<le> MAXARGS - 1" using False less.prems(3) by simp
      ultimately obtain m' r where IH: "parse_args m1 ?e (argv @ [?p]) = Some (m', r)" "\<forall>a. a \<notin> span ?e (length ?r) \<longrightarrow> m' a = m1 a"
        "?r = [] \<or> hd ?r \<in> ?W \<longrightarrow> m' ?e = 0"
        "case r of None \<Rightarrow> MAXARGS - 1 < length (argv @ [?p]) + length (words_of ?W ?r)
         | Some ps \<Rightarrow> length ps \<le> MAXARGS - 1 \<and> (\<exists>qs. ps = (argv @ [?p]) @ qs \<and> list_all2 (cstr m') qs (words_of ?W ?r))"
        using less.hyps [OF _ F(2), of "argv @ [?p]"] by blast
      have cw: "cstr m' ?p ?w" by (rule F(5)) (use IH(2,3) F(3) in auto)
      have out: "m' a = m1 a" if "a \<notin> span s (length xs) \<or> a \<in> span s ?k" for a
      proof -
        have "a \<notin> span ?e (length ?r)"
          using that in_span_iff [of ?e "length ?r" a] in_span_iff [of s "length xs" a] in_span_iff [of s ?k a] ue u F(4) len less.prems(2) by auto
        then show ?thesis using IH(2) by blast
      qed
      have m0: "m' s = 0" if "xs = [] \<or> hd xs \<in> ?W"
      proof -
        have "0 < ?k" using that Cons by (cases xs) auto
        then have "s \<in> span s ?k" unfolding span_def by (intro image_eqI [of _ _ 0]) simp_all
        then show ?thesis using out ms [OF that] by simp
      qed
      have fr: "\<forall>a. a \<notin> span s (length xs) \<longrightarrow> m' a = m a" using out f1 sub by auto
      show ?thesis
        using eq IH(1) fr m0 IH(4) cw
        by (intro exI [of _ m'] exI [of _ r]) (auto simp: wo split: option.splits)
    qed
  qed
qed

section \<open>Commands\<close>

definition bytes_of :: "string \<Rightarrow> u8 list" where
  "bytes_of = map of_char"

text \<open>The command that a name stands for.\<close>

definition command_of :: "(string \<times> string \<times> Command) list \<Rightarrow> u8 list \<Rightarrow> Command option" where
  "command_of cs w = map_of (map (\<lambda>c. (bytes_of (fst c), snd (snd c))) cs) w"

lemma lookup_command_spec:
  assumes "cstr m (hd argv) w" and "\<And>c. c \<in> set cs \<Longrightarrow> cstr m (names (fst c)) (bytes_of (fst c))"
  shows "lookup_command names m argv cs =
    Some (case command_of cs w of None \<Rightarrow> Unknown (hd argv) | Some c \<Rightarrow> Invoke c argv)"
  using assms(2)
proof (induction cs)
  case (Cons c cs)
  obtain r where r: "strcmp m (hd argv) (names (fst c)) = Some r" "r = 0 \<longleftrightarrow> w = bytes_of (fst c)"
    using strcmp_spec [OF assms(1) Cons.prems [of c]] by auto
  show ?case using r Cons by (auto simp: command_of_def)
qed (simp add: command_of_def)

text \<open>The frames of a stack whose frame pointers are \<open>es\<close>, the last of them followed by 0.\<close>

primrec linked_frames :: "(u32 \<Rightarrow> u32) \<Rightarrow> u32 \<Rightarrow> u32 list \<Rightarrow> bool" where
  "linked_frames word e [] \<longleftrightarrow> e = 0"
| "linked_frames word e (x # xs) \<longleftrightarrow> e = x \<and> x \<noteq> 0 \<and> linked_frames word (word x) xs"

lemma backtrace_spec:
  "linked_frames word e es \<Longrightarrow> backtrace word e =
     Some (map (\<lambda>x. \<lparr>fr_ebp = x, fr_eip = word (x + 4), fr_args = map (\<lambda>i. word (x + 8 + of_nat i * 4)) [0..<5]\<rparr>) es)"
proof (induction es arbitrary: e)
  case Nil
  then show ?case by (subst backtrace.simps) simp
next
  case (Cons x xs)
  then have e: "e = x" "x \<noteq> 0" and IH: "linked_frames word (word x) xs" by simp_all
  show ?case unfolding e(1) using e(2) Cons.IH [OF IH] by (subst backtrace.simps) simp
qed

section \<open>Properties\<close>

text \<open>C3. The monitor runs the command that the line names: for every line that fits into memory, \<open>runcmd\<close> splits it at
  the blanks into zero-terminated words, in place and without writing outside of the line, reports more than 15 words, does
  nothing with an empty line, and else invokes the command with the name of the first word on all words, or
  reports it as unknown.\<close>

theorem runcmd_dispatches:
  assumes line: "cstr m buf xs" "unat buf + length xs < 4294967295"
    and names: "\<And>c. c \<in> set commands \<Longrightarrow> cstr m (names (fst c)) (bytes_of (fst c))
      \<and> span (names (fst c)) (Suc (length (fst c))) \<inter> span buf (length xs) = {}"
  defines "ws \<equiv> words_of WHITESPACE xs"
  shows "\<exists>m' a. runcmd names m buf = Some (m', a) \<and> (\<forall>p. p \<notin> span buf (length xs) \<longrightarrow> m' p = m p)
    \<and> (if MAXARGS - 1 < length ws then a = Too_Many else if ws = [] then a = Nothing
       else \<exists>argv. list_all2 (cstr m') argv ws
          \<and> a = (case command_of commands (hd ws) of None \<Rightarrow> Unknown (hd argv) | Some c \<Rightarrow> Invoke c argv))"
proof -
  obtain m' r where p: "parse_args m buf [] = Some (m', r)" "\<forall>a. a \<notin> span buf (length xs) \<longrightarrow> m' a = m a"
    and r0: "case r of None \<Rightarrow> MAXARGS - 1 < length ([] :: u32 list) + length ws
      | Some ps \<Rightarrow> length ps \<le> MAXARGS - 1 \<and> (\<exists>qs. ps = [] @ qs \<and> list_all2 (cstr m') qs ws)"
    using parse_args_spec [OF line, of "[]"] unfolding ws_def by fastforce
  have r: "case r of None \<Rightarrow> MAXARGS - 1 < length ws | Some ps \<Rightarrow> length ps \<le> MAXARGS - 1 \<and> list_all2 (cstr m') ps ws"
    using r0 by (cases r) auto
  show ?thesis
  proof (cases r)
    case None
    then show ?thesis using p r by (intro exI [of _ m'] exI [of _ Too_Many]) (simp add: runcmd_def)
  next
    case (Some ps)
    then have ps: "length ps \<le> MAXARGS - 1" "list_all2 (cstr m') ps ws" using r by simp_all
    have len: "length ps = length ws" using ps(2) by (rule list_all2_lengthD)
    show ?thesis
    proof (cases ps)
      case Nil
      then show ?thesis using p Some len ps(1) by (intro exI [of _ m'] exI [of _ Nothing]) (simp add: runcmd_def)
    next
      case (Cons q qs)
      obtain w vs where w: "ws = w # vs" "cstr m' q w" using ps(2) Cons by (auto simp: list_all2_Cons1)
      have "cstr m' (names (fst c)) (bytes_of (fst c))" if "c \<in> set commands" for c
      proof -
        have "cstr m' (names (fst c)) (bytes_of (fst c)) = cstr m (names (fst c)) (bytes_of (fst c))"
        proof (rule cstr_cong)
          fix a assume "a \<in> span (names (fst c)) (Suc (length (bytes_of (fst c))))"
          then show "m' a = m a" using names [OF that] p(2) by (auto simp: bytes_of_def)
        qed
        then show ?thesis using names [OF that] by simp
      qed
      then have "lookup_command names m' ps commands
        = Some (case command_of commands w of None \<Rightarrow> Unknown (hd ps) | Some c \<Rightarrow> Invoke c ps)"
        using w(2) Cons by (intro lookup_command_spec) simp_all
      then have "runcmd names m buf = Some (m', case command_of commands w of None \<Rightarrow> Unknown (hd ps) | Some c \<Rightarrow> Invoke c ps)"
        using p(1) Some Cons by (simp add: runcmd_def)
      then show ?thesis using p(2) ps len w(1) Cons by auto
    qed
  qed
qed

text \<open>The witness: the line \<open>help me\<close> at \<open>0x1000\<close>, the names of the commands at \<open>0x2000\<close> and following.\<close>

definition sample_names :: "string \<Rightarrow> u32" where
  "sample_names n = (if n = ''help'' then 0x2000 else if n = ''kerninfo'' then 0x2010 else 0x2020)"

definition sample_mem :: mem where
  "sample_mem = mem_put 0x1000 (bytes_of ''help me'') (mem_put 0x2000 (bytes_of ''help'')
     (mem_put 0x2010 (bytes_of ''kerninfo'') (mem_put 0x2020 (bytes_of ''backtrace'') (\<lambda>_. 0))))"

lemma sample_line:
  "cstr sample_mem 0x1000 (bytes_of ''help me'')" "cstr sample_mem 0x2000 (bytes_of ''help'')"
  "cstr sample_mem 0x2010 (bytes_of ''kerninfo'')" "cstr sample_mem 0x2020 (bytes_of ''backtrace'')"
  by (simp_all add: sample_mem_def bytes_of_def)

theorem runcmd_dispatches_witness:
  "\<exists>m' a argv. runcmd sample_names sample_mem 0x1000 = Some (m', a)
    \<and> list_all2 (cstr m') argv [bytes_of ''help'', bytes_of ''me''] \<and> a = Invoke mon_help argv"
proof -
  have w: "words_of WHITESPACE (bytes_of ''help me'') = [bytes_of ''help'', bytes_of ''me'']"
    by (simp add: WHITESPACE_def bytes_of_def)
  have d: "span a n \<inter> span 0x1000 7 = {}" if "0x2000 \<le> a" "a \<le> 0x2020" "n \<le> 10" for a n
    using that by (intro span_disjoint) (simp_all add: word_le_nat_alt)
  have l: "length (bytes_of ''help me'') = 7" by (simp add: bytes_of_def)
  have n: "cstr sample_mem (sample_names (fst c)) (bytes_of (fst c))
      \<and> span (sample_names (fst c)) (Suc (length (fst c))) \<inter> span 0x1000 (length (bytes_of ''help me'')) = {}" if "c \<in> set commands" for c
  proof -
    have "fst c \<in> {''help'', ''kerninfo'', ''backtrace''}" using that by (auto simp: commands_def)
    moreover from this have "span (sample_names (fst c)) (Suc (length (fst c))) \<inter> span 0x1000 7 = {}"
      by (intro d) (auto simp: sample_names_def)
    ultimately show ?thesis unfolding l using sample_line(2-4) by (auto simp: sample_names_def)
  qed
  have h: "command_of commands (bytes_of ''help'') = Some mon_help" by (simp add: command_of_def commands_def bytes_of_def)
  have b: "unat (0x1000 :: u32) + length (bytes_of ''help me'') < 4294967295" unfolding l by simp
  show ?thesis
    using runcmd_dispatches [of sample_mem "0x1000" "bytes_of ''help me''" sample_names, OF sample_line(1) b n]
    unfolding w by (auto simp: MAXARGS_def h)
qed

end
