(* ===== verification/Shell.thy ===== *)
theory Shell
  imports Cmd_Line
begin

text \<open>
  The shell (\<open>user/sh.c\<close>): its tokens and the interpretation of a command line. The system and library calls of the
  interpreter (\<open>open\<close>, \<open>dup\<close>, \<open>close\<close>, \<open>pipe\<close>, \<open>fork\<close>, \<open>spawn\<close>, \<open>wait\<close>) are logged, their results
  are the parameter \<open>answer\<close>, and \<open>debug\<close> is 0.
\<close>

section \<open>Tokens\<close>

definition sh_blanks :: "u8 set" where "sh_blanks = {32, 9, 13, 10}"
definition SYMBOLS :: "u8 set" where "SYMBOLS = {60, 124, 62, 38, 59, 40, 41}"

text \<open>The static variables of \<open>gettoken\<close> and the memory that holds the line.\<close>

record Tok =
  tok_mem :: mem
  tok_nc :: u8
  tok_np1 :: u32
  tok_np2 :: u32

text \<open>\<open>_gettoken\<close>.\<close>

definition gettoken1 :: "u32 \<Rightarrow> Tok \<Rightarrow> (u8 \<times> Tok) option" where
  "gettoken1 s t =
     (if s = 0 then Some (0, t)
      else do { (m, s) \<leftarrow> gobble sh_blanks (tok_mem t) s;
                if m s = 0 then Some (0, t\<lparr>tok_mem := m, tok_np1 := 0, tok_np2 := 0\<rparr>)
                else if m s \<in> SYMBOLS then Some (m s, t\<lparr>tok_mem := m(s := 0), tok_np1 := s, tok_np2 := s + 1\<rparr>)
                else do { e \<leftarrow> word_end (sh_blanks \<union> SYMBOLS) m s;
                          Some (119, t\<lparr>tok_mem := m, tok_np1 := s, tok_np2 := e\<rparr>) } })"

definition gettoken :: "u32 \<Rightarrow> Tok \<Rightarrow> (u8 \<times> u32 \<times> Tok) option" where
  "gettoken s t =
     (if s \<noteq> 0 then do { (nc, t) \<leftarrow> gettoken1 s t; Some (0, 0, t\<lparr>tok_nc := nc\<rparr>) }
      else do { let c = tok_nc t;
                let p1 = tok_np1 t;
                (nc, t) \<leftarrow> gettoken1 (tok_np2 t) t;
                Some (c, p1, t\<lparr>tok_nc := nc\<rparr>) })"

section \<open>Commands\<close>

text \<open>The calls of the interpreter; a string is an address in the code and a list of bytes in its specification.\<close>

datatype 'a Sh_Call = Open 'a u32 | Dup u32 u32 | Close u32 | Pipe | Fork | Spawn 'a "'a list" | Close_All | Wait u32
  | Message string | Exit

text \<open>How the interpreter ends: it returns, leaves the program, panics, or writes behind one of its arrays.\<close>

datatype Sh_End = Returned | Exited | Panicked | Overrun

record Sh =
  sh_tok :: Tok
  sh_argv :: "u32 list"
  sh_calls :: "u32 Sh_Call list"
  sh_child :: u32

definition SH_MAXARGS :: nat where "SH_MAXARGS = 16"
definition BUFSIZ :: nat where "BUFSIZ = 1024"

definition O_RDONLY :: u32 where "O_RDONLY = 0"
definition O_WRONLY :: u32 where "O_WRONLY = 1"
definition sh_O_CREAT :: u32 where "sh_O_CREAT = 0x100"
definition sh_O_TRUNC :: u32 where "sh_O_TRUNC = 0x200"

definition log_call :: "u32 Sh_Call \<Rightarrow> Sh \<Rightarrow> Sh" where
  "log_call c s = s\<lparr>sh_calls := sh_calls s @ [c]\<rparr>"

definition sh_exit :: "Sh \<Rightarrow> (Sh_End \<times> Sh) option" where
  "sh_exit s = Some (Exited, log_call Exit s)"

text \<open>\<open>answer n\<close> holds the results of the \<open>n\<close>-th call of the log: the value returned, and for \<open>pipe\<close> the two
  descriptors.\<close>

type_synonym answers = "nat \<Rightarrow> u32 \<times> u32 \<times> u32"

definition ask :: "answers \<Rightarrow> u32 Sh_Call \<Rightarrow> Sh \<Rightarrow> (u32 \<times> u32 \<times> u32) \<times> Sh" where
  "ask answer c s = (answer (length (sh_calls s)), log_call c s)"

text \<open>\<open>if (fd != n) { dup(fd, n); close(fd); }\<close>\<close>

definition move_fd :: "u32 \<Rightarrow> u32 \<Rightarrow> Sh \<Rightarrow> Sh" where
  "move_fd fd n s = (if fd \<noteq> n then log_call (Close fd) (log_call (Dup fd n) s) else s)"

text \<open>The name of the program gets a slash; \<open>argv0buf\<close> is the address of the array. The first result says whether the
  name is too long for it.\<close>

definition name_argv0 :: "u32 \<Rightarrow> Sh \<Rightarrow> (bool \<times> Sh) option" where
  "name_argv0 argv0buf s =
     (let a0 = hd (sh_argv s); m = tok_mem (sh_tok s) in
      if m a0 \<noteq> 47
      then do { len \<leftarrow> strlen m a0;
                (m1, _) \<leftarrow> strcpy (m(argv0buf := 47)) (argv0buf + 1) a0;
                Some (BUFSIZ < unat len + 2, s\<lparr>sh_tok := (sh_tok s)\<lparr>tok_mem := m1\<rparr>, sh_argv := argv0buf # tl (sh_argv s)\<rparr>) }
      else Some (False, s))"

definition spawn_and_wait :: "answers \<Rightarrow> Sh \<Rightarrow> (Sh_End \<times> Sh) option" where
  "spawn_and_wait answer s =
     (let ((r, _, _), s) = ask answer (Spawn (hd (sh_argv s)) (sh_argv s)) s;
          s = (if sint r < 0 then log_call (Message ''spawn'') s else s);
          s = log_call Close_All s;
          s = (if 0 \<le> sint r then log_call (Wait r) s else s);
          s = (if sh_child s \<noteq> 0 then log_call (Wait (sh_child s)) s else s)
      in sh_exit s)"

text \<open>From the label \<open>runit\<close> on. The store \<open>argv[argc] = 0\<close> is outside of the array when all of it is used.\<close>

definition runit :: "answers \<Rightarrow> u32 \<Rightarrow> Sh \<Rightarrow> (Sh_End \<times> Sh) option" where
  "runit answer argv0buf s =
     (if sh_argv s = [] then Some (Returned, s)
      else do { (over, s) \<leftarrow> name_argv0 argv0buf s;
                if over \<or> SH_MAXARGS \<le> length (sh_argv s) then Some (Overrun, s)
                else spawn_and_wait answer s })"

partial_function (option) sh_loop :: "answers \<Rightarrow> u32 \<Rightarrow> Sh \<Rightarrow> (Sh_End \<times> Sh) option" where
  "sh_loop answer argv0buf s =
     do { (c, t, k) \<leftarrow> gettoken 0 (sh_tok s);
          let s = s\<lparr>sh_tok := k\<rparr>;
          if c = 119 then
            (if length (sh_argv s) = SH_MAXARGS then sh_exit (log_call (Message ''too many arguments'') s)
             else sh_loop answer argv0buf (s\<lparr>sh_argv := sh_argv s @ [t]\<rparr>))
          else if c = 60 then
            do { (c, t, k) \<leftarrow> gettoken 0 (sh_tok s);
                 let s = s\<lparr>sh_tok := k\<rparr>;
                 if c \<noteq> 119 then sh_exit (log_call (Message ''syntax error: < not followed by word'') s)
                 else let ((fd, _, _), s) = ask answer (Open t O_RDONLY) s
                      in if sint fd < 0 then sh_exit (log_call (Message ''open for read'') s)
                         else sh_loop answer argv0buf (move_fd fd 0 s) }
          else if c = 62 then
            do { (c, t, k) \<leftarrow> gettoken 0 (sh_tok s);
                 let s = s\<lparr>sh_tok := k\<rparr>;
                 if c \<noteq> 119 then sh_exit (log_call (Message ''syntax error: > not followed by word'') s)
                 else let ((fd, _, _), s) = ask answer (Open t (O_WRONLY OR sh_O_CREAT OR sh_O_TRUNC)) s
                      in if sint fd < 0 then sh_exit (log_call (Message ''open for write'') s)
                         else sh_loop answer argv0buf (move_fd fd 1 s) }
          else if c = 124 then
            (let ((r, p0, p1), s) = ask answer Pipe s
             in if sint r < 0 then sh_exit (log_call (Message ''pipe'') s)
                else let ((r, _, _), s) = ask answer Fork s
                     in if sint r < 0 then sh_exit (log_call (Message ''fork'') s)
                        else if r = 0
                        then sh_loop answer argv0buf ((log_call (Close p1) (move_fd p0 0 s))\<lparr>sh_argv := []\<rparr>)
                        else runit answer argv0buf (log_call (Close p0) (move_fd p1 1 (s\<lparr>sh_child := r\<rparr>))))
          else if c = 0 then runit answer argv0buf s
          else Some (Panicked, s) }"

definition sh_runcmd :: "answers \<Rightarrow> u32 \<Rightarrow> Tok \<Rightarrow> u32 \<Rightarrow> (Sh_End \<times> Sh) option" where
  "sh_runcmd answer argv0buf t line =
     do { (_, _, t) \<leftarrow> gettoken line t;
          sh_loop answer argv0buf \<lparr>sh_tok = t, sh_argv = [], sh_calls = [], sh_child = 0\<rparr> }"

section \<open>What the tokens are\<close>

datatype token = Sym u8 | Word "u8 list"

abbreviation ordinary :: "u8 \<Rightarrow> bool" where
  "ordinary x \<equiv> x \<notin> sh_blanks \<union> SYMBOLS"

function lex :: "u8 list \<Rightarrow> token list" where
  "lex [] = []"
| "lex (x # xs) =
     (if x \<in> sh_blanks then lex xs
      else if x \<in> SYMBOLS then Sym x # lex xs
      else Word (x # takeWhile ordinary xs) # lex (dropWhile ordinary xs))"
  by pat_completeness auto
termination
  by (relation "measure length") (auto intro: le_imp_less_Suc length_dropWhile_le)

lemma lex_blanks: "lex xs = lex (dropWhile (\<lambda>x. x \<in> sh_blanks) xs)"
  by (induction xs) auto

lemma sh_bytes: "0 \<notin> sh_blanks" "0 \<notin> SYMBOLS" "119 \<notin> SYMBOLS" "sh_blanks \<inter> SYMBOLS = {}"
  by (auto simp: sh_blanks_def SYMBOLS_def)

text \<open>The look-ahead of \<open>gettoken\<close>: the tokens \<open>ts\<close> are still to come, and behind the first of them is the text \<open>rest\<close>.\<close>

definition text_at :: "mem \<Rightarrow> u32 \<Rightarrow> u8 list \<Rightarrow> bool" where
  "text_at m p xs \<longleftrightarrow> p \<noteq> 0 \<and> cstr m p xs \<and> unat p + length xs < 4294967295"

fun ahead :: "Tok \<Rightarrow> token list \<Rightarrow> u8 list \<Rightarrow> bool" where
  "ahead t [] rest \<longleftrightarrow> tok_nc t = 0 \<and> tok_np2 t = 0 \<and> rest = []"
| "ahead t (Sym b # ts) rest \<longleftrightarrow> tok_nc t = b \<and> b \<in> SYMBOLS \<and> text_at (tok_mem t) (tok_np2 t) rest \<and> lex rest = ts"
| "ahead t (Word w # ts) rest \<longleftrightarrow> tok_nc t = 119 \<and> text_at (tok_mem t) (tok_np1 t) (w @ rest)
     \<and> tok_np2 t = tok_np1 t + of_nat (length w) \<and> lex rest = ts \<and> (rest = [] \<or> \<not> ordinary (hd rest))"

text \<open>The bytes from \<open>p\<close> to the end of the line are all that a step may change, and it leaves a zero at \<open>p\<close> unless an
  ordinary character is there.\<close>

definition line_step :: "mem \<Rightarrow> u32 \<Rightarrow> u8 list \<Rightarrow> mem \<Rightarrow> bool" where
  "line_step m p xs m' \<longleftrightarrow> (\<forall>a. a \<notin> span p (length xs) \<longrightarrow> m' a = m a) \<and> (xs = [] \<or> \<not> ordinary (hd xs) \<longrightarrow> m' p = 0)"

lemma gettoken1_spec:
  assumes tx: "text_at (tok_mem t) p xs"
  shows "\<exists>nc t' rest. gettoken1 p t = Some (nc, t') \<and> ahead (t'\<lparr>tok_nc := nc\<rparr>) (lex xs) rest
    \<and> line_step (tok_mem t) p xs (tok_mem t')
    \<and> (lex xs \<noteq> [] \<longrightarrow> unat p \<le> unat (tok_np1 t') \<and> unat p < unat (tok_np2 t') \<and> unat (tok_np2 t') + length rest = unat p + length xs)"
proof -
  let ?B = sh_blanks and ?k = "length (takeWhile (\<lambda>x. x \<in> sh_blanks) xs)"
  have p: "p \<noteq> 0" "cstr (tok_mem t) p xs" "unat p + length xs < 4294967295" using tx by (simp_all add: text_at_def)
  have lx: "?k \<le> length xs" by (rule length_takeWhile_le)
  obtain m1 where g: "gobble ?B (tok_mem t) p = Some (m1, p + of_nat ?k)" and c1: "cstr m1 (p + of_nat ?k) (drop ?k xs)"
    and f1: "\<forall>a. a \<notin> span p ?k \<longrightarrow> m1 a = tok_mem t a" and z1: "\<forall>a\<in>span p ?k. m1 a = 0"
    using gobble_spec [OF p(2) _ refl, of ?B] p(3) by auto
  let ?q = "p + of_nat ?k"
  have u: "unat ?q = unat p + ?k" using p(3) lx by (intro unat_plus_nat) simp
  have ys: "drop ?k xs = dropWhile (\<lambda>x. x \<in> ?B) xs" by (simp add: dropWhile_eq_drop)
  have lex: "lex xs = lex (drop ?k xs)" unfolding ys by (rule lex_blanks)
  have sub: "span p ?k \<subseteq> span p (length xs)" by (rule span_mono [OF lx])
  have k0: "m1 p = 0" if "0 < ?k"
  proof -
    have "p \<in> span p ?k" using that unfolding span_def by (intro image_eqI [of _ _ 0]) simp_all
    then show ?thesis using z1 by blast
  qed
  show ?thesis
  proof (cases "drop ?k xs")
    case Nil
    then have "gettoken1 p t = Some (0, t\<lparr>tok_mem := m1, tok_np1 := 0, tok_np2 := 0\<rparr>)" using g c1 p(1) by (simp add: gettoken1_def)
    moreover have "m1 p = 0" using k0 c1 Nil by (cases "?k = 0") auto
    ultimately show ?thesis using lex Nil f1 sub by (auto simp: line_step_def)
  next
    case (Cons y zs)
    have len: "?k + length (y # zs) = length xs" using lx unfolding Cons [symmetric] by simp
    have y: "y \<notin> ?B" using Cons ys hd_dropWhile [of "\<lambda>x. x \<in> ?B" xs] by (metis list.distinct(1) list.sel(1))
    have m: "m1 ?q = y" "y \<noteq> 0" using c1 Cons by simp_all
    have hd: "0 < ?k \<or> ?k = 0 \<and> hd xs = y \<and> xs = y # zs" using Cons by (cases "?k = 0") auto
    show ?thesis
    proof (cases "y \<in> SYMBOLS")
      case True
      let ?t = "t\<lparr>tok_mem := m1(?q := 0), tok_np1 := ?q, tok_np2 := ?q + 1\<rparr>"
      have q1: "unat (?q + 1) = unat ?q + 1" using u len p(3) by (simp add: unat_word_ariths)
      have "?q \<notin> span (?q + 1) (Suc (length zs))"
      proof -
        have "unat ?q + Suc (length zs) < 4294967296" using u len p(3) by simp
        then show ?thesis by (rule span_step)
      qed
      then have c: "cstr (m1(?q := 0)) (?q + 1) zs" using c1 Cons cstr_upd by simp
      have "text_at (m1(?q := 0)) (?q + 1) zs" using c q1 u len p(3) by (auto simp: text_at_def)
      then have "ahead (?t\<lparr>tok_nc := y\<rparr>) (lex xs) zs" using lex Cons y True by simp
      note ah = this
      have gt: "gettoken1 p t = Some (y, ?t)" using g m True p(1) by (simp add: gettoken1_def)
      have "?q \<in> span p (length xs)" using in_span_iff [of p "length xs" ?q] u len p(3) by simp
      then have "\<forall>a. a \<notin> span p (length xs) \<longrightarrow> tok_mem ?t a = tok_mem t a" using f1 sub by auto
      moreover have "tok_mem ?t p = 0" by (cases "?k = 0") (use k0 in auto)
      ultimately have "line_step (tok_mem t) p xs (tok_mem ?t)" unfolding line_step_def by blast
      then show ?thesis using ah gt q1 u len by (intro exI [of _ y] exI [of _ ?t] exI [of _ zs]) simp
    next
      case False
      let ?w = "y # takeWhile ordinary zs" and ?r = "dropWhile ordinary zs"
      have yo: "y \<notin> ?B \<union> SYMBOLS" using y False by simp
      have b: "unat ?q + length (y # zs) < 4294967295" using u len p(3) by simp
      note F = first_word [OF c1 [unfolded Cons] yo b]
      let ?t = "t\<lparr>tok_mem := m1, tok_np1 := ?q, tok_np2 := ?q + of_nat (length ?w)\<rparr>"
      have ue: "unat (?q + of_nat (length ?w)) = unat ?q + length ?w" using b F(4) by (intro unat_plus_nat) simp
      have wr: "?w @ ?r = y # zs" by simp
      have q0: "?q \<noteq> 0"
      proof
        assume "?q = 0"
        then have "unat ?q = 0" by simp
        then show False using u p(1) by (simp add: unat_eq_zero)
      qed
      have "text_at m1 ?q (?w @ ?r)" unfolding wr using c1 Cons b q0 by (simp add: text_at_def)
      then have "ahead (?t\<lparr>tok_nc := 119\<rparr>) (lex xs) ?r" using lex Cons y False F(3) by auto
      moreover have "gettoken1 p t = Some (119, ?t)" using g m False p(1) F(1) by (simp add: gettoken1_def)
      moreover have "line_step (tok_mem t) p xs (tok_mem ?t)" using f1 sub k0 hd yo by (auto simp: line_step_def)
      ultimately show ?thesis using ue u len F(4) by (intro exI [of _ 119] exI [of _ ?t] exI [of _ ?r]) simp
    qed
  qed
qed

fun token_is :: "mem \<Rightarrow> token \<Rightarrow> u8 \<Rightarrow> u32 \<Rightarrow> bool" where
  "token_is m (Sym b) c p \<longleftrightarrow> c = b"
| "token_is m (Word w) c p \<longleftrightarrow> c = 119 \<and> cstr m p w"

text \<open>The bytes of the line that are still ahead.\<close>

definition ahead_span :: "Tok \<Rightarrow> u8 list \<Rightarrow> u32 set" where
  "ahead_span t rest = span (tok_np2 t) (length rest)"

lemma gettoken_start:
  assumes "text_at (tok_mem t) s xs"
  shows "\<exists>t' rest. gettoken s t = Some (0, 0, t') \<and> ahead t' (lex xs) rest \<and> line_step (tok_mem t) s xs (tok_mem t')
    \<and> (lex xs \<noteq> [] \<longrightarrow> unat s \<le> unat (tok_np1 t') \<and> unat s < unat (tok_np2 t') \<and> unat (tok_np2 t') + length rest = unat s + length xs)"
proof -
  obtain nc t' rest where "gettoken1 s t = Some (nc, t')" "ahead (t'\<lparr>tok_nc := nc\<rparr>) (lex xs) rest" "line_step (tok_mem t) s xs (tok_mem t')"
    "lex xs \<noteq> [] \<longrightarrow> unat s \<le> unat (tok_np1 t') \<and> unat s < unat (tok_np2 t') \<and> unat (tok_np2 t') + length rest = unat s + length xs"
    using gettoken1_spec [OF assms] by blast
  moreover have "s \<noteq> 0" using assms by (simp add: text_at_def)
  ultimately show ?thesis by (intro exI [of _ "t'\<lparr>tok_nc := nc\<rparr>"] exI [of _ rest]) (simp add: gettoken_def)
qed

lemma gettoken_end: "ahead t [] rest \<Longrightarrow> \<exists>p. gettoken 0 t = Some (0, p, t\<lparr>tok_nc := 0\<rparr>)"
  by (simp add: gettoken_def gettoken1_def)

lemma gettoken_next:
  assumes a: "ahead t (k # ts) rest"
  shows "\<exists>c p t' rest'. gettoken 0 t = Some (c, p, t') \<and> c \<noteq> 0 \<and> ahead t' ts rest' \<and> token_is (tok_mem t') k c p
    \<and> p = tok_np1 t \<and> (\<forall>a. a \<notin> ahead_span t rest \<longrightarrow> tok_mem t' a = tok_mem t a)
    \<and> unat (tok_np2 t) + length rest < 4294967295
    \<and> (ts \<noteq> [] \<longrightarrow> unat (tok_np2 t) \<le> unat (tok_np1 t') \<and> unat (tok_np2 t) < unat (tok_np2 t') \<and> unat (tok_np2 t') + length rest' = unat (tok_np2 t) + length rest)"
proof -
  have tx: "text_at (tok_mem t) (tok_np2 t) rest \<and> lex rest = ts"
  proof (cases k)
    case (Sym b)
    then show ?thesis using a by simp
  next
    case (Word w)
    then have w: "text_at (tok_mem t) (tok_np1 t) (w @ rest)" "tok_np2 t = tok_np1 t + of_nat (length w)" "lex rest = ts" using a by simp_all
    have u: "unat (tok_np2 t) = unat (tok_np1 t) + length w"
      unfolding w(2) using w(1) by (intro unat_plus_nat) (simp add: text_at_def)
    have "0 < unat (tok_np1 t)" using w(1) by (simp add: text_at_def unat_gt_0)
    then have "tok_np2 t \<noteq> 0" using u by (metis add_is_0 less_nat_zero_code unat_0)
    then show ?thesis using w u by (auto simp: text_at_def cstr_append)
  qed
  then obtain nc t' rest' where g: "gettoken1 (tok_np2 t) t = Some (nc, t')" "ahead (t'\<lparr>tok_nc := nc\<rparr>) ts rest'"
    "line_step (tok_mem t) (tok_np2 t) rest (tok_mem t')"
    "ts \<noteq> [] \<longrightarrow> unat (tok_np2 t) \<le> unat (tok_np1 t') \<and> unat (tok_np2 t) < unat (tok_np2 t') \<and> unat (tok_np2 t') + length rest' = unat (tok_np2 t) + length rest"
    using gettoken1_spec [of t "tok_np2 t" rest] by blast
  have b: "unat (tok_np2 t) + length rest < 4294967295" using tx by (simp add: text_at_def)
  have tk: "token_is (tok_mem t') k (tok_nc t) (tok_np1 t)"
  proof (cases k)
    case (Sym b)
    then show ?thesis using a by simp
  next
    case (Word w)
    then have w: "tok_nc t = 119" "text_at (tok_mem t) (tok_np1 t) (w @ rest)" "tok_np2 t = tok_np1 t + of_nat (length w)"
      "rest = [] \<or> \<not> ordinary (hd rest)" using a by simp_all
    have l: "unat (tok_np1 t) + length w + length rest < 4294967295" using w(2) by (simp add: text_at_def)
    have "cstr (tok_mem t') (tok_np1 t) w"
    proof (rule word_bytes [of "tok_mem t" _ w rest])
      show "cstr (tok_mem t) (tok_np1 t) (w @ rest)" using w(2) by (simp add: text_at_def)
      show "tok_mem t' (tok_np1 t + of_nat (length w)) = 0"
        using g(3) w(4) unfolding line_step_def w(3) by blast
      fix i assume i: "i < length w"
      have "unat (tok_np1 t + of_nat i) = unat (tok_np1 t) + i" "unat (tok_np2 t) = unat (tok_np1 t) + length w"
        unfolding w(3) using l i by (intro unat_plus_nat; simp)+
      then have "tok_np1 t + of_nat i \<notin> span (tok_np2 t) (length rest)" using in_span_iff [of "tok_np2 t" "length rest"] l i by simp
      then show "tok_mem t' (tok_np1 t + of_nat i) = tok_mem t (tok_np1 t + of_nat i)" using g(3) by (simp add: line_step_def)
    qed
    then show ?thesis using Word w(1) by simp
  qed
  have "tok_nc t \<noteq> 0" using a sh_bytes(2) by (cases k) auto
  moreover have "gettoken 0 t = Some (tok_nc t, tok_np1 t, t'\<lparr>tok_nc := nc\<rparr>)" using g(1) by (simp add: gettoken_def)
  ultimately show ?thesis using g(2-4) b tk
    by (intro exI [of _ "tok_nc t"] exI [of _ "tok_np1 t"] exI [of _ "t'\<lparr>tok_nc := nc\<rparr>"] exI [of _ rest']) (simp add: line_step_def ahead_span_def)
qed

text \<open>A word that is followed by a zero below the rest of the line survives what happens to the rest.\<close>

lemma word_survives:
  assumes c: "cstr m p w" and b: "unat p + length w < unat q" "unat q + n < 4294967295" and f: "\<forall>a. a \<notin> span q n \<longrightarrow> m' a = m a"
  shows "cstr m' p w"
proof -
  have "m' a = m a" if "a \<in> span p (Suc (length w))" for a
  proof -
    have "a \<notin> span q n" using that in_span_iff [of p "Suc (length w)" a] in_span_iff [of q n a] b by auto
    then show ?thesis using f by blast
  qed
  then have "cstr m' p w = cstr m p w" by (rule cstr_cong)
  then show ?thesis using c by simp
qed

lemma ahead_word_end:
  assumes "ahead t (Word w # ts) rest"
  shows "unat (tok_np1 t) + length w = unat (tok_np2 t)"
proof -
  have w: "text_at (tok_mem t) (tok_np1 t) (w @ rest)" "tok_np2 t = tok_np1 t + of_nat (length w)" using assms by simp_all
  show ?thesis unfolding w(2) using w(1) unat_plus_nat [of "tok_np1 t" "length w"] by (simp add: text_at_def)
qed

section \<open>The meaning of a line\<close>

text \<open>The name of the program, with the slash that \<open>runcmd\<close> puts in front of it.\<close>

definition path_of :: "u8 list \<Rightarrow> u8 list" where
  "path_of w = (if hd w = 47 then w else 47 # w)"

lemma lex_words_nonempty: "Word w \<in> set (lex xs) \<Longrightarrow> w \<noteq> []"
  by (induction xs rule: lex.induct) (auto split: if_splits)

text \<open>The name is put into \<open>argv0buf\<close> unless it starts with a slash.\<close>

lemma name_argv0_spec:
  fixes s :: Sh
  assumes argv: "sh_argv s = p # ps" and cw: "cstr (tok_mem (sh_tok s)) p w" and w: "w \<noteq> []" "length w + 2 \<le> BUFSIZ"
    and buf: "unat b + BUFSIZ < 4294967295" and far: "lo \<le> unat p" "unat p + length w \<le> hi"
    and apart: "hi < unat b \<or> unat b + BUFSIZ \<le> lo" "hi < 4294967295"
  shows "\<exists>m1 p1. name_argv0 b s = Some (False, s\<lparr>sh_tok := (sh_tok s)\<lparr>tok_mem := m1\<rparr>, sh_argv := p1 # ps\<rparr>)
    \<and> cstr m1 p1 (path_of w) \<and> (\<forall>a. a \<notin> span b BUFSIZ \<longrightarrow> m1 a = tok_mem (sh_tok s) a)"
proof -
  let ?m = "tok_mem (sh_tok s)"
  have first: "?m p = hd w" using cw w(1) by (cases w) auto
  show ?thesis
  proof (cases "?m p = 47")
    case True
    then have "name_argv0 b s = Some (False, s\<lparr>sh_tok := (sh_tok s)\<lparr>tok_mem := ?m\<rparr>, sh_argv := p # ps\<rparr>)"
      using argv by (simp add: name_argv0_def)
    then show ?thesis using True first cw by (intro exI [of _ ?m] exI [of _ p]) (simp add: path_of_def)
  next
    case False
    have l: "length w < 4294967296" using w(2) by (simp add: BUFSIZ_def)
    have sl: "strlen ?m p = Some (of_nat (length w))" using strlen_loop_spec [OF cw, of 0] by (simp add: strlen_def)
    have ub: "unat (b + 1) = unat b + 1" using buf by (simp add: unat_word_ariths)
    have bo: "b \<notin> span p (Suc (length w))"
      using in_span_iff [of p "Suc (length w)" b] far apart by (auto simp: BUFSIZ_def)
    then have cb: "cstr (?m(b := 47)) p w" using cw cstr_upd by simp
    have dj: "span (b + 1) (Suc (length w)) \<inter> span p (Suc (length w)) = {}"
      using in_span_iff [of p "Suc (length w)"] in_span_iff [of "b + 1" "Suc (length w)"] far apart ub w(2) buf by (auto simp: BUFSIZ_def)
    let ?m1 = "mem_put (b + 1) (w @ [0]) (?m(b := 47))"
    have sc: "strcpy (?m(b := 47)) (b + 1) p = Some (?m1, b + 1)"
      using strcpy_loop_spec [OF cb dj] by (simp add: strcpy_def)
    have e: "?m1 = mem_put b ((47 # w) @ [0]) ?m" by simp
    have "cstr ?m1 b (47 # w)" unfolding e
      by (rule cstr_mem_put) (use cstr_nonzero [OF cw] buf w(2) in \<open>auto simp: BUFSIZ_def\<close>)
    then have pth: "cstr ?m1 b (path_of w)" using False first by (simp add: path_of_def)
    have fr: "\<forall>a. a \<notin> span b BUFSIZ \<longrightarrow> ?m1 a = ?m a"
    proof (intro allI impI)
      fix a assume "a \<notin> span b BUFSIZ"
      then have "a \<notin> span b (length ((47 # w) @ [0]))" using span_mono [of "length ((47 # w) @ [0])" BUFSIZ b] w(2) by auto
      then show "?m1 a = ?m a" unfolding e by (rule mem_put_outside)
    qed
    have "\<not> BUFSIZ < unat (of_nat (length w) :: u32) + 2" using l w(2) by (simp add: unat_of_nat take_bit_nat_eq_self)
    then have "name_argv0 b s = Some (False, s\<lparr>sh_tok := (sh_tok s)\<lparr>tok_mem := ?m1\<rparr>, sh_argv := b # ps\<rparr>)"
      using False sl sc argv by (simp add: name_argv0_def)
    then show ?thesis using pth fr by blast
  qed
qed


text \<open>What \<open>runit\<close> does with the words of a command, and what a list of tokens means.\<close>

definition run_words :: "answers \<Rightarrow> u8 list Sh_Call list \<Rightarrow> u8 list list \<Rightarrow> u32 \<Rightarrow> Sh_End \<times> u8 list Sh_Call list" where
  "run_words answer calls args child =
     (if args = [] then (Returned, calls)
      else if SH_MAXARGS \<le> length args then (Overrun, calls)
      else let name = path_of (hd args); r = fst (answer (length calls))
           in (Exited, calls @ [Spawn name (name # tl args)] @ (if sint r < 0 then [Message ''spawn''] else []) @ [Close_All]
                 @ (if 0 \<le> sint r then [Wait r] else []) @ (if child \<noteq> 0 then [Wait child] else []) @ [Exit]))"

definition onto :: "u32 \<Rightarrow> u32 \<Rightarrow> u8 list Sh_Call list" where
  "onto fd n = (if fd \<noteq> n then [Dup fd n, Close fd] else [])"

fun meaning :: "answers \<Rightarrow> u8 list Sh_Call list \<Rightarrow> u8 list list \<Rightarrow> token list \<Rightarrow> Sh_End \<times> u8 list Sh_Call list" where
  "meaning answer calls args [] = run_words answer calls args 0"
| "meaning answer calls args (Word w # ts) =
     (if length args = SH_MAXARGS then (Exited, calls @ [Message ''too many arguments'', Exit])
      else meaning answer calls (args @ [w]) ts)"
| "meaning answer calls args (Sym c # ts) =
     (let (r, p0, p1) = answer (length calls) in
      if c = 60 then
        (case ts of Word w # us \<Rightarrow>
           if sint r < 0 then (Exited, calls @ [Open w O_RDONLY, Message ''open for read'', Exit])
           else meaning answer (calls @ [Open w O_RDONLY] @ onto r 0) args us
         | _ \<Rightarrow> (Exited, calls @ [Message ''syntax error: < not followed by word'', Exit]))
      else if c = 62 then
        (case ts of Word w # us \<Rightarrow>
           if sint r < 0 then (Exited, calls @ [Open w (O_WRONLY OR sh_O_CREAT OR sh_O_TRUNC), Message ''open for write'', Exit])
           else meaning answer (calls @ [Open w (O_WRONLY OR sh_O_CREAT OR sh_O_TRUNC)] @ onto r 1) args us
         | _ \<Rightarrow> (Exited, calls @ [Message ''syntax error: > not followed by word'', Exit]))
      else if c = 124 then
        (let child = fst (answer (Suc (length calls))) in
         if sint r < 0 then (Exited, calls @ [Pipe, Message ''pipe'', Exit])
         else if sint child < 0 then (Exited, calls @ [Pipe, Fork, Message ''fork'', Exit])
         else if child = 0 then meaning answer (calls @ [Pipe, Fork] @ onto p0 0 @ [Close p1]) [] ts
         else run_words answer (calls @ [Pipe, Fork] @ onto p1 1 @ [Close p0]) args child)
      else (Panicked, calls))"

text \<open>A string that the interpreter has got hold of: it lies in the line, in front of what the tokens ahead change.\<close>

definition kept :: "nat \<Rightarrow> nat \<Rightarrow> Tok \<Rightarrow> u32 \<Rightarrow> u8 list \<Rightarrow> bool" where
  "kept lo hi t p w \<longleftrightarrow> cstr (tok_mem t) p w \<and> w \<noteq> [] \<and> lo \<le> unat p \<and> unat p + length w \<le> hi
     \<and> (tok_np2 t \<noteq> 0 \<longrightarrow> unat p + length w < unat (tok_np2 t))"

definition sim :: "nat \<Rightarrow> nat \<Rightarrow> Sh \<Rightarrow> u8 list Sh_Call list \<Rightarrow> u8 list list \<Rightarrow> token list \<Rightarrow> u8 list \<Rightarrow> bool" where
  "sim lo hi s calls args ts rest \<longleftrightarrow> ahead (sh_tok s) ts rest \<and> sh_child s = 0
     \<and> list_all2 (rel_Sh_Call (kept lo hi (sh_tok s))) (sh_calls s) calls \<and> list_all2 (kept lo hi (sh_tok s)) (sh_argv s) args
     \<and> (\<forall>w. Word w \<in> set ts \<longrightarrow> w \<noteq> [])
     \<and> (ts \<noteq> [] \<longrightarrow> lo \<le> unat (tok_np1 (sh_tok s)) \<and> lo \<le> unat (tok_np2 (sh_tok s))
            \<and> unat (tok_np2 (sh_tok s)) + length rest = hi)"

lemma ahead_np2: "ahead t (k # ts) rest \<Longrightarrow> tok_np2 t \<noteq> 0"
proof (cases k)
  case (Word w)
  assume a: "ahead t (k # ts) rest"
  have "0 < unat (tok_np1 t)" using a Word by (simp add: text_at_def unat_gt_0)
  then have "0 < unat (tok_np2 t)" using ahead_word_end a [unfolded Word] by fastforce
  then show ?thesis by (simp add: unat_gt_0)
qed (simp add: text_at_def)

text \<open>A call of \<open>gettoken\<close> keeps the strings and may give another one.\<close>

lemma sim_next:
  assumes "sim lo hi s calls args (k # ts) rest"
  shows "\<exists>c p t' rest'. gettoken 0 (sh_tok s) = Some (c, p, t') \<and> sim lo hi (s\<lparr>sh_tok := t'\<rparr>) calls args ts rest'
    \<and> (case k of Sym b \<Rightarrow> c = b \<and> b \<in> SYMBOLS | Word w \<Rightarrow> c = 119 \<and> kept lo hi t' p w)"
proof -
  let ?t = "sh_tok s"
  have a: "ahead ?t (k # ts) rest" and b: "lo \<le> unat (tok_np1 ?t)" "lo \<le> unat (tok_np2 ?t)" "unat (tok_np2 ?t) + length rest = hi"
    and nw: "\<forall>w. Word w \<in> set (k # ts) \<longrightarrow> w \<noteq> []"
    and r: "list_all2 (rel_Sh_Call (kept lo hi ?t)) (sh_calls s) calls" "list_all2 (kept lo hi ?t) (sh_argv s) args" "sh_child s = 0"
    using assms by (simp_all add: sim_def)
  obtain c p t1 rest1 where g: "gettoken 0 ?t = Some (c, p, t1)" "ahead t1 ts rest1" "token_is (tok_mem t1) k c p"
    "p = tok_np1 ?t" "\<forall>a. a \<notin> ahead_span ?t rest \<longrightarrow> tok_mem t1 a = tok_mem ?t a" "unat (tok_np2 ?t) + length rest < 4294967295"
    "ts \<noteq> [] \<longrightarrow> unat (tok_np2 ?t) \<le> unat (tok_np1 t1) \<and> unat (tok_np2 ?t) < unat (tok_np2 t1) \<and> unat (tok_np2 t1) + length rest1 = unat (tok_np2 ?t) + length rest"
    using gettoken_next [OF a] by blast
  have z: "tok_np2 t1 \<noteq> 0 \<longrightarrow> unat (tok_np2 ?t) < unat (tok_np2 t1)" using g(2,7) by (cases ts) auto
  have keep: "kept lo hi t1 q v" if "kept lo hi ?t q v" for q v
  proof -
    have q: "cstr (tok_mem ?t) q v" "unat q + length v < unat (tok_np2 ?t)" using that ahead_np2 [OF a] by (simp_all add: kept_def)
    have "cstr (tok_mem t1) q v" using word_survives [OF q g(6) g(5) [unfolded ahead_span_def]] .
    then show ?thesis using that q(2) z by (auto simp: kept_def)
  qed
  have w: "kept lo hi t1 p w" if k: "k = Word w" for w
  proof -
    have "unat p + length w = unat (tok_np2 ?t)" using ahead_word_end [of ?t w ts rest] a k g(4) by simp
    then show ?thesis using g(3,4) k b z nw by (auto simp: kept_def)
  qed
  have "list_all2 (rel_Sh_Call (kept lo hi t1)) (sh_calls s) calls"
    using r(1) by (rule list_all2_mono) (erule Sh_Call.rel_mono_strong, blast intro: keep)
  moreover have "list_all2 (kept lo hi t1) (sh_argv s) args" using r(2) keep by (rule list_all2_mono)
  ultimately have "sim lo hi (s\<lparr>sh_tok := t1\<rparr>) calls args ts rest1" using g(2,7) b r(3) nw by (auto simp: sim_def)
  moreover have "case k of Sym b \<Rightarrow> c = b \<and> b \<in> SYMBOLS | Word w \<Rightarrow> c = 119 \<and> kept lo hi t1 p w"
    using g(3) a w by (cases k) auto
  ultimately show ?thesis using g(1) by blast
qed

lemma kept_nc [simp]: "kept lo hi (t\<lparr>tok_nc := c\<rparr>) = kept lo hi t"
  by (intro ext) (simp add: kept_def)

lemma sim_end:
  assumes "sim lo hi s calls args [] rest"
  shows "\<exists>p t'. gettoken 0 (sh_tok s) = Some (0, p, t') \<and> sim lo hi (s\<lparr>sh_tok := t'\<rparr>) calls args [] []"
  using gettoken_end [of "sh_tok s" rest] assms by (auto simp: sim_def)

lemma sim_log:
  "sim lo hi s calls args ts rest \<Longrightarrow> rel_Sh_Call (kept lo hi (sh_tok s)) c d \<Longrightarrow> sim lo hi (log_call c s) (calls @ [d]) args ts rest"
  by (auto simp: sim_def log_call_def intro: list_all2_appendI)

lemma sim_calls: "sim lo hi s calls args ts rest \<Longrightarrow> length (sh_calls s) = length calls"
  by (auto simp: sim_def dest: list_all2_lengthD)

lemma spawn_and_wait_calls:
  fixes s :: Sh and answer :: answers
  defines "r \<equiv> fst (answer (length (sh_calls s)))"
  shows "\<exists>s'. spawn_and_wait answer s = Some (Exited, s') \<and> sh_tok s' = sh_tok s
    \<and> sh_calls s' = sh_calls s @ [Spawn (hd (sh_argv s)) (sh_argv s)] @ (if sint r < 0 then [Message ''spawn''] else []) @ [Close_All]
        @ (if 0 \<le> sint r then [Wait r] else []) @ (if sh_child s \<noteq> 0 then [Wait (sh_child s)] else []) @ [Exit]"
proof -
  obtain q0 q1 where "answer (length (sh_calls s)) = (r, q0, q1)" unfolding r_def by (metis prod.collapse)
  then show ?thesis by (auto simp: spawn_and_wait_def ask_def log_call_def sh_exit_def Let_def)
qed

definition says :: "Sh \<Rightarrow> u8 list Sh_Call list \<Rightarrow> bool" where
  "says s calls \<longleftrightarrow> list_all2 (rel_Sh_Call (cstr (tok_mem (sh_tok s)))) (sh_calls s) calls"

definition implements :: "(Sh_End \<times> Sh) option \<Rightarrow> Sh_End \<times> u8 list Sh_Call list \<Rightarrow> bool" where
  "implements x y \<longleftrightarrow> (\<exists>s'. x = Some (fst y, s') \<and> says s' (snd y))"

text \<open>The array for the name of the program lies outside of the line, which is short enough for it.\<close>

definition buffer_apart :: "nat \<Rightarrow> nat \<Rightarrow> u32 \<Rightarrow> bool" where
  "buffer_apart lo hi b \<longleftrightarrow> unat b + BUFSIZ < 4294967295 \<and> (hi < unat b \<or> unat b + BUFSIZ \<le> lo) \<and> hi < 4294967295 \<and> hi + 2 \<le> lo + BUFSIZ"

lemma kept_apart:
  assumes k: "kept lo hi t q v" and b: "buffer_apart lo hi b" and m: "\<forall>a. a \<notin> span b BUFSIZ \<longrightarrow> m1 a = tok_mem t a"
  shows "cstr m1 q v"
proof -
  have q: "cstr (tok_mem t) q v" "lo \<le> unat q" "unat q + length v \<le> hi" using k by (simp_all add: kept_def)
  have "m1 a = tok_mem t a" if "a \<in> span q (Suc (length v))" for a
  proof -
    have "a \<notin> span b BUFSIZ"
      using that in_span_iff [of q "Suc (length v)" a] in_span_iff [of b BUFSIZ a] q b by (auto simp: buffer_apart_def)
    then show ?thesis using m by blast
  qed
  then have "cstr m1 q v = cstr (tok_mem t) q v" by (rule cstr_cong)
  then show ?thesis using q(1) by simp
qed

lemma runit_words:
  assumes calls: "list_all2 (rel_Sh_Call (kept lo hi (sh_tok s))) (sh_calls s) calls"
    and args: "list_all2 (kept lo hi (sh_tok s)) (sh_argv s) args" and b: "buffer_apart lo hi b"
  shows "implements (runit answer b s) (run_words answer calls args (sh_child s))"
proof (cases args)
  case Nil
  have "list_all2 (rel_Sh_Call (cstr (tok_mem (sh_tok s)))) (sh_calls s) calls"
    using calls by (rule list_all2_mono) (erule Sh_Call.rel_mono_strong, simp add: kept_def)
  then show ?thesis using Nil args by (simp add: runit_def run_words_def implements_def says_def)
next
  case (Cons w ws)
  then obtain p ps where ps: "sh_argv s = p # ps" "kept lo hi (sh_tok s) p w" "list_all2 (kept lo hi (sh_tok s)) ps ws"
    using args by (auto simp: list_all2_Cons2)
  obtain m1 p1 where m1: "name_argv0 b s = Some (False, s\<lparr>sh_tok := (sh_tok s)\<lparr>tok_mem := m1\<rparr>, sh_argv := p1 # ps\<rparr>)"
    "cstr m1 p1 (path_of w)" "\<forall>a. a \<notin> span b BUFSIZ \<longrightarrow> m1 a = tok_mem (sh_tok s) a"
    using name_argv0_spec [OF ps(1), of w b lo hi] ps(2) b by (auto simp: kept_def buffer_apart_def)
  note keep = kept_apart [OF _ b m1(3)]
  have cs: "list_all2 (rel_Sh_Call (cstr m1)) (sh_calls s) calls"
    using calls by (rule list_all2_mono) (erule Sh_Call.rel_mono_strong, blast intro: keep)
  have ws: "list_all2 (cstr m1) ps ws" using ps(3) keep by (rule list_all2_mono)
  let ?s = "s\<lparr>sh_tok := (sh_tok s)\<lparr>tok_mem := m1\<rparr>, sh_argv := p1 # ps\<rparr>"
  have len: "length ps = length ws" "length (sh_calls s) = length calls" using ws calls by (auto dest: list_all2_lengthD)
  show ?thesis
  proof (cases "SH_MAXARGS \<le> length args")
    case True
    then show ?thesis using m1(1) ps(1) len cs Cons by (simp add: runit_def run_words_def implements_def says_def)
  next
    case False
    let ?r = "fst (answer (length calls))"
    obtain s' where s': "spawn_and_wait answer ?s = Some (Exited, s')" "sh_tok s' = sh_tok ?s"
      "sh_calls s' = sh_calls s @ [Spawn p1 (p1 # ps)] @ (if sint ?r < 0 then [Message ''spawn''] else []) @ [Close_All]
        @ (if 0 \<le> sint ?r then [Wait ?r] else []) @ (if sh_child s \<noteq> 0 then [Wait (sh_child s)] else []) @ [Exit]"
      using spawn_and_wait_calls [of answer ?s] len(2) by auto
    have "runit answer b s = Some (Exited, s')" using m1(1) ps(1) len False Cons s'(1) by (simp add: runit_def)
    moreover have "says s' (calls @ [Spawn (path_of w) (path_of w # ws)] @ (if sint ?r < 0 then [Message ''spawn''] else []) @ [Close_All]
        @ (if 0 \<le> sint ?r then [Wait ?r] else []) @ (if sh_child s \<noteq> 0 then [Wait (sh_child s)] else []) @ [Exit])"
      unfolding says_def s'(2,3) using cs ws m1(2) by (intro list_all2_appendI) (auto intro: list_all2_appendI)
    ultimately show ?thesis using False Cons by (simp add: run_words_def implements_def Let_def)
  qed
qed

text \<open>The steps of the loop keep the relation.\<close>

lemma sim_says: "sim lo hi s calls args ts rest \<Longrightarrow> says s calls"
  unfolding sim_def says_def
  by (elim conjE, rule list_all2_mono, assumption, erule Sh_Call.rel_mono_strong, simp add: kept_def)

lemma sim_move: "sim lo hi s calls args ts rest \<Longrightarrow> sim lo hi (move_fd fd n s) (calls @ onto fd n) args ts rest"
  using sim_log [OF sim_log, of lo hi s calls args ts rest "Dup fd n" "Dup fd n" "Close fd" "Close fd"]
  by (simp add: move_fd_def onto_def log_call_def)

lemma sim_argv: "sim lo hi s calls args ts rest \<Longrightarrow> kept lo hi (sh_tok s) p w \<Longrightarrow>
    sim lo hi (s\<lparr>sh_argv := sh_argv s @ [p]\<rparr>) calls (args @ [w]) ts rest"
  by (auto simp: sim_def intro: list_all2_appendI)

lemma sim_again: "sim lo hi s calls args ts rest \<Longrightarrow> sim lo hi (s\<lparr>sh_argv := []\<rparr>) calls [] ts rest"
  by (simp add: sim_def)

lemma sim_exit:
  assumes "sim lo hi s calls args ts rest"
  shows "implements (sh_exit (log_call (Message x) s)) (Exited, calls @ [Message x, Exit])"
  using sim_says [OF sim_log [OF sim_log [OF assms, of "Message x" "Message x"], of Exit Exit]] by (simp add: sh_exit_def implements_def)

lemma sim_runit:
  assumes "sim lo hi s calls args ts rest" and "buffer_apart lo hi b"
  shows "implements (runit answer b (s\<lparr>sh_child := r\<rparr>)) (run_words answer calls args r)"
  using runit_words [of lo hi "s\<lparr>sh_child := r\<rparr>" calls args b answer] assms by (simp add: sim_def)

text \<open>A redirection: \<open>open\<close>, and the descriptor is moved to its place.\<close>

lemma sim_redirect:
  assumes s: "sim lo hi s calls args (Word w # ts) rest" and r: "answer (length calls) = (r, q0, q1)"
  shows "\<exists>p t' rest'. gettoken 0 (sh_tok s) = Some (119, p, t')
    \<and> ask answer (Open p m) (s\<lparr>sh_tok := t'\<rparr>) = ((r, q0, q1), log_call (Open p m) (s\<lparr>sh_tok := t'\<rparr>))
    \<and> sim lo hi (log_call (Open p m) (s\<lparr>sh_tok := t'\<rparr>)) (calls @ [Open w m]) args ts rest'"
proof -
  obtain p t' rest' where g: "gettoken 0 (sh_tok s) = Some (119, p, t')" "sim lo hi (s\<lparr>sh_tok := t'\<rparr>) calls args ts rest'"
    "kept lo hi t' p w" using sim_next [OF s] by auto
  have "sim lo hi (log_call (Open p m) (s\<lparr>sh_tok := t'\<rparr>)) (calls @ [Open w m]) args ts rest'"
    using sim_log [OF g(2), of "Open p m" "Open w m"] g(3) by simp
  then show ?thesis using g(1) r sim_calls [OF s] by (auto simp: ask_def)
qed

text \<open>What follows a redirection is not a word.\<close>

lemma sim_no_word:
  assumes "sim lo hi s calls args ts rest" and "\<nexists>w us. ts = Word w # us"
  shows "\<exists>c p t' us rest'. gettoken 0 (sh_tok s) = Some (c, p, t') \<and> c \<noteq> 119 \<and> sim lo hi (s\<lparr>sh_tok := t'\<rparr>) calls args us rest'"
proof (cases ts)
  case Nil
  then show ?thesis using sim_end [of lo hi s calls args rest] assms(1) by fastforce
next
  case (Cons k us)
  then obtain b where "k = Sym b" using assms(2) by (cases k) auto
  then obtain c p t' rest' where "gettoken 0 (sh_tok s) = Some (c, p, t')" "sim lo hi (s\<lparr>sh_tok := t'\<rparr>) calls args us rest'" "c \<in> SYMBOLS"
    using sim_next [of lo hi s calls args k us rest] assms(1) Cons by auto
  then show ?thesis using sh_bytes(3) by blast
qed

lemma loop_pipe:
  fixes s :: Sh and answer :: answers
  assumes s: "sim lo hi s calls args (Sym 124 # ts) rest" and b: "buffer_apart lo hi b"
    and IH: "\<And>s calls args rest. sim lo hi s calls args ts rest \<Longrightarrow> implements (sh_loop answer b s) (meaning answer calls args ts)"
  shows "implements (sh_loop answer b s) (meaning answer calls args (Sym 124 # ts))"
proof -
  obtain r p0 p1 where r: "answer (length calls) = (r, p0, p1)" by (metis prod.collapse)
  obtain f q0 q1 where f: "answer (Suc (length calls)) = (f, q0, q1)" by (metis prod.collapse)
  obtain p t' rest' where g: "gettoken 0 (sh_tok s) = Some (124, p, t')" "sim lo hi (s\<lparr>sh_tok := t'\<rparr>) calls args ts rest'"
    using sim_next [OF s] by auto
  let ?s1 = "log_call Pipe (s\<lparr>sh_tok := t'\<rparr>)" and ?s2 = "log_call Fork (log_call Pipe (s\<lparr>sh_tok := t'\<rparr>))"
  have s1: "sim lo hi ?s1 (calls @ [Pipe]) args ts rest'" by (rule sim_log [OF g(2)]) simp
  have s2: "sim lo hi ?s2 (calls @ [Pipe, Fork]) args ts rest'" using sim_log [OF s1, of Fork Fork] by simp
  have a1: "ask answer Pipe (s\<lparr>sh_tok := t'\<rparr>) = ((r, p0, p1), ?s1)" and a2: "ask answer Fork ?s1 = ((f, q0, q1), ?s2)"
    using r f sim_calls [OF g(2)] sim_calls [OF s1] by (simp_all add: ask_def)
  note step = sh_loop.simps [of answer b s]
  consider "sint r < 0" | "0 \<le> sint r" "sint f < 0" | "0 \<le> sint r" "f = 0" | "0 \<le> sint r" "0 \<le> sint f" "f \<noteq> 0" by fastforce
  then show ?thesis
  proof cases
    case 1
    then show ?thesis using sim_exit [OF s1, of "''pipe''"] g(1) a1 r by (subst step) simp
  next
    case 2
    then show ?thesis using sim_exit [OF s2, of "''fork''"] g(1) a1 a2 r f by (subst step) simp
  next
    case 3
    have "sim lo hi ((log_call (Close p1) (move_fd p0 0 ?s2))\<lparr>sh_argv := []\<rparr>) ((calls @ [Pipe, Fork] @ onto p0 0) @ [Close p1]) [] ts rest'"
      using sim_again [OF sim_log [OF sim_move [OF s2], where c = "Close p1" and d = "Close p1"]] by simp
    then show ?thesis using IH 3 g(1) a1 a2 r f by (subst step) simp
  next
    case 4
    have "sim lo hi (log_call (Close p0) (move_fd p1 1 ?s2)) ((calls @ [Pipe, Fork] @ onto p1 1) @ [Close p0]) args ts rest'"
      using sim_log [OF sim_move [OF s2], where c = "Close p0" and d = "Close p0"] by simp
    note fin = sim_runit [OF this b, of answer f]
    have "log_call (Close p0) (move_fd p1 1 (?s2\<lparr>sh_child := f\<rparr>)) = (log_call (Close p0) (move_fd p1 1 ?s2))\<lparr>sh_child := f\<rparr>"
      by (simp add: log_call_def move_fd_def)
    then show ?thesis using fin 4 g(1) a1 a2 r f by (subst step) simp
  qed
qed

lemma loop_redirect:
  fixes s :: Sh and answer :: answers
  defines "mode c \<equiv> (if c = 60 then O_RDONLY else O_WRONLY OR sh_O_CREAT OR sh_O_TRUNC)"
    and "place c \<equiv> (if c = (60 :: u8) then 0 else 1 :: u32)"
  assumes s: "sim lo hi s calls args (Sym c # ts) rest" and c: "c = 60 \<or> c = 62"
    and IH: "\<And>s calls args rest w us. ts = Word w # us \<Longrightarrow> sim lo hi s calls args us rest \<Longrightarrow>
               implements (sh_loop answer b s) (meaning answer calls args us)"
  shows "implements (sh_loop answer b s) (meaning answer calls args (Sym c # ts))"
proof -
  obtain r p0 p1 where r: "answer (length calls) = (r, p0, p1)" by (metis prod.collapse)
  obtain p t' rest' where g: "gettoken 0 (sh_tok s) = Some (c, p, t')" "sim lo hi (s\<lparr>sh_tok := t'\<rparr>) calls args ts rest'"
    using sim_next [OF s] by auto
  note step = sh_loop.simps [of answer b s]
  show ?thesis
  proof (cases "\<exists>w us. ts = Word w # us")
    case False
    obtain d p t2 us rest2 where n: "gettoken 0 t' = Some (d, p, t2)" "d \<noteq> 119" "sim lo hi (s\<lparr>sh_tok := t2\<rparr>) calls args us rest2"
      using sim_no_word [OF g(2)] False by auto
    have "meaning answer calls args (Sym c # ts) =
        (Exited, calls @ [Message (if c = 60 then ''syntax error: < not followed by word'' else ''syntax error: > not followed by word''), Exit])"
      using False r c by (auto split: list.split token.split)
    then show ?thesis using sim_exit [OF n(3)] n(1,2) g(1) c by (subst step) auto
  next
    case True
    then obtain w us where ts: "ts = Word w # us" by blast
    obtain p t2 rest2 where n: "gettoken 0 t' = Some (119, p, t2)"
      "ask answer (Open p (mode c)) (s\<lparr>sh_tok := t2\<rparr>) = ((r, p0, p1), log_call (Open p (mode c)) (s\<lparr>sh_tok := t2\<rparr>))"
      "sim lo hi (log_call (Open p (mode c)) (s\<lparr>sh_tok := t2\<rparr>)) (calls @ [Open w (mode c)]) args us rest2"
      using sim_redirect [OF g(2) [unfolded ts], of answer r p0 p1 "mode c"] r by auto
    show ?thesis
    proof (cases "sint r < 0")
      case True
      then show ?thesis using sim_exit [OF n(3)] n(1,2) g(1) r ts c by (subst step) (auto simp: mode_def)
    next
      case False
      then show ?thesis using IH [OF ts sim_move [OF n(3)], of r "place c"] n(1,2) g(1) r ts c
        by (subst step) (auto simp: mode_def place_def)
    qed
  qed
qed

text \<open>The loop implements the meaning of the tokens ahead.\<close>

lemma sh_loop_implements:
  assumes "sim lo hi s calls args ts rest" and b: "buffer_apart lo hi b"
  shows "implements (sh_loop answer b s) (meaning answer calls args ts)"
  using assms(1)
proof (induction ts arbitrary: s calls args rest rule: length_induct)
  case (1 ts)
  note IH = 1(1) [rule_format]
  show ?case
  proof (cases ts)
    case Nil
    then obtain p t' where g: "gettoken 0 (sh_tok s) = Some (0, p, t')" "sim lo hi (s\<lparr>sh_tok := t'\<rparr>) calls args [] []"
      using sim_end [of lo hi s calls args rest] 1(2) by auto
    have "sh_child s = 0" using 1(2) by (simp add: sim_def)
    then have "s\<lparr>sh_tok := t', sh_child := 0\<rparr> = s\<lparr>sh_tok := t'\<rparr>" by (cases s) simp
    then show ?thesis using sim_runit [OF g(2) b, of answer 0] g(1) Nil by (subst sh_loop.simps) simp
  next
    case (Cons k us)
    note s = 1(2) [unfolded Cons]
    obtain c p t' rest' where g: "gettoken 0 (sh_tok s) = Some (c, p, t')" "sim lo hi (s\<lparr>sh_tok := t'\<rparr>) calls args us rest'"
      "case k of Sym b \<Rightarrow> c = b \<and> b \<in> SYMBOLS | Word w \<Rightarrow> c = 119 \<and> kept lo hi t' p w" using sim_next [OF s] by blast
    show ?thesis
    proof (cases k)
      case (Word w)
      have len: "length (sh_argv s) = length args" using s by (auto simp: sim_def dest: list_all2_lengthD)
      have "sim lo hi (s\<lparr>sh_tok := t', sh_argv := sh_argv s @ [p]\<rparr>) calls (args @ [w]) us rest'"
        using sim_argv [OF g(2), of p w] g(3) Word by simp
      then show ?thesis using IH [of us] sim_exit [OF g(2)] g(1,3) Word Cons len by (subst sh_loop.simps) simp
    next
      case (Sym y)
      consider "y = 124" | "y = 60 \<or> y = 62" | "y \<in> {38, 59, 40, 41}" using g(3) Sym by (auto simp: SYMBOLS_def)
      then show ?thesis
      proof cases
        case 1
        then show ?thesis using loop_pipe [of lo hi s calls args us rest] s b Sym IH Cons by auto
      next
        case 2
        then show ?thesis using loop_redirect [of lo hi s calls args y us rest] s Sym IH Cons by auto
      next
        case 3
        then have "sh_loop answer b s = Some (Panicked, s\<lparr>sh_tok := t'\<rparr>)" using g(1,3) Sym by (subst sh_loop.simps) auto
        then show ?thesis using sim_says [OF g(2)] 3 Cons Sym by (auto simp: implements_def split: prod.split)
      qed
    qed
  qed
qed

lemma sim_start:
  assumes tx: "text_at (tok_mem t) line xs"
  shows "\<exists>t' rest. gettoken line t = Some (0, 0, t') \<and>
    sim (unat line) (unat line + length xs) \<lparr>sh_tok = t', sh_argv = [], sh_calls = [], sh_child = 0\<rparr> [] [] (lex xs) rest"
proof -
  obtain t' rest where g: "gettoken line t = Some (0, 0, t')" "ahead t' (lex xs) rest"
    "lex xs \<noteq> [] \<longrightarrow> unat line \<le> unat (tok_np1 t') \<and> unat line < unat (tok_np2 t') \<and> unat (tok_np2 t') + length rest = unat line + length xs"
    using gettoken_start [OF tx] by blast
  have "sim (unat line) (unat line + length xs) \<lparr>sh_tok = t', sh_argv = [], sh_calls = [], sh_child = 0\<rparr> [] [] (lex xs) rest"
    using g(2,3) lex_words_nonempty by (auto simp: sim_def)
  then show ?thesis using g(1) by blast
qed

section \<open>Properties\<close>

text \<open>C26. \<open>runcmd\<close> does what the line says. For every line of at most 1022 bytes, whose name of the program fits into
  \<open>argv0buf\<close> with the slash in front, at every
  place of memory outside of \<open>argv0buf\<close> and for all results of the system calls, the interpreter ends, in the way and with
  the calls that \<open>meaning\<close> gives for the tokens of the line: files are opened and moved onto descriptors 0 and 1, a pipe
  is made and the shell forked at each bar, the command that is run is the words in order with a slash in front of the
  first, and the shell waits for its children. The strings of all calls are in memory at the end, byte for byte,
  although \<open>_gettoken\<close> writes its zeros into the line while it reads on.\<close>

theorem sh_runcmd_refines:
  assumes "text_at (tok_mem t) line xs" and "length xs + 2 \<le> BUFSIZ"
    and "unat b + BUFSIZ < 4294967295" and "unat line + length xs < unat b \<or> unat b + BUFSIZ \<le> unat line"
  shows "\<exists>s'. sh_runcmd answer b t line = Some (fst (meaning answer [] [] (lex xs)), s')
    \<and> list_all2 (rel_Sh_Call (cstr (tok_mem (sh_tok s')))) (sh_calls s') (snd (meaning answer [] [] (lex xs)))"
proof -
  obtain t' rest where g: "gettoken line t = Some (0, 0, t')"
    "sim (unat line) (unat line + length xs) \<lparr>sh_tok = t', sh_argv = [], sh_calls = [], sh_child = 0\<rparr> [] [] (lex xs) rest"
    using sim_start [OF assms(1)] by blast
  have "buffer_apart (unat line) (unat line + length xs) b" using assms by (auto simp: buffer_apart_def text_at_def)
  from sh_loop_implements [OF g(2) this, of answer] show ?thesis
    using g(1) by (simp add: sh_runcmd_def implements_def says_def)
qed

text \<open>The line \<open>ls >f\<close>.\<close>

theorem sh_runcmd_refines_witness:
  "\<exists>s'. sh_runcmd (\<lambda>n. (if n = 0 then 3 else 0x1001, 0, 0)) 0x2000
       \<lparr>tok_mem = mem_put 0x1000 ([108, 115, 32, 62, 102] @ [0]) (\<lambda>_. 0), tok_nc = 0, tok_np1 = 0, tok_np2 = 0\<rparr> 0x1000 = Some (Exited, s')
    \<and> list_all2 (rel_Sh_Call (cstr (tok_mem (sh_tok s')))) (sh_calls s')
        [Open [102] 0x301, Dup 3 1, Close 3, Spawn [47, 108, 115] [[47, 108, 115]], Close_All, Wait 0x1001, Exit]"
proof -
  let ?t = "\<lparr>tok_mem = mem_put 0x1000 ([108, 115, 32, 62, 102] @ [0]) (\<lambda>_. 0), tok_nc = 0, tok_np1 = 0, tok_np2 = 0\<rparr>"
  let ?a = "\<lambda>n. (if n = 0 then 3 else 0x1001, 0, 0) :: u32 \<times> u32 \<times> u32"
  have tx: "text_at (tok_mem ?t) 0x1000 [108, 115, 32, 62, 102]" by (simp add: text_at_def)
  have m: "meaning ?a [] [] (lex [108, 115, 32, 62, 102]) =
      (Exited, [Open [102] 0x301, Dup 3 1, Close 3, Spawn [47, 108, 115] [[47, 108, 115]], Close_All, Wait 0x1001, Exit])"
    by (simp add: sh_blanks_def SYMBOLS_def SH_MAXARGS_def O_WRONLY_def sh_O_CREAT_def sh_O_TRUNC_def onto_def run_words_def path_of_def Let_def)
  show ?thesis using sh_runcmd_refines [OF tx, of "0x2000" ?a] unfolding m by (simp add: BUFSIZ_def)
qed

section \<open>Two arrays that are too short\<close>

text \<open>Sixteen words pass the check of the loop, and the zero behind them is stored outside of \<open>argv\<close>.\<close>

lemma meaning_words: "length args + length ws \<le> SH_MAXARGS \<Longrightarrow> meaning answer calls args (map Word ws) = run_words answer calls (args @ ws) 0"
  by (induction ws arbitrary: args) auto

lemma sixteen_words_overrun: "length ws = SH_MAXARGS \<Longrightarrow> fst (meaning answer [] [] (map Word ws)) = Overrun"
  using meaning_words [of "[]" ws] by (auto simp: run_words_def SH_MAXARGS_def)

text \<open>A line of the 1023 bytes that \<open>readline\<close> accepts may be a name for which \<open>argv0buf\<close> is too short.\<close>

lemma long_name_overruns:
  assumes "cstr (tok_mem (sh_tok s)) p w" and "hd w \<noteq> 47" and "length w = 1023" and "sh_argv s = p # ps"
    and "strcpy ((tok_mem (sh_tok s))(b := 47)) (b + 1) p = Some (m1, d)"
  shows "\<exists>s'. runit answer b s = Some (Overrun, s')"
proof -
  have "w \<noteq> []" using assms(3) by auto
  then have "tok_mem (sh_tok s) p \<noteq> 47" using assms(1,2) by (cases w) auto
  moreover have "strlen (tok_mem (sh_tok s)) p = Some (of_nat (length w))" using strlen_loop_spec [OF assms(1), of 0] by (simp add: strlen_def)
  ultimately show ?thesis using assms by (simp add: runit_def name_argv0_def BUFSIZ_def)
qed

end
