(* ===== verification/User_Input.thy ===== *)
theory User_Input
  imports Jos_Prelude
begin

text \<open>
  Input of programs: the line editor (\<open>lib/readline.c\<close>) and the flags of a command line (\<open>lib/args.c\<close>). The results of
  \<open>getchar\<close> are a list; when it is used up the editor waits. A string of the command line is the list of its bytes. The prompt and the
  message of a read error, which only print, are left out.
\<close>

section \<open>The line editor\<close>

definition BUFLEN :: nat where "BUFLEN = 1024"

record Rl =
  rl_buf :: "nat \<Rightarrow> u8"
  rl_i :: nat
  rl_echo :: "u8 list"

text \<open>\<open>cputchar\<close> when the editor echoes.\<close>

definition echo :: "bool \<Rightarrow> u8 \<Rightarrow> Rl \<Rightarrow> Rl" where
  "echo echoing c s = (if echoing then s\<lparr>rl_echo := rl_echo s @ [c]\<rparr> else s)"

text \<open>The loop; the first result says whether a line is returned, else it is null.\<close>

fun readline_loop :: "bool \<Rightarrow> int list \<Rightarrow> Rl \<Rightarrow> (bool \<times> Rl \<times> int list) option" where
  "readline_loop echoing [] s = None"
| "readline_loop echoing (c # cs) s =
     (if c < 0 then Some (False, s, cs)
      else if (c = 8 \<or> c = 127) \<and> rl_i s > 0
      then let s = echo echoing 8 s in readline_loop echoing cs (s\<lparr>rl_i := rl_i s - 1\<rparr>)
      else if c \<ge> 32 \<and> rl_i s < BUFLEN - 1
      then let s = echo echoing (word_of_int c) s
           in readline_loop echoing cs (s\<lparr>rl_buf := (rl_buf s)(rl_i s := word_of_int c), rl_i := rl_i s + 1\<rparr>)
      else if c = 10 \<or> c = 13
      then let s = echo echoing 10 s in Some (True, s\<lparr>rl_buf := (rl_buf s)(rl_i s := 0)\<rparr>, cs)
      else readline_loop echoing cs s)"

definition readline :: "bool \<Rightarrow> int list \<Rightarrow> (nat \<Rightarrow> u8) \<Rightarrow> (bool \<times> Rl \<times> int list) option" where
  "readline echoing cs buf = readline_loop echoing cs \<lparr>rl_buf = buf, rl_i = 0, rl_echo = []\<rparr>"

text \<open>The specification: a key changes the line.\<close>

definition edit :: "u8 list \<Rightarrow> int \<Rightarrow> u8 list" where
  "edit l c = (if (c = 8 \<or> c = 127) \<and> l \<noteq> [] then butlast l
     else if c \<ge> 32 \<and> length l < 1023 then l @ [word_of_int c] else l)"

definition holds_line :: "(nat \<Rightarrow> u8) \<Rightarrow> u8 list \<Rightarrow> Rl \<Rightarrow> bool" where
  "holds_line buf l s \<longleftrightarrow> rl_i s = length l \<and> length l \<le> 1023 \<and> (\<forall>k<length l. rl_buf s k = l ! k)
     \<and> (\<forall>k\<ge>1024. rl_buf s k = buf k)"

lemma echo_frame [simp]: "rl_buf (echo e c s) = rl_buf s" "rl_i (echo e c s) = rl_i s"
  by (simp_all add: echo_def)

text \<open>A key that does not end the line.\<close>

lemma readline_key:
  assumes s: "holds_line buf l s" and c: "0 \<le> c" "c \<noteq> 10" "c \<noteq> 13"
  shows "\<exists>s'. readline_loop e (c # cs) s = readline_loop e cs s' \<and> holds_line buf (edit l c) s'"
proof -
  have l: "rl_i s = length l" "length l \<le> 1023" using s by (simp_all add: holds_line_def)
  consider "c = 8 \<or> c = 127" "l \<noteq> []" | "\<not> ((c = 8 \<or> c = 127) \<and> l \<noteq> [])" "c \<ge> 32" "length l < 1023"
    | "\<not> ((c = 8 \<or> c = 127) \<and> l \<noteq> [])" "\<not> (c \<ge> 32 \<and> length l < 1023)" by blast
  then show ?thesis
  proof cases
    case 1
    then have "holds_line buf (edit l c) ((echo e 8 s)\<lparr>rl_i := rl_i s - 1\<rparr>)"
      using s by (auto simp: holds_line_def edit_def nth_butlast)
    then show ?thesis using 1 c l by (intro exI) (auto simp: Let_def)
  next
    case 2
    let ?s = "(echo e (word_of_int c) s)\<lparr>rl_buf := (rl_buf s)(rl_i s := word_of_int c), rl_i := rl_i s + 1\<rparr>"
    have "holds_line buf (edit l c) ?s" using s 2 by (auto simp: holds_line_def edit_def nth_append less_Suc_eq)
    then show ?thesis using 2 c l by (intro exI [of _ ?s]) (auto simp: Let_def BUFLEN_def)
  next
    case 3
    then have "edit l c = l" by (auto simp: edit_def)
    then show ?thesis using 3 s c l by (intro exI [of _ s]) (auto simp: BUFLEN_def)
  qed
qed

text \<open>The editor returns the line that the keys give, in at most 1024 bytes of the buffer.\<close>

theorem readline_edits:
  assumes "\<forall>c\<in>set cs. 0 \<le> c \<and> c \<noteq> 10 \<and> c \<noteq> 13" and "c = 10 \<or> c = 13"
  shows "\<exists>s. readline e (cs @ c # rest) buf = Some (True, s, rest)
    \<and> (\<forall>k\<le>length (foldl edit [] cs). rl_buf s k = (foldl edit [] cs @ [0]) ! k) \<and> length (foldl edit [] cs) < 1024
    \<and> (\<forall>k\<ge>1024. rl_buf s k = buf k)"
proof -
  have loop: "\<exists>s'. readline_loop e (cs @ c # rest) s = Some (True, s', rest)
    \<and> (\<forall>k\<le>length (foldl edit l cs). rl_buf s' k = (foldl edit l cs @ [0]) ! k) \<and> length (foldl edit l cs) < 1024
    \<and> (\<forall>k\<ge>1024. rl_buf s' k = buf k)" if "holds_line buf l s" for l s
    using that assms(1)
  proof (induction cs arbitrary: l s)
    case Nil
    then show ?case using assms(2) by (auto simp: holds_line_def Let_def BUFLEN_def nth_append)
  next
    case (Cons x cs)
    then obtain s' where "readline_loop e (x # (cs @ c # rest)) s = readline_loop e (cs @ c # rest) s'" "holds_line buf (edit l x) s'"
      using readline_key [of buf l s x e "cs @ c # rest"] by auto
    then show ?case using Cons.IH [of "edit l x" s'] Cons.prems(2) by simp
  qed
  show ?thesis unfolding readline_def by (rule loop) (simp add: holds_line_def)
qed

text \<open>The delete key at the start of a line is not an edit, it becomes the first character.\<close>

lemma delete_at_start: "edit [] 127 = [127]" "edit [] 8 = []"
  by (simp_all add: edit_def)

section \<open>Flags of a command line\<close>

text \<open>\<open>argv\<close> holds \<open>argc\<close> strings; \<open>argvalue\<close> and \<open>curarg\<close> are pointers into strings or null.\<close>

record Argstate =
  argv :: "u8 list list"
  curarg :: "u8 list option"
  arg_value :: "u8 list option"

definition argstart :: "u8 list list \<Rightarrow> Argstate" where
  "argstart av = \<lparr>argv = av, curarg = (if length av > 1 then Some [] else None), arg_value = None\<rparr>"

text \<open>Shift arguments down one.\<close>

definition shift_args :: "Argstate \<Rightarrow> Argstate" where
  "shift_args a = a\<lparr>argv := take 1 (argv a) @ drop 2 (argv a)\<rparr>"

text \<open>\<open>None\<close> is the result \<open>-1\<close>.\<close>

definition argnext :: "Argstate \<Rightarrow> u8 option \<times> Argstate" where
  "argnext a =
     (let a = a\<lparr>arg_value := None\<rparr> in
      case curarg a of
        None \<Rightarrow> (None, a)
      | Some (c # cs) \<Rightarrow> (Some c, a\<lparr>curarg := Some cs\<rparr>)
      | Some [] \<Rightarrow>
          if length (argv a) = 1 \<or> take 1 (argv a ! 1) \<noteq> [45] \<or> drop 1 (argv a ! 1) = [] then (None, a\<lparr>curarg := None\<rparr>)
          else let cur = drop 1 (argv a ! 1); a = shift_args a
               in if cur = [45] then (None, a\<lparr>curarg := None\<rparr>)
                  else (Some (hd cur), a\<lparr>curarg := Some (tl cur)\<rparr>))"

definition argnextvalue :: "Argstate \<Rightarrow> u8 list option \<times> Argstate" where
  "argnextvalue a =
     (case curarg a of
        None \<Rightarrow> (None, a)
      | Some cur \<Rightarrow>
          let a = (if cur \<noteq> [] then a\<lparr>arg_value := Some cur, curarg := Some []\<rparr>
                   else if length (argv a) > 1 then shift_args (a\<lparr>arg_value := Some (argv a ! 1)\<rparr>)
                   else a\<lparr>arg_value := None, curarg := None\<rparr>)
          in (arg_value a, a))"

definition argvalue :: "Argstate \<Rightarrow> u8 list option \<times> Argstate" where
  "argvalue a = (if arg_value a \<noteq> None then (arg_value a, a) else argnextvalue a)"

text \<open>\<open>while ((r = argnext(&args)) >= 0)\<close>, the flags in order.\<close>

partial_function (option) all_flags :: "Argstate \<Rightarrow> (u8 list \<times> Argstate) option" where
  "all_flags a =
     (case argnext a of
        (None, a) \<Rightarrow> Some ([], a)
      | (Some c, a) \<Rightarrow> do { (cs, a) \<leftarrow> all_flags a; Some (c # cs, a) })"

text \<open>What the header promises: the flags, and the arguments that are left.\<close>

fun flags_of :: "u8 list list \<Rightarrow> u8 list \<times> u8 list list" where
  "flags_of [] = ([], [])"
| "flags_of (a # as) =
     (if take 1 a \<noteq> [45] \<or> drop 1 a = [] then ([], a # as)
      else if drop 1 a = [45] then ([], as)
      else (drop 1 a @ fst (flags_of as), snd (flags_of as)))"

lemma all_flags_curarg:
  assumes "\<And>v. \<exists>a'. all_flags \<lparr>argv = av, curarg = Some [], arg_value = v\<rparr> = Some (fs, a') \<and> argv a' = rest \<and> curarg a' = None"
  shows "\<exists>a'. all_flags \<lparr>argv = av, curarg = Some cs, arg_value = v\<rparr> = Some (cs @ fs, a') \<and> argv a' = rest \<and> curarg a' = None"
proof (induction cs arbitrary: v)
  case (Cons c cs)
  obtain a' where "all_flags \<lparr>argv = av, curarg = Some cs, arg_value = None\<rparr> = Some (cs @ fs, a')" "argv a' = rest" "curarg a' = None"
    using Cons [of None] by blast
  then show ?case by (subst all_flags.simps) (simp add: argnext_def)
qed (simp add: assms)

lemma all_flags_from:
  "\<exists>a'. all_flags \<lparr>argv = p # as, curarg = Some [], arg_value = v\<rparr> = Some (fst (flags_of as), a') \<and> argv a' = p # snd (flags_of as) \<and> curarg a' = None"
proof (induction as arbitrary: v rule: flags_of.induct)
  case 1
  then show ?case by (subst all_flags.simps) (simp add: argnext_def)
next
  case (2 a as)
  show ?case
  proof (cases "take 1 a \<noteq> [45] \<or> drop 1 a = [] \<or> drop 1 a = [45]")
    case True
    then show ?thesis by (subst all_flags.simps) (auto simp: argnext_def shift_args_def Let_def)
  next
    case False
    then obtain c cs where c: "drop 1 a = c # cs" by (cases "drop 1 a") auto
    have IH: "\<exists>a'. all_flags \<lparr>argv = p # as, curarg = Some [], arg_value = v\<rparr> = Some (fst (flags_of as), a')
        \<and> argv a' = p # snd (flags_of as) \<and> curarg a' = None" for v using 2 False by simp
    have "argnext \<lparr>argv = p # a # as, curarg = Some [], arg_value = v\<rparr> = (Some c, \<lparr>argv = p # as, curarg = Some cs, arg_value = None\<rparr>)"
      using False c by (simp add: argnext_def shift_args_def Let_def)
    then show ?thesis using all_flags_curarg [OF IH, of cs None] False c by (subst all_flags.simps) auto
  qed
qed

text \<open>The loop over the flags of a program ends; it gives the letters of the flags in order and leaves exactly the other
  arguments: flags stop at the first argument without a dash, before a single dash and behind two of them.\<close>

theorem argnext_flags:
  "\<exists>a. all_flags (argstart (p # as)) = Some (fst (flags_of as), a) \<and> argv a = p # snd (flags_of as)"
proof (cases as)
  case Nil
  then show ?thesis by (subst all_flags.simps) (simp add: argstart_def argnext_def)
next
  case (Cons b bs)
  then have "argstart (p # as) = \<lparr>argv = p # as, curarg = Some [], arg_value = None\<rparr>" by (simp add: argstart_def)
  then show ?thesis using all_flags_from [of p as None] by auto
qed

text \<open>The value of a flag is the rest of its argument or the next argument, and asking again gives the same one.\<close>

lemma argvalue_stable: "argvalue a = (Some v, a') \<Longrightarrow> argvalue a' = (Some v, a')"
  by (auto simp: argvalue_def argnextvalue_def shift_args_def Let_def split: option.splits if_splits)

end
