(* ===== verification/Printfmt.thy ===== *)
theory Printfmt
  imports Strings
begin

text \<open>
  Formatted output (\<open>lib/printfmt.c\<close>). The output of \<open>vprintfmt\<close> is the list of the characters
  it passes to \<open>putch\<close>, the variable arguments are the list of 32-bit words on the stack, and the
  format and the strings it refers to live in memory. A run that does not stop or that takes an
  argument that was not passed is \<open>None\<close>. Field widths and precisions are integers (their
  overflow is undefined in C).
\<close>

section \<open>Numbers\<close>

definition hex_digit :: "u64 \<Rightarrow> u32" where
  "hex_digit d = [48, 49, 50, 51, 52, 53, 54, 55, 56, 57, 97, 98, 99, 100, 101, 102] ! unat d"

partial_function (option) printnum :: "u64 \<Rightarrow> u64 \<Rightarrow> int \<Rightarrow> u32 \<Rightarrow> u32 list option" where
  "printnum num base width padc =
     do { pre \<leftarrow> (if num \<ge> base then printnum (num div base) base (width - 1) padc
                  else Some (replicate (nat (width - 1)) padc));
          Some (pre @ [hex_digit (num mod base)]) }"

text \<open>\<open>va_arg\<close> of one word, of a \<open>long long\<close>, and the choice by \<open>lflag\<close>.\<close>

fun va_arg :: "u32 list \<Rightarrow> (u32 \<times> u32 list) option" where
  "va_arg [] = None"
| "va_arg (a # ap) = Some (a, ap)"

fun va_arg64 :: "u32 list \<Rightarrow> (u64 \<times> u32 list) option" where
  "va_arg64 (lo # hi # ap) = Some (ucast lo OR push_bit 32 (ucast hi), ap)"
| "va_arg64 ap = None"

definition getuint :: "u32 list \<Rightarrow> nat \<Rightarrow> (u64 \<times> u32 list) option" where
  "getuint ap lflag =
     (if lflag \<ge> 2 then va_arg64 ap else do { (a, ap1) \<leftarrow> va_arg ap; Some (ucast a, ap1) })"

definition getint :: "u32 list \<Rightarrow> nat \<Rightarrow> (u64 \<times> u32 list) option" where
  "getint ap lflag =
     (if lflag \<ge> 2 then va_arg64 ap else do { (a, ap1) \<leftarrow> va_arg ap; Some (scast a, ap1) })"

section \<open>Conversion specifications\<close>

record Spec =
  sp_padc :: u32
  sp_width :: int
  sp_precision :: int
  sp_lflag :: nat
  sp_altflag :: bool

definition spec_init :: Spec where
  "spec_init = \<lparr>sp_padc = 32, sp_width = -1, sp_precision = -1, sp_lflag = 0, sp_altflag = False\<rparr>"

definition process_precision :: "int \<Rightarrow> Spec \<Rightarrow> Spec" where
  "process_precision prec sp =
     (if sp_width sp < 0 then sp\<lparr>sp_width := prec, sp_precision := -1\<rparr> else sp\<lparr>sp_precision := prec\<rparr>)"

text \<open>The digits of a width; \<open>ch\<close> is the digit just read.\<close>

partial_function (option) scan_num :: "mem \<Rightarrow> u8 \<Rightarrow> u32 \<Rightarrow> int \<Rightarrow> (int \<times> u32) option" where
  "scan_num m ch fmt prec =
     (let prec1 = prec * 10 + uint ch - 48; c = m fmt
      in if c < 48 \<or> c > 57 then Some (prec1, fmt) else scan_num m c (fmt + 1) prec1)"

text \<open>The flags after \<open>%\<close> (the label \<open>reswitch\<close>), up to the conversion character.\<close>

partial_function (option) scan_spec ::
    "mem \<Rightarrow> u32 \<Rightarrow> u32 list \<Rightarrow> Spec \<Rightarrow> (u8 \<times> u32 \<times> u32 list \<times> Spec) option" where
  "scan_spec m fmt ap sp =
     (let ch = m fmt; fmt1 = fmt + 1
      in if ch = 45 then scan_spec m fmt1 ap (sp\<lparr>sp_padc := 45\<rparr>)
         else if ch = 48 then scan_spec m fmt1 ap (sp\<lparr>sp_padc := 48\<rparr>)
         else if 49 \<le> ch \<and> ch \<le> 57 then
           do { (prec, fmt2) \<leftarrow> scan_num m ch fmt1 0; scan_spec m fmt2 ap (process_precision prec sp) }
         else if ch = 42 then
           do { (a, ap1) \<leftarrow> va_arg ap; scan_spec m fmt1 ap1 (process_precision (sint a) sp) }
         else if ch = 46 then
           scan_spec m fmt1 ap (if sp_width sp < 0 then sp\<lparr>sp_width := 0\<rparr> else sp)
         else if ch = 35 then scan_spec m fmt1 ap (sp\<lparr>sp_altflag := True\<rparr>)
         else if ch = 108 then scan_spec m fmt1 ap (sp\<lparr>sp_lflag := sp_lflag sp + 1\<rparr>)
         else Some (ch, fmt1, ap, sp))"

section \<open>Conversions\<close>

text \<open>A string literal as a memory in which it stands at address 0.\<close>

definition lit_mem :: "u8 list \<Rightarrow> mem" where
  "lit_mem bs = (\<lambda>a. if unat a < length bs then bs ! unat a else 0)"

definition bytes_of :: "string \<Rightarrow> u8 list" where
  "bytes_of cs = map of_char cs"

text \<open>The loop of \<open>%s\<close>: a \<open>char\<close> is sign-extended when it is passed on.\<close>

partial_function (option) str_loop ::
    "mem \<Rightarrow> u32 \<Rightarrow> bool \<Rightarrow> int \<Rightarrow> int \<Rightarrow> u32 list \<Rightarrow> (int \<times> u32 list) option" where
  "str_loop m p altflag precision width out =
     (let ch = m p; prec1 = (if precision < 0 then precision else precision - 1)
      in if ch \<noteq> 0 \<and> (precision < 0 \<or> prec1 \<ge> 0)
         then str_loop m (p + 1) altflag prec1 (width - 1)
                (out @ [if altflag \<and> (ch < 32 \<or> ch > 126) then 63 else scast ch])
         else Some (width, out))"

definition put_str :: "mem \<Rightarrow> u32 \<Rightarrow> Spec \<Rightarrow> u32 list option" where
  "put_str m p sp =
     (let pads = (if sp_width sp > 0 \<and> sp_padc sp \<noteq> 45
                  then sp_width sp - sint (strnlen m p (of_int (sp_precision sp))) else 0);
          width = (if sp_width sp > 0 \<and> sp_padc sp \<noteq> 45 then min pads 0 else sp_width sp)
      in do { (w, out) \<leftarrow> str_loop m p (sp_altflag sp) (sp_precision sp) width
                            (replicate (nat pads) (sp_padc sp));
              Some (out @ replicate (nat w) 32) })"

definition put_num :: "u64 \<Rightarrow> u64 \<Rightarrow> Spec \<Rightarrow> u32 list option" where
  "put_num num base sp = printnum num base (sp_width sp) (sp_padc sp)"

definition put_int :: "u64 \<Rightarrow> Spec \<Rightarrow> u32 list option" where
  "put_int num sp =
     (if sint num < 0 then do { out \<leftarrow> put_num (- num) 10 sp; Some (45 # out) } else put_num num 10 sp)"

definition error_string :: "int \<Rightarrow> string option" where
  "error_string err =
     (if 1 \<le> err \<and> err < MAXERROR then Some
        ([''unspecified error'', ''bad environment'', ''invalid parameter'', ''out of memory'',
          ''out of environments'', ''segmentation fault'', ''env is not recving'',
          ''unexpected end of file'', ''no free space on disk'', ''too many files are open'',
          ''file or block not found'', ''invalid path'', ''file already exists'',
          ''file is not a valid executable'', ''operation not supported''] ! nat (err - 1))
      else None)"

text \<open>\<open>%e\<close>, with the two nested calls of \<open>printfmt\<close>; \<open>- err\<close> overflows for the least integer.\<close>

definition put_error :: "u32 \<Rightarrow> u32 list option" where
  "put_error a =
     (let err = \<bar>sint a\<bar>
      in if sint a = - 2147483648 then None
         else case error_string err of
           None \<Rightarrow> do { out \<leftarrow> put_int (of_int err) spec_init;
                        Some (map ucast (bytes_of ''error '') @ out) }
         | Some str \<Rightarrow> put_str (lit_mem (bytes_of str)) 0 spec_init)"

text \<open>The unrecognized escape: back to just after the \<open>%\<close>.\<close>

partial_function (option) back_to_percent :: "mem \<Rightarrow> u32 \<Rightarrow> u32 option" where
  "back_to_percent m fmt = (if m (fmt - 1) = 37 then Some fmt else back_to_percent m (fmt - 1))"

definition convert ::
    "mem \<Rightarrow> u8 \<Rightarrow> u32 \<Rightarrow> u32 list \<Rightarrow> Spec \<Rightarrow> (u32 \<times> u32 list \<times> u32 list) option" where
  "convert m ch fmt ap sp =
     (if ch = 99 then do { (a, ap1) \<leftarrow> va_arg ap; Some (fmt, ap1, [a]) }
      else if ch = 101 then do { (a, ap1) \<leftarrow> va_arg ap; out \<leftarrow> put_error a; Some (fmt, ap1, out) }
      else if ch = 115 then
        do { (p, ap1) \<leftarrow> va_arg ap;
             out \<leftarrow> (if p = 0 then put_str (lit_mem (bytes_of ''(null)'')) 0 sp else put_str m p sp);
             Some (fmt, ap1, out) }
      else if ch = 100 then
        do { (num, ap1) \<leftarrow> getint ap (sp_lflag sp); out \<leftarrow> put_int num sp; Some (fmt, ap1, out) }
      else if ch = 117 then
        do { (num, ap1) \<leftarrow> getuint ap (sp_lflag sp); out \<leftarrow> put_num num 10 sp; Some (fmt, ap1, out) }
      else if ch = 111 then
        do { (num, ap1) \<leftarrow> getuint ap (sp_lflag sp); out \<leftarrow> put_num num 8 sp; Some (fmt, ap1, out) }
      else if ch = 112 then
        do { (p, ap1) \<leftarrow> va_arg ap; out \<leftarrow> put_num (ucast p) 16 sp; Some (fmt, ap1, 48 # 120 # out) }
      else if ch = 120 then
        do { (num, ap1) \<leftarrow> getuint ap (sp_lflag sp); out \<leftarrow> put_num num 16 sp; Some (fmt, ap1, out) }
      else if ch = 37 then Some (fmt, ap, [37])
      else do { fmt1 \<leftarrow> back_to_percent m (fmt - 1); Some (fmt1, ap, [37]) })"

section \<open>The main loop\<close>

partial_function (option) vprintfmt :: "mem \<Rightarrow> u32 \<Rightarrow> u32 list \<Rightarrow> u32 list \<Rightarrow> u32 list option" where
  "vprintfmt m fmt ap out =
     (let ch = m fmt
      in if ch = 0 then Some out
         else if ch \<noteq> 37 then vprintfmt m (fmt + 1) ap (out @ [ucast ch])
         else do { (c, fmt1, ap1, sp) \<leftarrow> scan_spec m (fmt + 1) ap spec_init;
                   (fmt2, ap2, o1) \<leftarrow> convert m c fmt1 ap1 sp;
                   vprintfmt m fmt2 ap2 (out @ o1) })"

section \<open>Printing to a buffer\<close>

record sprintbuf =
  sb_buf :: u32
  sb_ebuf :: u32
  sb_cnt :: u32

definition sprintputch :: "u32 \<Rightarrow> sprintbuf \<times> mem \<Rightarrow> sprintbuf \<times> mem" where
  "sprintputch ch = (\<lambda>(b, m).
     let b1 = b\<lparr>sb_cnt := sb_cnt b + 1\<rparr>
     in if sb_buf b1 < sb_ebuf b1 then (b1\<lparr>sb_buf := sb_buf b1 + 1\<rparr>, m(sb_buf b1 := ucast ch)) else (b1, m))"

text \<open>The buffer does not overlap the format and the strings it refers to. \<open>n\<close> is an \<open>int\<close>.\<close>

definition vsnprintf :: "mem \<Rightarrow> u32 \<Rightarrow> u32 \<Rightarrow> u32 \<Rightarrow> u32 list \<Rightarrow> (mem \<times> (error + u32)) option" where
  "vsnprintf m buf n fmt ap =
     (if buf = 0 \<or> sint n < 1 then Some (m, Inl E_INVAL)
      else do { out \<leftarrow> vprintfmt m fmt ap [];
                let (b, m1) = fold sprintputch out (\<lparr>sb_buf = buf, sb_ebuf = buf + n - 1, sb_cnt = 0\<rparr>, m);
                Some (m1(sb_buf b := 0), Inr (sb_cnt b)) })"

section \<open>Digits\<close>

fun digits :: "nat \<Rightarrow> nat \<Rightarrow> nat list" where
  "digits b n = (if b < 2 \<or> n < b then [n] else digits b (n div b) @ [n mod b])"

declare digits.simps [simp del]

lemma digits_less: "2 \<le> b \<Longrightarrow> d \<in> set (digits b n) \<Longrightarrow> d < b"
  by (induction b n rule: digits.induct) (subst (asm) (2) digits.simps, auto split: if_splits)

lemma digits_value: "2 \<le> b \<Longrightarrow> foldl (\<lambda>v d. v * b + d) 0 (digits b n) = n"
  by (induction b n rule: digits.induct) (subst digits.simps, auto)

lemma digits_not_Nil: "digits b n \<noteq> []"
  by (subst digits.simps) simp

text \<open>\<open>printnum\<close> pads to the width and prints the digits.\<close>

lemma printnum_spec:
  assumes "2 \<le> unat base"
  shows "printnum num base width padc = Some (replicate (nat (width - int (length (digits (unat base) (unat num))))) padc
    @ map (\<lambda>d. hex_digit (of_nat d)) (digits (unat base) (unat num)))"
proof (induction "unat num" arbitrary: num width rule: less_induct)
  case less
  have m: "(of_nat (unat num mod unat base) :: u64) = num mod base"
    by (simp flip: unat_mod_distrib)
  show ?case
  proof (cases "num < base")
    case True
    then have "digits (unat base) (unat num) = [unat num]"
      by (subst digits.simps) (simp add: word_less_nat_alt)
    moreover from True have "num mod base = num"
      by (simp add: word_unat_eq_iff unat_mod_distrib word_less_nat_alt)
    moreover from True have "\<not> base \<le> num" by simp
    ultimately show ?thesis by (subst printnum.simps) simp
  next
    case False
    then have ge: "unat base \<le> unat num" by (simp add: word_less_nat_alt)
    have dv: "unat (num div base) = unat num div unat base" by (rule unat_div_distrib)
    have lt: "unat (num div base) < unat num" using ge assms unfolding dv by (intro div_less_dividend) auto
    have "digits (unat base) (unat num) = digits (unat base) (unat (num div base)) @ [unat num mod unat base]"
      unfolding dv using ge assms by (subst digits.simps) simp
    moreover have "base \<le> num" using False by simp
    ultimately show ?thesis using less [OF lt, of "width - 1"] m
      by (subst printnum.simps) (simp add: algebra_simps)
  qed
qed

lemma digit_roundtrip:
  assumes "d < 16"
  shows "digit_value (ucast (hex_digit (of_nat d))) = Some (of_nat d)" and "ucast (hex_digit (of_nat d)) \<noteq> (0 :: u8)"
    and "ucast (hex_digit (of_nat d)) \<notin> {9, 32, 43, 45, 120 :: u8}"
proof -
  have "d \<in> {0, 1, 2, 3, 4, 5, 6, 7, 8, 9, 10, 11, 12, 13, 14, 15}" using assms unfolding insert_iff empty_iff by presburger
  then show "digit_value (ucast (hex_digit (of_nat d))) = Some (of_nat d)" "ucast (hex_digit (of_nat d)) \<noteq> (0 :: u8)"
    "ucast (hex_digit (of_nat d)) \<notin> {9, 32, 43, 45, 120 :: u8}"
    by (elim insertE; simp add: hex_digit_def digit_value_def)+
qed

section \<open>Printed numbers are read back\<close>

lemma foldl_digits:
  assumes "\<forall>d\<in>set ds. d < 16" and "base = of_nat b"
  shows "foldl (\<lambda>v c. v * base + the (digit_value c)) (of_nat v) (map (\<lambda>d. ucast (hex_digit (of_nat d))) ds)
    = of_nat (foldl (\<lambda>v d. v * b + d) v ds)"
  using assms(1)
proof (induction ds arbitrary: v)
  case (Cons d ds)
  have "of_nat v * base + (of_nat d :: u32) = of_nat (v * b + d)" using assms(2) by simp
  moreover have "d < 16" using Cons.prems by simp
  ultimately show ?case using Cons.IH [of "v * b + d"] Cons.prems by (simp add: digit_roundtrip del: of_nat_add of_nat_mult)
qed simp

lemma strtol_unsigned:
  assumes str: "cstr m p (map (\<lambda>d. ucast (hex_digit (of_nat d))) (digits b n))"
    and b: "b = 8 \<or> b = 10 \<or> b = 16"
  shows "strtol_digits m (of_nat b) p 0 = Some (p + of_nat (length (digits b n)), of_nat n)"
    and "m p \<notin> {9, 32, 43, 45}" and "m p = 48 \<Longrightarrow> m (p + 1) \<noteq> 120"
proof -
  let ?ds = "digits b n" and ?c = "\<lambda>d. ucast (hex_digit (of_nat d)) :: u8"
  have db: "\<forall>d\<in>set ?ds. d < b" using digits_less [of b _ n] b by auto
  then have d16: "\<forall>d\<in>set ?ds. d < 16" using b by fastforce
  have sb: "sint (of_nat d :: u32) = int d" if "d \<le> 16" for d
    using that by (simp add: signed_of_nat signed_take_bit_int_eq_self)
  have "\<forall>c\<in>set (map ?c ?ds). \<exists>d. digit_value c = Some d \<and> sint d < sint (of_nat b :: u32)"
  proof
    fix c assume "c \<in> set (map ?c ?ds)"
    then obtain d where d: "d \<in> set ?ds" "c = ?c d" by auto
    with d16 db have "d < 16" "d < b" by auto
    then show "\<exists>d. digit_value c = Some d \<and> sint d < sint (of_nat b :: u32)"
      using b sb [of d] sb [of b] d(2) by (auto simp: digit_roundtrip)
  qed
  from strtol_digits_spec [OF str this, of 0]
  show "strtol_digits m (of_nat b) p 0 = Some (p + of_nat (length ?ds), of_nat n)"
    using foldl_digits [OF d16 refl, of b 0] digits_value [of b n] b by auto
  obtain d ds where ds: "?ds = d # ds" using digits_not_Nil by (cases ?ds) auto
  then have d: "d < 16" using d16 by simp
  with str ds show "m p \<notin> {9, 32, 43, 45}" using digit_roundtrip(3) [OF d] by auto
  show "m (p + 1) \<noteq> 120" if "m p = 48"
  proof (cases ds)
    case Nil
    then show ?thesis using str ds by simp
  next
    case (Cons d' ds')
    then have "d' < 16" using d16 ds by simp
    from digit_roundtrip(3) [OF this] str ds Cons show ?thesis by auto
  qed
qed

lemma skip_blanks_none: "m p \<notin> {9, 32} \<Longrightarrow> skip_blanks m p = Some p"
  by (subst skip_blanks.simps) auto

lemma strtol_number:
  assumes str: "cstr m q (map (\<lambda>d. ucast (hex_digit (of_nat d))) (digits b n))"
    and b: "b = 8 \<or> b = 10 \<or> b = 16"
  shows "strtol m q (of_nat b) = Some (q + of_nat (length (digits b n)), of_nat n)"
    and "m p = 45 \<Longrightarrow> q = p + 1 \<Longrightarrow> strtol m p (of_nat b) = Some (q + of_nat (length (digits b n)), - of_nat n)"
  using strtol_unsigned [OF str b] b
  by (auto simp: strtol_def skip_blanks_none Let_def)

lemma put_num_spec:
  assumes "2 \<le> unat base"
  shows "put_num num base spec_init = Some (map (\<lambda>d. hex_digit (of_nat d)) (digits (unat base) (unat num)))"
proof -
  have "0 < length (digits (unat base) (unat num))" using digits_not_Nil by simp
  then show ?thesis unfolding put_num_def printnum_spec [OF assms] by (simp add: spec_init_def)
qed

lemma ucast_of_int64: "ucast (word_of_int k :: u64) = (word_of_int k :: u32)"
  by (rule bit_word_eqI) (simp add: bit_simps)

lemma ucast_scast64:
  "ucast (scast a :: u64) = (a :: u32)" "ucast (- scast a :: u64) = (- a :: u32)"
proof -
  have "scast a = (word_of_int (sint a) :: u64)" "- scast a = (word_of_int (- sint a) :: u64)" by simp_all
  then show "ucast (scast a :: u64) = a" "ucast (- scast a :: u64) = - a"
    by (simp_all only: ucast_of_int64) simp_all
qed

lemma ucast_ucast64: "ucast (ucast a :: u64) = (a :: u32)"
  by (rule bit_word_eqI) (simp add: bit_simps)

lemma vprintfmt_single:
  assumes "cstr m fmt [37, c]" and "c \<in> {100, 117, 111, 120}"
  shows "vprintfmt m fmt ap [] = do { (f, ap1, out) \<leftarrow> convert m c (fmt + 2) ap spec_init; Some out }"
proof -
  have s: "scan_spec m (fmt + 1) ap spec_init = Some (c, fmt + 2, ap, spec_init)"
    using assms by (subst scan_spec.simps) (auto simp: Let_def add.assoc)
  have e: "vprintfmt m (fmt + 2) ap' out = Some out" for ap' out
    using assms(1) by (subst vprintfmt.simps) (simp add: add.assoc)
  have f: "convert m c (fmt + 2) ap spec_init = Some (f, ap1, out) \<Longrightarrow> f = fmt + 2" for f ap1 out
    using assms(2) by (auto simp: convert_def split: bind_splits)
  show ?thesis
  proof (cases "convert m c (fmt + 2) ap spec_init")
    case None
    then show ?thesis using assms(1) s by (subst vprintfmt.simps) simp
  next
    case (Some r)
    then obtain ap1 out where "r = (fmt + 2, ap1, out)" using f by (cases r) auto
    with Some show ?thesis using assms(1) s e by (subst vprintfmt.simps) simp
  qed
qed

section \<open>The buffer is not overrun\<close>

lemma sprintputch_step:
  "sprintputch ch (\<lparr>sb_buf = p, sb_ebuf = e, sb_cnt = c\<rparr>, m) =
     (if unat p < unat e then (\<lparr>sb_buf = p + 1, sb_ebuf = e, sb_cnt = c + 1\<rparr>, m(p := ucast ch))
      else (\<lparr>sb_buf = p, sb_ebuf = e, sb_cnt = c + 1\<rparr>, m))"
  by (simp add: sprintputch_def Let_def word_less_nat_alt)

lemma sprintputch_fold:
  assumes "fold sprintputch out (\<lparr>sb_buf = p, sb_ebuf = e, sb_cnt = c\<rparr>, m) = (b, m1)" and "unat p \<le> unat e"
  shows "sb_cnt b = c + of_nat (length out) \<and> m1 = mem_put p (map ucast (take (unat e - unat p) out)) m
    \<and> sb_buf b = p + of_nat (min (unat e - unat p) (length out))"
  using assms
proof (induction out arbitrary: p c m)
  case (Cons ch out)
  show ?case
  proof (cases "unat p < unat e")
    case True
    then have p1: "unat (p + 1) = unat p + 1" using unat_u32_less [of e] by (simp add: unat_word_ariths)
    then have d: "unat e - unat p = Suc (unat e - unat (p + 1))" using True by simp
    have "fold sprintputch out (\<lparr>sb_buf = p + 1, sb_ebuf = e, sb_cnt = c + 1\<rparr>, m(p := ucast ch)) = (b, m1)"
      using Cons.prems(1) True by (simp add: sprintputch_step)
    from Cons.IH [OF this] True p1 show ?thesis unfolding d by (simp add: add.assoc fun_upd_def)
  next
    case False
    then have "fold sprintputch out (\<lparr>sb_buf = p, sb_ebuf = e, sb_cnt = c + 1\<rparr>, m) = (b, m1)"
      using Cons.prems(1) by (simp add: sprintputch_step)
    from Cons.IH [OF this] False Cons.prems(2) show ?thesis by (simp add: add.assoc)
  qed
qed auto

section \<open>Properties\<close>

text \<open>C29. What \<open>printf\<close> prints for an integer with \<open>%d\<close>, \<open>%u\<close>, \<open>%o\<close> or \<open>%x\<close>, \<open>strtol\<close>
  reads back with the base of the conversion, for every 32-bit value, consuming exactly the
  characters that were printed.\<close>

theorem format_parse_roundtrip:
  assumes fmt: "cstr m fmt [37, c]" and c: "(c, b) \<in> {(100, 10), (117, 10), (111, 8), (120, 16)}"
  shows "\<exists>out. vprintfmt m fmt [a] [] = Some out
    \<and> (\<forall>m' p. cstr m' p (map ucast out) \<longrightarrow> strtol m' p (of_nat b) = Some (p + of_nat (length out), a))"
proof -
  have b: "b = 8 \<or> b = 10 \<or> b = 16" using c by auto
  then have ub: "unat (of_nat b :: u64) = b" by auto
  note v = vprintfmt_single [OF fmt, of "[a]"]
  let ?out = "\<lambda>n. map (\<lambda>d. hex_digit (of_nat d)) (digits b n)"
  have num: "put_num num (of_nat b) spec_init = Some (?out (unat num))" for num
    using put_num_spec [of "of_nat b" num] b ub by auto
  show ?thesis
  proof (cases "c = 100 \<and> sint (scast a :: u64) < 0")
    case True
    then have b10: "b = 10" using c by auto
    let ?n = "unat (- scast a :: u64)"
    have "vprintfmt m fmt [a] [] = Some (45 # ?out ?n)"
      using True num [of "- scast a"] b10
      by (subst v) (simp_all add: convert_def getint_def put_int_def spec_init_def)
    moreover have "of_nat ?n = - a"
      by (simp add: ucast_scast64)
    then have "strtol m' p (of_nat b) = Some (p + of_nat (length (45 # ?out ?n)), a)"
      if "cstr m' p (map ucast (45 # ?out ?n))" for m' p
      using strtol_number(2) [of m' "p + 1" b ?n p] that b by (simp add: comp_def add.assoc)
    ultimately show ?thesis by blast
  next
    case False
    obtain num :: u64 where num': "vprintfmt m fmt [a] [] = Some (?out (unat num))" "ucast num = a"
    proof (cases "c = 100")
      case True
      then have "vprintfmt m fmt [a] [] = Some (?out (unat (scast a :: u64)))"
        using False c num [of "scast a"] by (subst v) (auto simp: convert_def getint_def put_int_def spec_init_def)
      then show thesis by (rule that) (simp add: ucast_scast64)
    next
      case False
      then have "vprintfmt m fmt [a] [] = Some (?out (unat (ucast a :: u64)))"
        using c num [of "ucast a"] by (subst v) (auto simp: convert_def getuint_def spec_init_def)
      then show thesis by (rule that) (simp add: ucast_ucast64)
    qed
    have "strtol m' p (of_nat b) = Some (p + of_nat (length (?out (unat num))), a)"
      if "cstr m' p (map ucast (?out (unat num)))" for m' p
      using strtol_number(1) [of m' p b "unat num"] that b num'(2) by (simp add: comp_def)
    with num'(1) show ?thesis by blast
  qed
qed

theorem format_parse_roundtrip_witness:
  "\<exists>out. vprintfmt (mem_put 100 [37, 100, 0] (\<lambda>_. 1)) 100 [- 42] [] = Some out
    \<and> (\<forall>m' p. cstr m' p (map ucast out) \<longrightarrow> strtol m' p (of_nat 10) = Some (p + of_nat (length out), - 42))"
  by (rule format_parse_roundtrip [where c = 100]) simp_all

text \<open>C30. \<open>vsnprintf\<close> with a buffer of \<open>n > 0\<close> bytes stores the longest prefix of the output that
  leaves room for the terminating zero, stores the zero after it, writes nothing outside the
  \<open>n\<close> bytes, and returns the length of the whole output; a null buffer or a length below one
  gives \<open>-E_INVAL\<close> and writes nothing.\<close>

theorem vsnprintf_bounded:
  assumes "vprintfmt m fmt ap [] = Some out" and "unat buf + unat n \<le> 4294967296"
  shows "vsnprintf m buf n fmt ap =
      (if buf = 0 \<or> sint n < 1 then Some (m, Inl E_INVAL)
       else Some (mem_put buf (map ucast (take (unat n - 1) out) @ [0]) m, Inr (of_nat (length out))))
    \<and> (\<forall>a r m1. vsnprintf m buf n fmt ap = Some (m1, r) \<and> a \<notin> span buf (unat n) \<longrightarrow> m1 a = m a)"
proof -
  let ?put = "map ucast (take (unat n - 1) out) @ [0 :: u8]"
  have eq: "vsnprintf m buf n fmt ap = Some (mem_put buf ?put m, Inr (of_nat (length out)))"
    if n: "\<not> (buf = 0 \<or> sint n < 1)"
  proof -
    have n0: "0 < unat n" using n by (cases "n = 0") (auto simp: unat_gt_0)
    have e: "unat (buf + n - 1) = unat buf + (unat n - 1)"
    proof -
      have "n = of_nat (unat n - 1) + 1" using n0 by (simp add: of_nat_diff)
      then have "buf + n - 1 = buf + of_nat (unat n - 1)" by (simp add: algebra_simps)
      moreover have "unat buf + (unat n - 1) < 4294967296" using assms(2) n0 by linarith
      ultimately show ?thesis by (simp only: unat_plus_nat)
    qed
    obtain b m1 where f: "fold sprintputch out (\<lparr>sb_buf = buf, sb_ebuf = buf + n - 1, sb_cnt = 0\<rparr>, m) = (b, m1)"
      by (cases "fold sprintputch out (\<lparr>sb_buf = buf, sb_ebuf = buf + n - 1, sb_cnt = 0\<rparr>, m)")
    note s = sprintputch_fold [OF f, unfolded e]
    show ?thesis
      using n assms(1) f s by (simp add: vsnprintf_def mem_put_append min.commute)
  qed
  have "mem_put buf ?put m a = m a" if "a \<notin> span buf (unat n)" "0 < unat n" for a
  proof (rule mem_put_outside)
    have "length ?put \<le> unat n" using that(2) by simp
    from span_mono [OF this, of buf] that(1) show "a \<notin> span buf (length ?put)" by blast
  qed
  moreover have "0 < unat n" if "\<not> sint n < 1" using that by (cases "n = 0") (auto simp: unat_gt_0)
  moreover have "buf = 0 \<or> sint n < 1 \<Longrightarrow> vsnprintf m buf n fmt ap = Some (m, Inl E_INVAL)"
    by (simp add: vsnprintf_def)
  ultimately show ?thesis using eq by (cases "buf = 0 \<or> sint n < 1") auto
qed

lemma sample_printed: "vprintfmt (mem_put 100 [104, 105, 0] (\<lambda>_. 1)) 100 [] [] = Some [104, 105]"
  by (simp add: vprintfmt.simps)

theorem vsnprintf_bounded_witness:
  "vsnprintf (mem_put 100 [104, 105, 0] (\<lambda>_. 1)) 200 2 100 []
     = Some (mem_put 200 [104, 0] (mem_put 100 [104, 105, 0] (\<lambda>_. 1)), Inr 2)"
proof -
  have "unat (200 :: u32) + unat (2 :: u32) \<le> 4294967296" by simp
  from vsnprintf_bounded [OF sample_printed this] show ?thesis by simp
qed

end
