(* ===== verification/Block_Cache.thy ===== *)
theory Block_Cache
  imports Jos_Prelude
begin

text \<open>
  The block cache of the file system server (\<open>fs/bc.c\<close>): disk block \<open>n\<close> is mapped at
  \<open>DISKMAP + n * BLKSIZE\<close>, loaded by the page fault handler when it is first touched and written
  back by \<open>flush_block\<close>. The locale \<open>block_store\<close> is the contract the file system relies on:
  reads see the last write, and a flush makes it durable.
\<close>

section \<open>Blocks\<close>

definition BLKSIZE :: u32 where "BLKSIZE = 4096"
definition DISKMAP :: u32 where "DISKMAP = 0x10000000"
definition DISKSIZE :: u32 where "DISKSIZE = 0xC0000000"

type_synonym block = "nat \<Rightarrow> u32"

text \<open>The bytes of a block of 1024 words, little endian.\<close>

definition blk_byte :: "block \<Rightarrow> nat \<Rightarrow> u8" where
  "blk_byte blk i = get_byte (i mod 4) (blk (i div 4))"

definition put_blk_byte :: "nat \<Rightarrow> u8 \<Rightarrow> block \<Rightarrow> block" where
  "put_blk_byte i b blk = blk(i div 4 := put_byte (i mod 4) b (blk (i div 4)))"

primrec put_bytes :: "nat \<Rightarrow> u8 list \<Rightarrow> block \<Rightarrow> block" where
  "put_bytes off [] blk = blk"
| "put_bytes off (b # bs) blk = put_bytes (Suc off) bs (put_blk_byte off b blk)"

lemma blk_byte_put: "blk_byte (put_blk_byte i b blk) j = (if j = i then b else blk_byte blk j)"
proof (cases "j div 4 = i div 4")
  case True
  moreover from True have "j mod 4 = i mod 4 \<longleftrightarrow> j = i" by (metis div_mult_mod_eq)
  ultimately show ?thesis by (simp add: blk_byte_def put_blk_byte_def get_put_byte)
next
  case False
  then show ?thesis by (auto simp: blk_byte_def put_blk_byte_def)
qed

lemma blk_byte_put_bytes:
  "blk_byte (put_bytes off bs blk) i =
     (if off \<le> i \<and> i < off + length bs then bs ! (i - off) else blk_byte blk i)"
proof (induction bs arbitrary: off blk)
  case (Cons b bs)
  have n: "off < i \<Longrightarrow> (b # bs) ! (i - off) = bs ! (i - Suc off)" by (simp add: nth_Cons' Suc_diff_Suc)
  show ?case
    using n by (auto simp: Cons.IH blk_byte_put)
qed auto

lemma block_ext:
  assumes "\<And>i. blk_byte blk i = blk_byte blk' i"
  shows "blk = blk'"
proof
  fix j
  show "blk j = blk' j"
  proof (rule bit_word_eqI)
    fix n assume "n < LENGTH(32)"
    then have n: "n div 8 < 4" "n mod 8 < 8" "8 * (n div 8) + n mod 8 = n" by auto
    have "(4 * j + n div 8) div 4 = j" "(4 * j + n div 8) mod 4 = n div 8" using n(1) by simp_all
    with assms [of "4 * j + n div 8"] have "get_byte (n div 8) (blk j) = get_byte (n div 8) (blk' j)"
      by (simp add: blk_byte_def)
    then have "bit (get_byte (n div 8) (blk j)) (n mod 8) = bit (get_byte (n div 8) (blk' j)) (n mod 8)" by simp
    then show "bit (blk j) n = bit (blk' j) n" using n by (simp only: bit_get_byte)
  qed
qed

section \<open>The cache\<close>

text \<open>A mapped block and its dirty bit, and the disk.\<close>

record Cache =
  page :: "nat \<Rightarrow> block option"
  dirty :: "nat \<Rightarrow> bool"
  disk :: "nat \<Rightarrow> block"

text \<open>What the handler consults: \<open>super->s_nblocks\<close> and the bitmap once they are set, the
  disk driver, which may fail on a block, and the memory, which may be exhausted.\<close>

record Bc_env =
  super_nblocks :: "u32 option"
  bitmap_free :: "(u32 \<Rightarrow> bool) option"
  ide_fails :: "u32 \<Rightarrow> bool"
  no_page :: bool

definition beyond_super :: "Bc_env \<Rightarrow> u32 \<Rightarrow> bool" where
  "beyond_super env blockno = (case super_nblocks env of None \<Rightarrow> False | Some n \<Rightarrow> blockno \<ge> n)"

definition diskaddr :: "Bc_env \<Rightarrow> u32 \<Rightarrow> u32 option" where
  "diskaddr env blockno =
     (if blockno = 0 \<or> beyond_super env blockno then None else Some (DISKMAP + blockno * BLKSIZE))"

definition block_of :: "u32 \<Rightarrow> u32" where
  "block_of addr = (addr - DISKMAP) div BLKSIZE"

definition va_is_mapped :: "u32 \<Rightarrow> Cache \<Rightarrow> bool" where
  "va_is_mapped va st \<longleftrightarrow> page st (unat (block_of va)) \<noteq> None"

definition va_is_dirty :: "u32 \<Rightarrow> Cache \<Rightarrow> bool" where
  "va_is_dirty va st \<longleftrightarrow> dirty st (unat (block_of va))"

definition bc_pgfault :: "Bc_env \<Rightarrow> u32 \<Rightarrow> Cache \<Rightarrow> Cache option" where
  "bc_pgfault env addr st =
     (let blockno = block_of addr; b = unat blockno
      in if addr < DISKMAP \<or> addr \<ge> DISKMAP + DISKSIZE then None
         else if beyond_super env blockno then None
         else if no_page env then None
         else if ide_fails env blockno then None
         else if (case bitmap_free env of None \<Rightarrow> False | Some free \<Rightarrow> free blockno) then None
         else Some (st\<lparr>page := (page st)(b \<mapsto> disk st b), dirty := (dirty st)(b := False)\<rparr>))"

definition flush_block :: "Bc_env \<Rightarrow> u32 \<Rightarrow> Cache \<Rightarrow> Cache option" where
  "flush_block env addr st =
     (let blockno = block_of addr; b = unat blockno
      in if addr < DISKMAP \<or> addr \<ge> DISKMAP + DISKSIZE then None
         else if \<not> va_is_mapped addr st \<or> \<not> va_is_dirty addr st then Some st
         else if ide_fails env blockno then None
         else Some (st\<lparr>disk := (disk st)(b := the (page st b)), dirty := (dirty st)(b := False)\<rparr>))"

text \<open>A load and a store by the server at an address of the disk map: the page fault handler runs
  first when the block is not mapped, and a store sets the dirty bit.\<close>

definition touch :: "Bc_env \<Rightarrow> u32 \<Rightarrow> Cache \<Rightarrow> Cache option" where
  "touch env addr st = (if va_is_mapped addr st then Some st else bc_pgfault env addr st)"

definition load_block :: "Bc_env \<Rightarrow> u32 \<Rightarrow> Cache \<Rightarrow> (block \<times> Cache) option" where
  "load_block env addr st =
     do { st1 \<leftarrow> touch env addr st; Some (the (page st1 (unat (block_of addr))), st1) }"

definition store_block :: "Bc_env \<Rightarrow> u32 \<Rightarrow> (block \<Rightarrow> block) \<Rightarrow> Cache \<Rightarrow> Cache option" where
  "store_block env addr f st =
     (let b = unat (block_of addr)
      in do { st1 \<leftarrow> touch env addr st;
              Some (st1\<lparr>page := (page st1)(b \<mapsto> f (the (page st1 b))), dirty := (dirty st1)(b := True)\<rparr>) })"

definition unmap_block :: "u32 \<Rightarrow> Cache \<Rightarrow> Cache" where
  "unmap_block addr st =
     (let b = unat (block_of addr) in st\<lparr>page := (page st)(b := None), dirty := (dirty st)(b := False)\<rparr>)"

section \<open>The self test\<close>

text \<open>The string the test writes over the super block, with its terminating zero;
  \<open>struct Super\<close> has 264 bytes.\<close>

definition smash :: "u8 list" where
  "smash = [79, 79, 80, 83, 33, 10, 0]"

definition SUPERSIZE :: nat where
  "SUPERSIZE = 264"

definition assert_that :: "bool \<Rightarrow> Cache \<Rightarrow> Cache option" where
  "assert_that P st = (if P then Some st else None)"

text \<open>One round of the test: back up, smash, flush at \<open>flush_addr\<close>, unmap, read back, repair.
  \<open>strict\<close> asserts that the flush has cleared the dirty bit.\<close>

definition check_bc_round :: "Bc_env \<Rightarrow> u32 \<Rightarrow> bool \<Rightarrow> Cache \<Rightarrow> Cache option" where
  "check_bc_round env off strict st =
     do { a \<leftarrow> diskaddr env 1;
          (blk, st1) \<leftarrow> load_block env a st;
          let backup = map (blk_byte blk) [0..<SUPERSIZE];
          st2 \<leftarrow> store_block env a (put_bytes 0 smash) st1;
          st3 \<leftarrow> flush_block env (a + off) st2;
          st4 \<leftarrow> assert_that (va_is_mapped a st3) st3;
          st5 \<leftarrow> assert_that (strict \<longrightarrow> \<not> va_is_dirty a st4) st4;
          let st6 = unmap_block a st5;
          st7 \<leftarrow> assert_that (\<not> va_is_mapped a st6) st6;
          (blk2, st8) \<leftarrow> load_block env a st7;
          st9 \<leftarrow> assert_that (map (blk_byte blk2) [0..<7] = smash) st8;
          st10 \<leftarrow> store_block env a (put_bytes 0 backup) st9;
          flush_block env a st10 }"

definition check_bc :: "Bc_env \<Rightarrow> Cache \<Rightarrow> Cache option" where
  "check_bc env st = do { st1 \<leftarrow> check_bc_round env 0 True st; check_bc_round env 20 False st1 }"

definition bc_init :: "Bc_env \<Rightarrow> Cache \<Rightarrow> Cache option" where
  "bc_init env st =
     do { st1 \<leftarrow> check_bc env st; a \<leftarrow> diskaddr env 1; (_, st2) \<leftarrow> load_block env a st1; Some st2 }"

section \<open>The contract of a block store\<close>

locale block_store =
  fixes ok :: "'s \<Rightarrow> bool"
    and valid :: "nat \<Rightarrow> bool"
    and view :: "'s \<Rightarrow> nat \<Rightarrow> block"
    and stable :: "'s \<Rightarrow> nat \<Rightarrow> block"
    and get :: "nat \<Rightarrow> 's \<Rightarrow> (block \<times> 's) option"
    and put :: "nat \<Rightarrow> (block \<Rightarrow> block) \<Rightarrow> 's \<Rightarrow> 's option"
    and flush :: "nat \<Rightarrow> 's \<Rightarrow> 's option"
    and discard :: "nat \<Rightarrow> 's \<Rightarrow> 's"
  assumes get_law: "ok s \<Longrightarrow> valid b \<Longrightarrow> \<exists>s'. get b s = Some (view s b, s') \<and> ok s' \<and> view s' = view s \<and> stable s' = stable s"
    and put_law: "ok s \<Longrightarrow> valid b \<Longrightarrow>
      \<exists>s'. put b f s = Some s' \<and> ok s' \<and> view s' = (view s)(b := f (view s b)) \<and> stable s' = stable s"
    and flush_law: "ok s \<Longrightarrow> valid b \<Longrightarrow>
      \<exists>s'. flush b s = Some s' \<and> ok s' \<and> view s' = view s \<and> stable s' = (stable s)(b := view s b)"
    and discard_law: "ok s \<Longrightarrow> valid b \<Longrightarrow>
      ok (discard b s) \<and> view (discard b s) = (view s)(b := stable s b) \<and> stable (discard b s) = stable s"
begin

text \<open>A block that was flushed survives the loss of its cached copy.\<close>

lemma durable:
  assumes "ok s" and "valid b"
  shows "\<exists>s1 s2 s3. put b f s = Some s1 \<and> flush b s1 = Some s2
    \<and> get b (discard b s2) = Some (f (view s b), s3) \<and> ok s3
    \<and> view s3 = (view s)(b := f (view s b)) \<and> stable s3 = (stable s)(b := f (view s b))"
proof -
  obtain s1 where s1: "put b f s = Some s1" "ok s1" "view s1 = (view s)(b := f (view s b))" "stable s1 = stable s"
    using put_law [OF assms] by blast
  obtain s2 where s2: "flush b s1 = Some s2" "ok s2" "view s2 = view s1" "stable s2 = (stable s1)(b := view s1 b)"
    using flush_law [OF s1(2) assms(2)] by blast
  note d = discard_law [OF s2(2) assms(2)]
  obtain s3 where "get b (discard b s2) = Some (view (discard b s2) b, s3)" "ok s3"
    "view s3 = view (discard b s2)" "stable s3 = stable (discard b s2)"
    using get_law [of "discard b s2" b] d assms(2) by blast
  with s1 s2 d show ?thesis by (intro exI [of _ s1] exI [of _ s2] exI [of _ s3]) simp
qed

end

section \<open>The cache is a block store\<close>

definition coherent :: "Cache \<Rightarrow> bool" where
  "coherent st \<longleftrightarrow> (\<forall>b blk. page st b = Some blk \<and> \<not> dirty st b \<longrightarrow> blk = disk st b)
     \<and> (\<forall>b. dirty st b \<longrightarrow> page st b \<noteq> None)"

definition contents :: "Cache \<Rightarrow> nat \<Rightarrow> block" where
  "contents st b = (case page st b of Some blk \<Rightarrow> blk | None \<Rightarrow> disk st b)"

definition block_va :: "nat \<Rightarrow> u32" where
  "block_va b = DISKMAP + of_nat b * BLKSIZE"

text \<open>The blocks the server may touch: inside the file system and in use.\<close>

definition usable :: "Bc_env \<Rightarrow> nat \<Rightarrow> bool" where
  "usable env b \<longleftrightarrow> 0 < b \<and> b < 786432 \<and> \<not> beyond_super env (of_nat b)
     \<and> (case bitmap_free env of None \<Rightarrow> True | Some free \<Rightarrow> \<not> free (of_nat b))
     \<and> \<not> no_page env \<and> \<not> ide_fails env (of_nat b)"

lemma unat_eq_of_nat_u32: "unat w = n \<Longrightarrow> w = (of_nat n :: u32)"
  by auto

lemma block_va_range:
  assumes "b < 786432" and "off < 4096"
  shows "unat (block_va b + of_nat off) = 268435456 + b * 4096 + off"
  using assms by (simp add: block_va_def DISKMAP_def BLKSIZE_def unat_word_ariths unat_of_nat)

lemma block_of_va:
  assumes "b < 786432" and "off < 4096"
  shows "block_of (block_va b + of_nat off) = of_nat b"
    and "\<not> block_va b + of_nat off < DISKMAP" and "\<not> block_va b + of_nat off \<ge> DISKMAP + DISKSIZE"
proof -
  note u = block_va_range [OF assms]
  have "unat (block_va b + of_nat off - DISKMAP) = b * 4096 + off"
    using u by (simp add: DISKMAP_def unat_sub word_le_nat_alt)
  then have "unat (block_of (block_va b + of_nat off)) = b"
    using assms by (simp add: block_of_def unat_div_distrib BLKSIZE_def)
  then show "block_of (block_va b + of_nat off) = of_nat b" by (metis unat_eq_of_nat_u32)
  show "\<not> block_va b + of_nat off < DISKMAP" "\<not> block_va b + of_nat off \<ge> DISKMAP + DISKSIZE"
    using u assms by (simp_all add: DISKMAP_def DISKSIZE_def word_less_nat_alt word_le_nat_alt)
qed

lemma usable_va:
  assumes "usable env b" and "off < 4096"
  shows "unat (block_of (block_va b + of_nat off)) = b"
  using block_of_va(1) [of b off] assms by (simp add: usable_def unat_of_nat)

lemma diskaddr_usable: "usable env b \<Longrightarrow> diskaddr env (of_nat b) = Some (block_va b)"
  by (auto simp: diskaddr_def usable_def block_va_def word_of_nat_eq_0_iff dest: dvd_imp_le)

lemma contents_upd [simp]:
  "contents (st\<lparr>page := (page st)(b \<mapsto> x), dirty := d\<rparr>) = (contents st)(b := x)"
  "contents (st\<lparr>page := (page st)(b := None), dirty := d\<rparr>) = (contents st)(b := disk st b)"
  by (auto simp: contents_def fun_eq_iff split: option.split)

lemma touch_spec:
  assumes co: "coherent st" and us: "usable env b" and off: "off < 4096"
  obtains st' where "touch env (block_va b + of_nat off) st = Some st'" and "coherent st'"
    and "contents st' = contents st" and "disk st' = disk st" and "page st' b = Some (contents st b)"
proof (cases "page st b")
  case (Some blk)
  then show thesis using usable_va [OF us off] co
    by (intro that [of st]) (simp_all add: touch_def va_is_mapped_def contents_def)
next
  case None
  let ?st = "st\<lparr>page := (page st)(b \<mapsto> disk st b), dirty := (dirty st)(b := False)\<rparr>"
  have b: "b < 786432" using us by (simp add: usable_def)
  note v = block_of_va [OF b off]
  have "touch env (block_va b + of_nat off) st = bc_pgfault env (block_va b + of_nat off) st"
    using None usable_va [OF us off] by (simp add: touch_def va_is_mapped_def)
  also have "\<dots> = Some ?st"
    using us v b by (auto simp: bc_pgfault_def usable_def Let_def unat_of_nat split: option.splits)
  finally show thesis
  proof (rule that)
    show "coherent ?st" using co by (auto simp: coherent_def)
    have "contents st b = disk st b" using None by (simp add: contents_def)
    then show "contents ?st = contents st" by (simp add: fun_upd_idem)
    show "page ?st b = Some (contents st b)" using None by (simp add: contents_def)
  qed simp
qed

lemma load_block_spec:
  assumes "coherent st" and "usable env b"
  shows "\<exists>st'. load_block env (block_va b) st = Some (contents st b, st') \<and> coherent st'
    \<and> contents st' = contents st \<and> disk st' = disk st"
proof -
  obtain st' where st': "touch env (block_va b + of_nat 0) st = Some st'" "coherent st'"
    "contents st' = contents st" "disk st' = disk st" "page st' b = Some (contents st b)"
    by (rule touch_spec [OF assms, of 0]) simp_all
  then show ?thesis using usable_va [OF assms(2), of 0] by (simp add: load_block_def)
qed

lemma store_block_spec:
  assumes "coherent st" and "usable env b"
  shows "\<exists>st'. store_block env (block_va b) f st = Some st' \<and> coherent st'
    \<and> contents st' = (contents st)(b := f (contents st b)) \<and> disk st' = disk st
    \<and> page st' b \<noteq> None \<and> dirty st' b"
proof -
  obtain st' where st': "touch env (block_va b + of_nat 0) st = Some st'" "coherent st'"
    "contents st' = contents st" "disk st' = disk st" "page st' b = Some (contents st b)"
    by (rule touch_spec [OF assms, of 0]) simp_all
  let ?st = "st'\<lparr>page := (page st')(b \<mapsto> f (contents st b)), dirty := (dirty st')(b := True)\<rparr>"
  have "store_block env (block_va b) f st = Some ?st"
    using st'(1,5) usable_va [OF assms(2), of 0] by (simp add: store_block_def Let_def)
  moreover have "coherent ?st" using st'(2) by (auto simp: coherent_def)
  moreover have "contents ?st = (contents st)(b := f (contents st b))"
    using st'(3) by simp
  ultimately show ?thesis using st'(4) by (intro exI [of _ ?st]) simp
qed

lemma flush_block_spec:
  assumes "coherent st" and "usable env b" and "off < 4096"
  shows "\<exists>st'. flush_block env (block_va b + of_nat off) st = Some st' \<and> coherent st'
    \<and> contents st' = contents st \<and> disk st' = (disk st)(b := contents st b)
    \<and> page st' = page st \<and> \<not> dirty st' b"
proof -
  have b: "b < 786432" using assms by (simp add: usable_def)
  note v = block_of_va [OF b assms(3)] and ub = usable_va [OF assms(2,3)]
  show ?thesis
  proof (cases "dirty st b")
    case True
    then obtain blk where blk: "page st b = Some blk" using assms(1) by (auto simp: coherent_def)
    let ?st = "st\<lparr>disk := (disk st)(b := blk), dirty := (dirty st)(b := False)\<rparr>"
    have "flush_block env (block_va b + of_nat off) st = Some ?st"
      using True blk v ub assms(2)
      by (simp add: flush_block_def Let_def va_is_mapped_def va_is_dirty_def usable_def)
    moreover have "coherent ?st" using assms(1) blk by (auto simp: coherent_def)
    moreover have "contents ?st = contents st"
      using blk by (auto simp: contents_def fun_eq_iff split: option.split)
    ultimately show ?thesis using blk by (intro exI [of _ ?st]) (simp add: contents_def)
  next
    case False
    then have "contents st b = disk st b"
      using assms(1) by (auto simp: coherent_def contents_def split: option.split)
    moreover have "flush_block env (block_va b + of_nat off) st = Some st"
      using False v ub by (simp add: flush_block_def Let_def va_is_dirty_def)
    ultimately show ?thesis using False assms(1) by (intro exI [of _ st]) (simp add: fun_upd_idem)
  qed
qed

lemma unmap_block_spec:
  assumes "coherent st" and "usable env b"
  shows "coherent (unmap_block (block_va b) st)
    \<and> contents (unmap_block (block_va b) st) = (contents st)(b := disk st b)
    \<and> disk (unmap_block (block_va b) st) = disk st \<and> page (unmap_block (block_va b) st) b = None"
  using assms usable_va [OF assms(2), of 0] by (auto simp: unmap_block_def Let_def coherent_def)

interpretation bc: block_store coherent "usable env" contents disk "\<lambda>b. load_block env (block_va b)"
  "\<lambda>b. store_block env (block_va b)" "\<lambda>b. flush_block env (block_va b)" "\<lambda>b. unmap_block (block_va b)" for env
proof unfold_locales
  show "\<exists>s'. flush_block env (block_va b) s = Some s' \<and> coherent s' \<and> contents s' = contents s
      \<and> disk s' = (disk s)(b := contents s b)" if "coherent s" "usable env b" for s b
    using flush_block_spec [OF that, of 0] by auto
qed (use load_block_spec store_block_spec unmap_block_spec in blast)+

lemma length_smash: "length smash = 7"
  by (simp add: smash_def)

lemma restored: "put_bytes 0 (map (blk_byte blk) [0..<SUPERSIZE]) (put_bytes 0 smash blk) = blk"
proof (rule block_ext)
  have "length smash \<le> SUPERSIZE" by (simp add: length_smash SUPERSIZE_def)
  then show "blk_byte (put_bytes 0 (map (blk_byte blk) [0..<SUPERSIZE]) (put_bytes 0 smash blk)) i = blk_byte blk i" for i
    by (auto simp: blk_byte_put_bytes)
qed

lemma check_bc_round_spec:
  assumes co: "coherent st" and us: "usable env 1" and off: "off < 4096"
  shows "\<exists>st'. check_bc_round env (of_nat off) strict st = Some st' \<and> coherent st'
    \<and> contents st' = contents st \<and> disk st' = (disk st)(1 := contents st 1)"
proof -
  let ?blk = "contents st 1"
  have a: "diskaddr env 1 = Some (block_va 1)" using diskaddr_usable [OF us] by simp
  have ub: "unat (block_of (block_va 1)) = 1" using usable_va [OF us, of 0] by simp
  obtain s1 where s1: "load_block env (block_va 1) st = Some (?blk, s1)" "coherent s1" "contents s1 = contents st"
    "disk s1 = disk st" using load_block_spec [OF co us] by blast
  obtain s2 where s2: "store_block env (block_va 1) (put_bytes 0 smash) s1 = Some s2" "coherent s2"
    "contents s2 = (contents s1)(1 := put_bytes 0 smash (contents s1 1))" "disk s2 = disk s1"
    "page s2 1 \<noteq> None" using store_block_spec [OF s1(2) us] by blast
  obtain s3 where s3: "flush_block env (block_va 1 + of_nat off) s2 = Some s3" "coherent s3"
    "contents s3 = contents s2" "disk s3 = (disk s2)(1 := contents s2 1)" "page s3 = page s2" "\<not> dirty s3 1"
    using flush_block_spec [OF s2(2) us off] by blast
  let ?s6 = "unmap_block (block_va 1) s3"
  note u = unmap_block_spec [OF s3(2) us]
  have c6: "contents ?s6 1 = put_bytes 0 smash ?blk" using u s3 s2 s1 by simp
  obtain s8 where s8: "load_block env (block_va 1) ?s6 = Some (contents ?s6 1, s8)" "coherent s8"
    "contents s8 = contents ?s6" "disk s8 = disk ?s6" using load_block_spec [OF _ us] u by blast
  have cmp: "map (blk_byte (contents ?s6 1)) [0..<7] = smash"
    unfolding c6 by (rule nth_equalityI) (simp_all add: blk_byte_put_bytes length_smash)
  let ?backup = "map (blk_byte ?blk) [0..<SUPERSIZE]"
  obtain s10 where s10: "store_block env (block_va 1) (put_bytes 0 ?backup) s8 = Some s10" "coherent s10"
    "contents s10 = (contents s8)(1 := put_bytes 0 ?backup (contents s8 1))" "disk s10 = disk s8"
    using store_block_spec [OF s8(2) us] by blast
  obtain s11 where s11: "flush_block env (block_va 1) s10 = Some s11" "coherent s11"
    "contents s11 = contents s10" "disk s11 = (disk s10)(1 := contents s10 1)"
    using flush_block_spec [OF s10(2) us, of 0] by auto
  have c10: "contents s10 = contents st"
  proof -
    have "contents s8 = (contents st)(1 := put_bytes 0 smash ?blk)" using s8(3) u s3(3,4) s2(3) s1(3) by simp
    then have "contents s10 = (contents st)(1 := put_bytes 0 ?backup (put_bytes 0 smash ?blk))" using s10(3) by simp
    then show ?thesis unfolding restored by simp
  qed
  have "check_bc_round env (of_nat off) strict st = Some s11"
  proof -
    have asserts: "assert_that (va_is_mapped (block_va 1) s3) s3 = Some s3"
      "assert_that (strict \<longrightarrow> \<not> va_is_dirty (block_va 1) s3) s3 = Some s3"
      "assert_that (\<not> va_is_mapped (block_va 1) ?s6) ?s6 = Some ?s6"
      "assert_that (map (blk_byte (contents ?s6 1)) [0..<7] = smash) s8 = Some s8"
      using s2(5) s3(5,6) u cmp ub by (simp_all only: assert_that_def va_is_mapped_def va_is_dirty_def) simp_all
    show ?thesis
      by (simp only: check_bc_round_def a s1(1) s2(1) s3(1) asserts s8(1) s10(1) s11(1)
          bind.bind_lunit Let_def prod.case)
  qed
  moreover have "disk s11 = (disk st)(1 := contents st 1)"
  proof -
    have "disk ?s6 = disk s3" using u by blast
    then show ?thesis by (simp only: s11(4) s10(4) c10 s8(4) s3(4) s2(4) s1(4) fun_upd_upd)
  qed
  moreover have "contents s11 = contents st" using s11(3) c10 by (rule trans)
  ultimately show ?thesis using s11(2) by (intro exI [of _ s11] conjI)
qed

section \<open>Properties\<close>

text \<open>C33. Durability of the cache: a block that is written and flushed is read back with the new
  contents after its cached copy has been dropped; the disk holds the new contents and every
  other block is as before. The block must be inside the file system and in use, and the
  driver must not fail on it.\<close>

theorem flush_durable:
  assumes "coherent st" and "usable env b"
  shows "\<exists>s1 s2 s3. store_block env (block_va b) f st = Some s1 \<and> flush_block env (block_va b) s1 = Some s2
    \<and> load_block env (block_va b) (unmap_block (block_va b) s2) = Some (f (contents st b), s3) \<and> coherent s3
    \<and> contents s3 = (contents st)(b := f (contents st b)) \<and> disk s3 = (disk st)(b := f (contents st b))"
  by (rule bc.durable [OF assms])

definition sample_cache :: Cache where
  "sample_cache = \<lparr>page = (\<lambda>_. None), dirty = (\<lambda>_. False), disk = (\<lambda>b i. of_nat (b + i))\<rparr>"

definition sample_env :: Bc_env where
  "sample_env = \<lparr>super_nblocks = None, bitmap_free = None, ide_fails = (\<lambda>_. False), no_page = False\<rparr>"

lemma sample_cache_ok: "coherent sample_cache" "usable sample_env 1"
  by (simp_all add: coherent_def sample_cache_def usable_def sample_env_def beyond_super_def)

theorem flush_durable_witness:
  "\<exists>s1 s2 s3. store_block sample_env (block_va 1) (put_bytes 0 smash) sample_cache = Some s1
    \<and> flush_block sample_env (block_va 1) s1 = Some s2
    \<and> load_block sample_env (block_va 1) (unmap_block (block_va 1) s2)
        = Some (put_bytes 0 smash (contents sample_cache 1), s3) \<and> coherent s3
    \<and> contents s3 = (contents sample_cache)(1 := put_bytes 0 smash (contents sample_cache 1))
    \<and> disk s3 = (disk sample_cache)(1 := put_bytes 0 smash (contents sample_cache 1))"
  by (rule flush_durable [OF sample_cache_ok])

text \<open>The self test of the cache passes both of its rounds, the second with an unaligned
  address, and leaves every block as it was.\<close>

theorem check_bc_passes:
  assumes "coherent st" and "usable env 1"
  shows "\<exists>st'. check_bc env st = Some st' \<and> coherent st' \<and> contents st' = contents st
    \<and> disk st' = (disk st)(1 := contents st 1)"
proof -
  obtain s1 where s1: "check_bc_round env 0 True st = Some s1" "coherent s1" "contents s1 = contents st"
    "disk s1 = (disk st)(1 := contents st 1)" using check_bc_round_spec [OF assms, of 0 True] by auto
  obtain s2 where "check_bc_round env 20 False s1 = Some s2" "coherent s2" "contents s2 = contents s1"
    "disk s2 = (disk s1)(1 := contents s1 1)" using check_bc_round_spec [OF s1(2) assms(2), of 20 False] by auto
  with s1 show ?thesis by (simp add: check_bc_def)
qed

theorem check_bc_passes_witness:
  "\<exists>st'. check_bc sample_env sample_cache = Some st' \<and> coherent st' \<and> contents st' = contents sample_cache
    \<and> disk st' = (disk sample_cache)(1 := contents sample_cache 1)"
  by (rule check_bc_passes [OF sample_cache_ok])

end
