(* ===== verification/Fs.thy ===== *)
theory Fs
  imports Block_Cache
begin

text \<open>
  The file system (\<open>fs/fs.c\<close>): super block, free block bitmap, files with direct and indirect
  blocks, directories, paths, and reading and writing. The state is the contents of the disk
  map as the block cache presents it (\<open>Block_Cache.contents\<close>) and of the disk; \<open>flush_block\<close> acts on it
  as the contract \<open>block_store\<close> says. A \<open>struct File\<close> pointer is a block and a word index in it.
  A panic is \<open>None\<close>.
\<close>

section \<open>State and layout\<close>

record Fs =
  blk :: "nat \<Rightarrow> block"
  dsk :: "nat \<Rightarrow> block"

type_synonym fptr = "nat \<times> nat"

definition NDIRECT :: nat where "NDIRECT = 10"
definition NINDIRECT :: nat where "NINDIRECT = 1024"
definition BLKFILES :: nat where "BLKFILES = 16"
definition BLKBITSIZE :: nat where "BLKBITSIZE = 32768"
definition MAXNAMELEN :: nat where "MAXNAMELEN = 128"
definition FTYPE_DIR :: u32 where "FTYPE_DIR = 1"
definition FS_MAGIC :: u32 where "FS_MAGIC = 0x4A0530AE"

definition s_magic :: "Fs \<Rightarrow> u32" where "s_magic st = blk st 1 0"
definition s_nblocks :: "Fs \<Rightarrow> u32" where "s_nblocks st = blk st 1 1"
definition s_root :: fptr where "s_root = (1, 2)"

text \<open>Fields of \<open>struct File\<close>; a file name is bytes 0 to 127 of it.\<close>

definition f_word :: "fptr \<Rightarrow> nat \<Rightarrow> Fs \<Rightarrow> u32" where
  "f_word f k st = blk st (fst f) (snd f + k)"

definition f_size :: "fptr \<Rightarrow> Fs \<Rightarrow> u32" where "f_size f st = f_word f 32 st"
definition f_type :: "fptr \<Rightarrow> Fs \<Rightarrow> u32" where "f_type f st = f_word f 33 st"
definition f_direct :: "fptr \<Rightarrow> nat \<Rightarrow> Fs \<Rightarrow> u32" where "f_direct f i st = f_word f (34 + i) st"
definition f_indirect :: "fptr \<Rightarrow> Fs \<Rightarrow> u32" where "f_indirect f st = f_word f 44 st"

definition f_name_byte :: "fptr \<Rightarrow> nat \<Rightarrow> Fs \<Rightarrow> u8" where
  "f_name_byte f i st = blk_byte (blk st (fst f)) (4 * snd f + i)"

definition set_blk :: "nat \<Rightarrow> block \<Rightarrow> Fs \<Rightarrow> Fs" where
  "set_blk b x st = st\<lparr>blk := (blk st)(b := x)\<rparr>"

definition write_word :: "nat \<Rightarrow> nat \<Rightarrow> u32 \<Rightarrow> Fs \<Rightarrow> Fs" where
  "write_word b i v st = set_blk b ((blk st b)(i := v)) st"

definition flush :: "nat \<Rightarrow> Fs \<Rightarrow> Fs" where
  "flush b st = st\<lparr>dsk := (dsk st)(b := blk st b)\<rparr>"

definition addr_of :: "u32 \<Rightarrow> Fs \<Rightarrow> nat option" where
  "addr_of blockno st = (if blockno = 0 \<or> blockno \<ge> s_nblocks st then None else Some (unat blockno))"

definition check_super :: "Fs \<Rightarrow> Fs option" where
  "check_super st =
     (if s_magic st \<noteq> FS_MAGIC then None
      else if s_nblocks st > DISKSIZE div BLKSIZE then None else Some st)"

section \<open>Free block bitmap\<close>

text \<open>\<open>bitmap\<close> points to block 2.\<close>

definition bitmap :: "nat \<Rightarrow> Fs \<Rightarrow> u32" where
  "bitmap i st = blk st (2 + i div 1024) (i mod 1024)"

definition set_bitmap :: "nat \<Rightarrow> u32 \<Rightarrow> Fs \<Rightarrow> Fs" where
  "set_bitmap i v st = write_word (2 + i div 1024) (i mod 1024) v st"

definition block_is_free :: "u32 \<Rightarrow> Fs \<Rightarrow> bool" where
  "block_is_free blockno st \<longleftrightarrow>
     (if blockno \<ge> s_nblocks st then False
      else bitmap (unat (blockno div 32)) st AND push_bit (unat (blockno mod 32)) 1 \<noteq> 0)"

definition free_block :: "u32 \<Rightarrow> Fs \<Rightarrow> Fs option" where
  "free_block blockno st =
     (if blockno = 0 then None
      else let i = unat (blockno div 32)
           in Some (set_bitmap i (bitmap i st OR push_bit (unat (blockno mod 32)) 1) st))"

definition alloc_block :: "Fs \<Rightarrow> (error + u32) \<times> Fs" where
  "alloc_block st =
     (case find (\<lambda>i. block_is_free (of_nat i) st) [0..<unat (s_nblocks st)] of
        None \<Rightarrow> (Inl E_NO_DISK, st)
      | Some i \<Rightarrow>
          let st1 = set_bitmap (i div 32) (bitmap (i div 32) st AND NOT (push_bit (i mod 32) 1)) st
          in (Inr (of_nat i), flush (2 + i div 32 div 1024) st1))"

definition check_bitmap :: "Fs \<Rightarrow> Fs option" where
  "check_bitmap st =
     (if \<exists>i\<in>set [0..<(unat (s_nblocks st) + BLKBITSIZE - 1) div BLKBITSIZE]. block_is_free (2 + of_nat i) st
      then None
      else if block_is_free 0 st then None
      else if block_is_free 1 st then None else Some st)"

section \<open>Blocks of a file\<close>

type_synonym 'a fres = "((error + 'a) \<times> Fs) option"

text \<open>The result of \<open>alloc_block\<close> as the unsigned number in which the callers store it: the
  comparison with zero that follows never holds.\<close>

definition alloc_block_unsigned :: "Fs \<Rightarrow> u32 \<times> Fs" where
  "alloc_block_unsigned st =
     (case alloc_block st of
        (Inl e, st1) \<Rightarrow> (word_of_int (- error_code e), st1)
      | (Inr b, st1) \<Rightarrow> (b, st1))"

definition zero_block :: "nat \<Rightarrow> Fs \<Rightarrow> Fs" where
  "zero_block b st = set_blk b (\<lambda>_. 0) st"

text \<open>Allocating a block, storing its number at \<open>slot\<close> and clearing it.\<close>

definition alloc_into :: "nat \<times> nat \<Rightarrow> Fs \<Rightarrow> Fs option" where
  "alloc_into slot st =
     (let (n, st1) = alloc_block_unsigned st; st2 = write_word (fst slot) (snd slot) n st1
      in do { b \<leftarrow> addr_of n st2; Some (zero_block b st2) })"

definition file_block_walk :: "fptr \<Rightarrow> u32 \<Rightarrow> bool \<Rightarrow> Fs \<Rightarrow> (nat \<times> nat) fres" where
  "file_block_walk f filebno alloc st =
     (if unat filebno \<ge> NDIRECT + NINDIRECT then Some (Inl E_INVAL, st)
      else if unat filebno < NDIRECT then Some (Inr (fst f, snd f + 34 + unat filebno), st)
      else if f_indirect f st = 0 \<and> \<not> alloc then Some (Inl E_NOT_FOUND, st)
      else do { st1 \<leftarrow> (if f_indirect f st = 0 \<and> alloc then alloc_into (fst f, snd f + 44) st else Some st);
                b \<leftarrow> addr_of (f_indirect f st1) st1;
                Some (Inr (b, unat filebno - NDIRECT), st1) })"

definition file_get_block :: "fptr \<Rightarrow> u32 \<Rightarrow> Fs \<Rightarrow> nat fres" where
  "file_get_block f filebno st =
     do { (r, st1) \<leftarrow> file_block_walk f filebno True st;
          (case r of
             Inl _ \<Rightarrow> Some (Inl E_INVAL, st1)
           | Inr slot \<Rightarrow>
               do { st2 \<leftarrow> (if blk st1 (fst slot) (snd slot) = 0 then alloc_into slot st1 else Some st1);
                    b \<leftarrow> addr_of (blk st2 (fst slot) (snd slot)) st2;
                    Some (Inr b, st2) }) }"

section \<open>Directories\<close>

text \<open>\<open>strcmp(f->f_name, name) == 0\<close> for a name without zero bytes.\<close>

definition name_is :: "fptr \<Rightarrow> u8 list \<Rightarrow> Fs \<Rightarrow> bool" where
  "name_is f name st \<longleftrightarrow> map (\<lambda>i. f_name_byte f i st) [0..<Suc (length name)] = name @ [0]"

text \<open>The number of blocks of a directory, whose size is a multiple of the block size.\<close>

definition dir_nblock :: "fptr \<Rightarrow> Fs \<Rightarrow> nat" where
  "dir_nblock dir st = unat (word_of_int (sint (f_size dir st) div 4096) :: u32)"

primrec dir_lookup_loop :: "nat \<Rightarrow> nat \<Rightarrow> fptr \<Rightarrow> u8 list \<Rightarrow> Fs \<Rightarrow> fptr fres" where
  "dir_lookup_loop 0 i dir name st = Some (Inl E_NOT_FOUND, st)"
| "dir_lookup_loop (Suc k) i dir name st =
     do { (r, st1) \<leftarrow> file_get_block dir (of_nat i) st;
          (case r of
             Inl e \<Rightarrow> Some (Inl e, st1)
           | Inr b \<Rightarrow>
               (case find (\<lambda>j. name_is (b, 64 * j) name st1) [0..<BLKFILES] of
                  Some j \<Rightarrow> Some (Inr (b, 64 * j), st1)
                | None \<Rightarrow> dir_lookup_loop k (Suc i) dir name st1)) }"

definition dir_lookup :: "fptr \<Rightarrow> u8 list \<Rightarrow> Fs \<Rightarrow> fptr fres" where
  "dir_lookup dir name st =
     (if f_size dir st mod BLKSIZE \<noteq> 0 then None else dir_lookup_loop (dir_nblock dir st) 0 dir name st)"

text \<open>The result is the free slot, or the number of blocks that were searched.\<close>

primrec dir_alloc_loop :: "nat \<Rightarrow> nat \<Rightarrow> fptr \<Rightarrow> Fs \<Rightarrow> (fptr + nat) fres" where
  "dir_alloc_loop 0 i dir st = Some (Inr (Inr i), st)"
| "dir_alloc_loop (Suc k) i dir st =
     do { (r, st1) \<leftarrow> file_get_block dir (of_nat i) st;
          (case r of
             Inl e \<Rightarrow> Some (Inl e, st1)
           | Inr b \<Rightarrow>
               (case find (\<lambda>j. f_name_byte (b, 64 * j) 0 st1 = 0) [0..<BLKFILES] of
                  Some j \<Rightarrow> Some (Inr (Inl (b, 64 * j)), st1)
                | None \<Rightarrow> dir_alloc_loop k (Suc i) dir st1)) }"

definition dir_alloc_file :: "fptr \<Rightarrow> Fs \<Rightarrow> fptr fres" where
  "dir_alloc_file dir st =
     (if f_size dir st mod BLKSIZE \<noteq> 0 then None
      else do { (r, st1) \<leftarrow> dir_alloc_loop (dir_nblock dir st) 0 dir st;
                (case r of
                   Inl e \<Rightarrow> Some (Inl e, st1)
                 | Inr (Inl f) \<Rightarrow> Some (Inr f, st1)
                 | Inr (Inr i) \<Rightarrow>
                     do { (r2, st2) \<leftarrow> file_get_block dir (of_nat i)
                            (write_word (fst dir) (snd dir + 32) (f_size dir st1 + BLKSIZE) st1);
                          (case r2 of
                             Inl e \<Rightarrow> Some (Inl e, st2)
                           | Inr b \<Rightarrow> Some (Inr (b, 0), st2)) }) })"

section \<open>Paths\<close>

text \<open>A path is the list of its bytes; 47 is the slash.\<close>

definition skip_slash :: "u8 list \<Rightarrow> u8 list" where
  "skip_slash p = dropWhile (\<lambda>c. c = 47) p"

text \<open>The results of \<open>walk_path\<close>: the file or the error, the directory or null, and the last
  element.\<close>

record Walk =
  w_res :: "error + fptr"
  w_dir :: "fptr option"
  w_last :: "u8 list"

lemma skip_slash_shorter:
  "path \<noteq> [] \<Longrightarrow> length (skip_slash (dropWhile (\<lambda>c. c \<noteq> 47) path)) < length path"
proof (cases path)
  case (Cons c cs)
  have "length (skip_slash (dropWhile (\<lambda>c. c \<noteq> 47) cs)) \<le> length cs" "length (skip_slash cs) \<le> length cs"
    unfolding skip_slash_def
    by (meson length_dropWhile_le order_trans)+
  with Cons show ?thesis by (auto simp: skip_slash_def less_Suc_eq_le)
qed simp

function walk_loop :: "fptr option \<Rightarrow> fptr \<Rightarrow> u8 list \<Rightarrow> Fs \<Rightarrow> (Walk \<times> Fs) option" where
  "walk_loop dir f path st =
     (if path = [] then Some (\<lparr>w_res = Inr f, w_dir = dir, w_last = []\<rparr>, st)
      else let name = takeWhile (\<lambda>c. c \<noteq> 47) path; rest = skip_slash (dropWhile (\<lambda>c. c \<noteq> 47) path)
           in if length name \<ge> MAXNAMELEN then Some (\<lparr>w_res = Inl E_BAD_PATH, w_dir = None, w_last = []\<rparr>, st)
              else if f_type f st \<noteq> FTYPE_DIR then Some (\<lparr>w_res = Inl E_NOT_FOUND, w_dir = None, w_last = []\<rparr>, st)
              else case dir_lookup f name st of
                None \<Rightarrow> None
              | Some (Inl e, st1) \<Rightarrow>
                  Some (if e = E_NOT_FOUND \<and> rest = [] then \<lparr>w_res = Inl e, w_dir = Some f, w_last = name\<rparr>
                        else \<lparr>w_res = Inl e, w_dir = None, w_last = []\<rparr>, st1)
              | Some (Inr g, st1) \<Rightarrow> walk_loop (Some f) g rest st1)"
  by auto
termination by (relation "measure (\<lambda>(dir, f, path, st). length path)") (auto simp: skip_slash_shorter)

definition walk_path :: "u8 list \<Rightarrow> Fs \<Rightarrow> (Walk \<times> Fs) option" where
  "walk_path path st = walk_loop None s_root (skip_slash path) st"

section \<open>Sizes and truncation\<close>

text \<open>\<open>(size + BLKSIZE - 1) / BLKSIZE\<close> on a signed size, rounding towards zero.\<close>

definition nblocks_for :: "u32 \<Rightarrow> u32" where
  "nblocks_for sz = (let x = sint sz + 4095 in word_of_int (if x < 0 then - ((- x) div 4096) else x div 4096))"

definition file_free_block :: "fptr \<Rightarrow> u32 \<Rightarrow> Fs \<Rightarrow> unit fres" where
  "file_free_block f filebno st =
     do { (r, st1) \<leftarrow> file_block_walk f filebno False st;
          (case r of
             Inl e \<Rightarrow> Some (Inl e, st1)
           | Inr slot \<Rightarrow>
               if blk st1 (fst slot) (snd slot) \<noteq> 0 then
                 do { st2 \<leftarrow> free_block (blk st1 (fst slot) (snd slot)) st1;
                      Some (Inr (), write_word (fst slot) (snd slot) 0 st2) }
               else Some (Inr (), st1)) }"

primrec free_blocks :: "fptr \<Rightarrow> nat list \<Rightarrow> Fs \<Rightarrow> Fs option" where
  "free_blocks f [] st = Some st"
| "free_blocks f (bno # bnos) st =
     do { (_, st1) \<leftarrow> file_free_block f (of_nat bno) st; free_blocks f bnos st1 }"

definition file_truncate_blocks :: "fptr \<Rightarrow> u32 \<Rightarrow> Fs \<Rightarrow> Fs option" where
  "file_truncate_blocks f newsize st =
     (let old_nblocks = nblocks_for (f_size f st); new_nblocks = nblocks_for newsize
      in do { st1 \<leftarrow> free_blocks f [unat new_nblocks..<unat old_nblocks] st;
              if unat new_nblocks \<le> NDIRECT \<and> f_indirect f st1 \<noteq> 0 then
                do { st2 \<leftarrow> free_block (f_indirect f st1) st1;
                     Some (write_word (fst f) (snd f + 44) 0 st2) }
              else Some st1 })"

definition file_set_size :: "fptr \<Rightarrow> u32 \<Rightarrow> Fs \<Rightarrow> Fs option" where
  "file_set_size f newsize st =
     do { st1 \<leftarrow> (if sint (f_size f st) > sint newsize then file_truncate_blocks f newsize st else Some st);
          Some (flush (fst f) (write_word (fst f) (snd f + 32) newsize st1)) }"

section \<open>Flushing\<close>

primrec flush_blocks :: "fptr \<Rightarrow> nat list \<Rightarrow> Fs \<Rightarrow> Fs option" where
  "flush_blocks f [] st = Some st"
| "flush_blocks f (i # is) st =
     do { (r, st1) \<leftarrow> file_block_walk f (of_nat i) False st;
          st2 \<leftarrow> (case r of
             Inl _ \<Rightarrow> Some st1
           | Inr slot \<Rightarrow>
               if blk st1 (fst slot) (snd slot) = 0 then Some st1
               else do { b \<leftarrow> addr_of (blk st1 (fst slot) (snd slot)) st1; Some (flush b st1) });
          flush_blocks f is st2 }"

definition file_flush :: "fptr \<Rightarrow> Fs \<Rightarrow> Fs option" where
  "file_flush f st =
     do { st1 \<leftarrow> flush_blocks f [0..<nat (sint (nblocks_for (f_size f st)))] st;
          let st2 = flush (fst f) st1;
          if f_indirect f st2 \<noteq> 0 then do { b \<leftarrow> addr_of (f_indirect f st2) st2; Some (flush b st2) }
          else Some st2 }"

definition fs_sync :: "Fs \<Rightarrow> Fs" where
  "fs_sync st = fold flush [1..<unat (s_nblocks st)] st"

section \<open>File operations\<close>

definition file_create :: "u8 list \<Rightarrow> Fs \<Rightarrow> fptr fres" where
  "file_create path st =
     do { (w, st1) \<leftarrow> walk_path path st;
          (case (w_res w, w_dir w) of
             (Inr _, _) \<Rightarrow> Some (Inl E_FILE_EXISTS, st1)
           | (Inl e, None) \<Rightarrow> Some (Inl e, st1)
           | (Inl e, Some dir) \<Rightarrow>
               if e \<noteq> E_NOT_FOUND then Some (Inl e, st1)
               else do { (r, st2) \<leftarrow> dir_alloc_file dir st1;
                         (case r of
                            Inl e2 \<Rightarrow> Some (Inl e2, st2)
                          | Inr f \<Rightarrow>
                              do { st3 \<leftarrow> file_flush dir
                                     (set_blk (fst f) (put_bytes (4 * snd f) (w_last w @ [0]) (blk st2 (fst f))) st2);
                                   Some (Inr f, st3) }) }) }"

definition file_open :: "u8 list \<Rightarrow> Fs \<Rightarrow> fptr fres" where
  "file_open path st = do { (w, st1) \<leftarrow> walk_path path st; Some (w_res w, st1) }"

text \<open>The loop of \<open>file_read\<close> from \<open>pos\<close> to \<open>lim = offset + count\<close>, with the bytes read so far.
  The comparisons are unsigned; a negative position would reach memory before the block.\<close>

partial_function (option) file_read_loop :: "fptr \<Rightarrow> u32 \<Rightarrow> u32 \<Rightarrow> u8 list \<Rightarrow> Fs \<Rightarrow> u8 list fres" where
  "file_read_loop f pos lim buf st =
     (if pos < lim then
        if sint pos < 0 then None
        else do { (r, st1) \<leftarrow> file_get_block f (pos div BLKSIZE) st;
                  (case r of
                     Inl e \<Rightarrow> Some (Inl e, st1)
                   | Inr b \<Rightarrow>
                       (let bn = min (BLKSIZE - pos mod BLKSIZE) (lim - pos)
                        in file_read_loop f (pos + bn) lim
                             (buf @ map (\<lambda>i. blk_byte (blk st1 b) (unat (pos mod BLKSIZE) + i)) [0..<unat bn]) st1)) }
      else Some (Inr buf, st))"

definition file_read :: "fptr \<Rightarrow> u32 \<Rightarrow> u32 \<Rightarrow> Fs \<Rightarrow> u8 list fres" where
  "file_read f cnt offset st =
     (if sint offset \<ge> sint (f_size f st) then Some (Inr [], st)
      else let cnt1 = min cnt (f_size f st - offset)
           in file_read_loop f offset (offset + cnt1) [] st)"

partial_function (option) file_write_loop :: "fptr \<Rightarrow> u32 \<Rightarrow> u32 \<Rightarrow> u8 list \<Rightarrow> Fs \<Rightarrow> unit fres" where
  "file_write_loop f pos lim buf st =
     (if pos < lim then
        if sint pos < 0 then None
        else do { (r, st1) \<leftarrow> file_get_block f (pos div BLKSIZE) st;
                  (case r of
                     Inl e \<Rightarrow> Some (Inl e, st1)
                   | Inr b \<Rightarrow>
                       (let bn = min (BLKSIZE - pos mod BLKSIZE) (lim - pos)
                        in file_write_loop f (pos + bn) lim (drop (unat bn) buf)
                             (set_blk b (put_bytes (unat (pos mod BLKSIZE)) (take (unat bn) buf) (blk st1 b)) st1))) }
      else Some (Inr (), st))"

text \<open>\<open>buf\<close> holds the bytes to write, whose number is \<open>count\<close>.\<close>

definition file_write :: "fptr \<Rightarrow> u8 list \<Rightarrow> u32 \<Rightarrow> Fs \<Rightarrow> u32 fres" where
  "file_write f buf offset st =
     (let cnt = of_nat (length buf)
      in do { st1 \<leftarrow> (if offset + cnt > f_size f st then file_set_size f (offset + cnt) st else Some st);
              (r, st2) \<leftarrow> file_write_loop f offset (offset + cnt) buf st1;
              (case r of Inl e \<Rightarrow> Some (Inl e, st2) | Inr _ \<Rightarrow> Some (Inr cnt, st2)) })"

section \<open>The bitmap as a set of free blocks\<close>

definition free_set :: "Fs \<Rightarrow> nat set" where
  "free_set st = {b. b < unat (s_nblocks st) \<and> bit (bitmap (b div 32) st) (b mod 32)}"

lemma block_is_free_iff: "b < 4294967296 \<Longrightarrow> block_is_free (of_nat b) st \<longleftrightarrow> b \<in> free_set st"
  by (simp add: block_is_free_def free_set_def word_le_nat_alt unat_of_nat unat_div_distrib unat_mod_distrib
      not_le bit_iff_and_push_bit_not_eq_0)

lemma bitmap_slot: "(2 + j div 1024, j mod 1024) = (2 + i div 1024, i mod 1024) \<longleftrightarrow> j = i" for i j :: nat
  by (metis Pair_inject add_left_cancel div_mult_mod_eq)

lemma bitmap_set: "bitmap j (set_bitmap i v st) = (if j = i then v else bitmap j st)"
  using bitmap_slot [of j i] by (auto simp: bitmap_def set_bitmap_def write_word_def set_blk_def)

lemma s_nblocks_write: "(b, i) \<noteq> (1, 1) \<Longrightarrow> s_nblocks (write_word b i v st) = s_nblocks st"
  by (auto simp: s_nblocks_def write_word_def set_blk_def)

lemma s_nblocks_bitmap [simp]: "s_nblocks (set_bitmap i v st) = s_nblocks st"
  by (simp add: set_bitmap_def s_nblocks_write)

lemma flush_simps [simp]:
  "blk (flush b st) = blk st" "s_nblocks (flush b st) = s_nblocks st" "bitmap i (flush b st) = bitmap i st"
  "free_set (flush b st) = free_set st"
  by (simp_all add: flush_def s_nblocks_def bitmap_def free_set_def)

lemma same_bit_slot: "x div 32 = b div 32 \<Longrightarrow> x mod 32 = b mod 32 \<Longrightarrow> x = (b :: nat)"
  by (metis div_mult_mod_eq)

lemma free_set_clear:
  "free_set (set_bitmap (b div 32) (bitmap (b div 32) st AND NOT (push_bit (b mod 32) 1)) st) = free_set st - {b}"
  by (auto simp: free_set_def bitmap_set bit_simps dest: same_bit_slot)

lemma free_set_set:
  "b < unat (s_nblocks st) \<Longrightarrow>
     free_set (set_bitmap (b div 32) (bitmap (b div 32) st OR push_bit (b mod 32) 1) st) = insert b (free_set st)"
  by (auto simp: free_set_def bitmap_set bit_simps dest: same_bit_slot)

lemma free_block_spec:
  assumes "blockno \<noteq> 0" and "blockno < s_nblocks st"
  obtains st' where "free_block blockno st = Some st'" and "free_set st' = insert (unat blockno) (free_set st)"
    and "dsk st' = dsk st" and "\<And>c. c \<noteq> 2 + unat blockno div 32768 \<Longrightarrow> blk st' c = blk st c"
    and "s_nblocks st' = s_nblocks st"
proof (rule that)
  let ?b = "unat blockno"
  let ?st = "set_bitmap (?b div 32) (bitmap (?b div 32) st OR push_bit (?b mod 32) 1) st"
  show "free_block blockno st = Some ?st"
    using assms(1) by (simp add: free_block_def Let_def unat_div_distrib unat_mod_distrib)
  show "free_set ?st = insert ?b (free_set st)" using assms(2) by (intro free_set_set) (simp add: word_less_nat_alt)
  show "blk ?st c = blk st c" if "c \<noteq> 2 + ?b div 32768" for c
    using that by (simp add: set_bitmap_def write_word_def set_blk_def div_mult2_eq [symmetric])
qed (simp_all add: set_bitmap_def write_word_def set_blk_def s_nblocks_def)

lemma find_least:
  assumes "find P [0..<n] = Some b"
  shows "b < n" and "P b" and "\<And>x. x < b \<Longrightarrow> \<not> P x"
  using assms by (auto simp: find_Some_iff)

text \<open>\<open>alloc_block\<close> with a free block takes the lowest one.\<close>

lemma alloc_block_some:
  assumes "free_set st \<noteq> {}"
  obtains st' where "alloc_block st = (Inr (of_nat (Min (free_set st))), st')"
    and "free_set st' = free_set st - {Min (free_set st)}" and "s_nblocks st' = s_nblocks st"
    and "\<And>c. c \<noteq> 2 + Min (free_set st) div 32768 \<Longrightarrow> blk st' c = blk st c"
    and "dsk st' = (dsk st)(2 + Min (free_set st) div 32768 := blk st' (2 + Min (free_set st) div 32768))"
proof -
  let ?n = "unat (s_nblocks st)"
  have fin: "finite (free_set st)" by (simp add: free_set_def)
  have lt: "x < 4294967296" if "x < ?n" for x using that unat_u32_less [of "s_nblocks st"] by simp
  obtain x where x: "x \<in> free_set st" using assms by blast
  then have "x < ?n" "block_is_free (of_nat x) st" using lt [of x] block_is_free_iff [of x st] by (auto simp: free_set_def)
  then have "find (\<lambda>i. block_is_free (of_nat i) st) [0..<?n] \<noteq> None" by (auto simp: find_None_iff)
  then obtain b where f: "find (\<lambda>i. block_is_free (of_nat i) st) [0..<?n] = Some b" by blast
  note l = find_least [OF f]
  have "b = Min (free_set st)"
  proof (rule Min_eqI [OF fin, symmetric])
    show "b \<in> free_set st" using l(1,2) lt block_is_free_iff by blast
    show "b \<le> y" if "y \<in> free_set st" for y
    proof (rule ccontr)
      assume "\<not> b \<le> y"
      then have "\<not> block_is_free (of_nat y) st" "y < ?n" using l(1,3) by simp_all
      then show False using that lt block_is_free_iff by blast
    qed
  qed
  note b = this
  let ?st = "set_bitmap (b div 32) (bitmap (b div 32) st AND NOT (push_bit (b mod 32) 1)) st"
  show thesis
  proof (rule that)
    show "alloc_block st = (Inr (of_nat (Min (free_set st))), flush (2 + b div 32 div 1024) ?st)"
      using f b by (simp add: alloc_block_def Let_def)
    show "free_set (flush (2 + b div 32 div 1024) ?st) = free_set st - {Min (free_set st)}"
      unfolding flush_simps free_set_clear by (simp only: b)
    show "blk (flush (2 + b div 32 div 1024) ?st) c = blk st c" if "c \<noteq> 2 + Min (free_set st) div 32768" for c
      using that b by (simp add: set_bitmap_def write_word_def set_blk_def div_mult2_eq [symmetric])
    show "dsk (flush (2 + b div 32 div 1024) ?st) = (dsk st)(2 + Min (free_set st) div 32768
        := blk (flush (2 + b div 32 div 1024) ?st) (2 + Min (free_set st) div 32768))"
      using b by (simp add: flush_def set_bitmap_def write_word_def set_blk_def div_mult2_eq [symmetric])
  qed simp
qed

lemma alloc_block_none: "free_set st = {} \<Longrightarrow> alloc_block st = (Inl E_NO_DISK, st)"
proof -
  assume e: "free_set st = {}"
  have "\<not> block_is_free (of_nat x) st" if "x < unat (s_nblocks st)" for x
    using e block_is_free_iff [of x st] that unat_u32_less [of "s_nblocks st"] by simp
  then have "find (\<lambda>i. block_is_free (of_nat i) st) [0..<unat (s_nblocks st)] = None" by (simp add: find_None_iff)
  then show ?thesis by (simp add: alloc_block_def)
qed

section \<open>Properties of the bitmap\<close>

text \<open>C35. \<open>alloc_block\<close> returns \<open>-E_NO_DISK\<close> and changes nothing exactly when no block is free;
  otherwise it returns the lowest free block, which is then in use while the state of every
  other block is unchanged, and the bitmap block it changed has been written to the disk.\<close>

theorem alloc_block_exact:
  "case alloc_block st of
     (Inl e, st') \<Rightarrow> free_set st = {} \<and> e = E_NO_DISK \<and> st' = st
   | (Inr b, st') \<Rightarrow> unat b \<in> free_set st \<and> unat b = Min (free_set st)
       \<and> free_set st' = free_set st - {unat b}
       \<and> blk st' = (blk st)(2 + unat b div 32768 := blk st' (2 + unat b div 32768))
       \<and> dsk st' = (dsk st)(2 + unat b div 32768 := blk st' (2 + unat b div 32768))"
proof (cases "free_set st = {}")
  case True
  then show ?thesis by (simp add: alloc_block_none)
next
  case False
  let ?b = "Min (free_set st)"
  have fin: "finite (free_set st)" by (simp add: free_set_def)
  have m: "?b \<in> free_set st" by (rule Min_in [OF fin False])
  have "?b < 4294967296" using m unat_u32_less [of "s_nblocks st"] by (simp add: free_set_def)
  then have u: "unat (of_nat ?b :: u32) = ?b" by (simp add: unat_of_nat)
  obtain st' where "alloc_block st = (Inr (of_nat ?b), st')" "free_set st' = free_set st - {?b}"
    "\<And>c. c \<noteq> 2 + ?b div 32768 \<Longrightarrow> blk st' c = blk st c"
    "dsk st' = (dsk st)(2 + ?b div 32768 := blk st' (2 + ?b div 32768))"
    by (rule alloc_block_some [OF False]) (rule that)
  then show ?thesis using m u by (simp add: fun_eq_iff)
qed

lemma alloc_into_full:
  assumes "free_set st = {}" and "unat (s_nblocks st) \<le> 786432" and "slot \<noteq> (1, 1)"
  shows "alloc_into slot st = None"
proof -
  let ?st = "write_word (fst slot) (snd slot) (- 9) st"
  have "s_nblocks ?st = s_nblocks st" using assms(3) by (intro s_nblocks_write) (cases slot; simp)
  then have "addr_of (- 9) ?st = None" using assms(2) by (simp add: addr_of_def word_le_nat_alt)
  then show ?thesis
    using assms(1) by (simp add: alloc_into_def alloc_block_unsigned_def alloc_block_none)
qed

text \<open>On a full disk a block that has to be allocated makes the server panic: the error of
  \<open>alloc_block\<close> is stored in an unsigned variable, so the test for it never holds and
  \<open>diskaddr\<close> is called with the error code as a block number. The documented result is
  \<open>-E_NO_DISK\<close>.\<close>

theorem full_disk_panics:
  assumes "free_set st = {}" and "unat (s_nblocks st) \<le> 786432" and "fst f = 1 \<longrightarrow> 2 \<le> snd f"
    and "unat filebno < 10 \<and> f_direct f (unat filebno) st = 0
      \<or> 10 \<le> unat filebno \<and> unat filebno < 1034 \<and> f_indirect f st = 0"
  shows "file_get_block f filebno st = None"
proof -
  have "alloc_into (fst f, snd f + 34 + unat filebno) st = None" "alloc_into (fst f, snd f + 44) st = None"
    using assms(3) by (auto intro!: alloc_into_full [OF assms(1,2)])
  then show ?thesis
    using assms(4)
    by (auto simp: file_get_block_def file_block_walk_def NDIRECT_def NINDIRECT_def f_direct_def f_word_def add.assoc)
qed

definition sample_full :: Fs where
  "sample_full = \<lparr>blk = (\<lambda>b i. if b = 1 \<and> i = 1 then 64 else 0), dsk = (\<lambda>_ _. 0)\<rparr>"

theorem full_disk_panics_witness: "file_get_block (1, 2) 10 sample_full = None"
  by (rule full_disk_panics)
    (simp_all add: sample_full_def free_set_def s_nblocks_def bitmap_def f_indirect_def f_word_def)

end
