(* ===== verification/Fs_Inv.thy ===== *)
theory Fs_Inv
  imports Fs
begin

text \<open>
  The invariant of a file of \<open>fs/fs.c\<close> (its block pointers are distinct, allocated and away from
  the super block, the bitmap and the file's own block), the file as a function from positions to
  bytes, and what \<open>file_get_block\<close>, \<open>file_write\<close> and \<open>file_read\<close> do to it.
\<close>

section \<open>The invariant of a file\<close>

text \<open>The number of bitmap blocks, and a block that holds file data, pointers or directory entries.\<close>

definition nbitmap :: "Fs \<Rightarrow> nat" where
  "nbitmap st = (unat (s_nblocks st) + 32767) div 32768"

definition data_block :: "Fs \<Rightarrow> nat \<Rightarrow> bool" where
  "data_block st b \<longleftrightarrow> 2 + nbitmap st \<le> b \<and> b < unat (s_nblocks st)"

text \<open>The pointers of a file, by number: the blocks of the file are 0 to 1033, and pointer 1034 is the
  one to the indirect block. \<open>loc\<close> is the place where a pointer is stored.\<close>

definition ptr :: "fptr \<Rightarrow> nat \<Rightarrow> Fs \<Rightarrow> u32" where
  "ptr f k st = (if k < 10 then f_direct f k st else if k = 1034 then f_indirect f st
     else if f_indirect f st = 0 then 0 else blk st (unat (f_indirect f st)) (k - 10))"

definition loc :: "fptr \<Rightarrow> nat \<Rightarrow> Fs \<Rightarrow> nat \<times> nat" where
  "loc f k st = (if k < 10 then (fst f, snd f + 34 + k) else if k = 1034 then (fst f, snd f + 44)
     else (unat (f_indirect f st), k - 10))"

definition file_ok :: "fptr \<Rightarrow> Fs \<Rightarrow> bool" where
  "file_ok f st \<longleftrightarrow> unat (s_nblocks st) \<le> 786432
     \<and> (\<forall>b\<in>free_set st. data_block st b)
     \<and> (fst f = 1 \<and> 2 \<le> snd f \<or> data_block st (fst f)) \<and> fst f \<notin> free_set st
     \<and> (\<forall>k\<le>1034. ptr f k st \<noteq> 0 \<longrightarrow> data_block st (unat (ptr f k st))
          \<and> unat (ptr f k st) \<notin> free_set st \<and> unat (ptr f k st) \<noteq> fst f)
     \<and> (\<forall>k\<le>1034. \<forall>l\<le>1034. ptr f k st \<noteq> 0 \<and> ptr f k st = ptr f l st \<longrightarrow> k = l)"

text \<open>Byte \<open>p\<close> of the file; a hole reads as zero.\<close>

definition fbyte :: "fptr \<Rightarrow> nat \<Rightarrow> Fs \<Rightarrow> u8" where
  "fbyte f p st = (let s = ptr f (p div 4096) st
     in if s = 0 then 0 else blk_byte (blk st (unat s)) (p mod 4096))"

lemma file_okD:
  assumes "file_ok f st"
  shows "unat (s_nblocks st) \<le> 786432" and "b \<in> free_set st \<Longrightarrow> data_block st b"
    and "fst f = 1 \<and> 2 \<le> snd f \<or> data_block st (fst f)" and "fst f \<notin> free_set st"
    and "k \<le> 1034 \<Longrightarrow> ptr f k st \<noteq> 0 \<Longrightarrow> data_block st (unat (ptr f k st))"
    and "k \<le> 1034 \<Longrightarrow> ptr f k st \<noteq> 0 \<Longrightarrow> unat (ptr f k st) \<notin> free_set st"
    and "k \<le> 1034 \<Longrightarrow> ptr f k st \<noteq> 0 \<Longrightarrow> unat (ptr f k st) \<noteq> fst f"
    and "k \<le> 1034 \<Longrightarrow> l \<le> 1034 \<Longrightarrow> ptr f k st \<noteq> 0 \<Longrightarrow> ptr f k st = ptr f l st \<Longrightarrow> k = l"
  using assms unfolding file_ok_def by blast+

lemma ptr_1034 [simp]: "ptr f 1034 st = f_indirect f st"
  by (simp add: ptr_def)

lemma finite_free_set [simp]: "finite (free_set st)"
  by (simp add: free_set_def)

lemma ptr_indirect: "10 \<le> k \<Longrightarrow> k < 1034 \<Longrightarrow> ptr f k st \<noteq> 0 \<Longrightarrow> f_indirect f st \<noteq> 0"
  by (auto simp: ptr_def split: if_splits)

text \<open>Two pointers of a file never lead to the same block.\<close>

lemma ptr_apart:
  assumes "file_ok f st" and "k \<le> 1034" and "l \<le> 1034" and "k \<noteq> l" and "ptr f k st \<noteq> 0"
  shows "unat (ptr f k st) \<noteq> unat (ptr f l st)"
  using file_okD(8) [OF assms(1,2,3,5)] assms(4) by (metis word_unat_eq_iff)

lemma addr_of_data: "data_block st (unat w) \<Longrightarrow> addr_of w st = Some (unat w)"
  by (auto simp: addr_of_def data_block_def word_le_nat_alt)

lemma free_block_bitmap: "b < unat (s_nblocks st) \<Longrightarrow> b div 32768 < nbitmap st"
  unfolding nbitmap_def by (simp add: div_less_iff_less_mult less_mult_imp_div_less)

lemma free_set_cong:
  assumes "s_nblocks st' = s_nblocks st" and "\<And>c. 2 \<le> c \<Longrightarrow> c < 2 + nbitmap st \<Longrightarrow> blk st' c = blk st c"
  shows "free_set st' = free_set st"
proof -
  have "bitmap (b div 32) st' = bitmap (b div 32) st" if "b < unat (s_nblocks st)" for b
    using assms(2) [of "2 + b div 32 div 1024"] free_block_bitmap [OF that]
    by (simp add: bitmap_def div_mult2_eq [symmetric])
  then show ?thesis using assms(1) by (auto simp: free_set_def)
qed

section \<open>Allocating a block into a slot\<close>

lemma alloc_into_spec:
  assumes ok: "file_ok f st" and fr: "free_set st \<noteq> {}" and slot: "sb = 1 \<and> 2 \<le> si \<or> data_block st sb"
    and sf: "sb \<notin> free_set st"
  obtains b st' where "alloc_into (sb, si) st = Some st'" and "b \<in> free_set st"
    and "free_set st' = free_set st - {b}" and "s_nblocks st' = s_nblocks st"
    and "blk st' sb = (blk st sb)(si := of_nat b)" and "blk st' b = (\<lambda>_. 0)"
    and "\<And>c. c = 1 \<or> 2 + nbitmap st \<le> c \<Longrightarrow> c \<noteq> b \<Longrightarrow> c \<noteq> sb \<Longrightarrow> blk st' c = blk st c"
proof -
  define b where "b = Min (free_set st)"
  have bf: "b \<in> free_set st" unfolding b_def by (rule Min_in [OF finite_free_set fr])
  have bd: "data_block st b" by (rule file_okD(2) [OF ok bf])
  have bn: "b < 786432" "0 < b" using bd file_okD(1) [OF ok] by (auto simp: data_block_def)
  have ub: "unat (of_nat b :: u32) = b" using bn by (simp add: unat_of_nat)
  have bsb: "b \<noteq> sb" using bf sf by blast
  have bm: "b div 32768 < nbitmap st" using bd by (intro free_block_bitmap) (simp add: data_block_def)
  obtain st1 where st1: "alloc_block st = (Inr (of_nat b), st1)" "free_set st1 = free_set st - {b}"
    "s_nblocks st1 = s_nblocks st" "\<And>c. c \<noteq> 2 + b div 32768 \<Longrightarrow> blk st1 c = blk st c"
    by (rule alloc_block_some [OF fr, folded b_def]) (rule that)
  have away: "blk st1 c = blk st c" if "c = 1 \<or> 2 + nbitmap st \<le> c" for c
    using that bm by (intro st1(4)) auto
  let ?st2 = "write_word sb si (of_nat b) st1" let ?st3 = "zero_block b ?st2"
  have ns: "(sb, si) \<noteq> (1, 1)" using slot by (auto simp: data_block_def)
  have n2: "s_nblocks ?st2 = s_nblocks st" using st1(3) ns by (simp add: s_nblocks_write)
  have "s_nblocks ?st3 = s_nblocks ?st2"
    using bd by (simp add: zero_block_def set_blk_def s_nblocks_def data_block_def)
  with n2 have n3: "s_nblocks ?st3 = s_nblocks st" by simp
  have "addr_of (of_nat b) ?st2 = Some b"
    using addr_of_data [of ?st2 "of_nat b"] bd ub n2 by (simp add: data_block_def nbitmap_def)
  then have run: "alloc_into (sb, si) st = Some ?st3"
    using st1(1) by (simp add: alloc_into_def alloc_block_unsigned_def)
  have "free_set ?st3 = free_set st1"
  proof (rule free_set_cong)
    show "s_nblocks ?st3 = s_nblocks st1" using n3 st1(3) by simp
    show "blk ?st3 c = blk st1 c" if "2 \<le> c" "c < 2 + nbitmap st1" for c
    proof -
      have "nbitmap st1 = nbitmap st" using st1(3) by (simp add: nbitmap_def)
      with that slot bd have "c \<noteq> sb" "c \<noteq> b" by (auto simp: data_block_def)
      then show ?thesis by (simp add: zero_block_def write_word_def set_blk_def)
    qed
  qed
  with st1(2) have fs: "free_set ?st3 = free_set st - {b}" by simp
  show thesis
  proof (rule that [OF run bf fs n3])
    show "blk ?st3 sb = (blk st sb)(si := of_nat b)"
      using bsb away [of sb] slot by (auto simp: zero_block_def write_word_def set_blk_def data_block_def)
    show "blk ?st3 b = (\<lambda>_. 0)" by (simp add: zero_block_def set_blk_def)
    show "blk ?st3 c = blk st c" if "c = 1 \<or> 2 + nbitmap st \<le> c" "c \<noteq> b" "c \<noteq> sb" for c
      using that away by (simp add: zero_block_def write_word_def set_blk_def)
  qed
qed

section \<open>Filling a hole of a file\<close>

text \<open>Pointer \<open>k\<close> was null and now leads to the block \<open>b\<close>, taken from the free blocks; the file has
  the same bytes.\<close>

definition filled :: "fptr \<Rightarrow> nat \<Rightarrow> nat \<Rightarrow> Fs \<Rightarrow> Fs \<Rightarrow> bool" where
  "filled f k b st st' \<longleftrightarrow> b \<in> free_set st \<and> free_set st' = free_set st - {b} \<and> s_nblocks st' = s_nblocks st
     \<and> ptr f k st = 0 \<and> ptr f k st' = of_nat b \<and> (\<forall>l\<le>1034. l \<noteq> k \<longrightarrow> ptr f l st' = ptr f l st)
     \<and> f_size f st' = f_size f st \<and> (\<forall>p<4235264. fbyte f p st' = fbyte f p st)"

lemma unat_free: "file_ok f st \<Longrightarrow> b \<in> free_set st \<Longrightarrow> unat (of_nat b :: u32) = b"
  using file_okD(1) [of f st] by (simp add: free_set_def unat_of_nat)

lemma filled_ok:
  assumes ok: "file_ok f st" and fi: "filled f k b st st'"
  shows "file_ok f st'" and "ptr f k st' \<noteq> 0"
proof -
  have b: "b \<in> free_set st" using fi by (simp add: filled_def)
  have ub: "unat (of_nat b :: u32) = b" by (rule unat_free [OF ok b])
  have bd: "data_block st b" by (rule file_okD(2) [OF ok b])
  have pk: "ptr f k st' = of_nat b" using fi by (simp add: filled_def)
  show "ptr f k st' \<noteq> 0" using pk ub bd by (auto simp: data_block_def)
  have fs: "free_set st' = free_set st - {b}" using fi by (simp add: filled_def)
  have d: "data_block st' = data_block st" using fi by (simp add: fun_eq_iff data_block_def nbitmap_def filled_def)
  have other: "ptr f l st' = ptr f l st" if "l \<le> 1034" "l \<noteq> k" for l using fi that by (simp add: filled_def)
  have bf: "b \<noteq> fst f" using b file_okD(4) [OF ok] by blast
  have nb: "ptr f l st \<noteq> of_nat b" if "l \<le> 1034" "ptr f l st \<noteq> 0" for l
    using file_okD(6) [OF ok that] b ub by auto
  have one: "data_block st' (unat (ptr f l st')) \<and> unat (ptr f l st') \<notin> free_set st' \<and> unat (ptr f l st') \<noteq> fst f"
    if l: "l \<le> 1034" and nz: "ptr f l st' \<noteq> 0" for l
  proof (cases "l = k")
    case True
    then show ?thesis using pk ub bd bf by (simp add: d fs)
  next
    case False
    then show ?thesis using nz other [OF l False] file_okD(5-7) [OF ok l] by (simp add: d fs)
  qed
  have two: "l = m" if "l \<le> 1034" "m \<le> 1034" "ptr f l st' \<noteq> 0" "ptr f l st' = ptr f m st'" for l m
    using that other pk nb file_okD(8) [OF ok, of l m] by (metis (no_types))
  have fo: "fst f \<notin> free_set st'" using file_okD(4) [OF ok] fs by simp
  have nn: "unat (s_nblocks st') \<le> 786432" using file_okD(1) [OF ok] fi by (simp add: filled_def)
  show "file_ok f st'"
    unfolding file_ok_def
  proof (intro conjI)
    show "\<forall>b\<in>free_set st'. data_block st' b" using file_okD(2) [OF ok] by (simp add: d fs)
    show "fst f = 1 \<and> 2 \<le> snd f \<or> data_block st' (fst f)" using file_okD(3) [OF ok] by (simp add: d)
  qed (use one two fo nn in blast)+
qed

lemma loc_block:
  assumes ok: "file_ok f st" and k: "k \<le> 1034" and ind: "10 \<le> k \<and> k < 1034 \<longrightarrow> f_indirect f st \<noteq> 0"
  shows "fst (loc f k st) = 1 \<and> 2 \<le> snd (loc f k st) \<or> data_block st (fst (loc f k st))"
    and "fst (loc f k st) \<notin> free_set st"
    and "l \<le> 1034 \<Longrightarrow> l \<noteq> 1034 \<or> k < 10 \<or> k = 1034 \<Longrightarrow> ptr f l st \<noteq> 0 \<Longrightarrow> unat (ptr f l st) \<noteq> fst (loc f k st)"
    and "ptr f k st = blk st (fst (loc f k st)) (snd (loc f k st))"
proof -
  note o = file_okD(3,4) [OF ok] and i = file_okD(5,6) [OF ok, of 1034]
  show "fst (loc f k st) = 1 \<and> 2 \<le> snd (loc f k st) \<or> data_block st (fst (loc f k st))"
    "fst (loc f k st) \<notin> free_set st"
    using o i ind k by (auto simp: loc_def)
  show "unat (ptr f l st) \<noteq> fst (loc f k st)"
    if "l \<le> 1034" "l \<noteq> 1034 \<or> k < 10 \<or> k = 1034" "ptr f l st \<noteq> 0"
    using that file_okD(7) [OF ok that(1,3)] ptr_apart [OF ok that(1), of 1034] k by (auto simp: loc_def)
  show "ptr f k st = blk st (fst (loc f k st)) (snd (loc f k st))"
    using ind k by (auto simp: ptr_def loc_def f_direct_def f_indirect_def f_word_def add.assoc)
qed

lemma fill_hole:
  assumes ok: "file_ok f st" and k: "k \<le> 1034" and hole: "ptr f k st = 0" and fr: "free_set st \<noteq> {}"
    and ind: "10 \<le> k \<and> k < 1034 \<longrightarrow> f_indirect f st \<noteq> 0"
  obtains b st' where "alloc_into (loc f k st) st = Some st'" and "filled f k b st st'"
proof -
  note l = loc_block [OF ok k ind]
  let ?sb = "fst (loc f k st)" and ?si = "snd (loc f k st)"
  obtain b st' where a: "alloc_into (?sb, ?si) st = Some st'" "b \<in> free_set st"
    "free_set st' = free_set st - {b}" "s_nblocks st' = s_nblocks st"
    "blk st' ?sb = (blk st ?sb)(?si := of_nat b)" "blk st' b = (\<lambda>_. 0)"
    "\<And>c. c = 1 \<or> 2 + nbitmap st \<le> c \<Longrightarrow> c \<noteq> b \<Longrightarrow> c \<noteq> ?sb \<Longrightarrow> blk st' c = blk st c"
    by (rule alloc_into_spec [OF ok fr l(1,2)]) (rule that)
  have ub: "unat (of_nat b :: u32) = b" by (rule unat_free [OF ok a(2)])
  have nb: "unat (ptr f l st) \<noteq> b" if "l \<le> 1034" "ptr f l st \<noteq> 0" for l
    using file_okD(6) [OF ok that] a(2) by blast
  have keep: "blk st' (unat (ptr f l st)) = blk st (unat (ptr f l st))"
    if "l \<le> 1034" "l \<noteq> 1034 \<or> k < 10 \<or> k = 1034" "ptr f l st \<noteq> 0" for l
    using file_okD(5) [OF ok that(1,3)] nb [OF that(1,3)] l(3) [OF that] by (intro a(7)) (auto simp: data_block_def)
  have fb: "fst f \<noteq> b" using file_okD(4) [OF ok] a(2) by blast
  have own: "blk st' (fst f) i = (if (fst f, i) = loc f k st then of_nat b else blk st (fst f) i)" for i
  proof (cases "?sb = fst f")
    case True
    then show ?thesis using a(5) by (cases "loc f k st") auto
  next
    case False
    have "blk st' (fst f) = blk st (fst f)"
      using file_okD(3) [OF ok] fb False by (intro a(7)) (auto simp: data_block_def)
    then show ?thesis using False by (auto simp: loc_def)
  qed
  have fword: "f_word f i st' = (if (fst f, snd f + i) = loc f k st then of_nat b else f_word f i st)" for i
    by (simp add: f_word_def own)
  have here: "(fst f, snd f + i) = loc f k st \<longleftrightarrow> k < 10 \<and> i = 34 + k \<or> k = 1034 \<and> i = 44" for i
    using k ind file_okD(7) [OF ok, of 1034] by (auto simp: loc_def)
  note word = fword [unfolded here]
  have ind': "f_indirect f st' = (if k = 1034 then of_nat b else f_indirect f st)"
    by (auto simp: f_indirect_def word)
  have p: "ptr f l st' = (if l = k then of_nat b else ptr f l st)" if "l \<le> 1034" for l
  proof (cases "10 \<le> l \<and> l < 1034")
    case False
    then show ?thesis using that ind' by (auto simp: ptr_def f_direct_def word)
  next
    case l10: True
    consider "k = 1034" | "k < 10" | "10 \<le> k" "k < 1034" using k by linarith
    then show ?thesis
    proof cases
      case 1
      then show ?thesis using l10 hole ind' ub a(6) by (simp add: ptr_def)
    next
      case 2
      then show ?thesis using l10 keep [of 1034] ind' by (simp add: ptr_def)
    next
      case 3
      then have "loc f k st = (unat (f_indirect f st), k - 10)" by (simp add: loc_def)
      then show ?thesis using 3 l10 ind ind' a(5) by (auto simp: ptr_def)
    qed
  qed
  show thesis
  proof (rule that)
    show "alloc_into (loc f k st) st = Some st'" using a(1) by simp
    have "fbyte f q st' = fbyte f q st" if "q < 4235264" for q
    proof -
      have "q div 4096 < 1034" using that by (simp add: div_less_iff_less_mult)
      then show ?thesis
        using p [of "q div 4096"] keep [of "q div 4096"] hole a(6) ub
        by (auto simp: fbyte_def Let_def blk_byte_def get_byte_def)
    qed
    then show "filled f k b st st'"
      unfolding filled_def using a(2-4) hole p k by (simp add: f_size_def word)
  qed
qed

section \<open>Getting a block of a file\<close>

text \<open>The null pointers among \<open>K\<close>; a change that keeps the file and only fills such holes.\<close>

definition holes :: "fptr \<Rightarrow> nat set \<Rightarrow> Fs \<Rightarrow> nat set" where
  "holes f K st = {k\<in>K. k \<le> 1034 \<and> ptr f k st = 0}"

definition enough :: "fptr \<Rightarrow> nat set \<Rightarrow> Fs \<Rightarrow> bool" where
  "enough f K st \<longleftrightarrow> file_ok f st \<and> card (holes f K st) \<le> card (free_set st)"

lemma finite_holes [simp]: "finite (holes f K st)"
  by (rule finite_subset [of _ "{..1034}"]) (auto simp: holes_def)

lemma filled_enough:
  assumes en: "enough f K st" and fi: "filled f k b st st'" and k: "k \<in> K" "k \<le> 1034"
  shows "enough f K st'"
proof -
  have ok: "file_ok f st" using en by (simp add: enough_def)
  have h: "holes f K st' = holes f K st - {k}"
    using filled_ok [OF ok fi] fi by (auto simp: holes_def filled_def)
  have "k \<in> holes f K st" "b \<in> free_set st" "free_set st' = free_set st - {b}"
    using k fi by (simp_all add: holes_def filled_def)
  with en show ?thesis using filled_ok(1) [OF ok fi] by (auto simp: enough_def h intro: diff_le_mono)
qed

lemma enough_free:
  assumes "enough f K st" and "k \<in> K" "k \<le> 1034" and "ptr f k st = 0"
  shows "free_set st \<noteq> {}"
proof
  assume "free_set st = {}"
  then have "holes f K st = {}" using assms(1) by (simp add: enough_def)
  then show False using assms(2-4) by (auto simp: holes_def)
qed

text \<open>The file is the same as a sequence of bytes.\<close>

definition same_file :: "fptr \<Rightarrow> Fs \<Rightarrow> Fs \<Rightarrow> bool" where
  "same_file f st st' \<longleftrightarrow> s_nblocks st' = s_nblocks st \<and> f_size f st' = f_size f st
     \<and> (\<forall>p<4235264. fbyte f p st' = fbyte f p st)"

lemma same_file_refl: "same_file f st st"
  by (simp add: same_file_def)

lemma same_file_trans: "same_file f st st1 \<Longrightarrow> same_file f st1 st2 \<Longrightarrow> same_file f st st2"
  by (simp add: same_file_def)

lemma get_hole:
  assumes en: "enough f K st" and k: "k \<in> K" "k \<le> 1034"
    and ind: "10 \<le> k \<and> k < 1034 \<longrightarrow> f_indirect f st \<noteq> 0"
  obtains st' where "(if ptr f k st = 0 then alloc_into (loc f k st) st else Some st) = Some st'"
    and "enough f K st'" and "same_file f st st'" and "ptr f k st' \<noteq> 0"
    and "k \<noteq> 1034 \<longrightarrow> f_indirect f st' = f_indirect f st"
proof (cases "ptr f k st = 0")
  case False
  then show thesis using en by (intro that [of st]) (simp_all add: same_file_refl)
next
  case True
  have ok: "file_ok f st" using en by (simp add: enough_def)
  obtain b st' where st': "alloc_into (loc f k st) st = Some st'" "filled f k b st st'"
    using fill_hole [OF ok k(2) True enough_free [OF en k True] ind] by blast
  show thesis
  proof (rule that [of st'])
    show "(if ptr f k st = 0 then alloc_into (loc f k st) st else Some st) = Some st'" using True st'(1) by simp
    show "enough f K st'" by (rule filled_enough [OF en st'(2) k])
    show "same_file f st st'" using st'(2) by (simp add: filled_def same_file_def)
    show "ptr f k st' \<noteq> 0" by (rule filled_ok(2) [OF ok st'(2)])
    have "k \<noteq> 1034 \<Longrightarrow> ptr f 1034 st' = ptr f 1034 st"
      using st'(2) unfolding filled_def by (metis order_refl)
    then show "k \<noteq> 1034 \<longrightarrow> f_indirect f st' = f_indirect f st" by simp
  qed
qed

lemma file_get_block_spec:
  assumes en: "enough f K st" and n: "n < 1034" "n \<in> K" and ik: "10 \<le> n \<longrightarrow> 1034 \<in> K"
  obtains st' where "file_get_block f (of_nat n) st = Some (Inr (unat (ptr f n st')), st')"
    and "enough f K st'" and "same_file f st st'" and "ptr f n st' \<noteq> 0"
proof -
  have un: "unat (of_nat n :: u32) = n" using n by (simp add: unat_of_nat)
  obtain st1 where st1: "file_block_walk f (of_nat n) True st = Some (Inr (loc f n st1), st1)"
    "enough f K st1" "same_file f st st1" "10 \<le> n \<and> n < 1034 \<longrightarrow> f_indirect f st1 \<noteq> 0"
  proof (cases "n < 10")
    case True
    then show thesis
      using en by (intro that [of st]) (simp_all add: file_block_walk_def NDIRECT_def NINDIRECT_def un loc_def same_file_refl)
  next
    case False
    then have "1034 \<in> K" using ik by simp
    then obtain st1 where st1: "(if ptr f 1034 st = 0 then alloc_into (loc f 1034 st) st else Some st) = Some st1"
      "enough f K st1" "same_file f st st1" "ptr f 1034 st1 \<noteq> 0"
      by (rule get_hole [OF en]) (simp_all add: that)
    have "data_block st1 (unat (ptr f 1034 st1))"
      using st1(2,4) by (intro file_okD(5)) (simp_all add: enough_def)
    then have a: "addr_of (f_indirect f st1) st1 = Some (unat (f_indirect f st1))"
      by (intro addr_of_data) simp
    have "(if f_indirect f st = 0 \<and> True then alloc_into (fst f, snd f + 44) st else Some st) = Some st1"
      using st1(1) by (auto simp: loc_def split: if_splits)
    then have "file_block_walk f (of_nat n) True st = Some (Inr (loc f n st1), st1)"
      using False n(1) a by (simp add: file_block_walk_def NDIRECT_def NINDIRECT_def un loc_def)
    then show thesis by (rule that [OF _ st1(2,3)]) (use st1(4) in simp)
  qed
  have ok1: "file_ok f st1" using st1(2) by (simp add: enough_def)
  have n': "n \<le> 1034" "n \<noteq> 1034" using n by simp_all
  obtain st2 where st2: "(if ptr f n st1 = 0 then alloc_into (loc f n st1) st1 else Some st1) = Some st2"
    "enough f K st2" "same_file f st1 st2" "ptr f n st2 \<noteq> 0" "n \<noteq> 1034 \<longrightarrow> f_indirect f st2 = f_indirect f st1"
    by (rule get_hole [OF st1(2) n(2) n'(1) st1(4)]) (rule that)
  have ok2: "file_ok f st2" using st2(2) by (simp add: enough_def)
  have loc2: "loc f n st2 = loc f n st1" using st2(5) n' by (simp add: loc_def)
  have p1: "ptr f n st1 = blk st1 (fst (loc f n st1)) (snd (loc f n st1))"
    by (rule loc_block(4) [OF ok1 n'(1) st1(4)])
  have p2: "ptr f n st2 = blk st2 (fst (loc f n st1)) (snd (loc f n st1))"
    using loc_block(4) [OF ok2 n'(1)] st1(4) st2(5) n' loc2 by simp
  have "addr_of (ptr f n st2) st2 = Some (unat (ptr f n st2))"
    by (rule addr_of_data, rule file_okD(5) [OF ok2 n'(1) st2(4)])
  then have "file_get_block f (of_nat n) st = Some (Inr (unat (ptr f n st2)), st2)"
    using st1(1) st2(1) by (simp add: file_get_block_def p1 p2)
  then show thesis using st2 same_file_trans [OF st1(3) st2(3)] by (intro that) simp_all
qed

section \<open>Reading and writing the bytes of a file\<close>

text \<open>Storing into a block of the file.\<close>

lemma store_data:
  fixes x
  assumes en: "enough f K st" and n: "n < 1034" and nz: "ptr f n st \<noteq> 0"
  defines "st' \<equiv> set_blk (unat (ptr f n st)) x st"
  shows "enough f K st'" and "s_nblocks st' = s_nblocks st" and "f_size f st' = f_size f st"
    and "p < 4235264 \<Longrightarrow> fbyte f p st' = (if p div 4096 = n then blk_byte x (p mod 4096) else fbyte f p st)"
proof -
  have ok: "file_ok f st" using en by (simp add: enough_def)
  let ?b = "unat (ptr f n st)"
  have n': "n \<le> 1034" "n \<noteq> 1034" using n by simp_all
  have d: "data_block st ?b" by (rule file_okD(5) [OF ok n'(1) nz])
  have own: "?b \<noteq> fst f" by (rule file_okD(7) [OF ok n'(1) nz])
  have ib: "?b \<noteq> unat (f_indirect f st)" using ptr_apart [OF ok n'(1) _ n'(2) nz] by simp
  have blk: "blk st' c = (if c = ?b then x else blk st c)" for c by (simp add: st'_def set_blk_def)
  have word: "f_word f i st' = f_word f i st" for i using own by (simp add: f_word_def blk)
  have dirs: "f_direct f i st' = f_direct f i st" "f_indirect f st' = f_indirect f st" for i
    by (simp_all add: f_direct_def f_indirect_def word)
  have ind: "blk st' (unat (f_indirect f st)) = blk st (unat (f_indirect f st))" using ib by (simp add: blk)
  have p: "ptr f k st' = ptr f k st" for k
    by (simp add: ptr_def dirs ind)
  show nb: "s_nblocks st' = s_nblocks st" using d by (auto simp: s_nblocks_def blk data_block_def)
  have fs: "free_set st' = free_set st"
    by (rule free_set_cong [OF nb]) (use d in \<open>auto simp: blk data_block_def\<close>)
  have db: "data_block st' = data_block st" by (simp add: fun_eq_iff data_block_def nbitmap_def nb)
  have "enough f K st' = enough f K st" by (simp only: enough_def file_ok_def holes_def p fs nb db)
  then show "enough f K st'" using en by simp
  show "f_size f st' = f_size f st" by (simp add: f_size_def word)
  show "fbyte f q st' = (if q div 4096 = n then blk_byte x (q mod 4096) else fbyte f q st)" if "q < 4235264" for q
  proof -
    have "q div 4096 \<le> 1034" using that div_le_mono [of q 4235264 4096] by simp
    then show ?thesis using nz ptr_apart [OF ok n'(1), of "q div 4096"] by (auto simp: fbyte_def Let_def p blk)
  qed
qed

text \<open>The pointers that a transfer of the bytes \<open>P\<close> to \<open>L - 1\<close> follows.\<close>

definition fspan :: "nat \<Rightarrow> nat \<Rightarrow> nat set" where
  "fspan P L = {n. P div 4096 \<le> n \<and> n * 4096 < L} \<union> (if 40960 < L then {1034} else {})"

text \<open>One round of the loops: the block is \<open>P div 4096\<close> and the next position is \<open>chunk_end P L\<close>.\<close>

definition chunk_end :: "nat \<Rightarrow> nat \<Rightarrow> nat" where
  "chunk_end P L = min ((P div 4096 + 1) * 4096) L"

lemma chunk_end_parts: "r < 4096 \<Longrightarrow> chunk_end (4096 * q + r) L = min (4096 * q + 4096) L"
  by (simp add: chunk_end_def algebra_simps)

lemma chunk:
  assumes "P < L"
  shows "P < chunk_end P L" and "chunk_end P L \<le> L"
    and "P \<le> q \<Longrightarrow> q < chunk_end P L \<Longrightarrow> q div 4096 = P div 4096 \<and> q mod 4096 = P mod 4096 + (q - P)"
    and "P \<le> q \<Longrightarrow> q div 4096 = P div 4096 \<Longrightarrow> q < L \<Longrightarrow> q < chunk_end P L"
    and "chunk_end P L - P = min (4096 - P mod 4096) (L - P)"
proof -
  obtain m r where P: "P = 4096 * m + r" "r < 4096" by (metis mod_less_divisor mult_div_mod_eq zero_less_numeral)
  have m: "P div 4096 = m" "P mod 4096 = r" using P by simp_all
  have e: "chunk_end P L = min (4096 * m + 4096) L" unfolding P(1) by (rule chunk_end_parts [OF P(2)])
  show "P < chunk_end P L" "chunk_end P L \<le> L" "chunk_end P L - P = min (4096 - P mod 4096) (L - P)"
    unfolding m e using P assms by linarith+
  show "q < chunk_end P L" if "P \<le> q" "q div 4096 = P div 4096" "q < L"
  proof -
    have "q < 4096 * (q div 4096) + 4096" using mult_div_mod_eq [of 4096 q] mod_less_divisor [of 4096 q] by linarith
    then show ?thesis using that unfolding e m by simp
  qed
  show "q div 4096 = P div 4096 \<and> q mod 4096 = P mod 4096 + (q - P)" if "P \<le> q" "q < chunk_end P L"
  proof -
    define d where "d = q - 4096 * m"
    have d: "q = 4096 * m + d" "d < 4096" "d = r + (q - P)" using that P unfolding e d_def by linarith+
    from d(1,2) have "q div 4096 = m" "q mod 4096 = d" by simp_all
    with d(3) show ?thesis unfolding m by blast
  qed
qed

lemma sint_small: "unat w < 2147483648 \<Longrightarrow> sint w = int (unat w)" for w :: u32
proof -
  assume "unat w < 2147483648"
  then have "int (unat w) < int 2147483648" by (rule iffD2 [OF of_nat_less_iff])
  then have "uint w < 2 ^ 31" by simp
  then have "signed_take_bit 31 (uint w) = uint w" using uint_ge_0 [of w] by (intro signed_take_bit_int_eq_self) linarith+
  then show ?thesis using sint_uint [of w] by simp
qed

lemma chunk_words:
  assumes "P < L" and "L \<le> 4235264"
  defines "pos \<equiv> of_nat P :: u32" and "lim \<equiv> of_nat L :: u32"
  shows "pos < lim" and "\<not> sint pos < 0" and "pos div BLKSIZE = of_nat (P div 4096)"
    and "unat (pos mod BLKSIZE) = P mod 4096"
    and "unat (min (BLKSIZE - pos mod BLKSIZE) (lim - pos)) = chunk_end P L - P"
    and "pos + min (BLKSIZE - pos mod BLKSIZE) (lim - pos) = of_nat (chunk_end P L)"
proof -
  have u: "unat pos = P" "unat lim = L" using assms by (simp_all add: pos_def lim_def unat_of_nat)
  show "pos < lim" using u assms by (simp add: word_less_nat_alt)
  show "\<not> sint pos < 0" using u assms by (simp add: sint_small)
  show "pos div BLKSIZE = of_nat (P div 4096)"
    by (rule unat_eq_of_nat_u32) (simp add: unat_div_distrib u BLKSIZE_def)
  show m: "unat (pos mod BLKSIZE) = P mod 4096" by (simp add: unat_mod_distrib u BLKSIZE_def)
  have "unat (BLKSIZE - pos mod BLKSIZE) = 4096 - P mod 4096"
    using m by (simp add: unat_sub word_le_nat_alt BLKSIZE_def)
  moreover have "unat (lim - pos) = L - P" using u assms by (simp add: unat_sub word_le_nat_alt)
  ultimately have "unat (min (BLKSIZE - pos mod BLKSIZE) (lim - pos)) = min (4096 - P mod 4096) (L - P)"
    by (simp add: min_def word_le_nat_alt)
  also have "\<dots> = chunk_end P L - P" using chunk(5) [OF assms(1)] by simp
  finally show c: "unat (min (BLKSIZE - pos mod BLKSIZE) (lim - pos)) = chunk_end P L - P" .
  show "pos + min (BLKSIZE - pos mod BLKSIZE) (lim - pos) = of_nat (chunk_end P L)"
  proof (rule unat_eq_of_nat_u32)
    have "P + (chunk_end P L - P) = chunk_end P L" "chunk_end P L < 4294967296"
      using chunk(1,2) [OF assms(1)] assms(2) by linarith+
    then show "unat (pos + min (BLKSIZE - pos mod BLKSIZE) (lim - pos)) = chunk_end P L"
      by (simp only: unat_word_ariths c u) simp
  qed
qed

lemma fspan_mem:
  assumes "P < L" and "L \<le> 4235264"
  shows "P div 4096 < 1034" and "P div 4096 \<in> fspan P L" and "10 \<le> P div 4096 \<longrightarrow> 1034 \<in> fspan P L"
proof -
  have l: "P div 4096 * 4096 < L" using div_times_less_eq_dividend [of P 4096] assms(1) by linarith
  show "P div 4096 < 1034" using l assms(2) by linarith
  show "P div 4096 \<in> fspan P L" using l by (simp add: fspan_def)
  show "10 \<le> P div 4096 \<longrightarrow> 1034 \<in> fspan P L" using l by (auto simp: fspan_def)
qed

lemma fspan_mono: "P \<le> Q \<Longrightarrow> fspan Q L \<subseteq> fspan P L"
  using div_le_mono [of P Q 4096] by (auto simp: fspan_def)

lemma holes_mono: "K \<subseteq> K' \<Longrightarrow> enough f K' st \<Longrightarrow> enough f K st"
proof -
  assume a: "K \<subseteq> K'" "enough f K' st"
  from a(1) have "holes f K st \<subseteq> holes f K' st" by (auto simp: holes_def)
  then have "card (holes f K st) \<le> card (holes f K' st)" by (intro card_mono) simp_all
  with a(2) show "enough f K st" by (simp add: enough_def)
qed

text \<open>The loop of \<open>file_read\<close> delivers the bytes of the file.\<close>

lemma file_read_loop_spec:
  assumes "enough f K st" and "P \<le> L" and "L \<le> 4235264" and "fspan P L \<subseteq> K"
  shows "\<exists>st'. file_read_loop f (of_nat P) (of_nat L) buf st = Some (Inr (buf @ map (\<lambda>p. fbyte f p st) [P..<L]), st')
    \<and> enough f K st' \<and> same_file f st st'"
  using assms
proof (induction "L - P" arbitrary: P buf st rule: less_induct)
  case less
  show ?case
  proof (cases "P < L")
    case False
    then show ?thesis
      using less.prems by (subst file_read_loop.simps) (simp add: same_file_refl)
  next
    case True
    let ?n = "P div 4096" let ?E = "chunk_end P L"
    note s = fspan_mem [OF True less.prems(3)] and w = chunk_words [OF True less.prems(3)]
      and c = chunk [OF True]
    obtain st1 where st1: "file_get_block f (of_nat ?n) st = Some (Inr (unat (ptr f ?n st1)), st1)"
      "enough f K st1" "same_file f st st1" "ptr f ?n st1 \<noteq> 0"
      by (rule file_get_block_spec [OF less.prems(1) s(1)]) (use s less.prems(4) that in \<open>auto\<close>)
    let ?chunk = "map (\<lambda>i. blk_byte (blk st1 (unat (ptr f ?n st1))) (P mod 4096 + i)) [0..<?E - P]"
    have byte: "blk_byte (blk st1 (unat (ptr f ?n st1))) (P mod 4096 + i) = fbyte f (P + i) st" if "i < ?E - P" for i
    proof -
      have q: "(P + i) div 4096 = ?n \<and> (P + i) mod 4096 = P mod 4096 + i" using c(3) [of "P + i"] that by simp
      have "P + i < 4235264" using that c(2) less.prems(3) by linarith
      then have "fbyte f (P + i) st = fbyte f (P + i) st1" using st1(3) by (simp add: same_file_def)
      then show ?thesis using q st1(4) by (simp add: fbyte_def)
    qed
    have chunk: "?chunk = map (\<lambda>p. fbyte f p st) [P..<?E]"
      by (rule nth_equalityI) (simp_all add: byte)
    have rest: "map (\<lambda>p. fbyte f p st1) [?E..<L] = map (\<lambda>p. fbyte f p st) [?E..<L]"
      using st1(3) less.prems(3) by (simp add: same_file_def)
    have "[P..<L] = [P..<?E] @ [?E..<L]" using upt_add_eq_append [of P ?E "L - ?E"] c(1,2) by simp
    then have app: "map (\<lambda>p. fbyte f p st) [P..<?E] @ map (\<lambda>p. fbyte f p st) [?E..<L]
        = map (\<lambda>p. fbyte f p st) [P..<L]" by simp
    have sm: "L - ?E < L - P" using c(1,2) by linarith
    have "fspan ?E L \<subseteq> K" using fspan_mono [OF less_imp_le [OF c(1)]] less.prems(4) by (rule subset_trans)
    then obtain st2 where st2: "file_read_loop f (of_nat ?E) (of_nat L) (buf @ ?chunk) st1
        = Some (Inr ((buf @ ?chunk) @ map (\<lambda>p. fbyte f p st1) [?E..<L]), st2)" "enough f K st2" "same_file f st1 st2"
      using less.hyps [OF sm st1(2) c(2) less.prems(3)] by blast
    have "file_read_loop f (of_nat P) (of_nat L) buf st = file_read_loop f (of_nat ?E) (of_nat L) (buf @ ?chunk) st1"
      by (subst file_read_loop.simps) (simp only: w if_True if_False not_False_eq_True st1(1) bind.bind_lunit Let_def prod.case sum.case)
    also have "\<dots> = Some (Inr (buf @ map (\<lambda>p. fbyte f p st) [P..<L]), st2)"
      using st2(1) by (simp only: chunk rest append_assoc app)
    finally show ?thesis using st2(2) same_file_trans [OF st1(3) st2(3)] by blast
  qed
qed

lemma same_div_mod:
  "p div 4096 = P div 4096 \<Longrightarrow> P mod 4096 \<le> p mod 4096 \<longleftrightarrow> P \<le> p"
  "p div 4096 = P div 4096 \<Longrightarrow> P \<le> p \<Longrightarrow> p mod 4096 - P mod 4096 = p - P"
  "p div 4096 = P div 4096 \<Longrightarrow> P \<le> p \<Longrightarrow> p mod 4096 < P mod 4096 + k \<longleftrightarrow> p < P + k" for p P k :: nat
  using mult_div_mod_eq [of 4096 p] mult_div_mod_eq [of 4096 P] by linarith+

text \<open>The loop of \<open>file_write\<close> replaces the bytes from \<open>P\<close> to \<open>L - 1\<close> and no other.\<close>

lemma file_write_loop_spec:
  assumes "enough f K st" and "P \<le> L" and "L \<le> 4235264" and "fspan P L \<subseteq> K" and "length buf = L - P"
  shows "\<exists>st'. file_write_loop f (of_nat P) (of_nat L) buf st = Some (Inr (), st')
    \<and> enough f K st' \<and> s_nblocks st' = s_nblocks st \<and> f_size f st' = f_size f st
    \<and> (\<forall>p<4235264. fbyte f p st' = (if P \<le> p \<and> p < L then buf ! (p - P) else fbyte f p st))"
  using assms
proof (induction "L - P" arbitrary: P buf st rule: less_induct)
  case less
  show ?case
  proof (cases "P < L")
    case False
    then show ?thesis using less.prems by (subst file_write_loop.simps) auto
  next
    case True
    let ?n = "P div 4096" let ?E = "chunk_end P L"
    note s = fspan_mem [OF True less.prems(3)] and w = chunk_words [OF True less.prems(3)]
      and c = chunk [OF True]
    obtain st1 where st1: "file_get_block f (of_nat ?n) st = Some (Inr (unat (ptr f ?n st1)), st1)"
      "enough f K st1" "same_file f st st1" "ptr f ?n st1 \<noteq> 0"
      by (rule file_get_block_spec [OF less.prems(1) s(1)]) (use s less.prems(4) that in \<open>auto\<close>)
    let ?x = "put_bytes (P mod 4096) (take (?E - P) buf) (blk st1 (unat (ptr f ?n st1)))"
    let ?st2 = "set_blk (unat (ptr f ?n st1)) ?x st1"
    note sd = store_data [OF st1(2) s(1) st1(4), where x = ?x]
    have len: "length (take (?E - P) buf) = ?E - P" using less.prems(5) c(2) by simp
    have chunk: "fbyte f p ?st2 = (if P \<le> p \<and> p < ?E then buf ! (p - P) else fbyte f p st)" if p: "p < 4235264" for p
    proof (cases "p div 4096 = ?n")
      case False
      then have "\<not> (P \<le> p \<and> p < ?E)" using c(3) by blast
      then show ?thesis using sd(4) [OF p] False st1(3) p unfolding same_file_def by metis
    next
      case eq: True
      have "fbyte f p ?st2 = blk_byte ?x (p mod 4096)" using sd(4) [OF p] eq by simp
      also have "\<dots> = (if P mod 4096 \<le> p mod 4096 \<and> p mod 4096 < P mod 4096 + (?E - P)
          then buf ! (p mod 4096 - P mod 4096) else fbyte f p st1)"
        unfolding blk_byte_put_bytes len using eq st1(4) by (auto simp: fbyte_def less_diff_conv2 add.commute intro!: nth_take)
      also have "fbyte f p st1 = fbyte f p st" using st1(3) p by (simp add: same_file_def)
      finally show ?thesis using same_div_mod [OF eq] c(1) by (auto simp: less_diff_conv)
    qed
    have sm: "L - ?E < L - P" using c(1,2) by linarith
    have sp: "fspan ?E L \<subseteq> K" using fspan_mono [OF less_imp_le [OF c(1)]] less.prems(4) by (rule subset_trans)
    have ln: "length (drop (?E - P) buf) = L - ?E" using less.prems(5) c(1,2) by simp
    obtain st3 where st3: "file_write_loop f (of_nat ?E) (of_nat L) (drop (?E - P) buf) ?st2 = Some (Inr (), st3)"
      "enough f K st3" "s_nblocks st3 = s_nblocks ?st2" "f_size f st3 = f_size f ?st2"
      "\<forall>p<4235264. fbyte f p st3 = (if ?E \<le> p \<and> p < L then drop (?E - P) buf ! (p - ?E) else fbyte f p ?st2)"
      using less.hyps [OF sm sd(1) c(2) less.prems(3) sp ln] by blast
    have "file_write_loop f (of_nat P) (of_nat L) buf st = Some (Inr (), st3)"
      by (subst file_write_loop.simps)
        (simp only: w if_True if_False not_False_eq_True st1(1) bind.bind_lunit Let_def prod.case sum.case st3(1))
    moreover have "fbyte f p st3 = (if P \<le> p \<and> p < L then buf ! (p - P) else fbyte f p st)" if "p < 4235264" for p
      using st3(5) chunk that c(1,2) less.prems(5) by auto
    ultimately show ?thesis using st3(2-4) sd(2,3) st1(3) by (auto simp: same_file_def)
  qed
qed

lemma file_set_size_grow:
  assumes en: "enough f K st" and sz: "unat (f_size f st) \<le> 4235264" "unat newsize \<le> 4235264"
    and grow: "f_size f st < newsize"
  obtains st' where "file_set_size f newsize st = Some st'" and "enough f K st'" and "f_size f st' = newsize"
    and "\<And>p. p < 4235264 \<Longrightarrow> fbyte f p st' = fbyte f p st" and "s_nblocks st' = s_nblocks st"
proof -
  have ok: "file_ok f st" using en by (simp add: enough_def)
  let ?st = "write_word (fst f) (snd f + 32) newsize st" let ?st' = "flush (fst f) ?st"
  have "\<not> sint (f_size f st) > sint newsize"
    using sint_small [of newsize] sint_small [of "f_size f st"] sz grow unfolding word_less_nat_alt by linarith
  then have run: "file_set_size f newsize st = Some ?st'" by (simp add: file_set_size_def)
  have own: "blk ?st' (fst f) = (blk st (fst f))(snd f + 32 := newsize)"
    and other: "c \<noteq> fst f \<Longrightarrow> blk ?st' c = blk st c" for c
    by (simp_all add: write_word_def set_blk_def)
  have word: "f_word f i ?st' = (if i = 32 then newsize else f_word f i st)" for i
    unfolding f_word_def own by simp
  have dirs: "f_direct f i ?st' = f_direct f i st" "f_indirect f ?st' = f_indirect f st" for i
    by (simp_all add: f_direct_def f_indirect_def word)
  have ib: "f_indirect f st \<noteq> 0 \<Longrightarrow> blk ?st' (unat (f_indirect f st)) = blk st (unat (f_indirect f st))"
    using file_okD(7) [OF ok, of 1034] by (intro other) simp
  have p: "ptr f k ?st' = ptr f k st" for k unfolding ptr_def dirs using ib by auto
  have "(fst f, snd f + 32) \<noteq> (1, 1)" by simp
  then have nb: "s_nblocks ?st' = s_nblocks st" by (simp add: s_nblocks_write)
  have fs: "free_set ?st' = free_set st"
    by (rule free_set_cong [OF nb], rule other) (use file_okD(3) [OF ok] in \<open>auto simp: data_block_def\<close>)
  have db: "data_block ?st' = data_block st" unfolding fun_eq_iff data_block_def nbitmap_def nb by simp
  have e: "enough f K ?st' = enough f K st" by (simp only: enough_def file_ok_def holes_def p fs nb db)
  have "fbyte f q ?st' = fbyte f q st" if "q < 4235264" for q
  proof -
    have "q div 4096 \<le> 1034" using that div_le_mono [of q 4235264 4096] by simp
    then show ?thesis using other file_okD(7) [OF ok, of "q div 4096"] by (simp add: fbyte_def Let_def p)
  qed
  then show thesis using run e en nb by (intro that [of ?st']) (simp_all add: f_size_def word)
qed

lemma file_read_spec:
  assumes ok: "file_ok f st" and sz: "unat (f_size f st) \<le> 4235264" "off \<le> unat (f_size f st)"
    and cnt: "cnt < 4294967296"
    and fr: "card (holes f (fspan off (min (off + cnt) (unat (f_size f st)))) st) \<le> card (free_set st)"
  shows "\<exists>st'. file_read f (of_nat cnt) (of_nat off) st
      = Some (Inr (map (\<lambda>p. fbyte f p st) [off..<min (off + cnt) (unat (f_size f st))]), st')
    \<and> file_ok f st' \<and> same_file f st st'"
proof -
  let ?S = "unat (f_size f st)" let ?L = "min (off + cnt) ?S"
  have uo: "unat (of_nat off :: u32) = off" using sz by (simp add: unat_of_nat)
  have uc: "unat (of_nat cnt :: u32) = cnt" using cnt by (simp add: unat_of_nat)
  have en: "enough f (fspan off ?L) st" using ok fr by (simp add: enough_def)
  have si: "sint (of_nat off :: u32) = int off" "sint (f_size f st) = int ?S"
    using sint_small [of "of_nat off"] sint_small [of "f_size f st"] sz unfolding uo by linarith+
  have cmp: "sint (f_size f st) \<le> sint (of_nat off :: u32) \<longleftrightarrow> \<not> off < ?S"
    unfolding si by (simp only: of_nat_le_iff not_less)
  have L: "off \<le> ?L" "?L \<le> 4235264" using sz by auto
  obtain st' where st': "file_read_loop f (of_nat off) (of_nat ?L) [] st
      = Some (Inr ([] @ map (\<lambda>p. fbyte f p st) [off..<?L]), st')" "enough f (fspan off ?L) st'" "same_file f st st'"
    using file_read_loop_spec [OF en L order_refl] by blast
  show ?thesis
  proof (cases "off < ?S")
    case False
    then have "file_read f (of_nat cnt) (of_nat off) st = Some (Inr [], st)" "[off..<?L] = []"
      unfolding file_read_def cmp by simp_all
    then show ?thesis using ok same_file_refl by (intro exI [of _ st]) simp
  next
    case True
    have "of_nat off + min (of_nat cnt) (f_size f st - of_nat off) = (of_nat ?L :: u32)"
    proof (rule unat_eq_of_nat_u32)
      have "unat (f_size f st - of_nat off) = ?S - off" using sz uo by (simp add: unat_sub word_le_nat_alt)
      then have "unat (min (of_nat cnt) (f_size f st - of_nat off)) = min cnt (?S - off)"
        using uc by (auto simp: min_def word_le_nat_alt)
      then show "unat (of_nat off + min (of_nat cnt) (f_size f st - of_nat off)) = ?L"
        using L by (simp add: unat_word_ariths uo unat_of_nat)
    qed
    then have "file_read f (of_nat cnt) (of_nat off) st = file_read_loop f (of_nat off) (of_nat ?L) [] st"
      using True unfolding file_read_def cmp by simp
    then show ?thesis using st' by (auto simp: enough_def)
  qed
qed

lemma file_write_read_spec:
  assumes ok: "file_ok f st" and sz: "unat (f_size f st) \<le> 4235264" and lim: "off + length buf \<le> 4235264"
    and fr: "card (holes f (fspan off (off + length buf)) st) \<le> card (free_set st)"
  shows "\<exists>st' st''. file_write f buf (of_nat off) st = Some (Inr (of_nat (length buf)), st') \<and> file_ok f st'
    \<and> unat (f_size f st') = max (unat (f_size f st)) (off + length buf)
    \<and> (\<forall>p<4235264. fbyte f p st' = (if off \<le> p \<and> p < off + length buf then buf ! (p - off) else fbyte f p st))
    \<and> file_read f (of_nat (length buf)) (of_nat off) st' = Some (Inr buf, st'') \<and> same_file f st' st''"
proof -
  let ?L = "off + length buf" let ?K = "fspan off ?L"
  have L: "of_nat off + of_nat (length buf) = (of_nat ?L :: u32)" by simp
  have uL: "unat (of_nat ?L :: u32) = ?L" using lim by (simp only: unat_of_nat) simp
  have en: "enough f ?K st" using ok fr by (simp add: enough_def)
  obtain st1 where st1: "(if of_nat ?L > f_size f st then file_set_size f (of_nat ?L) st else Some st) = Some st1"
    "enough f ?K st1" "unat (f_size f st1) = max (unat (f_size f st)) ?L"
    "\<And>p. p < 4235264 \<Longrightarrow> fbyte f p st1 = fbyte f p st"
  proof (cases "f_size f st < of_nat ?L")
    case False
    then show thesis using en uL by (intro that [of st]) (simp_all add: word_less_nat_alt)
  next
    case True
    obtain st1 where "file_set_size f (of_nat ?L) st = Some st1" "enough f ?K st1" "f_size f st1 = of_nat ?L"
      "\<And>p. p < 4235264 \<Longrightarrow> fbyte f p st1 = fbyte f p st"
      using file_set_size_grow [OF en sz _ True] lim uL by auto
    then show thesis using True uL by (intro that [of st1]) (simp_all add: word_less_nat_alt)
  qed
  obtain st2 where st2: "file_write_loop f (of_nat off) (of_nat ?L) buf st1 = Some (Inr (), st2)"
    "enough f ?K st2" "f_size f st2 = f_size f st1"
    "\<forall>p<4235264. fbyte f p st2 = (if off \<le> p \<and> p < ?L then buf ! (p - off) else fbyte f p st1)"
    using file_write_loop_spec [OF st1(2) _ lim order_refl, of buf] by auto
  have run: "file_write f buf (of_nat off) st = Some (Inr (of_nat (length buf)), st2)"
    unfolding file_write_def Let_def L st1(1) bind.bind_lunit st2(1) by simp
  have S: "unat (f_size f st2) = max (unat (f_size f st)) ?L" using st1(3) st2(3) by simp
  then have m: "min ?L (unat (f_size f st2)) = ?L" "off \<le> unat (f_size f st2)" by simp_all
  have "map (\<lambda>p. fbyte f p st2) [off..<?L] = buf"
    by (rule nth_equalityI) (use st2(4) lim in auto)
  then obtain st3 where "file_read f (of_nat (length buf)) (of_nat off) st2 = Some (Inr buf, st3)" "same_file f st2 st3"
    using file_read_spec [of f st2 off "length buf"] st2(2) lim sz S m by (auto simp: enough_def)
  then show ?thesis using run st2(2,4) st1(4) S by (auto simp: enough_def)
qed

section \<open>Properties of files\<close>

text \<open>C37. Reading returns the bytes of the file, fewer at its end, zeros for holes, and leaves the
  size and the bytes as they are. Blocks for the holes are allocated on the way, so there must be
  as many free blocks as holes in the range.\<close>

theorem file_read_exact:
  assumes ok: "file_ok f st" and sz: "unat (f_size f st) \<le> 4235264" "off \<le> unat (f_size f st)"
    and cnt: "cnt < 4294967296"
    and fr: "card (holes f (fspan off (min (off + cnt) (unat (f_size f st)))) st) \<le> card (free_set st)"
  shows "\<exists>st'. file_read f (of_nat cnt) (of_nat off) st
      = Some (Inr (map (\<lambda>p. fbyte f p st) [off..<min (off + cnt) (unat (f_size f st))]), st')
    \<and> file_ok f st' \<and> same_file f st st'"
  by (rule file_read_spec [OF assms])

text \<open>C38. Writing replaces the bytes of the range and no other byte, extends the file when the range
  ends behind its end, and keeps the invariant of the file; reading the range back gives what was
  written. The range must lie in the 1034 blocks of a file, and there must be as many free blocks
  as holes in it.\<close>

theorem file_write_read:
  assumes ok: "file_ok f st" and sz: "unat (f_size f st) \<le> 4235264" and lim: "off + length buf \<le> 4235264"
    and fr: "card (holes f (fspan off (off + length buf)) st) \<le> card (free_set st)"
  shows "\<exists>st' st''. file_write f buf (of_nat off) st = Some (Inr (of_nat (length buf)), st') \<and> file_ok f st'
    \<and> unat (f_size f st') = max (unat (f_size f st)) (off + length buf)
    \<and> (\<forall>p<4235264. fbyte f p st' = (if off \<le> p \<and> p < off + length buf then buf ! (p - off) else fbyte f p st))
    \<and> file_read f (of_nat (length buf)) (of_nat off) st' = Some (Inr buf, st'') \<and> same_file f st' st''"
  by (rule file_write_read_spec [OF assms])

text \<open>A disk of five blocks, of which block 3 is free, with an empty root directory.\<close>

definition sample_fs :: Fs where
  "sample_fs = \<lparr>blk = (\<lambda>b i. if (b, i) = (1, 1) then 5 else if (b, i) = (2, 0) then 8 else 0), dsk = (\<lambda>_ _. 0)\<rparr>"

lemma sample_fs_free: "free_set sample_fs = {3}"
proof -
  have "b \<in> free_set sample_fs \<longleftrightarrow> b = 3" for b
  proof (cases "b < 5")
    case True
    then consider "b = 0" | "b = 1" | "b = 2" | "b = 3" | "b = 4" by linarith
    then show ?thesis by cases (simp_all add: free_set_def sample_fs_def s_nblocks_def bitmap_def bit_iff_odd)
  qed (simp add: free_set_def sample_fs_def s_nblocks_def)
  then show ?thesis by blast
qed

lemma sample_fs_file: "ptr s_root k sample_fs = 0" "f_size s_root sample_fs = 0" "file_ok s_root sample_fs"
proof -
  show p: "ptr s_root k sample_fs = 0" for k
    by (simp add: ptr_def f_direct_def f_indirect_def f_word_def s_root_def sample_fs_def)
  show "f_size s_root sample_fs = 0" by (simp add: f_size_def f_word_def s_root_def sample_fs_def)
  show "file_ok s_root sample_fs"
    unfolding file_ok_def p sample_fs_free by (simp add: data_block_def nbitmap_def s_nblocks_def s_root_def sample_fs_def)
qed

lemma sample_fs_holes: "card (holes s_root (fspan 0 3) sample_fs) = 1"
proof -
  have "holes s_root (fspan 0 3) sample_fs = {0}" by (auto simp: holes_def fspan_def sample_fs_file)
  then show ?thesis by simp
qed

theorem file_read_exact_witness:
  "\<exists>st'. file_read s_root (of_nat 5) (of_nat 0) sample_fs = Some (Inr [], st') \<and> same_file s_root sample_fs st'"
  using file_read_exact [of s_root sample_fs 0 5]
  by (auto simp: sample_fs_file holes_def fspan_def)

theorem file_write_read_witness:
  "\<exists>st' st''. file_write s_root [104, 105, 33] (of_nat 0) sample_fs = Some (Inr 3, st')
    \<and> fbyte s_root 1 st' = 105 \<and> file_read s_root 3 (of_nat 0) st' = Some (Inr [104, 105, 33], st'')"
proof -
  let ?buf = "[104, 105, 33] :: u8 list"
  have l: "0 + length ?buf = 3" by simp
  have "\<exists>st' st''. file_write s_root ?buf (of_nat 0) sample_fs = Some (Inr (of_nat (length ?buf)), st') \<and> file_ok s_root st'
    \<and> unat (f_size s_root st') = max (unat (f_size s_root sample_fs)) (0 + length ?buf)
    \<and> (\<forall>p<4235264. fbyte s_root p st' = (if 0 \<le> p \<and> p < 0 + length ?buf then ?buf ! (p - 0) else fbyte s_root p sample_fs))
    \<and> file_read s_root (of_nat (length ?buf)) (of_nat 0) st' = Some (Inr ?buf, st'') \<and> same_file s_root st' st''"
    by (rule file_write_read) (unfold l, simp_all add: sample_fs_file sample_fs_free sample_fs_holes)
  then obtain st' st'' where r: "file_write s_root ?buf (of_nat 0) sample_fs = Some (Inr (of_nat (length ?buf)), st')"
    "\<forall>p<4235264. fbyte s_root p st' = (if 0 \<le> p \<and> p < 0 + length ?buf then ?buf ! (p - 0) else fbyte s_root p sample_fs)"
    "file_read s_root (of_nat (length ?buf)) (of_nat 0) st' = Some (Inr ?buf, st'')" by blast
  from r(2) have "fbyte s_root 1 st' = 105" by simp
  with r(1,3) show ?thesis by (intro exI [of _ st'] exI [of _ st'']) simp
qed

end
