(* ===== verification/File_Server.thy ===== *)
theory File_Server
  imports Fs_Inv
begin

text \<open>
  The file server (\<open>fs/serv.c\<close>): the table of open files, the handlers of the requests and one round
  of the server loop, on top of the file system of \<open>Fs\<close>. The \<open>struct Fd\<close> page of an open file is
  shared with the clients that hold it, which may write to it, and \<open>pageref\<close> counts its mappings.
  The reply value is the C \<open>int\<close> that is sent back. \<open>None\<close> is a panic of the server or an access
  outside of its buffers.
\<close>

section \<open>State\<close>

definition O_ACCMODE :: u32 where "O_ACCMODE = 3"
definition O_CREAT :: u32 where "O_CREAT = 0x100"
definition O_TRUNC :: u32 where "O_TRUNC = 0x200"
definition O_EXCL :: u32 where "O_EXCL = 0x400"

definition MAXOPEN :: nat where "MAXOPEN = 1024"
definition MAXPATHLEN :: nat where "MAXPATHLEN = 1024"
definition FILEVA :: u32 where "FILEVA = 0xD0000000"

record Fd =
  fd_dev_id :: u32
  fd_offset :: u32
  fd_omode :: u32
  fd_file_id :: u32

record OpenFile =
  o_fileid :: u32
  o_file :: "fptr option"
  o_mode :: u32
  o_fd :: u32

text \<open>The file system, the table, and the pages of the descriptors by their address in the server:
  their contents and the number of their mappings in all environments.\<close>

record Server =
  srv_fs :: Fs
  opentab :: "nat \<Rightarrow> OpenFile"
  fd_page :: "u32 \<Rightarrow> Fd"
  page_ref :: "u32 \<Rightarrow> nat"

definition empty_fd :: Fd where
  "empty_fd = \<lparr>fd_dev_id = 0, fd_offset = 0, fd_omode = 0, fd_file_id = 0\<rparr>"

definition err :: "error \<Rightarrow> int" where
  "err e = - error_code e"

section \<open>The table of open files\<close>

primrec serve_init_loop :: "nat \<Rightarrow> nat \<Rightarrow> u32 \<Rightarrow> Server \<Rightarrow> Server" where
  "serve_init_loop 0 i va s = s"
| "serve_init_loop (Suc k) i va s =
     serve_init_loop k (Suc i) (va + 4096)
       (s\<lparr>opentab := (opentab s)(i := (opentab s i)\<lparr>o_fileid := of_nat i, o_fd := va\<rparr>)\<rparr>)"

definition serve_init :: "Server \<Rightarrow> Server" where
  "serve_init s = serve_init_loop MAXOPEN 0 FILEVA s"

text \<open>The new id of the entry, and its page cleared.\<close>

definition take_entry :: "nat \<Rightarrow> Server \<Rightarrow> int \<times> nat option \<times> Server" where
  "take_entry i s =
     (let fileid = o_fileid (opentab s i) + of_nat MAXOPEN
      in (sint fileid, Some i,
          s\<lparr>opentab := (opentab s)(i := (opentab s i)\<lparr>o_fileid := fileid\<rparr>),
            fd_page := (fd_page s)(o_fd (opentab s i) := empty_fd)\<rparr>))"

text \<open>\<open>nomem\<close> says that \<open>sys_page_alloc\<close> fails.\<close>

primrec openfile_scan :: "bool \<Rightarrow> nat list \<Rightarrow> Server \<Rightarrow> int \<times> nat option \<times> Server" where
  "openfile_scan nomem [] s = (err E_MAX_OPEN, None, s)"
| "openfile_scan nomem (i # is) s =
     (let va = o_fd (opentab s i)
      in if page_ref s va = 0 then
           if nomem then (err E_NO_MEM, None, s)
           else take_entry i (s\<lparr>page_ref := (page_ref s)(va := 1)\<rparr>)
         else if page_ref s va = 1 then take_entry i s
         else openfile_scan nomem is s)"

definition openfile_alloc :: "bool \<Rightarrow> Server \<Rightarrow> int \<times> nat option \<times> Server" where
  "openfile_alloc nomem s = openfile_scan nomem [0..<MAXOPEN] s"

definition openfile_lookup :: "u32 \<Rightarrow> Server \<Rightarrow> error + nat" where
  "openfile_lookup fileid s =
     (let i = unat (fileid mod of_nat MAXOPEN); o1 = opentab s i
      in if page_ref s (o_fd o1) \<le> 1 \<or> o_fileid o1 \<noteq> fileid then Inl E_INVAL else Inr i)"

section \<open>The handlers\<close>

text \<open>The path in the request, with a terminator at its last byte.\<close>

definition req_path :: "u8 list \<Rightarrow> u8 list" where
  "req_path p = takeWhile (\<lambda>c. c \<noteq> 0) (take (MAXPATHLEN - 1) p)"

text \<open>The file that \<open>serve_open\<close> opens or creates.\<close>

definition open_or_create :: "u8 list \<Rightarrow> u32 \<Rightarrow> Fs \<Rightarrow> fptr fres" where
  "open_or_create path omode st =
     (if omode AND O_CREAT \<noteq> 0 then
        do { (r, st1) \<leftarrow> file_create path st;
             (case r of
                Inr f \<Rightarrow> Some (Inr f, st1)
              | Inl e \<Rightarrow>
                  if omode AND O_EXCL = 0 \<and> e = E_FILE_EXISTS then file_open path st1 else Some (Inl e, st1)) }
      else file_open path st)"

definition serve_open :: "bool \<Rightarrow> u8 list \<Rightarrow> u32 \<Rightarrow> Server \<Rightarrow> (int \<times> nat option \<times> Server) option" where
  "serve_open nomem rpath omode s =
     (let path = req_path rpath
      in case openfile_alloc nomem s of
        (r, None, s1) \<Rightarrow> Some (r, None, s1)
      | (r, Some i, s1) \<Rightarrow>
          if r < 0 then Some (r, None, s1)
          else do { (rf, st2) \<leftarrow> open_or_create path omode (srv_fs s1);
                    (case rf of
                       Inl e \<Rightarrow> Some (err e, None, s1\<lparr>srv_fs := st2\<rparr>)
                     | Inr f \<Rightarrow>
                         do { st3 \<leftarrow> (if omode AND O_TRUNC \<noteq> 0 then file_set_size f 0 st2 else Some st2);
                              (rf2, st4) \<leftarrow> file_open path st3;
                              (case rf2 of
                                 Inl e \<Rightarrow> Some (err e, None, s1\<lparr>srv_fs := st4\<rparr>)
                               | Inr f2 \<Rightarrow>
                                   let o1 = opentab s1 i; va = o_fd o1
                                   in Some (0, Some i,
                                        s1\<lparr>srv_fs := st4,
                                          opentab := (opentab s1)(i := o1\<lparr>o_file := Some f2, o_mode := omode\<rparr>),
                                          fd_page := (fd_page s1)(va := (fd_page s1 va)\<lparr>fd_file_id := o_fileid o1,
                                            fd_omode := omode AND O_ACCMODE, fd_dev_id := 102\<rparr>)\<rparr>)) }) })"

text \<open>Finding the open file of a request; \<open>o_file\<close> is dereferenced.\<close>

definition with_file ::
  "u32 \<Rightarrow> Server \<Rightarrow> (nat \<Rightarrow> fptr \<Rightarrow> (int \<times> 'a \<times> Server) option) \<Rightarrow> 'a \<Rightarrow> (int \<times> 'a \<times> Server) option" where
  "with_file fileid s k d =
     (case openfile_lookup fileid s of
        Inl e \<Rightarrow> Some (err e, d, s)
      | Inr i \<Rightarrow> do { f \<leftarrow> o_file (opentab s i); k i f })"

definition serve_set_size :: "u32 \<Rightarrow> u32 \<Rightarrow> Server \<Rightarrow> (int \<times> unit \<times> Server) option" where
  "serve_set_size fileid sz s =
     with_file fileid s
       (\<lambda>i f. do { st1 \<leftarrow> file_set_size f sz (srv_fs s); Some (0, (), s\<lparr>srv_fs := st1\<rparr>) }) ()"

definition advance :: "nat \<Rightarrow> nat \<Rightarrow> Server \<Rightarrow> Server" where
  "advance i n s = (let va = o_fd (opentab s i)
     in s\<lparr>fd_page := (fd_page s)(va := (fd_page s va)\<lparr>fd_offset := fd_offset (fd_page s va) + of_nat n\<rparr>)\<rparr>)"

text \<open>\<open>ret_buf\<close> is one page; the code stores the bytes that were read there without a bound, and a
  longer read would go on into the disk map behind it.\<close>

definition serve_read :: "u32 \<Rightarrow> u32 \<Rightarrow> Server \<Rightarrow> (int \<times> u8 list \<times> Server) option" where
  "serve_read fileid n s =
     with_file fileid s
       (\<lambda>i f. do { (r, st1) \<leftarrow> file_read f n (fd_offset (fd_page s (o_fd (opentab s i)))) (srv_fs s);
                   (case r of
                      Inl e \<Rightarrow> Some (err e, [], s\<lparr>srv_fs := st1\<rparr>)
                    | Inr bs \<Rightarrow> if length bs > 4096 then None
                        else Some (int (length bs), bs, advance i (length bs) (s\<lparr>srv_fs := st1\<rparr>))) }) []"

text \<open>\<open>req_buf\<close> has 4088 bytes; a larger \<open>req_n\<close> would read behind the request page.\<close>

definition serve_write :: "u32 \<Rightarrow> u32 \<Rightarrow> u8 list \<Rightarrow> Server \<Rightarrow> (int \<times> unit \<times> Server) option" where
  "serve_write fileid n req_buf s =
     with_file fileid s
       (\<lambda>i f. if unat n > length req_buf then None
              else do { (r, st1) \<leftarrow> file_write f (take (unat n) req_buf) (fd_offset (fd_page s (o_fd (opentab s i)))) (srv_fs s);
                   (case r of
                      Inl e \<Rightarrow> Some (err e, (), s\<lparr>srv_fs := st1\<rparr>)
                    | Inr m \<Rightarrow> if sint m < 0 then Some (sint m, (), s\<lparr>srv_fs := st1\<rparr>)
                        else Some (sint m, (), advance i (unat m) (s\<lparr>srv_fs := st1\<rparr>))) }) ()"

text \<open>The name, the size and whether the file is a directory; a name without a terminator would
  overflow \<open>ret_name\<close>.\<close>

definition serve_stat :: "u32 \<Rightarrow> Server \<Rightarrow> (int \<times> (u8 list \<times> u32 \<times> bool) option \<times> Server) option" where
  "serve_stat fileid s =
     with_file fileid s
       (\<lambda>i f. let st = srv_fs s; name = map (\<lambda>k. f_name_byte f k st) [0..<MAXNAMELEN]
              in if 0 \<in> set name
                 then Some (0, Some (takeWhile (\<lambda>c. c \<noteq> 0) name, f_size f st, f_type f st = FTYPE_DIR), s)
                 else None) None"

definition serve_flush :: "u32 \<Rightarrow> Server \<Rightarrow> (int \<times> unit \<times> Server) option" where
  "serve_flush fileid s =
     with_file fileid s (\<lambda>i f. do { st1 \<leftarrow> file_flush f (srv_fs s); Some (0, (), s\<lparr>srv_fs := st1\<rparr>) }) ()"

definition serve_sync :: "Server \<Rightarrow> (int \<times> unit \<times> Server) option" where
  "serve_sync s = Some (0, (), s\<lparr>srv_fs := fs_sync (srv_fs s)\<rparr>)"

section \<open>The server loop\<close>

text \<open>The request page as the request code reads it. There is no handler for \<open>FSREQ_REMOVE\<close>.\<close>

datatype request =
    FSREQ_OPEN "u8 list" u32
  | FSREQ_SET_SIZE u32 u32
  | FSREQ_READ u32 u32
  | FSREQ_WRITE u32 u32 "u8 list"
  | FSREQ_STAT u32
  | FSREQ_FLUSH u32
  | FSREQ_REMOVE "u8 list"
  | FSREQ_SYNC
  | FSREQ_other u32

text \<open>What a client finds after the call: the value and what was stored on the request page.\<close>

datatype answer = Plain | Bytes "u8 list" | Stat_ret "(u8 list \<times> u32 \<times> bool) option"

text \<open>One round with an argument page: the reply, and with a successful open the descriptor page,
  which \<open>ipc_send\<close> maps into the client.\<close>

definition serve_round :: "bool \<Rightarrow> request \<Rightarrow> Server \<Rightarrow> (int \<times> answer \<times> nat option \<times> Server) option" where
  "serve_round nomem req s =
     (case req of
        FSREQ_OPEN path omode \<Rightarrow>
          do { (r, pg, s1) \<leftarrow> serve_open nomem path omode s;
               Some (r, Plain, pg,
                 (case pg of None \<Rightarrow> s1
                  | Some i \<Rightarrow> let va = o_fd (opentab s1 i) in s1\<lparr>page_ref := (page_ref s1)(va := page_ref s1 va + 1)\<rparr>)) }
      | FSREQ_SET_SIZE i n \<Rightarrow> do { (r, _, s1) \<leftarrow> serve_set_size i n s; Some (r, Plain, None, s1) }
      | FSREQ_READ i n \<Rightarrow> do { (r, bs, s1) \<leftarrow> serve_read i n s; Some (r, Bytes bs, None, s1) }
      | FSREQ_WRITE i n buf \<Rightarrow> do { (r, _, s1) \<leftarrow> serve_write i n buf s; Some (r, Plain, None, s1) }
      | FSREQ_STAT i \<Rightarrow> do { (r, x, s1) \<leftarrow> serve_stat i s; Some (r, Stat_ret x, None, s1) }
      | FSREQ_FLUSH i \<Rightarrow> do { (r, _, s1) \<leftarrow> serve_flush i s; Some (r, Plain, None, s1) }
      | FSREQ_SYNC \<Rightarrow> do { (r, _, s1) \<leftarrow> serve_sync s; Some (r, Plain, None, s1) }
      | FSREQ_REMOVE _ \<Rightarrow> Some (err E_INVAL, Plain, None, s)
      | FSREQ_other _ \<Rightarrow> Some (err E_INVAL, Plain, None, s))"

definition serve :: "bool \<Rightarrow> (bool \<times> request) \<Rightarrow> Server \<Rightarrow> ((int \<times> answer \<times> nat option) option \<times> Server) option" where
  "serve nomem msg s =
     (if \<not> fst msg then Some (None, s)
      else do { (r, a, pg, s1) \<leftarrow> serve_round nomem (snd msg) s; Some (Some (r, a, pg), s1) })"

section \<open>The invariant of the server\<close>

definition entry_va :: "nat \<Rightarrow> u32" where
  "entry_va i = FILEVA + of_nat i * 4096"

definition entry_ok :: "Server \<Rightarrow> nat \<Rightarrow> bool" where
  "entry_ok s i \<longleftrightarrow> unat (o_fileid (opentab s i)) mod 1024 = i \<and> o_fd (opentab s i) = entry_va i
     \<and> (2 \<le> page_ref s (entry_va i) \<longrightarrow> o_file (opentab s i) \<noteq> None)"

definition server_ok :: "Server \<Rightarrow> bool" where
  "server_ok s \<longleftrightarrow> (\<forall>i<1024. entry_ok s i)"

lemma server_okD: "server_ok s \<Longrightarrow> i < 1024 \<Longrightarrow> entry_ok s i"
  by (simp add: server_ok_def)

lemma entry_va_inj: "i < 1024 \<Longrightarrow> j < 1024 \<Longrightarrow> entry_va i = entry_va j \<longleftrightarrow> i = j"
proof
  assume a: "i < 1024" "j < 1024" "entry_va i = entry_va j"
  have u: "unat (of_nat k * 4096 :: u32) = k * 4096" if "k < 1024" for k
    using that by (simp add: unat_word_ariths unat_of_nat)
  from a(3) have "unat (of_nat i * 4096 :: u32) = unat (of_nat j * 4096 :: u32)" by (simp add: entry_va_def)
  then show "i = j" using u a(1,2) by simp
qed simp

lemma lookup_entry:
  assumes "entry_ok s i" and "i < 1024"
  shows "openfile_lookup (o_fileid (opentab s i)) s = (if page_ref s (entry_va i) \<le> 1 then Inl E_INVAL else Inr i)"
  using assms by (auto simp: openfile_lookup_def entry_ok_def Let_def MAXOPEN_def unat_mod_distrib)

lemma serve_init_loop_entry:
  "k + i \<le> 1024 \<Longrightarrow> opentab (serve_init_loop k i va s) j
     = (if i \<le> j \<and> j < i + k then (opentab s j)\<lparr>o_fileid := of_nat j, o_fd := va + of_nat (j - i) * 4096\<rparr> else opentab s j)"
proof (induction k arbitrary: i va s)
  case (Suc k)
  have "va + 4096 + of_nat (j - Suc i) * 4096 = va + of_nat (j - i) * 4096" if "Suc i \<le> j"
  proof -
    have "j - i = Suc (j - Suc i)" using that by simp
    then show ?thesis by (simp add: algebra_simps)
  qed
  then show ?case using Suc.prems by (auto simp: Suc.IH)
qed auto

text \<open>The initial table satisfies the invariant when no descriptor page is mapped.\<close>

lemma serve_init_page_ref: "page_ref (serve_init_loop k i va s) = page_ref s"
  by (induction k arbitrary: i va s) simp_all

lemma serve_init_ok: "(\<And>va. page_ref s va \<le> 1) \<Longrightarrow> server_ok (serve_init s)"
proof -
  assume r: "\<And>va. page_ref s va \<le> 1"
  have "\<not> 2 \<le> page_ref s va" for va using r [of va] by simp
  then show ?thesis
    by (auto simp: server_ok_def entry_ok_def serve_init_def serve_init_loop_entry serve_init_page_ref MAXOPEN_def
        entry_va_def unat_of_nat)
qed

section \<open>What a request changes\<close>

lemma openfile_scan_spec:
  assumes "openfile_scan nomem is s = (r, oi, s')"
  shows "case oi of
      None \<Rightarrow> s' = s \<and> r < 0
    | Some i \<Rightarrow> i \<in> set is \<and> page_ref s (o_fd (opentab s i)) \<le> 1
        \<and> r = sint (o_fileid (opentab s i) + 1024)
        \<and> s' = s\<lparr>page_ref := (page_ref s)(o_fd (opentab s i) := 1),
            opentab := (opentab s)(i := (opentab s i)\<lparr>o_fileid := o_fileid (opentab s i) + 1024\<rparr>),
            fd_page := (fd_page s)(o_fd (opentab s i) := empty_fd)\<rparr>"
  using assms
proof (induction "is")
  case Nil
  then show ?case by (auto simp: err_def)
next
  case (Cons i "is")
  let ?va = "o_fd (opentab s i)"
  consider "page_ref s ?va = 0" | "page_ref s ?va = 1" | "page_ref s ?va > 1" by linarith
  then show ?case
  proof cases
    case 1
    then show ?thesis using Cons.prems by (auto simp: Let_def take_entry_def MAXOPEN_def err_def split: if_splits)
  next
    case 2
    then have "(page_ref s)(?va := 1) = page_ref s" by (simp add: fun_upd_idem)
    with 2 show ?thesis using Cons.prems by (auto simp: Let_def take_entry_def MAXOPEN_def)
  next
    case 3
    then have "openfile_scan nomem is s = (r, oi, s')" using Cons.prems by simp
    from Cons.IH [OF this] show ?thesis by (cases oi) simp_all
  qed
qed

text \<open>The handlers other than open leave the table and the mappings alone.\<close>

definition same_table :: "Server \<Rightarrow> Server \<Rightarrow> bool" where
  "same_table s s' \<longleftrightarrow> opentab s' = opentab s \<and> page_ref s' = page_ref s"

lemma same_table_refl: "same_table s s"
  by (simp add: same_table_def)

lemma with_file_table:
  assumes "with_file fileid s k d = Some (r, x, s')" and "\<And>i f r x s'. k i f = Some (r, x, s') \<Longrightarrow> same_table s s'"
  shows "same_table s s'"
  using assms by (auto simp: with_file_def same_table_def split: sum.splits bind_splits)

lemma advance_table [simp]: "opentab (advance i n s) = opentab s" "page_ref (advance i n s) = page_ref s"
  by (simp_all add: advance_def Let_def)

lemma handlers_table:
  "serve_set_size fileid sz s = Some (r, u, s') \<Longrightarrow> same_table s s'"
  "serve_read fileid n s = Some (r, bs, s') \<Longrightarrow> same_table s s'"
  "serve_write fileid n buf s = Some (r, u, s') \<Longrightarrow> same_table s s'"
  "serve_stat fileid s = Some (r, st, s') \<Longrightarrow> same_table s s'"
  "serve_flush fileid s = Some (r, u, s') \<Longrightarrow> same_table s s'"
  unfolding serve_set_size_def serve_read_def serve_write_def serve_stat_def serve_flush_def
  by (erule with_file_table, (auto simp: same_table_def Let_def split: bind_splits sum.splits if_splits)[1])+

lemma serve_sync_table: "serve_sync s = Some (r, u, s') \<Longrightarrow> same_table s s'"
  by (auto simp: serve_sync_def same_table_def)

text \<open>What open leaves alone, and what a successful open gives.\<close>

lemma serve_open_spec:
  assumes so: "serve_open nomem path omode s = Some (r, pg, s')"
  obtains "pg = None" and "r < 0" and "same_table s s'"
  | i id where "i < 1024" and "page_ref s (o_fd (opentab s i)) \<le> 1" and "id = o_fileid (opentab s i) + 1024"
      and "page_ref s' = (page_ref s)(o_fd (opentab s i) := 1)"
      and "\<And>j. j \<noteq> i \<Longrightarrow> opentab s' j = opentab s j" and "o_fileid (opentab s' i) = id"
      and "o_fd (opentab s' i) = o_fd (opentab s i)"
      and "pg = None \<and> r < 0 \<or> pg = Some i \<and> r = 0 \<and> o_file (opentab s' i) \<noteq> None
        \<and> fd_file_id (fd_page s' (o_fd (opentab s i))) = id \<and> fd_offset (fd_page s' (o_fd (opentab s i))) = 0"
proof -
  obtain r1 oi s1 where al: "openfile_alloc nomem s = (r1, oi, s1)" by (cases "openfile_alloc nomem s")
  note sp = openfile_scan_spec [OF al [unfolded openfile_alloc_def]]
  have neg: "err e < 0" for e by (cases e) (simp_all add: err_def)
  show thesis
  proof (cases oi)
    case None
    then show thesis using so al sp by (intro that(1)) (simp_all add: serve_open_def same_table_def)
  next
    case (Some i)
    let ?va = "o_fd (opentab s i)"
    note sp1 = sp [unfolded Some option.case]
    have i: "i < 1024" using sp1 by (simp add: MAXOPEN_def)
    have s1: "page_ref s1 = (page_ref s)(?va := 1)" "\<And>j. j \<noteq> i \<Longrightarrow> opentab s1 j = opentab s j"
      "opentab s1 i = (opentab s i)\<lparr>o_fileid := o_fileid (opentab s i) + 1024\<rparr>" "fd_page s1 ?va = empty_fd"
      using sp1 by simp_all
    have res: "pg = None \<and> r < 0 \<and> page_ref s' = page_ref s1 \<and> opentab s' = opentab s1
      \<or> pg = Some i \<and> r = 0 \<and> page_ref s' = page_ref s1 \<and> (\<forall>j. j \<noteq> i \<longrightarrow> opentab s' j = opentab s1 j)
          \<and> o_fileid (opentab s' i) = o_fileid (opentab s1 i) \<and> o_fd (opentab s' i) = o_fd (opentab s1 i)
          \<and> o_file (opentab s' i) \<noteq> None \<and> fd_file_id (fd_page s' ?va) = o_fileid (opentab s1 i)
          \<and> fd_offset (fd_page s' ?va) = fd_offset (fd_page s1 ?va)"
      using so al neg s1(3) unfolding serve_open_def Some Let_def
      by (auto split: bind_splits sum.splits if_splits)
    show thesis
      by (rule that(2) [OF i, of "o_fileid (opentab s i) + 1024"]) (use sp1 s1 res in \<open>auto simp: empty_fd_def\<close>)
  qed
qed

text \<open>One round keeps the invariant, and does not touch the entries that clients hold.\<close>

lemma same_table_ok: "same_table s s' \<Longrightarrow> server_ok s \<Longrightarrow> server_ok s'"
  by (simp add: same_table_def server_ok_def entry_ok_def)

lemma next_id: "unat (w + 1024) mod 1024 = unat w mod 1024" "w + 1024 \<noteq> w" for w :: u32
proof -
  have "unat (w + 1024) mod 1024 = (unat w + 1024) mod 4294967296 mod 1024" by (simp add: unat_word_ariths)
  then show "unat (w + 1024) mod 1024 = unat w mod 1024" by (simp add: mod_mod_cancel)
qed simp

definition kept :: "Server \<Rightarrow> Server \<Rightarrow> bool" where
  "kept s s' \<longleftrightarrow> server_ok s' \<and> (\<forall>i<1024. 2 \<le> page_ref s (entry_va i) \<longrightarrow> opentab s' i = opentab s i)"

lemma same_table_kept: "server_ok s \<Longrightarrow> same_table s s' \<Longrightarrow> kept s s'"
  using same_table_ok by (auto simp: kept_def same_table_def)

lemma serve_open_round:
  assumes ok: "server_ok s" and run: "serve_round nomem (FSREQ_OPEN path omode) s = Some (r, a, pg, s')"
  shows "kept s s'"
    and "pg = Some i \<Longrightarrow> i < 1024 \<and> r = 0 \<and> page_ref s (entry_va i) \<le> 1 \<and> page_ref s' (entry_va i) = 2
      \<and> o_fileid (opentab s' i) = o_fileid (opentab s i) + 1024
      \<and> o_file (opentab s' i) \<noteq> None \<and> fd_file_id (fd_page s' (entry_va i)) = o_fileid (opentab s' i)
      \<and> fd_offset (fd_page s' (entry_va i)) = 0"
proof -
  obtain s1 where so: "serve_open nomem path omode s = Some (r, pg, s1)"
    and s': "s' = (case pg of None \<Rightarrow> s1
        | Some i \<Rightarrow> s1\<lparr>page_ref := (page_ref s1)(o_fd (opentab s1 i) := page_ref s1 (o_fd (opentab s1 i)) + 1)\<rparr>)"
    using run by (auto simp: serve_round_def Let_def split: bind_splits option.splits)
  from so have "kept s s' \<and> (\<forall>i. pg = Some i \<longrightarrow> i < 1024 \<and> r = 0 \<and> page_ref s (entry_va i) \<le> 1
      \<and> page_ref s' (entry_va i) = 2 \<and> o_fileid (opentab s' i) = o_fileid (opentab s i) + 1024
      \<and> o_file (opentab s' i) \<noteq> None \<and> fd_file_id (fd_page s' (entry_va i)) = o_fileid (opentab s' i)
      \<and> fd_offset (fd_page s' (entry_va i)) = 0)"
  proof (cases rule: serve_open_spec)
    case 1
    then show ?thesis using s' same_table_kept [OF ok] by simp
  next
    case (2 i id)
    have e: "entry_ok s i" by (rule server_okD [OF ok 2(1)])
    have va: "o_fd (opentab s i) = entry_va i" using e by (simp add: entry_ok_def)
    note r = 2 [unfolded va]
    have ref: "page_ref s' (entry_va j) = (if j = i then (if pg = None then 1 else 2) else page_ref s (entry_va j))"
      if "j < 1024" for j
    proof (cases pg)
      case None
      then show ?thesis using s' r(4) entry_va_inj [OF that 2(1)] by simp
    next
      case (Some k)
      then have "k = i" using r(8) by simp
      then show ?thesis using Some s' r(4,7) entry_va_inj [OF that 2(1)] by simp
    qed
    have tab: "opentab s' = opentab s1" "fd_page s' = fd_page s1" using s' by (auto split: option.splits)
    have "entry_ok s' j" if "j < 1024" for j
    proof (cases "j = i")
      case True
      then show ?thesis using e ref [OF that] r(3,6,7,8) next_id(1) by (auto simp: entry_ok_def tab)
    next
      case False
      then show ?thesis using server_okD [OF ok that] ref [OF that] r(5) by (simp add: entry_ok_def tab)
    qed
    moreover have "opentab s' j = opentab s j" if "2 \<le> page_ref s (entry_va j)" for j
      using that r(2) r(5) [of j] unfolding tab by (cases "j = i") simp_all
    ultimately have "kept s s'" by (simp add: kept_def server_ok_def)
    then show ?thesis using r ref [OF 2(1)] by (auto simp: tab)
  qed
  then show "kept s s'" "pg = Some i \<Longrightarrow> i < 1024 \<and> r = 0 \<and> page_ref s (entry_va i) \<le> 1 \<and> page_ref s' (entry_va i) = 2
      \<and> o_fileid (opentab s' i) = o_fileid (opentab s i) + 1024
      \<and> o_file (opentab s' i) \<noteq> None \<and> fd_file_id (fd_page s' (entry_va i)) = o_fileid (opentab s' i)
      \<and> fd_offset (fd_page s' (entry_va i)) = 0"
    by blast+
qed

lemma serve_kept:
  assumes ok: "server_ok s" and run: "serve nomem msg s = Some (rep, s')"
  shows "kept s s'"
proof (cases "fst msg")
  case False
  then show ?thesis using run ok by (auto simp: serve_def kept_def)
next
  case True
  then obtain r a pg where rr: "serve_round nomem (snd msg) s = Some (r, a, pg, s')"
    using run by (auto simp: serve_def split: bind_splits)
  show ?thesis
  proof (cases "\<exists>path omode. snd msg = FSREQ_OPEN path omode")
    case True
    then show ?thesis using rr serve_open_round(1) [OF ok] by auto
  next
    case False
    then have "same_table s s'"
      using rr by (cases "snd msg") (auto simp: serve_round_def same_table_refl dest: handlers_table serve_sync_table split: bind_splits)
    then show ?thesis by (rule same_table_kept [OF ok])
  qed
qed

section \<open>The server and its clients\<close>

text \<open>Clients that hold a descriptor page may share it with others, unmap it, and write to it.\<close>

inductive client_step :: "Server \<Rightarrow> Server \<Rightarrow> bool" where
  share: "2 \<le> page_ref s va \<Longrightarrow> client_step s (s\<lparr>page_ref := (page_ref s)(va := page_ref s va + 1)\<rparr>)"
| unmap: "2 \<le> page_ref s va \<Longrightarrow> client_step s (s\<lparr>page_ref := (page_ref s)(va := page_ref s va - 1)\<rparr>)"
| store: "2 \<le> page_ref s va \<Longrightarrow> client_step s (s\<lparr>fd_page := (fd_page s)(va := fd)\<rparr>)"

inductive server_step :: "Server \<Rightarrow> Server \<Rightarrow> bool" where
  request: "serve nomem msg s = Some (rep, s') \<Longrightarrow> server_step s s'"
| client: "client_step s s' \<Longrightarrow> server_step s s'"

text \<open>Steps during which the page at \<open>va\<close> stays mapped by a client.\<close>

inductive run_holding :: "u32 \<Rightarrow> Server \<Rightarrow> Server \<Rightarrow> bool" for va where
  stop: "2 \<le> page_ref s va \<Longrightarrow> run_holding va s s"
| step: "run_holding va s s1 \<Longrightarrow> server_step s1 s2 \<Longrightarrow> 2 \<le> page_ref s2 va \<Longrightarrow> run_holding va s s2"

lemma client_kept: "client_step s s' \<Longrightarrow> server_ok s \<Longrightarrow> kept s s'"
  by (induction rule: client_step.induct) (auto simp: kept_def server_ok_def entry_ok_def)

lemma step_kept: "server_step s s' \<Longrightarrow> server_ok s \<Longrightarrow> kept s s'"
  by (induction rule: server_step.induct) (auto intro: serve_kept client_kept)

lemma run_holding_kept:
  assumes "run_holding (entry_va i) s s'" and "server_ok s" and "i < 1024"
  shows "server_ok s' \<and> opentab s' i = opentab s i \<and> 2 \<le> page_ref s' (entry_va i)"
  using assms
proof (induction rule: run_holding.induct)
  case (step s s1 s2)
  then have "kept s1 s2" using step_kept by blast
  with step show ?case by (auto simp: kept_def)
qed simp

section \<open>Properties\<close>

text \<open>C39. Whatever the clients do, the id of an open file stays valid as long as somebody holds its
  descriptor page: after a successful open the server resolves the id in the descriptor to the same
  entry and the same file in every later state of such a run, and refuses the id that the entry had
  before. The entry was not held by a client when it was taken.\<close>

theorem open_file_stable:
  assumes ok: "server_ok s"
    and run: "serve nomem (True, FSREQ_OPEN path omode) s = Some (Some (r, a, Some i), s1)"
    and later: "run_holding (o_fd (opentab s1 i)) s1 s2"
  shows "r = 0 \<and> page_ref s (o_fd (opentab s i)) \<le> 1
    \<and> (\<exists>f. openfile_lookup (fd_file_id (fd_page s1 (o_fd (opentab s1 i)))) s2 = Inr i
        \<and> o_file (opentab s1 i) = Some f \<and> o_file (opentab s2 i) = Some f)
    \<and> openfile_lookup (o_fileid (opentab s i)) s2 = Inl E_INVAL \<and> server_ok s2"
proof -
  have rr: "serve_round nomem (FSREQ_OPEN path omode) s = Some (r, a, Some i, s1)"
    using run by (auto simp: serve_def split: bind_splits)
  note sp = serve_open_round [OF ok rr]
  have i: "i < 1024" using sp(2) by blast
  have ok1: "server_ok s1" using sp(1) by (simp add: kept_def)
  have va: "o_fd (opentab s1 i) = entry_va i" "o_fd (opentab s i) = entry_va i"
    using server_okD [OF ok1 i] server_okD [OF ok i] by (simp_all add: entry_ok_def)
  have k: "server_ok s2 \<and> opentab s2 i = opentab s1 i \<and> 2 \<le> page_ref s2 (entry_va i)"
    using run_holding_kept later ok1 i va(1) by simp
  have id: "o_fileid (opentab s1 i) = o_fileid (opentab s i) + 1024"
    "fd_file_id (fd_page s1 (entry_va i)) = o_fileid (opentab s1 i)" "o_file (opentab s1 i) \<noteq> None"
    using sp(2) by simp_all
  have e: "entry_ok s2 i" using k server_okD i by blast
  have found: "openfile_lookup (o_fileid (opentab s1 i)) s2 = Inr i"
    using lookup_entry [OF e i] k by auto
  have "unat (o_fileid (opentab s i)) mod 1024 = i" using server_okD [OF ok i] by (simp add: entry_ok_def)
  moreover have "o_fileid (opentab s2 i) \<noteq> o_fileid (opentab s i)" using k id(1) next_id(2) by simp
  ultimately have stale: "openfile_lookup (o_fileid (opentab s i)) s2 = Inl E_INVAL"
    by (simp add: openfile_lookup_def Let_def MAXOPEN_def unat_mod_distrib)
  obtain f where "o_file (opentab s1 i) = Some f" using id(3) by blast
  with k id(2) found stale sp(2) va show ?thesis by simp
qed

definition sample_server :: Server where
  "sample_server = serve_init \<lparr>srv_fs = sample_fs,
     opentab = (\<lambda>_. \<lparr>o_fileid = 0, o_file = None, o_mode = 0, o_fd = 0\<rparr>),
     fd_page = (\<lambda>_. empty_fd), page_ref = (\<lambda>_. 0)\<rparr>"

lemma sample_server_ok: "server_ok sample_server"
  unfolding sample_server_def by (rule serve_init_ok) simp

lemma sample_server_entry: "opentab sample_server 0 = \<lparr>o_fileid = 0, o_file = None, o_mode = 0, o_fd = FILEVA\<rparr>"
  "page_ref sample_server = (\<lambda>_. 0)"
  by (simp_all add: sample_server_def serve_init_def serve_init_loop_entry serve_init_page_ref MAXOPEN_def)

lemma open_root: "file_open [47] st = Some (Inr s_root, st)"
proof -
  have "walk_loop None s_root [] st = Some (\<lparr>w_res = Inr s_root, w_dir = None, w_last = []\<rparr>, st)"
    by (subst walk_loop.simps) (simp only: refl if_True)
  then show ?thesis by (simp add: file_open_def walk_path_def skip_slash_def del: walk_loop.simps)
qed

lemma serve_init_fs: "srv_fs (serve_init_loop k i va s) = srv_fs s"
  by (induction k arbitrary: i va s) simp_all

lemma sample_open_root:
  assumes "omode AND O_CREAT = 0" and "omode AND O_TRUNC = 0"
  shows "\<exists>s1. serve_round False (FSREQ_OPEN [47] omode) sample_server = Some (0, Plain, Some 0, s1)
    \<and> opentab s1 0 = \<lparr>o_fileid = 1024, o_file = Some s_root, o_mode = omode, o_fd = FILEVA\<rparr>
    \<and> page_ref s1 FILEVA = 2 \<and> srv_fs s1 = sample_fs
    \<and> fd_page s1 FILEVA = \<lparr>fd_dev_id = 102, fd_offset = 0, fd_omode = omode AND O_ACCMODE, fd_file_id = 1024\<rparr>"
proof -
  have u: "[0..<1024] = 0 # [Suc 0..<1024]" by (rule upt_conv_Cons) simp
  have "openfile_scan False (0 # is) sample_server
      = take_entry 0 (sample_server\<lparr>page_ref := (page_ref sample_server)(FILEVA := 1)\<rparr>)" for "is"
    by (simp add: sample_server_entry)
  then have al: "openfile_alloc False sample_server
      = take_entry 0 (sample_server\<lparr>page_ref := (page_ref sample_server)(FILEVA := 1)\<rparr>)"
    unfolding openfile_alloc_def MAXOPEN_def u by blast
  have p: "req_path [47] = [47]" by (simp add: req_path_def MAXPATHLEN_def)
  have f: "srv_fs sample_server = sample_fs" by (simp add: sample_server_def serve_init_def serve_init_fs)
  show ?thesis
    using assms by (simp add: serve_round_def serve_open_def al p f take_entry_def open_or_create_def open_root Let_def
        sample_server_entry MAXOPEN_def empty_fd_def)
qed

definition sample_opened :: Server where
  "sample_opened = snd (the (serve False (True, FSREQ_OPEN [47] 0) sample_server))"

lemma sample_open:
  "serve False (True, FSREQ_OPEN [47] 0) sample_server = Some (Some (0, Plain, Some 0), sample_opened)"
  "opentab sample_opened 0 = \<lparr>o_fileid = 1024, o_file = Some s_root, o_mode = 0, o_fd = FILEVA\<rparr>"
  "page_ref sample_opened FILEVA = 2" "fd_file_id (fd_page sample_opened FILEVA) = 1024"
  using sample_open_root [of 0] by (auto simp: sample_opened_def serve_def)

theorem open_file_stable_witness:
  "\<exists>f. openfile_lookup 1024 sample_opened = Inr 0 \<and> o_file (opentab sample_opened 0) = Some f
     \<and> openfile_lookup 0 sample_opened = Inl E_INVAL"
proof -
  have "run_holding (o_fd (opentab sample_opened 0)) sample_opened sample_opened"
    by (rule run_holding.stop) (simp add: sample_open(2,3))
  from open_file_stable [OF sample_server_ok sample_open(1) this] show ?thesis
    by (auto simp: sample_open(2,4) sample_server_entry)
qed

end
