(* ===== verification/File_Client.thy ===== *)
theory File_Client
  imports File_Server
begin

text \<open>
  The descriptor layer of the user library (\<open>lib/fd.c\<close>), the client of the file server
  (\<open>lib/file.c\<close>) and the creation of pipes (\<open>lib/pipe.c\<close>), composed with the server of \<open>File_Server\<close>.
  A descriptor is a page that is mapped in the table at \<open>FDTABLE\<close>; a page of the file server is
  shared with it, other pages are frames of the environment. The devices other than files are an
  argument. \<open>None\<close> is a panic or a failed assertion.
\<close>

section \<open>State\<close>

definition MAXFD :: nat where "MAXFD = 32"
definition FDTABLE :: u32 where "FDTABLE = 0xD0000000"
definition FILEDATA :: u32 where "FILEDATA = FDTABLE + of_nat MAXFD * 4096"

definition INDEX2FD :: "u32 \<Rightarrow> u32" where "INDEX2FD i = FDTABLE + i * 4096"
definition INDEX2DATA :: "u32 \<Rightarrow> u32" where "INDEX2DATA i = FILEDATA + i * 4096"

text \<open>A mapped page: the descriptor page of the server with this address there, or an own frame.\<close>

datatype upage = Served u32 | Frame nat

record Client =
  c_srv :: Server
  c_map :: "u32 \<Rightarrow> upage option"
  c_frame :: "nat \<Rightarrow> Fd"
  c_ref :: "nat \<Rightarrow> nat"

definition fd_at :: "u32 \<Rightarrow> Client \<Rightarrow> Fd" where
  "fd_at fd c = (case c_map c fd of
     Some (Served va) \<Rightarrow> fd_page (c_srv c) va | Some (Frame n) \<Rightarrow> c_frame c n | None \<Rightarrow> empty_fd)"

definition set_fd :: "u32 \<Rightarrow> Fd \<Rightarrow> Client \<Rightarrow> Client" where
  "set_fd fd x c = (case c_map c fd of
     Some (Served va) \<Rightarrow> c\<lparr>c_srv := (c_srv c)\<lparr>fd_page := (fd_page (c_srv c))(va := x)\<rparr>\<rparr>
   | Some (Frame n) \<Rightarrow> c\<lparr>c_frame := (c_frame c)(n := x)\<rparr> | None \<Rightarrow> c)"

text \<open>The mappings of a page change with the system calls; \<open>nomem\<close> says that they run out of memory.\<close>

definition add_ref :: "upage \<Rightarrow> Client \<Rightarrow> Client" where
  "add_ref p c = (case p of
     Served va \<Rightarrow> c\<lparr>c_srv := (c_srv c)\<lparr>page_ref := (page_ref (c_srv c))(va := page_ref (c_srv c) va + 1)\<rparr>\<rparr>
   | Frame n \<Rightarrow> c\<lparr>c_ref := (c_ref c)(n := c_ref c n + 1)\<rparr>)"

definition drop_ref :: "upage \<Rightarrow> Client \<Rightarrow> Client" where
  "drop_ref p c = (case p of
     Served va \<Rightarrow> c\<lparr>c_srv := (c_srv c)\<lparr>page_ref := (page_ref (c_srv c))(va := page_ref (c_srv c) va - 1)\<rparr>\<rparr>
   | Frame n \<Rightarrow> c\<lparr>c_ref := (c_ref c)(n := c_ref c n - 1)\<rparr>)"

definition page_unmap :: "u32 \<Rightarrow> Client \<Rightarrow> Client" where
  "page_unmap va c = (case c_map c va of None \<Rightarrow> c | Some p \<Rightarrow> drop_ref p (c\<lparr>c_map := (c_map c)(va := None)\<rparr>))"

definition page_map_at :: "u32 \<Rightarrow> upage \<Rightarrow> Client \<Rightarrow> Client" where
  "page_map_at va p c = (let c1 = page_unmap va (add_ref p c) in c1\<lparr>c_map := (c_map c1)(va \<mapsto> p)\<rparr>)"

definition page_map :: "bool \<Rightarrow> u32 \<Rightarrow> u32 \<Rightarrow> Client \<Rightarrow> int \<times> Client" where
  "page_map nomem src dst c = (case c_map c src of
     None \<Rightarrow> (err E_INVAL, c)
   | Some p \<Rightarrow> if nomem then (err E_NO_MEM, c) else (0, page_map_at dst p c))"

text \<open>\<open>sys_page_alloc\<close> takes a frame that nobody maps.\<close>

definition page_alloc_at :: "nat option \<Rightarrow> u32 \<Rightarrow> Client \<Rightarrow> int \<times> Client" where
  "page_alloc_at free va c = (case free of
     None \<Rightarrow> (err E_NO_MEM, c)
   | Some n \<Rightarrow> (0, page_map_at va (Frame n) (c\<lparr>c_frame := (c_frame c)(n := empty_fd)\<rparr>)))"

section \<open>Descriptors\<close>

definition fd2num :: "u32 \<Rightarrow> u32" where
  "fd2num fd = (fd - FDTABLE) div 4096"

definition fd2data :: "u32 \<Rightarrow> u32" where
  "fd2data fd = INDEX2DATA (fd2num fd)"

definition fd_alloc :: "Client \<Rightarrow> error + u32" where
  "fd_alloc c = (case find (\<lambda>i. c_map c (INDEX2FD (of_nat i)) = None) [0..<MAXFD] of
     Some i \<Rightarrow> Inr (INDEX2FD (of_nat i)) | None \<Rightarrow> Inl E_MAX_OPEN)"

definition fd_lookup :: "int \<Rightarrow> Client \<Rightarrow> error + u32" where
  "fd_lookup fdnum c =
     (if fdnum < 0 \<or> fdnum \<ge> int MAXFD then Inl E_INVAL
      else let fd = INDEX2FD (word_of_int fdnum) in if c_map c fd = None then Inl E_INVAL else Inr fd)"

text \<open>The operations of a device; a missing one is a null pointer. They get the address of the
  descriptor.\<close>

record Dev =
  dev_id :: u32
  dev_read :: "(u32 \<Rightarrow> u32 \<Rightarrow> Client \<Rightarrow> (int \<times> u8 list \<times> Client) option) option"
  dev_write :: "(u32 \<Rightarrow> u8 list \<Rightarrow> Client \<Rightarrow> (int \<times> Client) option) option"
  dev_close :: "(u32 \<Rightarrow> Client \<Rightarrow> (int \<times> Client) option) option"
  dev_stat :: "(u32 \<Rightarrow> Client \<Rightarrow> (int \<times> (u8 list \<times> u32 \<times> bool) option \<times> Client) option) option"
  dev_trunc :: "(u32 \<Rightarrow> u32 \<Rightarrow> Client \<Rightarrow> (int \<times> Client) option) option"

definition dev_lookup :: "Dev list \<Rightarrow> u32 \<Rightarrow> error + Dev" where
  "dev_lookup devtab devid = (case find (\<lambda>d. dev_id d = devid) devtab of Some d \<Rightarrow> Inr d | None \<Rightarrow> Inl E_INVAL)"

text \<open>The result when \<open>fd\<close> is not the page of a descriptor is the error of \<open>fd_lookup\<close>, or 0, which
  it left in \<open>r\<close>.\<close>

definition fd_close :: "Dev list \<Rightarrow> u32 \<Rightarrow> bool \<Rightarrow> Client \<Rightarrow> (int \<times> Client) option" where
  "fd_close devtab fd must_exist c =
     (case fd_lookup (sint (fd2num fd)) c of
        Inl e \<Rightarrow> Some (if must_exist then err e else 0, c)
      | Inr fd2 \<Rightarrow>
          if fd \<noteq> fd2 then Some (0, c)
          else do { (r, c1) \<leftarrow> (case dev_lookup devtab (fd_dev_id (fd_at fd c)) of
                       Inl e \<Rightarrow> Some (err e, c)
                     | Inr dev \<Rightarrow> (case dev_close dev of None \<Rightarrow> Some (0, c) | Some f \<Rightarrow> f fd c));
                    Some (r, page_unmap fd c1) })"

definition close_fd :: "Dev list \<Rightarrow> int \<Rightarrow> Client \<Rightarrow> (int \<times> Client) option" where
  "close_fd devtab fdnum c =
     (case fd_lookup fdnum c of Inl e \<Rightarrow> Some (err e, c) | Inr fd \<Rightarrow> fd_close devtab fd True c)"

primrec close_each :: "Dev list \<Rightarrow> nat list \<Rightarrow> Client \<Rightarrow> Client option" where
  "close_each devtab [] c = Some c"
| "close_each devtab (i # is) c = do { (_, c1) \<leftarrow> close_fd devtab (int i) c; close_each devtab is c1 }"

definition close_all :: "Dev list \<Rightarrow> Client \<Rightarrow> Client option" where
  "close_all devtab c = close_each devtab [0..<MAXFD] c"

text \<open>\<open>nomem\<close> is for the two mappings. The new number is not checked.\<close>

definition dup :: "Dev list \<Rightarrow> bool \<times> bool \<Rightarrow> int \<Rightarrow> int \<Rightarrow> Client \<Rightarrow> (int \<times> Client) option" where
  "dup devtab nomem oldfdnum newfdnum c =
     (case fd_lookup oldfdnum c of
        Inl e \<Rightarrow> Some (err e, c)
      | Inr oldfd \<Rightarrow>
          do { (_, c1) \<leftarrow> close_fd devtab newfdnum c;
               let newfd = INDEX2FD (word_of_int newfdnum);
               let ova = fd2data oldfd;
               let nva = fd2data newfd;
               let (r1, c2) = (if c_map c1 ova \<noteq> None then page_map (fst nomem) ova nva c1 else (0, c1));
               let (r2, c3) = (if r1 < 0 then (r1, c2) else page_map (snd nomem) oldfd newfd c2);
               Some (if r2 < 0 then (r2, page_unmap nva (page_unmap newfd c3)) else (newfdnum, c3)) })"

section \<open>Operations on descriptors\<close>

definition with_dev :: "Dev list \<Rightarrow> int \<Rightarrow> Client \<Rightarrow> 'a \<Rightarrow> (u32 \<Rightarrow> Dev \<Rightarrow> (int \<times> 'a \<times> Client) option)
    \<Rightarrow> (int \<times> 'a \<times> Client) option" where
  "with_dev devtab fdnum c d k =
     (case fd_lookup fdnum c of
        Inl e \<Rightarrow> Some (err e, d, c)
      | Inr fd \<Rightarrow> (case dev_lookup devtab (fd_dev_id (fd_at fd c)) of Inl e \<Rightarrow> Some (err e, d, c) | Inr dev \<Rightarrow> k fd dev))"

definition fd_read :: "Dev list \<Rightarrow> int \<Rightarrow> u32 \<Rightarrow> Client \<Rightarrow> (int \<times> u8 list \<times> Client) option" where
  "fd_read devtab fdnum n c =
     with_dev devtab fdnum c []
       (\<lambda>fd dev. if fd_omode (fd_at fd c) AND O_ACCMODE = 1 then Some (err E_INVAL, [], c)
                 else (case dev_read dev of None \<Rightarrow> Some (err E_NOT_SUPP, [], c) | Some f \<Rightarrow> f fd n c))"

definition fd_write :: "Dev list \<Rightarrow> int \<Rightarrow> u8 list \<Rightarrow> Client \<Rightarrow> (int \<times> unit \<times> Client) option" where
  "fd_write devtab fdnum buf c =
     with_dev devtab fdnum c ()
       (\<lambda>fd dev. if fd_omode (fd_at fd c) AND O_ACCMODE = 0 then Some (err E_INVAL, (), c)
                 else (case dev_write dev of None \<Rightarrow> Some (err E_NOT_SUPP, (), c)
                       | Some f \<Rightarrow> do { (r, c1) \<leftarrow> f fd buf c; Some (r, (), c1) }))"

definition seek :: "int \<Rightarrow> u32 \<Rightarrow> Client \<Rightarrow> int \<times> Client" where
  "seek fdnum offset c =
     (case fd_lookup fdnum c of Inl e \<Rightarrow> (err e, c) | Inr fd \<Rightarrow> (0, set_fd fd ((fd_at fd c)\<lparr>fd_offset := offset\<rparr>) c))"

definition ftruncate :: "Dev list \<Rightarrow> int \<Rightarrow> u32 \<Rightarrow> Client \<Rightarrow> (int \<times> unit \<times> Client) option" where
  "ftruncate devtab fdnum newsize c =
     with_dev devtab fdnum c ()
       (\<lambda>fd dev. if fd_omode (fd_at fd c) AND O_ACCMODE = 0 then Some (err E_INVAL, (), c)
                 else (case dev_trunc dev of None \<Rightarrow> Some (err E_NOT_SUPP, (), c)
                       | Some f \<Rightarrow> do { (r, c1) \<leftarrow> f fd newsize c; Some (r, (), c1) }))"

definition fstat :: "Dev list \<Rightarrow> int \<Rightarrow> Client \<Rightarrow> (int \<times> (u8 list \<times> u32 \<times> bool) option \<times> Client) option" where
  "fstat devtab fdnum c =
     with_dev devtab fdnum c None
       (\<lambda>fd dev. case dev_stat dev of None \<Rightarrow> Some (err E_NOT_SUPP, None, c)
          | Some f \<Rightarrow> do { (r, x, c1) \<leftarrow> f fd c; Some (r, if x = None then Some ([], 0, False) else x, c1) })"

text \<open>The loop of \<open>readn\<close>: \<open>tot\<close> bytes have been read.\<close>

partial_function (option) readn_loop :: "Dev list \<Rightarrow> int \<Rightarrow> nat \<Rightarrow> u8 list \<Rightarrow> Client \<Rightarrow> (int \<times> u8 list \<times> Client) option" where
  "readn_loop devtab fdnum n buf c =
     (if length buf < n then
        do { (m, bs, c1) \<leftarrow> fd_read devtab fdnum (of_nat (n - length buf)) c;
             if m < 0 then Some (m, buf, c1)
             else if m = 0 then Some (int (length buf), buf, c1)
             else readn_loop devtab fdnum n (buf @ bs) c1 }
      else Some (int (length buf), buf, c))"

definition readn :: "Dev list \<Rightarrow> int \<Rightarrow> u32 \<Rightarrow> Client \<Rightarrow> (int \<times> u8 list \<times> Client) option" where
  "readn devtab fdnum n c = readn_loop devtab fdnum (unat n) [] c"

section \<open>Files\<close>

text \<open>A request to the server and its reply; a page in the reply is mapped at \<open>dst\<close>.\<close>

definition fsipc :: "request \<Rightarrow> u32 option \<Rightarrow> Client \<Rightarrow> (int \<times> answer \<times> Client) option" where
  "fsipc req dst c =
     do { (r, a, pg, s1) \<leftarrow> serve_round False req (c_srv c);
          let c1 = c\<lparr>c_srv := s1\<rparr>;
          Some (r, a, (case (pg, dst) of
             (Some i, Some va) \<Rightarrow> (let c2 = page_unmap va c1 in c2\<lparr>c_map := (c_map c2)(va \<mapsto> Served (o_fd (opentab s1 i)))\<rparr>)
           | _ \<Rightarrow> c1)) }"

definition devfile_flush :: "u32 \<Rightarrow> Client \<Rightarrow> (int \<times> Client) option" where
  "devfile_flush fd c = do { (r, _, c1) \<leftarrow> fsipc (FSREQ_FLUSH (fd_file_id (fd_at fd c))) None c; Some (r, c1) }"

definition devfile_read :: "u32 \<Rightarrow> u32 \<Rightarrow> Client \<Rightarrow> (int \<times> u8 list \<times> Client) option" where
  "devfile_read fd n c =
     do { (r, a, c1) \<leftarrow> fsipc (FSREQ_READ (fd_file_id (fd_at fd c)) n) None c;
          if r < 0 then Some (r, [], c1)
          else if r > int (unat n) \<or> r > 4096 then None
          else Some (r, (case a of Bytes bs \<Rightarrow> take (nat r) bs | _ \<Rightarrow> []), c1) }"

definition devfile_write :: "u32 \<Rightarrow> u8 list \<Rightarrow> Client \<Rightarrow> (int \<times> Client) option" where
  "devfile_write fd buf c =
     (let n = min (length buf) 4088
      in do { (r, _, c1) \<leftarrow> fsipc (FSREQ_WRITE (fd_file_id (fd_at fd c)) (of_nat n) (take n buf)) None c; Some (r, c1) })"

definition devfile_stat :: "u32 \<Rightarrow> Client \<Rightarrow> (int \<times> (u8 list \<times> u32 \<times> bool) option \<times> Client) option" where
  "devfile_stat fd c =
     do { (r, a, c1) \<leftarrow> fsipc (FSREQ_STAT (fd_file_id (fd_at fd c))) None c;
          if r < 0 then Some (r, None, c1)
          else Some (0, (case a of Stat_ret x \<Rightarrow> x | _ \<Rightarrow> None), c1) }"

definition devfile_trunc :: "u32 \<Rightarrow> u32 \<Rightarrow> Client \<Rightarrow> (int \<times> Client) option" where
  "devfile_trunc fd newsize c =
     do { (r, _, c1) \<leftarrow> fsipc (FSREQ_SET_SIZE (fd_file_id (fd_at fd c)) newsize) None c; Some (r, c1) }"

definition devfile :: Dev where
  "devfile = \<lparr>dev_id = 102, dev_read = Some devfile_read, dev_write = Some devfile_write,
     dev_close = Some devfile_flush, dev_stat = Some devfile_stat, dev_trunc = Some devfile_trunc\<rparr>"

definition file_sync :: "Client \<Rightarrow> (int \<times> Client) option" where
  "file_sync c = do { (r, _, c1) \<leftarrow> fsipc FSREQ_SYNC None c; Some (r, c1) }"

definition fd_open :: "Dev list \<Rightarrow> u8 list \<Rightarrow> u32 \<Rightarrow> Client \<Rightarrow> (int \<times> Client) option" where
  "fd_open devtab path mode c =
     (if length path \<ge> MAXPATHLEN then Some (err E_BAD_PATH, c)
      else case fd_alloc c of
        Inl e \<Rightarrow> Some (err e, c)
      | Inr fd \<Rightarrow>
          do { (r, _, c1) \<leftarrow> fsipc (FSREQ_OPEN path mode) (Some fd) c;
               if r < 0 then do { (_, c2) \<leftarrow> fd_close devtab fd False c1; Some (r, c2) }
               else Some (sint (fd2num fd), c1) })"

section \<open>Pipes\<close>

text \<open>The frames for the two descriptors and the pipe, where the kernel has them, and whether the
  second mapping of the pipe fails.\<close>

definition pipe_create :: "nat option \<Rightarrow> nat option \<Rightarrow> nat option \<Rightarrow> bool \<Rightarrow> Client \<Rightarrow> (error + u32 \<times> u32) \<times> Client" where
  "pipe_create f0 f1 fp nomem c =
     (case fd_alloc c of
        Inl e \<Rightarrow> (Inl e, c)
      | Inr fd0 \<Rightarrow>
          let (r0, c0) = page_alloc_at f0 fd0 c in
          if r0 < 0 then (Inl E_NO_MEM, c0)
          else case fd_alloc c0 of
            Inl e \<Rightarrow> (Inl e, page_unmap fd0 c0)
          | Inr fd1 \<Rightarrow>
              let (r1, c1) = page_alloc_at f1 fd1 c0 in
              if r1 < 0 then (Inl E_NO_MEM, page_unmap fd0 c1)
              else let va = fd2data fd0; (r2, c2) = page_alloc_at fp va c1 in
                if r2 < 0 then (Inl E_NO_MEM, page_unmap fd0 (page_unmap fd1 c2))
                else let (r3, c3) = page_map nomem va (fd2data fd1) c2 in
                  if r3 < 0 then (Inl E_NO_MEM, page_unmap fd0 (page_unmap fd1 (page_unmap va c3)))
                  else (Inr (fd2num fd0, fd2num fd1),
                        set_fd fd1 ((fd_at fd1 c3)\<lparr>fd_dev_id := 112, fd_omode := 1\<rparr>)
                          (set_fd fd0 ((fd_at fd0 c3)\<lparr>fd_dev_id := 112, fd_omode := 0\<rparr>) c3)))"

definition devpipe_close :: "u32 \<Rightarrow> Client \<Rightarrow> (int \<times> Client) option" where
  "devpipe_close fd c = (let c1 = page_unmap fd c in Some (0, page_unmap (fd2data fd) c1))"

text \<open>\<open>_pipeisclosed\<close> takes the pipe for closed when the descriptor has as many references as the pipe. The descriptor is
  unmapped first, so that it has fewer ones in the middle of \<open>devpipe_close\<close>.\<close>

lemma devpipe_close_counts:
  assumes "c_map c fd = Some (Frame f)" and "c_map c (fd2data fd) = Some (Frame p)" and "f \<noteq> p"
    and "0 < c_ref c f" and "c_ref c f \<le> c_ref c p"
  shows "c_ref (page_unmap fd c) f < c_ref (page_unmap fd c) p"
    and "\<exists>c'. devpipe_close fd c = Some (0, c') \<and> c_map c' fd = None \<and> c_map c' (fd2data fd) = None
      \<and> c_ref c' f = c_ref c f - 1 \<and> c_ref c' p = c_ref c p - 1"
proof -
  have "fd \<noteq> fd2data fd" using assms(1-3) by auto
  then show "\<exists>c'. devpipe_close fd c = Some (0, c') \<and> c_map c' fd = None \<and> c_map c' (fd2data fd) = None
      \<and> c_ref c' f = c_ref c f - 1 \<and> c_ref c' p = c_ref c p - 1"
    using assms by (simp add: devpipe_close_def page_unmap_def drop_ref_def)
  show "c_ref (page_unmap fd c) f < c_ref (page_unmap fd c) p"
    using assms by (simp add: page_unmap_def drop_ref_def)
qed

section \<open>An open file\<close>

text \<open>Descriptor \<open>fdnum\<close>, whose page is at \<open>fd\<close>, stands for entry \<open>i\<close> of the server and file \<open>f\<close>.\<close>

definition open_at :: "int \<Rightarrow> u32 \<Rightarrow> nat \<Rightarrow> fptr \<Rightarrow> Client \<Rightarrow> bool" where
  "open_at fdnum fd i f c \<longleftrightarrow> fd_lookup fdnum c = Inr fd \<and> c_map c fd = Some (Served (entry_va i)) \<and> i < 1024
     \<and> entry_ok (c_srv c) i \<and> 2 \<le> page_ref (c_srv c) (entry_va i) \<and> o_file (opentab (c_srv c) i) = Some f
     \<and> fd_dev_id (fd_page (c_srv c) (entry_va i)) = 102
     \<and> fd_file_id (fd_page (c_srv c) (entry_va i)) = o_fileid (opentab (c_srv c) i)"

lemma fd_at_open: "open_at fdnum fd i f c \<Longrightarrow> fd_at fd c = fd_page (c_srv c) (entry_va i)"
  by (simp add: open_at_def fd_at_def)

lemma with_file_open:
  assumes "open_at fdnum fd i f c"
  shows "with_file (o_fileid (opentab (c_srv c) i)) (c_srv c) k d = k i f"
  using assms lookup_entry [of "c_srv c" i] by (auto simp: open_at_def with_file_def)

lemma with_dev_open:
  assumes "open_at fdnum fd i f c"
  shows "with_dev (devfile # rest) fdnum c d k = k fd devfile"
  using assms fd_at_open [OF assms] by (simp add: open_at_def with_dev_def dev_lookup_def devfile_def)

lemma open_at_va: "open_at fdnum fd i f c \<Longrightarrow> o_fd (opentab (c_srv c) i) = entry_va i"
  by (simp add: open_at_def entry_ok_def)

text \<open>The descriptor stays open when the file system and the offset change.\<close>

definition at_offset :: "nat \<Rightarrow> u32 \<Rightarrow> Fs \<Rightarrow> Client \<Rightarrow> Client" where
  "at_offset i off st c = c\<lparr>c_srv := (c_srv c)\<lparr>srv_fs := st,
     fd_page := (fd_page (c_srv c))(entry_va i := (fd_page (c_srv c) (entry_va i))\<lparr>fd_offset := off\<rparr>)\<rparr>\<rparr>"

lemma open_at_offset: "open_at fdnum fd i f c \<Longrightarrow> open_at fdnum fd i f (at_offset i off st c)"
  by (auto simp: open_at_def at_offset_def fd_lookup_def Let_def entry_ok_def split: if_splits)

lemma at_offset_simps [simp]:
  "srv_fs (c_srv (at_offset i off st c)) = st" "at_offset i off st (at_offset i off' st' c) = at_offset i off st c"
  "opentab (c_srv (at_offset i off st c)) = opentab (c_srv c)"
  "fd_page (c_srv (at_offset i off st c)) (entry_va i) = (fd_page (c_srv c) (entry_va i))\<lparr>fd_offset := off\<rparr>"
  by (simp_all add: at_offset_def)

lemma advance_at:
  assumes "open_at fdnum fd i f c" and "off = fd_offset (fd_page (c_srv c) (entry_va i))"
  shows "c\<lparr>c_srv := advance i n ((c_srv c)\<lparr>srv_fs := st\<rparr>)\<rparr> = at_offset i (off + of_nat n) st c"
  using open_at_va [OF assms(1)] assms(2) by (simp add: advance_def at_offset_def Let_def)

lemma seek_open:
  assumes "open_at fdnum fd i f c"
  shows "seek fdnum off c = (0, at_offset i off (srv_fs (c_srv c)) c)"
  using assms fd_at_open [OF assms] by (simp add: open_at_def seek_def set_fd_def at_offset_def)

lemma fd_write_open:
  assumes op: "open_at fdnum fd i f c" and mode: "fd_omode (fd_page (c_srv c) (entry_va i)) AND O_ACCMODE \<noteq> 0"
    and len: "length buf \<le> 4088"
    and run: "file_write f buf (fd_offset (fd_page (c_srv c) (entry_va i))) (srv_fs (c_srv c))
      = Some (Inr (of_nat (length buf)), st)"
  shows "fd_write (devfile # rest) fdnum buf c = Some (int (length buf), (),
    at_offset i (fd_offset (fd_page (c_srv c) (entry_va i)) + of_nat (length buf)) st c)"
proof -
  let ?off = "fd_offset (fd_page (c_srv c) (entry_va i))" let ?n = "length buf"
  have u: "unat (of_nat ?n :: u32) = ?n" using len by (simp add: unat_of_nat)
  have si: "sint (of_nat ?n :: u32) = int ?n" using sint_small [of "of_nat ?n"] len unfolding u by linarith
  have w: "serve_write (o_fileid (opentab (c_srv c) i)) (of_nat ?n) buf (c_srv c)
      = Some (int ?n, (), advance i ?n ((c_srv c)\<lparr>srv_fs := st\<rparr>))"
    unfolding serve_write_def with_file_open [OF op] using run si by (simp add: u open_at_va [OF op] del: of_nat_le_iff)
  have id: "fd_file_id (fd_at fd c) = o_fileid (opentab (c_srv c) i)" using op fd_at_open [OF op] by (simp add: open_at_def)
  have "devfile_write fd buf c = Some (int ?n, c\<lparr>c_srv := advance i ?n ((c_srv c)\<lparr>srv_fs := st\<rparr>)\<rparr>)"
    using len by (simp add: devfile_write_def Let_def fsipc_def serve_round_def id w)
  then show ?thesis
    using mode fd_at_open [OF op] unfolding fd_write_def with_dev_open [OF op] advance_at [OF op refl]
    by (simp add: devfile_def)
qed

lemma fd_read_open:
  assumes op: "open_at fdnum fd i f c" and mode: "fd_omode (fd_page (c_srv c) (entry_va i)) AND O_ACCMODE \<noteq> 1"
    and len: "length bs \<le> 4096" "length bs \<le> unat n"
    and run: "file_read f n (fd_offset (fd_page (c_srv c) (entry_va i))) (srv_fs (c_srv c)) = Some (Inr bs, st)"
  shows "fd_read (devfile # rest) fdnum n c = Some (int (length bs), bs,
    at_offset i (fd_offset (fd_page (c_srv c) (entry_va i)) + of_nat (length bs)) st c)"
proof -
  let ?c1 = "c\<lparr>c_srv := advance i (length bs) ((c_srv c)\<lparr>srv_fs := st\<rparr>)\<rparr>"
  have r: "serve_read (o_fileid (opentab (c_srv c) i)) n (c_srv c)
      = Some (int (length bs), bs, advance i (length bs) ((c_srv c)\<lparr>srv_fs := st\<rparr>))"
    unfolding serve_read_def with_file_open [OF op] using run len by (simp add: open_at_va [OF op])
  have id: "fd_file_id (fd_at fd c) = o_fileid (opentab (c_srv c) i)" using op fd_at_open [OF op] by (simp add: open_at_def)
  have le: "int (length bs) \<le> int (unat n)" using len(2) by (simp only: of_nat_le_iff)
  have "devfile_read fd n c = Some (int (length bs), bs, ?c1)"
    using len le unfolding devfile_read_def fsipc_def serve_round_def id by (simp add: r)
  then show ?thesis
    using mode fd_at_open [OF op] unfolding fd_read_def with_dev_open [OF op] advance_at [OF op refl]
    by (simp add: devfile_def)
qed

section \<open>Properties\<close>

text \<open>C40. Through descriptor layer, client, server and file system: what a program writes to a file
  that it has open for reading and writing, it reads back after seeking to where it wrote, in full,
  and the offset of the descriptor moves with both. The data must fit one request and the blocks of
  a file, and there must be free blocks for the holes.\<close>

theorem descriptor_roundtrip:
  assumes op: "open_at fdnum fd i f c"
    and mode: "fd_omode (fd_at fd c) AND O_ACCMODE = 2" and off: "unat (fd_offset (fd_at fd c)) = off"
    and len: "length buf \<le> 4088" "off + length buf \<le> 4235264"
    and ok: "file_ok f (srv_fs (c_srv c))" "unat (f_size f (srv_fs (c_srv c))) \<le> 4235264"
    and fr: "card (holes f (fspan off (off + length buf)) (srv_fs (c_srv c))) \<le> card (free_set (srv_fs (c_srv c)))"
  shows "\<exists>c1 c2 c3. fd_write (devfile # rest) fdnum buf c = Some (int (length buf), (), c1)
    \<and> fd_offset (fd_at fd c1) = of_nat (off + length buf)
    \<and> seek fdnum (of_nat off) c1 = (0, c2)
    \<and> fd_read (devfile # rest) fdnum (of_nat (length buf)) c2 = Some (int (length buf), buf, c3)
    \<and> fd_offset (fd_at fd c3) = of_nat (off + length buf) \<and> file_ok f (srv_fs (c_srv c1))"
proof -
  have o: "fd_offset (fd_page (c_srv c) (entry_va i)) = of_nat off"
    using off fd_at_open [OF op] by (metis unat_eq_of_nat_u32)
  obtain st' st'' where w: "file_write f buf (of_nat off) (srv_fs (c_srv c)) = Some (Inr (of_nat (length buf)), st')"
    "file_ok f st'" "file_read f (of_nat (length buf)) (of_nat off) st' = Some (Inr buf, st'')"
    using file_write_read_spec [OF ok len(2) fr] by blast
  let ?c1 = "at_offset i (of_nat off + of_nat (length buf)) st' c" let ?c2 = "at_offset i (of_nat off) st' ?c1"
  let ?c3 = "at_offset i (of_nat off + of_nat (length buf)) st'' ?c2"
  note m = mode [unfolded fd_at_open [OF op]]
  have c1: "fd_write (devfile # rest) fdnum buf c = Some (int (length buf), (), ?c1)"
    using fd_write_open [OF op _ len(1)] w(1) m o by simp
  have op1: "open_at fdnum fd i f ?c1" and op2: "open_at fdnum fd i f ?c2"
    by (intro open_at_offset op)+
  have c2: "seek fdnum (of_nat off) ?c1 = (0, ?c2)" using seek_open [OF op1] by simp
  have u: "unat (of_nat (length buf) :: u32) = length buf" using len(1) by (simp add: unat_of_nat)
  have c3: "fd_read (devfile # rest) fdnum (of_nat (length buf)) ?c2 = Some (int (length buf), buf, ?c3)"
    using fd_read_open [OF op2, of buf "of_nat (length buf)" st''] w(3) m len(1) u by simp
  show ?thesis
  proof (intro exI conjI)
    show "fd_write (devfile # rest) fdnum buf c = Some (int (length buf), (), ?c1)" by (rule c1)
    show "seek fdnum (of_nat off) ?c1 = (0, ?c2)" by (rule c2)
    show "fd_read (devfile # rest) fdnum (of_nat (length buf)) ?c2 = Some (int (length buf), buf, ?c3)" by (rule c3)
  qed (simp_all add: fd_at_open [OF open_at_offset [OF op]] w(2))
qed

text \<open>A program that has opened the root directory of the sample disk.\<close>

definition sample_client :: Client where
  "sample_client = \<lparr>c_srv = sample_server, c_map = (\<lambda>_. None), c_frame = (\<lambda>_. empty_fd), c_ref = (\<lambda>_. 0)\<rparr>"

definition sample_opened_client :: Client where
  "sample_opened_client = snd (the (fd_open [devfile] [47] 2 sample_client))"

lemma sample_client_open:
  "fd_open [devfile] [47] 2 sample_client = Some (0, sample_opened_client)"
  "open_at 0 (INDEX2FD 0) 0 s_root sample_opened_client"
  "fd_page (c_srv sample_opened_client) (entry_va 0) = \<lparr>fd_dev_id = 102, fd_offset = 0, fd_omode = 2, fd_file_id = 1024\<rparr>"
  "srv_fs (c_srv sample_opened_client) = sample_fs"
proof -
  obtain s1 where s1: "serve_round False (FSREQ_OPEN [47] 2) sample_server = Some (0, Plain, Some 0, s1)"
    "opentab s1 0 = \<lparr>o_fileid = 1024, o_file = Some s_root, o_mode = 2, o_fd = FILEVA\<rparr>"
    "page_ref s1 FILEVA = 2" "srv_fs s1 = sample_fs"
    "fd_page s1 FILEVA = \<lparr>fd_dev_id = 102, fd_offset = 0, fd_omode = 2, fd_file_id = 1024\<rparr>"
    using sample_open_root [of 2] by (auto simp: O_CREAT_def O_TRUNC_def O_ACCMODE_def)
  have fa: "fd_alloc sample_client = Inr (INDEX2FD 0)" by (simp add: fd_alloc_def sample_client_def MAXFD_def upt_conv_Cons)
  let ?c = "sample_client\<lparr>c_srv := s1, c_map := [INDEX2FD 0 \<mapsto> Served FILEVA]\<rparr>"
  have op: "fd_open [devfile] [47] 2 sample_client = Some (0, ?c)"
    unfolding fd_open_def fa by (simp add: fsipc_def s1 sample_client_def page_unmap_def MAXPATHLEN_def fd2num_def INDEX2FD_def)
  then have c: "sample_opened_client = ?c" by (simp add: sample_opened_client_def)
  have va: "entry_va 0 = FILEVA" by (simp add: entry_va_def)
  show "fd_open [devfile] [47] 2 sample_client = Some (0, sample_opened_client)" using op c by simp
  show "open_at 0 (INDEX2FD 0) 0 s_root sample_opened_client"
    unfolding c open_at_def va entry_ok_def by (simp add: s1 fd_lookup_def MAXFD_def)
  show "fd_page (c_srv sample_opened_client) (entry_va 0) = \<lparr>fd_dev_id = 102, fd_offset = 0, fd_omode = 2, fd_file_id = 1024\<rparr>"
    "srv_fs (c_srv sample_opened_client) = sample_fs"
    unfolding c va by (simp_all add: s1)
qed

theorem descriptor_roundtrip_witness:
  "\<exists>c1 c2 c3. fd_write [devfile] 0 [104, 105, 33] sample_opened_client = Some (3, (), c1)
    \<and> seek 0 0 c1 = (0, c2) \<and> fd_read [devfile] 0 3 c2 = Some (3, [104, 105, 33], c3)"
proof -
  have "\<exists>c1 c2 c3. fd_write [devfile] 0 [104, 105, 33] sample_opened_client = Some (int (length [104, 105, 33 :: u8]), (), c1)
    \<and> fd_offset (fd_at (INDEX2FD 0) c1) = of_nat (0 + length [104, 105, 33 :: u8])
    \<and> seek 0 (of_nat 0) c1 = (0, c2)
    \<and> fd_read [devfile] 0 (of_nat (length [104, 105, 33 :: u8])) c2 = Some (int (length [104, 105, 33 :: u8]), [104, 105, 33], c3)
    \<and> fd_offset (fd_at (INDEX2FD 0) c3) = of_nat (0 + length [104, 105, 33 :: u8])
    \<and> file_ok s_root (srv_fs (c_srv c1))"
    by (rule descriptor_roundtrip [OF sample_client_open(2)])
      (simp_all add: sample_client_open(3,4) fd_at_open [OF sample_client_open(2)] O_ACCMODE_def sample_fs_file
        sample_fs_free sample_fs_holes [unfolded numeral_3_eq_3])
  then show ?thesis by auto
qed

end
