(* ===== verification/User_Print.thy ===== *)
theory User_Print
  imports Printfmt File_Client
begin

text \<open>
  Output and input of programs: \<open>lib/fprintf.c\<close>, \<open>lib/printf.c\<close> and \<open>lib/console.c\<close>. The results of \<open>write\<close>
  are the parameter \<open>answer\<close>, the \<open>k\<close>-th call gets \<open>answer k\<close>; the bytes passed to a call are logged. The results of
  \<open>sys_cgetc\<close> are a list; when it is used up the reader waits.
\<close>

section \<open>Printing to a descriptor\<close>

record printbuf =
  pb_buf :: "nat \<Rightarrow> u8"
  pb_idx :: nat
  pb_result :: int
  pb_error :: int
  pb_calls :: "u8 list list"

definition writebuf :: "(nat \<Rightarrow> int) \<Rightarrow> printbuf \<Rightarrow> printbuf" where
  "writebuf answer b =
     (if pb_error b > 0 then
        let result = answer (length (pb_calls b));
            b = b\<lparr>pb_calls := pb_calls b @ [map (pb_buf b) [0..<pb_idx b]]\<rparr>;
            b = (if result > 0 then b\<lparr>pb_result := pb_result b + result\<rparr> else b)
        in if result \<noteq> int (pb_idx b) then b\<lparr>pb_error := (if result < 0 then result else 0)\<rparr> else b
      else b)"

definition putch :: "(nat \<Rightarrow> int) \<Rightarrow> u32 \<Rightarrow> printbuf \<Rightarrow> printbuf" where
  "putch answer ch b =
     (let b = b\<lparr>pb_buf := (pb_buf b)(pb_idx b := ucast ch), pb_idx := pb_idx b + 1\<rparr>
      in if pb_idx b = 256 then (writebuf answer b)\<lparr>pb_idx := 0\<rparr> else b)"

text \<open>\<open>junk\<close> is what the stack held at the place of the buffer.\<close>

definition vfprintf :: "(nat \<Rightarrow> int) \<Rightarrow> (nat \<Rightarrow> u8) \<Rightarrow> mem \<Rightarrow> u32 \<Rightarrow> u32 list \<Rightarrow> (int \<times> printbuf) option" where
  "vfprintf answer junk m fmt ap =
     do { out \<leftarrow> vprintfmt m fmt ap [];
          let b = fold (putch answer) out \<lparr>pb_buf = junk, pb_idx = 0, pb_result = 0, pb_error = 1, pb_calls = []\<rparr>;
          let b = (if pb_idx b > 0 then writebuf answer b else b);
          Some (if pb_result b \<noteq> 0 then pb_result b else pb_error b, b) }"

text \<open>The console's variant, where \<open>sys_cputs\<close> gives no result.\<close>

record cprintbuf =
  cb_buf :: "nat \<Rightarrow> u8"
  cb_idx :: nat
  cb_cnt :: nat
  cb_calls :: "u8 list list"

definition cb_flush :: "cprintbuf \<Rightarrow> cprintbuf" where
  "cb_flush b = b\<lparr>cb_calls := cb_calls b @ [map (cb_buf b) [0..<cb_idx b]]\<rparr>"

definition cputch :: "u32 \<Rightarrow> cprintbuf \<Rightarrow> cprintbuf" where
  "cputch ch b =
     (let b = b\<lparr>cb_buf := (cb_buf b)(cb_idx b := ucast ch), cb_idx := cb_idx b + 1\<rparr>;
          b = (if cb_idx b = 256 - 1 then (cb_flush b)\<lparr>cb_idx := 0\<rparr> else b)
      in b\<lparr>cb_cnt := cb_cnt b + 1\<rparr>)"

definition vcprintf :: "(nat \<Rightarrow> u8) \<Rightarrow> mem \<Rightarrow> u32 \<Rightarrow> u32 list \<Rightarrow> (nat \<times> cprintbuf) option" where
  "vcprintf junk m fmt ap =
     do { out \<leftarrow> vprintfmt m fmt ap [];
          let b = cb_flush (fold cputch out \<lparr>cb_buf = junk, cb_idx = 0, cb_cnt = 0, cb_calls = []\<rparr>);
          Some (cb_cnt b, b) }"

section \<open>The console as a device\<close>

text \<open>The bytes that \<open>cputchar\<close> passes to \<open>sys_cputs\<close>.\<close>

definition cputchar :: "u32 \<Rightarrow> u8 list" where
  "cputchar ch = [ucast ch]"

definition getchar :: "Dev list \<Rightarrow> Client \<Rightarrow> (int \<times> Client) option" where
  "getchar devtab c =
     do { (r, bytes, c1) \<leftarrow> fd_read devtab 0 1 c;
          if r < 0 then Some (r, c1)
          else if r < 1 then Some (err E_EOF, c1)
          else case bytes of b # _ \<Rightarrow> Some (uint b, c1) | [] \<Rightarrow> None }"

definition iscons :: "int \<Rightarrow> Client \<Rightarrow> int" where
  "iscons fdnum c = (case fd_lookup fdnum c of Inl e \<Rightarrow> err e | Inr fd \<Rightarrow> if fd_dev_id (fd_at fd c) = 99 then 1 else 0)"

text \<open>\<open>free\<close> is the frame that \<open>sys_page_alloc\<close> takes.\<close>

definition opencons :: "nat option \<Rightarrow> Client \<Rightarrow> int \<times> Client" where
  "opencons free c =
     (case fd_alloc c of
        Inl e \<Rightarrow> (err e, c)
      | Inr fd \<Rightarrow>
          let (r, c) = page_alloc_at free fd c
          in if r < 0 then (r, c)
             else let c = set_fd fd ((fd_at fd c)\<lparr>fd_dev_id := 99, fd_omode := 2\<rparr>) c in (sint (fd2num fd), c))"

text \<open>The result, the byte stored and the results of \<open>sys_cgetc\<close> that are left.\<close>

fun devcons_read :: "u32 \<Rightarrow> int list \<Rightarrow> (int \<times> u8 list \<times> int list) option" where
  "devcons_read n cs =
     (if n = 0 then Some (0, [], cs)
      else case cs of
        [] \<Rightarrow> None
      | c # cs \<Rightarrow>
          if c = 0 then devcons_read n cs
          else if c < 0 then Some (c, [], cs)
          else if c = 4 then Some (0, [], cs)
          else Some (1, [word_of_int c], cs))"

declare devcons_read.simps [simp del]

text \<open>The loop of \<open>devcons_write\<close>: the calls of \<open>sys_cputs\<close>, and the result.\<close>

function devcons_loop :: "u8 list \<Rightarrow> nat \<Rightarrow> u8 list list \<Rightarrow> nat \<times> u8 list list" where
  "devcons_loop vbuf tot calls =
     (if tot < length vbuf
      then let m = length vbuf - tot; m = (if m > 128 - 1 then 128 - 1 else m)
           in devcons_loop vbuf (tot + m) (calls @ [take m (drop tot vbuf)])
      else (tot, calls))"
  by pat_completeness auto
termination by (relation "measure (\<lambda>(vbuf, tot, _). length vbuf - tot)") auto

declare devcons_loop.simps [simp del]

definition devcons_write :: "u8 list \<Rightarrow> nat \<times> u8 list list" where
  "devcons_write vbuf = devcons_loop vbuf 0 []"

section \<open>What is written\<close>

text \<open>The calls for the pieces \<open>cs\<close>, from the \<open>k\<close>-th on: none follows a write that is not complete.\<close>

primrec sent :: "(nat \<Rightarrow> int) \<Rightarrow> nat \<Rightarrow> u8 list list \<Rightarrow> u8 list list" where
  "sent answer k [] = []"
| "sent answer k (c # cs) = c # (if answer k = int (length c) then sent answer (Suc k) cs else [])"

primrec whole :: "(nat \<Rightarrow> int) \<Rightarrow> nat \<Rightarrow> u8 list list \<Rightarrow> bool" where
  "whole answer k [] \<longleftrightarrow> True"
| "whole answer k (c # cs) \<longleftrightarrow> answer k = int (length c) \<and> whole answer (Suc k) cs"

lemma sent_snoc: "sent answer k (cs @ [c]) = sent answer k cs @ (if whole answer k cs then [c] else [])"
  by (induction cs arbitrary: k) auto

lemma whole_snoc: "whole answer k (cs @ [c]) \<longleftrightarrow> whole answer k cs \<and> answer (k + length cs) = int (length c)"
  by (induction cs arbitrary: k) auto

lemma sent_whole: "whole answer k cs \<Longrightarrow> sent answer k cs = cs"
  by (induction cs arbitrary: k) auto

text \<open>The pieces \<open>cs\<close> have been passed to \<open>writebuf\<close> and \<open>r\<close> is in the buffer.\<close>

definition pb_inv :: "(nat \<Rightarrow> int) \<Rightarrow> u8 list list \<Rightarrow> u8 list \<Rightarrow> printbuf \<Rightarrow> bool" where
  "pb_inv answer cs r b \<longleftrightarrow> pb_calls b = sent answer 0 cs \<and> pb_idx b = length r \<and> (\<forall>k<length r. pb_buf b k = r ! k)
     \<and> (if whole answer 0 cs then pb_error b = 1 \<and> pb_result b = int (length (concat cs)) else pb_error b \<le> 0)"

lemma writebuf_inv:
  assumes b: "pb_inv answer cs r b"
  shows "pb_inv answer (cs @ [r]) [] ((writebuf answer b)\<lparr>pb_idx := 0\<rparr>)" and "pb_idx (writebuf answer b) = pb_idx b"
proof -
  have r: "map (pb_buf b) [0..<pb_idx b] = r" using b by (auto simp: pb_inv_def intro: nth_equalityI)
  show "pb_inv answer (cs @ [r]) [] ((writebuf answer b)\<lparr>pb_idx := 0\<rparr>)"
  proof (cases "whole answer 0 cs")
    case True
    then show ?thesis using b r by (auto simp: pb_inv_def writebuf_def Let_def sent_snoc whole_snoc sent_whole)
  next
    case False
    then show ?thesis using b by (auto simp: pb_inv_def writebuf_def sent_snoc whole_snoc)
  qed
  show "pb_idx (writebuf answer b) = pb_idx b" by (simp add: writebuf_def Let_def)
qed

lemma putch_inv:
  assumes "pb_inv answer cs r b" and "length r < 256"
  shows "\<exists>cs' r'. pb_inv answer cs' r' (putch answer ch b) \<and> length r' < 256 \<and> concat cs' @ r' = concat cs @ r @ [ucast ch]
    \<and> (\<forall>c\<in>set cs'. c \<in> set cs \<or> length c = 256)"
proof -
  let ?b = "b\<lparr>pb_buf := (pb_buf b)(pb_idx b := ucast ch), pb_idx := pb_idx b + 1\<rparr>"
  have i: "pb_inv answer cs (r @ [ucast ch]) ?b" using assms(1) by (auto simp: pb_inv_def nth_append less_Suc_eq)
  show ?thesis
  proof (cases "length r = 255")
    case True
    then have "putch answer ch b = (writebuf answer ?b)\<lparr>pb_idx := 0\<rparr>" using assms(1) by (simp add: putch_def pb_inv_def)
    then show ?thesis using writebuf_inv(1) [OF i] True by (intro exI [of _ "cs @ [r @ [ucast ch]]"] exI [of _ "[]"]) auto
  next
    case False
    then have "putch answer ch b = ?b" using assms(1) by (simp add: putch_def pb_inv_def)
    then show ?thesis using i False assms(2) by (intro exI [of _ cs] exI [of _ "r @ [ucast ch]"]) auto
  qed
qed

lemma putch_fold:
  assumes "pb_inv answer cs r b" and "length r < 256" and "\<forall>c\<in>set cs. length c = 256"
  shows "\<exists>cs' r'. pb_inv answer cs' r' (fold (putch answer) out b) \<and> length r' < 256 \<and> concat cs' @ r' = concat cs @ r @ map ucast out
    \<and> (\<forall>c\<in>set cs'. length c = 256)"
  using assms
proof (induction out arbitrary: cs r b)
  case (Cons ch out)
  obtain cs1 r1 where 1: "pb_inv answer cs1 r1 (putch answer ch b)" "length r1 < 256" "concat cs1 @ r1 = concat cs @ r @ [ucast ch]"
    "\<forall>c\<in>set cs1. length c = 256" using putch_inv [OF Cons.prems(1,2)] Cons.prems(3) by blast
  from Cons.IH [OF 1(1,2,4)] obtain cs2 r2 where "pb_inv answer cs2 r2 (fold (putch answer) out (putch answer ch b))" "length r2 < 256"
    "concat cs2 @ r2 = concat cs1 @ r1 @ map ucast out" "\<forall>c\<in>set cs2. length c = 256" by blast
  moreover have "concat cs1 @ r1 @ map ucast out = concat cs @ r @ map ucast (ch # out)" using 1(3) by simp
  ultimately show ?case by (intro exI [of _ cs2] exI [of _ r2]) simp
qed auto

text \<open>\<open>fprintf\<close> cuts the output into full pieces and a last one and writes them in order; it stops at the first write that is not
  complete, and otherwise returns the length, or 1 when there is nothing to print.\<close>

theorem vfprintf_writes:
  assumes "vprintfmt m fmt ap [] = Some out"
  shows "\<exists>r b cs. vfprintf answer junk m fmt ap = Some (r, b) \<and> concat cs = map ucast out \<and> (\<forall>c\<in>set cs. 0 < length c \<and> length c \<le> 256)
    \<and> pb_calls b = sent answer 0 cs \<and> (whole answer 0 cs \<longrightarrow> r = (if out = [] then 1 else int (length out)))"
proof -
  let ?i = "\<lparr>pb_buf = junk, pb_idx = 0, pb_result = 0, pb_error = 1, pb_calls = []\<rparr>"
  have "pb_inv answer [] [] ?i" by (simp add: pb_inv_def)
  then obtain cs r where i: "pb_inv answer cs r (fold (putch answer) out ?i)" "length r < 256" "concat cs @ r = map ucast out"
    "\<forall>c\<in>set cs. length c = 256" using putch_fold [of answer "[]" "[]" ?i out] by auto
  define b where "b = fold (putch answer) out ?i"
  define b' where "b' = (if pb_idx b > 0 then writebuf answer b else b)"
  define cs' where "cs' = (if r = [] then cs else cs @ [r])"
  have c: "concat cs' = map ucast out" "\<forall>c\<in>set cs'. 0 < length c \<and> length c \<le> 256" using i(2-4) by (auto simp: cs'_def)
  have v: "vfprintf answer junk m fmt ap = Some (if pb_result b' \<noteq> 0 then pb_result b' else pb_error b', b')"
    using assms by (simp add: vfprintf_def Let_def b_def b'_def)
  have x: "pb_idx b = length r" using i(1) by (simp add: pb_inv_def b_def)
  have "pb_inv answer cs' [] (b'\<lparr>pb_idx := 0\<rparr>)"
    using i(1) writebuf_inv(1) [OF i(1)] x by (cases "r = []") (auto simp: b'_def cs'_def b_def [symmetric] pb_inv_def)
  then have p: "pb_calls b' = sent answer 0 cs'" "whole answer 0 cs' \<longrightarrow> pb_error b' = 1 \<and> pb_result b' = int (length (concat cs'))"
    by (auto simp: pb_inv_def split: if_splits)
  have "length (concat cs') = length out" unfolding c(1) by simp
  then show ?thesis using v c p by (intro exI conjI) auto
qed

text \<open>The console gets exactly the output, in pieces that fit the buffer.\<close>

definition cb_inv :: "u8 list \<Rightarrow> cprintbuf \<Rightarrow> bool" where
  "cb_inv xs b \<longleftrightarrow> concat (cb_calls b) @ map (cb_buf b) [0..<cb_idx b] = xs \<and> cb_idx b < 255 \<and> cb_cnt b = length xs
     \<and> (\<forall>c\<in>set (cb_calls b). length c \<le> 255)"

lemma cputch_inv: "cb_inv xs b \<Longrightarrow> cb_inv (xs @ [ucast ch]) (cputch ch b)"
proof -
  assume b: "cb_inv xs b"
  have s: "map ((cb_buf b)(n := x)) [0..<Suc n] = map (cb_buf b) [0..<n] @ [x]" for n x by simp
  show ?thesis using b s [of 254 "ucast ch"] s by (auto simp: cb_inv_def cputch_def cb_flush_def Let_def simp del: upt_Suc)
qed

lemma cputch_fold: "cb_inv xs b \<Longrightarrow> cb_inv (xs @ map ucast out) (fold cputch out b)"
proof (induction out arbitrary: xs b)
  case (Cons ch out)
  then show ?case using Cons.IH [OF cputch_inv [OF Cons.prems, of ch]] by simp
qed simp

theorem vcprintf_writes:
  assumes "vprintfmt m fmt ap [] = Some out"
  shows "\<exists>b. vcprintf junk m fmt ap = Some (length out, b) \<and> concat (cb_calls b) = map ucast out
    \<and> (\<forall>c\<in>set (cb_calls b). length c \<le> 255)"
proof -
  have "cb_inv (map ucast out) (fold cputch out \<lparr>cb_buf = junk, cb_idx = 0, cb_cnt = 0, cb_calls = []\<rparr>)"
    using cputch_fold [of "[]" "\<lparr>cb_buf = junk, cb_idx = 0, cb_cnt = 0, cb_calls = []\<rparr>" out] by (simp add: cb_inv_def)
  then show ?thesis using assms by (auto simp: vcprintf_def cb_flush_def cb_inv_def Let_def)
qed

lemma devcons_loop_exact:
  assumes "tot \<le> length vbuf" and "concat calls = take tot vbuf" and "\<forall>c\<in>set calls. length c < 128"
  shows "\<exists>calls'. devcons_loop vbuf tot calls = (length vbuf, calls') \<and> concat calls' = vbuf \<and> (\<forall>c\<in>set calls'. length c < 128)"
  using assms
proof (induction vbuf tot calls rule: devcons_loop.induct)
  case (1 vbuf tot calls)
  show ?case
  proof (cases "tot < length vbuf")
    case True
    define m where "m = (if length vbuf - tot > 128 - 1 then 128 - 1 else length vbuf - tot)"
    have "concat (calls @ [take m (drop tot vbuf)]) = take (tot + m) vbuf" using 1(3) by (simp add: take_add)
    moreover have "tot + m \<le> length vbuf" "m < 128" using 1(2) by (auto simp: m_def)
    moreover have "devcons_loop vbuf tot calls = devcons_loop vbuf (tot + m) (calls @ [take m (drop tot vbuf)])"
      using True by (subst devcons_loop.simps) (simp add: m_def Let_def)
    ultimately show ?thesis using 1(1) [OF True refl m_def] 1(4) by auto
  next
    case False
    then show ?thesis using 1(2-4) by (subst devcons_loop.simps) simp
  qed
qed

text \<open>\<open>devcons_write\<close> writes the whole buffer, in pieces with room for a zero byte.\<close>

theorem devcons_write_exact:
  "\<exists>calls. devcons_write vbuf = (length vbuf, calls) \<and> concat calls = vbuf \<and> (\<forall>c\<in>set calls. length c < 128)"
  unfolding devcons_write_def by (rule devcons_loop_exact) simp_all

text \<open>The reader skips the results that say there is no key.\<close>

lemma devcons_read_skips:
  "n \<noteq> 0 \<Longrightarrow> 0 < c \<Longrightarrow> c \<noteq> 4 \<Longrightarrow> devcons_read n (replicate k 0 @ c # cs) = Some (1, [word_of_int c], cs)"
  by (induction k) (subst devcons_read.simps, simp)+

end
