(* ===== verification/Fork.thy ===== *)
theory Fork
  imports Trap
begin

text \<open>
  The user library on top of the system calls: copy-on-write \<open>fork\<close> with its page fault handler
  (\<open>lib/fork.c\<close>), \<open>set_pgfault_handler\<close> (\<open>lib/pgfault.c\<close>) and the IPC wrappers (\<open>lib/ipc.c\<close>). The code
  runs in the current environment and calls the handlers of \<open>Syscall\<close>.
\<close>

section \<open>User code\<close>

text \<open>User code ends with a value, panics (\<open>lib/panic.c\<close>), or does not get the CPU back.\<close>

datatype 'a uresult = Done 'a kern | Upanic kern | Gone

primrec ubind :: "'a uresult \<Rightarrow> ('a \<Rightarrow> kern \<Rightarrow> 'b uresult) \<Rightarrow> 'b uresult" where
  "ubind (Done x s) k = k x s"
| "ubind (Upanic s) k = Upanic s"
| "ubind Gone k = Gone"

definition usys :: "sysret \<Rightarrow> (error + u32 \<Rightarrow> kern \<Rightarrow> 'a uresult) \<Rightarrow> 'a uresult" where
  "usys r k = (case r of Return x s \<Rightarrow> k x s | _ \<Rightarrow> Gone)"

text \<open>A system call whose error makes the caller panic.\<close>

definition must :: "sysret \<Rightarrow> u32 uresult" where
  "must r = usys r (\<lambda>x s. case x of Inl _ \<Rightarrow> Upanic s | Inr v \<Rightarrow> Done v s)"

definition PTE_COW :: u32 where "PTE_COW = 0x800"
definition PTE_SHARE :: u32 where "PTE_SHARE = 0x400"
definition UTEMP :: u32 where "UTEMP = 0x400000"
definition PFTEMP :: u32 where "PFTEMP = UTEMP + PTSIZE - PGSIZE"
definition FEC_PR :: u32 where "FEC_PR = 1"
definition FEC_WR :: u32 where "FEC_WR = 2"

text \<open>The environment's own page directory and page tables, as the mapping at \<open>UVPT\<close> shows them.\<close>

definition uvpd :: "nat \<Rightarrow> u32 \<Rightarrow> kern \<Rightarrow> u32" where
  "uvpd c va s = kread s (entry (env_pgdir (envs s c)) (PDX va))"

definition uvpt :: "nat \<Rightarrow> u32 \<Rightarrow> kern \<Rightarrow> u32" where
  "uvpt c va s = phys s (unat (PGNUM (uvpd c va s))) (unat (PTX va))"

section \<open>The page fault handler\<close>

text \<open>What the MMU asks of an access in user mode besides what it asks of the kernel: \<open>PTE_U\<close> in the
  directory entry and in the page table entry.\<close>

definition user_ok :: "kern \<Rightarrow> u32 \<Rightarrow> u32 \<Rightarrow> bool" where
  "user_ok s pgdir va \<longleftrightarrow>
     (let pde = kread s (entry pgdir (PDX va)) in
      pde AND PTE_U \<noteq> 0 \<and>
      (pde AND PTE_PS \<noteq> 0 \<or> phys s (unat (PGNUM pde)) (unat (PTX va)) AND PTE_U \<noteq> 0))"

text \<open>\<open>memcpy\<close> in user mode; \<open>None\<close>: a fault, which a handler that is running itself meets with a
  panic.\<close>

definition user_memcpy :: "u32 \<Rightarrow> u32 \<Rightarrow> u32 \<Rightarrow> nat \<Rightarrow> kern \<Rightarrow> kern option" where
  "user_memcpy pgdir dst src n s =
     (if list_all (\<lambda>i. user_ok s pgdir (src + of_nat i) \<and> user_ok s pgdir (dst + of_nat i)) [0..<n]
      then do { b \<leftarrow> load_bytes s pgdir src n; store_bytes pgdir dst b n s } else None)"

definition pgfault :: "nat \<Rightarrow> u32 \<Rightarrow> u32 \<Rightarrow> kern \<Rightarrow> u32 uresult" where
  "pgfault c fault_va err s =
     (if err AND FEC_PR = 0 then Upanic s
      else if err AND FEC_WR = 0 then Upanic s
      else if uvpt c fault_va s AND PTE_COW = 0 then Upanic s
      else ubind (must (sys_page_alloc 0 PFTEMP (PTE_P OR PTE_U OR PTE_W) s))
        (\<lambda>_ s1. let addr = ROUNDDOWN fault_va PGSIZE; dir = env_pgdir (envs s1 c) in
          case user_memcpy dir PFTEMP addr 4096 s1 of
            None \<Rightarrow> Upanic s1
          | Some s2 \<Rightarrow>
              ubind (must (sys_page_map 0 PFTEMP 0 addr (PTE_P OR PTE_U OR PTE_W) s2))
                (\<lambda>_ s3. must (sys_page_unmap 0 PFTEMP s3))))"

section \<open>Copying an address space\<close>

definition dup_perm :: "u32 \<Rightarrow> u32" where
  "dup_perm pte =
     (let perm = pte AND PTE_SYSCALL AND NOT PTE_W
      in if pte AND PTE_SHARE \<noteq> 0 then perm OR PTE_W
         else if pte AND PTE_W \<noteq> 0 then perm OR PTE_COW else perm)"

definition duppage :: "nat \<Rightarrow> u32 \<Rightarrow> u32 \<Rightarrow> kern \<Rightarrow> u32 uresult" where
  "duppage c envid address s =
     (let perm = dup_perm (uvpt c address s)
      in ubind (must (sys_page_map 0 address envid address perm s))
        (\<lambda>_ s1. if perm AND PTE_COW \<noteq> 0 then must (sys_page_map 0 address 0 address perm s1) else Done 0 s1))"

definition dup_or_share :: "u32 \<Rightarrow> u32 \<Rightarrow> u32 \<Rightarrow> nat \<Rightarrow> kern \<Rightarrow> u32 uresult" where
  "dup_or_share dstenv va perm c s =
     (if perm AND PTE_W = 0 then must (sys_page_map 0 va dstenv va perm s)
      else ubind (must (sys_page_alloc dstenv va (PTE_P OR PTE_U OR PTE_W) s))
        (\<lambda>_ s1. ubind (must (sys_page_map dstenv va 0 UTEMP (PTE_P OR PTE_U OR PTE_W) s1))
        (\<lambda>_ s2. let dir = env_pgdir (envs s2 c) in
          case user_memcpy dir UTEMP va 4096 s2 of
            None \<Rightarrow> Upanic s2
          | Some s3 \<Rightarrow> must (sys_page_unmap 0 UTEMP s3))))"

text \<open>One page of the loop of \<open>fork\<close>: the exception stack of the child is a new page.\<close>

definition fork_page :: "nat \<Rightarrow> u32 \<Rightarrow> u32 \<Rightarrow> kern \<Rightarrow> u32 uresult" where
  "fork_page c envid pgaddr s =
     (let pte = uvpt c pgaddr s
      in if pgaddr = UXSTACKTOP - PGSIZE then must (sys_page_alloc envid pgaddr (PTE_P OR PTE_U OR PTE_W) s)
         else if pte AND PTE_P = 0 then Done 0 s
         else duppage c envid pgaddr s)"

primrec fork_table :: "nat \<Rightarrow> u32 \<Rightarrow> nat \<Rightarrow> nat list \<Rightarrow> kern \<Rightarrow> u32 uresult" where
  "fork_table c envid pdx [] s = Done 0 s"
| "fork_table c envid pdx (ptx # ptxs) s =
     ubind (fork_page c envid (PGADDR (of_nat pdx) (of_nat ptx) 0) s) (\<lambda>_ s1. fork_table c envid pdx ptxs s1)"

text \<open>The loop over the addresses runs its body once per directory entry.\<close>

primrec fork_dir :: "nat \<Rightarrow> u32 \<Rightarrow> nat list \<Rightarrow> kern \<Rightarrow> u32 uresult" where
  "fork_dir c envid [] s = Done 0 s"
| "fork_dir c envid (pdx # pdxs) s =
     ubind (if uvpd c (PGADDR (of_nat pdx) 0 0) s AND PTE_P = 0 then Done 0 s
            else fork_table c envid pdx [0..<1024] s)
       (\<lambda>_ s1. fork_dir c envid pdxs s1)"

text \<open>\<open>installed\<close> says that \<open>_pgfault_handler\<close> is set, \<open>upcall\<close> is the address of \<open>_pgfault_upcall\<close>.\<close>

definition set_pgfault_handler :: "nat \<Rightarrow> bool \<Rightarrow> u32 \<Rightarrow> kern \<Rightarrow> u32 uresult" where
  "set_pgfault_handler c installed upcall s =
     (if installed then Done 0 s
      else let envid = env_id (envs s c) in
        ubind (must (sys_page_alloc envid (UXSTACKTOP - PGSIZE) (PTE_P OR PTE_W OR PTE_U) s))
          (\<lambda>_ s1. usys (sys_env_set_pgfault_upcall envid upcall s1) (\<lambda>_ s2. Done 0 s2)))"

text \<open>\<open>fork\<close> in the parent; the child starts with the result 0 of \<open>sys_exofork\<close>. The environment ids
  are positive, so a negative result is an error.\<close>

definition fork :: "nat \<Rightarrow> bool \<Rightarrow> u32 \<Rightarrow> kern \<Rightarrow> u32 uresult" where
  "fork c installed upcall s =
     ubind (set_pgfault_handler c installed upcall s) (\<lambda>_ s1.
     ubind (must (sys_exofork s1)) (\<lambda>envid s2.
     ubind (fork_dir c envid [0..<NPDU] s2) (\<lambda>_ s3.
     ubind (must (sys_env_set_pgfault_upcall envid (env_pgfault_upcall (envs s3 c)) s3)) (\<lambda>_ s4.
     ubind (must (sys_env_set_status envid 2 s4)) (\<lambda>_ s5.
     Done envid s5)))))"

primrec fork_v0_pages :: "nat \<Rightarrow> u32 \<Rightarrow> nat list \<Rightarrow> kern \<Rightarrow> u32 uresult" where
  "fork_v0_pages c envid [] s = Done 0 s"
| "fork_v0_pages c envid (pn # pns) s =
     (let addr = of_nat pn * PGSIZE in
      ubind (if uvpd c addr s AND PTE_P \<noteq> 0 \<and> uvpt c addr s AND PTE_P \<noteq> 0
             then dup_or_share envid addr (uvpt c addr s AND PTE_SYSCALL) c s else Done 0 s)
        (\<lambda>_ s1. fork_v0_pages c envid pns s1))"

definition fork_v0 :: "nat \<Rightarrow> kern \<Rightarrow> u32 uresult" where
  "fork_v0 c s =
     ubind (must (sys_exofork s)) (\<lambda>envid s1.
     ubind (fork_v0_pages c envid [0..<unat (UTOP div PGSIZE)] s1) (\<lambda>_ s2.
     ubind (must (sys_env_set_status envid 2 s2)) (\<lambda>_ s3. Done envid s3)))"

section \<open>IPC\<close>

text \<open>What \<open>ipc_recv\<close> passes to the kernel, and what it returns once the environment runs again.\<close>

definition ipc_recv_call :: "u32 \<Rightarrow> kern \<Rightarrow> sysret" where
  "ipc_recv_call pg s = sys_ipc_recv (if pg = 0 then UTOP else pg) s"

definition ipc_recv_result :: "nat \<Rightarrow> error + u32 \<Rightarrow> kern \<Rightarrow> (error + u32) \<times> u32 \<times> u32" where
  "ipc_recv_result c r s =
     (case r of
        Inl e \<Rightarrow> (Inl e, 0, 0)
      | Inr _ \<Rightarrow> (Inr (env_ipc_value (envs s c)), env_ipc_from (envs s c), env_ipc_perm (envs s c)))"

text \<open>One round of the loop of \<open>ipc_send\<close>; the result says whether it was sent.\<close>

definition ipc_send_round :: "u32 \<Rightarrow> u32 \<Rightarrow> u32 \<Rightarrow> u32 \<Rightarrow> kern \<Rightarrow> bool uresult" where
  "ipc_send_round to_env val pg perm s =
     usys (sys_ipc_try_send to_env val (if pg = 0 then UTOP else pg) perm s)
       (\<lambda>r s1. case r of Inr _ \<Rightarrow> Done True s1 | Inl e \<Rightarrow> if e = E_IPC_NOT_RECV then Done False s1 else Upanic s1)"

definition ipc_find_env :: "EnvType \<Rightarrow> kern \<Rightarrow> u32" where
  "ipc_find_env type s =
     (case find (\<lambda>i. env_type (envs s i) = type) [0..<NENV] of Some i \<Rightarrow> env_id (envs s i) | None \<Rightarrow> 0)"

section \<open>Permissions of the copies\<close>

abbreviation pmap :: "kern \<Rightarrow> nat \<times> nat \<times> nat \<rightharpoonup> u32" where
  "pmap s \<equiv> umap (phys s) (dirs s)"

definition copied_pte :: "u32 \<Rightarrow> u32" where
  "copied_pte pte = frame_addr (unat (PGNUM pte)) OR dup_perm pte OR PTE_P"

definition cow_pte :: "u32 \<Rightarrow> u32" where
  "cow_pte pte = (if dup_perm pte AND PTE_COW \<noteq> 0 then copied_pte pte else pte)"

lemma dup_perm_ok: "dup_perm pte AND NOT PTE_SYSCALL = 0"
proof -
  have "(pte AND PTE_SYSCALL AND NOT PTE_W) AND NOT PTE_SYSCALL = 0"
    by (rule bit_word_eqI) (auto simp: bit_simps)
  moreover have "PTE_W AND NOT PTE_SYSCALL = 0" "PTE_COW AND NOT PTE_SYSCALL = 0"
    by (simp_all add: PTE_W_def PTE_COW_def layout_values(13))
  ultimately show ?thesis by (simp add: dup_perm_def Let_def bit.conj_disj_distrib2)
qed

lemma dup_perm_W: "dup_perm pte AND PTE_W \<noteq> 0 \<Longrightarrow> pte AND PTE_SHARE \<noteq> 0"
proof (rule ccontr)
  assume w: "dup_perm pte AND PTE_W \<noteq> 0" and "\<not> pte AND PTE_SHARE \<noteq> 0"
  then have "dup_perm pte = (let perm = pte AND PTE_SYSCALL AND NOT PTE_W in if pte AND PTE_W \<noteq> 0 then perm OR PTE_COW else perm)"
    by (simp add: dup_perm_def)
  moreover have "(pte AND PTE_SYSCALL AND NOT PTE_W) AND PTE_W = 0" by (rule bit_word_eqI) (auto simp: bit_simps)
  moreover have "PTE_COW AND PTE_W = 0" by (simp add: PTE_COW_def PTE_W_def)
  ultimately have "dup_perm pte AND PTE_W = 0" by (simp add: Let_def bit.conj_disj_distrib2)
  with w show False by simp
qed

lemma perm_P_less: "perm < 4096 \<Longrightarrow> perm OR PTE_P < (4096 :: u32)"
proof -
  assume "perm < 4096"
  then have "PGNUM (perm OR PTE_P) = 0"
    by (simp add: less_4096_iff PGNUM_def drop_bit_or PTE_P_def)
  then show ?thesis by (simp add: less_4096_iff)
qed

lemma PGNUM_copied [simp]: "PGNUM (copied_pte pte) = PGNUM pte" "PGNUM (cow_pte pte) = PGNUM pte"
proof -
  have "unat (PGNUM pte) < 1048576"
    using unat_u32_less [of pte] by (simp add: PGNUM_def drop_bit_eq_div unat_div_distrib div_less_iff_less_mult)
  then have "unat (PGNUM (frame_addr (unat (PGNUM pte)) OR (dup_perm pte OR PTE_P))) = unat (PGNUM pte)"
    using perm_P_less [OF syscall_perm [OF dup_perm_ok]] by (rule PGNUM_frame_or)
  then show "PGNUM (copied_pte pte) = PGNUM pte" by (simp add: copied_pte_def or.assoc word_unat_eq_iff)
  then show "PGNUM (cow_pte pte) = PGNUM pte" by (simp add: cow_pte_def)
qed

section \<open>A partly copied address space\<close>

definition xkey :: "nat \<times> nat" where
  "xkey = (954, 1023)"

text \<open>The page tables after the pages in \<open>X\<close> have been copied from \<open>c\<close> to \<open>e\<close>; \<open>q\<close> is the frame of
  the exception stack of the child.\<close>

definition fork_map :: "kern \<Rightarrow> nat \<Rightarrow> nat \<Rightarrow> (nat \<times> nat) set \<Rightarrow> nat \<Rightarrow> nat \<times> nat \<times> nat \<rightharpoonup> u32" where
  "fork_map s0 c e X q = (\<lambda>(d, i, j).
     if (i, j) \<in> X \<and> d = env_dir s0 e then
       if (i, j) = xkey then Some (frame_addr q OR (PTE_P OR PTE_U OR PTE_W) OR PTE_P)
       else map_option copied_pte (pmap s0 (env_dir s0 c, i, j))
     else if (i, j) \<in> X \<and> d = env_dir s0 c \<and> (i, j) \<noteq> xkey then map_option cow_pte (pmap s0 (d, i, j))
     else pmap s0 (d, i, j))"

definition forked :: "kern \<Rightarrow> nat \<Rightarrow> nat \<Rightarrow> nat list \<Rightarrow> (nat \<times> nat) set \<Rightarrow> kern \<Rightarrow> bool" where
  "forked s0 c e el X s \<longleftrightarrow> (\<exists>fl. kinv s fl el) \<and> pm_frame s0 s
     \<and> (\<forall>p\<in>ran (frames (phys s0) (dirs s0)). phys s p = phys s0 p)
     \<and> (\<exists>q. (xkey \<in> X \<longrightarrow> q < 1048576 \<and> q \<notin> ran (frames (phys s0) (dirs s0)) \<and> phys s q = (\<lambda>_. 0))
          \<and> pmap s = fork_map s0 c e X q)"

text \<open>What \<open>fork\<close> finds after \<open>sys_exofork\<close>: the child \<open>e\<close> is empty, the parent \<open>c\<close> has an exception
  stack, pages to share are writable, and the reference counts can be doubled.\<close>

definition fork_pre :: "kern \<Rightarrow> nat \<Rightarrow> nat \<Rightarrow> u32 \<Rightarrow> nat list \<Rightarrow> bool" where
  "fork_pre s0 c e envid el \<longleftrightarrow> (\<exists>fl. kinv s0 fl el) \<and> curenv s0 = Some c \<and> c \<in> live s0 \<and> e \<in> live s0 \<and> c \<noteq> e
     \<and> envid2env envid True s0 = Some (Inr (Some e))
     \<and> uspace s0 e = Map.empty \<and> uspace s0 c xkey \<noteq> None
     \<and> (\<forall>k pte. uspace s0 c k = Some pte \<longrightarrow> pte AND PTE_SHARE \<noteq> 0 \<longrightarrow> pte AND PTE_W \<noteq> 0)
     \<and> (\<forall>p\<in>ran (frames (phys s0) (dirs s0)). 2 * occurrences (frames (phys s0) (dirs s0)) p < 65535)"

lemma fork_preD:
  assumes "fork_pre s0 c e envid el"
  shows "curenv s0 = Some c" and "c \<in> live s0" and "e \<in> live s0" and "env_dir s0 c \<noteq> env_dir s0 e"
    and "envid2env envid True s0 = Some (Inr (Some e))" and "pmap s0 (env_dir s0 e, k) = None"
    and "pmap s0 (env_dir s0 c, xkey) \<noteq> None"
    and "pmap s0 (env_dir s0 c, k) = Some pte \<Longrightarrow> pte AND PTE_SHARE \<noteq> 0 \<Longrightarrow> pte AND PTE_W \<noteq> 0"
    and "p \<in> ran (frames (phys s0) (dirs s0)) \<Longrightarrow> 2 * occurrences (frames (phys s0) (dirs s0)) p < 65535" and "\<exists>fl. kinv s0 fl el"
proof -
  note a = assms [unfolded fork_pre_def]
  show "curenv s0 = Some c" "c \<in> live s0" "e \<in> live s0" "envid2env envid True s0 = Some (Inr (Some e))"
    "\<exists>fl. kinv s0 fl el"
    "p \<in> ran (frames (phys s0) (dirs s0)) \<Longrightarrow> 2 * occurrences (frames (phys s0) (dirs s0)) p < 65535"
    using a by blast+
  from a obtain fl where k: "kinv s0 fl el" "c \<in> live s0" "e \<in> live s0" "c \<noteq> e" by blast
  show "env_dir s0 c \<noteq> env_dir s0 e" using kinvD(5) [OF k(1)] k(2-4) by (auto dest: inj_onD)
  have us: "uspace s0 x k = pmap s0 (env_dir s0 x, k)" for x k by (cases k) (simp add: uspace_def)
  show "pmap s0 (env_dir s0 e, k) = None" "pmap s0 (env_dir s0 c, xkey) \<noteq> None" using a us by (metis)+
  show "pte AND PTE_W \<noteq> 0" if "pmap s0 (env_dir s0 c, k) = Some pte" "pte AND PTE_SHARE \<noteq> 0"
    using a that unfolding us by blast
qed

lemma forkedD:
  assumes "forked s0 c e el X s"
  obtains fl q where "kinv s fl el" and "pm_frame s0 s" and "\<And>p. p \<in> ran (frames (phys s0) (dirs s0)) \<Longrightarrow> phys s p = phys s0 p"
    and "xkey \<in> X \<longrightarrow> q < 1048576 \<and> q \<notin> ran (frames (phys s0) (dirs s0)) \<and> phys s q = (\<lambda>_. 0)"
    and "pmap s = fork_map s0 c e X q"
  using assms unfolding forked_def by blast

text \<open>No frame of the parent gets more than twice its mappings.\<close>

definition doubled :: "kern \<Rightarrow> nat \<Rightarrow> nat \<Rightarrow> kern \<Rightarrow> bool" where
  "doubled s0 c e s \<longleftrightarrow> (\<forall>d k p. frames (phys s) (dirs s) (d, k) = Some p \<longrightarrow> p \<in> ran (frames (phys s0) (dirs s0)) \<longrightarrow>
     frames (phys s0) (dirs s0) (d, k) = Some p
     \<or> d = env_dir s0 e \<and> frames (phys s0) (dirs s0) (env_dir s0 c, k) = Some p)"

lemma doubled_refs:
  assumes pre: "fork_pre s0 c e envid el" and k: "kinv s fl el" and d: "doubled s0 c e s"
    and p: "p \<in> ran (frames (phys s0) (dirs s0))" "p \<in> ran (frames (phys s) (dirs s))"
  shows "unat (pp_ref (pages s p)) < 65535"
proof -
  obtain fl0 where k0: "kinv s0 fl0 el" using fork_preD(10) [OF pre] by blast
  let ?A = "{k. frames (phys s0) (dirs s0) k = Some p}" let ?f = "\<lambda>(d, k). (env_dir s0 e, k)"
  have fin: "finite ?A"
    by (intro finite_occ finite_dom_frames) (rule tables_invD(1) [OF vm_invD(2) [OF kinvD(1) [OF k0]]])
  have "{k. frames (phys s) (dirs s) k = Some p} \<subseteq> ?A \<union> ?f ` ?A"
  proof
    fix x assume "x \<in> {k. frames (phys s) (dirs s) k = Some p}"
    then have x: "frames (phys s) (dirs s) (fst x, snd x) = Some p" by simp
    from d p(1) x consider "frames (phys s0) (dirs s0) (fst x, snd x) = Some p"
      | "fst x = env_dir s0 e" "frames (phys s0) (dirs s0) (env_dir s0 c, snd x) = Some p"
      unfolding doubled_def by blast
    then show "x \<in> ?A \<union> ?f ` ?A"
    proof cases
      case 2
      then have "x = ?f (env_dir s0 c, snd x)" "(env_dir s0 c, snd x) \<in> ?A" by (cases x, simp_all)
      then show ?thesis by blast
    qed simp
  qed
  then have "occurrences (frames (phys s) (dirs s)) p \<le> card (?A \<union> ?f ` ?A)"
    unfolding occurrences_def using fin by (intro card_mono) simp_all
  also have "\<dots> \<le> card ?A + card (?f ` ?A)" by (rule card_Un_le)
  also have "\<dots> \<le> 2 * occurrences (frames (phys s0) (dirs s0)) p"
    unfolding occurrences_def using card_image_le [OF fin, of ?f] by simp
  finally show ?thesis using fork_preD(9) [OF pre p(1)] vm_inv_mapped(5) [OF kinvD(1) [OF k] p(2)] by linarith
qed

lemma frames_map: "frames m D = (\<lambda>k. map_option (\<lambda>pte. unat (PGNUM pte)) (umap m D k))"
  by (simp add: fun_eq_iff frames_apply)

lemma forked_doubled:
  assumes pre: "fork_pre s0 c e envid el" and f: "forked s0 c e el X s"
  shows "doubled s0 c e s"
proof -
  obtain fl q where q: "xkey \<in> X \<longrightarrow> q < 1048576 \<and> q \<notin> ran (frames (phys s0) (dirs s0)) \<and> phys s q = (\<lambda>_. 0)"
    and m: "pmap s = fork_map s0 c e X q"
    by (rule forkedD [OF f])
  have seven: "(PTE_P OR PTE_U OR PTE_W) OR PTE_P < (4096 :: u32)" by (simp add: PTE_P_def PTE_U_def PTE_W_def)
  show ?thesis
    unfolding doubled_def
  proof (intro allI impI)
    fix d k p
    assume p: "frames (phys s) (dirs s) (d, k) = Some p" "p \<in> ran (frames (phys s0) (dirs s0))"
    obtain i j where k: "k = (i, j)" by (cases k)
    have "(i, j) = xkey \<Longrightarrow> (i, j) \<in> X \<Longrightarrow> d \<noteq> env_dir s0 e"
      using p q m PGNUM_frame_or [OF _ seven] unfolding frames_map k by (auto simp: fork_map_def or.assoc)
    then show "frames (phys s0) (dirs s0) (d, k) = Some p
      \<or> d = env_dir s0 e \<and> frames (phys s0) (dirs s0) (env_dir s0 c, k) = Some p"
      using p(1) unfolding frames_map m k by (auto simp: fork_map_def split: if_splits)
  qed
qed

text \<open>The frames that were mapped before the copy still are, by their old holders.\<close>

lemma forked_keeps:
  assumes pre: "fork_pre s0 c e envid el" and m: "pmap s = fork_map s0 c e X q"
    and p: "frames (phys s0) (dirs s0) k = Some p"
  shows "frames (phys s) (dirs s) k = Some p"
proof -
  obtain d i j where k: "k = (d, i, j)" by (cases k)
  have "d \<noteq> env_dir s0 e" using p fork_preD(6) [OF pre, of "(i, j)"] by (auto simp: k frames_map)
  then show ?thesis using p unfolding k frames_map m by (auto simp: fork_map_def)
qed

text \<open>What the parent sees of its tables.\<close>

lemma table_view:
  assumes k: "kinv s fl el" and c: "c \<in> live s" and ij: "i < NPDU" "j < 1024"
  defines "a \<equiv> PGADDR (of_nat i) (of_nat j) 0"
  shows "uvpd c a s = phys s (env_dir s c) i"
    and "uvpd c a s AND PTE_P = 0 \<Longrightarrow> pmap s (env_dir s c, i, j') = None"
    and "uvpd c a s AND PTE_P \<noteq> 0 \<Longrightarrow>
      pmap s (env_dir s c, i, j) = (if uvpt c a s AND PTE_P = 0 then None else Some (uvpt c a s))"
proof -
  have ptx: "unat (PDX a) = i" "unat (PTX a) = j"
    using ukey_PGADDR(2) [OF ij, of 0] by (simp_all add: ukey_def a_def)
  show v: "uvpd c a s = phys s (env_dir s c) i"
    unfolding uvpd_def dir_entry [OF k c] ptx ..
  note ti = vm_invD(2) [OF kinvD(1) [OF k]]
  show "pmap s (env_dir s c, i, j') = None" if "uvpd c a s AND PTE_P = 0"
    using tables_invD(7) [OF ti, of "env_dir s c" i] that v by (auto simp: umap_apply)
  show "pmap s (env_dir s c, i, j) = (if uvpt c a s AND PTE_P = 0 then None else Some (uvpt c a s))"
    if "uvpd c a s AND PTE_P \<noteq> 0"
  proof -
    have "(env_dir s c, i) \<in> live_slots (phys s) (dirs s)"
      using that v ij(1) kinvD(12) [OF k c] by (auto simp: live_slots_iff)
    then show ?thesis using ij(2) by (simp add: umap_apply uvpt_def v ptx pt_frame_def)
  qed
qed

lemma pm_frame_envid: "pm_frame s s' \<Longrightarrow> envid2env x chk s' = envid2env x chk s"
  using pm_frameD(2,7) by (simp add: envid2env_def Let_def)

text \<open>How a piece of user code ends: with \<open>P\<close>, or with a panic when no more than one page is free.\<close>

definition progress :: "nat list \<Rightarrow> (kern \<Rightarrow> bool) \<Rightarrow> 'a uresult \<Rightarrow> bool" where
  "progress el P r \<longleftrightarrow> (case r of Done _ s \<Rightarrow> P s | Upanic s \<Rightarrow> (\<exists>fl. kinv s fl el \<and> length fl \<le> 1) | Gone \<Rightarrow> False)"

lemma progress_simps [simp]:
  "progress el P (Done x s) \<longleftrightarrow> P s" "progress el P (Upanic s) \<longleftrightarrow> (\<exists>fl. kinv s fl el \<and> length fl \<le> 1)"
  "\<not> progress el P Gone"
  by (simp_all add: progress_def)

lemma progress_bind:
  "progress el P r \<Longrightarrow> (\<And>x s. P s \<Longrightarrow> progress el Q (k x s)) \<Longrightarrow> progress el Q (ubind r k)"
  by (cases r) auto

lemma progress_mono: "progress el P r \<Longrightarrow> (\<And>s. P s \<Longrightarrow> Q s) \<Longrightarrow> progress el Q r"
  by (cases r) auto

lemma must_simps [simp]: "must (Return (Inr v) s) = Done v s" "must (Return (Inl err) s) = Upanic s"
  by (simp_all add: must_def usys_def)

lemma fork_map_insert:
  assumes "env_dir s0 c \<noteq> env_dir s0 e" and "k \<noteq> xkey" and "k \<notin> X" and "pmap s0 (env_dir s0 c, k) = Some pte"
  shows "fork_map s0 c e (insert k X) q
    = (fork_map s0 c e X q)((env_dir s0 e, k) \<mapsto> copied_pte pte, (env_dir s0 c, k) \<mapsto> cow_pte pte)"
    and "fork_map s0 c e X q (env_dir s0 c, k) = Some pte"
  using assms by (cases k, auto simp: fork_map_def fun_eq_iff)+

lemma fork_map_skip:
  assumes "k \<noteq> xkey" and "pmap s0 (env_dir s0 c, k) = None" and "pmap s0 (env_dir s0 e, k) = None"
  shows "fork_map s0 c e (insert k X) q = fork_map s0 c e X q"
  using assms by (cases k, auto simp: fork_map_def fun_eq_iff)

lemma PGADDR_page:
  assumes "i < NPDU" and "j < 1024"
  defines "a \<equiv> PGADDR (of_nat i) (of_nat j) 0"
  shows "a < UTOP" and "PGOFF a = 0" and "upage a = (i, j)" and "ukey d a = (d, i, j)"
    and "a = UXSTACKTOP - PGSIZE \<longleftrightarrow> (i, j) = xkey"
proof -
  have u: "unat a = i * 4194304 + j * 4096" using PGADDR_parts assms by (simp add: NPDU_less a_def)
  show "a < UTOP" "ukey d a = (d, i, j)" using ukey_PGADDR [OF assms(1,2)] by (simp_all add: a_def)
  then show "upage a = (i, j)" by (simp add: upage_def ukey_def)
  have "unat (PGOFF a) = 0" using u by (simp add: unat_PGOFF)
  then show "PGOFF a = 0" by (simp add: word_unat_eq_iff)
  have "a = UXSTACKTOP - PGSIZE \<longleftrightarrow> unat a = unat (UXSTACKTOP - PGSIZE)" by (simp only: word_unat_eq_iff)
  also have "\<dots> \<longleftrightarrow> i * 4194304 + j * 4096 = 4005556224" unfolding u by (simp add: layout_values layout_defs)
  also have "\<dots> \<longleftrightarrow> i * 1024 + j = 977919" by linarith
  also have "\<dots> \<longleftrightarrow> (i, j) = xkey"
  proof
    assume e: "i * 1024 + j = 977919"
    have "i = (i * 1024 + j) div 1024" "j = (i * 1024 + j) mod 1024" using assms(2) by simp_all
    then show "(i, j) = xkey" unfolding e xkey_def by simp
  qed (simp add: xkey_def)
  finally show "a = UXSTACKTOP - PGSIZE \<longleftrightarrow> (i, j) = xkey" .
qed

lemma forked_step:
  assumes pre: "fork_pre s0 c e envid el" and f: "pm_frame s0 s"
    and old: "\<And>p. p \<in> ran (frames (phys s0) (dirs s0)) \<Longrightarrow> phys s p = phys s0 p"
    and q: "xkey \<in> X \<longrightarrow> q < 1048576 \<and> q \<notin> ran (frames (phys s0) (dirs s0)) \<and> phys s q = (\<lambda>_. 0)"
    and m: "pmap s = fork_map s0 c e X q"
    and k': "kinv s' fl' el" and f': "pm_frame s s'" and m': "pmap s' = fork_map s0 c e X' q"
    and keep: "\<And>p. p \<in> ran (frames (phys s) (dirs s)) \<Longrightarrow> phys s' p = phys s p" and X': "xkey \<in> X' \<Longrightarrow> xkey \<in> X"
  shows "forked s0 c e el X' s'"
proof -
  have "pm_frame s0 s'" using f f' by (rule pm_frame_trans)
  moreover have "phys s' p = phys s0 p" if "p \<in> ran (frames (phys s0) (dirs s0))" for p
  proof -
    from that obtain k where "frames (phys s0) (dirs s0) k = Some p" by (auto simp: ran_def)
    then have "p \<in> ran (frames (phys s) (dirs s))" by (intro ranI [of _ k] forked_keeps [OF pre m])
    then show ?thesis using keep old that by simp
  qed
  moreover have "phys s' q = (\<lambda>_. 0)" if "xkey \<in> X'"
  proof -
    have qq: "q < 1048576" "phys s q = (\<lambda>_. 0)" using q X' [OF that] by simp_all
    have "frames (phys s) (dirs s) (env_dir s0 e, xkey) = Some q"
      using X' [OF that] PGNUM_frame_or [OF qq(1), of "(PTE_P OR PTE_U OR PTE_W) OR PTE_P"]
      unfolding frames_map m by (simp add: fork_map_def xkey_def or.assoc PTE_P_def PTE_U_def PTE_W_def)
    then show ?thesis using keep [of q] qq(2) by (auto intro: ranI)
  qed
  ultimately show ?thesis using k' m' q X' unfolding forked_def by blast
qed

text \<open>One page: shared or copy-on-write in both environments.\<close>

lemma duppage_step:
  assumes pre: "fork_pre s0 c e envid el" and fk: "forked s0 c e el X s"
    and ij: "i < NPDU" "j < 1024" and new: "(i, j) \<notin> X" "(i, j) \<noteq> xkey"
    and view: "uvpd c (PGADDR (of_nat i) (of_nat j) 0) s AND PTE_P \<noteq> 0"
      "uvpt c (PGADDR (of_nat i) (of_nat j) 0) s AND PTE_P \<noteq> 0"
  shows "progress el (forked s0 c e el (insert (i, j) X)) (duppage c envid (PGADDR (of_nat i) (of_nat j) 0) s)"
proof -
  let ?a = "PGADDR (of_nat i) (of_nat j) 0" let ?k = "(i, j)"
  let ?pte = "uvpt c ?a s" let ?perm = "dup_perm ?pte"
  note P = fork_preD [OF pre] and pg = PGADDR_page [OF ij]
  obtain fl q where k: "kinv s fl el" and f: "pm_frame s0 s"
    and old: "\<And>p. p \<in> ran (frames (phys s0) (dirs s0)) \<Longrightarrow> phys s p = phys s0 p"
    and q: "xkey \<in> X \<longrightarrow> q < 1048576 \<and> q \<notin> ran (frames (phys s0) (dirs s0)) \<and> phys s q = (\<lambda>_. 0)"
    and m: "pmap s = fork_map s0 c e X q" by (rule forkedD [OF fk]) (rule that)
  note D = pm_frame_dirs [OF f]
  have live: "c \<in> live s" "e \<in> live s" using P(2,3) D by simp_all
  have pte: "pmap s (env_dir s c, ?k) = Some ?pte" using table_view(3) [OF k live(1) ij view(1)] view(2) by simp
  then have pte0: "pmap s0 (env_dir s0 c, ?k) = Some ?pte"
    using new P(4) unfolding m D(3) by (simp add: fork_map_def)
  note ins = fork_map_insert [OF P(4) new(2,1) pte0, of q]
  have w: "\<not> (?perm AND PTE_W \<noteq> 0 \<and> ?pte AND PTE_W = 0)" using P(8) [OF pte0] dup_perm_W by blast
  have self: "envid2env 0 True s = Some (Inr (Some c))"
    using P(1) pm_frameD(7) [OF f] by (simp add: envid2env_def)
  have chd: "envid2env envid True s = Some (Inr (Some e))" using P(5) pm_frame_envid [OF f] by simp
  have us: "uspace s c (upage ?a) = Some ?pte" using pte pg(3) by (simp add: uspace_def)
  have fr0: "unat (PGNUM ?pte) \<in> ran (frames (phys s0) (dirs s0))" by (rule umap_ran [OF pte0])
  have r: "unat (pp_ref (pages s (unat (PGNUM ?pte)))) < 65535"
    by (rule doubled_refs [OF pre k forked_doubled [OF pre fk] fr0 umap_ran [OF pte]])
  note run = sys_page_map_run [OF k self live(1) chd live(2) pg(1,2,1,2) dup_perm_ok [of ?pte] us r]
  show ?thesis
  proof (cases "sys_page_map 0 ?a envid ?a ?perm s = ret_err E_NO_MEM s \<and> fl = []")
    case True
    then show ?thesis using k by (auto simp: duppage_def)
  next
    case False
    then obtain s1 fl1 where s1: "sys_page_map 0 ?a envid ?a ?perm s = ret_ok s1" "kinv s1 fl1 el"
      "untouched {e} s s1" "pm_frame s s1"
      "pmap s1 = (pmap s)((env_dir s0 e, ?k) \<mapsto> copied_pte ?pte)"
      using run w unfolding pg(4) D(3) by (auto simp: copied_pte_def)
    have keep1: "phys s1 p = phys s p" if "p \<in> ran (frames (phys s) (dirs s))" for p
      using s1(3) that by (simp add: untouched_def)
    show ?thesis
    proof (cases "?perm AND PTE_COW = 0")
      case True
      have "pmap s1 = fork_map s0 c e (insert ?k X) q"
        using s1(5) ins m True P(4) by (auto simp: fun_eq_iff cow_pte_def)
      then have "forked s0 c e el (insert ?k X) s1"
        by (intro forked_step [OF pre f old q m s1(2,4) _ keep1]) (use new in auto)
      then show ?thesis using s1(1) True by (simp add: duppage_def)
    next
      case cow: False
      have f1: "pm_frame s0 s1" using f s1(4) by (rule pm_frame_trans)
      note D1 = pm_frame_dirs [OF f1]
      have pte1: "pmap s1 (env_dir s1 c, ?k) = Some ?pte" using pte P(4) unfolding s1(5) D(3) D1(3) by simp
      have fr1: "frames (phys s1) (dirs s1) = (frames (phys s) (dirs s))((env_dir s0 e, ?k) \<mapsto> unat (PGNUM ?pte))"
        using s1(5) unfolding frames_map by (auto simp: fun_eq_iff)
      have fp: "frames (phys s0) (dirs s0) (env_dir s0 c, ?k) = Some (unat (PGNUM ?pte))"
        using pte0 by (simp add: frames_apply)
      have "doubled s0 c e s1"
        using forked_doubled [OF pre fk] fp unfolding doubled_def fr1 by auto
      note r1 = doubled_refs [OF pre s1(2) this fr0 umap_ran [OF pte1]]
      have live1: "c \<in> live s1" using P(2) D1 by simp
      have self1: "envid2env 0 True s1 = Some (Inr (Some c))" using self pm_frame_envid [OF s1(4)] by simp
      have us1: "uspace s1 c (upage ?a) = Some ?pte" using pte1 pg(3) by (simp add: uspace_def)
      note run1 = sys_page_map_run [OF s1(2) self1 live1 self1 live1 pg(1,2,1,2) dup_perm_ok [of ?pte] us1 r1]
      show ?thesis
      proof (cases "sys_page_map 0 ?a 0 ?a ?perm s1 = ret_err E_NO_MEM s1 \<and> fl1 = []")
        case True
        then show ?thesis using s1(1,2) cow by (auto simp: duppage_def)
      next
        case False
        then obtain s2 fl2 where s2: "sys_page_map 0 ?a 0 ?a ?perm s1 = ret_ok s2" "kinv s2 fl2 el"
          "untouched {c} s1 s2" "pm_frame s1 s2" "pmap s2 = (pmap s1)((env_dir s0 c, ?k) \<mapsto> copied_pte ?pte)"
          using run1 w unfolding pg(4) D1(3) by (auto simp: copied_pte_def)
        have "pmap s2 = fork_map s0 c e (insert ?k X) q"
          using s2(5) s1(5) ins(1) m cow by (simp add: cow_pte_def)
        moreover have "phys s2 p = phys s p" if "p \<in> ran (frames (phys s) (dirs s))" for p
        proof -
          have "p \<in> ran (frames (phys s1) (dirs s1))"
          proof -
            from that obtain y where y: "frames (phys s) (dirs s) y = Some p" by (auto simp: ran_def)
            have "y \<noteq> (env_dir s0 e, ?k)"
              using y new P(6) [of ?k] P(4) unfolding frames_map m by (auto simp: fork_map_def)
            then have "frames (phys s1) (dirs s1) y = Some p" using y unfolding fr1 by simp
            then show ?thesis by (rule ranI)
          qed
          then show ?thesis using s2(3) keep1 [OF that] by (simp add: untouched_def)
        qed
        ultimately have "forked s0 c e el (insert ?k X) s2"
          using pm_frame_trans [OF s1(4) s2(4)]
          by (intro forked_step [OF pre f old q m s2(2)]) (use new in auto)
        then show ?thesis using s1(1) s2(1) cow by (simp add: duppage_def)
      qed
    qed
  qed
qed

text \<open>The exception stack: a new page of zeros for the child.\<close>

lemma must_page_alloc:
  assumes k: "kinv s fl el" and e: "envid2env envid True s = Some (Inr (Some e))" "e \<in> live s"
    and va: "va < UTOP" "PGOFF va = 0" and perm: "perm AND NOT PTE_SYSCALL = 0"
  shows "progress el (\<lambda>s'. \<exists>p fl'. kinv s' fl' el \<and> p < 1048576 \<and> p \<notin> ran (frames (phys s) (dirs s)) \<and> pm_frame s s'
      \<and> phys s' p = (\<lambda>_. 0) \<and> pmap s' = (pmap s)(ukey (env_dir s e) va \<mapsto> frame_addr p OR perm OR PTE_P)
      \<and> (\<forall>q\<in>ran (frames (phys s) (dirs s)). phys s' q = phys s q))
    (must (sys_page_alloc envid va perm s))"
proof (cases fl)
  case Nil
  have "page_alloc ALLOC_ZERO s = Some (None, s)"
    using k Nil by (intro page_alloc_Nil vm_invD(1) [OF kinvD(1)]) simp
  then have "sys_page_alloc envid va perm s = ret_err E_NO_MEM s"
    using e(1) va perm by (simp add: sys_page_alloc_def with_env_def of_result_def)
  then show ?thesis using k Nil by auto
next
  case (Cons p fl')
  note vm = kinvD(1) [OF k]
  have p: "p < npages s" "p \<notin> ran (frames (phys s) (dirs s))"
    using free_list_invD(3) [OF vm_invD(1) [OF vm], of p] vm_inv_mapped(2) [OF vm] Cons by auto
  then have "p < 1048576" using vm_invD(3) [OF vm] by simp
  with sys_page_alloc_run [OF k [unfolded Cons] e va perm] p(2) show ?thesis
    by (elim disjE exE conjE) (simp, blast, auto intro!: exI [of _ "[p]"])
qed

lemma perm7_ok: "(PTE_P OR PTE_U OR PTE_W) AND NOT PTE_SYSCALL = 0"
  by (simp add: PTE_P_def PTE_U_def PTE_W_def layout_values(13))

lemma fork_xstack_step:
  assumes pre: "fork_pre s0 c e envid el" and fk: "forked s0 c e el X s" and new: "xkey \<notin> X"
    and ij: "(i, j) = xkey"
  shows "progress el (forked s0 c e el (insert xkey X))
    (must (sys_page_alloc envid (PGADDR (of_nat i) (of_nat j) 0) (PTE_P OR PTE_U OR PTE_W) s))"
proof -
  let ?perm = "PTE_P OR PTE_U OR PTE_W"
  have ij': "i < NPDU" "j < 1024" using ij by (simp_all add: xkey_def NPDU_eq)
  note P = fork_preD [OF pre] and pg = PGADDR_page [OF ij']
  obtain fl q where k: "kinv s fl el" and f: "pm_frame s0 s"
    and old: "\<And>p. p \<in> ran (frames (phys s0) (dirs s0)) \<Longrightarrow> phys s p = phys s0 p"
    and m: "pmap s = fork_map s0 c e X q" by (rule forkedD [OF fk]) (rule that)
  note D = pm_frame_dirs [OF f]
  have keeps: "x \<in> ran (frames (phys s) (dirs s))" if "x \<in> ran (frames (phys s0) (dirs s0))" for x
  proof -
    from that obtain y where "frames (phys s0) (dirs s0) y = Some x" by (auto simp: ran_def)
    then show ?thesis by (intro ranI [of _ y] forked_keeps [OF pre m])
  qed
  have step: "forked s0 c e el (insert xkey X) s'"
    if s': "kinv s' fl' el" "p < 1048576" "p \<notin> ran (frames (phys s) (dirs s))" "pm_frame s s'" "phys s' p = (\<lambda>_. 0)"
      "pmap s' = (pmap s)((env_dir s0 e, i, j) \<mapsto> frame_addr p OR ?perm OR PTE_P)"
      "\<forall>q\<in>ran (frames (phys s) (dirs s)). phys s' q = phys s q" for s' fl' p
  proof -
    have m': "pmap s' = fork_map s0 c e (insert xkey X) p"
      using s'(6) new ij unfolding m by (auto simp: fun_eq_iff fork_map_def)
    have "\<forall>x\<in>ran (frames (phys s0) (dirs s0)). phys s' x = phys s0 x" using s'(7) old keeps by simp
    then show ?thesis using s'(1-3,5) keeps m' pm_frame_trans [OF f s'(4)] unfolding forked_def by blast
  qed
  have live: "e \<in> live s" using P(3) D by simp
  have chd: "envid2env envid True s = Some (Inr (Some e))" using P(5) pm_frame_envid [OF f] by simp
  show ?thesis
    by (rule progress_mono [OF must_page_alloc [OF k chd live pg(1,2) perm7_ok]]) (use step D in \<open>auto simp: pg(4)\<close>)
qed

text \<open>The page table of the parent stays in place.\<close>

definition present :: "nat \<Rightarrow> nat \<Rightarrow> kern \<Rightarrow> bool" where
  "present c i s \<longleftrightarrow> phys s (env_dir s c) i AND PTE_P \<noteq> 0"

lemma forked_present:
  assumes pre: "fork_pre s0 c e envid el" and fk: "forked s0 c e el X s" and pte: "pmap s0 (env_dir s0 c, i, j) \<noteq> None"
  shows "present c i s"
proof -
  obtain fl q where k: "kinv s fl el" and f: "pm_frame s0 s" and m: "pmap s = fork_map s0 c e X q"
    using fk unfolding forked_def by blast
  obtain x where "frames (phys s0) (dirs s0) (env_dir s0 c, i, j) = Some x" using pte by (auto simp: frames_apply)
  then have "frames (phys s) (dirs s) (env_dir s c, i, j) = Some x"
    using forked_keeps [OF pre m] pm_frame_dirs(3) [OF f] by simp
  then have "(env_dir s c, i) \<in> live_slots (phys s) (dirs s)" by (auto simp: frames_apply umap_apply split: if_splits)
  then show ?thesis using tables_invD(7) [OF vm_invD(2) [OF kinvD(1) [OF k]]] by (simp add: present_def)
qed

lemma fork_page_step:
  assumes pre: "fork_pre s0 c e envid el" and fk: "forked s0 c e el X s" and pr: "present c i s"
    and ij: "i < NPDU" "j < 1024" and new: "(i, j) \<notin> X"
  shows "progress el (\<lambda>s'. forked s0 c e el (insert (i, j) X) s' \<and> present c i s')
    (fork_page c envid (PGADDR (of_nat i) (of_nat j) 0) s)"
proof -
  let ?a = "PGADDR (of_nat i) (of_nat j) 0"
  note pg = PGADDR_page [OF ij] and P = fork_preD [OF pre]
  obtain fl where k: "kinv s fl el" and f: "pm_frame s0 s" using fk unfolding forked_def by blast
  obtain q where m: "pmap s = fork_map s0 c e X q" using fk unfolding forked_def by blast
  have c: "c \<in> live s" using P(2) pm_frame_dirs(2) [OF f] by simp
  have view: "uvpd c ?a s AND PTE_P \<noteq> 0" using pr table_view(1) [OF k c ij] by (simp add: present_def)
  have same: "pmap s (env_dir s c, i, j) = pmap s0 (env_dir s0 c, i, j)"
    using new P(4) unfolding m pm_frame_dirs(3) [OF f] by (simp add: fork_map_def)
  have there: "progress el (\<lambda>s'. forked s0 c e el Y s' \<and> present c i s') r"
    if "progress el (forked s0 c e el Y) r" "pmap s0 (env_dir s0 c, i, j) \<noteq> None" for r :: "u32 uresult" and Y
    using that forked_present [OF pre] by (cases r) auto
  consider (x) "(i, j) = xkey" | (absent) "(i, j) \<noteq> xkey" "uvpt c ?a s AND PTE_P = 0"
    | (present) "(i, j) \<noteq> xkey" "uvpt c ?a s AND PTE_P \<noteq> 0" by blast
  then show ?thesis
  proof cases
    case x
    then show ?thesis
      using there [OF fork_xstack_step [OF pre fk _ x]] new pg(5) P(7) by (simp add: fork_page_def Let_def)
  next
    case absent
    have "pmap s0 (env_dir s0 c, (i, j)) = None" using table_view(3) [OF k c ij view] absent(2) same by simp
    then have e: "fork_map s0 c e (insert (i, j) X) q = fork_map s0 c e X q" for q
      by (rule fork_map_skip [OF absent(1)]) (rule P(6))
    have "forked s0 c e el (insert (i, j) X) s" using fk absent(1) unfolding forked_def e by auto
    then show ?thesis using absent pg(5) pr by (simp add: fork_page_def Let_def)
  next
    case present
    have "pmap s0 (env_dir s0 c, i, j) \<noteq> None" using table_view(3) [OF k c ij view] present(2) same by simp
    then show ?thesis using there [OF duppage_step [OF pre fk ij new present(1) view present(2)]] present(1) pg(5)
      using present(2) by (simp add: fork_page_def Let_def)
  qed
qed

lemma fork_table_steps:
  assumes pre: "fork_pre s0 c e envid el" and i: "i < NPDU"
  shows "forked s0 c e el X s \<Longrightarrow> present c i s \<Longrightarrow> distinct js \<Longrightarrow> (\<And>j. j \<in> set js \<Longrightarrow> j < 1024 \<and> (i, j) \<notin> X) \<Longrightarrow>
    progress el (forked s0 c e el (X \<union> {i} \<times> set js)) (fork_table c envid i js s)"
proof (induction js arbitrary: X s)
  case (Cons j js)
  have "progress el (\<lambda>s'. forked s0 c e el (insert (i, j) X) s' \<and> present c i s')
      (fork_page c envid (PGADDR (of_nat i) (of_nat j) 0) s)"
    by (rule fork_page_step [OF pre Cons.prems(1,2) i]) (use Cons.prems(4) [of j] in auto)
  moreover have "progress el (forked s0 c e el (X \<union> {i} \<times> set (j # js))) (fork_table c envid i js s')"
    if "forked s0 c e el (insert (i, j) X) s' \<and> present c i s'" for s'
  proof -
    have "progress el (forked s0 c e el (insert (i, j) X \<union> {i} \<times> set js)) (fork_table c envid i js s')"
      using that Cons.prems(3,4) by (intro Cons.IH) auto
    moreover have "insert (i, j) X \<union> {i} \<times> set js = X \<union> {i} \<times> set (j # js)" by auto
    ultimately show ?thesis by simp
  qed
  ultimately show ?case unfolding fork_table.simps by (rule progress_bind)
qed simp

lemma forked_skip_table:
  assumes pre: "fork_pre s0 c e envid el" and fk: "forked s0 c e el X s" and i: "i < NPDU" and np: "\<not> present c i s"
    and new: "\<And>j. (i, j) \<notin> X"
  shows "forked s0 c e el (X \<union> {i} \<times> {..<1024}) s"
proof -
  note P = fork_preD [OF pre]
  have none: "pmap s0 (env_dir s0 c, i, j) = None" for j using forked_present [OF pre fk] np by blast
  then have ne: "(i, j) \<noteq> xkey" for j using P(7) by metis
  then have x: "xkey \<notin> {i} \<times> {..<1024}" by (metis SigmaE singletonD)
  have none2: "pmap s0 (env_dir s0 e, i, j) = None" for j using P(6) [of "(i, j)"] .
  have "fork_map s0 c e (X \<union> {i} \<times> {..<1024}) q = fork_map s0 c e X q" for q
    using ne none none2 by (auto simp: fork_map_def fun_eq_iff)
  then show ?thesis using fk x unfolding forked_def by auto
qed

lemma fork_dir_steps:
  assumes pre: "fork_pre s0 c e envid el"
  shows "forked s0 c e el X s \<Longrightarrow> distinct is \<Longrightarrow> (\<And>i j. i \<in> set is \<Longrightarrow> i < NPDU \<and> (i, j) \<notin> X) \<Longrightarrow>
    progress el (forked s0 c e el (X \<union> set is \<times> {..<1024})) (fork_dir c envid is s)"
proof (induction "is" arbitrary: X s)
  case (Cons i "is")
  let ?X = "X \<union> {i} \<times> {..<1024}"
  have i: "i < NPDU" and new: "\<And>j. (i, j) \<notin> X" using Cons.prems(3) by auto
  obtain fl where k: "kinv s fl el" and f: "pm_frame s0 s" using Cons.prems(1) unfolding forked_def by blast
  have c: "c \<in> live s" using fork_preD(2) [OF pre] pm_frame_dirs(2) [OF f] by simp
  have view: "uvpd c (PGADDR (of_nat i) 0 0) s AND PTE_P \<noteq> 0 \<longleftrightarrow> present c i s"
    using table_view(1) [OF k c i, of 0] by (simp add: present_def)
  have "progress el (forked s0 c e el ?X)
    (if uvpd c (PGADDR (of_nat i) 0 0) s AND PTE_P = 0 then Done 0 s else fork_table c envid i [0..<1024] s)"
  proof (cases "present c i s")
    case False
    then show ?thesis using view forked_skip_table [OF pre Cons.prems(1) i False new] by simp
  next
    case True
    have "progress el (forked s0 c e el (X \<union> {i} \<times> set [0..<1024])) (fork_table c envid i [0..<1024] s)"
      using new by (intro fork_table_steps [OF pre i Cons.prems(1) True]) (simp_all only: distinct_upt set_upt atLeastLessThan_iff simp_thms)
    moreover have "set [0..<1024] = {..<1024}" by (simp only: set_upt atLeast0LessThan)
    ultimately show ?thesis using True view by (simp only: if_False simp_thms)
  qed
  moreover have "progress el (forked s0 c e el (X \<union> set (i # is) \<times> {..<1024})) (fork_dir c envid is s')"
    if "forked s0 c e el ?X s'" for s'
  proof -
    have "progress el (forked s0 c e el (?X \<union> set is \<times> {..<1024})) (fork_dir c envid is s')"
      using that Cons.prems(2,3) by (intro Cons.IH) auto
    moreover have "?X \<union> set is \<times> {..<1024} = X \<union> set (i # is) \<times> {..<1024}" by auto
    ultimately show ?thesis by (simp only:)
  qed
  ultimately show ?case unfolding fork_dir.simps by (rule progress_bind)
qed simp

lemma uspace_pmap: "uspace s e k = pmap s (env_dir s e, k)"
  by (cases k) (simp add: uspace_def)

lemma ukey_upage: "ukey d a = (d, upage a)"
  by (simp add: ukey_def upage_def)

lemma uspace_pmap_upd:
  assumes k: "kinv s fl el" and c: "c \<in> live s" and f: "pm_frame s s'"
    and m: "pmap s' = (pmap s)((env_dir s c, k) := v)"
  shows "uspace s' c = (uspace s c)(k := v)" and "x \<in> live s - {c} \<Longrightarrow> uspace s' x = uspace s x"
proof -
  note D = pm_frame_dirs [OF f]
  show "uspace s' c = (uspace s c)(k := v)" unfolding fun_eq_iff uspace_pmap m D(3) by (simp add: uspace_pmap)
  show "uspace s' x = uspace s x" if "x \<in> live s - {c}"
  proof -
    have "env_dir s x \<noteq> env_dir s c" using that c kinvD(5) [OF k] by (auto dest: inj_onD)
    then show ?thesis unfolding fun_eq_iff uspace_pmap m D(3) by (simp add: uspace_pmap)
  qed
qed

text \<open>The address spaces that the copy promises.\<close>

definition child_space :: "kern \<Rightarrow> nat \<Rightarrow> nat \<Rightarrow> nat \<times> nat \<rightharpoonup> u32" where
  "child_space s0 c q k = (if k = xkey then Some (frame_addr q OR (PTE_P OR PTE_U OR PTE_W) OR PTE_P)
     else map_option copied_pte (uspace s0 c k))"

definition parent_space :: "kern \<Rightarrow> nat \<Rightarrow> nat \<times> nat \<rightharpoonup> u32" where
  "parent_space s0 c k = (if k = xkey then uspace s0 c k else map_option cow_pte (uspace s0 c k))"

definition space_copied :: "nat \<Rightarrow> nat \<Rightarrow> nat list \<Rightarrow> kern \<Rightarrow> kern \<Rightarrow> bool" where
  "space_copied c e el s s' \<longleftrightarrow> (\<exists>fl. kinv s' fl el) \<and> pm_frame s s'
     \<and> (\<exists>q. uspace s' e = child_space s c q \<and> phys s' q = (\<lambda>_. 0) \<and> q \<notin> ran (frames (phys s) (dirs s)))
     \<and> uspace s' c = parent_space s c \<and> (\<forall>x\<in>live s - {c, e}. uspace s' x = uspace s x)
     \<and> (\<forall>p\<in>ran (frames (phys s) (dirs s)). phys s' p = phys s p)"

lemma forked_all:
  assumes pre: "fork_pre s c e envid el" and fk: "forked s c e el ({..<NPDU} \<times> {..<1024}) s'"
  shows "space_copied c e el s s'"
proof -
  note P = fork_preD [OF pre]
  obtain fl0 where k0: "kinv s fl0 el" using P(10) by blast
  let ?X = "{..<NPDU} \<times> {..<1024 :: nat}"
  obtain fl q where k: "kinv s' fl el" and f: "pm_frame s s'"
    and old: "\<And>p. p \<in> ran (frames (phys s) (dirs s)) \<Longrightarrow> phys s' p = phys s p"
    and q: "xkey \<in> ?X \<longrightarrow> q < 1048576 \<and> q \<notin> ran (frames (phys s) (dirs s)) \<and> phys s' q = (\<lambda>_. 0)"
    and m: "pmap s' = fork_map s c e ?X q" by (rule forkedD [OF fk]) (rule that)
  have x: "xkey \<in> ?X" by (simp add: xkey_def NPDU_eq)
  note D = pm_frame_dirs [OF f]
  have us: "uspace t x k = pmap t (env_dir t x, k)" for t x k by (cases k) (simp add: uspace_def)
  have out: "pmap s (d, i, j) = None" if "(i, j) \<notin> ?X" for d i j
    using that by (auto simp: umap_apply live_slots_iff)
  have "uspace s' e (i, j) = child_space s c q (i, j)" for i j
  proof (cases "(i, j) \<in> ?X")
    case True
    then show ?thesis unfolding us m D(3) by (simp add: fork_map_def child_space_def us)
  next
    case False
    then have "(i, j) \<noteq> xkey" using x by metis
    then show ?thesis using False out [OF False] unfolding us m D(3) by (simp add: fork_map_def child_space_def us)
  qed
  moreover have "uspace s' c (i, j) = parent_space s c (i, j)" for i j
    using P(4) out [of i j] unfolding us m D(3)
    by (cases "(i, j) \<in> ?X") (auto simp: fork_map_def parent_space_def us)
  moreover have "uspace s' y (i, j) = uspace s y (i, j)" if "y \<in> live s - {c, e}" for y i j
  proof -
    have "env_dir s y \<noteq> env_dir s c" "env_dir s y \<noteq> env_dir s e"
      using that kinvD(5) [OF k0] P(2,3) by (auto dest: inj_onD)
    then show ?thesis unfolding us m D(3) by (simp add: fork_map_def us)
  qed
  ultimately have "uspace s' e = child_space s c q" "uspace s' c = parent_space s c"
    "\<forall>x\<in>live s - {c, e}. uspace s' x = uspace s x" by (auto simp: fun_eq_iff)
  then show ?thesis unfolding space_copied_def using k f old q x by blast
qed

lemma fork_dir_copies:
  assumes pre: "fork_pre s c e envid el"
  shows "progress el (space_copied c e el s) (fork_dir c envid [0..<NPDU] s)"
proof -
  obtain fl0 where k0: "kinv s fl0 el" using fork_preD(10) [OF pre] by blast
  have "fork_map s c e {} 0 = pmap s" by (auto simp: fork_map_def fun_eq_iff)
  then have "forked s c e el {} s" using k0 unfolding forked_def by (auto intro!: exI [of _ "0 :: nat"])
  from fork_dir_steps [OF pre this, of "[0..<NPDU]"]
  have "progress el (forked s c e el ({..<NPDU} \<times> {..<1024})) (fork_dir c envid [0..<NPDU] s)"
    by (simp add: atLeast0LessThan)
  then show ?thesis using forked_all [OF pre] by (auto simp: progress_def split: uresult.splits)
qed

lemma exofork_pre:
  assumes k: "kinv s (p # fl) (e # el)" and c: "curenv s = Some c" "c \<in> live s" and x: "uspace s c xkey \<noteq> None"
    and sh: "\<forall>k pte. uspace s c k = Some pte \<longrightarrow> pte AND PTE_SHARE \<noteq> 0 \<longrightarrow> pte AND PTE_W \<noteq> 0"
    and refs: "\<forall>q\<in>ran (frames (phys s) (dirs s)). 2 * unat (pp_ref (pages s q)) < 65535"
  shows "\<exists>s' v. sys_exofork s = Return (Inr (env_id v)) s' \<and> fork_pre s' c e (env_id v) el
    \<and> envs s' = (envs s)(e := v) \<and> env_tf v = (env_tf (envs s c))\<lparr>tf_regs := (tf_regs (env_tf (envs s c)))\<lparr>reg_eax := 0\<rparr>\<rparr>
    \<and> env_parent_id v = env_id (envs s c) \<and> 0 < sint (env_id v) \<and> live s' = insert e (live s) \<and> e \<notin> live s
    \<and> pmap s' = pmap s \<and> (\<forall>y\<in>live s. uspace s' y = uspace s y)
    \<and> (\<forall>q\<in>ran (frames (phys s) (dirs s)). phys s' q = phys s q)"
proof -
  obtain s1 where s1: "env_alloc (env_id (envs s c)) s = Some (Inr e, s1)" "kinv s1 fl el"
    "envs s1 = (envs s)(e := fresh_env e (env_id (envs s c)) p (envs s e))"
    "uspace s1 e = Map.empty" "live s1 = insert e (live s)" "e \<notin> live s"
    "\<forall>x\<in>live s. uspace s1 x = uspace s x \<and> env_dir s1 x = env_dir s x"
    "phys s1 = (phys s)(p := (phys s (kdir s))(957 := frame_addr p OR PTE_P OR PTE_U))"
    "cpus s1 = cpus s" "this_cpu s1 = this_cpu s" "pmap s1 = pmap s"
    using env_alloc_spec [OF k, of "env_id (envs s c)"] by blast
  have ce: "c \<noteq> e" using c(2) s1(6) by blast
  let ?tf = "(env_tf (envs s c))\<lparr>tf_regs := (tf_regs (env_tf (envs s c)))\<lparr>reg_eax := 0\<rparr>\<rparr>"
  let ?v = "(fresh_env e (env_id (envs s c)) p (envs s e))\<lparr>env_tf := ?tf, env_status := ENV_NOT_RUNNABLE\<rparr>"
  let ?s' = "set_env e (\<lambda>v. v\<lparr>env_tf := ?tf, env_status := ENV_NOT_RUNNABLE\<rparr>) s1"
  have ss: "same_spaces s1 ?s'" using s1(5) by (intro same_spaces_set_env) (auto simp: live_def)
  have es: "envs ?s' = (envs s)(e := ?v)" using s1(3) by simp
  have run: "sys_exofork s = Return (Inr (env_id ?v)) ?s'"
    using s1(1,3) c(1) ce by (simp add: sys_exofork_def with_cur_def of_result_def Let_def)
  note S = same_spacesD [OF ss]
  have eN: "e < NENV" using kinvD(4) [OF k] by auto
  have id: "env_id ?v \<noteq> 0" "ENVX (env_id ?v) = e" "0 < sint (env_id ?v)"
    using next_env_id_props(1,2) [OF eN, of "env_id (envs s e)"] by (auto simp: fresh_env_def)
  have cur: "curenv ?s' = Some c" using c(1) s1(9,10) by (simp add: curenv_def)
  have pid: "env_parent_id ?v = env_id (envs s c)" by (simp add: fresh_env_def)
  have e2e: "envid2env (env_id ?v) True ?s' = Some (Inr (Some e))"
    using id ce pid unfolding envid2env_def Let_def es cur by simp
  have l: "live ?s' = insert e (live s)" using s1(5) S by simp
  have pm: "pmap ?s' = pmap s" using s1(11) S by simp
  have fr: "frames (phys ?s') (dirs ?s') = frames (phys s) (dirs s)" unfolding frames_map pm ..
  have us: "uspace ?s' y = uspace s y" if "y \<in> live s" for y using s1(7) S that by simp
  have "\<exists>fl. kinv ?s' fl el" using s1(2) S by blast
  moreover have "2 * occurrences (frames (phys s) (dirs s)) q < 65535" if "q \<in> ran (frames (phys s) (dirs s))" for q
    using vm_inv_mapped(5) [OF kinvD(1) [OF k] that] refs that by force
  ultimately have "fork_pre ?s' c e (env_id ?v) el"
    unfolding fork_pre_def fr l us [OF c(2)] using cur c(2) ce e2e x sh s1(4) S by simp
  moreover have "phys ?s' q = phys s q" if "q \<in> ran (frames (phys s) (dirs s))" for q
    using vm_inv_mapped(2) [OF kinvD(1) [OF k] that] s1(8) by auto
  ultimately show ?thesis
    using run es pid id(3) l s1(6) pm us by (intro exI [of _ ?s'] exI [of _ ?v]) simp
qed

text \<open>The address spaces and the child that a successful \<open>fork\<close> leaves behind.\<close>

definition forked_ok :: "nat \<Rightarrow> nat list \<Rightarrow> kern \<Rightarrow> u32 \<Rightarrow> kern \<Rightarrow> bool" where
  "forked_ok c el s envid s' \<longleftrightarrow> (\<exists>e el' fl' q. el = e # el' \<and> e \<notin> live s \<and> live s' = insert e (live s) \<and> kinv s' fl' el'
     \<and> uspace s' e = child_space s c q \<and> phys s' q = (\<lambda>_. 0) \<and> q \<notin> ran (frames (phys s) (dirs s))
     \<and> uspace s' c = parent_space s c \<and> (\<forall>x\<in>live s - {c}. uspace s' x = uspace s x)
     \<and> (\<forall>p\<in>ran (frames (phys s) (dirs s)). phys s' p = phys s p)
     \<and> envid = env_id (envs s' e) \<and> 0 < sint envid \<and> env_status (envs s' e) = ENV_RUNNABLE
     \<and> env_parent_id (envs s' e) = env_id (envs s c)
     \<and> env_pgfault_upcall (envs s' e) = env_pgfault_upcall (envs s c)
     \<and> env_tf (envs s' e) = (env_tf (envs s c))\<lparr>tf_regs := (tf_regs (env_tf (envs s c)))\<lparr>reg_eax := 0\<rparr>\<rparr>)"

lemma exofork_fails:
  assumes k: "kinv s fl el" and c: "curenv s = Some c" and full: "fl = [] \<or> el = []"
  shows "\<exists>err. sys_exofork s = Return (Inl err) s"
proof (cases el)
  case Nil
  then have "env_free_list s = None" using kinvD(3) [OF k] by simp
  with c show ?thesis by (simp add: sys_exofork_def with_cur_def env_alloc_full of_result_def)
next
  case (Cons e el1)
  with full k c show ?thesis by (simp add: sys_exofork_def with_cur_def env_alloc_no_mem of_result_def)
qed

lemma must_set_env:
  assumes "envid2env envid True s = Some (Inr (Some e))"
  shows "must (sys_env_set_pgfault_upcall envid func s) = Done 0 (set_env e (\<lambda>v. v\<lparr>env_pgfault_upcall := func\<rparr>) s)"
    and "must (sys_env_set_status envid 2 s) = Done 0 (set_env e (\<lambda>v. v\<lparr>env_status := ENV_RUNNABLE\<rparr>) s)"
  using assms by (simp_all add: sys_env_set_pgfault_upcall_def sys_env_set_status_def with_env_def)

lemma envid2env_upcall:
  "envid2env x chk (set_env e (\<lambda>v. v\<lparr>env_pgfault_upcall := f\<rparr>) s) = envid2env x chk s"
proof -
  let ?s = "set_env e (\<lambda>v. v\<lparr>env_pgfault_upcall := f\<rparr>) s"
  have "env_id (envs ?s y) = env_id (envs s y)" "env_parent_id (envs ?s y) = env_parent_id (envs s y)"
    "env_status (envs ?s y) = env_status (envs s y)" for y by simp_all
  then show ?thesis unfolding envid2env_def by (simp only: set_env_frame)
qed

lemma fork_ends:
  assumes k: "kinv s fl el" and c: "curenv s = Some c" "c \<in> live s" and x: "uspace s c xkey \<noteq> None"
    and sh: "\<forall>k pte. uspace s c k = Some pte \<longrightarrow> pte AND PTE_SHARE \<noteq> 0 \<longrightarrow> pte AND PTE_W \<noteq> 0"
    and refs: "\<forall>q\<in>ran (frames (phys s) (dirs s)). 2 * unat (pp_ref (pages s q)) < 65535"
  shows "case fork c True upcall s of Done envid s' \<Rightarrow> forked_ok c el s envid s'
    | Upanic s' \<Rightarrow> (\<exists>fl' el'. kinv s' fl' el' \<and> (el = [] \<or> length fl' \<le> 1)) | Gone \<Rightarrow> False"
proof (cases "fl = [] \<or> el = []")
  case True
  then obtain err where "sys_exofork s = Return (Inl err) s" using exofork_fails [OF k c(1)] by blast
  then have "fork c True upcall s = Upanic s" by (simp add: fork_def set_pgfault_handler_def)
  then show ?thesis using k True by auto
next
  case False
  then obtain p fl1 e el1 where fe: "fl = p # fl1" "el = e # el1" by (meson list.exhaust)
  obtain s1 v where s1: "sys_exofork s = Return (Inr (env_id v)) s1" "fork_pre s1 c e (env_id v) el1"
    "envs s1 = (envs s)(e := v)" "env_tf v = (env_tf (envs s c))\<lparr>tf_regs := (tf_regs (env_tf (envs s c)))\<lparr>reg_eax := 0\<rparr>\<rparr>"
    "env_parent_id v = env_id (envs s c)" "0 < sint (env_id v)" "live s1 = insert e (live s)" "e \<notin> live s"
    "pmap s1 = pmap s" "\<forall>y\<in>live s. uspace s1 y = uspace s y"
    "\<forall>q\<in>ran (frames (phys s) (dirs s)). phys s1 q = phys s q"
    using exofork_pre [OF k [unfolded fe] c x sh refs] by blast
  have ce: "c \<noteq> e" using c(2) s1(8) by blast
  have fr: "frames (phys s1) (dirs s1) = frames (phys s) (dirs s)" unfolding frames_map s1(9) ..
  have sp: "child_space s1 c q = child_space s c q" "parent_space s1 c = parent_space s c" for q
    using bspec [OF s1(10) c(2)] by (intro ext, simp add: child_space_def parent_space_def)+
  show ?thesis
  proof (cases "fork_dir c (env_id v) [0..<NPDU] s1")
    case (Done u s3)
    have "space_copied c e el1 s1 s3" using fork_dir_copies [OF s1(2)] Done by simp
    then obtain fl3 q where s3: "kinv s3 fl3 el1" "pm_frame s1 s3" "uspace s3 e = child_space s c q"
      "phys s3 q = (\<lambda>_. 0)" "q \<notin> ran (frames (phys s) (dirs s))" "uspace s3 c = parent_space s c"
      "\<forall>y\<in>live s1 - {c, e}. uspace s3 y = uspace s1 y"
      "\<forall>p\<in>ran (frames (phys s) (dirs s)). phys s3 p = phys s1 p"
      unfolding space_copied_def fr sp by blast
    let ?up = "env_pgfault_upcall (envs s3 c)"
    let ?s4 = "set_env e (\<lambda>v. v\<lparr>env_pgfault_upcall := ?up\<rparr>) s3"
    let ?s5 = "set_env e (\<lambda>v. v\<lparr>env_status := ENV_RUNNABLE\<rparr>) ?s4"
    have es: "envs s3 = (envs s)(e := v)" using pm_frameD(2) [OF s3(2)] s1(3) by simp
    have l3: "live s3 = insert e (live s)" using pm_frame_dirs(2) [OF s3(2)] s1(7) by simp
    have "e \<in> live s3" using l3 by simp
    then have nf: "env_status (envs s3 e) \<noteq> ENV_FREE" by (simp add: live_def)
    have ss: "same_spaces s3 ?s4" by (rule same_spaces_set_env) simp_all
    have ss': "same_spaces ?s4 ?s5" using nf by (intro same_spaces_set_env) simp_all
    note S = same_spacesD [OF ss] same_spacesD [OF ss']
    have e3: "envid2env (env_id v) True s3 = Some (Inr (Some e))"
      using fork_preD(5) [OF s1(2)] pm_frame_envid [OF s3(2)] by simp
    then have e4: "envid2env (env_id v) True ?s4 = Some (Inr (Some e))" by (simp add: envid2env_upcall)
    have "fork c True upcall s = Done (env_id v) ?s5"
      by (simp add: fork_def set_pgfault_handler_def s1(1) Done must_set_env(1) [OF e3] must_set_env(2) [OF e4])
    moreover have "\<forall>y\<in>live s - {c}. uspace s3 y = uspace s y" using s3(7) s1(7,8,10) by auto
    moreover have "\<forall>p\<in>ran (frames (phys s) (dirs s)). phys s3 p = phys s p" using s3(8) s1(11) by simp
    ultimately show ?thesis
      unfolding forked_ok_def fe using S s3(1,3-6) s1(4,5,6,8) l3 es ce
      by (simp del: ex_simps) (intro exI [of _ fl3] exI [of _ q], simp)
  next
    case (Upanic s3)
    then have "fork c True upcall s = Upanic s3" by (simp add: fork_def set_pgfault_handler_def s1(1))
    moreover have "\<exists>fl. kinv s3 fl el1 \<and> length fl \<le> 1" using fork_dir_copies [OF s1(2)] Upanic by simp
    ultimately show ?thesis by auto
  next
    case Gone
    then show ?thesis using fork_dir_copies [OF s1(2)] by simp
  qed
qed

section \<open>What the copies are\<close>

text \<open>The page table entries that a page of the parent, mapped with \<open>pte\<close>, gets in the child and in the parent. Of the
  flags the bits 0, 1, 2 and 9 to 11 are kept (\<open>PTE_SYSCALL\<close>). A shared page stays as it is; a page that is writable or
  copy-on-write becomes copy-on-write (\<open>0x800\<close>) and not writable in both; a read-only page stays so.\<close>

definition forked_pair :: "u32 \<Rightarrow> u32 \<times> u32" where
  "forked_pair pte =
     (if bit pte 10 then (pte AND 0xFFFFFE07, if bit pte 11 then pte AND 0xFFFFFE07 else pte)
      else if bit pte 1 \<or> bit pte 11 then ((pte AND 0xFFFFFE05) OR 0x800, (pte AND 0xFFFFFE05) OR 0x800)
      else (pte AND 0xFFFFFE05, pte))"

lemma flag_bits:
  "pte AND PTE_W = 0 \<longleftrightarrow> \<not> bit pte 1" "pte AND PTE_SHARE = 0 \<longleftrightarrow> \<not> bit pte 10" "pte AND PTE_COW = 0 \<longleftrightarrow> \<not> bit pte 11"
  "pte AND PTE_P = 0 \<longleftrightarrow> \<not> bit pte 0"
  using and_exp_eq_0_iff_not_bit [of pte 1] and_exp_eq_0_iff_not_bit [of pte 10] and_exp_eq_0_iff_not_bit [of pte 11]
    and_exp_eq_0_iff_not_bit [of pte 0] by (simp_all add: PTE_W_def PTE_SHARE_def PTE_COW_def PTE_P_def)

lemma below_32: "n < 32 \<Longrightarrow> n \<in> {0, 1, 2, 3, 4, 5, 6, 7, 8, 9, 10, 11, 12, 13, 14, 15, 16, 17, 18, 19, 20, 21, 22, 23, 24, 25, 26, 27, 28, 29, 30, 31 :: nat}"
  by simp arith

lemma mask_bits:
  assumes "n < 32"
  shows "bit PTE_SYSCALL n \<longleftrightarrow> n < 3 \<or> n = 9 \<or> n = 10 \<or> n = 11" and "bit (0xFFFFFE07 :: u32) n \<longleftrightarrow> n < 3 \<or> 9 \<le> n"
    and "bit (0xFFFFFE05 :: u32) n \<longleftrightarrow> n = 0 \<or> n = 2 \<or> 9 \<le> n"
  unfolding layout_values(13) using below_32 [OF assms] by (elim insertE emptyE; simp)+

lemma flag_values:
  "bit PTE_W n \<longleftrightarrow> n = 1" "bit PTE_COW n \<longleftrightarrow> n = 11" "bit PTE_P n \<longleftrightarrow> n = 0" "bit (0x800 :: u32) n \<longleftrightarrow> n = 11"
  using bit_exp_iff [of 1 n, where 'a = u32] bit_exp_iff [of 11 n, where 'a = u32] bit_exp_iff [of 0 n, where 'a = u32]
  by (auto simp: PTE_W_def PTE_COW_def PTE_P_def)

lemma bit_frame: "bit (frame_addr (unat (PGNUM pte))) n \<longleftrightarrow> 12 \<le> n \<and> bit pte n" if "n < 32"
  using that by (auto simp: frame_addr_def PGNUM_def bit_simps)

lemma copied_pair:
  assumes "pte AND PTE_P \<noteq> 0" and "pte AND PTE_SHARE \<noteq> 0 \<Longrightarrow> pte AND PTE_W \<noteq> 0"
  shows "(copied_pte pte, cow_pte pte) = forked_pair pte"
proof -
  have b: "bit pte 0" "bit pte 10 \<Longrightarrow> bit pte 1" using assms by (simp_all add: flag_bits)
  have d: "bit (dup_perm pte) n \<longleftrightarrow> (if n = 1 then bit pte 10 else if n = 11 then bit pte 11 \<or> \<not> bit pte 10 \<and> bit pte 1
      else (n = 0 \<or> n = 2 \<or> n = 9 \<or> n = 10) \<and> bit pte n)" if "n < 32" for n
    using that by (auto simp: dup_perm_def Let_def flag_bits flag_values mask_bits bit_and_iff bit_or_iff bit_not_iff)
  have c: "copied_pte pte = fst (forked_pair pte)"
  proof (rule bit_word_eqI)
    fix n assume "n < LENGTH(32)"
    then have n: "n < 32" by simp
    consider "n = 0" | "n = 1" | "n = 2" | "n = 9" | "n = 10" | "n = 11" | "3 \<le> n \<and> n < 9" | "12 \<le> n" by linarith
    then show "bit (copied_pte pte) n = bit (fst (forked_pair pte)) n"
      unfolding copied_pte_def
      by cases (use b n in \<open>auto simp: bit_or_iff bit_and_iff bit_frame d flag_values mask_bits forked_pair_def simp del: bit_numeral_word_iff\<close>)
  qed
  have "dup_perm pte AND PTE_COW \<noteq> 0 \<longleftrightarrow> bit pte 11 \<or> \<not> bit pte 10 \<and> bit pte 1" using d [of 11] by (simp add: flag_bits)
  then show ?thesis using c by (auto simp: cow_pte_def forked_pair_def)
qed

section \<open>With and without an installed handler\<close>

text \<open>What a successful \<open>fork\<close> leaves behind, seen from the state \<open>s\<close> in which it was called; \<open>q\<close> and \<open>r\<close> are the frames
  of the exception stacks of the child and of the parent.\<close>

definition fork_result :: "nat \<Rightarrow> bool \<Rightarrow> u32 \<Rightarrow> nat list \<Rightarrow> kern \<Rightarrow> u32 \<Rightarrow> kern \<Rightarrow> bool" where
  "fork_result c installed upcall el s envid s' \<longleftrightarrow>
     (\<exists>e el' fl' q. el = e # el' \<and> e \<notin> live s \<and> live s' = insert e (live s) \<and> kinv s' fl' el'
       \<and> (\<forall>k. k \<noteq> xkey \<longrightarrow> uspace s' e k = map_option (\<lambda>pte. fst (forked_pair pte)) (uspace s c k)
                        \<and> uspace s' c k = map_option (\<lambda>pte. snd (forked_pair pte)) (uspace s c k))
       \<and> uspace s' e xkey = Some (frame_addr q OR 7) \<and> phys s' q = (\<lambda>_. 0) \<and> q \<notin> ran (frames (phys s) (dirs s))
       \<and> (if installed then uspace s' c xkey = uspace s c xkey
          else \<exists>r. uspace s' c xkey = Some (frame_addr r OR 7) \<and> r \<notin> ran (frames (phys s) (dirs s)) \<and> r \<noteq> q)
       \<and> (\<forall>x\<in>live s - {c}. uspace s' x = uspace s x) \<and> (\<forall>p\<in>ran (frames (phys s) (dirs s)). phys s' p = phys s p)
       \<and> envid = env_id (envs s' e) \<and> 0 < sint envid \<and> env_status (envs s' e) = ENV_RUNNABLE
       \<and> env_parent_id (envs s' e) = env_id (envs s c)
       \<and> env_pgfault_upcall (envs s' e) = (if installed then env_pgfault_upcall (envs s c) else upcall)
       \<and> env_tf (envs s' e) = (env_tf (envs s c))\<lparr>tf_regs := (tf_regs (env_tf (envs s c)))\<lparr>reg_eax := 0\<rparr>\<rparr>)"

lemma seven: "(PTE_P OR PTE_U OR PTE_W) OR PTE_P = 7" "(PTE_P OR PTE_W OR PTE_U) OR PTE_P = 7"
  by (simp_all add: PTE_P_def PTE_U_def PTE_W_def)

lemma space_entries:
  assumes k: "kinv s fl el" and c: "c \<in> live s"
    and sh: "\<forall>k pte. uspace s c k = Some pte \<longrightarrow> pte AND PTE_SHARE \<noteq> 0 \<longrightarrow> pte AND PTE_W \<noteq> 0" and ne: "k \<noteq> xkey"
  shows "child_space s c q k = map_option (\<lambda>pte. fst (forked_pair pte)) (uspace s c k)"
    and "parent_space s c k = map_option (\<lambda>pte. snd (forked_pair pte)) (uspace s c k)"
proof -
  have E: "(copied_pte pte, cow_pte pte) = forked_pair pte" if "uspace s c k = Some pte" for pte
  proof (rule copied_pair)
    obtain i j where ij: "k = (i, j)" by (cases k)
    show "pte AND PTE_P \<noteq> 0" using that by (auto simp: ij uspace_def umap_apply split: if_splits)
  qed (use sh that in blast)
  show "child_space s c q k = map_option (\<lambda>pte. fst (forked_pair pte)) (uspace s c k)"
    using ne E [symmetric] by (cases "uspace s c k") (simp_all add: child_space_def)
  show "parent_space s c k = map_option (\<lambda>pte. snd (forked_pair pte)) (uspace s c k)"
    using ne E [symmetric] by (cases "uspace s c k") (simp_all add: parent_space_def)
qed

lemma forked_ok_result:
  assumes "kinv s fl el" and "c \<in> live s"
    and "\<forall>k pte. uspace s c k = Some pte \<longrightarrow> pte AND PTE_SHARE \<noteq> 0 \<longrightarrow> pte AND PTE_W \<noteq> 0"
    and "forked_ok c el s envid s'"
  shows "fork_result c True upcall el s envid s'"
proof -
  note E = space_entries [OF assms(1-3)]
  have x: "child_space s c q xkey = Some (frame_addr q OR 7)" "parent_space s c xkey = uspace s c xkey" for q
    by (simp_all add: child_space_def parent_space_def seven)
  show ?thesis using assms(4) E x unfolding forked_ok_def fork_result_def by (elim exE conjE) (auto intro!: exI)
qed

text \<open>The page of the exception stack.\<close>

lemma xstack_page: "UXSTACKTOP - PGSIZE < UTOP" "PGOFF (UXSTACKTOP - PGSIZE) = 0" "upage (UXSTACKTOP - PGSIZE) = xkey"
  by (simp_all add: layout_values PGSIZE_def PGOFF_def upage_def xkey_def PDX_def PTX_def drop_bit_eq_div take_bit_eq_mod)

lemma own_id:
  assumes "kinv s fl el" and "curenv s = Some c" and "c \<in> live s"
  shows "envid2env (env_id (envs s c)) True s = Some (Inr (Some c))"
proof (cases "env_id (envs s c) = 0")
  case True
  then show ?thesis using assms(2) by (simp add: envid2env_def)
next
  case False
  then show ?thesis using envid2env_found [OF assms(1) False assms(2)] assms(3) by blast
qed

text \<open>Installing the handler adds the exception stack to the parent and sets its upcall; then \<open>fork\<close> goes on as with an
  installed handler.\<close>

definition with_handler :: "nat \<Rightarrow> u32 \<Rightarrow> nat list \<Rightarrow> kern \<Rightarrow> kern \<Rightarrow> bool" where
  "with_handler c upcall el s s2 \<longleftrightarrow> (\<exists>fl r. kinv s2 fl el \<and> curenv s2 = Some c \<and> live s2 = live s
     \<and> envs s2 = (envs s)(c := (envs s c)\<lparr>env_pgfault_upcall := upcall\<rparr>)
     \<and> uspace s2 c = (uspace s c)(xkey \<mapsto> frame_addr r OR 7) \<and> (\<forall>x\<in>live s - {c}. uspace s2 x = uspace s x)
     \<and> frames (phys s2) (dirs s2) = (frames (phys s) (dirs s))((env_dir s c, xkey) \<mapsto> r) \<and> r \<notin> ran (frames (phys s) (dirs s))
     \<and> (\<forall>p\<in>ran (frames (phys s) (dirs s)). phys s2 p = phys s p))"

lemma install_handler:
  assumes k: "kinv s fl el" and c: "curenv s = Some c" "c \<in> live s"
  shows "(\<exists>s2. with_handler c upcall el s s2 \<and> fork c False upcall s = fork c True upcall s2)
    \<or> (\<exists>s2 fl2. fork c False upcall s = Upanic s2 \<and> kinv s2 fl2 el \<and> length fl2 \<le> 1)"
proof -
  let ?id = "env_id (envs s c)" and ?x = "UXSTACKTOP - PGSIZE" and ?perm = "PTE_P OR PTE_W OR PTE_U"
  let ?alloc = "must (sys_page_alloc ?id ?x ?perm s)"
  have pr: "progress el (\<lambda>s'. \<exists>p fl'. kinv s' fl' el \<and> p < 1048576 \<and> p \<notin> ran (frames (phys s) (dirs s)) \<and> pm_frame s s'
      \<and> phys s' p = (\<lambda>_. 0) \<and> pmap s' = (pmap s)(ukey (env_dir s c) ?x \<mapsto> frame_addr p OR ?perm OR PTE_P)
      \<and> (\<forall>q\<in>ran (frames (phys s) (dirs s)). phys s' q = phys s q)) ?alloc"
    by (rule must_page_alloc [OF k own_id [OF k c] c(2) xstack_page(1,2)]) (simp add: PTE_P_def PTE_U_def PTE_W_def layout_values(13))
  show ?thesis
  proof (cases ?alloc)
    case (Done u s1)
    then obtain p fl1 where s1: "kinv s1 fl1 el" "p < 1048576" "p \<notin> ran (frames (phys s) (dirs s))" "pm_frame s s1"
      "pmap s1 = (pmap s)(ukey (env_dir s c) ?x \<mapsto> frame_addr p OR ?perm OR PTE_P)"
      "\<forall>q\<in>ran (frames (phys s) (dirs s)). phys s1 q = phys s q"
      using pr by auto
    have m: "pmap s1 = (pmap s)((env_dir s c, xkey) \<mapsto> frame_addr p OR 7)"
      using s1(5) by (simp add: ukey_upage xstack_page(3) seven)
    note U = uspace_pmap_upd [OF k c(2) s1(4) m]
    let ?s2 = "set_env c (\<lambda>v. v\<lparr>env_pgfault_upcall := upcall\<rparr>) s1"
    have ss: "same_spaces s1 ?s2" by (rule same_spaces_set_env) simp_all
    note S = same_spacesD [OF ss]
    have id: "envid2env ?id True s1 = Some (Inr (Some c))" using own_id [OF k c] pm_frame_envid [OF s1(4)] by simp
    have "fork c False upcall s = fork c True upcall ?s2"
      using Done id by (simp add: fork_def set_pgfault_handler_def Let_def usys_def sys_env_set_pgfault_upcall_def with_env_def)
    moreover have "with_handler c upcall el s ?s2"
      unfolding with_handler_def
    proof (intro exI conjI)
      show "kinv ?s2 fl1 el" using s1(1) S by simp
      show "curenv ?s2 = Some c" using c(1) pm_frameD(7) [OF s1(4)] by simp
      show "live ?s2 = live s" using S pm_frame_dirs(2) [OF s1(4)] by simp
      show "envs ?s2 = (envs s)(c := (envs s c)\<lparr>env_pgfault_upcall := upcall\<rparr>)" using pm_frameD(2) [OF s1(4)] by simp
      show "uspace ?s2 c = (uspace s c)(xkey \<mapsto> frame_addr p OR 7)" using U(1) S by simp
      show "\<forall>x\<in>live s - {c}. uspace ?s2 x = uspace s x" using U(2) S by simp
      have "frames (phys s1) (dirs s1) = (frames (phys s) (dirs s))((env_dir s c, xkey) \<mapsto> p)"
        unfolding frames_map m fun_upd_def using s1(2) by (auto simp: fun_eq_iff)
      then show "frames (phys ?s2) (dirs ?s2) = (frames (phys s) (dirs s))((env_dir s c, xkey) \<mapsto> p)" using S by simp
    qed (use s1(3,6) S in simp_all)
    ultimately show ?thesis by blast
  next
    case (Upanic s1)
    then show ?thesis using pr by (auto simp: fork_def set_pgfault_handler_def Let_def)
  next
    case Gone
    then show ?thesis using pr by simp
  qed
qed

lemma fork_without_handler:
  assumes k: "kinv s fl el" and c: "curenv s = Some c" "c \<in> live s" and x: "uspace s c xkey = None"
    and sh: "\<forall>k pte. uspace s c k = Some pte \<longrightarrow> pte AND PTE_SHARE \<noteq> 0 \<longrightarrow> pte AND PTE_W \<noteq> 0"
    and refs: "\<forall>q\<in>ran (frames (phys s) (dirs s)). 2 * unat (pp_ref (pages s q)) < 65535" and wh: "with_handler c upcall el s s2"
  shows "case fork c True upcall s2 of Done envid s' \<Rightarrow> fork_result c False upcall el s envid s'
    | Upanic s' \<Rightarrow> (\<exists>fl' el'. kinv s' fl' el' \<and> (el = [] \<or> length fl' \<le> 1)) | Gone \<Rightarrow> False"
proof -
  obtain fl2 r where W: "kinv s2 fl2 el" "curenv s2 = Some c" "live s2 = live s"
    "envs s2 = (envs s)(c := (envs s c)\<lparr>env_pgfault_upcall := upcall\<rparr>)"
    "uspace s2 c = (uspace s c)(xkey \<mapsto> frame_addr r OR 7)" "\<forall>x\<in>live s - {c}. uspace s2 x = uspace s x"
    "frames (phys s2) (dirs s2) = (frames (phys s) (dirs s))((env_dir s c, xkey) \<mapsto> r)" "r \<notin> ran (frames (phys s) (dirs s))"
    "\<forall>p\<in>ran (frames (phys s) (dirs s)). phys s2 p = phys s p"
    using wh unfolding with_handler_def by blast
  have free: "frames (phys s) (dirs s) (env_dir s c, xkey) = None" using x by (simp add: frames_map uspace_pmap)
  have ran: "ran (frames (phys s2) (dirs s2)) = insert r (ran (frames (phys s) (dirs s)))"
    unfolding W(7) using free by (simp add: ran_map_upd)
  have c2: "c \<in> live s2" using c(2) W(3) by simp
  have "(frame_addr r OR 7) AND PTE_W \<noteq> 0" unfolding flag_bits by (simp add: bit_simps)
  then have sh2: "\<forall>k pte. uspace s2 c k = Some pte \<longrightarrow> pte AND PTE_SHARE \<noteq> 0 \<longrightarrow> pte AND PTE_W \<noteq> 0"
    using sh unfolding W(5) by auto
  have occ: "occurrences (frames (phys s2) (dirs s2)) q = (if q = r then 1 else occurrences (frames (phys s) (dirs s)) q)" for q
  proof -
    have "{y. frames (phys s2) (dirs s2) y = Some q} = (if q = r then {(env_dir s c, xkey)} else {y. frames (phys s) (dirs s) y = Some q})"
      unfolding W(7) using free W(8) by (auto simp: ran_def)
    then show ?thesis by (simp add: occurrences_def)
  qed
  have refs2: "2 * unat (pp_ref (pages s2 q)) < 65535" if "q \<in> ran (frames (phys s2) (dirs s2))" for q
    using vm_inv_mapped(5) [OF kinvD(1) [OF W(1)] that] occ [of q] vm_inv_mapped(5) [OF kinvD(1) [OF k]] refs that ran by auto
  have x2: "uspace s2 c xkey \<noteq> None" using W(5) by simp
  have F: "case fork c True upcall s2 of Done envid s' \<Rightarrow> forked_ok c el s2 envid s'
    | Upanic s' \<Rightarrow> (\<exists>fl' el'. kinv s' fl' el' \<and> (el = [] \<or> length fl' \<le> 1)) | Gone \<Rightarrow> False"
    by (rule fork_ends [OF W(1,2) c2 x2 sh2]) (use refs2 in blast)
  have "fork_result c False upcall el s envid s'" if "forked_ok c el s2 envid s'" for envid s'
  proof -
    note R = forked_ok_result [OF W(1) c2 sh2 that, of upcall, unfolded fork_result_def]
    show ?thesis
      using R W(3,4,5,6,8,9) unfolding fork_result_def ran by (elim exE conjE) (auto intro!: exI)
  qed
  then show ?thesis using F by (auto split: uresult.splits)
qed

section \<open>Properties\<close>



end
