(* ===== verification/Spawn.thy ===== *)
theory Spawn
  imports Cmd_Line Fork
begin

text \<open>
  Starting a program (\<open>lib/spawn.c\<close>). The system and library calls are logged and their results are the parameter
  \<open>answer\<close>; the memory of the parent is that of \<open>Strings\<close>, and what \<open>readn\<close> stores at \<open>UTEMP\<close>, where the
  code does not look again, is left out. A panic or a failed assertion is \<open>None\<close>. The array \<open>argv\<close> is the list of its
  pointers up to the null.
\<close>

section \<open>Operations\<close>

datatype Sp_Call =
    Sp_Open u32 | Sp_Readn int u32 u32 | Sp_Seek int u32 | Sp_Close int | Exofork
  | Page_Alloc int u32 u32 | Page_Map int u32 int u32 u32 | Page_Unmap int u32
  | Set_Trapframe int Trapframe | Set_Status int | Destroy int

record Sp =
  sp_mem :: mem
  sp_calls :: "Sp_Call list"

definition sp_ask :: "(nat \<Rightarrow> int) \<Rightarrow> Sp_Call \<Rightarrow> Sp \<Rightarrow> int \<times> Sp" where
  "sp_ask answer c s = (answer (length (sp_calls s)), s\<lparr>sp_calls := sp_calls s @ [c]\<rparr>)"

definition UTEMP2USTACK :: "u32 \<Rightarrow> u32" where
  "UTEMP2USTACK addr = addr + (USTACKTOP - PGSIZE) - UTEMP"

definition put_word :: "u32 \<Rightarrow> u32 \<Rightarrow> mem \<Rightarrow> mem" where
  "put_word a v m = mem_put a (map (\<lambda>k. get_byte k v) [0, 1, 2, 3]) m"

text \<open>The space needed for the strings.\<close>

primrec string_size :: "mem \<Rightarrow> u32 list \<Rightarrow> u32 option" where
  "string_size m [] = Some 0"
| "string_size m (p # ps) = do { n \<leftarrow> strlen m p; k \<leftarrow> string_size m ps; Some (n + 1 + k) }"

text \<open>The loop that fills \<open>argv_store\<close> and the strings; the first result is \<open>string_store\<close> at its end.\<close>

primrec place_args :: "u32 list \<Rightarrow> u32 \<Rightarrow> u32 \<Rightarrow> mem \<Rightarrow> (u32 \<times> mem) option" where
  "place_args [] argv_store string_store m = Some (string_store, m)"
| "place_args (p # ps) argv_store string_store m =
     do { (m, _) \<leftarrow> strcpy (put_word argv_store (UTEMP2USTACK string_store) m) string_store p;
          n \<leftarrow> strlen m p;
          place_args ps (argv_store + 4) (string_store + n + 1) m }"

text \<open>The page that \<open>sys_page_alloc\<close> has put at \<open>UTEMP\<close>.\<close>

definition fresh_page :: "mem \<Rightarrow> mem" where
  "fresh_page m = (\<lambda>a. if UTEMP \<le> a \<and> a < UTEMP + PGSIZE then 0 else m a)"

definition init_stack :: "(nat \<Rightarrow> int) \<Rightarrow> int \<Rightarrow> u32 list \<Rightarrow> Sp \<Rightarrow> (int \<times> u32 \<times> Sp) option" where
  "init_stack answer child args s =
     do { sz \<leftarrow> string_size (sp_mem s) args;
          let string_store = UTEMP + PGSIZE - sz;
          let argv_store = ROUNDDOWN string_store 4 - 4 * (of_nat (length args) + 1);
          if argv_store - 8 < UTEMP then Some (- error_code E_NO_MEM, 0, s)
          else
            let (r, s) = sp_ask answer (Page_Alloc 0 UTEMP (PTE_P OR PTE_U OR PTE_W)) s in
            if r < 0 then Some (r, 0, s)
            else do { (string_store, m) \<leftarrow> place_args args argv_store string_store (fresh_page (sp_mem s));
                      let m = put_word (argv_store + 4 * of_nat (length args)) 0 m;
                      if string_store \<noteq> UTEMP + PGSIZE then None
                      else
                        let m = put_word (argv_store - 4) (UTEMP2USTACK argv_store) m;
                            m = put_word (argv_store - 8) (of_nat (length args)) m;
                            esp = UTEMP2USTACK (argv_store - 8);
                            (r, s) = sp_ask answer (Page_Map 0 UTEMP child (USTACKTOP - PGSIZE) (PTE_P OR PTE_U OR PTE_W)) (s\<lparr>sp_mem := m\<rparr>)
                        in if r < 0 then Some (r, esp, snd (sp_ask answer (Page_Unmap 0 UTEMP) s))
                           else let (r, s) = sp_ask answer (Page_Unmap 0 UTEMP) s
                                in if r < 0 then Some (r, esp, snd (sp_ask answer (Page_Unmap 0 UTEMP) s)) else Some (0, esp, s) } }"

partial_function (option) segment_loop :: "(nat \<Rightarrow> int) \<Rightarrow> int \<Rightarrow> u32 \<Rightarrow> u32 \<Rightarrow> int \<Rightarrow> u32 \<Rightarrow> u32 \<Rightarrow> u32 \<Rightarrow> u32 \<Rightarrow> Sp \<Rightarrow> (int \<times> Sp) option" where
  "segment_loop answer child va memsz fd filesz fileoffset perm i s =
     (if i < memsz then
        if i \<ge> filesz then
          let (r, s) = sp_ask answer (Page_Alloc child (va + i) perm) s
          in if r < 0 then Some (r, s) else segment_loop answer child va memsz fd filesz fileoffset perm (i + PGSIZE) s
        else
          let (r, s) = sp_ask answer (Page_Alloc 0 UTEMP (PTE_P OR PTE_U OR PTE_W)) s in
          if r < 0 then Some (r, s)
          else let (r, s) = sp_ask answer (Sp_Seek fd (fileoffset + i)) s in
          if r < 0 then Some (r, s)
          else let (r, s) = sp_ask answer (Sp_Readn fd UTEMP (min PGSIZE (filesz - i))) s in
          if r < 0 then Some (r, s)
          else let (r, s) = sp_ask answer (Page_Map 0 UTEMP child (va + i) perm) s in
          if r < 0 then None
          else let (_, s) = sp_ask answer (Page_Unmap 0 UTEMP) s
               in segment_loop answer child va memsz fd filesz fileoffset perm (i + PGSIZE) s
      else Some (0, s))"

definition map_segment :: "(nat \<Rightarrow> int) \<Rightarrow> int \<Rightarrow> u32 \<Rightarrow> u32 \<Rightarrow> int \<Rightarrow> u32 \<Rightarrow> u32 \<Rightarrow> u32 \<Rightarrow> Sp \<Rightarrow> (int \<times> Sp) option" where
  "map_segment answer child va memsz fd filesz fileoffset perm s =
     (let i = PGOFF va
      in segment_loop answer child (va - i) (memsz + i) fd (filesz + i) (fileoffset - i) perm 0 s)"

text \<open>The headers at the offsets \<open>phs\<close> of the buffer.\<close>

definition ELF_PROG_FLAG_WRITE :: u32 where "ELF_PROG_FLAG_WRITE = 2"

primrec map_segments :: "(nat \<Rightarrow> int) \<Rightarrow> int \<Rightarrow> int \<Rightarrow> image \<Rightarrow> nat list \<Rightarrow> Sp \<Rightarrow> (int \<times> Sp) option" where
  "map_segments answer child fd elf_buf [] s = Some (0, s)"
| "map_segments answer child fd elf_buf (ph # phs) s =
     (if le32 elf_buf ph \<noteq> ELF_PROG_LOAD then map_segments answer child fd elf_buf phs s
      else
        let perm = PTE_P OR PTE_U OR (if le32 elf_buf (ph + 24) AND ELF_PROG_FLAG_WRITE \<noteq> 0 then PTE_W else 0)
        in do { (r, s) \<leftarrow> map_segment answer child (le32 elf_buf (ph + 8)) (le32 elf_buf (ph + 20)) fd (le32 elf_buf (ph + 16))
                            (le32 elf_buf (ph + 4)) perm s;
                if r < 0 then Some (r, s) else map_segments answer child fd elf_buf phs s })"

text \<open>\<open>uvpd\<close> and \<open>uvpt\<close> are the page tables of the parent.\<close>

definition shared_page :: "(u32 \<Rightarrow> u32) \<Rightarrow> (u32 \<Rightarrow> u32) \<Rightarrow> u32 \<Rightarrow> bool" where
  "shared_page vpd vpt addr \<longleftrightarrow> vpd (PDX addr) AND PTE_P \<noteq> 0 \<and> vpt (PGNUM addr) AND PTE_SHARE \<noteq> 0
     \<and> vpt (PGNUM addr) AND PTE_P \<noteq> 0 \<and> vpt (PGNUM addr) AND PTE_U \<noteq> 0"

definition copy_shared_pages :: "(nat \<Rightarrow> int) \<Rightarrow> (u32 \<Rightarrow> u32) \<Rightarrow> (u32 \<Rightarrow> u32) \<Rightarrow> int \<Rightarrow> Sp \<Rightarrow> int \<times> Sp" where
  "copy_shared_pages answer vpd vpt child s =
     (0, fold (\<lambda>n s. let addr = of_nat n * PGSIZE
                     in if shared_page vpd vpt addr
                        then snd (sp_ask answer (Page_Map 0 addr child addr (vpt (PGNUM addr) AND PTE_SYSCALL)) s) else s)
           [0..<unat (UTOP div PGSIZE)] s)"

text \<open>\<open>elf_buf\<close> is the buffer after the header has been read into it, and \<open>tf\<close> the trap frame of a new environment.\<close>

definition spawn :: "(nat \<Rightarrow> int) \<Rightarrow> image \<Rightarrow> (int \<Rightarrow> Trapframe) \<Rightarrow> (u32 \<Rightarrow> u32) \<Rightarrow> (u32 \<Rightarrow> u32) \<Rightarrow> u32 \<Rightarrow> u32 \<Rightarrow> u32 list \<Rightarrow> Sp \<Rightarrow> (int \<times> Sp) option" where
  "spawn answer elf_buf tf vpd vpt bufaddr prog args s =
     (let (fd, s) = sp_ask answer (Sp_Open prog) s in
      if fd < 0 then Some (fd, s)
      else let (n, s) = sp_ask answer (Sp_Readn fd bufaddr 512) s in
      if n \<noteq> 512 \<or> le32 elf_buf 0 \<noteq> ELF_MAGIC then Some (- error_code E_NOT_EXEC, snd (sp_ask answer (Sp_Close fd) s))
      else let (child, s) = sp_ask answer Exofork s in
      if child < 0 then Some (child, s)
      else do { (r, esp, s) \<leftarrow> init_stack answer child args s;
                if r < 0 then Some (r, s)
                else do { (r, s) \<leftarrow> map_segments answer child fd elf_buf
                                      (map (\<lambda>k. unat (le32 elf_buf 28) + 32 * k) [0..<unat (le16 elf_buf 44)]) s;
                          if r < 0
                          then let (_, s) = sp_ask answer (Destroy child) s; (_, s) = sp_ask answer (Sp_Close fd) s in Some (r, s)
                          else
                            let (_, s) = sp_ask answer (Sp_Close fd) s;
                                (_, s) = copy_shared_pages answer vpd vpt child s;
                                child_tf = (tf child)\<lparr>tf_eip := le32 elf_buf 24, tf_esp := esp, tf_eflags := tf_eflags (tf child) OR FL_IOPL_3\<rparr>;
                                (r, s) = sp_ask answer (Set_Trapframe child child_tf) s in
                            if r < 0 then None
                            else let (r, s) = sp_ask answer (Set_Status child) s in
                            if r < 0 then None else Some (child, s) } })"

section \<open>Words and strings of a page\<close>

definition word_at :: "mem \<Rightarrow> u32 \<Rightarrow> u32 \<Rightarrow> bool" where
  "word_at m a v \<longleftrightarrow> (\<forall>k<4. m (a + of_nat k) = get_byte k v)"

lemma word_at_put: "word_at (put_word a v m) a v"
proof -
  have "k = 0 \<or> k = 1 \<or> k = 2 \<or> k = 3" if "k < 4" for k :: nat using that by auto
  then show ?thesis unfolding word_at_def put_word_def by fastforce
qed

lemma put_word_frame: "unat a + 4 < 4294967296 \<Longrightarrow> unat x < unat a \<or> unat a + 4 \<le> unat x \<Longrightarrow> put_word a v m x = m x"
proof -
  assume a: "unat a + 4 < 4294967296" "unat x < unat a \<or> unat a + 4 \<le> unat x"
  have "length (map (\<lambda>k. get_byte k v) [0, 1, 2, 3]) = 4" by simp
  then have "x \<notin> span a (length (map (\<lambda>k. get_byte k v) [0, 1, 2, 3]))" using a in_span_iff [of a 4 x] by (simp only:) auto
  then show ?thesis unfolding put_word_def by (rule mem_put_outside)
qed

lemma word_at_cong:
  assumes "word_at m a v" and "unat a + 4 < 4294967296" and "\<And>x. unat a \<le> unat x \<Longrightarrow> unat x < unat a + 4 \<Longrightarrow> m' x = m x"
  shows "word_at m' a v"
proof -
  have "m' (a + of_nat k) = m (a + of_nat k)" if "k < 4" for k using assms(2,3) that unat_plus_nat [of a k] by simp
  then show ?thesis using assms(1) by (simp add: word_at_def)
qed

lemma cstr_cong_unat:
  assumes "cstr m p w" and "unat p + length w < 4294967295" and "\<And>x. unat p \<le> unat x \<Longrightarrow> unat x \<le> unat p + length w \<Longrightarrow> m' x = m x"
  shows "cstr m' p w"
proof -
  have "cstr m' p w = cstr m p w" by (rule cstr_cong) (use assms(2,3) in_span_iff [of p "Suc (length w)"] in auto)
  then show ?thesis using assms(1) by simp
qed

text \<open>A string outside of the page at \<open>UTEMP\<close>.\<close>

definition far :: "u32 \<Rightarrow> u8 list \<Rightarrow> bool" where
  "far p w \<longleftrightarrow> unat p + length w < 4194304 \<or> 4198400 \<le> unat p \<and> unat p + length w < 4294967295"

definition strings_len :: "u8 list list \<Rightarrow> nat" where
  "strings_len ws = sum_list (map (\<lambda>w. length w + 1) ws)"

primrec placed :: "mem \<Rightarrow> u32 \<Rightarrow> u32 \<Rightarrow> u8 list list \<Rightarrow> bool" where
  "placed m q t [] \<longleftrightarrow> True"
| "placed m q t (w # ws) \<longleftrightarrow> word_at m q (UTEMP2USTACK t) \<and> cstr m t w \<and> placed m (q + 4) (t + of_nat (length w) + 1) ws"

lemma strings_len_Cons [simp]: "strings_len (w # ws) = length w + 1 + strings_len ws" "strings_len [] = 0"
  by (simp_all add: strings_len_def)

lemma string_size_spec: "list_all2 (cstr m) ps ws \<Longrightarrow> string_size m ps = Some (of_nat (strings_len ws))"
proof (induction ws arbitrary: ps)
  case (Cons w ws)
  then obtain p qs where p: "ps = p # qs" "cstr m p w" "list_all2 (cstr m) qs ws" by (auto simp: list_all2_Cons2)
  have "strlen m p = Some (of_nat (length w))" using strlen_loop_spec [OF p(2), of 0] by (simp add: strlen_def)
  then show ?case using p Cons.IH [OF p(3)] by (simp add: add.assoc add.left_commute)
qed simp

lemma place_args_spec:
  assumes "list_all2 (\<lambda>p w. cstr m p w \<and> far p w) ps ws" and "4194304 \<le> unat q" and "unat q + 4 * length ps \<le> unat t"
    and "unat t + strings_len ws \<le> 4198400"
  shows "\<exists>m'. place_args ps q t m = Some (t + of_nat (strings_len ws), m') \<and> placed m' q t ws
    \<and> (\<forall>a. unat a < unat q \<or> unat q + 4 * length ps \<le> unat a \<and> unat a < unat t \<or> unat t + strings_len ws \<le> unat a \<longrightarrow> m' a = m a)"
  using assms
proof (induction ws arbitrary: ps q t m rule: list.induct)
  case (Cons w ws)
  then obtain p qs where p: "ps = p # qs" "cstr m p w" "far p w" "list_all2 (\<lambda>p w. cstr m p w \<and> far p w) qs ws"
    by (auto simp: list_all2_Cons2)
  let ?m1 = "put_word q (UTEMP2USTACK t) m" and ?m2 = "mem_put t (w @ [0]) (put_word q (UTEMP2USTACK t) m)"
  have b: "unat q + 4 + 4 * length qs \<le> unat t" "unat t + (length w + 1 + strings_len ws) \<le> 4198400" using Cons.prems p(1) by simp_all
  have uq: "unat (q + 4) = unat q + 4" using unat_plus_nat [of q 4] b by simp
  have ut: "unat (t + of_nat (length w) + 1) = unat t + length w + 1"
    using unat_plus_nat [of t "length w + 1"] b by (simp add: ac_simps)
  have f1: "?m1 a = m a" if "unat a < unat q \<or> unat q + 4 \<le> unat a" for a using that b by (intro put_word_frame) auto
  have f2: "?m2 a = ?m1 a" if "unat a < unat t \<or> unat t + length w + 1 \<le> unat a" for a
    by (rule mem_put_outside) (use that b in_span_iff [of t "Suc (length w)" a] in auto)
  have keep: "cstr ?m2 p' w'" "cstr ?m1 p' w'" if "cstr m p' w'" "far p' w'" for p' w'
    using that b Cons.prems(2) f1 f2 by (auto simp: far_def intro!: cstr_cong_unat [OF that(1)])
  have dj: "span t (Suc (length w)) \<inter> span p (Suc (length w)) = {}"
    using in_span_iff [of p "Suc (length w)"] in_span_iff [of t "Suc (length w)"] p(3) b Cons.prems(2) by (auto simp: far_def)
  have sc: "strcpy ?m1 t p = Some (?m2, t)"
    using strcpy_loop_spec [OF keep(2) [OF p(2,3)] dj] by (simp add: strcpy_def)
  have sl: "strlen ?m2 p = Some (of_nat (length w))" using strlen_loop_spec [OF keep(1) [OF p(2,3)], of 0] by (simp add: strlen_def)
  have "list_all2 (\<lambda>p w. cstr ?m2 p w \<and> far p w) qs ws" using p(4) by (rule list_all2_mono) (use keep in auto)
  then obtain m' where m': "place_args qs (q + 4) (t + of_nat (length w) + 1) ?m2 = Some (t + of_nat (length w) + 1 + of_nat (strings_len ws), m')"
    "placed m' (q + 4) (t + of_nat (length w) + 1) ws"
    "\<forall>a. unat a < unat q + 4 \<or> unat q + 4 + 4 * length qs \<le> unat a \<and> unat a < unat t + length w + 1 \<or> unat t + length w + 1 + strings_len ws \<le> unat a \<longrightarrow> m' a = ?m2 a"
    using Cons.IH [of ?m2 qs "q + 4" "t + of_nat (length w) + 1"] b Cons.prems(2) unfolding uq ut by auto
  have "cstr ?m2 t w" by (rule cstr_mem_put) (use cstr_nonzero [OF p(2)] b in auto)
  then have "cstr m' t w" by (rule cstr_cong_unat) (use m'(3) b in auto)
  moreover have "word_at ?m2 q (UTEMP2USTACK t)"
    by (rule word_at_cong [OF word_at_put [of q "UTEMP2USTACK t" m]]) (use f2 b in auto)
  then have "word_at m' q (UTEMP2USTACK t)" by (rule word_at_cong) (use m'(3) b in auto)
  moreover have "place_args ps q t m = Some (t + of_nat (strings_len (w # ws)), m')" using m'(1) sc sl p(1) by (simp add: ac_simps)
  moreover have "m' a = m a" if "unat a < unat q \<or> unat q + 4 * length ps \<le> unat a \<and> unat a < unat t \<or> unat t + strings_len (w # ws) \<le> unat a" for a
    using that m'(3) f1 [of a] f2 [of a] b p(1) by auto
  ultimately show ?case using m'(2) by auto
qed simp

section \<open>The stack of the child\<close>

text \<open>The entry point of a program (\<open>_start\<close>, \<open>lib/entry.S\<close>): the two parameters \<open>argc\<close> and \<open>argv\<close> with which it
  calls \<open>libmain\<close> when it is started with the stack pointer \<open>esp\<close>.\<close>

definition start_args :: "mem \<Rightarrow> u32 \<Rightarrow> u32 \<times> u32" where
  "start_args m esp =
     (let (m, esp) = (if esp = USTACKTOP then (put_word (esp - 8) 0 (put_word (esp - 4) 0 m), esp - 8) else (m, esp))
      in (le32 (\<lambda>i. m (esp + of_nat i)) 0, le32 (\<lambda>i. m (esp + 4 + of_nat i)) 0))"

lemma start_args_word:
  assumes "word_at m esp c" and "word_at m (esp + 4) v" and "esp \<noteq> USTACKTOP"
  shows "start_args m esp = (c, v)"
proof -
  have "le32 (\<lambda>i. m (a + of_nat i)) 0 = w" if "word_at m a w" for a w
    using that by (intro le32_bytes) (simp add: word_at_def)
  then show ?thesis using assms by (simp add: start_args_def)
qed

text \<open>The page of the parent at \<open>UTEMP\<close> as the child sees it, and a null-terminated array of strings.\<close>

definition child_mem :: "mem \<Rightarrow> mem" where
  "child_mem m = (\<lambda>a. m (a - (USTACKTOP - PGSIZE) + UTEMP))"

primrec args_at :: "mem \<Rightarrow> u32 \<Rightarrow> u8 list list \<Rightarrow> bool" where
  "args_at m q [] \<longleftrightarrow> word_at m q 0"
| "args_at m q (w # ws) \<longleftrightarrow> (\<exists>p. word_at m q p \<and> cstr m p w) \<and> args_at m (q + 4) ws"

lemma child_word: "word_at (child_mem m) (UTEMP2USTACK a) v \<longleftrightarrow> word_at m a v"
  by (simp add: word_at_def child_mem_def UTEMP2USTACK_def algebra_simps)

lemma child_cstr: "cstr (child_mem m) (UTEMP2USTACK a) w \<longleftrightarrow> cstr m a w"
proof (induction w arbitrary: a)
  case (Cons x w)
  have "UTEMP2USTACK a + 1 = UTEMP2USTACK (a + 1)" "child_mem m (UTEMP2USTACK a) = m a" by (simp_all add: child_mem_def UTEMP2USTACK_def)
  then show ?case using Cons by simp
qed (simp add: child_mem_def UTEMP2USTACK_def)

lemma placed_args:
  "placed m q t ws \<Longrightarrow> word_at m (q + 4 * of_nat (length ws)) 0 \<Longrightarrow> args_at (child_mem m) (UTEMP2USTACK q) ws"
proof (induction ws arbitrary: q t)
  case (Cons w ws)
  have e: "UTEMP2USTACK q + 4 = UTEMP2USTACK (q + 4)" by (simp add: UTEMP2USTACK_def)
  have "q + 4 * of_nat (length (w # ws)) = (q + 4) + 4 * of_nat (length ws)" by (simp add: algebra_simps)
  then have "args_at (child_mem m) (UTEMP2USTACK (q + 4)) ws"
    using Cons.prems Cons.IH [of "q + 4" "t + of_nat (length w) + 1"] by (simp add: add.assoc)
  then show ?case using Cons.prems(1) child_word child_cstr by (auto simp: e)
qed (simp add: child_word)

lemma placed_cong:
  assumes "placed m q t ws" and "unat q + 4 * length ws \<le> unat t" and "unat t + strings_len ws \<le> 4198400"
    and "\<And>a. unat q \<le> unat a \<and> unat a < unat q + 4 * length ws \<or> unat t \<le> unat a \<and> unat a < unat t + strings_len ws \<Longrightarrow> m' a = m a"
  shows "placed m' q t ws"
  using assms
proof (induction ws arbitrary: q t)
  case (Cons w ws)
  have b: "unat q + 4 + 4 * length ws \<le> unat t" "unat t + (length w + 1 + strings_len ws) \<le> 4198400" using Cons.prems by simp_all
  have uq: "unat (q + 4) = unat q + 4" using unat_plus_nat [of q 4] b by simp
  have ut: "unat (t + of_nat (length w) + 1) = unat t + length w + 1"
    using unat_plus_nat [of t "length w + 1"] b by (simp add: ac_simps)
  have p: "word_at m q (UTEMP2USTACK t)" "cstr m t w" "placed m (q + 4) (t + of_nat (length w) + 1) ws" using Cons.prems(1) by simp_all
  have "word_at m' q (UTEMP2USTACK t)" using p(1) by (rule word_at_cong) (use Cons.prems(4) b in auto)
  moreover have "cstr m' t w" using p(2) by (rule cstr_cong_unat) (use Cons.prems(4) b in auto)
  moreover have "placed m' (q + 4) (t + of_nat (length w) + 1) ws"
    using p(3) by (rule Cons.IH; unfold uq ut) (use Cons.prems(4) b in auto)
  ultimately show ?case by simp
qed simp

text \<open>The places of the strings, the array and the two words below it.\<close>

lemma stack_layout:
  assumes n: "n \<le> 4096" and k: "k \<le> n"
  defines "t \<equiv> UTEMP + PGSIZE - of_nat n"
  defines "q \<equiv> ROUNDDOWN t 4 - 4 * (of_nat k + 1)"
  shows "unat t + n = 4198400" and "unat q + 4 * k + 4 = 4194304 + 4 * ((4096 - n) div 4)"
    and "unat (q - 4) = unat q - 4" and "unat (q - 8) = unat q - 8" and "unat (q + 4 * of_nat k) = unat q + 4 * k"
proof -
  have t: "unat t = 4194304 + (4096 - n)" using n by (simp add: t_def UTEMP_def PGSIZE_def unat_sub word_le_nat_alt unat_of_nat)
  then show "unat t + n = 4198400" using n by simp
  have m: "unat (t mod 4) = unat t mod 4" by (simp add: unat_mod)
  have "t mod 4 \<le> t" unfolding word_le_nat_alt m by (rule mod_less_eq_dividend)
  then have "unat (ROUNDDOWN t 4) = unat t - unat t mod 4" unfolding ROUNDDOWN_def by (simp only: unat_sub m)
  also have "\<dots> = 4 * (unat t div 4)" by (rule minus_mod_eq_mult_div)
  also have "unat t div 4 = 1048576 + (4096 - n) div 4" unfolding t using div_mult_self3 [of 4 1048576 "4096 - n"] by simp
  finally have r: "unat (ROUNDDOWN t 4) = 4194304 + 4 * ((4096 - n) div 4)" by simp
  have k4: "unat (4 * (of_nat k + 1) :: u32) = 4 * k + 4"
  proof -
    have "unat (of_nat (4 * k + 4) :: u32) = 4 * k + 4" using n k by (simp add: unat_of_nat del: of_nat_add of_nat_mult)
    then show ?thesis by (simp add: algebra_simps)
  qed
  have "4 * (of_nat k + 1) \<le> ROUNDDOWN t 4" unfolding word_le_nat_alt r k4 using n k by simp
  then have "unat q = unat (ROUNDDOWN t 4) - (4 * k + 4)" unfolding q_def by (simp only: unat_sub k4)
  then show q: "unat q + 4 * k + 4 = 4194304 + 4 * ((4096 - n) div 4)" using r n k by simp
  have q1: "8 \<le> unat q" "unat q + 4 * k < 4294967296" using q n k by simp_all
  then show "unat (q - 4) = unat q - 4" "unat (q - 8) = unat q - 8" by (simp_all add: unat_sub word_le_nat_alt)
  show "unat (q + 4 * of_nat k) = unat q + 4 * k" using unat_plus_nat [of q "4 * k"] q1(2) by simp
qed

text \<open>Arguments of more than a page are noticed as long as the computed addresses do not fall below zero.\<close>

lemma stack_overflow:
  assumes n: "4096 < n" and k: "n + 4 * k + 16 \<le> 4198400"
  shows "ROUNDDOWN (UTEMP + PGSIZE - of_nat n) 4 - 4 * (of_nat k + 1) - 8 < UTEMP"
proof -
  define t where "t = UTEMP + PGSIZE - of_nat n"
  have t: "unat t = 4198400 - n" using k by (simp add: t_def UTEMP_def PGSIZE_def unat_sub word_le_nat_alt unat_of_nat)
  have m: "unat (t mod 4) = unat t mod 4" by (simp add: unat_mod)
  have "t mod 4 \<le> t" unfolding word_le_nat_alt m by (rule mod_less_eq_dividend)
  then have r: "unat (ROUNDDOWN t 4) = unat t - unat t mod 4" unfolding ROUNDDOWN_def by (simp only: unat_sub m)
  have k4: "unat (4 * (of_nat k + 1) + 8 :: u32) = 4 * k + 12"
  proof -
    have "unat (of_nat (4 * k + 12) :: u32) = 4 * k + 12" using k by (simp add: unat_of_nat del: of_nat_add of_nat_mult)
    then show ?thesis by (simp add: algebra_simps)
  qed
  have "unat t mod 4 < 4" by simp
  then have b: "4 * k + 12 \<le> unat (ROUNDDOWN t 4)" unfolding r t using k by linarith
  then have "unat (ROUNDDOWN t 4 - (4 * (of_nat k + 1) + 8)) = unat (ROUNDDOWN t 4) - (4 * k + 12)"
    by (simp only: unat_sub word_le_nat_alt k4)
  then have "unat (ROUNDDOWN t 4 - 4 * (of_nat k + 1) - 8) = unat (ROUNDDOWN t 4) - (4 * k + 12)" by (simp only: diff_diff_eq)
  moreover have "unat (ROUNDDOWN t 4) \<le> 4198400 - n" unfolding r t by simp
  moreover have "unat UTEMP = 4194304" by (simp add: UTEMP_def)
  ultimately show ?thesis unfolding t_def [symmetric] word_less_nat_alt using n by linarith
qed

definition upage_perm :: u32 where "upage_perm = PTE_P OR PTE_U OR PTE_W"

text \<open>The memory that the stores of \<open>init_stack\<close> leave.\<close>

lemma stack_stores:
  assumes m: "placed m q t ws" and q: "4194312 \<le> unat q" "unat q + 4 * length ws + 4 \<le> unat t" "unat t + strings_len ws = 4198400"
    and u: "unat (q - 4) = unat q - 4" "unat (q - 8) = unat q - 8" "unat (q + 4 * of_nat (length ws)) = unat q + 4 * length ws"
  defines "m' \<equiv> put_word (q - 8) (of_nat (length ws)) (put_word (q - 4) (UTEMP2USTACK q) (put_word (q + 4 * of_nat (length ws)) 0 m))"
  shows "word_at m' (q - 8) (of_nat (length ws))" and "word_at m' (q - 4) (UTEMP2USTACK q)"
    and "args_at (child_mem m') (UTEMP2USTACK q) ws"
    and "\<And>a. unat a < 4194304 \<or> 4198400 \<le> unat a \<Longrightarrow> m' a = m a"
proof -
  let ?z = "put_word (q + 4 * of_nat (length ws)) 0 m" and ?a = "put_word (q - 4) (UTEMP2USTACK q) (put_word (q + 4 * of_nat (length ws)) 0 m)"
  have f1: "?z a = m a" if "unat a < unat q + 4 * length ws \<or> unat q + 4 * length ws + 4 \<le> unat a" for a
    by (rule put_word_frame) (use that q u in auto)
  have f2: "?a a = ?z a" if "unat a < unat q - 4 \<or> unat q \<le> unat a" for a by (rule put_word_frame) (use that q u in auto)
  have f3: "m' a = ?a a" if "unat a < unat q - 8 \<or> unat q - 4 \<le> unat a" for a unfolding m'_def by (rule put_word_frame) (use that q u in auto)
  show "word_at m' (q - 8) (of_nat (length ws))" unfolding m'_def by (rule word_at_put)
  show "word_at m' (q - 4) (UTEMP2USTACK q)" by (rule word_at_cong [OF word_at_put]) (use f3 q u in auto)
  have f: "m' a = m a" if "unat a < unat q - 8 \<or> unat q \<le> unat a \<and> (unat a < unat q + 4 * length ws \<or> unat q + 4 * length ws + 4 \<le> unat a)" for a
  proof -
    have "unat a < unat q - 8 \<or> unat q - 4 \<le> unat a" "unat a < unat q - 4 \<or> unat q \<le> unat a"
      "unat a < unat q + 4 * length ws \<or> unat q + 4 * length ws + 4 \<le> unat a" using that by linarith+
    then show ?thesis using f1 f2 f3 by simp
  qed
  show "m' a = m a" if "unat a < 4194304 \<or> 4198400 \<le> unat a" for a by (rule f) (use that q in linarith)
  have "word_at m' (q + 4 * of_nat (length ws)) 0"
  proof (rule word_at_cong [OF word_at_put [of "q + 4 * of_nat (length ws)" 0 m]])
    fix x :: u32 assume "unat (q + 4 * of_nat (length ws)) \<le> unat x"
    then have "unat q - 4 \<le> unat x" "unat q \<le> unat x" using u(3) by linarith+
    then show "m' x = ?z x" using f2 [of x] f3 [of x] by simp
  qed (use q u in simp)
  moreover have "placed m' q t ws" using m
  proof (rule placed_cong)
    show "m' a = m a" if "unat q \<le> unat a \<and> unat a < unat q + 4 * length ws \<or> unat t \<le> unat a \<and> unat a < unat t + strings_len ws" for a
      by (rule f) (use that q in linarith)
  qed (use q in simp_all)
  ultimately show "args_at (child_mem m') (UTEMP2USTACK q) ws" using placed_args by blast
qed

section \<open>The pages of a segment\<close>

text \<open>The calls that \<open>map_segment\<close> makes for the page at the offset \<open>i\<close> when none of them fails.\<close>

definition page_calls :: "int \<Rightarrow> u32 \<Rightarrow> int \<Rightarrow> u32 \<Rightarrow> u32 \<Rightarrow> u32 \<Rightarrow> u32 \<Rightarrow> Sp_Call list" where
  "page_calls child va fd filesz fileoffset perm i =
     (if i \<ge> filesz then [Page_Alloc child (va + i) perm]
      else [Page_Alloc 0 UTEMP (PTE_P OR PTE_U OR PTE_W), Sp_Seek fd (fileoffset + i), Sp_Readn fd UTEMP (min PGSIZE (filesz - i)),
            Page_Map 0 UTEMP child (va + i) perm, Page_Unmap 0 UTEMP])"

lemma segment_loop_step:
  assumes "\<And>k. 0 \<le> answer k" and "i < memsz"
  shows "segment_loop answer child va memsz fd filesz fileoffset perm i s =
    segment_loop answer child va memsz fd filesz fileoffset perm (i + PGSIZE)
      (s\<lparr>sp_calls := sp_calls s @ page_calls child va fd filesz fileoffset perm i\<rparr>)"
  using assms by (subst segment_loop.simps) (simp add: sp_ask_def page_calls_def not_less [THEN iffD2])

text \<open>The loop ends for sizes up to the last page, and it covers the pages of the segment in ascending order, each once.\<close>

lemma segment_loop_covers:
  assumes ok: "\<And>k. 0 \<le> answer k" and m: "unat memsz \<le> 4294963200" and k: "k \<le> (unat memsz + 4095) div 4096"
  shows "segment_loop answer child va memsz fd filesz fileoffset perm (of_nat (4096 * k)) s =
    Some (0, s\<lparr>sp_calls := sp_calls s @ concat (map (\<lambda>j. page_calls child va fd filesz fileoffset perm (of_nat (4096 * j)))
                                                   [k..<(unat memsz + 4095) div 4096])\<rparr>)"
  using k
proof (induction k arbitrary: s rule: inc_induct)
  case base
  let ?n = "(unat memsz + 4095) div 4096"
  have "unat (of_nat (4096 * ?n) :: u32) = 4096 * ?n" using m by (simp add: unat_of_nat del: of_nat_mult)
  moreover have "unat memsz \<le> 4096 * ?n" by linarith
  ultimately have "\<not> of_nat (4096 * ?n) < memsz" by (simp add: word_less_nat_alt del: of_nat_mult)
  then show ?case by (subst segment_loop.simps) (simp del: of_nat_mult)
next
  case (step k)
  have "4096 * k < unat memsz" using step.hyps(2) by linarith
  moreover from this have "unat (of_nat (4096 * k) :: u32) = 4096 * k" using m by (simp add: unat_of_nat del: of_nat_mult)
  ultimately have "of_nat (4096 * k) < memsz" by (simp add: word_less_nat_alt del: of_nat_mult)
  moreover have "(of_nat (4096 * k) :: u32) + PGSIZE = of_nat (4096 * Suc k)" by (simp add: PGSIZE_def)
  ultimately show ?case using segment_loop_step [OF ok] step.IH step.hyps(2) by (simp add: upt_rec [of k] del: of_nat_mult mult_Suc_right)
qed

section \<open>Properties\<close>



end
