(* ===== verification/Cow.thy ===== *)
theory Cow
  imports Fork
begin

text \<open>
  The page fault handler of \<open>lib/fork.c\<close>: a write to a copy-on-write page gives the environment a
  private, writable copy of the page.
\<close>

section \<open>A page of user memory\<close>

lemma pde_ok_U: "pde_ok x \<Longrightarrow> x AND PTE_U \<noteq> 0"
proof
  assume "pde_ok x" and "x AND PTE_U = 0"
  then have "(x AND 0x87) AND 4 = 0" by (simp add: PTE_U_def and.assoc)
  then show False using \<open>pde_ok x\<close> by (simp add: pde_ok_def)
qed

lemma page_offset:
  assumes "PGOFF a = 0" and "i < 4096"
  shows "upage (a + of_nat i) = upage a" and "unat (PGOFF (a + of_nat i)) = i"
proof -
  have a: "unat a mod 4096 = 0" using assms(1) unat_PGOFF [of a] by simp
  then show "unat (PGOFF (a + of_nat i)) = i" using assms(2) mod_add_left_eq [of "unat a" 4096 i] by (simp add: PGOFF_add)
  define q where "q = unat a div 4096"
  have q: "unat a = 4096 * q" using a mult_div_mod_eq [of 4096 "unat a"] by (simp add: q_def)
  have "unat a < 4294967296" using unsigned_less [of a] by simp
  then have "q < 1048576" unfolding q by simp
  then have "unat a + i < 4294967296" unfolding q using assms(2) by linarith
  then have u: "unat (a + of_nat i) = unat a + i" by (simp add: unat_word_ariths unat_of_nat)
  have d: "(unat a + i) div 4096 = unat a div 4096" unfolding q using assms(2) by simp
  have dd: "n div 4194304 = n div 4096 div 1024" for n :: nat by (simp add: div_mult2_eq [symmetric])
  show "upage (a + of_nat i) = upage a"
    unfolding upage_def unat_PDX unat_PTX u dd d ..
qed

lemma load_byte_user:
  assumes "kinv s fl el" and "e \<in> live s" and "uspace s e (upage a) = Some pte"
  shows "load_byte s (env_pgdir (envs s e)) a
    = Some (get_byte (unat (PGOFF a) mod 4) (phys s (unat (PGNUM pte)) (unat (PGOFF a) div 4)))"
  using mmu_read_user [OF assms] by (simp add: load_byte_def)

text \<open>The bytes of a mapped page are those of its frame.\<close>

lemma load_page:
  assumes "kinv s fl el" and "e \<in> live s" and "uspace s e (upage a) = Some pte" and "PGOFF a = 0" and "i < 4096"
  shows "load_byte s (env_pgdir (envs s e)) (a + of_nat i) = Some (get_byte (i mod 4) (phys s (unat (PGNUM pte)) (i div 4)))"
  using load_byte_user [OF assms(1,2), of "a + of_nat i" pte] assms(3) page_offset [OF assms(4,5)] by simp

lemma load_bytes_page:
  assumes "kinv s fl el" and "e \<in> live s" and "uspace s e (upage a) = Some pte" and "PGOFF a = 0"
  shows "\<exists>b. load_bytes s (env_pgdir (envs s e)) a 4096 = Some b
    \<and> (\<forall>i<4096. b i = get_byte (i mod 4) (phys s (unat (PGNUM pte)) (i div 4)))"
proof -
  have "list_all (\<lambda>i. load_byte s (env_pgdir (envs s e)) (a + of_nat i) \<noteq> None) [0..<4096]"
    unfolding list_all_iff using load_page [OF assms] by (simp only: set_upt atLeastLessThan_iff) simp
  then show ?thesis using load_page [OF assms] by (simp only: load_bytes_def if_True) simp
qed

text \<open>Storing into a page changes no other frame.\<close>

lemma store_page_frame:
  assumes k: "kinv s fl el" and e: "e \<in> live s" and a: "PGOFF a = 0"
    and pte: "uspace s e (upage a) = Some pte" "pte AND PTE_W \<noteq> 0"
  shows "n \<le> 4096 \<Longrightarrow> store_bytes (env_pgdir (envs s e)) a src n s = Some s' \<Longrightarrow> x \<noteq> unat (PGNUM pte) \<Longrightarrow> phys s' x = phys s x"
proof (induction n arbitrary: s')
  case (Suc n)
  have w: "writable s e (a + of_nat i)" if "i < n" for i
    using pte page_offset(1) [OF a, of i] that Suc.prems(1) by (auto simp: writable_def)
  obtain s1 where s1: "store_bytes (env_pgdir (envs s e)) a src n s = Some s1" "kinv s1 fl el" "pm_frame s s1"
    "uspace s1 = uspace s" using store_bytes_spec [OF k e w, of n src] Suc.prems(1) by auto
  have e1: "e \<in> live s1" "envs s1 = envs s"
    using e pm_frame_dirs(2) [OF s1(3)] pm_frameD(2) [OF s1(3)] by simp_all
  have "mmu_write_addr s1 (env_pgdir (envs s e)) (a + of_nat n) = Some (unat (PGNUM pte), n)"
    using mmu_write_user [OF s1(2) e1(1), of "a + of_nat n" pte] page_offset [OF a, of n] pte s1(4) e1(2) Suc.prems(1) by simp
  then have "phys s' x = phys s1 x" using Suc.prems(2,3) s1(1) by (auto simp: store_byte_def set_word_def)
  then show ?case using Suc.IH [OF _ s1(1)] Suc.prems(1,3) by simp
qed simp

section \<open>The handler\<close>

lemma sys_page_unmap_run:
  assumes k: "kinv s fl el" and e: "envid2env envid True s = Some (Inr (Some e))" "e \<in> live s" and va: "va < UTOP" "PGOFF va = 0"
  shows "\<exists>s' fl'. sys_page_unmap envid va s = ret_ok s' \<and> kinv s' fl' el \<and> pm_frame s s' \<and> untouched {e} s s'
    \<and> uspace s' e = (uspace s e)(upage va := None) \<and> pmap s' = (pmap s)(ukey (env_dir s e) va := None)"
  by (rule remove_env [OF k e(2) va(1)]) (use e(1) va in \<open>auto simp: sys_page_unmap_def with_env_def of_state_def not_le\<close>)

lemma self_id:
  assumes "curenv s = Some c"
  shows "envid2env 0 True s = Some (Inr (Some c))"
  using assms by (simp add: envid2env_def)

lemma PFTEMP_page: "PFTEMP < UTOP" "PGOFF PFTEMP = 0"
  by (simp_all add: PFTEMP_def UTEMP_def layout_values layout_defs PGOFF_def)

text \<open>What the handler leaves behind: the page of \<open>va\<close> has a frame of its own with the old contents.\<close>

definition private_copy :: "nat \<Rightarrow> nat list \<Rightarrow> u32 \<Rightarrow> kern \<Rightarrow> kern \<Rightarrow> bool" where
  "private_copy c el va s s' \<longleftrightarrow> (\<exists>fl' p. kinv s' fl' el \<and> p \<notin> ran (frames (phys s) (dirs s))
     \<and> uspace s' c = (uspace s c)(upage va \<mapsto> frame_addr p OR PTE_P OR PTE_U OR PTE_W)
     \<and> (\<forall>i<4096. load_byte s' (env_pgdir (envs s' c)) (ROUNDDOWN va PGSIZE + of_nat i)
          = load_byte s (env_pgdir (envs s c)) (ROUNDDOWN va PGSIZE + of_nat i))
     \<and> (\<forall>x\<in>live s - {c}. uspace s' x = uspace s x)
     \<and> (\<forall>q\<in>ran (frames (phys s) (dirs s)) \<inter> ran (frames (phys s') (dirs s')). phys s' q = phys s q))"

lemma ROUNDDOWN_page:
  assumes "va < UTOP"
  shows "ROUNDDOWN va PGSIZE < UTOP" and "PGOFF (ROUNDDOWN va PGSIZE) = 0" and "upage (ROUNDDOWN va PGSIZE) = upage va"
proof -
  have u: "unat (ROUNDDOWN va PGSIZE) = unat va div 4096 * 4096" by (rule unat_ROUNDDOWN)
  then have "unat (ROUNDDOWN va PGSIZE) \<le> unat va" by simp
  then show "ROUNDDOWN va PGSIZE < UTOP" using assms unfolding word_less_nat_alt by simp
  have "unat (PGOFF (ROUNDDOWN va PGSIZE)) = 0" unfolding unat_PGOFF u by simp
  then show "PGOFF (ROUNDDOWN va PGSIZE) = 0" by (simp add: word_unat_eq_iff)
  have dd: "n div 4194304 = n div 4096 div 1024" for n :: nat by (simp add: div_mult2_eq [symmetric])
  show "upage (ROUNDDOWN va PGSIZE) = upage va" unfolding upage_def unat_PDX unat_PTX u dd by simp
qed

text \<open>The frame of \<open>PFTEMP\<close> becomes the frame of the page.\<close>

lemma remap_page:
  assumes k: "kinv s fl el" and c: "curenv s = Some c" "c \<in> live s" and a: "a < UTOP" "PGOFF a = 0"
    and p: "uspace s c (upage PFTEMP) = Some (frame_addr p OR (PTE_P OR PTE_U OR PTE_W) OR PTE_P)" "p < 1048576"
    and once: "occurrences (frames (phys s) (dirs s)) p < 65535"
    and other: "upage a \<noteq> upage PFTEMP"
  shows "progress el (\<lambda>s'. \<exists>fl'. kinv s' fl' el \<and> pm_frame s s'
      \<and> uspace s' c = (uspace s c)(upage a \<mapsto> frame_addr p OR PTE_P OR PTE_U OR PTE_W, upage PFTEMP := None)
      \<and> (\<forall>x\<in>live s - {c}. uspace s' x = uspace s x)
      \<and> (\<forall>q\<in>ran (frames (phys s) (dirs s)) \<inter> ran (frames (phys s') (dirs s')). phys s' q = phys s q))
    (ubind (must (sys_page_map 0 PFTEMP 0 a (PTE_P OR PTE_U OR PTE_W) s)) (\<lambda>_ s3. must (sys_page_unmap 0 PFTEMP s3)))"
proof -
  let ?perm = "PTE_P OR PTE_U OR PTE_W" let ?pte = "frame_addr p OR ?perm OR PTE_P"
  have bits: "?perm OR PTE_P = 7" by (simp add: PTE_P_def PTE_U_def PTE_W_def)
  have n: "unat (PGNUM ?pte) = p" unfolding bits using p(2) by simp
  have "pmap s (env_dir s c, upage PFTEMP) = Some ?pte" using p(1) by (simp add: uspace_pmap)
  then have "p \<in> ran (frames (phys s) (dirs s))" using umap_ran n by metis
  then have r: "unat (pp_ref (pages s (unat (PGNUM ?pte)))) < 65535"
    using vm_inv_mapped(5) [OF kinvD(1) [OF k]] once unfolding n by simp
  have "bit ?pte 1" unfolding bits by (simp add: bit_simps)
  then have w: "\<not> (?perm AND PTE_W \<noteq> 0 \<and> ?pte AND PTE_W = 0)"
    using and_exp_eq_0_iff_not_bit [of ?pte 1] by (simp add: PTE_W_def)
  show ?thesis
  proof (cases "sys_page_map 0 PFTEMP 0 a ?perm s = ret_err E_NO_MEM s \<and> fl = []")
    case True
    then show ?thesis using k by auto
  next
    case False
    obtain s3 fl3 where s3: "sys_page_map 0 PFTEMP 0 a ?perm s = ret_ok s3" "kinv s3 fl3 el"
      "uspace s3 c = (uspace s c)(upage a \<mapsto> ?pte)" "untouched {c} s s3" "pm_frame s s3"
      using sys_page_map_run [OF k self_id [OF c(1)] c(2) self_id [OF c(1)] c(2) PFTEMP_page a perm7_ok p(1) r] w False
      unfolding n by auto
    have c3: "curenv s3 = Some c" "c \<in> live s3"
      using c pm_frameD(7) [OF s3(5)] pm_frame_dirs(2) [OF s3(5)] by simp_all
    obtain s4 fl4 where s4: "sys_page_unmap 0 PFTEMP s3 = ret_ok s4" "kinv s4 fl4 el" "pm_frame s3 s4"
      "untouched {c} s3 s4" "uspace s4 c = (uspace s3 c)(upage PFTEMP := None)"
      "pmap s4 = (pmap s3)(ukey (env_dir s3 c) PFTEMP := None)"
      using sys_page_unmap_run [OF s3(2) self_id [OF c3(1)] c3(2) PFTEMP_page] by blast
    have "?pte = frame_addr p OR PTE_P OR PTE_U OR PTE_W" unfolding bits by (simp add: PTE_P_def PTE_U_def PTE_W_def)
    then have "uspace s4 c = (uspace s c)(upage a \<mapsto> frame_addr p OR PTE_P OR PTE_U OR PTE_W, upage PFTEMP := None)"
      using s3(3) s4(5) by (simp only:)
    moreover have "\<forall>x\<in>live s - {c}. uspace s4 x = uspace s x"
      using s3(4) s4(4) pm_frame_dirs(2) [OF s3(5)] by (simp add: untouched_def)
    moreover have "phys s4 q = phys s q" if "q \<in> ran (frames (phys s) (dirs s)) \<inter> ran (frames (phys s4) (dirs s4))" for q
    proof -
      have "q \<in> ran (frames (phys s3) (dirs s3))"
        using that unfolding frames_map s4(6) by (auto simp: ran_def split: if_splits)
      then show ?thesis using that s3(4) s4(4) by (simp add: untouched_def)
    qed
    ultimately show ?thesis using s3(1) s4(1,2) pm_frame_trans [OF s3(5) s4(3)] by auto
  qed
qed

text \<open>Copying the page into the new frame at \<open>PFTEMP\<close>.\<close>

lemma copy_page:
  assumes k: "kinv s fl el" and c: "c \<in> live s" and a: "PGOFF a = 0" and pte: "uspace s c (upage a) = Some pte"
    and t: "uspace s c (upage PFTEMP) = Some t" "t AND PTE_W \<noteq> 0"
    and ne: "unat (PGNUM pte) \<noteq> unat (PGNUM t)"
  shows "\<exists>b s'. load_bytes s (env_pgdir (envs s c)) a 4096 = Some b
    \<and> store_bytes (env_pgdir (envs s c)) PFTEMP b 4096 s = Some s' \<and> kinv s' fl el \<and> pm_frame s s' \<and> uspace s' = uspace s
    \<and> (\<forall>x. x \<noteq> unat (PGNUM t) \<longrightarrow> phys s' x = phys s x)
    \<and> (\<forall>i<4096. get_byte (i mod 4) (phys s' (unat (PGNUM t)) (i div 4)) = get_byte (i mod 4) (phys s (unat (PGNUM pte)) (i div 4)))"
proof -
  obtain b where b: "load_bytes s (env_pgdir (envs s c)) a 4096 = Some b"
    "\<And>i. i < 4096 \<Longrightarrow> b i = get_byte (i mod 4) (phys s (unat (PGNUM pte)) (i div 4))"
    using load_bytes_page [OF k c pte a] by blast
  have w: "writable s c (PFTEMP + of_nat i)" if "i < 4096" for i
    using t page_offset(1) [OF PFTEMP_page(2) that] by (auto simp: writable_def)
  obtain s' where s': "store_bytes (env_pgdir (envs s c)) PFTEMP b 4096 s = Some s'" "kinv s' fl el" "pm_frame s s'"
    "uspace s' = uspace s" "\<And>i. i < 4096 \<Longrightarrow> load_byte s' (env_pgdir (envs s c)) (PFTEMP + of_nat i) = Some (b i)"
    using store_bytes_spec [OF k c w, of 4096 b] by blast
  have c': "c \<in> live s'" "envs s' = envs s" using c pm_frame_dirs(2) [OF s'(3)] pm_frameD(2) [OF s'(3)] by simp_all
  have "get_byte (i mod 4) (phys s' (unat (PGNUM t)) (i div 4)) = b i" if "i < 4096" for i
    using load_page [OF s'(2) c'(1) _ PFTEMP_page(2) that, of t] t(1) s'(4) s'(5) [OF that] c'(2) by simp
  moreover have "phys s' x = phys s x" if "x \<noteq> unat (PGNUM t)" for x
    using store_page_frame [OF k c PFTEMP_page(2) t _ s'(1) that] by simp
  ultimately show ?thesis using b s'(1-4) by (intro exI [of _ b] exI [of _ s']) simp
qed

text \<open>User code may copy between two pages that it may access.\<close>

lemma user_ok_page:
  assumes "kinv s fl el" and "e \<in> live s" and "uspace s e (upage a) = Some pte" and "pte AND PTE_U \<noteq> 0" and "PGOFF a = 0" and "i < 4096"
  shows "user_ok s (env_pgdir (envs s e)) (a + of_nat i)"
proof -
  have u: "uspace s e (upage (a + of_nat i)) = Some pte" using assms(3) page_offset(1) [OF assms(5,6)] by simp
  note E = uspace_entry [OF assms(1,2) u]
  have "phys s (env_dir s e) (unat (PDX (a + of_nat i))) AND PTE_U \<noteq> 0" by (rule pde_ok_U [OF E(1)])
  then show ?thesis using E(2) assms(4) by (simp add: user_ok_def Let_def dir_entry [OF assms(1,2)])
qed

lemma user_memcpy_page:
  assumes k: "kinv s fl el" and e: "e \<in> live s" and a: "PGOFF a = 0" "uspace s e (upage a) = Some pte" "pte AND PTE_U \<noteq> 0"
    and b: "PGOFF b = 0" "uspace s e (upage b) = Some t" "t AND PTE_U \<noteq> 0"
  shows "user_memcpy (env_pgdir (envs s e)) b a 4096 s
    = do { x \<leftarrow> load_bytes s (env_pgdir (envs s e)) a 4096; store_bytes (env_pgdir (envs s e)) b x 4096 s }"
proof -
  have "list_all (\<lambda>i. user_ok s (env_pgdir (envs s e)) (a + of_nat i) \<and> user_ok s (env_pgdir (envs s e)) (b + of_nat i)) [0..<4096]"
    using user_ok_page [OF k e a(2,3,1)] user_ok_page [OF k e b(2,3,1)] unfolding list_all_iff by (simp only: set_upt atLeastLessThan_iff) simp
  then show ?thesis by (simp only: user_memcpy_def if_True)
qed

lemma private_copyI:
  assumes k: "kinv s fl el" and c: "c \<in> live s" and va: "va < UTOP" and pte: "uspace s c (upage va) = Some pte"
    and p: "p < 1048576" "p \<notin> ran (frames (phys s) (dirs s))" and k': "kinv s' fl' el" "c \<in> live s'"
    and us: "uspace s' c = (uspace s c)(upage va \<mapsto> frame_addr p OR PTE_P OR PTE_U OR PTE_W)"
    and other: "\<forall>x\<in>live s - {c}. uspace s' x = uspace s x"
    and keep: "\<forall>q\<in>ran (frames (phys s) (dirs s)) \<inter> ran (frames (phys s') (dirs s')). phys s' q = phys s q"
    and bytes: "\<forall>i<4096. get_byte (i mod 4) (phys s' p (i div 4)) = get_byte (i mod 4) (phys s (unat (PGNUM pte)) (i div 4))"
  shows "private_copy c el va s s'"
proof -
  note A = ROUNDDOWN_page [OF va]
  have n: "unat (PGNUM (frame_addr p OR PTE_P OR PTE_U OR PTE_W)) = p"
    using p(1) by (simp add: PTE_P_def PTE_U_def PTE_W_def)
  have "load_byte s' (env_pgdir (envs s' c)) (ROUNDDOWN va PGSIZE + of_nat i)
      = load_byte s (env_pgdir (envs s c)) (ROUNDDOWN va PGSIZE + of_nat i)" if "i < 4096" for i
    using load_page [OF k' _ A(2) that] load_page [OF k c _ A(2) that] pte us bytes that n A(3) by simp
  then show ?thesis unfolding private_copy_def using k'(1) p(2) us other keep by blast
qed

text \<open>After the new page is at \<open>PFTEMP\<close>: copy and remap.\<close>

lemma pgfault_copy:
  assumes k: "kinv s fl el" and c: "curenv s = Some c" "c \<in> live s" and va: "va < UTOP"
    and pte: "uspace s c (upage va) = Some pte" "pte AND PTE_U \<noteq> 0" and free: "uspace s c (upage PFTEMP) = None"
    and s1: "kinv s1 fl1 el" "p < 1048576" "p \<notin> ran (frames (phys s) (dirs s))" "pm_frame s s1"
      "pmap s1 = (pmap s)(ukey (env_dir s c) PFTEMP \<mapsto> frame_addr p OR (PTE_P OR PTE_U OR PTE_W) OR PTE_P)"
      "\<forall>q\<in>ran (frames (phys s) (dirs s)). phys s1 q = phys s q"
  shows "progress el (private_copy c el va s)
    (let addr = ROUNDDOWN va PGSIZE; dir = env_pgdir (envs s1 c) in
      case user_memcpy dir PFTEMP addr 4096 s1 of
        None \<Rightarrow> Upanic s1
      | Some s2 \<Rightarrow>
          ubind (must (sys_page_map 0 PFTEMP 0 addr (PTE_P OR PTE_U OR PTE_W) s2))
            (\<lambda>_ s3. must (sys_page_unmap 0 PFTEMP s3)))" (is "progress el _ ?copy")
proof -
  let ?a = "ROUNDDOWN va PGSIZE" let ?perm = "PTE_P OR PTE_U OR PTE_W"
  note A = ROUNDDOWN_page [OF va]
  have bits: "?perm OR PTE_P = 7" by (simp add: PTE_P_def PTE_U_def PTE_W_def)
  let ?t = "frame_addr p OR ?perm OR PTE_P"
  note U1 = uspace_pmap_upd [OF k c(2) s1(4) s1(5) [unfolded ukey_upage]]
  have ne: "upage va \<noteq> upage PFTEMP" using pte(1) free by auto
  have c1: "curenv s1 = Some c" "c \<in> live s1" "envs s1 = envs s"
    using c pm_frameD(2,7) [OF s1(4)] pm_frame_dirs(2) [OF s1(4)] by simp_all
  have n: "unat (PGNUM ?t) = p" unfolding bits using s1(2) by simp
  have "bit ?t 1" unfolding bits by (simp add: bit_simps)
  then have w: "?t AND PTE_W \<noteq> 0" using and_exp_eq_0_iff_not_bit [of ?t 1] by (simp add: PTE_W_def)
  have old: "unat (PGNUM pte) \<in> ran (frames (phys s) (dirs s))" by (rule uspace_entry(3) [OF k c(2) pte(1)])
  have pte1: "uspace s1 c (upage ?a) = Some pte" using U1(1) A(3) ne pte(1) by simp
  have t1: "uspace s1 c (upage PFTEMP) = Some ?t" using U1(1) by simp
  obtain b s2 where s2: "load_bytes s1 (env_pgdir (envs s1 c)) ?a 4096 = Some b"
    "store_bytes (env_pgdir (envs s1 c)) PFTEMP b 4096 s1 = Some s2" "kinv s2 fl1 el" "pm_frame s1 s2" "uspace s2 = uspace s1"
    "\<forall>x. x \<noteq> p \<longrightarrow> phys s2 x = phys s1 x"
    "\<forall>i<4096. get_byte (i mod 4) (phys s2 p (i div 4)) = get_byte (i mod 4) (phys s1 (unat (PGNUM pte)) (i div 4))"
    using copy_page [OF s1(1) c1(2) A(2) pte1 t1 w] old s1(3) unfolding n by metis
  have key: "ukey (env_dir s c) PFTEMP = (env_dir s c, upage PFTEMP)" by (rule ukey_upage)
  have p1: "p \<in> ran (frames (phys s1) (dirs s1))" using umap_ran [of "phys s1" "dirs s1" "ukey (env_dir s c) PFTEMP" ?t] n s1(5) by simp
  have "phys s2 = (phys s1)(p := phys s2 p)" using s2(6) by auto
  then have m2: "pmap s2 = pmap s1"
    using umap_upd_other [of p "dirs s1" "phys s1" "phys s2 p"] vm_inv_mapped(3,4) [OF kinvD(1) [OF s1(1)] p1]
      pm_frame_dirs(1) [OF s2(4)] by simp
  have f2: "frames (phys s2) (dirs s2) = (frames (phys s) (dirs s))(ukey (env_dir s c) PFTEMP \<mapsto> p)"
    unfolding frames_map m2 s1(5) fun_upd_def using n by auto
  have "{k. frames (phys s2) (dirs s2) k = Some p} = {ukey (env_dir s c) PFTEMP}"
    unfolding f2 using s1(3) by (auto simp: ran_def)
  then have once: "occurrences (frames (phys s2) (dirs s2)) p < 65535" by (simp add: occurrences_def)
  have c2: "curenv s2 = Some c" "c \<in> live s2" "envs s2 = envs s"
    using c1 pm_frameD(2,7) [OF s2(4)] pm_frame_dirs(2) [OF s2(4)] by simp_all
  have "bit ?t 2" unfolding bits by (simp add: bit_simps)
  then have "?t AND PTE_U \<noteq> 0" using and_exp_eq_0_iff_not_bit [of ?t 2] by (simp add: PTE_U_def)
  then have "user_memcpy (env_pgdir (envs s1 c)) PFTEMP ?a 4096 s1 = Some s2"
    using user_memcpy_page [OF s1(1) c1(2) A(2) pte1 pte(2) PFTEMP_page(2) t1] s2(1,2) by simp
  then have "?copy = ubind (must (sys_page_map 0 PFTEMP 0 ?a ?perm s2)) (\<lambda>_ s3. must (sys_page_unmap 0 PFTEMP s3))"
    by simp
  moreover have "private_copy c el va s s4" if s4: "kinv s4 fl4 el" "pm_frame s2 s4"
    "uspace s4 c = (uspace s2 c)(upage ?a \<mapsto> frame_addr p OR PTE_P OR PTE_U OR PTE_W, upage PFTEMP := None)"
    "\<forall>x\<in>live s2 - {c}. uspace s4 x = uspace s2 x"
    "\<forall>q\<in>ran (frames (phys s2) (dirs s2)) \<inter> ran (frames (phys s4) (dirs s4)). phys s4 q = phys s2 q" for s4 fl4
  proof (rule private_copyI [OF k c(2) va pte(1) s1(2,3) s4(1)])
    show c4: "c \<in> live s4" using c2(2) pm_frame_dirs(2) [OF s4(2)] by simp
    show us: "uspace s4 c = (uspace s c)(upage va \<mapsto> frame_addr p OR PTE_P OR PTE_U OR PTE_W)"
      unfolding s4(3) s2(5) U1(1) A(3) using ne free by (auto simp: fun_eq_iff)
    show "\<forall>x\<in>live s - {c}. uspace s4 x = uspace s x"
      using s4(4) s2(5) U1(2) pm_frame_dirs(2) [OF s1(4)] pm_frame_dirs(2) [OF s2(4)] by simp
    have key0: "frames (phys s) (dirs s) (ukey (env_dir s c) PFTEMP) = None"
      using free by (simp add: frames_map key uspace_pmap)
    have sub: "q \<in> ran (frames (phys s2) (dirs s2))" if "q \<in> ran (frames (phys s) (dirs s))" for q
    proof -
      from that obtain y where y: "frames (phys s) (dirs s) y = Some q" by (auto simp: ran_def)
      then have "y \<noteq> ukey (env_dir s c) PFTEMP" using key0 by auto
      then show ?thesis using y unfolding f2 by (intro ranI [of _ y]) simp
    qed
    then show "\<forall>q\<in>ran (frames (phys s) (dirs s)) \<inter> ran (frames (phys s4) (dirs s4)). phys s4 q = phys s q"
      using s4(5) s2(6) s1(3,6) by (metis IntD1 IntD2 IntI)
    have "p \<in> ran (frames (phys s4) (dirs s4))"
      using uspace_entry(3) [OF s4(1) c4, of va "frame_addr p OR PTE_P OR PTE_U OR PTE_W"] us s1(2)
      by (simp add: PTE_P_def PTE_U_def PTE_W_def)
    moreover have "p \<in> ran (frames (phys s2) (dirs s2))" unfolding f2 by (intro ranI [of _ "ukey (env_dir s c) PFTEMP"]) simp
    ultimately show "\<forall>i<4096. get_byte (i mod 4) (phys s4 p (i div 4)) = get_byte (i mod 4) (phys s (unat (PGNUM pte)) (i div 4))"
      using s4(5) s2(7) s1(6) old by simp
  qed
  ultimately show ?thesis
    using remap_page [OF s2(3) c2(1,2) A(1,2) _ s1(2) once] t1 s2(5) A(3) ne by (auto elim!: progress_mono)
qed

lemma pgfault_ends:
  assumes k: "kinv s fl el" and c: "curenv s = Some c" "c \<in> live s" and va: "va < UTOP"
    and err: "err AND FEC_PR \<noteq> 0" "err AND FEC_WR \<noteq> 0"
    and pte: "uspace s c (upage va) = Some pte" "pte AND PTE_COW \<noteq> 0" "pte AND PTE_U \<noteq> 0" and free: "uspace s c (upage PFTEMP) = None"
  shows "progress el (private_copy c el va s) (pgfault c va err s)"
proof -
  have "uvpt c va s = pte"
    using uspace_entry(2) [OF k c(2) pte(1)] by (simp add: uvpt_def uvpd_def dir_entry [OF k c(2)])
  then have guards: "(err AND FEC_PR = 0) = False" "(err AND FEC_WR = 0) = False" "(uvpt c va s AND PTE_COW = 0) = False"
    using err pte(2) by simp_all
  show ?thesis
    unfolding pgfault_def guards if_False
    by (rule progress_bind [OF must_page_alloc [OF k self_id [OF c(1)] c(2) PFTEMP_page perm7_ok]])
      (use pgfault_copy [OF k c va pte(1,3) free] in blast)
qed

text \<open>A sample: the page at \<open>0x800000\<close> of the sample environment, marked copy-on-write as \<open>duppage\<close> does.\<close>

definition sample_cow :: kern where
  "sample_cow = (case sys_page_map 0 0x800000 0 0x800000 0x805 sample_mapped of Return _ s \<Rightarrow> s | _ \<Rightarrow> sample_mapped)"

lemma sample_cow_ok:
  "\<exists>fl. kinv sample_cow fl [1..<1024]" "curenv sample_cow = Some 0" "0 \<in> live sample_cow"
  "uspace sample_cow 0 = [(2, 0) \<mapsto> 0x6805]"
proof -
  have up: "upage 0x800000 = (2, 0)" by (simp add: upage_def PDX_def PTX_def drop_bit_eq_div take_bit_eq_mod)
  have self: "envid2env 0 True sample_mapped = Some (Inr (Some 0))" by (rule self_id) (rule sample_mapped_facts)
  have l: "0 \<in> live sample_mapped" by (simp add: sample_mapped_facts)
  have us: "uspace sample_mapped 0 (upage 0x800000) = Some 0x6007" by (simp add: sample_mapped_facts up)
  obtain s' fl' where s': "sys_page_map 0 0x800000 0 0x800000 0x805 sample_mapped = ret_ok s'" "kinv s' fl' [1..<1024]"
    "uspace s' 0 = (uspace sample_mapped 0)(upage 0x800000 \<mapsto> frame_addr 6 OR 0x805 OR PTE_P)" "pm_frame sample_mapped s'"
    using sys_page_map_run [OF sample_mapped_kinv self l self l _ _ _ _ _ us, where dstva = "0x800000" and perm = "0x805"]
    by (auto simp: layout_values PGOFF_def PTE_W_def PTE_P_def sample_mapped_def sample_at_def PGNUM_def drop_bit_eq_div)
  have eq: "sample_cow = s'" using s'(1) by (simp add: sample_cow_def)
  show "\<exists>fl. kinv sample_cow fl [1..<1024]" using s'(2) eq by blast
  show "curenv sample_cow = Some 0" "0 \<in> live sample_cow"
    using pm_frameD(7) [OF s'(4)] pm_frame_dirs(2) [OF s'(4)] by (simp_all add: eq sample_mapped_facts)
  show "uspace sample_cow 0 = [(2, 0) \<mapsto> 0x6805]"
    unfolding eq s'(3) by (simp add: sample_mapped_facts up frame_addr_def PTE_P_def)
qed

section \<open>Properties\<close>

text \<open>C7. A write fault on a copy-on-write page that user code may read (\<open>PTE_U\<close>): unless the handler panics because no more than one
  page is free, the page of the faulting address gets a frame that nothing else maps, writable
  and with the bytes it had; the rest of the address space, every other address space and the
  contents of every page that stays mapped are as before (the temporary mapping at \<open>PFTEMP\<close> is
  gone), and the kernel invariant holds.\<close>

theorem pgfault_private:
  assumes "kinv s fl el" and "curenv s = Some c" and "c \<in> live s" and "va < UTOP"
    and "err AND FEC_PR \<noteq> 0" and "err AND FEC_WR \<noteq> 0"
    and "uspace s c (upage va) = Some pte" and "pte AND PTE_COW \<noteq> 0" and "pte AND PTE_U \<noteq> 0" and "uspace s c (upage PFTEMP) = None"
  shows "case pgfault c va err s of
      Done _ s' \<Rightarrow> (\<exists>fl' p. kinv s' fl' el \<and> p \<notin> ran (frames (phys s) (dirs s))
        \<and> uspace s' c = (uspace s c)(upage va \<mapsto> frame_addr p OR PTE_P OR PTE_U OR PTE_W)
        \<and> (\<forall>i<4096. load_byte s' (env_pgdir (envs s' c)) (ROUNDDOWN va PGSIZE + of_nat i)
             = load_byte s (env_pgdir (envs s c)) (ROUNDDOWN va PGSIZE + of_nat i))
        \<and> (\<forall>x\<in>live s - {c}. uspace s' x = uspace s x)
        \<and> (\<forall>q\<in>ran (frames (phys s) (dirs s)) \<inter> ran (frames (phys s') (dirs s')). phys s' q = phys s q))
    | Upanic s' \<Rightarrow> (\<exists>fl'. kinv s' fl' el \<and> length fl' \<le> 1)
    | Gone \<Rightarrow> False"
  using pgfault_ends [OF assms] unfolding progress_def private_copy_def .

theorem pgfault_private_witness:
  "case pgfault 0 0x800123 3 sample_cow of
      Done _ s' \<Rightarrow> (\<exists>fl' p. kinv s' fl' [1..<1024] \<and> p \<notin> ran (frames (phys sample_cow) (dirs sample_cow))
        \<and> uspace s' 0 = (uspace sample_cow 0)(upage 0x800123 \<mapsto> frame_addr p OR PTE_P OR PTE_U OR PTE_W)
        \<and> (\<forall>i<4096. load_byte s' (env_pgdir (envs s' 0)) (ROUNDDOWN 0x800123 PGSIZE + of_nat i)
             = load_byte sample_cow (env_pgdir (envs sample_cow 0)) (ROUNDDOWN 0x800123 PGSIZE + of_nat i))
        \<and> (\<forall>x\<in>live sample_cow - {0}. uspace s' x = uspace sample_cow x)
        \<and> (\<forall>q\<in>ran (frames (phys sample_cow) (dirs sample_cow)) \<inter> ran (frames (phys s') (dirs s')). phys s' q = phys sample_cow q))
    | Upanic s' \<Rightarrow> (\<exists>fl'. kinv s' fl' [1..<1024] \<and> length fl' \<le> 1)
    | Gone \<Rightarrow> False"
proof -
  from sample_cow_ok(1) obtain fl where k: "kinv sample_cow fl [1..<1024]" by blast
  have up: "upage 0x800123 = (2, 0)" "upage PFTEMP = (1, 1023)"
    by (simp_all add: upage_def PDX_def PTX_def drop_bit_eq_div take_bit_eq_mod PFTEMP_def UTEMP_def layout_defs)
  show ?thesis
    by (rule pgfault_private [OF k sample_cow_ok(2,3), where pte = "0x6805"])
      (simp_all add: sample_cow_ok(4) up FEC_PR_def FEC_WR_def PTE_COW_def PTE_U_def layout_values)
qed

end
