(* ===== verification/Kdebug.thy ===== *)
theory Kdebug
  imports Strings User_Mem Env "HOL-Library.Signed_Division"
begin

text \<open>
  Debugging information about an instruction address (\<open>kern/kdebug.c\<close>): the binary search in the
  table of stabs and the lookup of file, line and function. A table is a function from indices to
  entries; the indices are C integers, far below the bound where \<open>l + r\<close> would overflow.
\<close>

section \<open>The binary search\<close>

record Stab =
  n_strx :: u32
  n_type :: u8
  n_other :: u8
  n_desc :: "16 word"
  n_value :: u32

definition N_FUN :: u8 where "N_FUN = 0x24"
definition N_SLINE :: u8 where "N_SLINE = 0x44"
definition N_SO :: u8 where "N_SO = 0x64"
definition N_SOL :: u8 where "N_SOL = 0x84"
definition N_PSYM :: u8 where "N_PSYM = 0xa0"

text \<open>Backwards from \<open>m\<close> to the next entry of the type, or below \<open>l\<close>.\<close>

function match_back :: "(int \<Rightarrow> Stab) \<Rightarrow> u8 \<Rightarrow> int \<Rightarrow> int \<Rightarrow> int" where
  "match_back stabs type l m = (if m \<ge> l \<and> n_type (stabs m) \<noteq> type then match_back stabs type l (m - 1) else m)"
  by auto
termination by (relation "measure (\<lambda>(_, _, l, m). nat (m + 1 - l))") auto

declare match_back.simps [simp del]

text \<open>The main loop; \<open>rl\<close> and \<open>rr\<close> are \<open>*region_left\<close> and \<open>*region_right\<close>. \<open>None\<close> is a loop that does
  not end.\<close>

partial_function (option) binsearch_loop ::
  "(int \<Rightarrow> Stab) \<Rightarrow> u8 \<Rightarrow> int \<Rightarrow> int \<Rightarrow> u32 \<Rightarrow> int \<Rightarrow> int \<Rightarrow> bool \<Rightarrow> (int \<times> int \<times> bool) option" where
  "binsearch_loop stabs type l r addr rl rr any_matches =
     (if l \<le> r then
        let true_m = (l + r) sdiv 2; m = match_back stabs type l true_m
        in if m < l then binsearch_loop stabs type (true_m + 1) r addr rl rr any_matches
           else if n_value (stabs m) < addr then binsearch_loop stabs type (true_m + 1) r addr m rr True
           else if n_value (stabs m) > addr then binsearch_loop stabs type l (m - 1) addr rl (m - 1) True
           else binsearch_loop stabs type m r (addr + 1) m rr True
      else Some (rl, rr, any_matches))"

definition stab_binsearch :: "(int \<Rightarrow> Stab) \<Rightarrow> int \<Rightarrow> int \<Rightarrow> u8 \<Rightarrow> u32 \<Rightarrow> (int \<times> int) option" where
  "stab_binsearch stabs region_left region_right type addr =
     map_option (\<lambda>(rl, rr, any_matches).
         if any_matches then (match_back stabs type (rl + 1) rr, rr) else (rl, rl - 1))
       (binsearch_loop stabs type region_left region_right addr region_left region_right False)"

section \<open>Information about an address\<close>

record Eipdebuginfo =
  eip_file :: "u32 option"
  eip_line :: int
  eip_fn_name :: "u32 option"
  eip_fn_namelen :: u32
  eip_fn_addr :: u32
  eip_fn_narg :: int

record UserStabData =
  ustabs :: u32
  ustab_end :: u32
  ustabstr :: u32
  ustabstr_end :: u32

definition USTABDATA :: u32 where "USTABDATA = 0x200000"

text \<open>Memory as the kernel sees it, an entry of 12 bytes at index \<open>i\<close> of the table at \<open>base\<close>.\<close>

definition mem_u32 :: "mem \<Rightarrow> u32 \<Rightarrow> u32" where
  "mem_u32 m a = le32 (\<lambda>i. m (a + of_nat i)) 0"

definition stab_at :: "mem \<Rightarrow> u32 \<Rightarrow> int \<Rightarrow> Stab" where
  "stab_at m base i =
     (let a = base + 12 * of_int i
      in \<lparr>n_strx = mem_u32 m a, n_type = m (a + 4), n_other = m (a + 5),
          n_desc = ucast (m (a + 6)) OR push_bit 8 (ucast (m (a + 7))), n_value = mem_u32 m (a + 8)\<rparr>)"

text \<open>The difference of two pointers to entries.\<close>

definition stab_diff :: "u32 \<Rightarrow> u32 \<Rightarrow> int" where
  "stab_diff stab_end stabs = sint (stab_end - stabs) sdiv 12"

text \<open>The strings of \<open>info\<close> are pointers, \<open>None\<close> the literal \<open><unknown>\<close>.\<close>

definition info_init :: "u32 \<Rightarrow> Eipdebuginfo" where
  "info_init addr = \<lparr>eip_file = None, eip_line = 0, eip_fn_name = None, eip_fn_namelen = 9, eip_fn_addr = addr, eip_fn_narg = 0\<rparr>"

text \<open>Backwards to the stab of the source file, and the parameters of the function.\<close>

function file_back :: "(int \<Rightarrow> Stab) \<Rightarrow> int \<Rightarrow> int \<Rightarrow> int" where
  "file_back stabs lfile lline =
     (if lline \<ge> lfile \<and> n_type (stabs lline) \<noteq> N_SOL \<and> (n_type (stabs lline) \<noteq> N_SO \<or> n_value (stabs lline) = 0)
      then file_back stabs lfile (lline - 1) else lline)"
  by auto
termination by (relation "measure (\<lambda>(_, l, m). nat (m + 1 - l))") auto

function count_args :: "(int \<Rightarrow> Stab) \<Rightarrow> int \<Rightarrow> int \<Rightarrow> int" where
  "count_args stabs rfun lline =
     (if lline < rfun \<and> n_type (stabs lline) = N_PSYM then 1 + count_args stabs rfun (lline + 1) else 0)"
  by auto
termination by (relation "measure (\<lambda>(_, r, l). nat (r - l))") auto

declare file_back.simps [simp del] count_args.simps [simp del]

text \<open>The search once the tables are known; the result says whether the function returns 0.\<close>

definition debuginfo_tables :: "mem \<Rightarrow> u32 \<Rightarrow> u32 \<Rightarrow> u32 \<Rightarrow> u32 \<Rightarrow> u32 \<Rightarrow> (bool \<times> Eipdebuginfo) option" where
  "debuginfo_tables m stabs stab_end stabstr stabstr_end addr =
     (let info = info_init addr; st = stab_at m stabs in
      if stabstr_end \<le> stabstr \<or> m (stabstr_end - 1) \<noteq> 0 then Some (False, info)
      else do {
        (lfile, rfile) \<leftarrow> stab_binsearch st 0 (stab_diff stab_end stabs - 1) N_SO addr;
        if lfile = 0 then Some (False, info)
        else do {
          (lfun, rfun) \<leftarrow> stab_binsearch st lfile rfile N_FUN addr;
          let name = (if lfun \<le> rfun \<and> n_strx (st lfun) < stabstr_end - stabstr then Some (stabstr + n_strx (st lfun)) else None);
          let fn_addr = (if lfun \<le> rfun then n_value (st lfun) else addr);
          let addr2 = (if lfun \<le> rfun then addr - fn_addr else addr);
          let (lline, rline) = (if lfun \<le> rfun then (lfun, rfun) else (lfile, rfile));
          namelen \<leftarrow> (case name of None \<Rightarrow> Some 9 | Some p \<Rightarrow> map_option (\<lambda>q. q - p) (strfind m p 58));
          (lline, rline) \<leftarrow> stab_binsearch st lline rline N_SLINE addr2;
          let line = (if lline \<le> rline then uint (n_desc (st lline)) else 0);
          let lline = file_back st lfile lline;
          let file = (if lline \<ge> lfile \<and> n_strx (st lline) < stabstr_end - stabstr then Some (stabstr + n_strx (st lline)) else None);
          let narg = (if lfun < rfun then count_args st rfun (lfun + 1) else 0);
          Some (True, \<lparr>eip_file = file, eip_line = line, eip_fn_name = name, eip_fn_namelen = namelen,
                       eip_fn_addr = fn_addr, eip_fn_narg = narg\<rparr>) } })"

text \<open>\<open>ks\<close> are the addresses of the tables of the kernel, which the linker sets. The tables of a user
  program are found through the structure at \<open>USTABDATA\<close>, after checks of the memory.\<close>

definition usd_at :: "mem \<Rightarrow> u32 \<Rightarrow> UserStabData" where
  "usd_at m a = \<lparr>ustabs = mem_u32 m a, ustab_end = mem_u32 m (a + 4), ustabstr = mem_u32 m (a + 8), ustabstr_end = mem_u32 m (a + 12)\<rparr>"

definition debuginfo_eip :: "UserStabData \<Rightarrow> mem \<Rightarrow> nat \<Rightarrow> u32 \<Rightarrow> kern \<Rightarrow> ((bool \<times> Eipdebuginfo) \<times> kern) option" where
  "debuginfo_eip ks m c addr s =
     (if addr \<ge> ULIM then
        map_option (\<lambda>r. (r, s)) (debuginfo_tables m (ustabs ks) (ustab_end ks) (ustabstr ks) (ustabstr_end ks) addr)
      else do {
        (r, s1) \<leftarrow> user_mem_check c USTABDATA 16 0 s;
        case r of
          Inl _ \<Rightarrow> Some ((False, info_init addr), s1)
        | Inr _ \<Rightarrow>
            let u = usd_at m USTABDATA in do {
            (r2, s2) \<leftarrow> user_mem_check c (ustabs u) (of_int (stab_diff (ustab_end u) (ustabs u))) 0 s1;
            case r2 of
              Inl _ \<Rightarrow> Some ((False, info_init addr), s2)
            | Inr _ \<Rightarrow> do {
                (r3, s3) \<leftarrow> user_mem_check c (ustabstr u) (ustabstr_end u - ustabstr u) 0 s2;
                case r3 of
                  Inl _ \<Rightarrow> Some ((False, info_init addr), s3)
                | Inr _ \<Rightarrow>
                    map_option (\<lambda>r. (r, s3)) (debuginfo_tables m (ustabs u) (ustab_end u) (ustabstr u) (ustabstr_end u) addr) } } })"

section \<open>One step of the search\<close>

lemma match_back_spec:
  fixes stabs :: "int \<Rightarrow> Stab" and type :: u8
  assumes "l \<le> k + 1"
  defines "m \<equiv> match_back stabs type l k"
  shows "l - 1 \<le> m" and "m \<le> k" and "l \<le> m \<Longrightarrow> n_type (stabs m) = type"
    and "m < i \<Longrightarrow> i \<le> k \<Longrightarrow> n_type (stabs i) \<noteq> type"
proof -
  have "l - 1 \<le> match_back stabs type l k \<and> match_back stabs type l k \<le> k
    \<and> (l \<le> match_back stabs type l k \<longrightarrow> n_type (stabs (match_back stabs type l k)) = type)
    \<and> (\<forall>i. match_back stabs type l k < i \<and> i \<le> k \<longrightarrow> n_type (stabs i) \<noteq> type)"
    using assms(1)
  proof (induction stabs type l k rule: match_back.induct)
    case (1 stabs type l k)
    show ?case
    proof (cases "k \<ge> l \<and> n_type (stabs k) \<noteq> type")
      case True
      then have e: "match_back stabs type l k = match_back stabs type l (k - 1)" by (simp add: match_back.simps [of _ _ l k])
      have "i \<le> k - 1 \<or> i = k" if "i \<le> k" for i :: int using that by linarith
      then show ?thesis using 1 True unfolding e by force
    next
      case False
      then have "match_back stabs type l k = k" by (simp add: match_back.simps)
      then show ?thesis using 1 False by auto
    qed
  qed
  then show "l - 1 \<le> m" "m \<le> k" "l \<le> m \<Longrightarrow> n_type (stabs m) = type"
    "m < i \<Longrightarrow> i \<le> k \<Longrightarrow> n_type (stabs i) \<noteq> type" by (simp_all add: m_def)
qed

lemma middle:
  fixes l r :: int
  assumes "l \<le> r"
  shows "l \<le> (l + r) sdiv 2" and "(l + r) sdiv 2 \<le> r"
proof -
  have "(l + r) sdiv 2 = (if 0 \<le> l + r then (l + r) div 2 else - ((- (l + r)) div 2))"
    by (auto simp: signed_divide_int_def sgn_if)
  then show "l \<le> (l + r) sdiv 2" "(l + r) sdiv 2 \<le> r" using assms by (auto split: if_splits)
qed

text \<open>Total correctness of the loop: an invariant that every step keeps holds at the end, and the loop
  ends. A step that does not shrink the range leaves an entry with another address than the one
  that is searched.\<close>

definition rank :: "(int \<Rightarrow> Stab) \<Rightarrow> u8 \<Rightarrow> int \<Rightarrow> int \<Rightarrow> u32 \<Rightarrow> nat" where
  "rank stabs type l r addr = 2 * nat (r + 1 - l)
     + (if n_value (stabs (match_back stabs type l ((l + r) sdiv 2))) = addr then 1 else 0)"

lemma binsearch_rule:
  fixes stabs :: "int \<Rightarrow> Stab" and type :: u8
  assumes skip: "\<And>l r addr rl rr any. P l r addr rl rr any \<Longrightarrow> l \<le> r \<Longrightarrow>
      (\<And>i. l \<le> i \<Longrightarrow> i \<le> (l + r) sdiv 2 \<Longrightarrow> n_type (stabs i) \<noteq> type) \<Longrightarrow> P ((l + r) sdiv 2 + 1) r addr rl rr any"
    and found: "\<And>l r addr rl rr any m. P l r addr rl rr any \<Longrightarrow> l \<le> m \<Longrightarrow> m \<le> (l + r) sdiv 2 \<Longrightarrow> (l + r) sdiv 2 \<le> r \<Longrightarrow>
      n_type (stabs m) = type \<Longrightarrow> (\<And>i. m < i \<Longrightarrow> i \<le> (l + r) sdiv 2 \<Longrightarrow> n_type (stabs i) \<noteq> type) \<Longrightarrow>
      (n_value (stabs m) < addr \<longrightarrow> P ((l + r) sdiv 2 + 1) r addr m rr True)
      \<and> (n_value (stabs m) > addr \<longrightarrow> P l (m - 1) addr rl (m - 1) True)
      \<and> (n_value (stabs m) = addr \<longrightarrow> P m r (addr + 1) m rr True)"
    and exit: "\<And>l r addr rl rr any. P l r addr rl rr any \<Longrightarrow> r < l \<Longrightarrow> Q rl rr any"
  shows "P l r addr rl rr any \<Longrightarrow> \<exists>rl' rr' any'. binsearch_loop stabs type l r addr rl rr any = Some (rl', rr', any') \<and> Q rl' rr' any'"
proof (induction "rank stabs type l r addr" arbitrary: l r addr rl rr any rule: less_induct)
  case less
  note unfold = binsearch_loop.simps [of stabs type l r addr rl rr any]
  show ?case
  proof (cases "l \<le> r")
    case False
    then show ?thesis using exit [OF less.prems] unfold by simp
  next
    case True
    let ?t = "(l + r) sdiv 2" let ?m = "match_back stabs type l ?t"
    note mid = middle [OF True]
    have lt: "l \<le> ?t + 1" using mid by simp
    note mb = match_back_spec [OF lt, where stabs = stabs and type = type]
    have smaller: "rank stabs type l' r' addr' < rank stabs type l r addr" if "r' - l' < r - l" "l' \<le> r' + 1" for l' r' addr'
      using that True by (auto simp: rank_def)
    show ?thesis
    proof (cases "?m < l")
      case m: True
      have "P (?t + 1) r addr rl rr any" using skip [OF less.prems True] mb(4) m by simp
      moreover have "rank stabs type (?t + 1) r addr < rank stabs type l r addr" using mid by (intro smaller) auto
      ultimately show ?thesis using less.hyps m True unfold by (simp add: Let_def)
    next
      case False
      then have m: "l \<le> ?m" by simp
      note f = found [OF less.prems m mb(2) mid(2) mb(3) [OF m] mb(4)]
      consider "n_value (stabs ?m) < addr" | "n_value (stabs ?m) > addr" | "n_value (stabs ?m) = addr" by fastforce
      then show ?thesis
      proof cases
        case 1
        moreover have "rank stabs type (?t + 1) r addr < rank stabs type l r addr" using mid by (intro smaller) auto
        ultimately show ?thesis using less.hyps f m True unfold by (simp add: Let_def)
      next
        case 2
        moreover have "rank stabs type l (?m - 1) addr < rank stabs type l r addr" using mid mb(2) m by (intro smaller) auto
        ultimately show ?thesis using less.hyps f m True unfold by (auto simp: Let_def)
      next
        case 3
        have "rank stabs type ?m r (addr + 1) < rank stabs type l r addr"
        proof (cases "?m = l")
          case True
          then show ?thesis using 3 by (simp add: rank_def)
        next
          case False
          then show ?thesis using mb(2) mid m by (intro smaller) auto
        qed
        then show ?thesis using less.hyps f 3 m True unfold by (simp add: Let_def)
      qed
    qed
  qed
qed

section \<open>What the search finds\<close>

definition stab_matches :: "(int \<Rightarrow> Stab) \<Rightarrow> u8 \<Rightarrow> int \<Rightarrow> int \<Rightarrow> int set" where
  "stab_matches stabs type L R = {i. L \<le> i \<and> i \<le> R \<and> n_type (stabs i) = type}"

text \<open>The invariant of the search for \<open>a\<close>: entries left of \<open>l\<close> are at or below \<open>a\<close> and those right of
  \<open>r\<close> above it; \<open>rl\<close> is the last entry left of \<open>l\<close>, or an exact match at \<open>l\<close>.\<close>

definition binsearch_inv :: "(int \<Rightarrow> Stab) \<Rightarrow> int set \<Rightarrow> int \<Rightarrow> int \<Rightarrow> u32 \<Rightarrow> int \<Rightarrow> int \<Rightarrow> u32 \<Rightarrow> int \<Rightarrow> int \<Rightarrow> bool \<Rightarrow> bool" where
  "binsearch_inv stabs M L R a l r b rl rr any \<longleftrightarrow> L \<le> l \<and> r \<le> R \<and> l \<le> r + 1 \<and> rr = r \<and> (r = R \<or> r + 1 \<in> M)
     \<and> (\<forall>i\<in>M. i < l \<longrightarrow> n_value (stabs i) \<le> a) \<and> (\<forall>i\<in>M. r < i \<longrightarrow> a < n_value (stabs i))
     \<and> (\<not> any \<longrightarrow> (\<forall>i\<in>M. l \<le> i) \<and> r = R) \<and> (any \<longrightarrow> M \<noteq> {})
     \<and> (rl = L \<and> (\<forall>i\<in>M. l \<le> i) \<and> b = a
        \<or> rl \<in> M \<and> rl < l \<and> (\<forall>i\<in>M. i < l \<longrightarrow> i \<le> rl) \<and> (b = a \<or> b = a + 1 \<and> (\<exists>i\<in>M. n_value (stabs i) = a))
        \<or> rl = l \<and> l \<in> M \<and> n_value (stabs l) = a \<and> b = a + 1)"

definition binsearch_post :: "(int \<Rightarrow> Stab) \<Rightarrow> int set \<Rightarrow> int \<Rightarrow> int \<Rightarrow> u32 \<Rightarrow> int \<Rightarrow> int \<Rightarrow> bool \<Rightarrow> bool" where
  "binsearch_post stabs M L R a rl rr any \<longleftrightarrow> (any \<longleftrightarrow> M \<noteq> {}) \<and> L - 1 \<le> rr \<and> (rr = R \<or> rr + 1 \<in> M)
     \<and> (\<forall>i\<in>M. n_value (stabs i) \<le> a \<longleftrightarrow> i \<le> rr)
     \<and> (rl = L \<and> (\<forall>i\<in>M. rr < i) \<or> rl \<in> M \<and> rl \<le> rr \<and> (\<forall>i\<in>M. i \<le> rr \<longrightarrow> i \<le> rl))"

lemma binsearch_inv_start: "L \<le> R \<Longrightarrow> binsearch_inv stabs (stab_matches stabs type L R) L R a L R a L R False"
  by (auto simp: binsearch_inv_def stab_matches_def)

lemma binsearch_inv_skip:
  assumes inv: "binsearch_inv stabs M L R a l r b rl rr any" and t: "l \<le> t" "t \<le> r" and none: "\<And>i. l \<le> i \<Longrightarrow> i \<le> t \<Longrightarrow> i \<notin> M"
  shows "binsearch_inv stabs M L R a (t + 1) r b rl rr any"
proof -
  have "i < t + 1 \<longleftrightarrow> i < l" "t + 1 \<le> i \<longleftrightarrow> l \<le> i" if "i \<in> M" for i using none [of i] that t by force+
  moreover have "l \<notin> M" using none [of l] t by simp
  ultimately show ?thesis using inv t unfolding binsearch_inv_def by auto
qed

lemma binsearch_inv_exit:
  assumes inv: "binsearch_inv stabs (stab_matches stabs type L R) L R a l r b rl rr any" and "r < l"
  shows "binsearch_post stabs (stab_matches stabs type L R) L R a rl rr any"
proof -
  let ?M = "stab_matches stabs type L R"
  have l: "l = r + 1" using inv \<open>r < l\<close> unfolding binsearch_inv_def by linarith
  have a: "rr = r" "L \<le> r + 1" "r = R \<or> r + 1 \<in> ?M" "any \<longrightarrow> ?M \<noteq> {}" using inv unfolding l binsearch_inv_def by auto
  have le: "n_value (stabs i) \<le> a \<longleftrightarrow> i \<le> r" if "i \<in> ?M" for i
    using inv that unfolding l binsearch_inv_def by (metis linorder_not_less zle_add1_eq_le)
  have "\<not> (r + 1 \<in> ?M \<and> n_value (stabs (r + 1)) = a)" using le [of "r + 1"] by auto
  then have d: "rl = L \<and> (\<forall>i\<in>?M. r + 1 \<le> i) \<or> rl \<in> ?M \<and> rl < r + 1 \<and> (\<forall>i\<in>?M. i < r + 1 \<longrightarrow> i \<le> rl)"
    using inv unfolding l binsearch_inv_def by blast
  have "?M = {}" if "\<not> any"
  proof -
    have "(\<forall>i\<in>?M. R + 1 \<le> i)" using inv that unfolding l binsearch_inv_def by auto
    then show ?thesis by (fastforce simp: stab_matches_def)
  qed
  then show ?thesis using a le d unfolding binsearch_post_def by auto
qed

lemma binsearch_inv_step:
  assumes inv: "binsearch_inv stabs M L R a l r b rl rr any" and m: "l \<le> m" "m \<le> t" "t \<le> r" "m \<in> M"
    and none: "\<And>i. m < i \<Longrightarrow> i \<le> t \<Longrightarrow> i \<notin> M"
    and sorted: "\<And>i j. i \<in> M \<Longrightarrow> j \<in> M \<Longrightarrow> i \<le> j \<Longrightarrow> n_value (stabs i) \<le> n_value (stabs j)"
    and gap: "a \<noteq> - 1" "\<And>i j. i \<in> M \<Longrightarrow> j \<in> M \<Longrightarrow> n_value (stabs i) = a \<Longrightarrow> n_value (stabs j) \<noteq> a + 1"
  shows "n_value (stabs m) < b \<Longrightarrow> binsearch_inv stabs M L R a (t + 1) r b m rr True"
    and "n_value (stabs m) > b \<Longrightarrow> binsearch_inv stabs M L R a l (m - 1) b rl (m - 1) True"
    and "n_value (stabs m) = b \<Longrightarrow> binsearch_inv stabs M L R a m r (b + 1) m rr True"
proof -
  have b: "b = a \<or> b = a + 1 \<and> (\<exists>i\<in>M. n_value (stabs i) = a)" using inv unfolding binsearch_inv_def by blast
  have "1 + a \<noteq> 0" using gap(1) by (simp add: add_eq_0_iff)
  then have suc: "v < a + 1 \<longleftrightarrow> v \<le> a" for v :: u32
    by (simp add: word_less_nat_alt word_le_nat_alt unatSuc add.commute [of a] less_Suc_eq_le)
  show "binsearch_inv stabs M L R a (t + 1) r b m rr True" if lt: "n_value (stabs m) < b"
  proof -
    have v: "n_value (stabs m) \<le> a" using b suc [of "n_value (stabs m)"] lt by (metis less_imp_le)
    have le: "i \<le> m" if "i \<in> M" "i < t + 1" for i using none [of i] that by force
    then have "n_value (stabs i) \<le> a" if "i \<in> M" "i < t + 1" for i using sorted [of i m] m(4) v that by force
    then show ?thesis using inv m le b unfolding binsearch_inv_def by auto
  qed
  show "binsearch_inv stabs M L R a l (m - 1) b rl (m - 1) True" if gt: "n_value (stabs m) > b"
  proof -
    have v: "a < n_value (stabs m)" using b suc [of a] gt by (metis less_trans order_refl)
    then have "a < n_value (stabs i)" if "i \<in> M" "m - 1 < i" for i using sorted [of m i] m(4) that by force
    then show ?thesis using inv m unfolding binsearch_inv_def by auto
  qed
  show "binsearch_inv stabs M L R a m r (b + 1) m rr True" if eq: "n_value (stabs m) = b"
  proof -
    have v: "b = a" using b eq gap(2) m(4) by blast
    then have "n_value (stabs i) \<le> a" if "i \<in> M" "i < m" for i using sorted [of i m] m(4) eq that by force
    then show ?thesis using inv m eq v unfolding binsearch_inv_def by auto
  qed
qed

lemma binsearch_finds:
  fixes L R :: int and stabs :: "int \<Rightarrow> Stab" and type :: u8
  defines "M \<equiv> stab_matches stabs type L R"
  assumes LR: "L \<le> R"
    and sorted: "\<And>i j. i \<in> M \<Longrightarrow> j \<in> M \<Longrightarrow> i \<le> j \<Longrightarrow> n_value (stabs i) \<le> n_value (stabs j)"
    and gap: "a \<noteq> - 1" "\<And>i j. i \<in> M \<Longrightarrow> j \<in> M \<Longrightarrow> n_value (stabs i) = a \<Longrightarrow> n_value (stabs j) \<noteq> a + 1"
  shows "\<exists>rl rr any. binsearch_loop stabs type L R a L R False = Some (rl, rr, any) \<and> binsearch_post stabs M L R a rl rr any"
proof (rule binsearch_rule [where P = "binsearch_inv stabs M L R a"])
  show "binsearch_inv stabs M L R a L R a L R False" using binsearch_inv_start [OF LR] by (simp add: M_def)
next
  fix l r b rl rr any assume inv: "binsearch_inv stabs M L R a l r b rl rr any" and "l \<le> r"
    and none: "\<And>i. l \<le> i \<Longrightarrow> i \<le> (l + r) sdiv 2 \<Longrightarrow> n_type (stabs i) \<noteq> type"
  then show "binsearch_inv stabs M L R a ((l + r) sdiv 2 + 1) r b rl rr any"
    by (intro binsearch_inv_skip [OF inv middle]) (auto simp: M_def stab_matches_def)
next
  fix l r b rl rr any assume "binsearch_inv stabs M L R a l r b rl rr any" and "r < l"
  then show "binsearch_post stabs M L R a rl rr any" unfolding M_def by (rule binsearch_inv_exit)
next
  fix l r b rl rr any m assume inv: "binsearch_inv stabs M L R a l r b rl rr any" and m: "l \<le> m" "m \<le> (l + r) sdiv 2" "(l + r) sdiv 2 \<le> r"
    "n_type (stabs m) = type" and none: "\<And>i. m < i \<Longrightarrow> i \<le> (l + r) sdiv 2 \<Longrightarrow> n_type (stabs i) \<noteq> type"
  have "m \<in> M" "\<And>i. m < i \<Longrightarrow> i \<le> (l + r) sdiv 2 \<Longrightarrow> i \<notin> M"
    using inv m none by (auto simp: M_def stab_matches_def binsearch_inv_def)
  then show "(n_value (stabs m) < b \<longrightarrow> binsearch_inv stabs M L R a ((l + r) sdiv 2 + 1) r b m rr True)
    \<and> (n_value (stabs m) > b \<longrightarrow> binsearch_inv stabs M L R a l (m - 1) b rl (m - 1) True)
    \<and> (n_value (stabs m) = b \<longrightarrow> binsearch_inv stabs M L R a m r (b + 1) m rr True)"
    by (intro conjI impI binsearch_inv_step [OF inv m(1-3) _ _ sorted gap])
qed

definition stab_bracket :: "(int \<Rightarrow> Stab) \<Rightarrow> u8 \<Rightarrow> int \<Rightarrow> int \<Rightarrow> u32 \<Rightarrow> int \<times> int" where
  "stab_bracket stabs type L R a =
     (let M = stab_matches stabs type L R; below = {i \<in> M. n_value (stabs i) \<le> a}; above = {i \<in> M. a < n_value (stabs i)};
          right = (if M = {} then L - 1 else if above = {} then R else Min above - 1)
      in (if M = {} then L else if below = {} then min L right else Max below, right))"

lemma finite_matches: "finite (stab_matches stabs type L R)"
  by (rule finite_subset [of _ "{L..R}"]) (auto simp: stab_matches_def)

lemma post_bracket:
  fixes L R :: int and stabs :: "int \<Rightarrow> Stab" and type :: u8
  defines "M \<equiv> stab_matches stabs type L R"
  assumes post: "binsearch_post stabs M L R a rl rr any"
  shows "(if any then (match_back stabs type (rl + 1) rr, rr) else (rl, rl - 1)) = stab_bracket stabs type L R a"
proof (cases "M = {}")
  case True
  then show ?thesis using post unfolding stab_bracket_def binsearch_post_def M_def [symmetric] by (simp add: Let_def)
next
  case False
  let ?below = "{i \<in> M. n_value (stabs i) \<le> a}" and ?above = "{i \<in> M. a < n_value (stabs i)}"
  have fin: "finite M" unfolding M_def by (rule finite_matches)
  have any: any and le: "\<And>i. i \<in> M \<Longrightarrow> n_value (stabs i) \<le> a \<longleftrightarrow> i \<le> rr" and rr: "L - 1 \<le> rr" "rr = R \<or> rr + 1 \<in> M"
    and rl: "rl = L \<and> (\<forall>i\<in>M. rr < i) \<or> rl \<in> M \<and> rl \<le> rr \<and> (\<forall>i\<in>M. i \<le> rr \<longrightarrow> i \<le> rl)"
    using post False unfolding binsearch_post_def by auto
  have sets: "?below = {i \<in> M. i \<le> rr}" "?above = {i \<in> M. rr < i}" using le by (auto simp flip: not_le)
  have in_M: "i \<in> M \<longleftrightarrow> L \<le> i \<and> i \<le> R \<and> n_type (stabs i) = type" for i by (simp add: M_def stab_matches_def)
  have right: "(if ?above = {} then R else Min ?above - 1) = rr"
  proof (cases "?above = {}")
    case True
    then show ?thesis using rr(2) unfolding sets by auto
  next
    case False
    then have "rr + 1 \<in> M" using rr(2) unfolding sets by (auto simp: in_M)
    then have "Min ?above = rr + 1" unfolding sets using fin by (intro Min_eqI) auto
    then show ?thesis using False by auto
  qed
  have R: "rr \<le> R" using rr(2) by (auto simp: in_M)
  have none: "match_back stabs type (rl + 1) rr = rl" if "rl \<le> rr" "L \<le> rl" "\<And>i. i \<in> M \<Longrightarrow> i \<le> rr \<Longrightarrow> i \<le> rl"
  proof -
    have "rl + 1 \<le> rr + 1" using that by simp
    note mb = match_back_spec [OF this, of stabs type]
    show ?thesis
    proof (rule ccontr)
      assume "match_back stabs type (rl + 1) rr \<noteq> rl"
      then have m: "rl + 1 \<le> match_back stabs type (rl + 1) rr" using mb(1) by simp
      then have "match_back stabs type (rl + 1) rr \<in> M" using mb(2) mb(3) [OF m] that(2) R by (simp add: in_M)
      then show False using that(3) mb(2) m by force
    qed
  qed
  have left: "match_back stabs type (rl + 1) rr = (if ?below = {} then min L rr else Max ?below)"
  proof (cases "?below = {}")
    case True
    then have "rl = L" "\<And>i. i \<in> M \<Longrightarrow> \<not> i \<le> rr" using rl unfolding sets by auto
    then show ?thesis using none True rr(1) by (cases "L \<le> rr") (auto simp: match_back.simps)
  next
    case False
    then have l: "rl \<in> M" "rl \<le> rr" "\<And>i. i \<in> M \<Longrightarrow> i \<le> rr \<Longrightarrow> i \<le> rl" using rl unfolding sets by auto
    then have "Max ?below = rl" unfolding sets using fin by (intro Max_eqI) auto
    then show ?thesis using none [OF l(2) _ l(3)] l(1) False by (auto simp: in_M)
  qed
  show ?thesis
    unfolding stab_bracket_def M_def [symmetric] Let_def using any right left False by (simp only: if_True if_False simp_thms)
qed

section \<open>Properties\<close>

text \<open>C24. The binary search ends for every table, sorted or not, every range and every address,
  although an exact match does not shrink the range.\<close>

theorem stab_binsearch_terminates: "\<exists>l r. stab_binsearch stabs L R type addr = Some (l, r)"
proof -
  obtain rl rr any where "binsearch_loop stabs type L R addr L R False = Some (rl, rr, any)"
    using binsearch_rule [where P = "\<lambda>_ _ _ _ _ _. True" and Q = "\<lambda>_ _ _. True" and stabs = stabs and type = type] by blast
  then show ?thesis by (cases any) (simp_all add: stab_binsearch_def)
qed

text \<open>In a table whose entries of the type are in the order of their addresses, the search
  returns the bracket of the address; when all entries of the type are above the address this is the start of the range
  and the index before the first of them (or twice this index when it is smaller).\<close>

lemma stab_binsearch_brackets:
  assumes "L \<le> R"
    and "\<forall>i\<in>stab_matches stabs type L R. \<forall>j\<in>stab_matches stabs type L R. i \<le> j \<longrightarrow> n_value (stabs i) \<le> n_value (stabs j)"
    and "addr \<noteq> - 1"
    and "\<forall>i\<in>stab_matches stabs type L R. \<forall>j\<in>stab_matches stabs type L R. n_value (stabs i) = addr \<longrightarrow> n_value (stabs j) \<noteq> addr + 1"
  shows "stab_binsearch stabs L R type addr = Some (stab_bracket stabs type L R addr)"
proof -
  obtain rl rr any where r: "binsearch_loop stabs type L R addr L R False = Some (rl, rr, any)"
    "binsearch_post stabs (stab_matches stabs type L R) L R addr rl rr any"
    using binsearch_finds [of L R stabs type addr] assms by blast
  show ?thesis using r(1) post_bracket [OF r(2)] by (simp add: stab_binsearch_def)
qed

text \<open>C14. In a table whose entries of the type are in the order of their addresses, one of them at or below the address, the search
  returns the last entry at or below the address and, as right end, the index before the next entry of the type or the end of the range; without
  any entry of the type the right end is before the left one. It relies on no entry of the type being one above an
  exact match, and on the address not being the largest one.\<close>

theorem stab_binsearch_exact:
  assumes "L \<le> R" and M: "M = stab_matches stabs type L R"
    and sorted: "\<forall>i\<in>M. \<forall>j\<in>M. i \<le> j \<longrightarrow> n_value (stabs i) \<le> n_value (stabs j)"
    and "addr \<noteq> - 1" and "\<forall>i\<in>M. \<forall>j\<in>M. n_value (stabs i) = addr \<longrightarrow> n_value (stabs j) \<noteq> addr + 1"
    and below: "M = {} \<or> (\<exists>i\<in>M. n_value (stabs i) \<le> addr)"
  shows "\<exists>l r. stab_binsearch stabs L R type addr = Some (l, r)
    \<and> (if M = {} then r < l
       else l \<in> M \<and> n_value (stabs l) \<le> addr \<and> (\<forall>j\<in>M. n_value (stabs j) \<le> addr \<longrightarrow> j \<le> l)
         \<and> l \<le> r \<and> (\<forall>j\<in>M. addr < n_value (stabs j) \<longrightarrow> r < j)
         \<and> (r = R \<or> r + 1 \<in> M \<and> addr < n_value (stabs (r + 1))))"
proof -
  let ?b = "{i \<in> M. n_value (stabs i) \<le> addr}" and ?a = "{i \<in> M. addr < n_value (stabs i)}"
  have s: "stab_binsearch stabs L R type addr = Some (stab_bracket stabs type L R addr)"
    by (rule stab_binsearch_brackets) (use assms in auto)
  show ?thesis
  proof (cases "M = {}")
    case True
    then show ?thesis using s by (simp add: stab_bracket_def M [symmetric] Let_def)
  next
    case False
    have fin: "finite M" unfolding M by (rule finite_matches)
    have ne: "?b \<noteq> {}" using below False by auto
    define r where "r = (if ?a = {} then R else Min ?a - 1)"
    have e: "stab_bracket stabs type L R addr = (Max ?b, r)" using False ne unfolding stab_bracket_def M [symmetric] Let_def r_def by auto
    have l: "Max ?b \<in> ?b" by (rule Max_in) (use fin ne in auto)
    have lj: "j \<le> Max ?b" if "j \<in> M" "n_value (stabs j) \<le> addr" for j by (rule Max_ge) (use fin that in auto)
    have aM: "Min ?a \<in> ?a" if "?a \<noteq> {}" by (rule Min_in) (use fin that in auto)
    have ra: "r < j" if "j \<in> M" "addr < n_value (stabs j)" for j
    proof -
      have "Min ?a \<le> j" "?a \<noteq> {}" using Min_le [of ?a j] fin that by auto
      then show ?thesis unfolding r_def by (simp only: if_False)
    qed
    have rR: "r = R \<or> r + 1 \<in> M \<and> addr < n_value (stabs (r + 1))" using aM by (auto simp: r_def)
    have "Max ?b \<le> r"
    proof (cases "?a = {}")
      case True
      then show ?thesis using l by (simp add: r_def M stab_matches_def)
    next
      case False
      have "\<not> Min ?a \<le> Max ?b" 
      proof
        assume "Min ?a \<le> Max ?b"
        then have "n_value (stabs (Min ?a)) \<le> n_value (stabs (Max ?b))" using aM [OF False] l sorted by blast
        then show False using aM [OF False] l by auto
      qed
      then show ?thesis unfolding r_def if_not_P [OF False] by linarith
    qed
    then show ?thesis using False s l lj ra rR unfolding e by auto
  qed
qed

text \<open>A sample: the source files of the comment of the function, at the indices 0, 13, 117, 118, 555,
  556 and 657.\<close>

definition sample_stabs :: "int \<Rightarrow> Stab" where
  "sample_stabs i =
     (let so = (\<lambda>v. \<lparr>n_strx = 0, n_type = N_SO, n_other = 0, n_desc = 0, n_value = v\<rparr>)
      in if i = 0 then so 0xf0100000 else if i = 13 then so 0xf0100040 else if i = 117 then so 0xf0100176
         else if i = 118 then so 0xf0100178 else if i = 555 then so 0xf0100652 else if i = 556 then so 0xf0100654
         else if i = 657 then so 0xf0100849
         else \<lparr>n_strx = 0, n_type = 0, n_other = 0, n_desc = 0, n_value = 0\<rparr>)"

lemma sample_stab_matches: "stab_matches sample_stabs N_SO 0 657 = {0, 13, 117, 118, 555, 556, 657}"
  by (auto simp: stab_matches_def sample_stabs_def N_SO_def Let_def split: if_splits)

theorem stab_binsearch_exact_witness:
  "stab_binsearch sample_stabs 0 657 N_SO 0xf0100184 = Some (118, 554)"
proof -
  let ?M = "{0, 13, 117, 118, 555, 556, 657} :: int set"
  have v: "n_value (sample_stabs j) \<le> 0xf0100184 \<longleftrightarrow> j \<le> 118" if "j \<in> ?M" for j using that by (auto simp: sample_stabs_def Let_def)
  obtain l r where lr: "stab_binsearch sample_stabs 0 657 N_SO 0xf0100184 = Some (l, r)" "l \<in> ?M" "n_value (sample_stabs l) \<le> 0xf0100184"
    "\<forall>j\<in>?M. n_value (sample_stabs j) \<le> 0xf0100184 \<longrightarrow> j \<le> l" "l \<le> r" "\<forall>j\<in>?M. 0xf0100184 < n_value (sample_stabs j) \<longrightarrow> r < j"
    "r = 657 \<or> r + 1 \<in> ?M \<and> 0xf0100184 < n_value (sample_stabs (r + 1))"
    using stab_binsearch_exact [of 0 657 ?M sample_stabs N_SO "0xf0100184"] by (auto simp: sample_stab_matches sample_stabs_def Let_def)
  have l: "l = 118" using lr(2-4) v by force
  have "r < 555" using lr(6) v [of 555] by (simp add: not_le)
  moreover have "r + 1 \<in> ?M" "\<not> r + 1 \<le> 118" using lr(7) v [of "r + 1"] calculation by (auto simp flip: not_le)
  ultimately show ?thesis using lr(1) l by auto
qed

text \<open>With two entries at adjacent addresses, the search for the first returns the second.\<close>

lemma stab_binsearch_adjacent:
  "stab_binsearch (\<lambda>i. \<lparr>n_strx = 0, n_type = N_SLINE, n_other = 0, n_desc = 0, n_value = of_int i\<rparr>) 0 1 N_SLINE 0 = Some (1, 1)"
  by (simp add: stab_binsearch_def binsearch_loop.simps match_back.simps Let_def signed_divide_int_def)

end
