(* ===== verification/Pipe.thy ===== *)
theory Pipe
  imports Console
begin

text \<open>
  Pipes (\<open>lib/pipe.c\<close>). Reader and writer are two environments that share the page of the pipe
  structure and may be preempted between any two statements: the test of the positions, the transfer of
  the byte and the increment of the position are three separate steps, each of which reads or writes at
  most one variable that the other environment writes. A run of the two is a sequence of such steps in
  any order. A store followed by its increment is a second instance of \<open>byte_queue\<close>.
\<close>

section \<open>The pipe\<close>

definition PIPEBUFSIZ :: nat where
  "PIPEBUFSIZ = 32"

record Pipe =
  p_rpos :: u32
  p_wpos :: u32
  p_buf :: "nat \<Rightarrow> u8"

text \<open>Positions are of type \<open>off_t\<close>, a signed 32-bit integer; the remainder of a negative
  position is a negative index. The steps below stop at a negative position.\<close>

definition pipe_index :: "u32 \<Rightarrow> nat" where
  "pipe_index pos = unat (pos mod of_nat PIPEBUFSIZ)"

definition pipe_store :: "u8 \<Rightarrow> Pipe \<Rightarrow> Pipe" where
  "pipe_store b p = p\<lparr>p_buf := (p_buf p)(pipe_index (p_wpos p) := b)\<rparr>"

definition pipe_load :: "Pipe \<Rightarrow> u8" where
  "pipe_load p = p_buf p (pipe_index (p_rpos p))"

definition wpos_inc :: "Pipe \<Rightarrow> Pipe" where "wpos_inc p = p\<lparr>p_wpos := p_wpos p + 1\<rparr>"
definition rpos_inc :: "Pipe \<Rightarrow> Pipe" where "rpos_inc p = p\<lparr>p_rpos := p_rpos p + 1\<rparr>"

definition pipe_put :: "u8 \<Rightarrow> Pipe \<Rightarrow> Pipe" where
  "pipe_put b p = wpos_inc (pipe_store b p)"

definition pipe_take :: "Pipe \<Rightarrow> u8 \<times> Pipe" where
  "pipe_take p = (pipe_load p, rpos_inc p)"

lemmas pipe_moves = pipe_put_def pipe_take_def pipe_store_def pipe_load_def wpos_inc_def rpos_inc_def

definition pipe_empty :: "Pipe \<Rightarrow> bool" where
  "pipe_empty p \<longleftrightarrow> p_rpos p = p_wpos p"

definition pipe_full :: "Pipe \<Rightarrow> bool" where
  "pipe_full p \<longleftrightarrow> p_wpos p \<ge> p_rpos p + of_nat PIPEBUFSIZ"

section \<open>Reading and writing\<close>

text \<open>Where an environment is in its loop: before the test, before the transfer, before the increment, or
  back from the call with a result. A negative index is an error.\<close>

datatype pipe_pc = At_Test | At_Move | At_Inc | Returned nat | Bad_Index

record Writer =
  w_pc :: pipe_pc
  w_i :: nat

record Reader =
  r_pc :: pipe_pc
  r_i :: nat
  r_buf :: "nat \<Rightarrow> u8"

text \<open>One statement of \<open>devpipe_read\<close> for \<open>n\<close> bytes and of \<open>devpipe_write\<close>; \<open>closed\<close> is what \<open>_pipeisclosed\<close>
  answers. After \<open>sys_yield\<close> the test is made again.\<close>

definition devpipe_read :: "bool \<Rightarrow> nat \<Rightarrow> Reader \<times> Pipe \<Rightarrow> Reader \<times> Pipe" where
  "devpipe_read closed n = (\<lambda>(r, p). case r_pc r of
       At_Test \<Rightarrow>
         if n \<le> r_i r then (r\<lparr>r_pc := Returned (r_i r)\<rparr>, p)
         else if pipe_empty p then
           (if r_i r > 0 then (r\<lparr>r_pc := Returned (r_i r)\<rparr>, p)
            else if closed then (r\<lparr>r_pc := Returned 0\<rparr>, p)
            else (r, p))
         else (r\<lparr>r_pc := At_Move\<rparr>, p)
     | At_Move \<Rightarrow>
         if sint (p_rpos p) < 0 then (r\<lparr>r_pc := Bad_Index\<rparr>, p)
         else (r\<lparr>r_pc := At_Inc, r_buf := (r_buf r)(r_i r := pipe_load p)\<rparr>, p)
     | At_Inc \<Rightarrow> (r\<lparr>r_pc := At_Test, r_i := r_i r + 1\<rparr>, rpos_inc p)
     | _ \<Rightarrow> (r, p))"

definition devpipe_write :: "bool \<Rightarrow> u8 list \<Rightarrow> Writer \<times> Pipe \<Rightarrow> Writer \<times> Pipe" where
  "devpipe_write closed buf = (\<lambda>(w, p). case w_pc w of
       At_Test \<Rightarrow>
         if length buf \<le> w_i w then (w\<lparr>w_pc := Returned (w_i w)\<rparr>, p)
         else if pipe_full p then (if closed then (w\<lparr>w_pc := Returned 0\<rparr>, p) else (w, p))
         else (w\<lparr>w_pc := At_Move\<rparr>, p)
     | At_Move \<Rightarrow>
         if sint (p_wpos p) < 0 then (w\<lparr>w_pc := Bad_Index\<rparr>, p)
         else (w\<lparr>w_pc := At_Inc\<rparr>, pipe_store (buf ! w_i w) p)
     | At_Inc \<Rightarrow> (w\<lparr>w_pc := At_Test, w_i := w_i w + 1\<rparr>, wpos_inc p)
     | _ \<Rightarrow> (w, p))"

text \<open>\<open>_pipeisclosed\<close> on what it observes in each round: \<open>env_runs\<close>, the reference counts of
  the descriptor page and of the pipe page, and \<open>env_runs\<close> again.\<close>

fun pipeisclosed :: "(u32 \<times> u16 \<times> u16 \<times> u32) list \<Rightarrow> bool option" where
  "pipeisclosed [] = None"
| "pipeisclosed ((n, ref_fd, ref_p, nn) # rest) =
     (if n = nn then Some (ref_fd = ref_p) else pipeisclosed rest)"

definition devpipe_stat_size :: "Pipe \<Rightarrow> u32" where
  "devpipe_stat_size p = p_wpos p - p_rpos p"

section \<open>The buffer is a queue\<close>

definition pipe_ok :: "Pipe \<Rightarrow> bool" where
  "pipe_ok p \<longleftrightarrow> unat (p_wpos p - p_rpos p) \<le> PIPEBUFSIZ"

definition pipe_contents :: "Pipe \<Rightarrow> u8 list" where
  "pipe_contents p = map (\<lambda>i. p_buf p (pipe_index (p_rpos p + of_nat i))) [0..<unat (p_wpos p - p_rpos p)]"

lemma pipe_index_add: "pipe_index (r + of_nat i) = (unat r + i) mod PIPEBUFSIZ"
proof -
  have "unat (r + of_nat i) mod 32 = (unat r + i) mod 32"
    by (simp add: unat_word_ariths unat_of_nat mod_mod_cancel mod_add_right_eq)
  then show ?thesis by (simp add: pipe_index_def PIPEBUFSIZ_def unat_mod_distrib)
qed

lemma pipe_index_distinct:
  assumes "i < j" and "j < i + PIPEBUFSIZ"
  shows "pipe_index (r + of_nat i) \<noteq> pipe_index (r + of_nat j)"
proof
  assume "pipe_index (r + of_nat i) = pipe_index (r + of_nat j)"
  then have "(unat r + i) mod 32 = (unat r + j) mod 32" by (simp add: pipe_index_add PIPEBUFSIZ_def)
  then have "(32 :: nat) dvd (unat r + j) - (unat r + i)" using assms(1) by (intro mod_eq_dvd_iff_nat [THEN iffD1]) simp_all
  with assms show False by (auto simp: PIPEBUFSIZ_def dest: dvd_imp_le)
qed

lemma pipe_wpos: "p_wpos p = p_rpos p + of_nat (unat (p_wpos p - p_rpos p))"
  by simp

lemma unat_Suc_u32: "unat (x :: u32) < 4294967295 \<Longrightarrow> unat (x + 1) = Suc (unat x)"
  by (simp add: unat_word_ariths)

lemma pipe_put_queue:
  assumes "pipe_ok p" and "length (pipe_contents p) < PIPEBUFSIZ"
  shows "pipe_ok (pipe_put b p)" and "pipe_contents (pipe_put b p) = pipe_contents p @ [b]"
proof -
  let ?k = "unat (p_wpos p - p_rpos p)"
  have k: "?k < 32" using assms(2) by (simp add: pipe_contents_def PIPEBUFSIZ_def)
  have "p_wpos (pipe_put b p) - p_rpos (pipe_put b p) = (p_wpos p - p_rpos p) + 1" by (simp add: pipe_moves)
  then have k': "unat (p_wpos (pipe_put b p) - p_rpos (pipe_put b p)) = Suc ?k"
    using k unat_Suc_u32 [of "p_wpos p - p_rpos p"] by (simp only:)
  then show "pipe_ok (pipe_put b p)" using k by (simp add: pipe_ok_def PIPEBUFSIZ_def)
  have w: "pipe_index (p_wpos p) = pipe_index (p_rpos p + of_nat ?k)" by simp
  have ne: "pipe_index (p_rpos p + of_nat i) \<noteq> pipe_index (p_wpos p)" if "i < ?k" for i
    unfolding w using that k by (intro pipe_index_distinct) (simp_all add: PIPEBUFSIZ_def)
  show "pipe_contents (pipe_put b p) = pipe_contents p @ [b]"
    unfolding pipe_contents_def k' using ne by (auto simp: pipe_moves)
qed

lemma pipe_take_queue:
  assumes "pipe_ok p" and "pipe_contents p \<noteq> []"
  shows "pipe_ok (snd (pipe_take p))" and "fst (pipe_take p) = hd (pipe_contents p)"
    and "pipe_contents (snd (pipe_take p)) = tl (pipe_contents p)"
proof -
  let ?k = "unat (p_wpos p - p_rpos p)"
  obtain j where j: "?k = Suc j" using assms(2) by (cases ?k) (auto simp: pipe_contents_def)
  have "unat (p_wpos p - p_rpos p - 1) = ?k - 1"
    using j by (simp add: unat_sub word_le_nat_alt)
  then have k': "unat (p_wpos (snd (pipe_take p)) - p_rpos (snd (pipe_take p))) = j"
    using j by (simp add: pipe_moves algebra_simps)
  then show "pipe_ok (snd (pipe_take p))" using assms(1) j by (simp add: pipe_ok_def)
  have c: "pipe_contents p = p_buf p (pipe_index (p_rpos p))
      # map (\<lambda>i. p_buf p (pipe_index (p_rpos p + of_nat (Suc i)))) [0..<j]"
    unfolding pipe_contents_def j by (simp add: map_upt_Suc del: upt_Suc)
  then show "fst (pipe_take p) = hd (pipe_contents p)" by (simp add: pipe_moves)
  show "pipe_contents (snd (pipe_take p)) = tl (pipe_contents p)"
    unfolding c pipe_contents_def [of "snd (pipe_take p)"] k' by (simp add: pipe_moves add.assoc)
qed

interpretation pipe: byte_queue pipe_put pipe_take pipe_ok pipe_contents PIPEBUFSIZ
  by unfold_locales (simp_all add: pipe_put_queue pipe_take_queue)

section \<open>A reader and a writer\<close>

text \<open>The writer is inside \<open>write(buf)\<close>, the reader inside a read of \<open>n\<close> bytes. A step is a statement of either.\<close>

record pipe_sys =
  sys_pipe :: Pipe
  sys_w :: Writer
  sys_r :: Reader

inductive pipe_step :: "u8 list \<Rightarrow> nat \<Rightarrow> pipe_sys \<Rightarrow> pipe_sys \<Rightarrow> bool" for buf n where
  writer: "devpipe_write closed buf (sys_w s, sys_pipe s) = (w, p) \<Longrightarrow> pipe_step buf n s (s\<lparr>sys_pipe := p, sys_w := w\<rparr>)"
| reader: "devpipe_read closed n (sys_r s, sys_pipe s) = (r, p) \<Longrightarrow> pipe_step buf n s (s\<lparr>sys_pipe := p, sys_r := r\<rparr>)"

definition pipe_start :: pipe_sys where
  "pipe_start = \<lparr>sys_pipe = \<lparr>p_rpos = 0, p_wpos = 0, p_buf = (\<lambda>_. 0)\<rparr>, sys_w = \<lparr>w_pc = At_Test, w_i = 0\<rparr>,
     sys_r = \<lparr>r_pc = At_Test, r_i = 0, r_buf = (\<lambda>_. 0)\<rparr>\<rparr>"

text \<open>The invariant: the two positions count the bytes of the two calls, the bytes between them are in their places, and what
  each environment has found out with its test still holds before its transfer and before its increment.\<close>

definition places :: "u8 list \<Rightarrow> nat \<Rightarrow> nat \<Rightarrow> Pipe \<Rightarrow> bool" where
  "places buf i j p \<longleftrightarrow> p_rpos p = of_nat i \<and> p_wpos p = of_nat j \<and> i \<le> j \<and> j \<le> i + 32 \<and> j \<le> length buf
     \<and> (\<forall>k. i \<le> k \<and> k < j \<longrightarrow> p_buf p (k mod 32) = buf ! k)"

definition writer_inv :: "u8 list \<Rightarrow> nat \<Rightarrow> Writer \<Rightarrow> Pipe \<Rightarrow> bool" where
  "writer_inv buf i w p \<longleftrightarrow> (case w_pc w of
       At_Move \<Rightarrow> w_i w < length buf \<and> w_i w < i + 32
     | At_Inc \<Rightarrow> w_i w < length buf \<and> w_i w < i + 32 \<and> p_buf p (w_i w mod 32) = buf ! w_i w
     | Returned m \<Rightarrow> m = 0 \<or> m = length buf \<and> w_i w = m
     | Bad_Index \<Rightarrow> False | At_Test \<Rightarrow> True)"

definition reader_inv :: "u8 list \<Rightarrow> nat \<Rightarrow> nat \<Rightarrow> Reader \<Rightarrow> bool" where
  "reader_inv buf n j r \<longleftrightarrow> r_i r \<le> n \<and> (\<forall>k<r_i r. r_buf r k = buf ! k) \<and> (case r_pc r of
       At_Move \<Rightarrow> r_i r < j \<and> r_i r < n
     | At_Inc \<Rightarrow> r_i r < j \<and> r_i r < n \<and> r_buf r (r_i r) = buf ! r_i r
     | Returned m \<Rightarrow> m = r_i r
     | Bad_Index \<Rightarrow> False | At_Test \<Rightarrow> True)"

definition pipe_inv :: "u8 list \<Rightarrow> nat \<Rightarrow> pipe_sys \<Rightarrow> bool" where
  "pipe_inv buf n s \<longleftrightarrow> places buf (r_i (sys_r s)) (w_i (sys_w s)) (sys_pipe s)
     \<and> writer_inv buf (r_i (sys_r s)) (sys_w s) (sys_pipe s) \<and> reader_inv buf n (w_i (sys_w s)) (sys_r s)"

lemma places_index: "k < 4294967296 \<Longrightarrow> pipe_index (of_nat k) = k mod 32"
  using pipe_index_add [of 0 k] by (simp add: PIPEBUFSIZ_def)

lemma places_tests:
  assumes "places buf i j p" and "length buf < 2147483648"
  shows "pipe_empty p \<longleftrightarrow> i = j" and "pipe_full p \<longleftrightarrow> j = i + 32"
    and "0 \<le> sint (p_rpos p)" and "0 \<le> sint (p_wpos p)"
    and "pipe_index (p_rpos p) = i mod 32" and "pipe_index (p_wpos p) = j mod 32"
proof -
  have ij: "i \<le> j" "j \<le> i + 32" "j < 2147483648" "p_rpos p = of_nat i" "p_wpos p = of_nat j" using assms by (auto simp: places_def)
  have u: "unat (p_rpos p) = i" "unat (p_wpos p) = j" "unat (p_rpos p + 32) = i + 32" using ij by (simp_all add: unat_of_nat unat_word_ariths)
  show "pipe_empty p \<longleftrightarrow> i = j" using u by (auto simp: pipe_empty_def word_unat_eq_iff)
  show "pipe_full p \<longleftrightarrow> j = i + 32" using u ij by (auto simp: pipe_full_def PIPEBUFSIZ_def word_le_nat_alt)
  show "0 \<le> sint (p_rpos p)" "0 \<le> sint (p_wpos p)" using ij by (simp_all add: signed_of_nat signed_take_bit_int_eq_self)
  show "pipe_index (p_rpos p) = i mod 32" "pipe_index (p_wpos p) = j mod 32" using ij by (simp_all add: places_index)
qed

lemma mod_32_inj: "k < j \<Longrightarrow> j < k + 32 \<Longrightarrow> k mod 32 \<noteq> j mod 32" for j k :: nat
  using pipe_index_distinct [of k j 0] pipe_index_add [of 0] by (simp add: PIPEBUFSIZ_def)

lemma writer_step_inv:
  assumes inv: "places buf i (w_i w) p" "writer_inv buf i w p" and len: "length buf < 2147483648"
    and step: "devpipe_write closed buf (w, p) = (w', p')"
  shows "places buf i (w_i w') p' \<and> writer_inv buf i w' p' \<and> w_i w \<le> w_i w'"
proof -
  note t = places_tests [OF inv(1) len]
  show ?thesis
  proof (cases "w_pc w")
    case At_Test
    then show ?thesis using inv step t(2) by (auto simp: devpipe_write_def writer_inv_def places_def split: if_splits)
  next
    case At_Move
    then have m: "w_i w < length buf" "w_i w < i + 32" using inv(2) by (simp_all add: writer_inv_def)
    have "w' = w\<lparr>w_pc := At_Inc\<rparr>" "p' = pipe_store (buf ! w_i w) p" using step t(4) At_Move by (auto simp: devpipe_write_def)
    moreover have "k mod 32 \<noteq> w_i w mod 32" if "i \<le> k" "k < w_i w" for k using that m(2) by (intro mod_32_inj) auto
    ultimately show ?thesis using inv(1) m t(6) by (auto simp: writer_inv_def places_def pipe_store_def)
  next
    case At_Inc
    then have m: "w_i w < length buf" "w_i w < i + 32" "p_buf p (w_i w mod 32) = buf ! w_i w" using inv(2) by (simp_all add: writer_inv_def)
    have "w' = w\<lparr>w_pc := At_Test, w_i := w_i w + 1\<rparr>" "p' = wpos_inc p" using step At_Inc by (auto simp: devpipe_write_def)
    then show ?thesis using inv(1) m by (auto simp: writer_inv_def places_def wpos_inc_def less_Suc_eq add.commute)
  qed (use inv step in \<open>auto simp: devpipe_write_def\<close>)
qed

lemma reader_step_inv:
  assumes inv: "places buf (r_i r) j p" "reader_inv buf n j r" and len: "length buf < 2147483648"
    and step: "devpipe_read closed n (r, p) = (r', p')"
  shows "places buf (r_i r') j p' \<and> reader_inv buf n j r' \<and> r_i r \<le> r_i r' \<and> p_buf p' = p_buf p"
proof -
  note t = places_tests [OF inv(1) len]
  show ?thesis
  proof (cases "r_pc r")
    case At_Test
    then show ?thesis using inv step t(1) by (auto simp: devpipe_read_def reader_inv_def places_def split: if_splits)
  next
    case At_Move
    then have m: "r_i r < j" "r_i r < n" using inv(2) by (simp_all add: reader_inv_def)
    have "r' = r\<lparr>r_pc := At_Inc, r_buf := (r_buf r)(r_i r := pipe_load p)\<rparr>" "p' = p" using step t(3) At_Move by (auto simp: devpipe_read_def)
    moreover have "pipe_load p = buf ! r_i r" using inv(1) m t(5) by (simp add: pipe_load_def places_def)
    ultimately show ?thesis using inv m by (auto simp: reader_inv_def places_def)
  next
    case At_Inc
    then have m: "r_i r < j" "r_i r < n" "r_buf r (r_i r) = buf ! r_i r" using inv(2) by (simp_all add: reader_inv_def)
    have "r' = r\<lparr>r_pc := At_Test, r_i := r_i r + 1\<rparr>" "p' = rpos_inc p" using step At_Inc by (auto simp: devpipe_read_def)
    then show ?thesis using inv m by (auto simp: reader_inv_def places_def rpos_inc_def less_Suc_eq add.commute)
  qed (use inv step in \<open>auto simp: devpipe_read_def\<close>)
qed

text \<open>The progress of one side keeps what the other one relies on.\<close>

lemma writer_inv_mono: "writer_inv buf i w p \<Longrightarrow> i \<le> i' \<Longrightarrow> p_buf p' = p_buf p \<Longrightarrow> writer_inv buf i' w p'"
  by (auto simp: writer_inv_def split: pipe_pc.splits)

lemma reader_inv_mono: "reader_inv buf n j r \<Longrightarrow> j \<le> j' \<Longrightarrow> reader_inv buf n j' r"
  by (auto simp: reader_inv_def split: pipe_pc.splits)

lemma pipe_step_inv:
  assumes "pipe_step buf n s s'" and inv: "pipe_inv buf n s" and len: "length buf < 2147483648"
  shows "pipe_inv buf n s'"
  using assms(1)
proof cases
  case (writer closed w p)
  then show ?thesis using inv writer_step_inv [OF _ _ len writer(2)] by (auto simp: pipe_inv_def intro: reader_inv_mono)
next
  case (reader closed r p)
  then show ?thesis using inv reader_step_inv [OF _ _ len reader(2)] by (auto simp: pipe_inv_def intro: writer_inv_mono)
qed

lemma pipe_reach_inv:
  assumes "(pipe_step buf n)\<^sup>*\<^sup>* pipe_start s" and len: "length buf < 2147483648"
  shows "pipe_inv buf n s"
  using assms(1)
proof induction
  case base
  show ?case by (simp add: pipe_inv_def pipe_start_def places_def writer_inv_def reader_inv_def)
next
  case (step s s')
  then show ?case using pipe_step_inv [OF step.hyps(2) step.IH len] by simp
qed

lemma places_contents:
  assumes "places buf i j p" and "length buf < 2147483648"
  shows "take i buf @ pipe_contents p = take j buf" and "length (pipe_contents p) \<le> 32"
proof -
  have ij: "i \<le> j" "j \<le> i + 32" "j \<le> length buf" "p_rpos p = of_nat i" "p_wpos p = of_nat j" using assms by (auto simp: places_def)
  have d: "unat (p_wpos p - p_rpos p) = j - i" using ij assms(2) by (simp add: unat_sub word_le_nat_alt unat_of_nat)
  then show "length (pipe_contents p) \<le> 32" using ij by (simp add: pipe_contents_def)
  show "take i buf @ pipe_contents p = take j buf"
  proof (rule nth_equalityI)
    show "length (take i buf @ pipe_contents p) = length (take j buf)" using ij d by (simp add: pipe_contents_def)
    fix k assume "k < length (take i buf @ pipe_contents p)"
    then have k: "k < j" using ij d by (simp add: pipe_contents_def)
    show "(take i buf @ pipe_contents p) ! k = take j buf ! k"
    proof (cases "k < i")
      case False
      then have "pipe_index (p_rpos p + of_nat (k - i)) = k mod 32" using ij(4) pipe_index_add [of "p_rpos p" "k - i"] k assms(2) ij
        by (simp add: PIPEBUFSIZ_def unat_of_nat)
      then show ?thesis using False k ij d assms(1) by (simp add: nth_append pipe_contents_def places_def)
    qed (use ij k in \<open>simp add: nth_append\<close>)
  qed
qed

section \<open>Properties\<close>

text \<open>C31. However the statements of a reader and a writer interleave, the bytes the reader has taken,
  followed by the at most 32 bytes in the buffer, are exactly the bytes the writer has stored so far, in
  order: nothing is lost, duplicated or overwritten, no index is negative, and a call of \<open>read\<close> that
  returns \<open>m\<close> has put the first \<open>m\<close> bytes into its buffer. This holds for a write of less than 2 GiB, after
  which the positions would become negative.\<close>

theorem pipe_fifo:
  assumes "(pipe_step buf n)\<^sup>*\<^sup>* pipe_start s" and "length buf < 2147483648"
  shows "map (r_buf (sys_r s)) [0..<r_i (sys_r s)] @ pipe_contents (sys_pipe s) = take (w_i (sys_w s)) buf
    \<and> length (pipe_contents (sys_pipe s)) \<le> 32 \<and> w_pc (sys_w s) \<noteq> Bad_Index \<and> r_pc (sys_r s) \<noteq> Bad_Index
    \<and> (\<forall>m. r_pc (sys_r s) = Returned m \<longrightarrow> m \<le> n \<and> map (r_buf (sys_r s)) [0..<m] = take m buf)"
proof -
  note inv = pipe_reach_inv [OF assms, unfolded pipe_inv_def]
  let ?i = "r_i (sys_r s)"
  have p: "places buf ?i (w_i (sys_w s)) (sys_pipe s)" using inv by simp
  then have "?i \<le> length buf" by (auto simp: places_def)
  then have "map (r_buf (sys_r s)) [0..<?i] = take ?i buf" using inv by (auto simp: reader_inv_def intro!: nth_equalityI)
  then show ?thesis using inv places_contents [OF p assms(2)] by (auto simp: reader_inv_def writer_inv_def)
qed

text \<open>The writer stores a byte and is preempted before the increment; the reader still finds the pipe empty.\<close>

definition pipe_sample :: pipe_sys where
  "pipe_sample = pipe_start\<lparr>sys_pipe := pipe_store 65 (sys_pipe pipe_start), sys_w := \<lparr>w_pc = At_Inc, w_i = 0\<rparr>\<rparr>"

theorem pipe_fifo_witness:
  "map (r_buf (sys_r pipe_sample)) [0..<r_i (sys_r pipe_sample)] @ pipe_contents (sys_pipe pipe_sample) = take (w_i (sys_w pipe_sample)) [65, 66 :: u8]"
proof -
  let ?s = "pipe_start\<lparr>sys_w := \<lparr>w_pc = At_Move, w_i = 0\<rparr>\<rparr>"
  have "pipe_step [65, 66] 2 pipe_start (pipe_start\<lparr>sys_pipe := sys_pipe pipe_start, sys_w := \<lparr>w_pc = At_Move, w_i = 0\<rparr>\<rparr>)"
    by (rule pipe_step.writer [of False]) (simp add: devpipe_write_def pipe_start_def pipe_full_def PIPEBUFSIZ_def)
  moreover have "pipe_step [65, 66] 2 ?s (?s\<lparr>sys_pipe := pipe_store 65 (sys_pipe pipe_start), sys_w := \<lparr>w_pc = At_Inc, w_i = 0\<rparr>\<rparr>)"
    by (rule pipe_step.writer [of False]) (simp add: devpipe_write_def pipe_start_def)
  ultimately have "(pipe_step [65, 66] 2)\<^sup>*\<^sup>* pipe_start pipe_sample" by (simp add: pipe_sample_def)
  then show ?thesis using pipe_fifo [of "[65, 66]" 2 pipe_sample] by simp
qed

text \<open>No deadlock: in every reachable state in which both calls are still running, one of the two has a
  statement that goes on, whatever \<open>_pipeisclosed\<close> answers.\<close>

theorem pipe_progress:
  assumes reach: "(pipe_step buf n)\<^sup>*\<^sup>* pipe_start s" and len: "length buf < 2147483648"
    and w: "\<forall>m. w_pc (sys_w s) \<noteq> Returned m" and r: "\<forall>m. r_pc (sys_r s) \<noteq> Returned m"
  shows "fst (devpipe_write closed buf (sys_w s, sys_pipe s)) \<noteq> sys_w s \<or> fst (devpipe_read closed n (sys_r s, sys_pipe s)) \<noteq> sys_r s"
proof -
  note inv = pipe_reach_inv [OF reach len, unfolded pipe_inv_def]
  have p: "places buf (r_i (sys_r s)) (w_i (sys_w s)) (sys_pipe s)" using inv by simp
  note t = places_tests [OF p len]
  show ?thesis
  proof (rule ccontr)
    assume "\<not> ?thesis"
    then have e: "fst (devpipe_write closed buf (sys_w s, sys_pipe s)) = sys_w s" "fst (devpipe_read closed n (sys_r s, sys_pipe s)) = sys_r s" by simp_all
    have "w_pc (sys_w s) = At_Test \<and> pipe_full (sys_pipe s)"
      using arg_cong [OF e(1), of w_pc] w inv by (auto simp: devpipe_write_def writer_inv_def split: pipe_pc.splits if_splits)
    moreover have "r_pc (sys_r s) = At_Test \<and> pipe_empty (sys_pipe s)"
      using arg_cong [OF e(2), of r_pc] r inv by (auto simp: devpipe_read_def reader_inv_def split: pipe_pc.splits if_splits)
    ultimately show False using t(1,2) by simp
  qed
qed

end
