(* ===== verification/Fsformat.thy ===== *)
theory Fsformat
  imports Fs_Inv "HOL-Library.Signed_Division"
begin

text \<open>
  The image builder (\<open>fs/fsformat.c\<close>), a program of the host that writes the first disk image, and the file system
  on the image. The image is the array of its 32-bit words, a position in it a number of bytes. The files of the
  host, the pieces in which its \<open>read\<close> delivers them and the memory that its \<open>malloc\<close> returns are parameters.
  A panic is \<open>None\<close>.
\<close>

section \<open>Operations\<close>

record Image =
  diskmap :: block
  diskpos :: nat

record Dir =
  ents :: block
  dir_n :: nat

record Host_File =
  h_name :: "u8 list"
  h_regular :: bool
  h_bytes :: "u8 list"

definition MAX_DIR_ENTS :: nat where "MAX_DIR_ENTS = 128"
definition MAXFILESIZE :: nat where "MAXFILESIZE = (NDIRECT + NINDIRECT) * unat BLKSIZE"
definition FTYPE_REG :: u32 where "FTYPE_REG = 0"

definition fmt_roundup :: "u32 \<Rightarrow> u32 \<Rightarrow> u32" where
  "fmt_roundup n v = n - 1 + v - (n - 1) mod v"

text \<open>The same macro on an \<open>int\<close>, whose remainder has the sign of the dividend.\<close>

definition fmt_roundup_int :: "int \<Rightarrow> int \<Rightarrow> int" where
  "fmt_roundup_int n v = n - 1 + v - (n - 1) smod v"

definition blockof :: "nat \<Rightarrow> u32" where
  "blockof pos = of_nat (pos div unat BLKSIZE)"

definition alloc :: "u32 \<Rightarrow> u32 \<Rightarrow> Image \<Rightarrow> (nat \<times> Image) option" where
  "alloc nblocks bytes im =
     (let start = diskpos im; im = im\<lparr>diskpos := start + unat (fmt_roundup bytes BLKSIZE)\<rparr>
      in if blockof (diskpos im) \<ge> nblocks then None else Some (start, im))"

text \<open>A \<open>struct File\<close> at a word of an array, and the array with another one there.\<close>

definition get_file :: "nat \<Rightarrow> block \<Rightarrow> block" where
  "get_file a m = (\<lambda>k. m (a + k))"

definition put_words :: "nat \<Rightarrow> nat \<Rightarrow> block \<Rightarrow> block \<Rightarrow> block" where
  "put_words a n w m = (\<lambda>j. if a \<le> j \<and> j < a + n then w (j - a) else m j)"

text \<open>The super block and the bitmap; the results are their positions.\<close>

definition opendisk :: "u32 \<Rightarrow> (nat \<times> nat \<times> Image) option" where
  "opendisk nblocks =
     do { (_, im) \<leftarrow> alloc nblocks BLKSIZE \<lparr>diskmap = (\<lambda>_. 0), diskpos = 0\<rparr>;
          (super, im) \<leftarrow> alloc nblocks BLKSIZE im;
          let m = (diskmap im)(super div 4 := FS_MAGIC, super div 4 + 1 := nblocks, super div 4 + 2 + 33 := FTYPE_DIR);
          let im = im\<lparr>diskmap := put_bytes (super + 8) [47, 0] m\<rparr>;
          let nbitblocks = (nblocks + of_nat BLKBITSIZE - 1) div of_nat BLKBITSIZE;
          (bm, im) \<leftarrow> alloc nblocks (nbitblocks * BLKSIZE) im;
          Some (super, bm, im\<lparr>diskmap := put_words (bm div 4) (unat (nbitblocks * BLKSIZE) div 4) (\<lambda>_. 0xFFFFFFFF) (diskmap im)\<rparr>) }"

definition finishdisk :: "nat \<Rightarrow> Image \<Rightarrow> block" where
  "finishdisk bm im =
     fold (\<lambda>i m. m(bm div 4 + i div 32 := m (bm div 4 + i div 32) AND NOT (push_bit (i mod 32) 1)))
       [0..<unat (blockof (diskpos im))] (diskmap im)"

text \<open>\<open>w\<close> is the \<open>struct File\<close>.\<close>

definition finishfile :: "u32 \<Rightarrow> block \<Rightarrow> u32 \<Rightarrow> u32 \<Rightarrow> Image \<Rightarrow> (block \<times> Image) option" where
  "finishfile nblocks w start len im =
     (let w = w(32 := len);
          n = unat (fmt_roundup len BLKSIZE div BLKSIZE);
          w = fold (\<lambda>i w. w(34 + i := start + of_nat i)) [0..<min n NDIRECT] w
      in if NDIRECT \<le> n
         then do { (ind, im) \<leftarrow> alloc nblocks BLKSIZE im;
                   Some (w(44 := blockof ind),
                     im\<lparr>diskmap := fold (\<lambda>i m. m(ind div 4 + (i - NDIRECT) := start + of_nat i)) [NDIRECT..<n] (diskmap im)\<rparr>) }
         else Some (w, im))"

text \<open>\<open>heap\<close> is the memory for the entries, as \<open>malloc\<close> returns it.\<close>

definition startdir :: "block \<Rightarrow> Dir" where
  "startdir heap = \<lparr>ents = heap, dir_n = 0\<rparr>"

definition diradd :: "Dir \<Rightarrow> u32 \<Rightarrow> u8 list \<Rightarrow> (nat \<times> Dir) option" where
  "diradd d type name =
     (let i = dir_n d in
      if i + 1 > MAX_DIR_ENTS then None
      else Some (i, \<lparr>ents = (put_bytes (256 * i) (name @ [0]) (ents d))(64 * i + 33 := type), dir_n = i + 1\<rparr>))"

definition finishdir :: "u32 \<Rightarrow> nat \<Rightarrow> Dir \<Rightarrow> Image \<Rightarrow> Image option" where
  "finishdir nblocks super d im =
     (let sz = int (dir_n d * 256) in
      do { (start, im) \<leftarrow> alloc nblocks (word_of_int sz) im;
           let im = im\<lparr>diskmap := put_words (start div 4) (64 * dir_n d) (ents d) (diskmap im)\<rparr>;
           (w, im) \<leftarrow> finishfile nblocks (get_file (super div 4 + 2) (diskmap im)) (blockof start)
                       (word_of_int (fmt_roundup_int sz (int (unat BLKSIZE)))) im;
           Some (im\<lparr>diskmap := put_words (super div 4 + 2) 64 w (diskmap im)\<rparr>) })"

text \<open>\<open>chunk p\<close> is the number of bytes that the host delivers at most when it is asked for those from \<open>p\<close> on.\<close>

function readn_host :: "(nat \<Rightarrow> nat) \<Rightarrow> u8 list \<Rightarrow> nat \<Rightarrow> nat \<Rightarrow> nat \<Rightarrow> block \<Rightarrow> block option" where
  "readn_host chunk bytes out n p m =
     (if p < n
      then let k = min (chunk p) (min (n - p) (length bytes - p))
           in if k = 0 then None else readn_host chunk bytes out n (p + k) (put_bytes (out + p) (take k (drop p bytes)) m)
      else Some m)"
  by auto
termination by (relation "measure (\<lambda>(chunk, bytes, out, n, p, m). n - p)") auto

declare readn_host.simps [simp del]

text \<open>The part of a path behind its last slash.\<close>

definition last_part :: "u8 list \<Rightarrow> u8 list" where
  "last_part name = rev (takeWhile (\<lambda>c. c \<noteq> 47) (rev name))"

definition writefile :: "(nat \<Rightarrow> nat) \<Rightarrow> u32 \<Rightarrow> Host_File \<Rightarrow> Dir \<times> Image \<Rightarrow> (Dir \<times> Image) option" where
  "writefile chunk nblocks h = (\<lambda>(d, im).
     (let sz = length (h_bytes h) in
      if \<not> h_regular h then None
      else if sz \<ge> MAXFILESIZE then None
      else do { (i, d) \<leftarrow> diradd d FTYPE_REG (last_part (h_name h));
                (start, im) \<leftarrow> alloc nblocks (of_nat sz) im;
                m \<leftarrow> readn_host chunk (h_bytes h) start sz 0 (diskmap im);
                (w, im) \<leftarrow> finishfile nblocks (get_file (64 * i) (ents d)) (blockof start) (of_nat sz) (im\<lparr>diskmap := m\<rparr>);
                Some (d\<lparr>ents := put_words (64 * i) 64 w (ents d)\<rparr>, im) }))"

primrec writefiles :: "(nat \<Rightarrow> nat) \<Rightarrow> u32 \<Rightarrow> Host_File list \<Rightarrow> Dir \<times> Image \<Rightarrow> (Dir \<times> Image) option" where
  "writefiles chunk nblocks [] s = Some s"
| "writefiles chunk nblocks (h # hs) s = do { s \<leftarrow> writefile chunk nblocks h s; writefiles chunk nblocks hs s }"

text \<open>\<open>main\<close> from the number of blocks on; the result is the image.\<close>

definition fsformat :: "(nat \<Rightarrow> nat) \<Rightarrow> block \<Rightarrow> u32 \<Rightarrow> Host_File list \<Rightarrow> block option" where
  "fsformat chunk heap nblocks files =
     (if nblocks < 2 \<or> nblocks > 1024 then None
      else do { (super, bm, im) \<leftarrow> opendisk nblocks;
                (d, im) \<leftarrow> writefiles chunk nblocks files (startdir heap, im);
                im \<leftarrow> finishdir nblocks super d im;
                Some (finishdisk bm im) })"

text \<open>The file system on an image.\<close>

definition mounted :: "block \<Rightarrow> Fs" where
  "mounted m = \<lparr>blk = (\<lambda>b i. m (1024 * b + i)), dsk = (\<lambda>b i. m (1024 * b + i))\<rparr>"

section \<open>Allocation\<close>

lemma image_upd [simp]: "im\<lparr>diskpos := a, diskmap := m\<rparr> = \<lparr>diskmap = m, diskpos = a\<rparr>" for im :: Image
  by simp

definition nblk :: "nat \<Rightarrow> nat" where
  "nblk L = (L + 4095) div 4096"

lemma nblk_pos: "0 < L \<Longrightarrow> nblk L = (L - 1) div 4096 + 1"
proof -
  assume "0 < L"
  then have "L + 4095 = (L - 1) + 4096" by simp
  then show ?thesis unfolding nblk_def by simp
qed

lemma fmt_roundup_spec:
  assumes "L < 4294963200"
  shows "unat (fmt_roundup (of_nat L) BLKSIZE) = 4096 * nblk L"
proof (cases "L = 0")
  case True
  then show ?thesis by (simp add: fmt_roundup_def BLKSIZE_def nblk_def)
next
  case False
  define x :: u32 where "x = of_nat (L - 1)"
  have ux: "unat x = L - 1" using assms by (simp add: x_def unat_of_nat)
  have e: "of_nat L - 1 = x" using False by (simp add: x_def)
  have m: "unat (x mod 4096) = (L - 1) mod 4096" by (simp add: unat_mod ux)
  have a: "unat (x + 4096) = L - 1 + 4096" using ux assms by (simp add: unat_word_ariths)
  have "x mod 4096 \<le> x + 4096" unfolding word_le_nat_alt m a by (rule order_trans [OF mod_less_eq_dividend]) simp
  then have "unat (fmt_roundup (of_nat L) BLKSIZE) = L - 1 + 4096 - (L - 1) mod 4096"
    unfolding fmt_roundup_def BLKSIZE_def e by (simp only: unat_sub a m)
  also have "\<dots> = 4096 * ((L - 1) div 4096 + 1)"
  proof -
    have "L - 1 + 4096 = 4096 * ((L - 1) div 4096 + 1) + (L - 1) mod 4096" by simp
    then show ?thesis by (metis add_diff_cancel_right')
  qed
  finally show ?thesis using nblk_pos False by simp
qed

lemma fmt_roundup_int_spec: "0 < L \<Longrightarrow> fmt_roundup_int (int L) 4096 = int (4096 * nblk L)"
proof -
  assume L: "0 < L"
  have "(int L - 1) smod 4096 = int ((L - 1) mod 4096)" using L by (simp add: signed_modulo_int_def sgn_if of_nat_mod of_nat_diff)
  then have "fmt_roundup_int (int L) 4096 = int (L - 1) + 4096 - int ((L - 1) mod 4096)" using L by (simp add: fmt_roundup_int_def of_nat_diff)
  also have "int (L - 1) = 4096 * int ((L - 1) div 4096) + int ((L - 1) mod 4096)" by (metis mult_div_mod_eq of_nat_add of_nat_mult of_nat_numeral)
  finally show ?thesis unfolding nblk_pos [OF L] by simp
qed

text \<open>The size of a directory without entries is not zero.\<close>

lemma fmt_roundup_int_zero: "fmt_roundup_int 0 4096 = 4096"
  by (simp add: fmt_roundup_int_def signed_modulo_int_def)

lemma unat_BLKSIZE [simp]: "unat BLKSIZE = 4096"
  by (simp add: BLKSIZE_def)

lemma blockof_mult [simp]: "blockof (4096 * P) = of_nat P"
  by (simp add: blockof_def)

lemma alloc_spec:
  assumes "diskpos im = 4096 * P" and "P + nblk L < unat nb" and "unat nb \<le> 1024" and "L < 4294963200"
  shows "alloc nb (of_nat L) im = Some (4096 * P, im\<lparr>diskpos := 4096 * (P + nblk L)\<rparr>)"
proof -
  have d: "4096 * P + unat (fmt_roundup (of_nat L) BLKSIZE) = 4096 * (P + nblk L)" using fmt_roundup_spec [OF assms(4)] by simp
  have "unat (of_nat (P + nblk L) :: u32) = P + nblk L" using assms(2,3) by (simp add: unat_of_nat del: of_nat_add)
  then have "\<not> nb \<le> of_nat (P + nblk L)" using assms(2) by (simp add: word_le_nat_alt del: of_nat_add)
  moreover have "blockof (4096 * P + 4096 * nblk L) = of_nat (P + nblk L)" using blockof_mult [of "P + nblk L"] by (simp add: distrib_left)
  ultimately show ?thesis unfolding alloc_def assms(1) Let_def using d by (simp del: of_nat_add)
qed

lemmas alloc_block_spec = alloc_spec [of _ _ 4096, folded BLKSIZE_def]

text \<open>Words and bytes of arrays.\<close>

lemma put_words_apply: "put_words a n w m j = (if a \<le> j \<and> j < a + n then w (j - a) else m j)"
  by (simp add: put_words_def)

lemma put_bytes_word: "j < off div 4 \<or> off + length bs \<le> 4 * j \<Longrightarrow> put_bytes off bs m j = m j"
proof (induction bs arbitrary: off m)
  case (Cons b bs)
  have "off div 4 \<noteq> j" using Cons.prems by auto
  moreover have "j < Suc off div 4 \<or> Suc off + length bs \<le> 4 * j" using Cons.prems div_le_mono [of off "Suc off" 4] by auto
  ultimately show ?case using Cons.IH by (simp add: put_blk_byte_def)
qed simp

lemma blk_byte_get_file: "blk_byte (get_file a m) i = blk_byte m (4 * a + i)"
  by (simp add: blk_byte_def get_file_def)

lemma blk_byte_word_cong: "m' (i div 4) = m (i div 4) \<Longrightarrow> blk_byte m' i = blk_byte m i"
  by (simp add: blk_byte_def)

lemma readn_host_spec:
  assumes "\<And>p. 0 < chunk p" and "p \<le> length bytes"
  shows "\<exists>m'. readn_host chunk bytes out (length bytes) p m = Some m'
    \<and> (\<forall>i. blk_byte m' i = (if out + p \<le> i \<and> i < out + length bytes then bytes ! (i - out) else blk_byte m i))"
  using assms(2)
proof (induction "length bytes - p" arbitrary: p m rule: less_induct)
  case less
  show ?case
  proof (cases "p < length bytes")
    case False
    then show ?thesis by (subst readn_host.simps) auto
  next
    case True
    let ?k = "min (chunk p) (min (length bytes - p) (length bytes - p))"
    have k: "0 < ?k" "p + ?k \<le> length bytes" using True assms(1) [of p] by auto
    let ?m = "put_bytes (out + p) (take ?k (drop p bytes)) m"
    have "length bytes - (p + ?k) < length bytes - p" using k by linarith
    then obtain m' where m': "readn_host chunk bytes out (length bytes) (p + ?k) ?m = Some m'"
      "\<forall>i. blk_byte m' i = (if out + (p + ?k) \<le> i \<and> i < out + length bytes then bytes ! (i - out) else blk_byte ?m i)"
      using less.hyps [of "p + ?k" ?m] k(2) by blast
    have "blk_byte m' i = (if out + p \<le> i \<and> i < out + length bytes then bytes ! (i - out) else blk_byte m i)" for i
    proof -
      have l: "length (take ?k (drop p bytes)) = ?k" using k(2) by simp
      have "take ?k (drop p bytes) ! (i - (out + p)) = bytes ! (i - out)" if "out + p \<le> i" "i < out + p + ?k"
      proof -
        have "i - (out + p) < ?k" "p + (i - (out + p)) = i - out" "p \<le> length bytes" using that less.prems by linarith+
        then show ?thesis by (simp add: nth_take nth_drop)
      qed
      then show ?thesis unfolding m'(2) [rule_format] blk_byte_put_bytes l using k(2) by auto
    qed
    moreover have "readn_host chunk bytes out (length bytes) p m = Some m'"
      using m'(1) True k(1) by (subst readn_host.simps) (simp add: Let_def)
    ultimately show ?thesis by blast
  qed
qed

lemma put_words_0: "put_words a 0 w m = m"
  by (auto simp: put_words_def fun_eq_iff)

lemma store_from: "fold (\<lambda>i m. m(a + (i - c) := g i)) [c..<n] m = put_words a (n - c) (\<lambda>k. g (c + k)) m"
proof (induction n)
  case (Suc n)
  show ?case
  proof (cases "c \<le> n")
    case True
    then have e: "[c..<Suc n] = [c..<n] @ [n]" "Suc n - c = Suc (n - c)" by (simp_all add: Suc_diff_le)
    have "fold (\<lambda>i m. m(a + (i - c) := g i)) [c..<Suc n] m = (put_words a (n - c) (\<lambda>k. g (c + k)) m)(a + (n - c) := g n)"
      unfolding e(1) fold_append comp_def Suc.IH by simp
    also have "\<dots> = put_words a (Suc n - c) (\<lambda>k. g (c + k)) m"
      unfolding e(2) using True by (auto simp: fun_eq_iff put_words_def)
    finally show ?thesis .
  qed (simp add: put_words_0)
qed (simp add: put_words_0)

lemmas store_upto = store_from [of _ 0, simplified]

section \<open>Files of the image\<close>

text \<open>The block of a file that has the \<open>struct File\<close> \<open>w\<close>, in the image \<open>m\<close>, and what it means that the file has certain
  bytes and lies in the blocks from 3 to \<open>P\<close>.\<close>

definition wptr :: "block \<Rightarrow> block \<Rightarrow> nat \<Rightarrow> nat" where
  "wptr w m k = unat (if k < 10 then w (34 + k) else m (1024 * unat (w 44) + (k - 10)))"

definition file_at :: "block \<Rightarrow> block \<Rightarrow> nat \<Rightarrow> u8 list \<Rightarrow> bool" where
  "file_at w m P bytes \<longleftrightarrow> w 32 = of_nat (length bytes) \<and> length bytes < 4235264
     \<and> (10 < nblk (length bytes) \<longrightarrow> 3 \<le> unat (w 44) \<and> unat (w 44) < P)
     \<and> (\<forall>k<nblk (length bytes). 3 \<le> wptr w m k \<and> wptr w m k < P)
     \<and> (\<forall>p<length bytes. blk_byte m (4096 * wptr w m (p div 4096) + p mod 4096) = bytes ! p)"

lemma nblk_div: "p < L \<Longrightarrow> p div 4096 < nblk L"
  unfolding nblk_def by (simp add: div_less_iff_less_mult less_mult_imp_div_less)

lemma nblk_max: "L < 4235264 \<Longrightarrow> nblk L \<le> 1034"
  unfolding nblk_def by (simp add: div_le_dividend less_mult_imp_div_less)

lemma image_word: "k < 1024 \<Longrightarrow> c < P \<Longrightarrow> 1024 * c + k < 1024 * (P :: nat)"
proof -
  assume "k < 1024" "c < P"
  then have "1024 * c + k < 1024 * Suc c" "1024 * Suc c \<le> 1024 * P" by simp_all
  then show ?thesis by linarith
qed

lemma file_at_frame:
  assumes f: "file_at w m P bytes" and m: "\<And>j. 3072 \<le> j \<Longrightarrow> j < 1024 * P \<Longrightarrow> m' j = m j" and P: "P \<le> P'"
  shows "file_at w m' P' bytes"
proof -
  let ?L = "length bytes"
  have b: "?L < 4235264" "10 < nblk ?L \<Longrightarrow> 3 \<le> unat (w 44) \<and> unat (w 44) < P" using f by (simp_all add: file_at_def)
  have e: "wptr w m' k = wptr w m k" if "k < nblk ?L" for k
  proof (cases "k < 10")
    case False
    then obtain i where i: "k = 10 + i" by (metis le_add_diff_inverse not_less)
    then have k: "i < 1024" "10 < nblk ?L" using that nblk_max [OF b(1)] by simp_all
    have "1024 * unat (w 44) + i < 1024 * P" using k b(2) by (intro image_word) simp_all
    moreover have "3072 \<le> 1024 * unat (w 44) + i" using b(2) k by linarith
    ultimately show ?thesis using m by (simp add: wptr_def i)
  qed (simp add: wptr_def)
  have "blk_byte m' (4096 * wptr w m (p div 4096) + p mod 4096) = blk_byte m (4096 * wptr w m (p div 4096) + p mod 4096)"
    if p: "p < ?L" for p
  proof (rule blk_byte_word_cong)
    let ?c = "wptr w m (p div 4096)"
    have c: "3 \<le> ?c" "?c < P" using f nblk_div [OF p] by (simp_all add: file_at_def)
    have "(4096 * ?c + p mod 4096) div 4 = 1024 * ?c + p mod 4096 div 4"
      using div_mult_self1 [of 4 "p mod 4096" "1024 * ?c"] by (simp add: add.commute)
    moreover have "1024 * ?c + p mod 4096 div 4 < 1024 * P" using c(2) by (intro image_word) (simp_all add: less_mult_imp_div_less)
    ultimately show "m' ((4096 * ?c + p mod 4096) div 4) = m ((4096 * ?c + p mod 4096) div 4)" using m c(1) by simp
  qed
  then show ?thesis using f e nblk_div P by (auto simp: file_at_def intro: less_le_trans)
qed

text \<open>\<open>finishfile\<close> enters consecutive blocks.\<close>

definition extra :: "nat \<Rightarrow> nat" where
  "extra L = (if 10 \<le> nblk L then 1 else 0)"

lemma finishfile_spec:
  assumes P: "diskpos im = 4096 * P" and L: "L < 4235264" and nb: "P + extra L < unat nb" "unat nb \<le> 1024"
    and S: "S + nblk L \<le> P"
  shows "\<exists>w' m'. finishfile nb w (of_nat S) (of_nat L) im = Some (w', \<lparr>diskmap = m', diskpos = 4096 * (P + extra L)\<rparr>)
    \<and> w' 32 = of_nat L \<and> (\<forall>k<32. w' k = w k) \<and> w' 33 = w 33 \<and> (\<forall>j. j < 1024 * P \<longrightarrow> m' j = diskmap im j)
    \<and> (\<forall>k<nblk L. wptr w' m' k = S + k) \<and> (10 < nblk L \<longrightarrow> unat (w' 44) = P)"
proof -
  have n: "unat (fmt_roundup (of_nat L) BLKSIZE div BLKSIZE) = nblk L"
    using fmt_roundup_spec [of L] L by (simp add: unat_div_distrib)
  have u: "unat (of_nat S + of_nat k :: u32) = S + k" if "k < nblk L" for k
  proof -
    have "S + k < 4294967296" using that S nb by simp
    then have "unat (of_nat (S + k) :: u32) = S + k" by (simp add: unat_of_nat del: of_nat_add)
    then show ?thesis by simp
  qed
  let ?w = "put_words 34 (min (nblk L) 10) (\<lambda>k. of_nat S + of_nat k) (w(32 := of_nat L))"
  have w: "fold (\<lambda>i w. w(34 + i := of_nat S + of_nat i)) [0..<min (nblk L) NDIRECT] (w(32 := of_nat L)) = ?w"
    unfolding NDIRECT_def by (rule store_upto)
  note ff = finishfile_def [of nb w "of_nat S" "of_nat L" im, unfolded Let_def n w]
  show ?thesis
  proof (cases "10 \<le> nblk L")
    case False
    then have "finishfile nb w (of_nat S) (of_nat L) im = Some (?w, im)" unfolding ff by (simp add: NDIRECT_def)
    moreover have "im = \<lparr>diskmap = diskmap im, diskpos = 4096 * (P + extra L)\<rparr>" using P False by (simp add: extra_def)
    ultimately show ?thesis using False u
      by (intro exI [of _ ?w] exI [of _ "diskmap im"]) (simp add: put_words_apply wptr_def)
  next
    case True
    let ?m = "put_words (1024 * P) (nblk L - 10) (\<lambda>k. of_nat S + of_nat (10 + k)) (diskmap im)"
    have uP: "unat (of_nat P :: u32) = P" using nb by (simp add: unat_of_nat)
    have "alloc nb BLKSIZE im = Some (4096 * P, im\<lparr>diskpos := 4096 * (P + 1)\<rparr>)"
      using alloc_spec [OF P, of 4096 nb] nb True by (simp add: extra_def nblk_def BLKSIZE_def)
    then have "finishfile nb w (of_nat S) (of_nat L) im = Some (?w(44 := of_nat P), \<lparr>diskmap = ?m, diskpos = 4096 * (P + 1)\<rparr>)"
      unfolding ff using True store_from [of "1024 * P" 10 "\<lambda>i. of_nat S + of_nat i" "nblk L" "diskmap im"] by (simp add: NDIRECT_def)
    moreover have "wptr (?w(44 := of_nat P)) ?m k = S + k" if "k < nblk L" for k
    proof (cases "k < 10")
      case False
      then obtain i where i: "k = 10 + i" by (metis le_add_diff_inverse not_less)
      then have "i < nblk L - 10" using that by linarith
      then have "?m (1024 * P + i) = of_nat S + of_nat k" by (auto simp: put_words_apply i)
      then show ?thesis using uP u [OF that] by (simp add: wptr_def i)
    qed (use u [OF that] that in \<open>simp add: wptr_def put_words_apply\<close>)
    ultimately show ?thesis using True uP
      by (intro exI [of _ "?w(44 := of_nat P)"] exI [of _ ?m]) (simp add: put_words_apply extra_def)
  qed
qed

section \<open>Writing the files\<close>

definition named :: "block \<Rightarrow> u8 list \<Rightarrow> bool" where
  "named w name \<longleftrightarrow> (\<forall>b\<le>length name. blk_byte w b = (name @ [0]) ! b)"

definition cost :: "Host_File \<Rightarrow> nat" where
  "cost h = nblk (length (h_bytes h)) + extra (length (h_bytes h))"

definition host_ok :: "Host_File \<Rightarrow> bool" where
  "host_ok h \<longleftrightarrow> h_regular h \<and> length (h_bytes h) < MAXFILESIZE \<and> last_part (h_name h) \<noteq> []
     \<and> 0 \<notin> set (h_name h) \<and> length (last_part (h_name h)) < MAXNAMELEN"

definition entry_ok :: "nat \<Rightarrow> block \<Rightarrow> block \<Rightarrow> Host_File \<Rightarrow> bool" where
  "entry_ok P w m h \<longleftrightarrow> file_at w m P (h_bytes h) \<and> named w (last_part (h_name h))"

text \<open>The state of the builder when the files \<open>hs\<close> are written and \<open>P\<close> blocks are used.\<close>

definition built :: "u32 \<Rightarrow> nat \<Rightarrow> Host_File list \<Rightarrow> Dir \<Rightarrow> Image \<Rightarrow> bool" where
  "built nb P hs d im \<longleftrightarrow> dir_n d = length hs \<and> diskpos im = 4096 * P \<and> 3 \<le> P \<and> P < unat nb \<and> unat nb \<le> 1024
     \<and> diskmap im 1024 = FS_MAGIC \<and> diskmap im 1025 = nb \<and> diskmap im 1059 = FTYPE_DIR
     \<and> (\<forall>j. 2048 \<le> j \<and> j < 3072 \<longrightarrow> diskmap im j = 0xFFFFFFFF)
     \<and> (\<forall>i<length hs. entry_ok P (get_file (64 * i) (ents d)) (diskmap im) (hs ! i))"

lemma MAXFILESIZE_eq: "MAXFILESIZE = 4235264"
  by (simp add: MAXFILESIZE_def NDIRECT_def NINDIRECT_def)

lemma word_of_bytes:
  assumes "\<And>i. i < 4 \<Longrightarrow> blk_byte m' (4 * j + i) = blk_byte m (4 * j + i)"
  shows "m' j = m j"
proof -
  have "(\<lambda>_ :: nat. m' j) = (\<lambda>_. m j)"
  proof (rule block_ext)
    fix i
    show "blk_byte (\<lambda>_. m' j) i = blk_byte (\<lambda>_. m j) i" using assms [of "i mod 4"] by (simp add: blk_byte_def)
  qed
  then show ?thesis by (simp add: fun_eq_iff)
qed

lemma entry_ok_cong:
  assumes e: "entry_ok P w m h" and h: "length (last_part (h_name h)) < 128" and w: "\<And>k. k < 64 \<Longrightarrow> w' k = w k"
  shows "entry_ok P w' m h"
proof -
  have "wptr w' m k = wptr w m k" for k using w by (simp add: wptr_def)
  moreover have "blk_byte w' b = blk_byte w b" if "b \<le> length (last_part (h_name h))" for b
    using that h w by (intro blk_byte_word_cong) (simp add: less_mult_imp_div_less)
  ultimately show ?thesis using e w by (simp add: entry_ok_def file_at_def named_def)
qed

lemma new_file_at:
  assumes w: "w 32 = of_nat (length bytes)"
    and m: "\<And>i. 4096 * P \<le> i \<Longrightarrow> i < 4096 * P + length bytes \<Longrightarrow> blk_byte m i = bytes ! (i - 4096 * P)"
    and ptrs: "\<forall>k<nblk (length bytes). wptr w m k = P + k" "10 < nblk (length bytes) \<longrightarrow> unat (w 44) = P + nblk (length bytes)"
    and L: "length bytes < 4235264" "3 \<le> P"
  shows "file_at w m (P + (nblk (length bytes) + extra (length bytes))) bytes"
proof -
  have "blk_byte m (4096 * (P + p div 4096) + p mod 4096) = bytes ! p" if "p < length bytes" for p
  proof -
    have "4096 * (P + p div 4096) + p mod 4096 = 4096 * P + p" by simp
    then show ?thesis using m [of "4096 * P + p"] that by (simp only: add_less_cancel_left le_add1 add_diff_cancel_left')
  qed
  then show ?thesis using w ptrs L nblk_div [of _ "length bytes"] by (auto simp: file_at_def extra_def)
qed

text \<open>A name of at most 127 bytes stays in its field.\<close>

lemma new_named:
  assumes nm: "length name < 128"
    and w: "\<forall>k<32. w k = get_file (64 * i) ((put_bytes (256 * i) (name @ [0]) e)(64 * i + 33 := type)) k"
  shows "named w name"
  unfolding named_def
proof (intro allI impI)
  let ?e = "(put_bytes (256 * i) (name @ [0]) e)(64 * i + 33 := type)"
  fix c assume c: "c \<le> length name"
  then have c4: "c div 4 < 32" using nm by (simp add: less_mult_imp_div_less)
  have "blk_byte w c = blk_byte (get_file (64 * i) ?e) c" using w c4 by (intro blk_byte_word_cong) simp
  also have "\<dots> = blk_byte (put_bytes (256 * i) (name @ [0]) e) (256 * i + c)"
  proof -
    have "(256 * i + c) div 4 = 64 * i + c div 4" using div_mult_self1 [of 4 c "64 * i"] by (simp add: add.commute)
    then show ?thesis unfolding blk_byte_get_file using c4 by (simp add: blk_byte_def)
  qed
  finally show "blk_byte w c = (name @ [0]) ! c" using c by (simp add: blk_byte_put_bytes)
qed

lemma writefile_built:
  assumes b: "built nb P hs d im" and h: "host_ok h" and hs: "\<forall>h\<in>set hs. host_ok h" and n: "length hs < 128"
    and room: "P + cost h < unat nb" and chunk: "\<And>p. 0 < chunk p"
  shows "\<exists>d' im'. writefile chunk nb h (d, im) = Some (d', im') \<and> built nb (P + cost h) (hs @ [h]) d' im'"
proof -
  let ?i = "length hs" and ?L = "length (h_bytes h)" and ?name = "last_part (h_name h)" and ?m = "diskmap im"
  have L: "?L < 4235264" and nm: "length ?name < 128" using h by (simp_all add: host_ok_def MAXFILESIZE_eq MAXNAMELEN_def)
  have pos: "diskpos im = 4096 * P" "3 \<le> P" "unat nb \<le> 1024" "dir_n d = ?i" using b by (simp_all add: built_def)
  let ?e = "(put_bytes (256 * ?i) (?name @ [0]) (ents d))(64 * ?i + 33 := FTYPE_REG)"
  have da: "diradd d FTYPE_REG ?name = Some (?i, \<lparr>ents = ?e, dir_n = ?i + 1\<rparr>)" using n pos(4) by (simp add: diradd_def MAX_DIR_ENTS_def Let_def)
  have al: "alloc nb (of_nat ?L) im = Some (4096 * P, im\<lparr>diskpos := 4096 * (P + nblk ?L)\<rparr>)"
    using alloc_spec [OF pos(1), of ?L nb] room pos(3) L by (simp add: cost_def)
  obtain m1 where m1: "readn_host chunk (h_bytes h) (4096 * P) ?L 0 ?m = Some m1"
    "\<forall>i. blk_byte m1 i = (if 4096 * P \<le> i \<and> i < 4096 * P + ?L then h_bytes h ! (i - 4096 * P) else blk_byte ?m i)"
    using readn_host_spec [of chunk 0 "h_bytes h" "4096 * P" ?m] chunk by auto
  have low: "m1 j = ?m j" if "j < 1024 * P" for j using m1(2) that by (intro word_of_bytes) auto
  let ?im = "\<lparr>diskmap = m1, diskpos = 4096 * (P + nblk ?L)\<rparr>"
  obtain w' m2 where ff: "finishfile nb (get_file (64 * ?i) ?e) (of_nat P) (of_nat ?L) ?im = Some (w', \<lparr>diskmap = m2, diskpos = 4096 * (P + nblk ?L + extra ?L)\<rparr>)"
    "w' 32 = of_nat ?L" "\<forall>k<32. w' k = get_file (64 * ?i) ?e k" "\<forall>j. j < 1024 * (P + nblk ?L) \<longrightarrow> m2 j = m1 j"
    "\<forall>k<nblk ?L. wptr w' m2 k = P + k" "10 < nblk ?L \<longrightarrow> unat (w' 44) = P + nblk ?L"
    using finishfile_spec [of ?im "P + nblk ?L" ?L nb P "get_file (64 * ?i) ?e"] L room pos(3) by (auto simp: cost_def)
  have low2: "m2 j = ?m j" if "j < 1024 * P" for j using ff(4) low that by simp
  have "blk_byte m2 q = h_bytes h ! (q - 4096 * P)" if q: "4096 * P \<le> q" "q < 4096 * P + ?L" for q
  proof -
    have "q - 4096 * P < 4096 * nblk ?L" using nblk_div [of "q - 4096 * P" ?L] q by (simp add: div_less_iff_less_mult mult.commute)
    then have "q < 4096 * (P + nblk ?L)" unfolding distrib_left using q(1) by linarith
    then have "blk_byte m2 q = blk_byte m1 q" using ff(4) by (intro blk_byte_word_cong) (simp add: div_less_iff_less_mult)
    then show ?thesis using m1(2) q by simp
  qed
  then have fa: "file_at w' m2 (P + cost h) (h_bytes h)"
    using new_file_at [OF ff(2) _ ff(5,6) L pos(2)] by (simp add: cost_def)
  have nd: "named w' ?name" using new_named [OF nm] ff(3) by blast
  let ?d = "\<lparr>ents = put_words (64 * ?i) 64 w' ?e, dir_n = ?i + 1\<rparr>"
  have wr: "writefile chunk nb h (d, im) = Some (?d, \<lparr>diskmap = m2, diskpos = 4096 * (P + cost h)\<rparr>)"
    using h da al m1(1) ff(1) by (simp add: writefile_def host_ok_def cost_def add.assoc Let_def)
  have "entry_ok (P + cost h) (get_file (64 * i) (ents ?d)) m2 ((hs @ [h]) ! i)" if i: "i < length (hs @ [h])" for i
  proof (cases "i = ?i")
    case True
    have "entry_ok (P + cost h) w' m2 h" using fa nd by (simp add: entry_ok_def)
    then have "entry_ok (P + cost h) (get_file (64 * ?i) (ents ?d)) m2 h"
      using nm by (rule entry_ok_cong) (simp add: get_file_def put_words_apply)
    then show ?thesis using True by simp
  next
    case False
    then have i: "i < ?i" using i by simp
    then have "entry_ok P (get_file (64 * i) (ents d)) ?m (hs ! i)" using b by (simp add: built_def)
    then have "entry_ok (P + cost h) (get_file (64 * i) (ents d)) m2 (hs ! i)"
      using file_at_frame [of _ ?m P _ m2 "P + cost h"] low2 by (simp add: entry_ok_def)
    moreover have "length (last_part (h_name (hs ! i))) < 128" using hs i by (simp add: host_ok_def MAXNAMELEN_def)
    moreover have "get_file (64 * i) (ents ?d) k = get_file (64 * i) (ents d) k" if "k < 64" for k
    proof -
      have "64 * i + k < 64 * ?i" using i that by linarith
      then show ?thesis by (simp add: get_file_def put_words_apply put_bytes_word)
    qed
    ultimately have "entry_ok (P + cost h) (get_file (64 * i) (ents ?d)) m2 (hs ! i)" by (rule entry_ok_cong)
    then show ?thesis using i by (simp add: nth_append)
  qed
  then have "built nb (P + cost h) (hs @ [h]) ?d \<lparr>diskmap = m2, diskpos = 4096 * (P + cost h)\<rparr>"
    using b room low2 pos(2) by (simp add: built_def)
  then show ?thesis using wr by blast
qed

lemma writefiles_built:
  assumes "built nb P hs d im" and "\<forall>h\<in>set (hs @ fs). host_ok h" and "length hs + length fs \<le> 128"
    and "P + sum_list (map cost fs) < unat nb" and chunk: "\<And>p. 0 < chunk p"
  shows "\<exists>d' im'. writefiles chunk nb fs (d, im) = Some (d', im') \<and> built nb (P + sum_list (map cost fs)) (hs @ fs) d' im'"
  using assms(1-4)
proof (induction fs arbitrary: P hs d im)
  case (Cons h fs)
  obtain d1 im1 where 1: "writefile chunk nb h (d, im) = Some (d1, im1)" "built nb (P + cost h) (hs @ [h]) d1 im1"
    using writefile_built [OF Cons.prems(1), of h chunk] chunk Cons.prems(2-4) by auto
  obtain d2 im2 where "writefiles chunk nb fs (d1, im1) = Some (d2, im2)"
    "built nb (P + cost h + sum_list (map cost fs)) ((hs @ [h]) @ fs) d2 im2"
    using Cons.IH [OF 1(2)] Cons.prems(2-4) by auto
  then show ?case using 1(1) by (simp add: add.assoc)
qed simp

section \<open>The directory and the bitmap\<close>

lemma opendisk_built:
  assumes nb: "3 < unat nb" "unat nb \<le> 1024"
  shows "\<exists>im. opendisk nb = Some (4096, 8192, im) \<and> built nb 3 [] (startdir heap) im"
proof -
  have one: "nblk 4096 = 1" by (simp add: nblk_def)
  let ?im = "\<lparr>diskmap = (\<lambda>_. 0), diskpos = 0\<rparr> :: Image"
  have a1: "alloc nb BLKSIZE ?im = Some (0, ?im\<lparr>diskpos := 4096\<rparr>)"
    using alloc_spec [of ?im 0 4096 nb] nb by (simp add: one BLKSIZE_def)
  have a2: "alloc nb BLKSIZE (?im\<lparr>diskpos := 4096\<rparr>) = Some (4096, ?im\<lparr>diskpos := 8192\<rparr>)"
    using alloc_spec [of "?im\<lparr>diskpos := 4096\<rparr>" 1 4096 nb] nb by (simp add: one BLKSIZE_def)
  let ?m = "put_bytes (4096 + 8) [47, 0] ((\<lambda>_. 0)(1024 := FS_MAGIC, 1025 := nb, 1059 := FTYPE_DIR)) :: block"
  have n: "(nb + of_nat BLKBITSIZE - 1) div of_nat BLKBITSIZE = 1"
  proof -
    have u: "unat (nb + 32767) = unat nb + 32767" using nb by (simp add: unat_word_ariths)
    have "(unat nb + 32767) div 32768 = 1" using nb by (intro div_nat_eqI) simp_all
    then have "unat ((nb + 32767) div 32768) = unat (1 :: u32)" by (simp add: unat_div u)
    then have "(nb + 32767) div 32768 = 1" by (simp only: word_unat_eq_iff)
    then show ?thesis by (simp add: BLKBITSIZE_def add.commute)
  qed
  have a3: "alloc nb BLKSIZE \<lparr>diskmap = ?m, diskpos = 8192\<rparr> = Some (8192, \<lparr>diskmap = ?m, diskpos = 12288\<rparr>)"
    using alloc_spec [of "\<lparr>diskmap = ?m, diskpos = 8192\<rparr>" 2 4096 nb] nb by (simp add: one BLKSIZE_def)
  let ?im3 = "\<lparr>diskmap = put_words 2048 1024 (\<lambda>_. 0xFFFFFFFF) ?m, diskpos = 12288\<rparr>"
  have "opendisk nb = Some (4096, 8192, ?im3)"
    unfolding opendisk_def n using a1 a2 a3 by (simp add: Let_def)
  moreover have "?m 1024 = FS_MAGIC" "?m 1025 = nb" "?m 1059 = FTYPE_DIR"
    by (simp_all add: put_bytes_word put_blk_byte_def)
  ultimately show ?thesis using nb by (simp add: built_def startdir_def put_words_apply)
qed

text \<open>What the image holds when \<open>finishdir\<close> and \<open>finishdisk\<close> are done: the directory in the \<open>D\<close> blocks from \<open>S\<close> on, and \<open>Q\<close> blocks in use.\<close>

definition dir_done :: "u32 \<Rightarrow> nat \<Rightarrow> nat \<Rightarrow> nat \<Rightarrow> Host_File list \<Rightarrow> block \<Rightarrow> bool" where
  "dir_done nb S D Q hs m \<longleftrightarrow> m 1024 = FS_MAGIC \<and> m 1025 = nb \<and> m 1059 = FTYPE_DIR \<and> m 1058 = of_nat (4096 * D)
     \<and> (\<forall>k<D. m (1060 + k) = of_nat (S + k)) \<and> D \<le> 8 \<and> D = nblk (256 * length hs)
     \<and> 3 \<le> S \<and> S + D = Q \<and> Q < unat nb \<and> unat nb \<le> 1024
     \<and> (\<forall>i<length hs. entry_ok Q (get_file (1024 * S + 64 * i) m) m (hs ! i))"

lemma finishdir_done:
  assumes b: "built nb P hs d im" and n: "length hs \<le> 128" "hs \<noteq> []" and hs: "\<forall>h\<in>set hs. host_ok h"
    and room: "P + nblk (256 * length hs) < unat nb"
  defines "Q \<equiv> P + nblk (256 * length hs)"
  shows "\<exists>im'. finishdir nb 4096 d im = Some im' \<and> diskpos im' = 4096 * Q
    \<and> dir_done nb P (nblk (256 * length hs)) Q hs (diskmap im') \<and> (\<forall>j. 2048 \<le> j \<and> j < 3072 \<longrightarrow> diskmap im' j = 0xFFFFFFFF)"
proof -
  let ?n = "length hs" and ?m = "diskmap im"
  define D where "D = nblk (256 * ?n)"
  have D8: "D \<le> 8" unfolding D_def nblk_def using n by (simp add: div_le_mono less_mult_imp_div_less)
  have pos: "diskpos im = 4096 * P" "3 \<le> P" "unat nb \<le> 1024" "dir_n d = ?n" using b by (simp_all add: built_def)
  have nD: "nblk (4096 * D) = D" by (simp add: nblk_def)
  have al: "alloc nb (word_of_int (int (?n * 256))) im = Some (4096 * P, im\<lparr>diskpos := 4096 * Q\<rparr>)"
    using alloc_spec [OF pos(1), of "?n * 256" nb] room pos(3) n by (simp add: Q_def mult.commute)
  have rd: "word_of_int (fmt_roundup_int (int (?n * 256)) (int (unat BLKSIZE))) = (of_nat (4096 * D) :: u32)"
    using fmt_roundup_int_spec [of "?n * 256"] n(2) by (simp add: D_def mult.commute)
  have Q: "Q = P + D" "Q < unat nb" using room by (simp_all add: Q_def D_def)
  let ?m1 = "put_words (1024 * P) (64 * ?n) (ents d) ?m"
  let ?im = "\<lparr>diskmap = ?m1, diskpos = 4096 * Q\<rparr>"
  have ex: "extra (4096 * D) = 0" using D8 by (simp add: extra_def nD)
  obtain w' m2 where ff: "finishfile nb (get_file 1026 ?m1) (of_nat P) (of_nat (4096 * D)) ?im = Some (w', \<lparr>diskmap = m2, diskpos = 4096 * Q\<rparr>)"
    "w' 32 = of_nat (4096 * D)" "w' 33 = get_file 1026 ?m1 33" "\<forall>j. j < 1024 * Q \<longrightarrow> m2 j = ?m1 j" "\<forall>k<D. wptr w' m2 k = P + k"
    using finishfile_spec [of ?im Q "4096 * D" nb P "get_file 1026 ?m1"] Q pos(3) D8 unfolding ex nD by auto
  let ?im' = "\<lparr>diskmap = put_words 1026 64 w' m2, diskpos = 4096 * Q\<rparr>"
  have fd: "finishdir nb 4096 d im = Some ?im'" using al rd ff(1) pos(4) by (simp add: finishdir_def Let_def)
  have low: "m2 j = ?m j" if "j < 1024 * P" for j using ff(4) that by (simp add: Q_def put_words_apply)
  have fr: "diskmap ?im' j = ?m j" if "j < 1024 * P" "j < 1026 \<or> 1090 \<le> j" for j using low that by (auto simp: put_words_apply)
  have P3: "3072 \<le> 1024 * P" using pos(2) by simp
  have ent: "diskmap ?im' (1024 * P + k) = ents d k" if k: "k < 64 * ?n" for k
  proof -
    have "k < 1024 * D"
    proof -
      have "4 * k div 4096 < D" unfolding D_def using k by (intro nblk_div) simp
      then show ?thesis by (simp add: div_less_iff_less_mult)
    qed
    then show ?thesis using k ff(4) P3 Q(1) by (simp add: put_words_apply)
  qed
  have e: "entry_ok Q (get_file (1024 * P + 64 * i) (diskmap ?im')) (diskmap ?im') (hs ! i)" if i: "i < ?n" for i
  proof -
    have "entry_ok P (get_file (64 * i) (ents d)) ?m (hs ! i)" using b i by (simp add: built_def)
    then have "entry_ok Q (get_file (64 * i) (ents d)) (diskmap ?im') (hs ! i)"
      using file_at_frame [of _ ?m P _ "diskmap ?im'" Q] fr Q(1) by (simp add: entry_ok_def)
    moreover have "length (last_part (h_name (hs ! i))) < 128" using hs i by (simp add: host_ok_def MAXNAMELEN_def)
    moreover have "get_file (1024 * P + 64 * i) (diskmap ?im') k = get_file (64 * i) (ents d) k" if "k < 64" for k
      using ent [of "64 * i + k"] that i by (simp add: get_file_def add.assoc)
    ultimately show ?thesis by (rule entry_ok_cong)
  qed
  have root: "diskmap ?im' (1026 + k) = w' k" if "k < 64" for k using that by (simp add: put_words_apply)
  have dir: "diskmap ?im' (1060 + k) = of_nat (P + k)" if "k < D" for k
  proof -
    have "unat (w' (34 + k)) = P + k" using ff(5) that D8 by (simp add: wptr_def)
    then have "w' (34 + k) = of_nat (P + k)" by (rule unat_eq_of_nat_u32)
    then show ?thesis using that D8 by (simp add: put_words_apply)
  qed
  have sup: "diskmap ?im' 1024 = FS_MAGIC" "diskmap ?im' 1025 = nb" "diskmap ?im' 1059 = FTYPE_DIR" "diskmap ?im' 1058 = of_nat (4096 * D)"
    using fr [of 1024] fr [of 1025] root [of 33] root [of 32] ff(2,3) b P3 by (simp_all add: built_def get_file_def put_words_apply)
  have bm: "diskmap ?im' j = 0xFFFFFFFF" if "2048 \<le> j" "j < 3072" for j using that b fr [of j] P3 by (simp add: built_def)
  have "dir_done nb P D Q hs (diskmap ?im')"
    unfolding dir_done_def using sup dir D8 D_def pos(2,3) Q e by blast
  then show ?thesis using fd bm unfolding D_def by auto
qed

definition clear_used :: "nat \<Rightarrow> block \<Rightarrow> block" where
  "clear_used n m = fold (\<lambda>i m. m(2048 + i div 32 := m (2048 + i div 32) AND NOT (push_bit (i mod 32) 1))) [0..<n] m"

lemma clear_used_Suc: "clear_used (Suc n) m = (clear_used n m)(2048 + n div 32 := clear_used n m (2048 + n div 32) AND NOT (push_bit (n mod 32) 1))"
  by (simp add: clear_used_def)

lemma clear_used_frame: "j < 2048 \<or> 2048 + n \<le> j \<Longrightarrow> clear_used n m j = m j"
proof (induction n)
  case (Suc n)
  have "j \<noteq> 2048 + n div 32" using Suc.prems div_le_dividend [of n 32] by linarith
  then show ?case using Suc by (auto simp: clear_used_Suc)
qed (simp add: clear_used_def)

lemma clear_used_bits: "t < 32 \<Longrightarrow> bit (clear_used n m (2048 + q)) t \<longleftrightarrow> bit (m (2048 + q)) t \<and> n \<le> 32 * q + t"
proof (induction n)
  case (Suc n)
  have "n div 32 = q \<and> n mod 32 = t \<longleftrightarrow> n = 32 * q + t"
    using Suc.prems div_mult_mod_eq [of n 32] by auto
  then show ?case using Suc by (auto simp: clear_used_Suc bit_simps)
qed (simp add: clear_used_def)

text \<open>The whole image: the bitmap says which blocks are used.\<close>

definition formatted :: "u32 \<Rightarrow> nat \<Rightarrow> nat \<Rightarrow> nat \<Rightarrow> Host_File list \<Rightarrow> block \<Rightarrow> bool" where
  "formatted nb S D Q hs m \<longleftrightarrow> dir_done nb S D Q hs m
     \<and> (\<forall>b<1024. bit (m (2048 + b div 32)) (b mod 32) \<longleftrightarrow> Q \<le> b)"

lemma finishdisk_formatted:
  assumes d: "dir_done nb S D Q hs (diskmap im)" and p: "diskpos im = 4096 * Q"
    and ones: "\<forall>j. 2048 \<le> j \<and> j < 3072 \<longrightarrow> diskmap im j = 0xFFFFFFFF" and hs: "\<forall>h\<in>set hs. host_ok h"
  shows "formatted nb S D Q hs (finishdisk 8192 im)"
proof -
  let ?m = "diskmap im" and ?m' = "clear_used Q (diskmap im)"
  have Q: "Q < 1024" "3 \<le> S" using d by (simp_all add: dir_done_def)
  have "unat (blockof (diskpos im)) = Q" using Q by (simp add: p unat_of_nat)
  then have eq: "finishdisk 8192 im = ?m'" by (simp add: finishdisk_def clear_used_def)
  have fr: "?m' j = ?m j" if "j < 2048 \<or> 3072 \<le> j" for j using that Q by (intro clear_used_frame) auto
  have "entry_ok Q (get_file (1024 * S + 64 * i) ?m') ?m' (hs ! i)" if i: "i < length hs" for i
  proof -
    have "entry_ok Q (get_file (1024 * S + 64 * i) ?m) ?m (hs ! i)" using d i by (simp add: dir_done_def)
    then have "entry_ok Q (get_file (1024 * S + 64 * i) ?m) ?m' (hs ! i)"
      using file_at_frame [of _ ?m Q _ ?m' Q] fr by (simp add: entry_ok_def)
    moreover have "length (last_part (h_name (hs ! i))) < 128" using hs i by (simp add: host_ok_def MAXNAMELEN_def)
    moreover have "get_file (1024 * S + 64 * i) ?m' k = get_file (1024 * S + 64 * i) ?m k" for k
      using fr Q by (simp add: get_file_def)
    ultimately show ?thesis by (rule entry_ok_cong)
  qed
  moreover have "?m' (1060 + k) = ?m (1060 + k)" if "k < D" for k
    using fr that d by (simp add: dir_done_def)
  ultimately have "dir_done nb S D Q hs ?m'" using d fr by (simp add: dir_done_def)
  moreover have "bit (?m' (2048 + b div 32)) (b mod 32) \<longleftrightarrow> Q \<le> b" if "b < 1024" for b
  proof -
    have "?m (2048 + b div 32) = mask 32" using ones that by (simp add: mask_numeral)
    then show ?thesis using clear_used_bits [of "b mod 32" Q ?m "b div 32"] by (simp add: bit_simps)
  qed
  ultimately show ?thesis by (simp add: formatted_def eq)
qed

lemma fsformat_formats:
  assumes hs: "\<forall>h\<in>set hs. host_ok h" and n: "length hs \<le> 128" "hs \<noteq> []" and nb: "unat nb \<le> 1024"
    and room: "3 + sum_list (map cost hs) + nblk (256 * length hs) < unat nb" and chunk: "\<And>p. 0 < chunk p"
  shows "\<exists>m. fsformat chunk heap nb hs = Some m
    \<and> formatted nb (3 + sum_list (map cost hs)) (nblk (256 * length hs)) (3 + sum_list (map cost hs) + nblk (256 * length hs)) hs m"
proof -
  obtain im where o: "opendisk nb = Some (4096, 8192, im)" "built nb 3 [] (startdir heap) im"
    using opendisk_built [of nb heap] nb room by auto
  obtain d im1 where w: "writefiles chunk nb hs (startdir heap, im) = Some (d, im1)" "built nb (3 + sum_list (map cost hs)) hs d im1"
    using writefiles_built [OF o(2), of hs chunk] hs n(1) room chunk by auto
  obtain im2 where f: "finishdir nb 4096 d im1 = Some im2" "diskpos im2 = 4096 * (3 + sum_list (map cost hs) + nblk (256 * length hs))"
    "dir_done nb (3 + sum_list (map cost hs)) (nblk (256 * length hs)) (3 + sum_list (map cost hs) + nblk (256 * length hs)) hs (diskmap im2)"
    "\<forall>j. 2048 \<le> j \<and> j < 3072 \<longrightarrow> diskmap im2 j = 0xFFFFFFFF"
    using finishdir_done [OF w(2) n hs room] by blast
  have "\<not> nb < 2" "\<not> nb > 1024" using nb room by (simp_all add: word_less_nat_alt)
  then have "fsformat chunk heap nb hs = Some (finishdisk 8192 im2)" using o(1) w(1) f(1) by (simp add: fsformat_def)
  then show ?thesis using finishdisk_formatted [OF f(3,2,4) hs] by blast
qed

section \<open>The file system on the image\<close>

lemma mounted_blk [simp]: "blk (mounted m) b i = m (1024 * b + i)"
  by (simp add: mounted_def)

lemma mounted_byte: "blk_byte (blk (mounted m) b) i = blk_byte m (4096 * b + i)"
  using blk_byte_get_file [of "1024 * b" m i] by (simp add: mounted_def get_file_def)

lemma mounted_word: "f_word f k (mounted m) = get_file (1024 * fst f + snd f) m k"
  by (simp add: f_word_def get_file_def add.assoc)

lemma mounted_super: "s_nblocks (mounted m) = m 1025" "s_magic (mounted m) = m 1024"
  by (simp_all add: s_nblocks_def s_magic_def)

lemma mounted_free:
  assumes "formatted nb S D Q hs m"
  shows "free_set (mounted m) = {Q..<unat nb}"
proof -
  have d: "m 1025 = nb" "unat nb \<le> 1024" "\<forall>b<1024. bit (m (2048 + b div 32)) (b mod 32) \<longleftrightarrow> Q \<le> b"
    using assms by (simp_all add: formatted_def dir_done_def)
  have "bitmap (b div 32) (mounted m) = m (2048 + b div 32)" if "b < 1024" for b
  proof -
    have "b div 32 < 1024" using that by (simp add: less_mult_imp_div_less)
    then show ?thesis by (simp add: bitmap_def)
  qed
  then show ?thesis using d by (auto simp: free_set_def mounted_super)
qed

lemma mounted_checks:
  assumes "formatted nb S D Q hs m"
  shows "check_super (mounted m) = Some (mounted m)" and "check_bitmap (mounted m) = Some (mounted m)"
proof -
  have d: "m 1024 = FS_MAGIC" "m 1025 = nb" "unat nb \<le> 1024" "3 \<le> Q"
    using assms by (simp_all add: formatted_def dir_done_def)
  show "check_super (mounted m) = Some (mounted m)"
    using d by (simp add: check_super_def mounted_super word_less_nat_alt DISKSIZE_def BLKSIZE_def unat_div)
  have f: "\<not> block_is_free (of_nat b) (mounted m)" if "b < 3" for b
    using block_is_free_iff [of b "mounted m"] mounted_free [OF assms] that d(4) by simp
  have "(unat nb + 32767) div 32768 \<le> 1" using d(3) by (simp add: less_mult_imp_div_less div_le_mono)
  then have "i = 0" if "i < (unat (m 1025) + BLKBITSIZE - 1) div BLKBITSIZE" for i using that d(2) by (simp add: BLKBITSIZE_def)
  then have "\<not> block_is_free (2 + of_nat i) (mounted m)" if "i < (unat (m 1025) + BLKBITSIZE - 1) div BLKBITSIZE" for i
    using that f [of 2] by fastforce
  then show "check_bitmap (mounted m) = Some (mounted m)"
    using f [of 0] f [of 1] by (auto simp: check_bitmap_def mounted_super)
qed

text \<open>A file all of whose blocks are there is read without any change.\<close>

lemma get_block_present:
  assumes n: "n < 1034" and p: "ptr f n st \<noteq> 0" "addr_of (ptr f n st) st = Some (unat (ptr f n st))"
    and ind: "10 \<le> n \<longrightarrow> addr_of (f_indirect f st) st = Some (unat (f_indirect f st)) \<and> f_indirect f st \<noteq> 0"
  shows "file_get_block f (of_nat n) st = Some (Inr (unat (ptr f n st)), st)"
proof -
  have u: "unat (of_nat n :: u32) = n" using n by (simp add: unat_of_nat)
  have "file_block_walk f (of_nat n) True st = Some (Inr (loc f n st), st)"
    using n ind u by (auto simp: file_block_walk_def loc_def NDIRECT_def NINDIRECT_def)
  moreover have "blk st (fst (loc f n st)) (snd (loc f n st)) = ptr f n st"
    using n ind by (auto simp: loc_def ptr_def f_direct_def f_word_def add.assoc)
  ultimately show ?thesis using p by (simp add: file_get_block_def)
qed

lemma read_loop_present:
  assumes "P \<le> L" and L: "L \<le> 4235264"
    and g: "\<And>n. n < nblk L \<Longrightarrow> ptr f n st \<noteq> 0 \<and> file_get_block f (of_nat n) st = Some (Inr (unat (ptr f n st)), st)"
  shows "file_read_loop f (of_nat P) (of_nat L) buf st = Some (Inr (buf @ map (\<lambda>p. fbyte f p st) [P..<L]), st)"
  using assms(1)
proof (induction "L - P" arbitrary: P buf rule: less_induct)
  case less
  show ?case
  proof (cases "P < L")
    case False
    then show ?thesis using less.prems by (subst file_read_loop.simps) simp
  next
    case True
    let ?n = "P div 4096" let ?E = "chunk_end P L"
    note w = chunk_words [OF True L] and c = chunk [OF True]
    have gn: "ptr f ?n st \<noteq> 0" "file_get_block f (of_nat ?n) st = Some (Inr (unat (ptr f ?n st)), st)" using g nblk_div [OF True] by simp_all
    let ?chunk = "map (\<lambda>i. blk_byte (blk st (unat (ptr f ?n st))) (P mod 4096 + i)) [0..<?E - P]"
    have byte: "blk_byte (blk st (unat (ptr f ?n st))) (P mod 4096 + i) = fbyte f (P + i) st" if "i < ?E - P" for i
      using c(3) [of "P + i"] that gn(1) by (simp add: fbyte_def)
    have ch: "?chunk = map (\<lambda>p. fbyte f p st) [P..<?E]" by (rule nth_equalityI) (simp_all add: byte)
    have app: "[P..<L] = [P..<?E] @ [?E..<L]" using upt_add_eq_append [of P ?E "L - ?E"] c(1,2) by simp
    have sm: "L - ?E < L - P" using c(1,2) by linarith
    have "file_read_loop f (of_nat P) (of_nat L) buf st = file_read_loop f (of_nat ?E) (of_nat L) (buf @ ?chunk) st"
      by (subst file_read_loop.simps) (simp only: w if_True if_False not_False_eq_True gn(2) bind.bind_lunit Let_def prod.case sum.case)
    also have "\<dots> = Some (Inr ((buf @ ?chunk) @ map (\<lambda>p. fbyte f p st) [?E..<L]), st)" by (rule less.hyps [OF sm c(2)])
    finally show ?thesis unfolding ch app by simp
  qed
qed

lemma mounted_file:
  assumes f: "formatted nb S D Q hs m" and e: "file_at (get_file (1024 * fst fp + snd fp) m) m Q bytes"
  shows "n < nblk (length bytes) \<Longrightarrow> unat (ptr fp n (mounted m)) = wptr (get_file (1024 * fst fp + snd fp) m) m n"
    and "n < nblk (length bytes) \<Longrightarrow> file_get_block fp (of_nat n) (mounted m) = Some (Inr (unat (ptr fp n (mounted m))), mounted m)"
    and "p < length bytes \<Longrightarrow> fbyte fp p (mounted m) = bytes ! p"
    and "n < nblk (length bytes) \<Longrightarrow> 3 \<le> unat (ptr fp n (mounted m)) \<and> unat (ptr fp n (mounted m)) < Q"
    and "10 < nblk (length bytes) \<Longrightarrow> 3 \<le> unat (f_indirect fp (mounted m)) \<and> unat (f_indirect fp (mounted m)) < Q"
proof -
  let ?w = "get_file (1024 * fst fp + snd fp) m" and ?st = "mounted m" and ?L = "length bytes"
  have q: "?L < 4235264" "10 < nblk ?L \<Longrightarrow> 3 \<le> unat (?w 44) \<and> unat (?w 44) < Q" "\<And>k. k < nblk ?L \<Longrightarrow> 3 \<le> wptr ?w m k \<and> wptr ?w m k < Q"
    "\<And>p. p < ?L \<Longrightarrow> blk_byte m (4096 * wptr ?w m (p div 4096) + p mod 4096) = bytes ! p" using e by (auto simp: file_at_def)
  have nb: "s_nblocks ?st = nb" "Q < unat nb" using f by (simp_all add: formatted_def dir_done_def mounted_super)
  have ad: "addr_of v ?st = Some (unat v) \<and> v \<noteq> 0" if "3 \<le> unat v" "unat v < Q" for v
    using that nb by (auto simp: addr_of_def word_le_nat_alt)
  have ind: "f_indirect fp ?st = ?w 44" "f_direct fp i ?st = ?w (34 + i)" for i by (simp_all add: f_indirect_def f_direct_def mounted_word)
  have pt: "unat (ptr fp n ?st) = wptr ?w m n" if n: "n < nblk ?L" for n
  proof (cases "n < 10")
    case False
    then have "10 < nblk ?L" "n \<noteq> 1034" using n nblk_max [OF q(1)] by linarith+
    then have "?w 44 \<noteq> 0" using q(2) by force
    then show ?thesis using False \<open>n \<noteq> 1034\<close> by (simp add: ptr_def ind wptr_def)
  qed (simp add: ptr_def ind wptr_def)
  show "10 < nblk ?L \<Longrightarrow> 3 \<le> unat (f_indirect fp ?st) \<and> unat (f_indirect fp ?st) < Q" using q(2) unfolding ind by simp
  from pt show "n < nblk ?L \<Longrightarrow> unat (ptr fp n ?st) = wptr ?w m n" .
  show "n < nblk ?L \<Longrightarrow> 3 \<le> unat (ptr fp n ?st) \<and> unat (ptr fp n ?st) < Q" using pt q(3) by simp
  show "file_get_block fp (of_nat n) ?st = Some (Inr (unat (ptr fp n ?st)), ?st)" if n: "n < nblk ?L"
  proof (rule get_block_present)
    show "n < 1034" using n nblk_max [OF q(1)] by simp
    have "3 \<le> unat (ptr fp n ?st)" "unat (ptr fp n ?st) < Q" using pt [OF n] q(3) [OF n] by simp_all
    then show "ptr fp n ?st \<noteq> 0" "addr_of (ptr fp n ?st) ?st = Some (unat (ptr fp n ?st))" using ad by blast+
    show "10 \<le> n \<longrightarrow> addr_of (f_indirect fp ?st) ?st = Some (unat (f_indirect fp ?st)) \<and> f_indirect fp ?st \<noteq> 0"
      using ad [of "?w 44"] q(2) n unfolding ind by auto
  qed
  show "fbyte fp p ?st = bytes ! p" if p: "p < ?L"
  proof -
    have "unat (ptr fp (p div 4096) ?st) = wptr ?w m (p div 4096)" using pt nblk_div [OF p] by blast
    moreover have "ptr fp (p div 4096) ?st \<noteq> 0" using calculation q(3) [OF nblk_div [OF p]] by force
    ultimately show ?thesis using q(4) [OF p] by (simp add: fbyte_def mounted_byte)
  qed
qed

lemma mounted_read:
  assumes f: "formatted nb S D Q hs m" and e: "file_at (get_file (1024 * fst fp + snd fp) m) m Q bytes"
  shows "file_read fp cnt 0 (mounted m) = Some (Inr (take (unat cnt) bytes), mounted m)"
proof -
  let ?st = "mounted m" and ?L = "length bytes"
  have L: "?L < 4235264" and sz: "f_size fp ?st = of_nat ?L" using e by (simp_all add: file_at_def f_size_def mounted_word)
  have u: "unat (of_nat ?L :: u32) = ?L" using L by (simp add: unat_of_nat)
  show ?thesis
  proof (cases "?L = 0")
    case True
    then show ?thesis using sz by (simp add: file_read_def)
  next
    case False
    let ?K = "min (unat cnt) ?L"
    have "sint (f_size fp ?st) = int ?L" using sint_small [of "of_nat ?L"] u L sz by simp
    then have "\<not> sint (0 :: u32) \<ge> sint (f_size fp ?st)" using False by simp
    moreover have "min cnt (f_size fp ?st - 0) = of_nat ?K"
      by (rule unat_eq_of_nat_u32) (simp add: sz u min_def word_le_nat_alt)
    ultimately have "file_read fp cnt 0 ?st = file_read_loop fp (of_nat 0) (of_nat ?K) [] ?st" by (simp add: file_read_def)
    also have "\<dots> = Some (Inr ([] @ map (\<lambda>p. fbyte fp p ?st) [0..<?K]), ?st)"
    proof (rule read_loop_present)
      show "?K \<le> 4235264" using L by simp
      fix n assume "n < nblk ?K"
      then have n: "n < nblk ?L" unfolding nblk_def using div_le_mono [of "?K + 4095" "?L + 4095" 4096] by simp
      have "3 \<le> unat (ptr fp n ?st)" using mounted_file(4) [OF f e n] by simp
      then have "ptr fp n ?st \<noteq> 0" by auto
      then show "ptr fp n ?st \<noteq> 0 \<and> file_get_block fp (of_nat n) ?st = Some (Inr (unat (ptr fp n ?st)), ?st)"
        using mounted_file(2) [OF f e n] by simp
    qed simp
    also have "map (\<lambda>p. fbyte fp p ?st) [0..<?K] = take (unat cnt) bytes"
      by (rule nth_equalityI) (simp_all add: mounted_file(3) [OF f e])
    finally show ?thesis by simp
  qed
qed

text \<open>Looking up a name in the root directory.\<close>

lemma name_is_named: "name_is (b, 64 * j) name (mounted m) \<longleftrightarrow> named (get_file (1024 * b + 64 * j) m) name"
proof -
  have "f_name_byte (b, 64 * j) i (mounted m) = blk_byte (get_file (1024 * b + 64 * j) m) i" for i
    by (simp add: f_name_byte_def mounted_byte blk_byte_get_file add.assoc)
  moreover have "map g [0..<Suc (length name)] = name @ [0] \<longleftrightarrow> (\<forall>b\<le>length name. g b = (name @ [0]) ! b)" for g :: "nat \<Rightarrow> u8"
    by (simp add: list_eq_iff_nth_eq less_Suc_eq_le del: upt_Suc)
  ultimately show ?thesis by (simp add: name_is_def named_def)
qed

lemma named_unique:
  assumes "named w a" "named w b" "0 \<notin> set a" "0 \<notin> set b"
  shows "a = b"
proof -
  have "length x \<le> length y" if "named w x" "named w y" "0 \<notin> set x" for x y
  proof (rule ccontr)
    assume "\<not> length x \<le> length y"
    then have "x ! length y = 0" using that(1,2) by (auto simp: named_def nth_append)
    then show False using that(3) \<open>\<not> length x \<le> length y\<close> by (metis nth_mem not_less linorder_not_le)
  qed
  then have len: "length a = length b" using assms by (simp add: le_antisym)
  show ?thesis
  proof (rule nth_equalityI [OF len])
    fix i assume i: "i < length a"
    then have "blk_byte w i = (a @ [0]) ! i" "blk_byte w i = (b @ [0]) ! i" using assms(1,2) len by (simp_all add: named_def)
    then show "a ! i = b ! i" using i len by (simp add: nth_append)
  qed
qed

lemma root_blocks:
  assumes f: "formatted nb S D Q hs m" and k: "k < D"
  shows "file_get_block s_root (of_nat k) (mounted m) = Some (Inr (S + k), mounted m)"
proof -
  have d: "\<forall>k<D. m (1060 + k) = of_nat (S + k)" "D \<le> 8" "3 \<le> S" "S + D = Q" "Q < unat nb" "m 1025 = nb" "unat nb \<le> 1024"
    using f by (simp_all add: formatted_def dir_done_def)
  have p: "ptr s_root k (mounted m) = of_nat (S + k)"
    using k d(1,2) by (simp add: ptr_def s_root_def f_direct_def mounted_word get_file_def)
  have u: "unat (of_nat (S + k) :: u32) = S + k" using k d by (simp add: unat_of_nat del: of_nat_add)
  then have "(of_nat (S + k) :: u32) \<noteq> 0" using d(3) by (metis add_is_0 not_numeral_le_zero unat_0)
  then have "ptr s_root k (mounted m) \<noteq> 0" "addr_of (ptr s_root k (mounted m)) (mounted m) = Some (unat (ptr s_root k (mounted m)))"
    unfolding p using k d(4-6) u by (simp_all add: addr_of_def mounted_super word_le_nat_alt del: of_nat_add)
  then show ?thesis using get_block_present [of k s_root "mounted m"] k d(2) u by (simp add: p del: of_nat_add)
qed

lemma entry_named:
  assumes f: "formatted nb S D Q hs m" and t: "t < length hs" "i \<le> t" and hs: "\<forall>h\<in>set hs. host_ok h"
    and dist: "distinct (map (\<lambda>h. last_part (h_name h)) hs)"
  shows "named (get_file (1024 * S + 64 * i) m) (last_part (h_name (hs ! t))) \<longleftrightarrow> i = t"
proof -
  have z: "0 \<notin> set (last_part (h_name h))" if "h \<in> set hs" for h
    using that hs by (auto simp: host_ok_def last_part_def dest: set_takeWhileD)
  have n: "named (get_file (1024 * S + 64 * i) m) (last_part (h_name (hs ! i)))"
    using f t by (simp add: formatted_def dir_done_def entry_ok_def)
  have in_hs: "hs ! i \<in> set hs" "hs ! t \<in> set hs" using t by simp_all
  have "i = t" if "named (get_file (1024 * S + 64 * i) m) (last_part (h_name (hs ! t)))"
  proof -
    have "last_part (h_name (hs ! i)) = last_part (h_name (hs ! t))" by (rule named_unique [OF n that z [OF in_hs(1)] z [OF in_hs(2)]])
    then show ?thesis using dist t nth_eq_iff_index_eq [OF dist, of i t] by simp
  qed
  then show ?thesis using n by blast
qed

lemma root_size:
  assumes "formatted nb S D Q hs m"
  shows "f_size s_root (mounted m) mod BLKSIZE = 0" and "dir_nblock s_root (mounted m) = D"
proof -
  have d: "D \<le> 8" "m 1058 = of_nat (4096 * D)" using assms by (simp_all add: formatted_def dir_done_def)
  have u: "unat (of_nat (4096 * D) :: u32) = 4096 * D" using d(1) by (simp add: unat_of_nat del: of_nat_mult)
  have sz: "f_size s_root (mounted m) = of_nat (4096 * D)" by (simp add: f_size_def mounted_word s_root_def get_file_def d(2))
  have "unat ((of_nat (4096 * D) :: u32) mod BLKSIZE) = 0" unfolding unat_mod u by simp
  then show "f_size s_root (mounted m) mod BLKSIZE = 0" unfolding sz by (simp only: unat_eq_zero)
  have "sint (f_size s_root (mounted m)) = int (4096 * D)"
    unfolding sz using sint_small [of "of_nat (4096 * D)", unfolded u] d(1) by (simp del: of_nat_mult)
  then show "dir_nblock s_root (mounted m) = D" using d(1) by (simp add: dir_nblock_def unat_of_nat)
qed

lemma lookup_loop_finds:
  assumes f: "formatted nb S D Q hs m" and t: "t < length hs" and hs: "\<forall>h\<in>set hs. host_ok h"
    and dist: "distinct (map (\<lambda>h. last_part (h_name h)) hs)"
  shows "q + k = D \<Longrightarrow> q \<le> t div 16 \<Longrightarrow> t div 16 < D \<Longrightarrow>
    dir_lookup_loop k q s_root (last_part (h_name (hs ! t))) (mounted m) = Some (Inr (S + t div 16, 64 * (t mod 16)), mounted m)"
proof (induction k arbitrary: q)
  case (Suc k)
  let ?P = "\<lambda>j. name_is (S + q, 64 * j) (last_part (h_name (hs ! t))) (mounted m)"
  have g: "file_get_block s_root (of_nat q) (mounted m) = Some (Inr (S + q), mounted m)" using root_blocks [OF f, of q] Suc.prems by simp
  have "?P j \<longleftrightarrow> named (get_file (1024 * S + 64 * (16 * q + j)) m) (last_part (h_name (hs ! t)))" for j
    unfolding name_is_named by (simp add: algebra_simps)
  then have at: "?P j \<longleftrightarrow> 16 * q + j = t" if "16 * q + j \<le> t" for j using entry_named [OF f t that hs dist] by simp
  show ?case
  proof (cases "q = t div 16")
    case True
    then have e: "16 * q + t mod 16 = t" by simp
    then have "?P (t mod 16)" "\<forall>j<t mod 16. \<not> ?P j" using at by auto
    then have "find ?P [0..<BLKFILES] = Some (t mod 16)" unfolding find_Some_iff BLKFILES_def
      by (intro exI [of _ "t mod 16"]) (auto simp: nth_upt less_trans [of _ "t mod 16" 16])
    then show ?thesis using g True by simp
  next
    case False
    then have "16 * q + j < t" if "j < 16" for j using Suc.prems(2) that by linarith
    then have "\<not> ?P j" if "j < 16" for j using at that by fastforce
    then have "find ?P [0..<BLKFILES] = None" by (simp add: find_None_iff BLKFILES_def)
    then show ?thesis using g Suc.IH [of "Suc q"] Suc.prems False by simp
  qed
qed simp

lemma dir_lookup_finds:
  assumes f: "formatted nb S D Q hs m" and t: "t < length hs" and hs: "\<forall>h\<in>set hs. host_ok h"
    and dist: "distinct (map (\<lambda>h. last_part (h_name h)) hs)"
  shows "dir_lookup s_root (last_part (h_name (hs ! t))) (mounted m) = Some (Inr (S + t div 16, 64 * (t mod 16)), mounted m)"
proof -
  have "D = nblk (256 * length hs)" using f by (simp add: formatted_def dir_done_def)
  then have "t div 16 < D" using nblk_div [of "256 * t" "256 * length hs"] div_mult_mult1 [of 256 t 16] t by simp
  then show ?thesis using lookup_loop_finds [OF f t hs dist, of 0 D] root_size [OF f] by (simp add: dir_lookup_def)
qed

lemma mounted_open:
  assumes f: "formatted nb S D Q hs m" and t: "t < length hs" and hs: "\<forall>h\<in>set hs. host_ok h"
    and dist: "distinct (map (\<lambda>h. last_part (h_name h)) hs)"
  shows "file_open (47 # last_part (h_name (hs ! t))) (mounted m) = Some (Inr (S + t div 16, 64 * (t mod 16)), mounted m)"
proof -
  let ?name = "last_part (h_name (hs ! t))" and ?st = "mounted m"
  have n: "?name \<noteq> []" "length ?name < MAXNAMELEN" using hs t by (simp_all add: host_ok_def)
  have ns: "47 \<notin> set ?name" by (auto simp: last_part_def dest: set_takeWhileD)
  have s: "skip_slash (47 # ?name) = ?name" using n(1) ns by (cases ?name) (auto simp: skip_slash_def)
  have tw: "takeWhile (\<lambda>c. c \<noteq> 47) ?name = ?name" "dropWhile (\<lambda>c. c \<noteq> 47) ?name = []" using ns by (auto simp: takeWhile_eq_all_conv)
  have ty: "f_type s_root ?st = FTYPE_DIR" using f by (simp add: formatted_def dir_done_def f_type_def mounted_word s_root_def get_file_def)
  have "walk_loop None s_root ?name ?st = walk_loop (Some s_root) (S + t div 16, 64 * (t mod 16)) [] ?st"
    using n ty dir_lookup_finds [OF f t hs dist] by (subst walk_loop.simps) (simp add: tw Let_def skip_slash_def)
  also have "\<dots> = Some (\<lparr>w_res = Inr (S + t div 16, 64 * (t mod 16)), w_dir = Some s_root, w_last = []\<rparr>, ?st)"
    by (subst walk_loop.simps) simp
  finally show ?thesis by (simp add: file_open_def walk_path_def s)
qed

section \<open>Properties\<close>

text \<open>C32. The file system reads back what the image builder wrote. For 1 to 128 regular files of the host with distinct
  names that fit onto the disk, and however the host delivers their bytes and whatever the memory for the directory held
  before, the builder ends without panic. On the image the checks of the file system pass; the free blocks are exactly
  those behind the boot block, the super block, the bitmap block, the files and the directory; every file is found in the root directory under the
  last part of its name, reading it gives its bytes and leaves the file system as it is, and neither the block of its
  directory entry nor one of its data blocks nor its indirect block is free.\<close>

theorem image_roundtrip:
  assumes "\<forall>h\<in>set hs. host_ok h" and "hs \<noteq> []" and "length hs \<le> MAX_DIR_ENTS" and "distinct (map (\<lambda>h. last_part (h_name h)) hs)"
    and "unat nb \<le> 1024" and "3 + sum_list (map cost hs) + nblk (256 * length hs) < unat nb" and "\<And>p. 0 < chunk p"
  shows "\<exists>m. fsformat chunk heap nb hs = Some m
    \<and> check_super (mounted m) = Some (mounted m) \<and> check_bitmap (mounted m) = Some (mounted m)
    \<and> free_set (mounted m) = {3 + sum_list (map cost hs) + nblk (256 * length hs)..<unat nb}
    \<and> (\<forall>h\<in>set hs. \<exists>fp. file_open (47 # last_part (h_name h)) (mounted m) = Some (Inr fp, mounted m)
        \<and> (\<forall>cnt. file_read fp cnt 0 (mounted m) = Some (Inr (take (unat cnt) (h_bytes h)), mounted m))
        \<and> fst fp \<notin> free_set (mounted m)
        \<and> (\<forall>n<nblk (length (h_bytes h)). unat (ptr fp n (mounted m)) \<notin> free_set (mounted m))
        \<and> (10 < nblk (length (h_bytes h)) \<longrightarrow> unat (f_indirect fp (mounted m)) \<notin> free_set (mounted m)))"
proof -
  let ?S = "3 + sum_list (map cost hs)" and ?D = "nblk (256 * length hs)"
  obtain m where m: "fsformat chunk heap nb hs = Some m" "formatted nb ?S ?D (?S + ?D) hs m"
    using fsformat_formats [of hs nb chunk heap] assms by (auto simp: MAX_DIR_ENTS_def)
  note free = mounted_free [OF m(2)]
  have "\<exists>fp. file_open (47 # last_part (h_name h)) (mounted m) = Some (Inr fp, mounted m)
        \<and> (\<forall>cnt. file_read fp cnt 0 (mounted m) = Some (Inr (take (unat cnt) (h_bytes h)), mounted m))
        \<and> fst fp \<notin> free_set (mounted m)
        \<and> (\<forall>n<nblk (length (h_bytes h)). unat (ptr fp n (mounted m)) \<notin> free_set (mounted m))
        \<and> (10 < nblk (length (h_bytes h)) \<longrightarrow> unat (f_indirect fp (mounted m)) \<notin> free_set (mounted m))" if h: "h \<in> set hs" for h
  proof -
    obtain t where t: "t < length hs" "h = hs ! t" using h by (auto simp: in_set_conv_nth)
    let ?fp = "(?S + t div 16, 64 * (t mod 16))"
    have "1024 * (t div 16) + 64 * (t mod 16) = 64 * t" using mult_div_mod_eq [of 16 t] by linarith
    then have a: "1024 * fst ?fp + snd ?fp = 1024 * ?S + 64 * t" by simp
    have e: "file_at (get_file (1024 * fst ?fp + snd ?fp) m) m (?S + ?D) (h_bytes h)"
      unfolding a using m(2) t by (simp add: formatted_def dir_done_def entry_ok_def)
    have "t div 16 < ?D"
      using nblk_div [of "256 * t" "256 * length hs"] div_mult_mult1 [of 256 t 16] t(1) by simp
    then have "fst ?fp \<notin> free_set (mounted m)" by (simp add: free)
    moreover have "unat (ptr ?fp n (mounted m)) \<notin> free_set (mounted m)" if "n < nblk (length (h_bytes h))" for n
      unfolding free using mounted_file(4) [OF m(2) e that] by simp
    moreover have "unat (f_indirect ?fp (mounted m)) \<notin> free_set (mounted m)" if "10 < nblk (length (h_bytes h))"
      unfolding free using mounted_file(5) [OF m(2) e that] by simp
    ultimately show ?thesis
      using mounted_open [OF m(2) t(1) assms(1,4)] mounted_read [OF m(2) e] t(2) by (intro exI [of _ ?fp]) simp
  qed
  then show ?thesis using m(1) mounted_checks [OF m(2)] by (auto simp: free)
qed

text \<open>Two files on a disk of 16 blocks; the memory for the directory is full of ones.\<close>

theorem image_roundtrip_witness:
  "\<exists>m fp. fsformat (\<lambda>_. 512) (\<lambda>_. 0xFFFFFFFF) 16 [\<lparr>h_name = [97, 47, 98], h_regular = True, h_bytes = [1, 2, 3]\<rparr>,
       \<lparr>h_name = [99], h_regular = True, h_bytes = replicate 5000 7\<rparr>] = Some m
    \<and> check_bitmap (mounted m) = Some (mounted m)
    \<and> file_open [47, 98] (mounted m) = Some (Inr fp, mounted m) \<and> file_read fp 10 0 (mounted m) = Some (Inr [1, 2, 3], mounted m)"
proof -
  let ?a = "\<lparr>h_name = [97, 47, 98], h_regular = True, h_bytes = [1, 2, 3]\<rparr> :: Host_File"
  let ?c = "\<lparr>h_name = [99], h_regular = True, h_bytes = replicate 5000 7\<rparr> :: Host_File"
  have l: "last_part (h_name ?a) = [98]" "last_part (h_name ?c) = [99]" by (simp_all add: last_part_def)
  have ok: "\<forall>h\<in>set [?a, ?c]. host_ok h" by (simp add: host_ok_def last_part_def MAXFILESIZE_eq MAXNAMELEN_def)
  have room: "3 + sum_list (map cost [?a, ?c]) + nblk (256 * length [?a, ?c]) < unat (16 :: u32)"
    by (simp add: cost_def extra_def nblk_def)
  obtain m where m: "fsformat (\<lambda>_. 512) (\<lambda>_. 0xFFFFFFFF) 16 [?a, ?c] = Some m" "check_bitmap (mounted m) = Some (mounted m)"
    "\<forall>h\<in>set [?a, ?c]. \<exists>fp. file_open (47 # last_part (h_name h)) (mounted m) = Some (Inr fp, mounted m)
        \<and> (\<forall>cnt. file_read fp cnt 0 (mounted m) = Some (Inr (take (unat cnt) (h_bytes h)), mounted m))"
    using image_roundtrip [OF ok _ _ _ _ room, of "\<lambda>_. 512" "\<lambda>_. 0xFFFFFFFF"] l by (auto simp: MAX_DIR_ENTS_def)
  then obtain fp where "file_open (47 # last_part (h_name ?a)) (mounted m) = Some (Inr fp, mounted m)"
    "\<And>cnt. file_read fp cnt 0 (mounted m) = Some (Inr (take (unat cnt) (h_bytes ?a)), mounted m)" by force
  then show ?thesis using m(1,2) unfolding l by (intro exI [of _ m] exI [of _ fp]) simp
qed

text \<open>The pointers behind the end of a short file are what the memory of the entry held before: \<open>startdir\<close> does not clear
  it, so that a file that grows later takes them for blocks.\<close>

lemma stale_pointers:
  assumes L: "L < 4235264" "nblk L < 10" and f: "finishfile nb w s (of_nat L) im = Some (w', im')"
  shows "w' 44 = w 44" and "nblk L \<le> k \<Longrightarrow> k < 10 \<Longrightarrow> w' (34 + k) = w (34 + k)"
proof -
  have n: "unat (fmt_roundup (of_nat L) BLKSIZE div BLKSIZE) = nblk L"
    using fmt_roundup_spec [of L] L(1) by (simp add: unat_div_distrib)
  have "w' = put_words 34 (nblk L) (\<lambda>k. s + of_nat k) (w(32 := of_nat L))"
    using f L(2) store_upto [of 34 "\<lambda>k. s + of_nat k"] by (auto simp: finishfile_def n NDIRECT_def Let_def)
  then show "w' 44 = w 44" "nblk L \<le> k \<Longrightarrow> k < 10 \<Longrightarrow> w' (34 + k) = w (34 + k)" using L(2) by (simp_all add: put_words_apply)
qed

text \<open>Without files the root directory gets the size of a block all the same, and its block is the first one that is free.\<close>

lemma empty_root:
  assumes "dir_n d = 0" and "diskpos im = 4096 * P" and "P < unat nb" and "unat nb \<le> 1024"
  shows "\<exists>im'. finishdir nb 4096 d im = Some im' \<and> diskpos im' = 4096 * P \<and> diskmap im' 1058 = 4096 \<and> diskmap im' 1060 = of_nat P"
proof -
  have "alloc nb (of_nat 0) im = Some (4096 * P, im\<lparr>diskpos := 4096 * (P + nblk 0)\<rparr>)" by (rule alloc_spec) (use assms in \<open>simp_all add: nblk_def\<close>)
  then have al: "alloc nb 0 im = Some (4096 * P, im\<lparr>diskpos := 4096 * P\<rparr>)" by (simp add: nblk_def)
  have n: "unat (fmt_roundup 4096 BLKSIZE div BLKSIZE) = 1"
    using fmt_roundup_spec [of 4096] by (simp add: unat_div_distrib nblk_def)
  show ?thesis using assms(1) by (simp add: finishdir_def al fmt_roundup_int_zero finishfile_def n NDIRECT_def Let_def put_words_apply)
qed

end
