(* ===== verification/Spec2Isabelle.thy ===== *)
theory Spec2Isabelle
  imports Boot_Init Idt Mp_Config Disk_Io Devices Monitor Shell User_Input User_Print Spawn Cow Kdebug Printfmt Pipe Fsformat File_Client
begin

text \<open>
  Verification of the JOS kernel, its user library and its file system
  (\<open>src/sisop_2020b_g06_delpino_romero-main\<close>): an exokernel for 32-bit x86 with virtual memory,
  preemptive user environments on several CPUs, system calls, user-level page fault handlers, and a
  file system that runs as a user environment.

  \<^bold>\<open>How the program is put together.\<close> The kernel keeps an array \<open>pages\<close> of physical frames with
  reference counts, an array \<open>envs\<close> of environments with a page directory each, an array of CPUs and
  the input ring of the console. A trap enters the kernel (\<open>trap\<close>), which takes the kernel lock,
  dispatches to a handler (a system call, a page fault, the timer, the keyboard) and returns to an
  environment with \<open>env_run\<close>, picks another one with \<open>sched_yield\<close>, or halts the CPU. The handlers
  change address spaces with the page table operations, which take frames from the page allocator.
  Above the kernel stand the user library (copy-on-write \<open>fork\<close>, strings and formatted output, pipes,
  file descriptors) and the file server with its file system and block cache.

  \<^bold>\<open>Theories, in import order.\<close>

  \<^item> \<open>Jos_Prelude\<close>: machine words, rounding, the constants of \<open>inc/mmu.h\<close> and \<open>inc/memlayout.h\<close>,
    error codes, bytes of words and generic lemmas.
  \<^item> \<open>Kernel_State\<close>: records for \<open>struct PageInfo\<close>, \<open>Env\<close>, \<open>Trapframe\<close>, \<open>CpuInfo\<close>, the console and
    the kernel globals; physical memory is a function from word addresses to words, so page tables
    live in the memory they describe; \<open>PADDR\<close>, \<open>KADDR\<close>, \<open>pa2page\<close> with their panics.
  \<^item> \<open>Phys_Alloc\<close>: \<open>boot_alloc\<close>, \<open>page_init\<close>, \<open>page_alloc\<close>, \<open>page_free\<close>, \<open>page_decref\<close> and
    \<open>check_page_alloc\<close> of \<open>kern/pmap.c\<close>, with the free list invariant and the locale
    \<open>page_allocator\<close>; the self test passes, and pages that are freed come back.
  \<^item> \<open>Page_Table\<close>: \<open>pgdir_walk\<close>, \<open>page_lookup\<close>, \<open>page_insert\<close>, \<open>page_remove\<close>, \<open>boot_map_region\<close>,
    \<open>mmio_map_region\<close>; the abstract state is a map from virtual pages to frames and permissions,
    which the operations refine, with reference counts equal to the number of mappings (C5, C6).
  \<^item> \<open>User_Mem\<close>, \<open>User_Access\<close>: \<open>user_mem_check\<close> and \<open>user_mem_assert\<close>; accesses of the kernel to
    user memory through the MMU (C12).
  \<^item> \<open>Env\<close>, \<open>Env_Inv\<close>: the whole of \<open>kern/env.c\<close>; the invariant \<open>kinv\<close> of the kernel (C8 to C11).
  \<^item> \<open>Boot_Map\<close>, \<open>Mem_Init\<close>, \<open>Boot_Check\<close>, \<open>Boot_Init\<close>: what \<open>boot_map_region\<close> does to the kernel part of a
    directory; \<open>mem_init\<close> and \<open>mem_init_mp\<close>; the memory map they build and the self test
    \<open>check_kern_pgdir\<close> (C4); that the boot establishes \<open>kinv\<close> (C1).
  \<^item> \<open>Mp_Config\<close>: \<open>kern/mpconfig.c\<close>; the search for the tables is exact, and all processors of a table are found.
  \<^item> \<open>Disk_Io\<close>: \<open>fs/ide.c\<close> and \<open>boot/main.c\<close> on drives that follow the ATA registers; what is written is read
    back, and the boot loader loads the bytes of a segment.
  \<^item> \<open>Sched\<close>: \<open>kern/sched.c\<close>, \<open>kern/spinlock.c\<close>, \<open>env_run\<close>, \<open>env_destroy\<close>, and the outcomes of
    kernel code: it returns, goes to user mode, halts the CPU, enters the monitor or panics (C15).
  \<^item> \<open>Console\<close>: the input ring of \<open>kern/console.c\<close>, with the locale \<open>byte_queue\<close> of bounded
    first-in first-out queues (C25).
  \<^item> \<open>Devices\<close>: the rest of \<open>kern/console.c\<close>, and \<open>kern/picirq.c\<close>: the serial port, the parallel port, the
    display as a window on a roll of paper (C2), the keyboard and its modifier keys (C36), and that
    the state of the devices stays well formed whatever the hardware delivers (C13).
  \<^item> \<open>Syscall\<close>, \<open>Syscall_Inv\<close>: every handler of \<open>kern/syscall.c\<close> and that each keeps the invariant and
    touches no environment the caller has no right to (C16, C17).
  \<^item> \<open>Trap\<close>: \<open>kern/trap.c\<close>; safety of the traps, except the two system calls with known faults, delivery of
    page faults, progress under the timer and the kernel stacks (C18 to C22).
  \<^item> \<open>Idt\<close>: \<open>trap_init\<close> with the packed gates, and \<open>kern/trapentry.S\<close> as operations on the stack; every
    vector reaches \<open>trap\<close> with a whole trap frame (C23).
  \<^item> \<open>Fork\<close>, \<open>Cow\<close>: \<open>lib/fork.c\<close>, \<open>lib/pgfault.c\<close> and \<open>lib/ipc.c\<close>, user code as sequences of the system
    calls above; what \<open>fork\<close> makes of the two address spaces, with and without a handler installed (C34), and the private copy that the page
    fault handler makes of a copy-on-write page (C7). The stack that this code itself uses is not
    modelled: a push to a page that has just become copy-on-write runs the handler, which is the case
    of \<open>Cow\<close>.
  \<^item> \<open>Kdebug\<close>: \<open>kern/kdebug.c\<close>; the binary search in the table of stabs ends (C24) and is exact (C14).
  \<^item> \<open>Strings\<close>, \<open>Printfmt\<close>: \<open>lib/string.c\<close> and \<open>lib/printfmt.c\<close> (C28 to C30).
  \<^item> \<open>Cmd_Line\<close>, \<open>Monitor\<close>, \<open>Shell\<close>: the loops that cut a line into words in place; \<open>runcmd\<close> of
    \<open>kern/monitor.c\<close> with the table of commands, and the stack frames of \<open>mon_backtrace\<close> (C3); the tokens
    and the interpreter of \<open>user/sh.c\<close>, which refines the meaning of the list of tokens (C26).
  \<^item> \<open>User_Input\<close>: \<open>lib/readline.c\<close> and \<open>lib/args.c\<close>; the line that the keys give, in bounds of the buffer, and the
    flags of a command line as \<open>inc/args.h\<close> promises them.
  \<^item> \<open>User_Print\<close>: \<open>lib/fprintf.c\<close>, \<open>lib/printf.c\<close> and \<open>lib/console.c\<close>; the pieces that are written are the output.
  \<^item> \<open>Spawn\<close>: \<open>lib/spawn.c\<close>; the first stack page of a program, as its entry code \<open>lib/entry.S\<close> reads it (C27), and the pages of its segments.
  \<^item> \<open>Pipe\<close>: \<open>lib/pipe.c\<close> as a step relation of a reader and a writer, one step for each test, store, load and increment (C31); one of them can always go on.
  \<^item> \<open>Block_Cache\<close>: \<open>fs/bc.c\<close>, with the locale \<open>block_store\<close> (C33); its self test passes.
  \<^item> \<open>Fs\<close>, \<open>Fs_Inv\<close>: \<open>fs/fs.c\<close>; the bitmap, and files as sequences of bytes (C35, C37, C38).
  \<^item> \<open>Fsformat\<close>: \<open>fs/fsformat.c\<close>, the builder of the disk image on the host, and the file system on the image (C32).
  \<^item> \<open>File_Server\<close>: \<open>fs/serv.c\<close>; the table of open files under requests and clients that share,
    drop and overwrite the descriptor pages (C39).
  \<^item> \<open>File_Client\<close>: \<open>lib/fd.c\<close>, \<open>lib/file.c\<close> and \<open>pipe\<close> of \<open>lib/pipe.c\<close> with the closing of a pipe, composed with the
    server and the file system (C40).

  \<^bold>\<open>Conventions.\<close> A C integer is a word of its width, and \<open>unat\<close> or \<open>sint\<close> read it as the C type
  does. A kernel function that may panic, enter the monitor or not return gives an outcome; a
  library or file system function that may panic gives an option. An error code is a value of the
  datatype \<open>error\<close>. Pointers to kernel structures are indices into their arrays, null is
  \<open>None\<close>; pointers to user memory are words that go through the page tables. Loops over a known
  range are structural recursions. A loop that may run for ever (a string without its zero byte, a
  counter that wraps around) is a \<open>partial_function\<close>, and the theorems state that it returns under
  their hypotheses. Fuel is used once, to count the free list in \<open>check_page_alloc\<close>: the fuel is
  the number of pages, and a list of distinct pages is never longer.

  \<^bold>\<open>Locales.\<close> \<open>page_allocator\<close> is what the page tables and environments rely on, \<open>byte_queue\<close> the
  contract of the console ring and of the pipe, \<open>block_store\<close> that of the block cache towards the
  file system. Each is interpreted on the model of the code that provides it.

  \<^bold>\<open>Not modelled.\<close> The local interrupt controllers and the entry code of the kernel are device registers and assembly; what the
  modelled code needs of them is a parameter. Where the
  kernel enters the monitor the kernel model ends; the commands of the monitor only print. The calls
  of the shell and of \<open>spawn\<close> are logged and their results are parameters. The small programs under
  \<open>user\<close> and the tests of the file system are left out. The exercises in the other directories of the repository are
  separate small programs.
\<close>

end
